(* ===== verification/Prelude.thy ===== *)
theory Prelude
  imports Main "HOL-Library.Char_ord"
begin

text \<open>
  What every component shares: Python byte strings as lists of characters, the
  outcome of a method that may raise after it has already changed its object,
  decimal, hexadecimal and big-endian numbers as the sources print and read them, and
  \<open>bytes.split\<close>.  The lemmas that components use over and over are declared
  \<open>[simp]\<close> or collected in \<open>outcome_simps\<close>.
\<close>

section \<open>Byte strings\<close>

type_synonym bytes = "char list"

abbreviation CR :: char where "CR \<equiv> CHR 0x0D"
abbreviation LF :: char where "LF \<equiv> CHR 0x0A"
abbreviation CRLF :: bytes where "CRLF \<equiv> [CR, LF]"

section \<open>Outcomes: a method returns or raises, and either way leaves a state\<close>

text \<open>
  A Python method mutates \<open>self\<close> and may then raise.  The mutation made before
  the \<open>raise\<close> stays, so an exception carries the state it leaves behind.
\<close>

datatype ('e, 's) outcome = Ok 's | Exc 'e 's

fun state_of :: "('e, 's) outcome \<Rightarrow> 's" where
  "state_of (Ok s) = s"
| "state_of (Exc e s) = s"

fun and_then :: "('e, 's) outcome \<Rightarrow> ('s \<Rightarrow> ('e, 's) outcome) \<Rightarrow> ('e, 's) outcome" where
  "and_then (Ok s) k = k s"
| "and_then (Exc e s) k = Exc e s"

fun map_state :: "('s \<Rightarrow> 's) \<Rightarrow> ('e, 's) outcome \<Rightarrow> ('e, 's) outcome" where
  "map_state f (Ok s) = Ok (f s)"
| "map_state f (Exc e s) = Exc e (f s)"

named_theorems outcome_simps

lemma and_then_Ok_iff [outcome_simps]:
  "and_then r k = Ok t \<longleftrightarrow> (\<exists>s. r = Ok s \<and> k s = Ok t)"
  by (cases r) auto

lemma and_then_Exc_iff [outcome_simps]:
  "and_then r k = Exc e t \<longleftrightarrow> r = Exc e t \<or> (\<exists>s. r = Ok s \<and> k s = Exc e t)"
  by (cases r) auto

lemma map_state_and_then [outcome_simps]:
  "map_state f (and_then r k) = and_then r (\<lambda>s. map_state f (k s)) \<or> (\<exists>e s. r = Exc e s)"
  by (cases r) auto

section \<open>Decimal numbers\<close>

definition is_digit :: "char \<Rightarrow> bool" where
  "is_digit c \<longleftrightarrow> 48 \<le> (of_char c :: nat) \<and> (of_char c :: nat) \<le> 57"

definition digit_val :: "char \<Rightarrow> nat" where
  "digit_val c = of_char c - 48"

definition digit_char :: "nat \<Rightarrow> char" where
  "digit_char n = ''0123456789'' ! n"

fun int_of_dec :: "bytes \<Rightarrow> nat" where
  "int_of_dec s = foldl (\<lambda>a c. 10 * a + digit_val c) 0 s"

fun dec :: "nat \<Rightarrow> bytes" where
  "dec n = (if n < 10 then [digit_char n] else dec (n div 10) @ [digit_char (n mod 10)])"

declare dec.simps [simp del]

lemma upto_10: "n < 10 \<longleftrightarrow> n \<in> {0, 1, 2, 3, 4, 5, 6, 7, 8, 9::nat}"
  by auto

lemma not_is_digit [simp]: "\<not> is_digit CHR '':''" "\<not> is_digit LF" "\<not> is_digit CR" "\<not> is_digit CHR '',''"
  by (simp_all add: is_digit_def)

lemma is_digit_zero [simp]: "is_digit CHR ''0''"
  by (simp add: is_digit_def)

lemma digit_char_is_digit [simp]: "n < 10 \<Longrightarrow> is_digit (digit_char n)"
  unfolding upto_10 by (elim insertE emptyE) (simp_all add: digit_char_def is_digit_def)

lemma digit_val_char [simp]: "n < 10 \<Longrightarrow> digit_val (digit_char n) = n"
  unfolding upto_10 by (elim insertE emptyE) (simp_all add: digit_char_def digit_val_def)

lemma digit_val_bound: "is_digit c \<Longrightarrow> digit_val c < 10"
  by (auto simp: digit_val_def is_digit_def)

lemma digit_char_zero: "n < 10 \<Longrightarrow> digit_char n = CHR ''0'' \<longleftrightarrow> n = 0"
  unfolding upto_10 by (elim insertE emptyE) (simp_all add: digit_char_def)

lemma foldl_dec:
  "foldl (\<lambda>a c. 10 * a + digit_val c) a s = a * 10 ^ length s + foldl (\<lambda>a c. 10 * a + digit_val c) 0 s"
proof (induction s arbitrary: a)
  case (Cons c s)
  show ?case
    using Cons [of "10 * a + digit_val c"] Cons [of "digit_val c"]
    by (simp add: algebra_simps)
qed simp

lemma int_of_dec_append [simp]:
  "int_of_dec (s @ t) = int_of_dec s * 10 ^ length t + int_of_dec t"
  using foldl_dec [of "int_of_dec s" t] by simp

lemma int_of_dec_single [simp]: "int_of_dec [c] = digit_val c"
  by simp

declare int_of_dec.simps [simp del]

lemma int_of_dec_Nil [simp]: "int_of_dec [] = 0"
  by (simp add: int_of_dec.simps)

lemma int_of_dec_dec [simp]: "int_of_dec (dec n) = n"
proof (induction n rule: dec.induct)
  case (1 n)
  then show ?case by (subst dec.simps) auto
qed

lemma dec_nonempty [simp]: "dec n \<noteq> []"
  by (subst dec.simps) simp

lemma dec_digits: "c \<in> set (dec n) \<Longrightarrow> is_digit c"
proof (induction n rule: dec.induct)
  case (1 n)
  from "1.prems" show ?case
    using digit_char_is_digit [of n] digit_char_is_digit [of "n mod 10"] "1.IH"
    by (subst (asm) dec.simps) (auto split: if_splits)
qed

lemma hd_dec: "hd (dec n) = CHR ''0'' \<longleftrightarrow> n = 0"
proof (induction n rule: dec.induct)
  case (1 n)
  show ?case
  proof (cases "n < 10")
    case True
    then show ?thesis by (subst dec.simps) (simp add: digit_char_zero)
  next
    case False
    then have "n div 10 \<noteq> 0" by simp
    with False 1 show ?thesis by (subst dec.simps) (simp add: hd_append)
  qed
qed

lemma int_of_dec_bound:
  "\<forall>c \<in> set s. is_digit c \<Longrightarrow> int_of_dec s < 10 ^ length s"
proof (induction s rule: rev_induct)
  case (snoc c s)
  then have "int_of_dec s < 10 ^ length s" and "digit_val c < 10"
    using digit_val_bound by auto
  then show ?case by simp
qed simp

lemma int_of_dec_lower:
  assumes "\<forall>c \<in> set s. is_digit c" and "is_digit c" and "c \<noteq> CHR ''0''"
  shows "10 ^ length s \<le> int_of_dec (c # s)"
proof -
  from assms(3) have "of_char c \<noteq> (of_char (CHR ''0'') :: nat)" by (simp only: of_char_eq_iff) simp
  with assms(2) have "1 \<le> digit_val c" by (auto simp: digit_val_def is_digit_def)
  then have "10 ^ length s \<le> digit_val c * 10 ^ length s" by simp
  also have "\<dots> \<le> int_of_dec (c # s)"
    using int_of_dec_append [of "[c]" s] by simp
  finally show ?thesis .
qed

section \<open>Hexadecimal numbers\<close>

definition hex_digits :: bytes where "hex_digits = ''0123456789abcdef''"

text \<open>\<open>'%x' % n\<close>\<close>

fun hex :: "nat \<Rightarrow> bytes" where
  "hex n = (if n < 16 then [hex_digits ! n] else hex (n div 16) @ [hex_digits ! (n mod 16)])"

declare hex.simps [simp del]

definition hex_val :: "char \<Rightarrow> nat option" where
  "hex_val c =
     (let n = of_char c :: nat
      in if 48 \<le> n \<and> n \<le> 57 then Some (n - 48)
         else if 97 \<le> n \<and> n \<le> 102 then Some (n - 87)
         else if 65 \<le> n \<and> n \<le> 70 then Some (n - 55)
         else None)"

lemma hex_induct: "(\<And>n. n < 16 \<Longrightarrow> P [hex_digits ! n] n) \<Longrightarrow>
    (\<And>n. \<not> n < 16 \<Longrightarrow> P (hex (n div 16)) (n div 16) \<Longrightarrow> P (hex (n div 16) @ [hex_digits ! (n mod 16)]) n) \<Longrightarrow> P (hex n) n"
proof (induction n rule: hex.induct)
  case (1 n)
  then show ?case by (cases "n < 16") (simp_all add: hex.simps [of n])
qed

lemma upto_16: "n < 16 \<longleftrightarrow> n \<in> {0, 1, 2, 3, 4, 5, 6, 7, 8, 9, 10, 11, 12, 13, 14, 15::nat}"
  by (simp only: insert_iff empty_iff) presburger

lemma hex_digit: "n < 16 \<Longrightarrow> hex_val (hex_digits ! n) = Some n \<and> hex_digits ! n \<in> set hex_digits"
  by (auto simp: upto_16 hex_digits_def hex_val_def)

lemma hex_chars: "set (hex n) \<subseteq> set hex_digits \<and> hex n \<noteq> []"
  by (induction rule: hex_induct) (auto simp: hex_digit)

lemma hex_value: "foldl (\<lambda>a c. 16 * a + the (hex_val c)) 0 (hex n) = n"
  by (induction rule: hex_induct) (simp_all add: hex_digit)

lemma hex_inj [simp]: "hex m = hex n \<longleftrightarrow> m = n"
  by (metis hex_value)

section \<open>Big-endian integers, as \<open>struct.pack\<close> and \<open>struct.unpack\<close> write them\<close>

fun be_bytes :: "nat \<Rightarrow> nat \<Rightarrow> bytes" where
  "be_bytes 0 n = []"
| "be_bytes (Suc k) n = be_bytes k (n div 256) @ [char_of (n mod 256)]"

definition be_nat :: "bytes \<Rightarrow> nat" where
  "be_nat bs = foldl (\<lambda>a c. 256 * a + of_char c) 0 bs"

lemma be_nat_snoc [simp]: "be_nat (bs @ [c]) = 256 * be_nat bs + of_char c"
  by (simp add: be_nat_def)

lemma be_nat_Nil [simp]: "be_nat [] = 0"
  by (simp add: be_nat_def)

lemma length_be_bytes [simp]: "length (be_bytes k n) = k"
  by (induction k arbitrary: n) auto

lemma be_nat_be_bytes: "n < 256 ^ k \<Longrightarrow> be_nat (be_bytes k n) = n"
proof (induction k arbitrary: n)
  case (Suc k)
  then have "n div 256 < 256 ^ k"
    by (simp add: less_mult_imp_div_less mult.commute)
  with Suc.IH show ?case by simp
qed simp

lemma be_nat_bound: "be_nat bs < 256 ^ length bs"
proof (induction bs rule: rev_induct)
  case (snoc c bs)
  define N :: nat where "N = 256 ^ length bs"
  define b :: nat where "b = be_nat bs"
  define o' :: nat where "o' = of_char c"
  have "o' < 256" unfolding o'_def by (rule nat_of_char_less_256)
  moreover from snoc have "b < N" by (simp add: N_def b_def)
  ultimately have "256 * b + o' < 256 * N" by linarith
  then show ?case by (simp add: N_def b_def o'_def)
qed simp

section \<open>\<open>split\<close> and \<open>join\<close> on sequences\<close>

text \<open>
  \<open>split_once d s\<close> is \<open>s.split(d, 1)\<close>: the text before and after the leftmost
  occurrence of \<open>d\<close>, or \<open>None\<close> when there is none (Python then returns a list
  of one element).  \<open>py_split d s\<close> is \<open>s.split(d)\<close>.  Python refuses an empty
  separator with \<open>ValueError\<close>; every user here passes a nonempty one.
\<close>

fun split_once :: "'a list \<Rightarrow> 'a list \<Rightarrow> ('a list \<times> 'a list) option" where
  "split_once d s =
     (if take (length d) s = d then Some ([], drop (length d) s)
      else case s of
          [] \<Rightarrow> None
        | c # cs \<Rightarrow> map_option (\<lambda>(a, b). (c # a, b)) (split_once d cs))"

declare split_once.simps [simp del]

lemma split_once_Nil [simp]: "d \<noteq> [] \<Longrightarrow> split_once d [] = None"
  by (subst split_once.simps) simp

lemma split_once_Some: "split_once d s = Some (a, b) \<Longrightarrow> s = a @ d @ b"
proof (induction d s arbitrary: a b rule: split_once.induct)
  case (1 d s)
  show ?case
  proof (cases "take (length d) s = d")
    case True
    with "1.prems" have "a = []" and "b = drop (length d) s"
      by (simp_all add: split_once.simps [of d s])
    with True show ?thesis by (metis append_Nil append_take_drop_id)
  next
    case False
    with "1.prems" obtain c cs a' where "s = c # cs" "split_once d cs = Some (a', b)" "a = c # a'"
      by (auto simp: split_once.simps [of d s] split: list.splits)
    with "1.IH" False show ?thesis by simp
  qed
qed

lemma split_once_length: "split_once d s = Some (a, b) \<Longrightarrow> length s = length a + length d + length b"
  by (drule split_once_Some) simp

lemma split_once_append: "split_once d s = Some (a, b) \<Longrightarrow> split_once d (s @ t) = Some (a, b @ t)"
proof (induction d s arbitrary: a b rule: split_once.induct)
  case (1 d s)
  show ?case
  proof (cases "take (length d) s = d")
    case True
    then have "length d \<le> length s" by (metis length_take min.cobounded1)
    with True "1.prems" show ?thesis
      by (simp add: split_once.simps [of d s] split_once.simps [of d "s @ t"])
  next
    case False
    with "1.prems" obtain c cs a' where s: "s = c # cs" "split_once d cs = Some (a', b)" "a = c # a'"
      by (auto simp: split_once.simps [of d s] split: list.splits)
    have "length d \<le> length s" using split_once_length [OF "1.prems"] by simp
    with False have "take (length d) (s @ t) \<noteq> d" by simp
    with "1.IH" False s show ?thesis
      by (simp add: split_once.simps [of d "c # cs @ t"])
  qed
qed

lemma split_once_None: "split_once d s = None \<longleftrightarrow> (\<forall>a b. s \<noteq> a @ d @ b)"
proof (induction d s rule: split_once.induct)
  case (1 d s)
  show ?case
  proof (cases "take (length d) s = d")
    case True
    then have "s = [] @ d @ drop (length d) s" by (metis append_Nil append_take_drop_id)
    moreover have "split_once d s \<noteq> None" using True by (simp add: split_once.simps [of d s])
    ultimately show ?thesis by blast
  next
    case False
    then have hd: "s \<noteq> [] @ d @ b" for b by auto
    show ?thesis
    proof (cases s)
      case Nil
      with False show ?thesis by (auto simp: split_once.simps [of d "[]"])
    next
      case (Cons c cs)
      have "(\<forall>a b. s \<noteq> a @ d @ b) \<longleftrightarrow> (\<forall>a b. cs \<noteq> a @ d @ b)"
      proof safe
        fix a b assume "\<forall>a b. s \<noteq> a @ d @ b" and "cs = a @ d @ b"
        with Cons have "s = (c # a) @ d @ b" by simp
        with \<open>\<forall>a b. s \<noteq> a @ d @ b\<close> show False by blast
      next
        fix a b assume *: "\<forall>a b. cs \<noteq> a @ d @ b" and eq: "s = a @ d @ b"
        have "a \<noteq> []" using hd [of b] eq by auto
        with eq Cons obtain a' where "a = c # a'" "cs = a' @ d @ b" by (cases a) auto
        with * show False by blast
      qed
      moreover have "split_once d s = None \<longleftrightarrow> split_once d cs = None"
        using False Cons by (simp add: split_once.simps [of d "c # cs"])
      ultimately show ?thesis using "1.IH" False Cons by simp
    qed
  qed
qed

lemma split_once_first:
  assumes "split_once d (a @ butlast d) = None" and "d \<noteq> []"
  shows "split_once d (a @ d @ b) = Some (a, b)"
  using assms(1)
proof (induction a)
  case Nil
  show ?case by (subst split_once.simps) simp
next
  case (Cons c a)
  have "take (length d) ((c # a) @ d @ b) \<noteq> d"
  proof
    assume *: "take (length d) ((c # a) @ d @ b) = d"
    have "take (length d) ((c # a) @ d @ b) = take (length d) ((c # a) @ butlast d)"
      using assms(2) by (simp add: take_Cons' butlast_conv_take min_def)
    with * have "take (length d) ((c # a) @ butlast d) = d" by simp
    then have "split_once d ((c # a) @ butlast d) \<noteq> None"
      by (subst split_once.simps) simp
    with Cons.prems show False by simp
  qed
  moreover have "split_once d (a @ butlast d) = None"
    using Cons.prems by (auto simp: split_once_None) (metis append_Cons)
  ultimately show ?case using Cons.IH by (subst split_once.simps) simp
qed

function (sequential) py_split :: "'a list \<Rightarrow> 'a list \<Rightarrow> 'a list list" where
  "py_split d s =
     (if d = [] then [s]
      else case split_once d s of
          None \<Rightarrow> [s]
        | Some (a, b) \<Rightarrow> a # py_split d b)"
  by pat_completeness auto
termination
  by (relation "measure (\<lambda>(d, s). length s)") (auto dest: split_once_length)

declare py_split.simps [simp del]

fun join :: "'a list \<Rightarrow> 'a list list \<Rightarrow> 'a list" where
  "join d [] = []"
| "join d [x] = x"
| "join d (x # y # ys) = x @ d @ join d (y # ys)"

lemma py_split_nonempty [simp]: "py_split d s \<noteq> []"
  by (subst py_split.simps) (simp split: option.splits)

lemma py_split_None: "split_once d s = None \<Longrightarrow> py_split d s = [s]"
  by (subst py_split.simps) simp

lemma py_split_Some: "d \<noteq> [] \<Longrightarrow> split_once d s = Some (a, b) \<Longrightarrow> py_split d s = a # py_split d b"
  by (subst py_split.simps) simp

lemma join_py_split: "join d (py_split d s) = s"
proof (induction d s rule: py_split.induct)
  case (1 d s)
  show ?case
  proof (cases "d = [] \<or> split_once d s = None")
    case True
    then show ?thesis by (subst py_split.simps) auto
  next
    case False
    then obtain a b where ab: "split_once d s = Some (a, b)" and d: "d \<noteq> []" by auto
    obtain y ys where y: "py_split d b = y # ys" using py_split_nonempty neq_Nil_conv by metis
    from "1.IH" [OF d ab] y have "join d (y # ys) = b" by simp
    moreover have "s = a @ d @ b" using ab by (rule split_once_Some)
    ultimately show ?thesis using ab d y by (simp add: py_split_Some)
  qed
qed

text \<open>Splitting a stream can be resumed from its last, unfinished piece.\<close>

lemma py_split_append:
  "d \<noteq> [] \<Longrightarrow> py_split d (s @ t) = butlast (py_split d s) @ py_split d (last (py_split d s) @ t)"
proof (induction d s rule: py_split.induct)
  case (1 d s)
  show ?case
  proof (cases "split_once d s")
    case None
    then show ?thesis by (simp add: py_split_None)
  next
    case (Some ab)
    then obtain a b where ab: "split_once d s = Some (a, b)" by (cases ab) auto
    with "1.prems" "1.IH" show ?thesis
      by (simp add: py_split_Some split_once_append)
  qed
qed

lemma py_split_last: "d \<noteq> [] \<Longrightarrow> split_once d (last (py_split d s)) = None"
proof (induction d s rule: py_split.induct)
  case (1 d s)
  then show ?case by (subst py_split.simps) (auto split: option.splits)
qed

end
