(* ===== verification/Framing.thy ===== *)
theory Framing
  imports Prelude
begin

text \<open>
  The contract shared by the push parsers of \<open>twisted/protocols/basic.py\<close> and
  \<open>twisted/web/http.py\<close>.  A transport calls
  \<open>dataReceived\<close> with whatever chunk the network delivered.  The first locale says
  that the boundaries between chunks do not matter; the second adds a way to frame
  messages and says that one frame, received at a boundary, delivers one message.
  Each receiver interprets them on its own model.
\<close>

section \<open>Feeding a stream\<close>

definition feed :: "(bytes \<Rightarrow> 's \<Rightarrow> 's) \<Rightarrow> bytes list \<Rightarrow> 's \<Rightarrow> 's" where
  "feed recv chunks s = foldl (\<lambda>s d. recv d s) s chunks"

lemma feed_simps [simp]:
  "feed recv [] s = s"
  "feed recv (c # cs) s = feed recv cs (recv c s)"
  "feed recv (cs @ ds) s = feed recv ds (feed recv cs s)"
  by (simp_all add: feed_def)

lemma feed_invariant:
  "(\<And>d s. I s \<Longrightarrow> I (recv d s)) \<Longrightarrow> I s \<Longrightarrow> I (feed recv cs s)"
  by (induction cs arbitrary: s) simp_all

text \<open>
  A receiver whose \<open>dataReceived\<close> may not return (its loop may not end) is fed in
  the same way; the feed returns when every call does.
\<close>

fun feed_opt :: "(bytes \<Rightarrow> 's \<Rightarrow> 's option) \<Rightarrow> bytes list \<Rightarrow> 's \<Rightarrow> 's option" where
  "feed_opt recv [] s = Some s"
| "feed_opt recv (c # cs) s = Option.bind (recv c s) (feed_opt recv cs)"

lemma feed_opt_total:
  assumes "\<And>d s. I s \<Longrightarrow> recvo d s = Some (recv d s) \<and> I (recv d s)"
  shows "I s \<Longrightarrow> feed_opt recvo cs s = Some (feed recv cs s)"
  by (induction cs arbitrary: s) (simp_all add: assms)

section \<open>Receivers that do not see chunk boundaries\<close>

text \<open>
  \<open>safe d s\<close> says that the receiver accepts the data \<open>d\<close> in the state \<open>s\<close>: some
  receivers promise nothing about a connection once they have refused what it sent.
\<close>

locale stream_receiver =
  fixes recv :: "bytes \<Rightarrow> 's \<Rightarrow> 's"
    and view :: "'s \<Rightarrow> 'v"
    and safe :: "bytes \<Rightarrow> 's \<Rightarrow> bool"
  assumes safe_append: "safe (x @ y) s \<Longrightarrow> safe x s \<and> safe y (recv x s)"
    and view_append: "safe (x @ y) s \<Longrightarrow> view (recv (x @ y) s) = view (recv y (recv x s))"
    and view_cong: "view s = view u \<Longrightarrow> safe d s = safe d u \<and> view (recv d s) = view (recv d u)"
begin

lemma feed_concat: "cs \<noteq> [] \<Longrightarrow> safe (concat cs) s \<Longrightarrow> view (feed recv cs s) = view (recv (concat cs) s)"
proof (induction cs rule: rev_nonempty_induct)
  case (snoc x xs)
  from snoc.prems safe_append [of "concat xs" x s] have "safe (concat xs) s" by simp
  with snoc.IH have "view (recv x (feed recv xs s)) = view (recv x (recv (concat xs) s))"
    using view_cong by blast
  with snoc.prems view_append [of "concat xs" x s] show ?case by simp
qed simp

lemma feed_safe: "safe (concat cs @ y) s \<Longrightarrow> safe y (feed recv cs s)"
  by (induction cs arbitrary: s) (use safe_append in auto)

lemma feed_chunking:
  "cs \<noteq> [] \<Longrightarrow> ds \<noteq> [] \<Longrightarrow> safe (concat cs) s \<Longrightarrow> concat cs = concat ds \<Longrightarrow>
     view (feed recv cs s) = view (feed recv ds s)"
  by (simp add: feed_concat)

end

section \<open>Receivers of framed messages\<close>

locale framed_receiver = stream_receiver recv view safe
  for recv :: "bytes \<Rightarrow> 's \<Rightarrow> 's" and view :: "'s \<Rightarrow> 'v" and safe :: "bytes \<Rightarrow> 's \<Rightarrow> bool" +
  fixes frame :: "'m \<Rightarrow> bytes"
    and accepted :: "'m \<Rightarrow> bool"
    and boundary :: "'s \<Rightarrow> bool"
    and delivered :: "'s \<Rightarrow> 'm list"
  assumes frame_safe: "boundary s \<Longrightarrow> \<forall>m \<in> set ms. accepted m \<Longrightarrow> safe (concat (map frame ms)) s"
    and frame_boundary: "boundary s \<Longrightarrow> accepted m \<Longrightarrow> boundary (recv (frame m) s)"
    and frame_delivered: "boundary s \<Longrightarrow> accepted m \<Longrightarrow> delivered (recv (frame m) s) = delivered s @ [m]"
    and view_delivered: "view s = view u \<Longrightarrow> delivered s = delivered u"
begin

lemma feed_frames:
  "boundary s \<Longrightarrow> \<forall>m \<in> set ms. accepted m \<Longrightarrow>
     boundary (feed recv (map frame ms) s) \<and> delivered (feed recv (map frame ms) s) = delivered s @ ms"
  by (induction ms arbitrary: s) (simp_all add: frame_boundary frame_delivered)

text \<open>
  Everything that was framed arrives, once, in order, whatever the transport did to
  the chunk boundaries.
\<close>

lemma delivery:
  assumes "boundary s" "\<forall>m \<in> set ms. accepted m" "cs \<noteq> []" "ms \<noteq> []"
    and "concat cs = concat (map frame ms)"
  shows "delivered (feed recv cs s) = delivered s @ ms"
proof -
  have "safe (concat cs) s" using assms(1,2,5) frame_safe by simp
  then have "view (feed recv cs s) = view (feed recv (map frame ms) s)"
    using assms(3,4,5) by (intro feed_chunking) simp_all
  then have "delivered (feed recv cs s) = delivered (feed recv (map frame ms) s)"
    by (rule view_delivered)
  with assms(1,2) show ?thesis by (simp add: feed_frames)
qed

end

end
