(* ===== verification/Netstring.thy ===== *)
theory Netstring
  imports Framing
begin

text \<open>
  \<open>NetstringReceiver\<close> of \<open>twisted/protocols/basic.py\<close>: a push parser that is fed
  chunks of a byte stream and hands complete netstrings to the application.  The
  record \<open>netstring\<close> holds the attributes \<open>makeConnection\<close> sets, every method is
  one definition, and a method that raises is an \<open>outcome\<close>.  What the receiver
  does to the outside (the call of \<open>stringReceived\<close>, writing to and closing the
  transport) is appended to \<open>ns_events\<close>.  \<open>stringReceived\<close> itself is the
  application's override; it is modelled as observing the string.
\<close>

section \<open>State\<close>

datatype ns_mode = PARSING_LENGTH | PARSING_PAYLOAD

datatype ns_message = MISSING_LENGTH | TOO_LONG nat | MISSING_COMMA

datatype ns_error = IncompleteNetstring | NetstringParseError ns_message

datatype ns_event = StringReceived bytes | TransportWrite bytes | LoseConnection

record netstring =
  ns_MAX_LENGTH :: nat
  ns_remainingData :: bytes
  ns_currentPayloadSize :: nat
  ns_payload :: bytes
  ns_state :: ns_mode
  ns_expectedPayloadSize :: nat
  ns_brokenPeer :: bool
  ns_events :: "ns_event list"

definition ns_makeConnection :: "nat \<Rightarrow> netstring" where
  "ns_makeConnection n =
     \<lparr> ns_MAX_LENGTH = n, ns_remainingData = [], ns_currentPayloadSize = 0,
       ns_payload = [], ns_state = PARSING_LENGTH, ns_expectedPayloadSize = 0,
       ns_brokenPeer = False, ns_events = [] \<rparr>"

section \<open>Sending\<close>

definition ns_formatNetstring :: "bytes \<Rightarrow> bytes" where
  "ns_formatNetstring data = dec (length data) @ '':'' @ data @ '',''"

definition ns_sendString :: "bytes \<Rightarrow> netstring \<Rightarrow> netstring" where
  "ns_sendString str s = s\<lparr>ns_events := ns_events s @ [TransportWrite (ns_formatNetstring str)]\<rparr>"

section \<open>The two regular expressions\<close>

text \<open>
  \<open>(0|[1-9]\d*)\<close> at the start of the data: the number and what follows it.  The
  digits are matched greedily; giving some of them back never helps, since what
  must follow is not a digit.
\<close>

fun ns_number :: "bytes \<Rightarrow> (bytes \<times> bytes) option" where
  "ns_number [] = None"
| "ns_number (c # cs) =
     (if c = CHR ''0'' then Some ([c], cs)
      else if is_digit c then Some (c # takeWhile is_digit cs, dropWhile is_digit cs)
      else None)"

text \<open>\<open>_LENGTH = (0|[1-9]\d*)(:)\<close>: the number and the data after the colon.\<close>

definition ns_LENGTH :: "bytes \<Rightarrow> (bytes \<times> bytes) option" where
  "ns_LENGTH data =
     (case ns_number data of
        Some (num, c # rest) \<Rightarrow> if c = CHR '':'' then Some (num, rest) else None
      | _ \<Rightarrow> None)"

text \<open>
  \<open>_LENGTH_PREFIX = (0|[1-9]\d*)$\<close>.  Python's \<open>$\<close> matches at the end of the data
  and also just before a newline that ends it.
\<close>

definition ns_LENGTH_PREFIX :: "bytes \<Rightarrow> bytes option" where
  "ns_LENGTH_PREFIX data =
     (case ns_number data of
        Some (num, rest) \<Rightarrow> if rest = [] \<or> rest = [LF] then Some num else None
      | None \<Rightarrow> None)"

section \<open>Consuming the length\<close>

text \<open>\<open>math.ceil(math.log10(n))\<close>, in exact arithmetic, for positive \<open>n\<close>.\<close>

function ceil_log10 :: "nat \<Rightarrow> nat" where
  "ceil_log10 n = (if n \<le> 1 then 0 else Suc (ceil_log10 ((n + 9) div 10)))"
  by pat_completeness auto
termination
  by (relation "measure id") auto

declare ceil_log10.simps [simp del]

definition ns_maxLengthSize :: "netstring \<Rightarrow> nat" where
  "ns_maxLengthSize s = ceil_log10 (ns_MAX_LENGTH s) + 1"

definition ns_checkStringSize :: "netstring \<Rightarrow> bytes \<Rightarrow> ns_error option" where
  "ns_checkStringSize s lengthAsString =
     (if length lengthAsString > ns_maxLengthSize s
      then Some (NetstringParseError (TOO_LONG (ns_MAX_LENGTH s))) else None)"

definition ns_extractLength :: "netstring \<Rightarrow> bytes \<Rightarrow> ns_error + nat" where
  "ns_extractLength s lengthAsString =
     (case ns_checkStringSize s lengthAsString of
        Some e \<Rightarrow> Inl e
      | None \<Rightarrow>
          let len = int_of_dec lengthAsString
          in if len > ns_MAX_LENGTH s
             then Inl (NetstringParseError (TOO_LONG (ns_MAX_LENGTH s))) else Inr len)"

definition ns_processLength ::
  "netstring \<Rightarrow> bytes \<times> bytes \<Rightarrow> (ns_error, netstring) outcome" where
  "ns_processLength s m =
     (case ns_extractLength s (fst m) of
        Inl e \<Rightarrow> Exc e s
      | Inr len \<Rightarrow> Ok (s\<lparr>ns_expectedPayloadSize := len + 1, ns_remainingData := snd m\<rparr>))"

definition ns_checkPartialLengthSpecification :: "netstring \<Rightarrow> ns_error option" where
  "ns_checkPartialLengthSpecification s =
     (case ns_LENGTH_PREFIX (ns_remainingData s) of
        None \<Rightarrow> Some (NetstringParseError MISSING_LENGTH)
      | Some lengthSpecification \<Rightarrow>
          (case ns_extractLength s lengthSpecification of Inl e \<Rightarrow> Some e | Inr _ \<Rightarrow> None))"

definition ns_consumeLength :: "netstring \<Rightarrow> (ns_error, netstring) outcome" where
  "ns_consumeLength s =
     (case ns_LENGTH (ns_remainingData s) of
        None \<Rightarrow>
          (case ns_checkPartialLengthSpecification s of
             Some e \<Rightarrow> Exc e s
           | None \<Rightarrow> Exc IncompleteNetstring s)
      | Some lengthMatch \<Rightarrow> ns_processLength s lengthMatch)"

definition ns_prepareForPayloadConsumption :: "netstring \<Rightarrow> netstring" where
  "ns_prepareForPayloadConsumption s =
     s\<lparr>ns_state := PARSING_PAYLOAD, ns_currentPayloadSize := 0, ns_payload := []\<rparr>"

section \<open>Consuming the payload\<close>

definition ns_payloadComplete :: "netstring \<Rightarrow> bool" where
  "ns_payloadComplete s \<longleftrightarrow>
     length (ns_remainingData s) + ns_currentPayloadSize s \<ge> ns_expectedPayloadSize s"

text \<open>
  The difference is a natural number: \<open>ns_inv\<close> below keeps the current size at or
  below the expected one.
\<close>

definition ns_extractPayload :: "netstring \<Rightarrow> netstring" where
  "ns_extractPayload s =
     (if ns_payloadComplete s then
        let remainingPayloadSize = ns_expectedPayloadSize s - ns_currentPayloadSize s
        in s\<lparr>ns_payload := ns_payload s @ take remainingPayloadSize (ns_remainingData s),
             ns_remainingData := drop remainingPayloadSize (ns_remainingData s),
             ns_currentPayloadSize := ns_expectedPayloadSize s\<rparr>
      else
        s\<lparr>ns_payload := ns_payload s @ ns_remainingData s,
          ns_currentPayloadSize := ns_currentPayloadSize s + length (ns_remainingData s),
          ns_remainingData := []\<rparr>)"

definition ns_checkForTrailingComma :: "netstring \<Rightarrow> ns_error option" where
  "ns_checkForTrailingComma s =
     (if (if ns_payload s = [] then [] else [last (ns_payload s)]) \<noteq> '',''
      then Some (NetstringParseError MISSING_COMMA) else None)"

definition ns_processPayload :: "netstring \<Rightarrow> netstring" where
  "ns_processPayload s = s\<lparr>ns_events := ns_events s @ [StringReceived (butlast (ns_payload s))]\<rparr>"

definition ns_consumePayload :: "netstring \<Rightarrow> (ns_error, netstring) outcome" where
  "ns_consumePayload s =
     (let s = ns_extractPayload s
      in if ns_currentPayloadSize s < ns_expectedPayloadSize s then Exc IncompleteNetstring s
         else case ns_checkForTrailingComma s of
             Some e \<Rightarrow> Exc e s
           | None \<Rightarrow> Ok (ns_processPayload (s\<lparr>ns_state := PARSING_LENGTH\<rparr>)))"

section \<open>The receiving loop\<close>

definition ns_consumeData :: "netstring \<Rightarrow> (ns_error, netstring) outcome" where
  "ns_consumeData s =
     and_then
       (if ns_state s = PARSING_LENGTH
        then and_then (ns_consumeLength s) (\<lambda>s. Ok (ns_prepareForPayloadConsumption s))
        else Ok s)
       (\<lambda>s. if ns_state s = PARSING_PAYLOAD then ns_consumePayload s else Ok s)"

definition ns_handleParseError :: "netstring \<Rightarrow> netstring" where
  "ns_handleParseError s = s\<lparr>ns_events := ns_events s @ [LoseConnection], ns_brokenPeer := True\<rparr>"

text \<open>
  The loop ends because a consumed netstring takes bytes away, or takes the parser
  from the payload back to the length without adding any.
\<close>

lemma ns_number_length: "ns_number s = Some (n, r) \<Longrightarrow> s = n @ r \<and> n \<noteq> []"
  by (cases s) (auto split: if_splits)

lemma ns_LENGTH_length: "ns_LENGTH s = Some (n, r) \<Longrightarrow> length r < length s"
  by (auto simp: ns_LENGTH_def dest: ns_number_length split: option.splits list.splits if_splits)

lemma ns_consumePayload_Ok:
  "ns_consumePayload s = Ok t \<Longrightarrow>
     ns_state t = PARSING_LENGTH \<and> length (ns_remainingData t) \<le> length (ns_remainingData s)"
  by (auto simp: ns_consumePayload_def ns_extractPayload_def ns_processPayload_def Let_def
      split: if_splits option.splits)

lemma ns_consumeLength_Ok:
  "ns_consumeLength s = Ok t \<Longrightarrow> length (ns_remainingData t) < length (ns_remainingData s)"
  by (auto simp: ns_consumeLength_def ns_processLength_def
      dest: ns_LENGTH_length split: option.splits sum.splits)

definition ns_measure :: "netstring \<Rightarrow> nat" where
  "ns_measure s = 2 * length (ns_remainingData s) + (if ns_state s = PARSING_PAYLOAD then 1 else 0)"

lemma ns_consumeData_measure: "ns_consumeData s = Ok t \<Longrightarrow> ns_measure t < ns_measure s"
  by (cases "ns_state s")
    (fastforce simp: ns_consumeData_def ns_measure_def ns_prepareForPayloadConsumption_def
      outcome_simps dest!: ns_consumePayload_Ok ns_consumeLength_Ok)+

function ns_loop :: "netstring \<Rightarrow> netstring" where
  "ns_loop s =
     (if ns_remainingData s = [] then s
      else case ns_consumeData s of
          Ok s' \<Rightarrow> ns_loop s'
        | Exc IncompleteNetstring s' \<Rightarrow> s'
        | Exc (NetstringParseError m) s' \<Rightarrow> ns_handleParseError s')"
  by pat_completeness auto
termination
  by (relation "measure ns_measure") (auto dest: ns_consumeData_measure)

declare ns_loop.simps [simp del]

definition ns_dataReceived :: "bytes \<Rightarrow> netstring \<Rightarrow> netstring" where
  "ns_dataReceived data s = ns_loop (s\<lparr>ns_remainingData := ns_remainingData s @ data\<rparr>)"

text \<open>The strings handed to the application, in order.\<close>

definition ns_strings :: "netstring \<Rightarrow> bytes list" where
  "ns_strings s = concat (map (\<lambda>e. case e of StringReceived x \<Rightarrow> [x] | _ \<Rightarrow> []) (ns_events s))"

section \<open>The number check\<close>

text \<open>
  The digit count is checked before the digits are converted.  On the numbers the
  two regular expressions let through it never changes the answer: a number
  without leading zeros that has more digits than the limit allows is above the
  limit anyway.
\<close>

lemma ceil_log10_bound: "0 < n \<Longrightarrow> n \<le> 10 ^ ceil_log10 n"
proof (induction n rule: ceil_log10.induct)
  case (1 n)
  show ?case
  proof (cases "n \<le> 1")
    case True
    with "1.prems" show ?thesis by (subst ceil_log10.simps) simp
  next
    case False
    then have "0 < (n + 9) div 10" by (simp add: div_greater_zero_iff)
    with "1.IH" False have "(n + 9) div 10 \<le> 10 ^ ceil_log10 ((n + 9) div 10)" by simp
    then have "10 * ((n + 9) div 10) \<le> 10 ^ ceil_log10 n"
      using False by (simp add: ceil_log10.simps [of n])
    moreover have "n \<le> 10 * ((n + 9) div 10)" by linarith
    ultimately show ?thesis by linarith
  qed
qed

definition ns_is_number :: "bytes \<Rightarrow> bool" where
  "ns_is_number n \<longleftrightarrow> n = ''0'' \<or>
     (\<exists>c cs. n = c # cs \<and> is_digit c \<and> c \<noteq> CHR ''0'' \<and> (\<forall>d \<in> set cs. is_digit d))"

lemma ns_number_is_number: "ns_number s = Some (n, r) \<Longrightarrow> ns_is_number n"
  by (cases s) (auto simp: ns_is_number_def dest: set_takeWhileD split: if_splits)

lemma ns_is_number_digits: "ns_is_number n \<Longrightarrow> d \<in> set n \<Longrightarrow> is_digit d"
  by (auto simp: ns_is_number_def)

lemma ns_is_number_nonempty: "ns_is_number n \<Longrightarrow> n \<noteq> []"
  by (auto simp: ns_is_number_def)

lemma ns_is_number_size:
  assumes n: "ns_is_number n" and long: "Suc (ceil_log10 k) < length n"
  shows "k < int_of_dec n"
proof -
  have "n \<noteq> ''0''" using long by (intro notI) simp
  with n obtain c cs where c: "n = c # cs" "is_digit c" "c \<noteq> CHR ''0''" "\<forall>d \<in> set cs. is_digit d"
    unfolding ns_is_number_def by blast
  have lower: "10 ^ length cs \<le> int_of_dec n" unfolding c(1) by (rule int_of_dec_lower [OF c(4) c(2) c(3)])
  show ?thesis
  proof (cases "k = 0")
    case True
    have "0 < (10::nat) ^ length cs" by simp
    with lower True show ?thesis by linarith
  next
    case False
    then have "k \<le> 10 ^ ceil_log10 k" by (simp add: ceil_log10_bound)
    also have "(10::nat) ^ ceil_log10 k < 10 ^ length cs" using long c by simp
    finally show ?thesis using lower by linarith
  qed
qed

lemma ns_extractLength_eq:
  "ns_is_number n \<Longrightarrow> ns_extractLength s n =
     (if int_of_dec n > ns_MAX_LENGTH s
      then Inl (NetstringParseError (TOO_LONG (ns_MAX_LENGTH s))) else Inr (int_of_dec n))"
  using ns_is_number_size [of n "ns_MAX_LENGTH s"]
  by (auto simp: ns_extractLength_def ns_checkStringSize_def ns_maxLengthSize_def)

section \<open>Matching is stable when more data arrives\<close>

lemma ns_number_append_stop:
  "ns_number s = Some (n, c # r) \<Longrightarrow> ns_number (s @ t) = Some (n, c # r @ t)"
proof (cases s)
  case (Cons d ds)
  assume *: "ns_number s = Some (n, c # r)"
  show ?thesis
  proof (cases "d = CHR ''0''")
    case True
    with * Cons show ?thesis by simp
  next
    case False
    with * Cons have d: "is_digit d" and n: "n = d # takeWhile is_digit ds"
      and r: "dropWhile is_digit ds = c # r"
      by (auto split: if_splits)
    from r have "\<exists>x \<in> set ds. \<not> is_digit x" by (metis dropWhile_eq_Nil_conv list.distinct(1))
    then obtain x where x: "x \<in> set ds" "\<not> is_digit x" by blast
    have "takeWhile is_digit (ds @ t) = takeWhile is_digit ds"
      and "dropWhile is_digit (ds @ t) = dropWhile is_digit ds @ t"
      using takeWhile_append1 [of x ds is_digit t]
        dropWhile_append1 [of x ds is_digit t] x by auto
    with Cons False d n r show ?thesis by simp
  qed
qed simp

lemma ns_number_append_None: "s \<noteq> [] \<Longrightarrow> ns_number s = None \<Longrightarrow> ns_number (s @ t) = None"
  by (cases s) (auto split: if_splits)

lemma ns_number_append_all:
  "ns_number s = Some (n, []) \<Longrightarrow> n \<noteq> ''0'' \<Longrightarrow>
     ns_number (s @ t) = Some (n @ takeWhile is_digit t, dropWhile is_digit t)"
proof (cases s)
  case (Cons d ds)
  assume *: "ns_number s = Some (n, [])" "n \<noteq> ''0''"
  with Cons have d: "d \<noteq> CHR ''0''" "is_digit d" and n: "n = d # takeWhile is_digit ds"
    and all: "\<forall>x \<in> set ds. is_digit x"
    by (auto split: if_splits)
  have "takeWhile is_digit (ds @ t) = ds @ takeWhile is_digit t"
    and "dropWhile is_digit (ds @ t) = dropWhile is_digit t"
    and "takeWhile is_digit ds = ds"
    using all by (simp_all add: takeWhile_append2 dropWhile_append2 takeWhile_eq_all_conv)
  with Cons d n show ?thesis by simp
qed simp

lemma ns_LENGTH_append: "ns_LENGTH s = Some (n, r) \<Longrightarrow> ns_LENGTH (s @ t) = Some (n, r @ t)"
  by (auto simp: ns_LENGTH_def ns_number_append_stop split: option.splits list.splits if_splits)

lemma ns_LENGTH_is_number: "ns_LENGTH s = Some (n, r) \<Longrightarrow> ns_is_number n"
  by (auto simp: ns_LENGTH_def dest: ns_number_is_number split: option.splits list.splits if_splits)

lemma ns_PREFIX_is_number: "ns_LENGTH_PREFIX s = Some n \<Longrightarrow> ns_is_number n"
  by (auto simp: ns_LENGTH_PREFIX_def dest: ns_number_is_number split: option.splits if_splits)

lemma ns_no_match_append:
  assumes "s \<noteq> []" "ns_LENGTH s = None" "ns_LENGTH_PREFIX s = None"
  shows "ns_LENGTH (s @ t) = None \<and> ns_LENGTH_PREFIX (s @ t) = None"
proof (cases "ns_number s")
  case None
  with assms show ?thesis by (simp add: ns_LENGTH_def ns_LENGTH_PREFIX_def ns_number_append_None)
next
  case (Some nr)
  then obtain n r where nr: "ns_number s = Some (n, r)" by (cases nr) auto
  with assms obtain c r' where "r = c # r'" "c \<noteq> CHR '':''" "c # r' \<noteq> [LF]"
    by (cases r) (auto simp: ns_LENGTH_def ns_LENGTH_PREFIX_def split: if_splits)
  with nr ns_number_append_stop [of s n c r' t] show ?thesis
    by (auto simp: ns_LENGTH_def ns_LENGTH_PREFIX_def)
qed

section \<open>One step, before and after more data arrives\<close>

definition ns_more :: "bytes \<Rightarrow> netstring \<Rightarrow> netstring" where
  "ns_more t s = s\<lparr>ns_remainingData := ns_remainingData s @ t\<rparr>"

text \<open>
  What no step of the parser looks at: the events already emitted and the broken
  flag.
\<close>

definition ns_tag :: "ns_event list \<Rightarrow> bool \<Rightarrow> netstring \<Rightarrow> netstring" where
  "ns_tag E b s = s\<lparr>ns_events := E @ ns_events s, ns_brokenPeer := b\<rparr>"

lemmas ns_frame_defs = ns_more_def ns_tag_def

lemmas ns_length_defs = ns_consumeLength_def ns_processLength_def
  ns_checkPartialLengthSpecification_def ns_extractLength_def ns_checkStringSize_def
  ns_maxLengthSize_def

lemmas ns_payload_defs = ns_consumePayload_def ns_extractPayload_def ns_payloadComplete_def
  ns_checkForTrailingComma_def ns_processPayload_def

lemma ns_consumeLength_tag: "ns_consumeLength (ns_tag E b s) = map_state (ns_tag E b) (ns_consumeLength s)"
  by (simp add: ns_length_defs ns_tag_def Let_def split: option.split sum.split)

lemma ns_consumePayload_tag: "ns_consumePayload (ns_tag E b s) = map_state (ns_tag E b) (ns_consumePayload s)"
  by (auto simp: ns_payload_defs ns_tag_def Let_def)

lemma ns_extractLength_cong:
  "ns_MAX_LENGTH s = ns_MAX_LENGTH t \<Longrightarrow> ns_extractLength s n = ns_extractLength t n"
  by (simp add: Let_def ns_extractLength_def ns_checkStringSize_def ns_maxLengthSize_def)

lemma ns_prepare_tag: "ns_prepareForPayloadConsumption (ns_tag E b s) = ns_tag E b (ns_prepareForPayloadConsumption s)"
  by (simp add: ns_prepareForPayloadConsumption_def ns_tag_def)

lemma ns_state_tag [simp]:
  "ns_state (ns_tag E b s) = ns_state s" "ns_remainingData (ns_tag E b s) = ns_remainingData s"
  by (simp_all add: ns_tag_def)

lemma ns_consumeData_tag: "ns_consumeData (ns_tag E b s) = map_state (ns_tag E b) (ns_consumeData s)"
proof (cases "ns_consumeLength s")
  case (Ok u)
  then show ?thesis
    by (simp add: ns_consumeData_def ns_consumeLength_tag ns_consumePayload_tag ns_prepare_tag)
next
  case (Exc e u)
  then show ?thesis
    by (simp add: ns_consumeData_def ns_consumeLength_tag ns_consumePayload_tag)
qed

lemma ns_state_prepare [simp]: "ns_state (ns_prepareForPayloadConsumption s) = PARSING_PAYLOAD"
  by (simp add: ns_prepareForPayloadConsumption_def)

lemma ns_consumeData_LENGTH:
  "ns_state s = PARSING_LENGTH \<Longrightarrow>
     ns_consumeData s = and_then (ns_consumeLength s) (\<lambda>s. ns_consumePayload (ns_prepareForPayloadConsumption s))"
  by (cases "ns_consumeLength s") (simp_all add: ns_consumeData_def)

lemma ns_consumeData_PAYLOAD:
  "ns_state s = PARSING_PAYLOAD \<Longrightarrow> ns_consumeData s = ns_consumePayload s"
  by (simp add: ns_consumeData_def)

lemma ns_consumeLength_more:
  assumes "ns_consumeLength s = Ok u"
  shows "ns_consumeLength (ns_more t s) = Ok (ns_more t u)"
proof (cases "ns_LENGTH (ns_remainingData s)")
  case None
  with assms show ?thesis by (simp add: ns_consumeLength_def split: option.splits)
next
  case (Some nr)
  then obtain n r where nr: "ns_LENGTH (ns_remainingData s) = Some (n, r)" by (cases nr) auto
  then have "ns_LENGTH (ns_remainingData s @ t) = Some (n, r @ t)" by (rule ns_LENGTH_append)
  with assms nr show ?thesis
    by (auto simp: ns_length_defs ns_more_def Let_def split: if_splits)
qed

lemma ns_consumeLength_Exc: "ns_consumeLength s = Exc e u \<Longrightarrow> u = s"
  by (auto simp: ns_consumeLength_def ns_processLength_def split: option.splits sum.splits)

lemma ns_prepare_more: "ns_prepareForPayloadConsumption (ns_more t s) = ns_more t (ns_prepareForPayloadConsumption s)"
  by (simp add: ns_prepareForPayloadConsumption_def ns_more_def)

lemma ns_consumePayload_more:
  "ns_consumePayload s = Ok u \<Longrightarrow> ns_consumePayload (ns_more t s) = Ok (ns_more t u)"
  by (auto simp: ns_payload_defs ns_more_def Let_def split: if_splits)

lemma ns_consumePayload_more_error:
  "ns_consumePayload s = Exc (NetstringParseError m) u \<Longrightarrow>
     ns_consumePayload (ns_more t s) = Exc (NetstringParseError m) (ns_more t u)"
  by (auto simp: ns_payload_defs ns_more_def Let_def split: if_splits)

lemma ns_more_more [simp]: "ns_more u (ns_more t s) = ns_more (t @ u) s"
  by (simp add: ns_more_def)

lemma ns_more_simps [simp]:
  "ns_state (ns_more t s) = ns_state s" "ns_remainingData (ns_more t s) = ns_remainingData s @ t"
  "ns_events (ns_more t s) = ns_events s" "ns_brokenPeer (ns_more t s) = ns_brokenPeer s"
  "ns_MAX_LENGTH (ns_more t s) = ns_MAX_LENGTH s"
  by (simp_all add: ns_more_def)

lemma ns_consumeData_more:
  assumes "ns_consumeData s = Ok u"
  shows "ns_consumeData (ns_more t s) = Ok (ns_more t u)"
proof (cases "ns_state s")
  case PARSING_PAYLOAD
  with assms show ?thesis by (simp add: ns_consumeData_PAYLOAD ns_consumePayload_more)
next
  case PARSING_LENGTH
  with assms obtain v where v: "ns_consumeLength s = Ok v"
    "ns_consumePayload (ns_prepareForPayloadConsumption v) = Ok u"
    by (auto simp: ns_consumeData_LENGTH and_then_Ok_iff)
  then show ?thesis
    using PARSING_LENGTH
    by (simp add: ns_consumeData_LENGTH ns_consumeLength_more ns_prepare_more ns_consumePayload_more)
qed

text \<open>
  A parse error is final: whatever arrives later, the next step fails again and
  leaves the parser where it is.
\<close>

definition ns_stuck :: "netstring \<Rightarrow> bool" where
  "ns_stuck s \<longleftrightarrow>
     (\<forall>t. ns_remainingData s @ t \<noteq> [] \<longrightarrow>
        (\<exists>m. ns_consumeData (ns_more t s) = Exc (NetstringParseError m) (ns_more t s)))"

lemma ns_length_error_final:
  assumes "ns_remainingData s \<noteq> []" and "ns_consumeLength s = Exc (NetstringParseError m) u"
  shows "\<exists>m. ns_consumeLength (ns_more t s) = Exc (NetstringParseError m) (ns_more t s)"
proof (cases "ns_LENGTH (ns_remainingData s)")
  case (Some nr)
  obtain n r where nr: "ns_LENGTH (ns_remainingData s) = Some (n, r)" using Some by (cases nr) auto
  with assms have "ns_extractLength s n = Inl (NetstringParseError m)"
    by (auto simp: ns_consumeLength_def ns_processLength_def split: sum.splits)
  then have "ns_extractLength (ns_more t s) n = Inl (NetstringParseError m)"
    using ns_extractLength_cong [of "ns_more t s" s n] by simp
  with nr show ?thesis
    by (auto simp: ns_consumeLength_def ns_processLength_def ns_more_def ns_LENGTH_append)
next
  case None
  note L = this
  show ?thesis
  proof (cases "ns_LENGTH_PREFIX (ns_remainingData s)")
    case None
    with L ns_no_match_append [OF assms(1) L None, of t] show ?thesis
      by (auto simp: ns_consumeLength_def ns_checkPartialLengthSpecification_def ns_more_def)
  next
    case (Some n)
    then have num: "ns_is_number n" by (rule ns_PREFIX_is_number)
    from assms L Some num have big: "ns_MAX_LENGTH s < int_of_dec n"
      by (auto simp: ns_consumeLength_def ns_checkPartialLengthSpecification_def ns_extractLength_eq
          split: if_splits)
    then have n0: "n \<noteq> ''0''" by (intro notI) (simp add: digit_val_def)
    from Some obtain r where r: "ns_number (ns_remainingData s) = Some (n, r)" "r = [] \<or> r = [LF]"
      by (auto simp: ns_LENGTH_PREFIX_def split: option.splits if_splits)
    have "\<exists>n' r'. ns_number (ns_remainingData s @ t) = Some (n', r') \<and> ns_MAX_LENGTH s < int_of_dec n' \<and> ns_is_number n'"
    proof (cases "r = []")
      case True
      with r n0 have 1: "ns_number (ns_remainingData s @ t) = Some (n @ takeWhile is_digit t, dropWhile is_digit t)"
        by (simp add: ns_number_append_all)
      have "int_of_dec n * 1 \<le> int_of_dec n * 10 ^ length (takeWhile is_digit t)"
        by (intro mult_le_mono2) simp
      then have "int_of_dec n \<le> int_of_dec (n @ takeWhile is_digit t)"
        unfolding int_of_dec_append by linarith
      with big have "ns_MAX_LENGTH s < int_of_dec (n @ takeWhile is_digit t)" by linarith
      with 1 show ?thesis using ns_number_is_number by blast
    next
      case False
      with r have "ns_number (ns_remainingData s @ t) = Some (n, LF # t)"
        using ns_number_append_stop by auto
      with big num show ?thesis by blast
    qed
    then show ?thesis
      by (auto simp: ns_consumeLength_def ns_checkPartialLengthSpecification_def ns_processLength_def
          ns_LENGTH_def ns_LENGTH_PREFIX_def ns_more_def ns_extractLength_eq split: list.split option.split)
  qed
qed

lemma ns_payload_error_final:
  assumes "ns_consumePayload s = Exc (NetstringParseError m) u"
  shows "ns_consumePayload (ns_more t u) = Exc (NetstringParseError m) (ns_more t u)
    \<and> ns_state u = ns_state s"
  using assms by (auto simp: ns_payload_defs ns_more_def Let_def split: if_splits)

lemma ns_parse_error_stuck:
  assumes "ns_remainingData s \<noteq> []" and "ns_consumeData s = Exc (NetstringParseError m) u"
  shows "ns_stuck u \<and> (\<exists>m. ns_consumeData (ns_more t s) = Exc (NetstringParseError m) (ns_more t u))"
proof (cases "ns_state s")
  case PARSING_PAYLOAD
  with assms ns_payload_error_final [of s m u] ns_consumePayload_more_error [of s m u t] show ?thesis
    by (auto simp: ns_stuck_def ns_consumeData_PAYLOAD)
next
  case PARSING_LENGTH
  show ?thesis
  proof (cases "ns_consumeLength s")
    case (Ok v)
    with assms PARSING_LENGTH have v: "ns_consumePayload (ns_prepareForPayloadConsumption v) = Exc (NetstringParseError m) u"
      by (simp add: ns_consumeData_LENGTH)
    from ns_payload_error_final [OF v] have "ns_stuck u"
      by (auto simp: ns_stuck_def ns_consumeData_PAYLOAD)
    with Ok v PARSING_LENGTH show ?thesis
      by (simp add: ns_consumeData_LENGTH ns_consumeLength_more ns_prepare_more ns_consumePayload_more_error)
  next
    case (Exc e v)
    with assms PARSING_LENGTH have e: "e = NetstringParseError m" "v = u" "u = s"
      by (auto simp: ns_consumeData_LENGTH dest: ns_consumeLength_Exc)
    with Exc have fin: "\<exists>m. ns_consumeLength (ns_more t s) = Exc (NetstringParseError m) (ns_more t s)" for t
      using ns_length_error_final [OF assms(1)] by blast
    show ?thesis
      using fin e PARSING_LENGTH unfolding ns_stuck_def
      by (metis and_then.simps(2) ns_consumeData_LENGTH ns_more_simps(1))
  qed
qed

section \<open>The loop\<close>

lemma ns_loop_Nil: "ns_remainingData s = [] \<Longrightarrow> ns_loop s = s"
  by (subst ns_loop.simps) simp

lemma ns_loop_Ok: "ns_remainingData s \<noteq> [] \<Longrightarrow> ns_consumeData s = Ok u \<Longrightarrow> ns_loop s = ns_loop u"
  by (subst ns_loop.simps) simp

lemma ns_loop_Incomplete:
  "ns_remainingData s \<noteq> [] \<Longrightarrow> ns_consumeData s = Exc IncompleteNetstring u \<Longrightarrow> ns_loop s = u"
  by (subst ns_loop.simps) simp

lemma ns_loop_error:
  "ns_remainingData s \<noteq> [] \<Longrightarrow> ns_consumeData s = Exc (NetstringParseError m) u \<Longrightarrow>
     ns_loop s = ns_handleParseError u"
  by (subst ns_loop.simps) simp

text \<open>Induction over a run of the loop: the four ways it goes on or ends.\<close>

lemma ns_loop_induct [case_names Done Step Incomplete Error]:
  assumes "\<And>s. ns_remainingData s = [] \<Longrightarrow> ns_loop s = s \<Longrightarrow> P s"
    and "\<And>s u. ns_remainingData s \<noteq> [] \<Longrightarrow> ns_consumeData s = Ok u \<Longrightarrow> ns_loop s = ns_loop u \<Longrightarrow> P u \<Longrightarrow> P s"
    and "\<And>s u. ns_remainingData s \<noteq> [] \<Longrightarrow> ns_consumeData s = Exc IncompleteNetstring u \<Longrightarrow>
           ns_loop s = u \<Longrightarrow> P s"
    and "\<And>s u m. ns_remainingData s \<noteq> [] \<Longrightarrow> ns_consumeData s = Exc (NetstringParseError m) u \<Longrightarrow>
           ns_loop s = ns_handleParseError u \<Longrightarrow> P s"
  shows "P s"
proof (induction s rule: ns_loop.induct)
  case (1 s)
  show ?case
  proof (cases "ns_remainingData s = []")
    case True
    then show ?thesis using assms(1) by (simp add: ns_loop_Nil)
  next
    case False
    show ?thesis
    proof (cases "ns_consumeData s")
      case (Ok u)
      with False 1 assms(2) [of s u] show ?thesis by (simp add: ns_loop_Ok)
    next
      case (Exc e u)
      with False assms(3) [of s u] assms(4) [of s _ u] show ?thesis
        by (cases e) (simp_all add: ns_loop_Incomplete ns_loop_error)
    qed
  qed
qed

text \<open>The events emitted before play no part.\<close>

abbreviation ns_pre :: "ns_event list \<Rightarrow> netstring \<Rightarrow> netstring" where
  "ns_pre E s \<equiv> s\<lparr>ns_events := E @ ns_events s\<rparr>"

lemma ns_consumeData_broken: "ns_brokenPeer (state_of (ns_consumeData s)) = ns_brokenPeer s"
proof -
  have "ns_tag [] (ns_brokenPeer s) s = s" by (simp add: ns_tag_def)
  then have "ns_consumeData s = map_state (ns_tag [] (ns_brokenPeer s)) (ns_consumeData s)"
    using ns_consumeData_tag [of "[]" "ns_brokenPeer s" s] by simp
  then have "state_of (ns_consumeData s) = ns_tag [] (ns_brokenPeer s) (state_of (ns_consumeData s))"
    by (cases "ns_consumeData s") auto
  then have "ns_brokenPeer (state_of (ns_consumeData s))
      = ns_brokenPeer (ns_tag [] (ns_brokenPeer s) (state_of (ns_consumeData s)))"
    by (rule arg_cong)
  then show ?thesis by (simp add: ns_tag_def)
qed

lemma ns_consumeData_pre: "ns_consumeData (ns_pre E s) = map_state (ns_pre E) (ns_consumeData s)"
proof -
  have "ns_consumeData (ns_pre E s) = map_state (ns_tag E (ns_brokenPeer s)) (ns_consumeData s)"
    using ns_consumeData_tag [of E "ns_brokenPeer s" s] by (simp add: ns_tag_def)
  also have "\<dots> = map_state (ns_pre E) (ns_consumeData s)"
    using ns_consumeData_broken [of s] by (cases "ns_consumeData s") (auto simp: ns_tag_def)
  finally show ?thesis .
qed

lemma ns_loop_pre: "ns_loop (ns_pre E s) = ns_pre E (ns_loop s)"
proof (induction s rule: ns_loop_induct)
  case (Done s)
  then show ?case by (simp add: ns_loop_Nil)
next
  case (Step s u)
  then show ?case using ns_consumeData_pre [of E s] by (simp add: ns_loop_Ok [of "ns_pre E s" "ns_pre E u"])
next
  case (Incomplete s u)
  then show ?case using ns_consumeData_pre [of E s] by (simp add: ns_loop_Incomplete [of "ns_pre E s" "ns_pre E u"])
next
  case (Error s u m)
  then show ?case using ns_consumeData_pre [of E s]
    by (simp add: ns_loop_error [of "ns_pre E s" m "ns_pre E u"] ns_handleParseError_def)
qed

section \<open>Chunking does not matter\<close>

text \<open>
  The state up to the number of times the connection was told to close: a broken
  receiver asks again for every chunk that still arrives.
\<close>

definition ns_core :: "netstring \<Rightarrow> netstring" where
  "ns_core s = s\<lparr>ns_events := map StringReceived (ns_strings s)\<rparr>"

lemma ns_strings_handle [simp]: "ns_strings (ns_handleParseError s) = ns_strings s"
  by (simp add: ns_strings_def ns_handleParseError_def)

lemma ns_handle_simps [simp]:
  "ns_remainingData (ns_handleParseError s) = ns_remainingData s"
  "ns_brokenPeer (ns_handleParseError s)" "ns_state (ns_handleParseError s) = ns_state s"
  "ns_MAX_LENGTH (ns_handleParseError s) = ns_MAX_LENGTH s"
  "ns_payload (ns_handleParseError s) = ns_payload s"
  by (simp_all add: ns_handleParseError_def)

lemma ns_more_Nil [simp]: "ns_more [] s = s"
  by (simp add: ns_more_def)

lemma ns_strings_more [simp]: "ns_strings (ns_more t s) = ns_strings s"
  by (simp add: ns_strings_def)

lemma ns_core_handle_again:
  "ns_brokenPeer s \<Longrightarrow> ns_core (ns_handleParseError s) = ns_core s"
  by (simp add: ns_core_def ns_handleParseError_def ns_strings_def)

lemma ns_stuck_loop:
  "ns_stuck s \<Longrightarrow> ns_remainingData s @ t \<noteq> [] \<Longrightarrow> ns_loop (ns_more t s) = ns_handleParseError (ns_more t s)"
  unfolding ns_stuck_def using ns_loop_error [of "ns_more t s"] by fastforce

lemma ns_consumePayload_Exc_events:
  "ns_consumePayload s = Exc e u \<Longrightarrow>
     ns_consumePayload (s\<lparr>ns_events := E, ns_brokenPeer := b\<rparr>) = Exc e (u\<lparr>ns_events := E, ns_brokenPeer := b\<rparr>)"
  by (auto simp: ns_payload_defs Let_def split: if_splits)

lemma ns_consumeData_Exc_events:
  assumes "ns_consumeData s = Exc e u"
  shows "ns_consumeData (s\<lparr>ns_events := E, ns_brokenPeer := b\<rparr>) = Exc e (u\<lparr>ns_events := E, ns_brokenPeer := b\<rparr>)"
proof -
  let ?f = "\<lambda>s. s\<lparr>ns_events := E, ns_brokenPeer := b\<rparr>"
  have len: "ns_consumeLength (?f s) = map_state ?f (ns_consumeLength s)"
    by (simp add: ns_length_defs Let_def split: option.split sum.split)
  have pre: "ns_prepareForPayloadConsumption (?f v) = ?f (ns_prepareForPayloadConsumption v)" for v
    by (simp add: ns_prepareForPayloadConsumption_def)
  show ?thesis
  proof (cases "ns_state s")
    case PARSING_PAYLOAD
    with assms show ?thesis by (simp add: ns_consumeData_PAYLOAD ns_consumePayload_Exc_events)
  next
    case PARSING_LENGTH
    with assms len pre show ?thesis
      by (cases "ns_consumeLength s") (simp_all add: ns_consumeData_LENGTH ns_consumePayload_Exc_events)
  qed
qed

lemma ns_stuck_handle: "ns_stuck s \<Longrightarrow> ns_stuck (ns_handleParseError s)"
  unfolding ns_stuck_def
proof (intro allI impI)
  fix t
  assume stuck: "\<forall>t. ns_remainingData s @ t \<noteq> [] \<longrightarrow>
      (\<exists>m. ns_consumeData (ns_more t s) = Exc (NetstringParseError m) (ns_more t s))"
    and "ns_remainingData (ns_handleParseError s) @ t \<noteq> []"
  then obtain m where "ns_consumeData (ns_more t s) = Exc (NetstringParseError m) (ns_more t s)"
    by (auto simp: ns_handleParseError_def)
  moreover have "ns_more t (ns_handleParseError s)
      = (ns_more t s)\<lparr>ns_events := ns_events s @ [LoseConnection], ns_brokenPeer := True\<rparr>"
    by (simp add: ns_more_def ns_handleParseError_def)
  ultimately show "\<exists>m. ns_consumeData (ns_more t (ns_handleParseError s))
      = Exc (NetstringParseError m) (ns_more t (ns_handleParseError s))"
    using ns_consumeData_Exc_events [where E = "ns_events s @ [LoseConnection]" and b = True] by metis
qed

lemma ns_consumePayload_Incomplete:
  assumes "ns_consumePayload s = Exc IncompleteNetstring u"
  shows "ns_remainingData u = [] \<and> ns_state u = ns_state s \<and> ns_consumePayload (ns_more t s) = ns_consumePayload (ns_more t u)"
proof -
  have inc: "\<not> ns_payloadComplete s" and u: "u = s\<lparr>ns_payload := ns_payload s @ ns_remainingData s,
      ns_currentPayloadSize := ns_currentPayloadSize s + length (ns_remainingData s), ns_remainingData := []\<rparr>"
    using assms by (auto simp: ns_payload_defs Let_def split: if_splits)
  let ?n = "ns_expectedPayloadSize s - ns_currentPayloadSize s"
  have n: "length (ns_remainingData s) < ?n" using inc by (simp add: ns_payloadComplete_def)
  have "ns_extractPayload (ns_more t s) = ns_extractPayload (ns_more t u)"
    using n u by (auto simp: ns_extractPayload_def ns_payloadComplete_def ns_more_def Let_def)
  with u show ?thesis by (simp add: ns_consumePayload_def)
qed

lemma ns_consumeData_Incomplete:
  assumes "ns_consumeData s = Exc IncompleteNetstring u"
  shows "u = s \<or> ns_remainingData u = [] \<and> ns_consumeData (ns_more t s) = ns_consumeData (ns_more t u)"
proof (cases "ns_state s")
  case PARSING_PAYLOAD
  with assms ns_consumePayload_Incomplete [of s u t] show ?thesis
    by (simp add: ns_consumeData_PAYLOAD)
next
  case PARSING_LENGTH
  show ?thesis
  proof (cases "ns_consumeLength s")
    case (Ok v)
    with assms PARSING_LENGTH have v: "ns_consumePayload (ns_prepareForPayloadConsumption v) = Exc IncompleteNetstring u"
      by (simp add: ns_consumeData_LENGTH)
    from ns_consumePayload_Incomplete [OF v, of t] Ok PARSING_LENGTH show ?thesis
      by (simp add: ns_consumeData_LENGTH ns_consumeData_PAYLOAD ns_consumeLength_more ns_prepare_more)
  next
    case (Exc e v)
    with assms PARSING_LENGTH show ?thesis
      by (auto simp: ns_consumeData_LENGTH dest: ns_consumeLength_Exc)
  qed
qed

lemma ns_loop_cong:
  assumes "ns_remainingData s \<noteq> []" "ns_remainingData u \<noteq> []" "ns_consumeData s = ns_consumeData u"
  shows "ns_loop s = ns_loop u"
  using assms ns_loop.simps [of s] ns_loop.simps [of u] by simp

lemma ns_loop_more: "ns_core (ns_loop (ns_more t s)) = ns_core (ns_loop (ns_more t (ns_loop s)))"
proof (cases "t = []")
  case True
  have "ns_core (ns_loop s) = ns_core (ns_loop (ns_loop s))"
  proof (induction s rule: ns_loop_induct)
    case (Done s)
    then show ?case by (simp add: ns_loop_Nil)
  next
    case (Step s u)
    then show ?case by (simp add: ns_loop_Ok)
  next
    case (Incomplete s u)
    then show ?case using ns_consumeData_Incomplete [of s u "[]"]
      by (auto simp: ns_loop_Incomplete ns_loop_Nil)
  next
    case (Error s u m)
    have "ns_stuck (ns_handleParseError u)"
      using ns_parse_error_stuck [OF Error(1,2)] ns_stuck_handle by blast
    with Error(3) ns_stuck_loop [of "ns_handleParseError u" "[]"] show ?case
      by (cases "ns_remainingData u = []") (simp_all add: ns_loop_Nil ns_core_handle_again)
  qed
  with True show ?thesis by (simp add: ns_more_def)
next
  case t: False
  show ?thesis
  proof (induction s rule: ns_loop_induct)
    case (Done s)
    then show ?case by simp
  next
    case (Step s u)
    then have "ns_loop (ns_more t s) = ns_loop (ns_more t u)"
      using ns_loop_Ok [of "ns_more t s"] ns_consumeData_more by simp
    with Step show ?case by simp
  next
    case (Incomplete s u)
    then show ?case
      using ns_consumeData_Incomplete [of s u t] ns_loop_cong [of "ns_more t s" "ns_more t u"] t by auto
  next
    case (Error s u m)
    from ns_parse_error_stuck [OF Error(1,2), of t]
    have "ns_stuck (ns_handleParseError u)" and "ns_loop (ns_more t s) = ns_handleParseError (ns_more t u)"
      using Error(1) ns_loop_error [of "ns_more t s"] ns_stuck_handle by auto
    with Error(3) ns_stuck_loop [of "ns_handleParseError u" t] t show ?case
      by (simp add: ns_core_handle_again) (simp add: ns_core_def ns_handleParseError_def ns_more_def ns_strings_def)
  qed
qed

lemma ns_core_cong:
  assumes "ns_core s = ns_core u"
  shows "ns_core (ns_loop s) = ns_core (ns_loop u)"
proof -
  define z where "z = s\<lparr>ns_events := []\<rparr>"
  have "s\<lparr>ns_events := []\<rparr> = (ns_core s)\<lparr>ns_events := []\<rparr>" and "u\<lparr>ns_events := []\<rparr> = (ns_core u)\<lparr>ns_events := []\<rparr>"
    by (simp_all add: ns_core_def)
  with assms have "u\<lparr>ns_events := []\<rparr> = z" by (simp add: z_def)
  moreover have "u = ns_pre (ns_events u) (u\<lparr>ns_events := []\<rparr>)" by simp
  ultimately have z: "s = ns_pre (ns_events s) z" "u = ns_pre (ns_events u) z"
    by (simp_all add: z_def)
  have strs: "ns_strings s = ns_strings u"
  proof -
    from assms have "ns_events (ns_core s) = ns_events (ns_core u)" by simp
    then show ?thesis by (simp add: ns_core_def inj_map_eq_map inj_def)
  qed
  have core: "ns_core (ns_pre E v) = v\<lparr>ns_events := map StringReceived (ns_strings (v\<lparr>ns_events := E\<rparr>) @ ns_strings v)\<rparr>" for E v
    by (simp add: ns_core_def ns_strings_def)
  have "ns_loop s = ns_pre (ns_events s) (ns_loop z)" "ns_loop u = ns_pre (ns_events u) (ns_loop z)"
    using z ns_loop_pre by metis+
  then show ?thesis using strs by (simp add: core) (simp add: ns_strings_def)
qed

lemma ns_dataReceived_more: "ns_dataReceived d s = ns_loop (ns_more d s)"
  by (simp add: ns_dataReceived_def ns_more_def)

lemma ns_dataReceived_core:
  "ns_core s = ns_core u \<Longrightarrow> ns_core (ns_dataReceived d s) = ns_core (ns_dataReceived d u)"
proof -
  assume *: "ns_core s = ns_core u"
  have c: "ns_core (ns_more d v) = ns_more d (ns_core v)" for v
    by (simp add: ns_core_def ns_more_def ns_strings_def)
  have "ns_core (ns_more d s) = ns_core (ns_more d u)" using * c by simp
  then show ?thesis unfolding ns_dataReceived_more by (rule ns_core_cong)
qed

lemma ns_dataReceived_append:
  "ns_core (ns_dataReceived (x @ y) s) = ns_core (ns_dataReceived y (ns_dataReceived x s))"
  using ns_loop_more [of y "ns_more x s"] by (simp add: ns_dataReceived_more)

text \<open>The receiver is a stream receiver in the sense of the framing contract.\<close>

interpretation ns_stream: stream_receiver ns_dataReceived ns_core "\<lambda>_ _. True"
proof unfold_locales
  show "ns_core (ns_dataReceived (x @ y) s) = ns_core (ns_dataReceived y (ns_dataReceived x s))" for x y s
    by (rule ns_dataReceived_append)
next
  show "True = True \<and> ns_core (ns_dataReceived d s) = ns_core (ns_dataReceived d u)"
    if "ns_core s = ns_core u" for s u d
    by (intro conjI refl ns_dataReceived_core that)
qed (intro conjI TrueI)

lemma ns_core_strings: "ns_core s = ns_core u \<Longrightarrow> ns_strings s = ns_strings u \<and> ns_brokenPeer s = ns_brokenPeer u"
proof -
  assume *: "ns_core s = ns_core u"
  then have "ns_events (ns_core s) = ns_events (ns_core u)" and "ns_brokenPeer (ns_core s) = ns_brokenPeer (ns_core u)"
    by simp_all
  then show ?thesis by (simp add: ns_core_def inj_map_eq_map inj_def)
qed

section \<open>What is sent is what is received\<close>

lemma ns_dec_number: "ns_number (dec n @ CHR '':'' # r) = Some (dec n, CHR '':'' # r)"
proof (cases "dec n")
  case (Cons c cs)
  have dig: "is_digit d" if "d \<in> set (c # cs)" for d using that dec_digits [of d n] Cons by simp
  show ?thesis
  proof (cases "c = CHR ''0''")
    case True
    with Cons have "n = 0" using hd_dec [of n] by simp
    then have "dec n = ''0''" by (simp add: dec.simps [of 0] digit_char_def)
    then show ?thesis by simp
  next
    case False
    with Cons dig show ?thesis
      by (simp add: takeWhile_append2 dropWhile_append2)
  qed
qed simp

lemma ns_dec_is_number: "ns_is_number (dec n)"
  using ns_number_is_number [OF ns_dec_number] .

text \<open>At a message boundary the receiver takes exactly one netstring.\<close>

definition ns_received :: "bytes \<Rightarrow> bytes \<Rightarrow> netstring \<Rightarrow> netstring" where
  "ns_received m r s =
     s\<lparr>ns_state := PARSING_LENGTH, ns_remainingData := r, ns_payload := m @ '','',
       ns_currentPayloadSize := length m + 1, ns_expectedPayloadSize := length m + 1,
       ns_events := ns_events s @ [StringReceived m]\<rparr>"

lemma ns_consume_format:
  assumes "ns_state s = PARSING_LENGTH" "length m \<le> ns_MAX_LENGTH s"
    "ns_remainingData s = ns_formatNetstring m @ r"
  shows "ns_consumeData s = Ok (ns_received m r s)"
proof -
  have "ns_LENGTH (ns_remainingData s) = Some (dec (length m), m @ '','' @ r)"
    using assms(3) ns_dec_number [of "length m" "m @ '','' @ r"]
    by (simp add: ns_LENGTH_def ns_formatNetstring_def)
  moreover have "ns_extractLength s (dec (length m)) = Inr (length m)"
    using assms(2) by (simp add: ns_extractLength_eq ns_dec_is_number)
  ultimately have "ns_consumeLength s
      = Ok (s\<lparr>ns_expectedPayloadSize := length m + 1, ns_remainingData := m @ '','' @ r\<rparr>)"
    by (simp add: ns_consumeLength_def ns_processLength_def)
  then show ?thesis
    using assms(1)
    by (simp add: ns_consumeData_LENGTH ns_prepareForPayloadConsumption_def ns_payload_defs
        Let_def ns_received_def)
qed

definition ns_boundary :: "nat \<Rightarrow> netstring \<Rightarrow> bool" where
  "ns_boundary n s \<longleftrightarrow> ns_state s = PARSING_LENGTH \<and> ns_remainingData s = [] \<and>
     ns_MAX_LENGTH s = n \<and> \<not> ns_brokenPeer s"

lemma ns_dataReceived_format:
  assumes "ns_boundary n s" "length m \<le> n"
  shows "ns_dataReceived (ns_formatNetstring m) s = ns_received m [] s"
proof -
  let ?s = "ns_more (ns_formatNetstring m) s"
  have "ns_consumeData ?s = Ok (ns_received m [] ?s)"
    using assms by (intro ns_consume_format) (simp_all add: ns_boundary_def)
  moreover have "ns_remainingData ?s \<noteq> []" by (simp add: ns_formatNetstring_def)
  moreover have "ns_received m [] ?s = ns_received m [] s" by (simp add: ns_received_def ns_more_def)
  ultimately show ?thesis
    using ns_loop_Ok [of ?s] by (simp add: ns_dataReceived_more ns_loop_Nil ns_received_def)
qed

interpretation ns_frames: framed_receiver ns_dataReceived ns_core "\<lambda>_ _. True" ns_formatNetstring
  "\<lambda>m. length m \<le> n" "ns_boundary n" ns_strings for n
proof unfold_locales
  fix s and m :: bytes assume "ns_boundary n s" "length m \<le> n"
  then show "ns_boundary n (ns_dataReceived (ns_formatNetstring m) s)"
    and "ns_strings (ns_dataReceived (ns_formatNetstring m) s) = ns_strings s @ [m]"
    using ns_dataReceived_format [of n s m] by (simp_all add: ns_boundary_def ns_received_def ns_strings_def)
next
  fix s u assume "ns_core s = ns_core u"
  then show "ns_strings s = ns_strings u" by (rule ns_core_strings [THEN conjunct1])
qed (rule TrueI)

section \<open>What a receiver never does\<close>

text \<open>
  The invariant of a receiver: the payload it is collecting is as long as it says
  and never longer than the limit allows, every string it handed on was within the
  limit, and a broken receiver is stuck.
\<close>

definition ns_inv :: "netstring \<Rightarrow> bool" where
  "ns_inv s \<longleftrightarrow>
     ns_currentPayloadSize s = length (ns_payload s) \<and>
     ns_currentPayloadSize s \<le> ns_expectedPayloadSize s \<and>
     ns_expectedPayloadSize s \<le> ns_MAX_LENGTH s + 1 \<and>
     (\<forall>m \<in> set (ns_strings s). length m \<le> ns_MAX_LENGTH s)"

lemma ns_inv_consumeLength: "ns_inv s \<Longrightarrow> ns_consumeLength s = Ok u \<Longrightarrow> ns_inv (ns_prepareForPayloadConsumption u)"
  by (auto simp: ns_inv_def ns_length_defs ns_prepareForPayloadConsumption_def Let_def ns_strings_def
      split: option.splits sum.splits if_splits)

lemma ns_inv_consumePayload: "ns_inv s \<Longrightarrow> ns_inv (state_of (ns_consumePayload s))"
  by (auto simp: ns_inv_def ns_payload_defs Let_def ns_strings_def split: option.splits if_splits)

lemma ns_inv_consumeData: "ns_inv s \<Longrightarrow> ns_inv (state_of (ns_consumeData s))"
proof (cases "ns_state s")
  case PARSING_LENGTH
  assume "ns_inv s"
  then show ?thesis
    using PARSING_LENGTH ns_inv_consumeLength [of s] ns_inv_consumePayload
    by (cases "ns_consumeLength s") (auto simp: ns_consumeData_LENGTH dest: ns_consumeLength_Exc)
qed (simp add: ns_consumeData_PAYLOAD ns_inv_consumePayload)

lemma ns_inv_more [simp]: "ns_inv (ns_more t s) = ns_inv s"
  by (simp add: ns_inv_def ns_strings_def) (simp add: ns_more_def)

lemma ns_inv_handle [simp]: "ns_inv (ns_handleParseError s) = ns_inv s"
  by (simp add: ns_inv_def) (simp add: ns_handleParseError_def)

lemma ns_inv_loop: "ns_inv s \<Longrightarrow> ns_inv (ns_loop s)"
proof (induction s rule: ns_loop_induct)
  case (Step s u)
  then show ?case using ns_inv_consumeData [of s] by simp
next
  case (Incomplete s u)
  then show ?case using ns_inv_consumeData [of s] by simp
next
  case (Error s u m)
  then show ?case using ns_inv_consumeData [of s] by simp
qed simp

lemma ns_inv_dataReceived: "ns_inv s \<Longrightarrow> ns_inv (ns_dataReceived d s)"
  by (simp add: ns_dataReceived_more ns_inv_loop)

lemma ns_inv_init: "ns_inv (ns_makeConnection n)"
  by (simp add: ns_inv_def ns_makeConnection_def ns_strings_def)

text \<open>
  Between two chunks nothing is held back but the start of a length, which is short
  (a newline may follow it, see \<open>ns_LENGTH_PREFIX\<close>), or the payload begun.  A broken
  receiver is stuck.
\<close>

definition ns_rest :: "netstring \<Rightarrow> bool" where
  "ns_rest s \<longleftrightarrow> (if ns_brokenPeer s then ns_stuck s else
     ns_remainingData s = [] \<or> length (ns_remainingData s) \<le> ns_maxLengthSize s + 1)"

lemma ns_partial_short:
  assumes "ns_consumeLength s = Exc IncompleteNetstring u"
  shows "length (ns_remainingData s) \<le> ns_maxLengthSize s + 1"
proof -
  from assms obtain n where n: "ns_LENGTH_PREFIX (ns_remainingData s) = Some n" "ns_checkStringSize s n = None"
    by (auto simp: ns_consumeLength_def ns_processLength_def ns_checkPartialLengthSpecification_def
        ns_extractLength_def ns_checkStringSize_def Let_def split: option.splits sum.splits if_splits)
  then have "length (ns_remainingData s) \<le> length n + 1"
    by (auto simp: ns_LENGTH_PREFIX_def dest!: ns_number_length split: option.splits if_splits)
  with n(2) show ?thesis by (simp add: ns_checkStringSize_def split: if_splits)
qed

lemma ns_rest_loop: "ns_rest (ns_loop s)" if "\<not> ns_brokenPeer s"
  using that
proof (induction s rule: ns_loop_induct)
  case (Done s)
  then show ?case by (simp add: ns_rest_def)
next
  case (Step s u)
  then show ?case using ns_consumeData_broken [of s] by simp
next
  case (Incomplete s u)
  then have nb: "\<not> ns_brokenPeer u" using ns_consumeData_broken [of s] by simp
  have "ns_remainingData u = [] \<or> u = s" using ns_consumeData_Incomplete [OF Incomplete(2)] by blast
  moreover have "length (ns_remainingData s) \<le> ns_maxLengthSize s + 1" if "u = s" "ns_remainingData u \<noteq> []"
  proof (cases "ns_consumeLength s")
    case (Exc e v)
    with Incomplete(2) that show ?thesis
      using ns_consumePayload_Incomplete [of s u]
      by (cases "ns_state s") (auto simp: ns_consumeData_LENGTH ns_consumeData_PAYLOAD dest: ns_partial_short)
  next
    case (Ok v)
    with Incomplete(2) that show ?thesis
      using ns_consumePayload_Incomplete [of _ u]
      by (cases "ns_state s") (auto simp: ns_consumeData_LENGTH ns_consumeData_PAYLOAD)
  qed
  ultimately show ?case
    using nb Incomplete(3) by (cases "ns_remainingData u = []") (simp_all add: ns_rest_def)
next
  case (Error s u m)
  then show ?case using ns_parse_error_stuck [OF Error(1,2)] ns_stuck_handle by (simp add: ns_rest_def)
qed

lemma ns_stuck_more [simp]: "ns_stuck s \<Longrightarrow> ns_stuck (ns_more t s)"
  unfolding ns_stuck_def by (metis append.assoc ns_more_more ns_more_simps(2))

lemma ns_broken_dataReceived:
  assumes "ns_stuck s" "ns_brokenPeer s"
  shows "ns_stuck (ns_dataReceived d s) \<and> ns_brokenPeer (ns_dataReceived d s) \<and>
    ns_strings (ns_dataReceived d s) = ns_strings s"
proof (cases "ns_remainingData s @ d = []")
  case True
  with assms show ?thesis by (simp add: ns_dataReceived_more ns_loop_Nil)
next
  case False
  with assms ns_stuck_loop [OF assms(1) False] show ?thesis
    by (simp add: ns_dataReceived_more ns_stuck_handle)
qed

lemma ns_rest_dataReceived: "ns_rest s \<Longrightarrow> ns_rest (ns_dataReceived d s)"
proof (cases "ns_brokenPeer s")
  case True
  assume "ns_rest s"
  with True ns_broken_dataReceived [of s d] show ?thesis by (simp add: ns_rest_def)
qed (simp add: ns_dataReceived_more ns_rest_loop)

lemma ns_broken_feed:
  "ns_stuck s \<Longrightarrow> ns_brokenPeer s \<Longrightarrow>
     ns_brokenPeer (feed ns_dataReceived cs s) \<and> ns_strings (feed ns_dataReceived cs s) = ns_strings s"
  by (induction cs arbitrary: s) (simp_all add: ns_broken_dataReceived)

lemma ns_MAX_consumeData: "ns_MAX_LENGTH (state_of (ns_consumeData s)) = ns_MAX_LENGTH s"
proof (cases "ns_consumeLength s")
  case (Ok u)
  then have "ns_MAX_LENGTH u = ns_MAX_LENGTH s"
    by (auto simp: ns_consumeLength_def ns_processLength_def split: option.splits sum.splits)
  with Ok show ?thesis
    by (simp add: ns_consumeData_def ns_payload_defs Let_def ns_prepareForPayloadConsumption_def)
next
  case (Exc e u)
  then show ?thesis
    using ns_consumeLength_Exc [OF Exc] by (simp add: ns_consumeData_def ns_payload_defs Let_def)
qed

lemma ns_MAX_loop: "ns_MAX_LENGTH (ns_loop s) = ns_MAX_LENGTH s"
proof (induction s rule: ns_loop_induct)
  case (Step s u)
  then show ?case using ns_MAX_consumeData [of s] by simp
next
  case (Incomplete s u)
  then show ?case using ns_MAX_consumeData [of s] by simp
next
  case (Error s u m)
  then show ?case using ns_MAX_consumeData [of s] by simp
qed simp

lemma ns_MAX_feed [simp]: "ns_MAX_LENGTH (feed ns_dataReceived cs s) = ns_MAX_LENGTH s"
  by (induction cs arbitrary: s) (simp_all add: ns_dataReceived_more ns_MAX_loop)

lemma ns_feed_concat:
  "ns_core (feed ns_dataReceived cs (ns_makeConnection n))
    = ns_core (ns_dataReceived (concat cs) (ns_makeConnection n))"
proof (cases "cs = []")
  case True
  then show ?thesis by (simp add: ns_dataReceived_def ns_loop_Nil ns_makeConnection_def)
qed (simp add: ns_stream.feed_concat)

lemma ns_feed_frames:
  assumes "0 < n" and "\<forall>m \<in> set ms. length m \<le> n"
    and "concat cs = concat (map ns_formatNetstring ms)"
  shows "ns_strings (feed ns_dataReceived cs (ns_makeConnection n)) = ms"
proof (cases "cs = [] \<or> ms = []")
  case True
  with assms(3) have "ms = []" "concat cs = []"
    by (auto simp: ns_formatNetstring_def)
  with ns_feed_concat [of cs n] show ?thesis
    by (auto dest!: ns_core_strings simp: ns_dataReceived_def ns_loop_Nil ns_makeConnection_def ns_strings_def)
next
  case False
  have "ns_boundary n (ns_makeConnection n)"
    by (simp add: ns_boundary_def ns_makeConnection_def)
  from ns_frames.delivery [OF this assms(2) _ _ assms(3)] False show ?thesis
    by (simp add: ns_makeConnection_def ns_strings_def)
qed

section \<open>Properties\<close>

text \<open>
  Whatever chunks a peer's byte stream is delivered in, a netstring receiver
  hands the same strings to the application, in the same order, and ends with the
  same buffer, payload, mode and broken flag as when the whole stream arrives at
  once.
\<close>

theorem netstring_chunking:
  assumes "0 < n"
  shows "ns_core (feed ns_dataReceived cs (ns_makeConnection n))
    = ns_core (ns_dataReceived (concat cs) (ns_makeConnection n))"
  by (rule ns_feed_concat)

theorem netstring_chunking_witness:
  "ns_core (feed ns_dataReceived [''2'', '':hi,0'', '':,''] (ns_makeConnection 9))
    = ns_core (ns_dataReceived ''2:hi,0:,'' (ns_makeConnection 9))"
  using netstring_chunking [of 9 "[''2'', '':hi,0'', '':,'']"] by simp

text \<open>
  C1: a receiver whose limit admits them gets back exactly the strings that
  \<open>_formatNetstring\<close> framed, in order and each once, however the framed stream is cut
  into chunks.
\<close>

theorem netstring_roundtrip:
  assumes "0 < n" and "\<forall>m \<in> set ms. length m \<le> n"
    and "concat cs = concat (map ns_formatNetstring ms)"
  shows "ns_strings (feed ns_dataReceived cs (ns_makeConnection n)) = ms"
  using assms by (rule ns_feed_frames)

theorem netstring_roundtrip_witness:
  "ns_strings (feed ns_dataReceived [''2:h'', ''i,0'', '':,''] (ns_makeConnection 9)) = [''hi'', []]"
proof (rule netstring_roundtrip)
  show "concat [''2:h'', ''i,0'', '':,''] = concat (map ns_formatNetstring [''hi'', []])"
    by (simp add: ns_formatNetstring_def dec.simps digit_char_def)
qed simp_all

text \<open>
  A parse error is final.  Once a receiver has been marked broken, no chunk that
  still arrives makes it hand another string to the application, although
  \<open>dataReceived\<close> itself never looks at \<open>brokenPeer\<close>.
\<close>

theorem netstring_broken_is_final:
  assumes "0 < n" and "ns_brokenPeer (feed ns_dataReceived cs (ns_makeConnection n))"
  shows "ns_strings (feed ns_dataReceived (cs @ ds) (ns_makeConnection n))
    = ns_strings (feed ns_dataReceived cs (ns_makeConnection n))"
proof -
  have "ns_rest (ns_makeConnection n)" by (simp add: ns_rest_def ns_makeConnection_def)
  then have "ns_rest (feed ns_dataReceived cs (ns_makeConnection n))"
    by (rule feed_invariant [rotated]) (rule ns_rest_dataReceived)
  with assms(2) show ?thesis by (simp add: ns_rest_def ns_broken_feed)
qed

theorem netstring_broken_is_final_witness:
  "ns_strings (feed ns_dataReceived ([''1:a,1:b;''] @ [''1:c,'']) (ns_makeConnection 9))
    = ns_strings (feed ns_dataReceived [''1:a,1:b;''] (ns_makeConnection 9))"
proof (rule netstring_broken_is_final)
  show "ns_brokenPeer (feed ns_dataReceived [''1:a,1:b;''] (ns_makeConnection 9))"
    by code_simp
qed simp

text \<open>
  What a peer can make a receiver hold or deliver is bounded by \<open>MAX_LENGTH\<close>:
  no delivered string is longer than it, the payload collected so far is at most one
  byte longer, and between two chunks an unbroken receiver keeps unparsed at most a
  length of as many digits as the limit admits, and one newline.
\<close>

theorem netstring_bounds:
  assumes "0 < n" and s_def: "s = feed ns_dataReceived cs (ns_makeConnection n)"
  shows "(\<forall>m \<in> set (ns_strings s). length m \<le> n) \<and> length (ns_payload s) \<le> n + 1 \<and>
    (ns_brokenPeer s \<or> length (ns_remainingData s) \<le> ns_maxLengthSize (ns_makeConnection n) + 1)"
proof -
  have inv: "ns_inv s"
    unfolding s_def by (rule feed_invariant [where I = ns_inv]) (simp_all add: ns_inv_dataReceived ns_inv_init)
  have "ns_rest (ns_makeConnection n)" by (simp add: ns_rest_def ns_makeConnection_def)
  then have rest: "ns_rest s"
    unfolding s_def by (rule feed_invariant [rotated]) (rule ns_rest_dataReceived)
  have max: "ns_MAX_LENGTH s = n" by (simp add: s_def ns_makeConnection_def)
  then have "ns_maxLengthSize s = ns_maxLengthSize (ns_makeConnection n)"
    by (simp add: ns_maxLengthSize_def ns_makeConnection_def)
  with inv rest max show ?thesis by (auto simp: ns_inv_def ns_rest_def split: if_splits)
qed

theorem netstring_bounds_witness:
  "length (ns_payload (feed ns_dataReceived [''3:ab''] (ns_makeConnection 3))) \<le> 3 + 1"
  using netstring_bounds [of 3 _ "[''3:ab'']", OF _ refl] by simp

text \<open>
  The digit count that \<open>_checkStringSize\<close> tests before converting a length never
  changes the verdict: on every number the receiver's expressions match, the length is
  refused exactly when its value is above \<open>MAX_LENGTH\<close>.
\<close>

theorem netstring_size_check_exact:
  assumes "ns_number d = Some (num, r)" and "0 < ns_MAX_LENGTH s"
  shows "ns_extractLength s num =
    (if int_of_dec num > ns_MAX_LENGTH s
     then Inl (NetstringParseError (TOO_LONG (ns_MAX_LENGTH s))) else Inr (int_of_dec num))"
  using ns_extractLength_eq [OF ns_number_is_number [OF assms(1)]] .

theorem netstring_size_check_exact_witness:
  "ns_extractLength (ns_makeConnection 99) ''100'' = Inl (NetstringParseError (TOO_LONG 99))"
  using netstring_size_check_exact [of "''100:x''" "''100''" "'':x''" "ns_makeConnection 99"]
  by (simp add: ns_makeConnection_def is_digit_def int_of_dec.simps digit_val_def)

text \<open>
  The docstring of \<open>_maxLengthSize\<close> promises the size of the string that represents
  \<open>MAX_LENGTH\<close>.  For the default limit it is one more.
\<close>

lemma ns_default_maxLengthSize:
  "ns_maxLengthSize (ns_makeConnection 99999) = 6" "length (dec 99999) = 5"
  by (simp_all add: ns_maxLengthSize_def ns_makeConnection_def ceil_log10.simps dec.simps)

end
