(* ===== verification/IntN.thy ===== *)
theory IntN
  imports Framing "HOL-Library.Sublist"
begin

text \<open>
  \<open>IntNStringReceiver\<close> and its subclasses, \<open>_PauseableMixin\<close>, \<open>_RecvdCompatHack\<close>
  and \<open>StatefulStringProtocol\<close> of \<open>twisted/protocols/basic.py\<close>: strings prefixed
  by their length as an unsigned integer in network byte order.

  The application is a parameter.  Its \<open>stringReceived\<close> gets the packet and the
  value \<open>self.recvd\<close> has at that moment, and says whether it calls
  \<open>pauseProducing\<close> and whether it assigns a new buffer to \<open>recvd\<close>.  It does not
  call back into \<open>dataReceived\<close>.  Since an application that keeps assigning
  \<open>recvd\<close> keeps the loop going, the loop is a partial function.
\<close>

section \<open>State\<close>

datatype in_event =
    InReceived bytes | InWrite bytes | InLoseConnection
  | InPauseProducing | InResumeProducing | InStopProducing

record 'a intn =
  in_prefixLength :: nat
  in_MAX_LENGTH :: nat
  in_unprocessed :: bytes
  in_compatibilityOffset :: nat
  in_paused :: bool
  in_app :: 'a
  in_events :: "in_event list"

type_synonym 'a in_application = "bytes \<Rightarrow> bytes \<Rightarrow> 'a \<Rightarrow> 'a \<times> bool \<times> bytes option"

definition in_initial :: "nat \<Rightarrow> nat \<Rightarrow> 'a \<Rightarrow> 'a intn" where
  "in_initial k n a =
     \<lparr> in_prefixLength = k, in_MAX_LENGTH = n, in_unprocessed = [], in_compatibilityOffset = 0,
       in_paused = False, in_app = a, in_events = [] \<rparr>"

definition in_emit :: "in_event \<Rightarrow> 'a intn \<Rightarrow> 'a intn" where
  "in_emit e s = s\<lparr>in_events := in_events s @ [e]\<rparr>"

text \<open>The struct formats \<open>!I\<close>, \<open>!H\<close> and \<open>!B\<close> and their \<open>calcsize\<close>.\<close>

definition int32_prefixLength :: nat where "int32_prefixLength = 4"
definition int16_prefixLength :: nat where "int16_prefixLength = 2"
definition int8_prefixLength :: nat where "int8_prefixLength = 1"

section \<open>Operations\<close>

text \<open>The descriptor behind \<open>self.recvd\<close>, as long as nothing was assigned to it.\<close>

definition in_recvd :: "'a intn \<Rightarrow> bytes" where
  "in_recvd s = drop (in_compatibilityOffset s) (in_unprocessed s)"

definition in_lengthLimitExceeded :: "nat \<Rightarrow> 'a intn \<Rightarrow> 'a intn" where
  "in_lengthLimitExceeded len s = in_emit InLoseConnection s"

definition in_pauseProducing :: "'a intn \<Rightarrow> 'a intn" where
  "in_pauseProducing s = in_emit InPauseProducing (s\<lparr>in_paused := True\<rparr>)"

definition in_stopProducing :: "'a intn \<Rightarrow> 'a intn" where
  "in_stopProducing s = in_emit InStopProducing (s\<lparr>in_paused := True\<rparr>)"

text \<open>The call of the application's \<open>stringReceived\<close>: the new state and what it assigned to \<open>recvd\<close>.\<close>

definition in_stringReceived :: "'a in_application \<Rightarrow> bytes \<Rightarrow> 'a intn \<Rightarrow> 'a intn \<times> bytes option" where
  "in_stringReceived app packet s =
     (let s = in_emit (InReceived packet) s;
          (a, pause, assigned) = app packet (in_recvd s) (in_app s);
          s = s\<lparr>in_app := a\<rparr>
      in (if pause then in_pauseProducing s else s, assigned))"

text \<open>The slicing after the loop of \<open>dataReceived\<close>.\<close>

definition in_finish :: "bytes \<Rightarrow> nat \<Rightarrow> 'a intn \<Rightarrow> 'a intn" where
  "in_finish alldata off s = s\<lparr>in_unprocessed := drop off alldata, in_compatibilityOffset := 0\<rparr>"

text \<open>
  The loop of \<open>dataReceived\<close>.  It calls the methods \<open>stringReceived\<close> and \<open>lengthLimitExceeded\<close>,
  which subclasses override, so both are parameters.
\<close>

partial_function (option) in_parse ::
    "(bytes \<Rightarrow> 'a intn \<Rightarrow> 'a intn \<times> bytes option) \<Rightarrow> (nat \<Rightarrow> 'a intn \<Rightarrow> 'a intn) \<Rightarrow>
     bytes \<Rightarrow> nat \<Rightarrow> 'a intn \<Rightarrow> 'a intn option" where
  "in_parse received exceeded alldata off s =
     (if off + in_prefixLength s \<le> length alldata \<and> \<not> in_paused s then
        let start = off + in_prefixLength s;
            len = be_nat (drop off (take start alldata))
        in if len > in_MAX_LENGTH s then
             Some (exceeded len (s\<lparr>in_unprocessed := alldata, in_compatibilityOffset := off\<rparr>))
           else if length alldata < start + len then Some (in_finish alldata off s)
           else
             let (s', assigned) = received (drop start (take (start + len) alldata))
                                    (s\<lparr>in_compatibilityOffset := start + len\<rparr>)
             in (case assigned of
                   None \<Rightarrow> in_parse received exceeded alldata (start + len) s'
                 | Some new \<Rightarrow>
                     (let s'' = s'\<lparr>in_unprocessed := new, in_compatibilityOffset := 0\<rparr>
                      in if new \<noteq> [] then in_parse received exceeded new 0 s'' else Some s''))
      else Some (in_finish alldata off s))"

declare in_parse.simps [code]

definition in_receive ::
    "(bytes \<Rightarrow> 'a intn \<Rightarrow> 'a intn \<times> bytes option) \<Rightarrow> (nat \<Rightarrow> 'a intn \<Rightarrow> 'a intn) \<Rightarrow>
     bytes \<Rightarrow> 'a intn \<Rightarrow> 'a intn option" where
  "in_receive received exceeded d s =
     (let alldata = in_unprocessed s @ d
      in in_parse received exceeded alldata 0 (s\<lparr>in_unprocessed := alldata\<rparr>))"

text \<open>With an application's \<open>stringReceived\<close> and the \<open>lengthLimitExceeded\<close> of the class itself.\<close>

definition in_loop :: "'a in_application \<Rightarrow> bytes \<Rightarrow> nat \<Rightarrow> 'a intn \<Rightarrow> 'a intn option" where
  "in_loop app = in_parse (in_stringReceived app) in_lengthLimitExceeded"

definition in_dataReceived :: "'a in_application \<Rightarrow> bytes \<Rightarrow> 'a intn \<Rightarrow> 'a intn option" where
  "in_dataReceived app = in_receive (in_stringReceived app) in_lengthLimitExceeded"

lemma in_dataReceived_eq:
  "in_dataReceived app d s = in_loop app (in_unprocessed s @ d) 0 (s\<lparr>in_unprocessed := in_unprocessed s @ d\<rparr>)"
  by (simp add: in_dataReceived_def in_receive_def in_loop_def Let_def)

lemma in_loop_step:
  "in_loop app alldata off s =
     (if off + in_prefixLength s \<le> length alldata \<and> \<not> in_paused s then
        let start = off + in_prefixLength s;
            len = be_nat (drop off (take start alldata))
        in if len > in_MAX_LENGTH s then
             Some (in_lengthLimitExceeded len (s\<lparr>in_unprocessed := alldata, in_compatibilityOffset := off\<rparr>))
           else if length alldata < start + len then Some (in_finish alldata off s)
           else
             let (s', assigned) = in_stringReceived app (drop start (take (start + len) alldata))
                                    (s\<lparr>in_compatibilityOffset := start + len\<rparr>)
             in (case assigned of
                   None \<Rightarrow> in_loop app alldata (start + len) s'
                 | Some new \<Rightarrow>
                     (let s'' = s'\<lparr>in_unprocessed := new, in_compatibilityOffset := 0\<rparr>
                      in if new \<noteq> [] then in_loop app new 0 s'' else Some s''))
      else Some (in_finish alldata off s))"
  unfolding in_loop_def by (rule in_parse.simps)

definition in_resumeProducing :: "'a in_application \<Rightarrow> 'a intn \<Rightarrow> 'a intn option" where
  "in_resumeProducing app s = in_dataReceived app [] (in_emit InResumeProducing (s\<lparr>in_paused := False\<rparr>))"

datatype in_error = StringTooLongError nat nat

definition in_pack :: "nat \<Rightarrow> bytes \<Rightarrow> bytes" where
  "in_pack k m = be_bytes k (length m) @ m"

definition in_sendString :: "bytes \<Rightarrow> 'a intn \<Rightarrow> (in_error, 'a intn) outcome" where
  "in_sendString str s =
     (if length str \<ge> 2 ^ (8 * in_prefixLength s)
      then Exc (StringTooLongError (length str) (2 ^ (8 * in_prefixLength s))) s
      else Ok (in_emit (InWrite (in_pack (in_prefixLength s) str)) s))"

section \<open>Stateful string protocols\<close>

text \<open>
  The mixin's \<open>stringReceived\<close>.  \<open>proto\<close> stands for the subclass: the method
  \<open>proto_<state>\<close> for a state, when there is one, which returns the next state.
  Without one the message is only logged.
\<close>

datatype sp_event = SpNotFound string | SpLoseConnection

record 'a stateful =
  sp_state :: string
  sp_app :: 'a
  sp_events :: "sp_event list"

definition sp_stringReceived ::
    "(string \<Rightarrow> (bytes \<Rightarrow> 'a \<Rightarrow> 'a \<times> string) option) \<Rightarrow> bytes \<Rightarrow> 'a stateful \<Rightarrow> 'a stateful" where
  "sp_stringReceived proto str s =
     (case proto (sp_state s) of
        None \<Rightarrow> s\<lparr>sp_events := sp_events s @ [SpNotFound (sp_state s)]\<rparr>
      | Some handler \<Rightarrow>
          (let (a, next) = handler str (sp_app s); s = s\<lparr>sp_app := a, sp_state := next\<rparr>
           in if next = ''done'' then s\<lparr>sp_events := sp_events s @ [SpLoseConnection]\<rparr> else s))"

section \<open>The packets a receiver has delivered\<close>

fun in_event_packet :: "in_event \<Rightarrow> bytes option" where
  "in_event_packet (InReceived p) = Some p"
| "in_event_packet _ = None"

definition in_strings :: "'a intn \<Rightarrow> bytes list" where
  "in_strings s = List.map_filter in_event_packet (in_events s)"

lemma in_strings_emit [simp]:
  "in_strings (in_emit (InReceived p) s) = in_strings s @ [p]"
  "in_strings (in_emit (InWrite p) s) = in_strings s"
  "in_strings (in_emit InLoseConnection s) = in_strings s"
  "in_strings (in_emit InPauseProducing s) = in_strings s"
  "in_strings (in_emit InResumeProducing s) = in_strings s"
  "in_strings (in_emit InStopProducing s) = in_strings s"
  by (simp_all add: in_strings_def in_emit_def List.map_filter_def)

lemma in_emit_sel [simp]:
  "in_prefixLength (in_emit e s) = in_prefixLength s" "in_MAX_LENGTH (in_emit e s) = in_MAX_LENGTH s"
  "in_unprocessed (in_emit e s) = in_unprocessed s" "in_paused (in_emit e s) = in_paused s"
  "in_compatibilityOffset (in_emit e s) = in_compatibilityOffset s" "in_app (in_emit e s) = in_app s"
  "in_events (in_emit e s) = in_events s @ [e]"
  by (simp_all add: in_emit_def)

lemma in_strings_upd [simp]:
  "in_strings (s\<lparr>in_unprocessed := d\<rparr>) = in_strings s"
  "in_strings (s\<lparr>in_compatibilityOffset := n\<rparr>) = in_strings s"
  "in_strings (s\<lparr>in_paused := b\<rparr>) = in_strings s"
  "in_strings (s\<lparr>in_app := a\<rparr>) = in_strings s"
  by (simp_all add: in_strings_def)

lemma in_finish_sel [simp]:
  "in_prefixLength (in_finish d n s) = in_prefixLength s" "in_MAX_LENGTH (in_finish d n s) = in_MAX_LENGTH s"
  "in_unprocessed (in_finish d n s) = drop n d" "in_paused (in_finish d n s) = in_paused s"
  "in_compatibilityOffset (in_finish d n s) = 0" "in_strings (in_finish d n s) = in_strings s"
  by (simp_all add: in_finish_def)

lemma in_pauseProducing_sel [simp]:
  "in_prefixLength (in_pauseProducing s) = in_prefixLength s"
  "in_MAX_LENGTH (in_pauseProducing s) = in_MAX_LENGTH s"
  "in_unprocessed (in_pauseProducing s) = in_unprocessed s"
  "in_compatibilityOffset (in_pauseProducing s) = in_compatibilityOffset s"
  "in_paused (in_pauseProducing s)" "in_strings (in_pauseProducing s) = in_strings s"
  by (simp_all add: in_pauseProducing_def)

lemma in_stringReceived_sel:
  assumes "in_stringReceived app p s = (s', assigned)"
  shows "in_prefixLength s' = in_prefixLength s" "in_MAX_LENGTH s' = in_MAX_LENGTH s"
    "in_unprocessed s' = in_unprocessed s" "in_strings s' = in_strings s @ [p]"
    "in_compatibilityOffset s' = in_compatibilityOffset s"
    "assigned = snd (snd (app p (in_recvd s) (in_app s)))"
  using assms by (auto simp: in_stringReceived_def in_recvd_def Let_def split: prod.splits if_splits)

section \<open>Nothing is lost and nothing is repeated\<close>

text \<open>An application that leaves \<open>recvd\<close> alone.\<close>

definition in_plain :: "'a in_application \<Rightarrow> bool" where
  "in_plain app \<longleftrightarrow> (\<forall>p r a. snd (snd (app p r a)) = None)"

text \<open>Data in which no complete packet starts.\<close>

definition in_incomplete :: "nat \<Rightarrow> bytes \<Rightarrow> bool" where
  "in_incomplete k d \<longleftrightarrow> length d < k \<or> length d < k + be_nat (take k d)"

definition in_accepts :: "nat \<Rightarrow> nat \<Rightarrow> bytes \<Rightarrow> bool" where
  "in_accepts k n m \<longleftrightarrow> length m \<le> n \<and> length m < 256 ^ k"

lemma length_in_pack [simp]: "length (in_pack k m) = k + length m"
  by (simp add: in_pack_def)

lemma in_pack_prefix:
  assumes "d @ fut = in_pack k m @ r" "k \<le> length d" "in_accepts k n m"
  shows "be_nat (take k d) = length m"
proof -
  have "take k d = take k (d @ fut)" using assms(2) by simp
  also have "\<dots> = be_bytes k (length m)" by (simp add: assms(1) in_pack_def)
  finally show ?thesis using assms(3) by (simp add: be_nat_be_bytes in_accepts_def)
qed

lemma in_pack_body:
  assumes "d @ fut = in_pack k m @ r" "k + length m \<le> length d"
  shows "take (length m) (drop k d) = m" "drop (k + length m) d @ fut = r"
proof -
  have "take (length m) (drop k d) = take (length m) (drop k (d @ fut))" using assms(2) by simp
  then show "take (length m) (drop k d) = m" by (simp add: assms(1) in_pack_def)
  have "drop (k + length m) d @ fut = drop (k + length m) (d @ fut)" using assms(2) by simp
  then show "drop (k + length m) d @ fut = r" by (simp add: assms(1))
qed

definition in_delivers :: "bytes \<Rightarrow> bytes list \<Rightarrow> 'a intn \<Rightarrow> 'a intn option \<Rightarrow> bool" where
  "in_delivers fut ms s r \<longleftrightarrow> (\<exists>s' out rest. r = Some s' \<and> ms = out @ rest \<and>
     in_strings s' = in_strings s @ out \<and>
     in_unprocessed s' @ fut = concat (map (in_pack (in_prefixLength s)) rest) \<and>
     in_compatibilityOffset s' = 0 \<and> in_prefixLength s' = in_prefixLength s \<and>
     in_MAX_LENGTH s' = in_MAX_LENGTH s \<and>
     (in_paused s' \<or> in_incomplete (in_prefixLength s) (in_unprocessed s')))"

lemma in_delivers_stop:
  assumes "drop off d @ fut = concat (map (in_pack (in_prefixLength s)) ms)"
    and "in_paused s \<or> in_incomplete (in_prefixLength s) (drop off d)"
  shows "in_delivers fut ms s (Some (in_finish d off s))"
  unfolding in_delivers_def
  by (rule exI [of _ "in_finish d off s"], rule exI [of _ "[]"], rule exI [of _ ms]) (use assms in simp)

lemma in_loop_delivers:
  assumes "0 < in_prefixLength s" "in_plain app"
    and "drop off d @ fut = concat (map (in_pack (in_prefixLength s)) ms)"
    and "\<forall>m \<in> set ms. in_accepts (in_prefixLength s) (in_MAX_LENGTH s) m"
  shows "in_delivers fut ms s (in_loop app d off s)"
  using assms(1,3,4)
proof (induction ms arbitrary: off s)
  case Nil
  then have "length d < off + in_prefixLength s" by (auto simp: Suc_le_eq)
  with Nil show ?case
    by (subst in_loop_step) (auto intro!: in_delivers_stop simp: in_incomplete_def)
next
  case (Cons m ms)
  define k where "k = in_prefixLength s"
  define e where "e = drop off d"
  have es: "e @ fut = in_pack k m @ concat (map (in_pack k) ms)" using Cons.prems by (simp add: e_def k_def)
  have acc: "in_accepts k (in_MAX_LENGTH s) m" using Cons.prems by (simp add: k_def)
  show ?case
  proof (cases "off + k \<le> length d \<and> \<not> in_paused s")
    case False
    then have "in_paused s \<or> in_incomplete k (drop off d)"
      using Cons.prems(1) by (auto simp: in_incomplete_def k_def)
    moreover have "in_loop app d off s = Some (in_finish d off s)"
      using False by (subst in_loop_step, intro if_not_P) (simp add: k_def)
    ultimately show ?thesis using Cons.prems(2) by (simp only: k_def in_delivers_stop)
  next
    case True
    then have ke: "k \<le> length e" unfolding e_def length_drop by arith
    have len: "be_nat (take k e) = length m" by (rule in_pack_prefix [OF es ke acc])
    have tk: "drop off (take (off + k) d) = take k e" by (simp add: e_def drop_take)
    show ?thesis
    proof (cases "length d < off + k + length m")
      case True
      then have "length e < k + length m"
        using \<open>off + k \<le> length d \<and> \<not> in_paused s\<close> unfolding e_def length_drop by arith
      then have "in_incomplete k (drop off d)" using len by (simp add: in_incomplete_def flip: e_def)
      moreover have "in_loop app d off s = Some (in_finish d off s)"
        using True \<open>off + k \<le> length d \<and> \<not> in_paused s\<close> acc
        by (subst in_loop_step) (simp add: tk len Let_def in_accepts_def flip: k_def)
      ultimately show ?thesis using Cons.prems(2) by (metis in_delivers_stop k_def)
    next
      case False
      then have full: "k + length m \<le> length e" using ke unfolding e_def length_drop by arith
      have body: "drop (off + k) (take (off + k + length m) d) = m"
        using in_pack_body(1) [OF es full] by (simp add: e_def drop_take add.commute)
      obtain s' a where sr: "in_stringReceived app m (s\<lparr>in_compatibilityOffset := off + k + length m\<rparr>) = (s', a)"
        by (cases "in_stringReceived app m (s\<lparr>in_compatibilityOffset := off + k + length m\<rparr>)")
      note s' = in_stringReceived_sel [OF sr]
      have "a = None" using s'(6) assms(2) by (simp add: in_plain_def)
      with sr body False True acc have "in_loop app d off s = in_loop app d (off + k + length m) s'"
        by (subst in_loop_step) (simp add: tk len Let_def in_accepts_def flip: k_def)
      moreover have "in_delivers fut ms s' (in_loop app d (off + k + length m) s')"
        using in_pack_body(2) [OF es full] Cons.prems s'(1,2)
        by (intro Cons.IH) (simp_all add: e_def k_def add_ac)
      ultimately show ?thesis
        using s'(1,2,4) unfolding in_delivers_def by (fastforce simp: k_def)
    qed
  qed
qed

text \<open>What can happen to a receiver: data arrives, or its consumer pauses or resumes it.\<close>

datatype in_op = InData bytes | InPause | InResume

fun in_step :: "'a in_application \<Rightarrow> in_op \<Rightarrow> 'a intn \<Rightarrow> 'a intn option" where
  "in_step app (InData d) s = in_dataReceived app d s"
| "in_step app InPause s = Some (in_pauseProducing s)"
| "in_step app InResume s = in_resumeProducing app s"

fun in_run :: "'a in_application \<Rightarrow> in_op list \<Rightarrow> 'a intn \<Rightarrow> 'a intn option" where
  "in_run app [] s = Some s"
| "in_run app (p # ps) s = Option.bind (in_step app p s) (in_run app ps)"

fun in_data :: "in_op list \<Rightarrow> bytes" where
  "in_data [] = []"
| "in_data (InData d # ps) = d @ in_data ps"
| "in_data (_ # ps) = in_data ps"

text \<open>
  The invariant between operations, when the peer framed \<open>ms\<close> and \<open>fut\<close> is still on
  its way: the delivered packets are the first of \<open>ms\<close>, and the buffer and \<open>fut\<close> hold
  the frames of the others.
\<close>

definition in_conserved :: "nat \<Rightarrow> nat \<Rightarrow> bytes list \<Rightarrow> bytes \<Rightarrow> 'a intn \<Rightarrow> bool" where
  "in_conserved k n ms fut s \<longleftrightarrow> in_prefixLength s = k \<and> in_MAX_LENGTH s = n \<and> in_compatibilityOffset s = 0 \<and>
     (\<exists>rest. ms = in_strings s @ rest \<and> in_unprocessed s @ fut = concat (map (in_pack k) rest))"

definition in_inv :: "nat \<Rightarrow> nat \<Rightarrow> bytes list \<Rightarrow> bytes \<Rightarrow> 'a intn \<Rightarrow> bool" where
  "in_inv k n ms fut s \<longleftrightarrow> in_conserved k n ms fut s \<and> (in_paused s \<or> in_incomplete k (in_unprocessed s))"

lemma in_inv_dataReceived:
  assumes "0 < k" "in_plain app" "\<forall>m \<in> set ms. in_accepts k n m" "in_conserved k n ms (d @ fut) s"
  shows "\<exists>s'. in_dataReceived app d s = Some s' \<and> in_inv k n ms fut s'"
proof -
  let ?d = "in_unprocessed s @ d"
  from assms(4) obtain rest where rest: "ms = in_strings s @ rest"
    "?d @ fut = concat (map (in_pack k) rest)" and k: "in_prefixLength s = k" "in_MAX_LENGTH s = n"
    by (auto simp: in_conserved_def)
  have "in_delivers fut rest (s\<lparr>in_unprocessed := ?d\<rparr>) (in_loop app ?d 0 (s\<lparr>in_unprocessed := ?d\<rparr>))"
    using assms(1-3) rest k by (intro in_loop_delivers) auto
  with rest(1) k show ?thesis
    by (auto simp: in_delivers_def in_dataReceived_eq in_inv_def in_conserved_def)
qed

lemma in_inv_step:
  assumes "0 < k" "in_plain app" "\<forall>m \<in> set ms. in_accepts k n m" "in_inv k n ms (in_data [p] @ fut) s"
  shows "\<exists>s'. in_step app p s = Some s' \<and> in_inv k n ms fut s'"
proof (cases p)
  case (InData d)
  with assms(4) in_inv_dataReceived [OF assms(1-3)] show ?thesis by (simp add: in_inv_def)
next
  case InPause
  with assms(4) show ?thesis by (simp add: in_inv_def in_conserved_def)
next
  case InResume
  with assms(4) have "in_conserved k n ms ([] @ fut) (in_emit InResumeProducing (s\<lparr>in_paused := False\<rparr>))"
    by (simp add: in_inv_def in_conserved_def)
  from in_inv_dataReceived [OF assms(1-3) this] InResume show ?thesis
    by (simp add: in_resumeProducing_def)
qed

lemma in_inv_run:
  assumes "0 < k" "in_plain app" "\<forall>m \<in> set ms. in_accepts k n m"
  shows "in_inv k n ms (in_data ps @ fut) s \<Longrightarrow> \<exists>s'. in_run app ps s = Some s' \<and> in_inv k n ms fut s'"
proof (induction ps arbitrary: s)
  case (Cons p ps)
  have "in_data (p # ps) = in_data [p] @ in_data ps" by (cases p) simp_all
  with Cons.prems in_inv_step [OF assms, of p "in_data ps @ fut" s]
  obtain s' where "in_step app p s = Some s'" "in_inv k n ms (in_data ps @ fut) s'" by auto
  with Cons.IH show ?case by auto
qed simp

lemma in_inv_all:
  assumes "0 < k" "\<forall>m \<in> set ms. in_accepts k n m" "in_inv k n ms [] s" "\<not> in_paused s"
  shows "in_strings s = ms"
proof -
  from assms(3) obtain rest where rest: "ms = in_strings s @ rest"
    "in_unprocessed s = concat (map (in_pack k) rest)" "in_incomplete k (in_unprocessed s)"
    using assms(4) by (auto simp: in_inv_def in_conserved_def)
  have "rest = []"
  proof (cases rest)
    case (Cons m r)
    then have *: "in_unprocessed s @ [] = in_pack k m @ concat (map (in_pack k) r)" using rest by simp
    moreover have "in_accepts k n m" using assms(2) rest(1) Cons by simp
    moreover have "length (in_unprocessed s) \<ge> k + length m" using Cons rest by simp
    ultimately show ?thesis using in_pack_prefix [OF *] rest(3) by (auto simp: in_incomplete_def)
  qed
  with rest show ?thesis by simp
qed

lemma in_sendString_Ok:
  "in_sendString m s = Ok u \<longleftrightarrow>
     length m < 256 ^ in_prefixLength s \<and> u = in_emit (InWrite (in_pack (in_prefixLength s) m)) s"
proof -
  have "(2::nat) ^ (8 * k) = 256 ^ k" for k by (simp add: power_mult)
  then show ?thesis by (auto simp: in_sendString_def)
qed

section \<open>Limits\<close>

definition in_limits :: "nat \<Rightarrow> nat \<Rightarrow> 'a intn \<Rightarrow> bool" where
  "in_limits k n s \<longleftrightarrow> in_prefixLength s = k \<and> in_MAX_LENGTH s = n \<and> (\<forall>m \<in> set (in_strings s). length m \<le> n)"

definition in_short :: "nat \<Rightarrow> nat \<Rightarrow> 'a intn \<Rightarrow> bool" where
  "in_short k n s \<longleftrightarrow> InLoseConnection \<in> set (in_events s) \<or> in_paused s \<or> length (in_unprocessed s) < k + n"

lemma in_parse_limits:
  assumes "in_parse received exceeded d off s = Some s'" and kp: "0 < k"
  shows "received = in_stringReceived app \<Longrightarrow> exceeded = in_lengthLimitExceeded \<Longrightarrow>
    in_limits k n s \<Longrightarrow> in_limits k n s' \<and> in_short k n s'"
  using assms(1)
proof (induction received exceeded d off s s' rule: in_parse.raw_induct [rotated, consumes 1, case_names step])
  case (step rec received exceeded d off s s')
  note IH = step(1) and eq0 = step(2) [unfolded step(3,4)] and lim = step(5)
  have k: "in_prefixLength s = k" "in_MAX_LENGTH s = n" using lim by (simp_all add: in_limits_def)
  show ?case
  proof (cases "off + k \<le> length d \<and> \<not> in_paused s")
    case False
    with eq0 have "s' = in_finish d off s" by (simp only: k if_False option.inject)
    with lim False kp show ?thesis by (auto simp: in_limits_def in_short_def)
  next
    case True
    define len where "len = be_nat (drop off (take (off + k) d))"
    obtain u a where sr: "in_stringReceived app (drop (off + k) (take (off + k + len) d))
        (s\<lparr>in_compatibilityOffset := off + k + len\<rparr>) = (u, a)"
      by (cases "in_stringReceived app (drop (off + k) (take (off + k + len) d))
        (s\<lparr>in_compatibilityOffset := off + k + len\<rparr>)")
    consider "len > n" | "len \<le> n" "length d < off + k + len" | "len \<le> n" "length d \<ge> off + k + len"
      by linarith
    then show ?thesis
    proof cases
      case 1
      with eq0 True k
      have "s' = in_lengthLimitExceeded len (s\<lparr>in_unprocessed := d, in_compatibilityOffset := off\<rparr>)"
        by (simp add: Let_def flip: len_def)
      with lim show ?thesis
        by (simp add: in_limits_def in_short_def in_lengthLimitExceeded_def)
    next
      case 2
      with eq0 True k have "s' = in_finish d off s"
        by (simp add: Let_def flip: len_def)
      with lim 2 True show ?thesis by (auto simp: in_limits_def in_short_def)
    next
      case 3
      note u = in_stringReceived_sel [OF sr]
      have lu: "in_limits k n u"
        using lim 3 u by (auto simp: in_limits_def)
      have eq: "(case a of None \<Rightarrow> rec (in_stringReceived app) in_lengthLimitExceeded d (off + k + len) u
          | Some new \<Rightarrow> if new \<noteq> [] then rec (in_stringReceived app) in_lengthLimitExceeded new 0 (u\<lparr>in_unprocessed := new, in_compatibilityOffset := 0\<rparr>)
              else Some (u\<lparr>in_unprocessed := new, in_compatibilityOffset := 0\<rparr>)) = Some s'"
        using eq0 True k 3 sr by (simp add: Let_def flip: len_def)
      show ?thesis
      proof (cases a)
        case None
        with eq lu IH kp show ?thesis by simp
      next
        case (Some new)
        have "in_limits k n (u\<lparr>in_unprocessed := new, in_compatibilityOffset := 0\<rparr>)"
          using lu by (simp add: in_limits_def)
        with eq Some IH kp show ?thesis
          by (cases "new = []") (auto simp: in_short_def)
      qed
    qed
  qed
qed

lemma in_loop_limits:
  "in_loop app d off s = Some s' \<Longrightarrow> 0 < k \<Longrightarrow> in_limits k n s \<Longrightarrow> in_limits k n s' \<and> in_short k n s'"
  unfolding in_loop_def by (rule in_parse_limits) simp_all

lemma in_limits_dataReceived:
  "in_dataReceived app d s = Some s' \<Longrightarrow> 0 < k \<Longrightarrow> in_limits k n s \<Longrightarrow> in_limits k n s' \<and> in_short k n s'"
  unfolding in_dataReceived_eq by (erule in_loop_limits) (simp_all add: in_limits_def)

lemma in_limits_step:
  assumes "in_step app p s = Some s'" and k: "0 < k" and s: "in_limits k n s" "in_short k n s"
  shows "in_limits k n s' \<and> in_short k n s'"
proof (cases p)
  case (InData d)
  with assms(1) in_limits_dataReceived [OF _ k s(1)] show ?thesis by simp
next
  case InPause
  with assms(1) s show ?thesis by (auto simp: in_limits_def in_short_def)
next
  case InResume
  have "in_limits k n (in_emit InResumeProducing (s\<lparr>in_paused := False\<rparr>))"
    using s(1) by (simp add: in_limits_def)
  with assms(1) InResume in_limits_dataReceived [OF _ k] show ?thesis
    by (simp add: in_resumeProducing_def)
qed

lemma in_limits_run:
  "in_run app ps s = Some s' \<Longrightarrow> 0 < k \<Longrightarrow> in_limits k n s \<Longrightarrow> in_short k n s \<Longrightarrow>
     in_limits k n s' \<and> in_short k n s'"
proof (induction ps arbitrary: s)
  case (Cons p ps)
  then obtain u where "in_step app p s = Some u" "in_run app ps u = Some s'"
    by (cases "in_step app p s") auto
  with Cons.IH Cons.prems in_limits_step show ?case by blast
qed simp

text \<open>An application that neither pauses nor touches \<open>recvd\<close>.\<close>

definition in_quiet :: "'a in_application \<Rightarrow> bool" where
  "in_quiet app \<longleftrightarrow> (\<forall>p r a. snd (app p r a) = (False, None))"

lemma in_quiet_stringReceived:
  assumes "in_quiet app" "in_stringReceived app m s = (u, a)"
  shows "in_paused u = in_paused s" "a = None"
proof -
  obtain b where "app m (in_recvd (in_emit (InReceived m) s)) (in_app (in_emit (InReceived m) s)) = (b, False, None)"
    using assms(1) unfolding in_quiet_def by (metis prod.collapse)
  with assms(2) show "in_paused u = in_paused s" "a = None"
    by (auto simp: in_stringReceived_def Let_def)
qed

text \<open>
  A prefix above the limit stops the loop with the whole buffer kept, so the next
  chunk starts again at its beginning.
\<close>

lemma in_loop_exceeds:
  assumes "in_quiet app" "n < len" "len < 256 ^ k"
  shows "drop off d = concat (map (in_pack k) ms) @ be_bytes k len @ r \<Longrightarrow>
     off \<le> length d \<Longrightarrow> in_prefixLength s = k \<Longrightarrow> in_MAX_LENGTH s = n \<Longrightarrow> \<not> in_paused s \<Longrightarrow>
     \<forall>m \<in> set ms. in_accepts k n m \<Longrightarrow> in_unprocessed s = d \<Longrightarrow>
     \<exists>s'. in_loop app d off s = Some s' \<and> in_strings s' = in_strings s @ ms \<and> in_unprocessed s' = d \<and>
       in_prefixLength s' = k \<and> in_MAX_LENGTH s' = n \<and> \<not> in_paused s'"
proof (induction ms arbitrary: off s)
  case Nil
  then have "off + k \<le> length d" by (metis concat.simps(1) append_Nil diff_le_mono2 le_add1 le_add_diff_inverse
      length_append length_be_bytes length_drop list.simps(8) nat_add_left_cancel_le)
  moreover have "drop off (take (off + k) d) = be_bytes k len" using Nil by (simp add: drop_take)
  ultimately have "in_loop app d off s = Some (in_lengthLimitExceeded len
      (s\<lparr>in_unprocessed := d, in_compatibilityOffset := off\<rparr>))"
    using Nil assms(2,3) by (subst in_loop_step) (simp add: Let_def be_nat_be_bytes)
  with Nil show ?case by (simp add: in_lengthLimitExceeded_def)
next
  case (Cons m ms)
  let ?off = "off + k + length m"
  have d: "drop off d = in_pack k m @ concat (map (in_pack k) ms) @ be_bytes k len @ r" using Cons.prems by simp
  then have "length (drop off d) \<ge> k + length m" by simp
  then have full: "?off \<le> length d" using Cons.prems(2) unfolding length_drop by arith
  have pre: "drop off (take (off + k) d) = be_bytes k (length m)"
    using d by (simp add: drop_take in_pack_def)
  have acc: "in_accepts k n m" using Cons.prems by simp
  have body: "drop (off + k) (take ?off d) = m"
  proof -
    have "drop (off + k) (take ?off d) = take (length m) (drop k (drop off d))" by (simp add: drop_take add.commute)
    then show ?thesis unfolding d by (simp add: in_pack_def)
  qed
  obtain u a where sr: "in_stringReceived app m (s\<lparr>in_compatibilityOffset := ?off\<rparr>) = (u, a)"
    by (cases "in_stringReceived app m (s\<lparr>in_compatibilityOffset := ?off\<rparr>)")
  note u = in_stringReceived_sel [OF sr]
  have a: "a = None" and up: "\<not> in_paused u"
    using in_quiet_stringReceived [OF assms(1) sr] Cons.prems(5) by simp_all
  have "in_loop app d off s = in_loop app d ?off u"
    using full pre body sr a acc Cons.prems
    by (subst in_loop_step) (simp add: Let_def be_nat_be_bytes in_accepts_def)
  moreover have "drop ?off d = concat (map (in_pack k) ms) @ be_bytes k len @ r"
  proof -
    have "drop ?off d = drop (k + length m) (drop off d)" by (simp add: add_ac)
    then show ?thesis unfolding d by simp
  qed
  ultimately show ?case
    using Cons.IH [of ?off u] full u up Cons.prems by simp
qed

section \<open>The \<open>recvd\<close> attribute\<close>

text \<open>The same application, but after every packet it assigns to \<open>recvd\<close> what it reads from it.\<close>

definition in_reassign :: "'a in_application \<Rightarrow> 'a in_application" where
  "in_reassign app p r a = (case app p r a of (a', pause, _) \<Rightarrow> (a', pause, Some r))"

text \<open>A state with the buffer cut off where \<open>recvd\<close> starts.\<close>

definition in_normal :: "'a intn \<Rightarrow> 'a intn" where
  "in_normal s = s\<lparr>in_unprocessed := in_recvd s, in_compatibilityOffset := 0\<rparr>"

lemma in_stringReceived_view:
  assumes "in_stringReceived app m s = (u, a)" "drop c x = in_recvd s"
  shows "in_stringReceived (in_reassign app) m (s\<lparr>in_unprocessed := x, in_compatibilityOffset := c\<rparr>)
    = (u\<lparr>in_unprocessed := x, in_compatibilityOffset := c\<rparr>, Some (in_recvd s))"
proof -
  obtain b p q where app: "app m (in_recvd s) (in_app s) = (b, p, q)" by (metis prod.collapse)
  have "in_recvd (in_emit e s) = in_recvd s" for e by (simp add: in_recvd_def)
  with assms app show ?thesis
    by (auto simp: in_stringReceived_def Let_def in_recvd_def in_reassign_def in_pauseProducing_def in_emit_def)
qed

lemma in_loop_reassign:
  assumes "in_plain app" "0 < in_prefixLength s" "off \<le> length d" "in_unprocessed s = d"
  shows "map_option in_normal (in_loop (in_reassign app) (drop off d) 0
           (s\<lparr>in_unprocessed := drop off d, in_compatibilityOffset := 0\<rparr>))
       = map_option in_normal (in_loop app d off s)"
  using assms(2-4)
proof (induction "length d - off" arbitrary: off s rule: less_induct)
  case less
  define k where "k = in_prefixLength s"
  define len where "len = be_nat (drop off (take (off + k) d))"
  define s' where "s' = s\<lparr>in_unprocessed := drop off d, in_compatibilityOffset := 0\<rparr>"
  let ?stop = "off + k + len"
  have len': "len = be_nat (take k (drop off d))" by (simp add: len_def drop_take)
  have sel: "in_prefixLength s' = k" "in_MAX_LENGTH s' = in_MAX_LENGTH s" "in_paused s' = in_paused s"
    by (simp_all add: s'_def k_def)
  have cond: "k \<le> length (drop off d) \<longleftrightarrow> off + k \<le> length d" using less.prems unfolding length_drop by arith
  consider (stop) "\<not> (off + k \<le> length d \<and> \<not> in_paused s)"
    | (limit) "off + k \<le> length d" "\<not> in_paused s" "len > in_MAX_LENGTH s"
    | (short) "off + k \<le> length d" "\<not> in_paused s" "\<not> len > in_MAX_LENGTH s" "length d < ?stop"
    | (full) "off + k \<le> length d" "\<not> in_paused s" "\<not> len > in_MAX_LENGTH s" "?stop \<le> length d"
    by linarith
  then have "map_option in_normal (in_loop (in_reassign app) (drop off d) 0 s')
      = map_option in_normal (in_loop app d off s)"
  proof cases
    case stop
    then have "in_loop app d off s = Some (in_finish d off s)"
      "in_loop (in_reassign app) (drop off d) 0 s' = Some (in_finish (drop off d) 0 s')"
      using cond sel by (subst in_loop_step, intro if_not_P, simp add: k_def del: length_drop)+
    then show ?thesis by (simp add: in_normal_def in_recvd_def in_finish_def s'_def)
  next
    case limit
    then have "in_loop app d off s = Some (in_lengthLimitExceeded len (s\<lparr>in_unprocessed := d, in_compatibilityOffset := off\<rparr>))"
      "in_loop (in_reassign app) (drop off d) 0 s' = Some (in_lengthLimitExceeded len s')"
      using cond sel less.prems
      by (subst in_loop_step, simp add: len_def len' Let_def drop_take s'_def flip: k_def del: length_drop)+
    then show ?thesis using less.prems
      by (simp add: in_normal_def in_recvd_def in_lengthLimitExceeded_def in_emit_def s'_def)
  next
    case short
    then have "\<not> k + len \<le> length (drop off d)" unfolding length_drop by arith
    with short have "in_loop app d off s = Some (in_finish d off s)"
      "in_loop (in_reassign app) (drop off d) 0 s' = Some (in_finish (drop off d) 0 s')"
      using cond sel
      by (subst in_loop_step, simp add: len_def len' Let_def drop_take flip: k_def del: length_drop)+
    then show ?thesis by (simp add: in_normal_def in_recvd_def in_finish_def s'_def)
  next
    case full
    then have full': "\<not> length (drop off d) < k + len" unfolding length_drop by arith
    let ?m = "drop (off + k) (take ?stop d)"
    have m': "drop k (take (k + len) (drop off d)) = ?m" by (simp add: take_drop drop_drop add_ac)
    obtain u a where sr: "in_stringReceived app ?m (s\<lparr>in_compatibilityOffset := ?stop\<rparr>) = (u, a)"
      by (cases "in_stringReceived app ?m (s\<lparr>in_compatibilityOffset := ?stop\<rparr>)")
    note u = in_stringReceived_sel [OF sr]
    have a: "a = None" using u(6) assms(1) by (simp add: in_plain_def)
    have A: "in_loop app d off s = in_loop app d ?stop u"
      using full sr a by (subst in_loop_step) (simp add: Let_def flip: k_def len_def)
    have recvd: "in_recvd (s\<lparr>in_compatibilityOffset := ?stop\<rparr>) = drop ?stop d"
      using less.prems by (simp add: in_recvd_def)
    then have "drop (k + len) (drop off d) = in_recvd (s\<lparr>in_compatibilityOffset := ?stop\<rparr>)"
      by (simp add: add_ac)
    from in_stringReceived_view [OF sr this] recvd
    have "in_stringReceived (in_reassign app) ?m (s'\<lparr>in_compatibilityOffset := k + len\<rparr>)
      = (u\<lparr>in_unprocessed := drop off d, in_compatibilityOffset := k + len\<rparr>, Some (drop ?stop d))"
      by (simp add: s'_def)
    with full full' cond sel m' have B: "in_loop (in_reassign app) (drop off d) 0 s' =
        (if drop ?stop d \<noteq> [] then in_loop (in_reassign app) (drop ?stop d) 0
           (u\<lparr>in_unprocessed := drop ?stop d, in_compatibilityOffset := 0\<rparr>)
         else Some (u\<lparr>in_unprocessed := drop ?stop d, in_compatibilityOffset := 0\<rparr>))"
      by (subst in_loop_step) (simp add: Let_def flip: k_def len' del: length_drop drop_eq_Nil)
    show ?thesis
    proof (cases "drop ?stop d = []")
      case True
      with full u less.prems have "in_loop app d ?stop u = Some (in_finish d ?stop u)"
        by (subst in_loop_step, intro if_not_P) (simp add: k_def)
      with True A B show ?thesis by (simp add: in_normal_def in_recvd_def in_finish_def)
    next
      case False
      with A B less.hyps [of ?stop u] full u less.prems show ?thesis
        by (simp add: k_def del: drop_eq_Nil)
    qed
  qed
  then show ?case by (simp only: s'_def)
qed

section \<open>Properties\<close>

text \<open>
  C36: whatever the application does when it is called (short of assigning \<open>recvd\<close>),
  whenever it or its consumer pauses and resumes the receiver, and however the stream
  is cut, what \<open>sendString\<close> wrote is delivered in order, each string once and none
  lost: the delivered strings are the first of those sent, the buffer holds the rest,
  every call returns, and once everything arrived and the receiver is not paused,
  everything has been delivered.
\<close>

theorem intn_delivery:
  assumes "0 < k" and "in_plain app"
    and sent: "\<forall>m \<in> set ms. length m \<le> n \<and>
      in_sendString m (in_initial k n b) = Ok (in_emit (InWrite (w m)) (in_initial k n b))"
    and stream: "in_data ps @ fut = concat (map w ms)"
  shows "\<exists>s. in_run app ps (in_initial k n a) = Some s \<and> prefix (in_strings s) ms \<and>
    in_unprocessed s @ fut = concat (map w (drop (length (in_strings s)) ms)) \<and>
    (fut = [] \<and> \<not> in_paused s \<longrightarrow> in_strings s = ms)"
proof -
  have w: "w m = in_pack k m" and acc: "in_accepts k n m" if "m \<in> set ms" for m
  proof -
    from sent that have "length m \<le> n" and
      ok: "in_sendString m (in_initial k n b) = Ok (in_emit (InWrite (w m)) (in_initial k n b))" by blast+
    with ok [unfolded in_sendString_Ok] show "in_accepts k n m"
      by (simp add: in_accepts_def in_initial_def)
    from ok [unfolded in_sendString_Ok] have "in_events (in_emit (InWrite (w m)) (in_initial k n b))
      = in_events (in_emit (InWrite (in_pack k m)) (in_initial k n b))" by (simp add: in_initial_def)
    then show "w m = in_pack k m" by simp
  qed
  have "concat (map w ms) = concat (map (in_pack k) ms)" using w by (simp cong: map_cong)
  with stream have "in_inv k n ms (in_data ps @ fut) (in_initial k n a)"
    using assms(1)
    by (simp add: in_inv_def in_conserved_def in_initial_def in_incomplete_def in_strings_def List.map_filter_def)
  from in_inv_run [OF assms(1,2) _ this] acc obtain s where
    s: "in_run app ps (in_initial k n a) = Some s" "in_inv k n ms fut s" by blast
  from s(2) obtain rest where rest: "ms = in_strings s @ rest"
    "in_unprocessed s @ fut = concat (map (in_pack k) rest)" by (auto simp: in_inv_def in_conserved_def)
  have "map w rest = map (in_pack k) rest" using rest(1) w by simp
  moreover have "drop (length (in_strings s)) ms = rest" by (subst rest(1)) simp
  ultimately have "in_unprocessed s @ fut = concat (map w (drop (length (in_strings s)) ms))"
    using rest(2) by (simp only:)
  moreover have "prefix (in_strings s) ms" by (subst rest(1)) simp
  moreover have "in_strings s = ms" if "fut = []" "\<not> in_paused s"
    using in_inv_all [OF assms(1) _ _ that(2), of ms n] acc s(2) that(1) by simp
  ultimately show ?thesis using s(1) by blast
qed

definition in_demo :: "nat in_application" where
  "in_demo p r a = (a + 1, a = 0, None)"

theorem intn_delivery_witness:
  "\<exists>s. in_run in_demo [InData (in_pack int16_prefixLength ''ab'' @ [CHR 0x00]), InData (CHR 0x01 # ''c''), InResume]
      (in_initial int16_prefixLength 5 0) = Some s \<and> prefix (in_strings s) [''ab'', ''c'']"
proof -
  let ?w = "in_pack int16_prefixLength"
  have d: "in_data [InData (?w ''ab'' @ [CHR 0x00]), InData (CHR 0x01 # ''c''), InResume] @ [] = concat (map ?w [''ab'', ''c''])"
    by code_simp
  have sent: "\<forall>m \<in> set [''ab'', ''c'']. length m \<le> 5 \<and>
      in_sendString m (in_initial int16_prefixLength 5 (0::nat)) =
      Ok (in_emit (InWrite (?w m)) (in_initial int16_prefixLength 5 0))"
    by (simp add: in_sendString_def in_initial_def int16_prefixLength_def)
  have "0 < int16_prefixLength" "in_plain in_demo"
    by (simp_all add: in_plain_def in_demo_def int16_prefixLength_def)
  from intn_delivery [OF this sent d] show ?thesis by blast
qed

text \<open>
  A peer cannot make a receiver deliver a string longer than \<open>MAX_LENGTH\<close>, nor
  make it buffer a prefix and \<open>MAX_LENGTH\<close> bytes or more unless it was paused or has
  closed the connection, whatever is sent and even when the application rewrites
  \<open>recvd\<close>.
\<close>

theorem intn_bounds:
  assumes "0 < k" and "in_run app ps (in_initial k n a) = Some s"
  shows "(\<forall>m \<in> set (in_strings s). length m \<le> n) \<and>
    (InLoseConnection \<in> set (in_events s) \<or> in_paused s \<or> length (in_unprocessed s) < k + n)"
proof -
  have "in_limits k n (in_initial k n a)" "in_short k n (in_initial k n a)"
    using assms(1) by (simp_all add: in_limits_def in_short_def in_initial_def in_strings_def List.map_filter_def)
  from in_limits_run [OF assms(2,1) this] show ?thesis by (simp add: in_limits_def in_short_def)
qed

definition in_rewriter :: "nat in_application" where
  "in_rewriter p r a = (a + 1, False, if a = 0 then Some [CHR 0x01, CHR ''x'', CHR 0x09] else None)"

theorem intn_bounds_witness:
  "list_all (\<lambda>m. length m \<le> 3)
     (in_strings (the (in_run in_rewriter [InData [CHR 0x00, CHR 0x02]] (in_initial 1 3 0))))"
proof -
  have run: "in_run in_rewriter [InData [CHR 0x00, CHR 0x02]] (in_initial 1 3 0)
    = Some \<lparr> in_prefixLength = 1, in_MAX_LENGTH = 3, in_unprocessed = [CHR 0x01, CHR ''x'', CHR 0x09],
        in_compatibilityOffset = 2, in_paused = False, in_app = 2,
        in_events = [InReceived [], InReceived ''x'', InLoseConnection] \<rparr>"
    by code_simp
  show ?thesis
    unfolding run option.sel list_all_iff by (rule intn_bounds [OF _ run, THEN conjunct1]) simp
qed

text \<open>
  Assigning to \<open>recvd\<close> what was just read from it changes nothing: the receiver
  delivers the same strings, returns in the same cases and ends with the same
  unparsed data, although the loop switches buffers after every packet.
\<close>

theorem intn_recvd_compat:
  assumes "in_plain app" and "0 < in_prefixLength s" and "in_compatibilityOffset s = 0"
  shows "map_option in_normal (in_dataReceived (in_reassign app) d s)
    = map_option in_normal (in_dataReceived app d s)"
proof -
  let ?s = "s\<lparr>in_unprocessed := in_unprocessed s @ d\<rparr>"
  have eq: "?s\<lparr>in_unprocessed := in_unprocessed s @ d, in_compatibilityOffset := 0\<rparr> = ?s"
    using assms(3) by (cases s) simp
  show ?thesis
    using in_loop_reassign [of app ?s 0 "in_unprocessed s @ d", unfolded drop_0 eq] assms
    by (simp add: in_dataReceived_eq)
qed

theorem intn_recvd_compat_witness:
  "map_option in_normal (in_dataReceived (in_reassign in_demo) (in_pack 1 ''ab'') (in_initial 1 9 0))
    = map_option in_normal (in_dataReceived in_demo (in_pack 1 ''ab'') (in_initial 1 9 0))"
  by (rule intn_recvd_compat) (simp_all add: in_plain_def in_demo_def in_initial_def)

text \<open>
  After a length prefix above the limit the receiver keeps the whole chunk, and the
  next chunk makes it parse from the start of it: every string that chunk held before
  the prefix is delivered a second time.
\<close>

theorem intn_redelivery:
  assumes "0 < k" and "in_quiet app" and "\<forall>m \<in> set ms. length m \<le> n \<and> length m < 256 ^ k"
    and "n < len" "len < 256 ^ k"
  shows "\<exists>s. in_run app [InData (concat (map (in_pack k) ms) @ be_bytes k len @ x), InData y]
      (in_initial k n a) = Some s \<and> in_strings s = ms @ ms"
proof -
  let ?d = "concat (map (in_pack k) ms) @ be_bytes k len @ x"
  let ?s = "(in_initial k n a)\<lparr>in_unprocessed := ?d\<rparr>"
  have acc: "\<forall>m \<in> set ms. in_accepts k n m" using assms(3) by (simp add: in_accepts_def)
  have "\<exists>s'. in_loop app ?d 0 ?s = Some s' \<and> in_strings s' = in_strings ?s @ ms \<and> in_unprocessed s' = ?d \<and>
      in_prefixLength s' = k \<and> in_MAX_LENGTH s' = n \<and> \<not> in_paused s'"
    by (rule in_loop_exceeds [OF assms(2,4,5)]) (use acc in \<open>simp_all add: in_initial_def\<close>)
  then obtain u where u: "in_loop app ?d 0 ?s = Some u" "in_strings u = ms" "in_unprocessed u = ?d"
      "in_prefixLength u = k" "in_MAX_LENGTH u = n" "\<not> in_paused u"
    by (auto simp: in_initial_def in_strings_def List.map_filter_def)
  let ?u = "u\<lparr>in_unprocessed := ?d @ y\<rparr>"
  have "\<exists>s'. in_loop app (?d @ y) 0 ?u = Some s' \<and> in_strings s' = in_strings ?u @ ms \<and> in_unprocessed s' = ?d @ y \<and>
      in_prefixLength s' = k \<and> in_MAX_LENGTH s' = n \<and> \<not> in_paused s'"
    by (rule in_loop_exceeds [OF assms(2,4,5), of _ _ _ "x @ y"]) (use acc u in simp_all)
  with u show ?thesis by (auto simp: in_dataReceived_eq in_initial_def)
qed

theorem intn_redelivery_witness:
  "\<exists>s. in_run (\<lambda>p r a. (a, False, None)) [InData (concat (map (in_pack 1) [''a'']) @ be_bytes 1 9 @ []), InData []]
      (in_initial 1 3 ()) = Some s \<and> in_strings s = [''a''] @ [''a'']"
  by (rule intn_redelivery) (simp_all add: in_quiet_def)

end
