(* ===== verification/StringStreams.thy ===== *)
theory StringStreams
  imports IntN
begin

text \<open>
  Receivers built on \<open>IntNStringReceiver\<close> whose \<open>stringReceived\<close> neither pauses the receiver nor
  assigns \<open>recvd\<close>, but may change any other attribute, \<open>MAX_LENGTH\<close> included: \<open>dataReceived\<close> takes
  the strings off the front of the stream one by one.  Such a receiver does not see where the
  stream is cut.
\<close>

section \<open>Taking strings off a stream\<close>

definition in_complete :: "bytes \<Rightarrow> 'a intn \<Rightarrow> bool" where
  "in_complete d s \<longleftrightarrow> 0 < in_prefixLength s \<and> in_prefixLength s \<le> length d \<and>
     be_nat (take (in_prefixLength s) d) \<le> in_MAX_LENGTH s \<and>
     in_prefixLength s + be_nat (take (in_prefixLength s) d) \<le> length d"

definition in_exceeds :: "bytes \<times> 'a intn \<Rightarrow> bool" where
  "in_exceeds p \<longleftrightarrow> in_prefixLength (snd p) \<le> length (fst p) \<and>
     in_MAX_LENGTH (snd p) < be_nat (take (in_prefixLength (snd p)) (fst p))"

function in_eat :: "(bytes \<Rightarrow> 'a intn \<Rightarrow> 'a intn) \<Rightarrow> bytes \<Rightarrow> 'a intn \<Rightarrow> bytes \<times> 'a intn" where
  "in_eat h d s =
     (if in_complete d s then
        let k = in_prefixLength s; len = be_nat (take k d)
        in in_eat h (drop (k + len) d) (h (take len (drop k d)) s)
      else (d, s))"
  by pat_completeness auto
termination
  by (relation "measure (\<lambda>(h, d, s). length d)") (auto simp: in_complete_def)

declare in_eat.simps [simp del]

lemma in_eat_stop: "\<not> in_complete d s \<Longrightarrow> in_eat h d s = (d, s)"
  by (subst in_eat.simps) simp

lemma in_eat_next:
  "in_complete d s \<Longrightarrow> in_eat h d s =
     in_eat h (drop (in_prefixLength s + be_nat (take (in_prefixLength s) d)) d)
       (h (take (be_nat (take (in_prefixLength s) d)) (drop (in_prefixLength s) d)) s)"
  by (subst in_eat.simps) (simp add: Let_def)

lemma in_complete_append:
  assumes "in_complete x s"
  shows "in_complete (x @ y) s" "take (in_prefixLength s) (x @ y) = take (in_prefixLength s) x"
    "drop (in_prefixLength s + be_nat (take (in_prefixLength s) x)) (x @ y) =
       drop (in_prefixLength s + be_nat (take (in_prefixLength s) x)) x @ y"
    "take (be_nat (take (in_prefixLength s) x)) (drop (in_prefixLength s) (x @ y)) =
       take (be_nat (take (in_prefixLength s) x)) (drop (in_prefixLength s) x)"
  using assms by (simp_all add: in_complete_def)

lemma in_eat_append:
  "\<not> in_exceeds (in_eat h x s) \<Longrightarrow> in_eat h (x @ y) s = in_eat h (fst (in_eat h x s) @ y) (snd (in_eat h x s))"
proof (induction h x s rule: in_eat.induct)
  case (1 h x s)
  show ?case
  proof (cases "in_complete x s")
    case True
    note app = in_complete_append [OF True]
    note x = in_eat_next [OF True, of h] and xy = in_eat_next [OF app(1), of h y, unfolded app]
    from "1.prems" x have "\<not> in_exceeds (in_eat h (drop (in_prefixLength s + be_nat (take (in_prefixLength s) x)) x)
        (h (take (be_nat (take (in_prefixLength s) x)) (drop (in_prefixLength s) x)) s))" by simp
    from "1.IH" [OF True refl refl this] show ?thesis by (simp only: x xy)
  next
    case False
    then show ?thesis by (simp add: in_eat_stop)
  qed
qed

lemma in_exceeds_append: "in_exceeds (in_eat h x s) \<Longrightarrow> in_exceeds (in_eat h (x @ y) s)"
proof (induction h x s rule: in_eat.induct)
  case (1 h x s)
  show ?case
  proof (cases "in_complete x s")
    case True
    note app = in_complete_append [OF True]
    show ?thesis
      using "1.IH" [OF True refl refl] "1.prems" in_eat_next [OF True, of h] in_eat_next [OF app(1), of h y]
      by (simp only: app)
  next
    case False
    with "1.prems" have "in_exceeds (x, s)" by (simp add: in_eat_stop)
    then have "in_exceeds (x @ y, s)" "\<not> in_complete (x @ y) s" by (simp_all add: in_exceeds_def in_complete_def)
    then show ?thesis by (simp add: in_eat_stop)
  qed
qed

text \<open>One framed string.\<close>

lemma in_complete_pack:
  assumes "0 < in_prefixLength s" "in_accepts (in_prefixLength s) (in_MAX_LENGTH s) m"
  shows "in_complete (in_pack (in_prefixLength s) m @ r) s"
    "be_nat (be_bytes (in_prefixLength s) (length m)) = length m"
proof -
  show len: "be_nat (be_bytes (in_prefixLength s) (length m)) = length m"
    using assms(2) by (simp add: be_nat_be_bytes in_accepts_def)
  show "in_complete (in_pack (in_prefixLength s) m @ r) s"
    using assms by (simp add: in_complete_def in_pack_def len in_accepts_def)
qed

lemma in_eat_pack:
  assumes "0 < in_prefixLength s" "in_accepts (in_prefixLength s) (in_MAX_LENGTH s) m"
  shows "in_eat h (in_pack (in_prefixLength s) m @ r) s = in_eat h r (h m s)"
  using in_eat_next [OF in_complete_pack(1) [OF assms], of h r] by (simp add: in_pack_def in_complete_pack(2) [OF assms])

section \<open>The receiver\<close>

text \<open>The two attributes the loop keeps for itself do not matter to the methods it calls.\<close>

definition in_clean :: "'a intn \<Rightarrow> 'a intn" where
  "in_clean s = s\<lparr>in_unprocessed := [], in_compatibilityOffset := 0\<rparr>"

lemma in_clean_fields [simp]:
  "in_prefixLength (in_clean s) = in_prefixLength s" "in_MAX_LENGTH (in_clean s) = in_MAX_LENGTH s"
  "in_paused (in_clean s) = in_paused s" "in_app (in_clean s) = in_app s" "in_events (in_clean s) = in_events s"
  "in_clean (s\<lparr>in_unprocessed := d\<rparr>) = in_clean s" "in_clean (s\<lparr>in_compatibilityOffset := n\<rparr>) = in_clean s"
  "in_clean (in_clean s) = in_clean s" "in_unprocessed (in_clean s) = []" "in_compatibilityOffset (in_clean s) = 0"
  by (simp_all add: in_clean_def)

locale string_handler =
  fixes handle :: "bytes \<Rightarrow> 'a intn \<Rightarrow> 'a intn"
    and exceeded :: "nat \<Rightarrow> 'a intn \<Rightarrow> 'a intn"
  assumes handle_clean: "in_clean (handle p s) = handle p (in_clean s)"
    and handle_paused: "in_paused (handle p s) = in_paused s"
    and handle_prefix: "in_prefixLength (handle p s) = in_prefixLength s"
begin

abbreviation received where "received \<equiv> (\<lambda>p s. (handle p s, None))"

lemma parse_eat:
  assumes "0 < in_prefixLength s" "\<not> in_paused s" "off \<le> length d" "in_eat handle (drop off d) (in_clean s) = (r, t)"
  shows "\<exists>u. in_parse received exceeded d off s = Some u \<and> (\<not> in_exceeds (r, t) \<longrightarrow> u = t\<lparr>in_unprocessed := r\<rparr>)"
  using assms
proof (induction "length d - off" arbitrary: off s rule: less_induct)
  case less
  let ?k = "in_prefixLength s" and ?n = "be_nat (take (in_prefixLength s) (drop off d))"
  have len: "be_nat (drop off (take (off + ?k) d)) = ?n" by (simp add: drop_take)
  have fin: "in_finish d off s = (in_clean s)\<lparr>in_unprocessed := drop off d\<rparr>" by (simp add: in_finish_def in_clean_def)
  consider "length d < off + ?k" | "off + ?k \<le> length d" "in_MAX_LENGTH s < ?n"
    | "off + ?k \<le> length d" "?n \<le> in_MAX_LENGTH s" "length d < off + ?k + ?n"
    | "off + ?k \<le> length d" "?n \<le> in_MAX_LENGTH s" "off + ?k + ?n \<le> length d" by linarith
  then show ?case
  proof cases
    case 1
    with less.prems have "\<not> in_complete (drop off d) (in_clean s)" by (simp add: in_complete_def)
    with less.prems(4) have "r = drop off d" "t = in_clean s" by (simp_all add: in_eat_stop)
    moreover have "in_parse received exceeded d off s = Some (in_finish d off s)" using 1 by (subst in_parse.simps) simp
    ultimately show ?thesis by (simp add: fin)
  next
    case 2
    with less.prems have "\<not> in_complete (drop off d) (in_clean s)" by (simp add: in_complete_def)
    with less.prems(4) have rt: "r = drop off d" "t = in_clean s" by (simp_all add: in_eat_stop)
    have "in_exceeds (r, t)" using 2 less.prems(3) by (simp add: in_exceeds_def rt)
    moreover have "\<exists>u. in_parse received exceeded d off s = Some u"
      using 2 less.prems(2) by (subst in_parse.simps) (simp add: Let_def len)
    ultimately show ?thesis by blast
  next
    case 3
    with less.prems(3) have "\<not> in_complete (drop off d) (in_clean s)" by (simp add: in_complete_def) arith
    with less.prems(4) have "r = drop off d" "t = in_clean s" by (simp_all add: in_eat_stop)
    moreover have "in_parse received exceeded d off s = Some (in_finish d off s)"
      using 3 less.prems(2) by (subst in_parse.simps) (simp add: Let_def len)
    ultimately show ?thesis by (simp add: fin)
  next
    case 4
    let ?p = "drop (off + ?k) (take (off + ?k + ?n) d)"
    let ?u = "handle ?p (s\<lparr>in_compatibilityOffset := off + ?k + ?n\<rparr>)"
    have p: "?p = take ?n (drop ?k (drop off d))" by (simp add: drop_take add.commute)
    have "in_complete (drop off d) (in_clean s)" using 4 less.prems(1) by (simp add: in_complete_def) arith
    note next_ = in_eat_next [OF this, of handle]
    have dk: "drop (?k + ?n) (drop off d) = drop (off + ?k + ?n) d" by (simp add: ac_simps)
    have "in_eat handle (drop off d) (in_clean s) = in_eat handle (drop (off + ?k + ?n) d) (handle ?p (in_clean s))"
      using next_ by (simp only: in_clean_fields p dk)
    with less.prems(4) have eat: "in_eat handle (drop (off + ?k + ?n) d) (in_clean ?u) = (r, t)"
      by (simp only: handle_clean in_clean_fields)
    have "in_parse received exceeded d off s = in_parse received exceeded d (off + ?k + ?n) ?u"
      using 4 less.prems(2) by (subst in_parse.simps) (simp add: Let_def len)
    moreover have "\<exists>u. in_parse received exceeded d (off + ?k + ?n) ?u = Some u \<and>
        (\<not> in_exceeds (r, t) \<longrightarrow> u = t\<lparr>in_unprocessed := r\<rparr>)"
      by (rule less.hyps [OF _ _ _ _ eat]) (use 4 less.prems in \<open>simp_all add: handle_prefix handle_paused\<close>)
    ultimately show ?thesis by simp
  qed
qed

lemma eat_fields_aux:
  "h = handle \<Longrightarrow> in_prefixLength (snd (in_eat h d s)) = in_prefixLength s \<and> in_paused (snd (in_eat h d s)) = in_paused s \<and>
     (in_clean s = s \<longrightarrow> in_clean (snd (in_eat h d s)) = snd (in_eat h d s))"
proof (induction h d s rule: in_eat.induct)
  case (1 h d s)
  show ?case
  proof (cases "in_complete d s")
    case True
    have clean: "in_clean (h p s) = h p s" if "in_clean s = s" for p using that handle_clean [of p s] "1.prems" by simp
    from "1.IH" [OF True refl refl "1.prems"] clean show ?thesis
      unfolding in_eat_next [OF True] by (simp add: "1.prems" handle_paused handle_prefix)
  next
    case False
    then show ?thesis by (simp add: in_eat_stop)
  qed
qed

lemma eat_fields:
  assumes "in_eat handle d s = (r, t)"
  shows "in_prefixLength t = in_prefixLength s" "in_paused t = in_paused s" "in_clean s = s \<Longrightarrow> in_clean t = t"
  using eat_fields_aux [OF refl, of d s] assms by simp_all

end

definition in_recv :: "(bytes \<Rightarrow> 'a intn \<Rightarrow> 'a intn) \<Rightarrow> (nat \<Rightarrow> 'a intn \<Rightarrow> 'a intn) \<Rightarrow> bytes \<Rightarrow> 'a intn \<Rightarrow> 'a intn" where
  "in_recv h e d s = (case in_receive (\<lambda>p s. (h p s, None)) e d s of Some t \<Rightarrow> t | None \<Rightarrow> s)"

definition in_ready :: "'a intn \<Rightarrow> bool" where
  "in_ready s \<longleftrightarrow> 0 < in_prefixLength s \<and> \<not> in_paused s \<and> in_compatibilityOffset s = 0"

definition in_within :: "(bytes \<Rightarrow> 'a intn \<Rightarrow> 'a intn) \<Rightarrow> bytes \<Rightarrow> 'a intn \<Rightarrow> bool" where
  "in_within h d s \<longleftrightarrow> in_ready s \<and> \<not> in_exceeds (in_eat h (in_unprocessed s @ d) (in_clean s))"

context string_handler
begin

lemma recv_eat:
  assumes "in_within handle d s" "in_eat handle (in_unprocessed s @ d) (in_clean s) = (r, t)"
  shows "in_receive received exceeded d s = Some (in_recv handle exceeded d s)"
    "in_recv handle exceeded d s = t\<lparr>in_unprocessed := r\<rparr>" "in_clean (t\<lparr>in_unprocessed := r\<rparr>) = t" "in_ready (t\<lparr>in_unprocessed := r\<rparr>)"
proof -
  let ?d = "in_unprocessed s @ d"
  from assms(1) have s: "in_ready s" "\<not> in_exceeds (r, t)" using assms(2) by (simp_all add: in_within_def)
  have "\<exists>u. in_parse received exceeded ?d 0 (s\<lparr>in_unprocessed := ?d\<rparr>) = Some u \<and> (\<not> in_exceeds (r, t) \<longrightarrow> u = t\<lparr>in_unprocessed := r\<rparr>)"
    by (rule parse_eat) (use s assms(2) in \<open>simp_all add: in_ready_def\<close>)
  with s have eq: "in_receive received exceeded d s = Some (t\<lparr>in_unprocessed := r\<rparr>)" by (simp add: in_receive_def)
  then show "in_receive received exceeded d s = Some (in_recv handle exceeded d s)"
    "in_recv handle exceeded d s = t\<lparr>in_unprocessed := r\<rparr>" by (simp_all add: in_recv_def)
  from eat_fields(3) [OF assms(2)] show "in_clean (t\<lparr>in_unprocessed := r\<rparr>) = t" by simp
  then have "in_compatibilityOffset t = 0" using in_clean_fields(10) [of t] by simp
  with eat_fields(1,2) [OF assms(2)] s(1) show "in_ready (t\<lparr>in_unprocessed := r\<rparr>)" by (simp add: in_ready_def)
qed

sublocale stream: stream_receiver "in_recv handle exceeded" "\<lambda>s. s" "in_within handle"
proof
  fix x y :: bytes and s :: "'a intn"
  assume "in_within handle (x @ y) s"
  then have s: "in_ready s" "\<not> in_exceeds (in_eat handle (in_unprocessed s @ x @ y) (in_clean s))" by (simp_all add: in_within_def)
  obtain r t where e: "in_eat handle (in_unprocessed s @ x) (in_clean s) = (r, t)" by fastforce
  have ne: "\<not> in_exceeds (in_eat handle (in_unprocessed s @ x) (in_clean s))"
    using s(2) in_exceeds_append [of handle "in_unprocessed s @ x" "in_clean s" y] by auto
  note app = in_eat_append [OF ne, of y, unfolded e fst_conv snd_conv append_assoc]
  have x: "in_within handle x s" using ne s(1) by (simp add: in_within_def)
  note rx = recv_eat [OF x e]
  have ct: "in_clean t = t" using eat_fields(3) [OF e] by simp
  have y: "in_within handle y (in_recv handle exceeded x s)" using s(2) app rx(2-4) by (simp add: in_within_def)
  with x show "in_within handle x s \<and> in_within handle y (in_recv handle exceeded x s)" ..
  obtain r' t' where e': "in_eat handle (r @ y) t = (r', t')" by fastforce
  have "in_recv handle exceeded y (in_recv handle exceeded x s) = t'\<lparr>in_unprocessed := r'\<rparr>"
    by (rule recv_eat(2) [OF y]) (simp add: rx e' ct)
  moreover have "in_recv handle exceeded (x @ y) s = t'\<lparr>in_unprocessed := r'\<rparr>"
    by (rule recv_eat(2)) (use s app e' in \<open>simp_all add: in_within_def\<close>)
  ultimately show "in_recv handle exceeded (x @ y) s = in_recv handle exceeded y (in_recv handle exceeded x s)" by simp
qed simp

text \<open>Every call returns.\<close>

lemma feed_returns:
  "in_within handle (concat cs) s \<Longrightarrow>
     feed_opt (in_receive received exceeded) cs s = Some (feed (in_recv handle exceeded) cs s)"
proof (induction cs arbitrary: s)
  case (Cons c cs)
  from Cons.prems stream.safe_append have "in_within handle c s" "in_within handle (concat cs) (in_recv handle exceeded c s)" by auto
  moreover obtain r t where "in_eat handle (in_unprocessed s @ c) (in_clean s) = (r, t)" by fastforce
  ultimately show ?case using recv_eat(1) Cons.IH by simp
qed simp

end

end
