(* ===== verification/AmpBoxes.thy ===== *)
theory AmpBoxes
  imports StringStreams "HOL-Library.List_Lexorder" "HOL-Library.AList"
begin

text \<open>
  Boxes of \<open>twisted/protocols/amp.py\<close> and how they travel: \<open>AmpBox.serialize\<close>, and
  \<open>BinaryBoxProtocol\<close>, a \<open>StatefulStringProtocol\<close> on top of an \<open>Int16StringReceiver\<close> that
  sets \<open>MAX_LENGTH\<close> for keys and values in turn.  A box is a list of pairs with distinct keys, in
  no particular order; what the box receiver does with a box is not part of this theory.
  Switching to another protocol and TLS are left out.
\<close>

section \<open>Boxes\<close>

type_synonym amp_box = "(bytes \<times> bytes) list"

datatype amp_error = TooLong bool bool bytes "bytes option" | ProtocolSwitched | ConnectionLost

definition MAX_KEY_LENGTH :: nat where "MAX_KEY_LENGTH = 255"
definition MAX_VALUE_LENGTH :: nat where "MAX_VALUE_LENGTH = 65535"

text \<open>\<open>pack("!H", len(kv)) + kv\<close>\<close>

definition am_string :: "bytes \<Rightarrow> bytes" where
  "am_string s = be_bytes 2 (length s) @ s"

fun am_items :: "amp_box \<Rightarrow> amp_error + bytes" where
  "am_items [] = Inr []"
| "am_items ((k, v) # i) =
     (if MAX_KEY_LENGTH < length k then Inl (TooLong True True k None)
      else if MAX_VALUE_LENGTH < length v then Inl (TooLong False True v (Some k))
      else case am_items i of
             Inl e \<Rightarrow> Inl e
           | Inr d \<Rightarrow> Inr (am_string k @ am_string v @ d))"

text \<open>The items of the dictionary in sorted order; its keys are distinct, so values do not matter.\<close>

definition am_serialize :: "amp_box \<Rightarrow> amp_error + bytes" where
  "am_serialize b = (case am_items (sort_key fst b) of Inl e \<Rightarrow> Inl e | Inr d \<Rightarrow> Inr (d @ be_bytes 2 0))"

section \<open>The receiving protocol\<close>

record box_parser =
  bb_state :: string
  bb_currentKey :: "bytes option"
  bb_currentBox :: "amp_box option"
  bb_keyLengthLimitExceeded :: bool
  bb_locked :: bool
  bb_boxes :: "amp_box list"

type_synonym binary_box_protocol = "box_parser intn"

definition bb_init :: binary_box_protocol where
  "bb_init = in_initial int16_prefixLength MAX_KEY_LENGTH
     \<lparr> bb_state = ''init'', bb_currentKey = None, bb_currentBox = None,
       bb_keyLengthLimitExceeded = False, bb_locked = False, bb_boxes = [] \<rparr>"

definition bb_upd :: "(box_parser \<Rightarrow> box_parser) \<Rightarrow> binary_box_protocol \<Rightarrow> binary_box_protocol" where
  "bb_upd f s = s\<lparr>in_app := f (in_app s)\<rparr>"

text \<open>The call of \<open>boxReceiver.ampBoxReceived\<close> is recorded.\<close>

definition bb_proto_key :: "bytes \<Rightarrow> binary_box_protocol \<Rightarrow> binary_box_protocol \<times> string" where
  "bb_proto_key str s =
     (if str \<noteq> [] then
        ((bb_upd (\<lambda>p. p\<lparr>bb_currentKey := Some str\<rparr>) s)\<lparr>in_MAX_LENGTH := MAX_VALUE_LENGTH\<rparr>, ''value'')
      else
        (bb_upd (\<lambda>p. p\<lparr>bb_boxes := bb_boxes p @ (case bb_currentBox p of Some b \<Rightarrow> [b] | None \<Rightarrow> []),
                         bb_currentBox := None\<rparr>) s, ''init''))"

definition bb_proto_init :: "bytes \<Rightarrow> binary_box_protocol \<Rightarrow> binary_box_protocol \<times> string" where
  "bb_proto_init str s = bb_proto_key str (bb_upd (\<lambda>p. p\<lparr>bb_currentBox := Some []\<rparr>) s)"

text \<open>\<open>_currentBox[_currentKey] = string\<close>; in this state both are set.\<close>

definition bb_setItem :: "bytes \<Rightarrow> box_parser \<Rightarrow> box_parser" where
  "bb_setItem str p =
     (case (bb_currentKey p, bb_currentBox p) of
        (Some k, Some b) \<Rightarrow> p\<lparr>bb_currentBox := Some (AList.update k str b)\<rparr>
      | _ \<Rightarrow> p)"

definition bb_proto_value :: "bytes \<Rightarrow> binary_box_protocol \<Rightarrow> binary_box_protocol \<times> string" where
  "bb_proto_value str s =
     ((bb_upd (\<lambda>p. (bb_setItem str p)\<lparr>bb_currentKey := None\<rparr>) s)\<lparr>in_MAX_LENGTH := MAX_KEY_LENGTH\<rparr>, ''key'')"

definition bb_proto :: "string \<Rightarrow> (bytes \<Rightarrow> binary_box_protocol \<Rightarrow> binary_box_protocol \<times> string) option" where
  "bb_proto state =
     (if state = ''init'' then Some bb_proto_init
      else if state = ''key'' then Some bb_proto_key
      else if state = ''value'' then Some bb_proto_value else None)"

text \<open>
  \<open>StatefulStringProtocol.stringReceived\<close>, whose attribute \<open>state\<close> is one of the same object.
\<close>

definition bb_stringReceived :: "bytes \<Rightarrow> binary_box_protocol \<Rightarrow> binary_box_protocol" where
  "bb_stringReceived str s =
     (let p = sp_stringReceived bb_proto str \<lparr> sp_state = bb_state (in_app s), sp_app = s, sp_events = [] \<rparr>;
          t = bb_upd (\<lambda>q. q\<lparr>bb_state := sp_state p\<rparr>) (sp_app p)
      in if SpLoseConnection \<in> set (sp_events p) then in_emit InLoseConnection t else t)"

definition bb_lengthLimitExceeded :: "nat \<Rightarrow> binary_box_protocol \<Rightarrow> binary_box_protocol" where
  "bb_lengthLimitExceeded len s = in_emit InLoseConnection (bb_upd (\<lambda>p. p\<lparr>bb_keyLengthLimitExceeded := True\<rparr>) s)"

definition bb_dataReceived :: "bytes \<Rightarrow> binary_box_protocol \<Rightarrow> binary_box_protocol option" where
  "bb_dataReceived = in_receive (\<lambda>str s. (bb_stringReceived str s, None)) bb_lengthLimitExceeded"

section \<open>The sending protocol\<close>

text \<open>\<open>connected\<close>: the attribute \<open>transport\<close> is not \<open>None\<close>.\<close>

definition bb_sendBox :: "bool \<Rightarrow> amp_box \<Rightarrow> binary_box_protocol \<Rightarrow> (amp_error, binary_box_protocol) outcome" where
  "bb_sendBox connected box s =
     (if bb_locked (in_app s) then Exc ProtocolSwitched s
      else if \<not> connected then Exc ConnectionLost s
      else case am_serialize box of
             Inl e \<Rightarrow> Exc e s
           | Inr d \<Rightarrow> Ok (in_emit (InWrite d) s))"

definition bb_lockForSwitch :: "binary_box_protocol \<Rightarrow> binary_box_protocol" where
  "bb_lockForSwitch s = bb_upd (\<lambda>p. p\<lparr>bb_locked := True\<rparr>) s"

section \<open>Boxes do not see where the stream is cut\<close>

lemma bb_upd_fields [simp]:
  "in_prefixLength (bb_upd f s) = in_prefixLength s" "in_MAX_LENGTH (bb_upd f s) = in_MAX_LENGTH s"
  "in_paused (bb_upd f s) = in_paused s" "in_app (bb_upd f s) = f (in_app s)" "in_events (bb_upd f s) = in_events s"
  "in_clean (bb_upd f s) = bb_upd f (in_clean s)" "in_unprocessed (bb_upd f s) = in_unprocessed s"
  "in_compatibilityOffset (bb_upd f s) = in_compatibilityOffset s"
  by (simp_all add: bb_upd_def in_clean_def)

lemma bb_states:
  "bb_state (in_app s) = ''init'' \<Longrightarrow> bb_stringReceived str s =
     bb_upd (\<lambda>q. q\<lparr>bb_state := snd (bb_proto_init str s)\<rparr>) (fst (bb_proto_init str s))"
  "bb_state (in_app s) = ''key'' \<Longrightarrow> bb_stringReceived str s =
     bb_upd (\<lambda>q. q\<lparr>bb_state := snd (bb_proto_key str s)\<rparr>) (fst (bb_proto_key str s))"
  "bb_state (in_app s) = ''value'' \<Longrightarrow> bb_stringReceived str s =
     bb_upd (\<lambda>q. q\<lparr>bb_state := snd (bb_proto_value str s)\<rparr>) (fst (bb_proto_value str s))"
  by (simp_all add: bb_stringReceived_def sp_stringReceived_def bb_proto_def bb_proto_init_def bb_proto_key_def
      bb_proto_value_def Let_def)

lemma bb_other: "bb_proto (bb_state (in_app s)) = None \<Longrightarrow> bb_stringReceived str s = bb_upd (\<lambda>q. q\<lparr>bb_state := bb_state (in_app s)\<rparr>) s"
  by (simp add: bb_stringReceived_def sp_stringReceived_def Let_def)


lemma bb_handlers:
  "in_clean (bb_stringReceived str s) = bb_stringReceived str (in_clean s) \<and>
     in_paused (bb_stringReceived str s) = in_paused s \<and> in_prefixLength (bb_stringReceived str s) = in_prefixLength s"
proof -
  have clean: "in_app (in_clean s) = in_app s" "in_clean (t\<lparr>in_MAX_LENGTH := n\<rparr>) = (in_clean t)\<lparr>in_MAX_LENGTH := n\<rparr>" for t :: binary_box_protocol and n
    by (simp_all add: in_clean_def)
  have upd: "bb_upd f (t\<lparr>in_MAX_LENGTH := n\<rparr>) = (bb_upd f t)\<lparr>in_MAX_LENGTH := n\<rparr>" for t :: binary_box_protocol and n f
    by (simp add: bb_upd_def)
  consider "bb_state (in_app s) = ''init''" | "bb_state (in_app s) = ''key''" | "bb_state (in_app s) = ''value''"
    | "bb_proto (bb_state (in_app s)) = None" by (unfold bb_proto_def) metis
  then show ?thesis
  proof cases
    case 1
    then show ?thesis by (simp add: bb_states(1) bb_proto_init_def bb_proto_key_def clean upd)
  next
    case 2
    then show ?thesis by (simp add: bb_states(2) bb_proto_key_def clean upd)
  next
    case 3
    then show ?thesis by (simp add: bb_states(3) bb_proto_value_def clean upd)
  next
    case 4
    then show ?thesis by (simp add: bb_other clean)
  qed
qed

interpretation bb: string_handler bb_stringReceived bb_lengthLimitExceeded
  by standard (simp_all add: bb_handlers)

lemma bb_dataReceived_eq: "bb_dataReceived = in_receive bb.received bb_lengthLimitExceeded"
  by (simp add: bb_dataReceived_def)

section \<open>A box on the wire\<close>

definition bb_at :: "string \<Rightarrow> nat \<Rightarrow> binary_box_protocol \<Rightarrow> bool" where
  "bb_at st n s \<longleftrightarrow> bb_state (in_app s) = st \<and> in_MAX_LENGTH s = n \<and> in_prefixLength s = int16_prefixLength"

lemma eat_string:
  assumes "in_prefixLength s = int16_prefixLength" "length m \<le> in_MAX_LENGTH s" "length m \<le> MAX_VALUE_LENGTH"
  shows "in_eat bb_stringReceived (am_string m @ r) s = in_eat bb_stringReceived r (bb_stringReceived m s)"
proof -
  have "am_string m = in_pack (in_prefixLength s) m" by (simp add: am_string_def in_pack_def assms(1) int16_prefixLength_def)
  moreover have "in_accepts (in_prefixLength s) (in_MAX_LENGTH s) m"
    using assms by (simp add: in_accepts_def int16_prefixLength_def MAX_VALUE_LENGTH_def)
  ultimately show ?thesis using in_eat_pack [of s m] assms(1) by (simp add: int16_prefixLength_def)
qed

lemma update_new: "k \<notin> fst ` set b \<Longrightarrow> AList.update k v b = b @ [(k, v)]"
  by (induction b) auto

text \<open>What a string does at the start of a box, at a key and at a value.\<close>

lemma bb_key:
  assumes "bb_at ''key'' MAX_KEY_LENGTH s" "str \<noteq> []"
  shows "bb_at ''value'' MAX_VALUE_LENGTH (bb_stringReceived str s)"
    "in_app (bb_stringReceived str s) = (in_app s)\<lparr>bb_currentKey := Some str, bb_state := ''value''\<rparr>"
    "in_events (bb_stringReceived str s) = in_events s"
  using assms by (simp_all add: bb_at_def bb_states(2) bb_proto_key_def)

lemma bb_value:
  assumes "bb_at ''value'' MAX_VALUE_LENGTH s" "bb_currentKey (in_app s) = Some k" "bb_currentBox (in_app s) = Some b"
  shows "bb_at ''key'' MAX_KEY_LENGTH (bb_stringReceived str s)"
    "in_app (bb_stringReceived str s) = (in_app s)\<lparr>bb_currentBox := Some (AList.update k str b), bb_currentKey := None, bb_state := ''key''\<rparr>"
    "in_events (bb_stringReceived str s) = in_events s"
  using assms by (simp_all add: bb_at_def bb_states(3) bb_proto_value_def bb_setItem_def)

lemma bb_end:
  assumes "bb_at ''key'' MAX_KEY_LENGTH s" "bb_currentBox (in_app s) = Some b"
  shows "bb_at ''init'' MAX_KEY_LENGTH (bb_stringReceived [] s)"
    "in_app (bb_stringReceived [] s) = (in_app s)\<lparr>bb_boxes := bb_boxes (in_app s) @ [b], bb_currentBox := None, bb_state := ''init''\<rparr>"
    "in_events (bb_stringReceived [] s) = in_events s"
  using assms by (simp_all add: bb_at_def bb_states(2) bb_proto_key_def)

definition bb_enter :: "binary_box_protocol \<Rightarrow> binary_box_protocol" where
  "bb_enter s = bb_upd (\<lambda>p. p\<lparr>bb_currentBox := Some [], bb_state := ''key''\<rparr>) s"

lemma bb_start: "bb_state (in_app s) = ''init'' \<Longrightarrow> bb_stringReceived str s = bb_stringReceived str (bb_enter s)"
  by (simp add: bb_states bb_enter_def bb_proto_init_def bb_proto_key_def bb_upd_def)

lemma am_items_lengths:
  "am_items i = Inr d \<Longrightarrow> (k, v) \<in> set i \<Longrightarrow> length k \<le> MAX_KEY_LENGTH \<and> length v \<le> MAX_VALUE_LENGTH"
  by (induction i arbitrary: d rule: am_items.induct) (auto split: if_splits sum.splits)

lemma eat_items:
  assumes "am_items i = Inr d" "[] \<notin> fst ` set i" "distinct (map fst i)" "fst ` set i \<inter> fst ` set acc = {}"
    and "bb_at ''key'' MAX_KEY_LENGTH s" "bb_currentBox (in_app s) = Some acc"
  shows "\<exists>t. in_eat bb_stringReceived (d @ be_bytes 2 0 @ r) s = in_eat bb_stringReceived r t \<and> bb_at ''init'' MAX_KEY_LENGTH t \<and>
    bb_boxes (in_app t) = bb_boxes (in_app s) @ [acc @ i] \<and> in_events t = in_events s \<and>
    bb_locked (in_app t) = bb_locked (in_app s)"
  using assms
proof (induction i arbitrary: d s acc)
  case Nil
  have "in_eat bb_stringReceived (am_string [] @ r) s = in_eat bb_stringReceived r (bb_stringReceived [] s)"
    using Nil.prems(5) by (intro eat_string) (simp_all add: bb_at_def)
  with Nil.prems bb_end [OF Nil.prems(5,6)] show ?case
    by (intro exI [of _ "bb_stringReceived [] s"]) (simp add: am_string_def)
next
  case (Cons kv i)
  obtain k v where kv: "kv = (k, v)" by fastforce
  from Cons.prems(1) obtain d' where d: "am_items i = Inr d'" "d = am_string k @ am_string v @ d'"
    "length k \<le> MAX_KEY_LENGTH" "length v \<le> MAX_VALUE_LENGTH" by (auto simp: kv split: if_splits sum.splits)
  have k: "k \<noteq> []" "k \<notin> fst ` set acc" using Cons.prems(2,4) kv by auto
  let ?s1 = "bb_stringReceived k s" and ?s2 = "bb_stringReceived v (bb_stringReceived k s)"
  note s1 = bb_key [OF Cons.prems(5) k(1)]
  have s2: "bb_at ''key'' MAX_KEY_LENGTH ?s2" "bb_currentBox (in_app ?s2) = Some (acc @ [(k, v)])"
    "bb_boxes (in_app ?s2) = bb_boxes (in_app s)" "in_events ?s2 = in_events s" "bb_locked (in_app ?s2) = bb_locked (in_app s)"
    using bb_value [OF s1(1), of k acc v] s1(2,3) Cons.prems(6) update_new [OF k(2), of v] by simp_all
  have "in_eat bb_stringReceived (am_string k @ am_string v @ d' @ be_bytes 2 0 @ r) s =
      in_eat bb_stringReceived (am_string v @ d' @ be_bytes 2 0 @ r) ?s1"
    using Cons.prems(5) d(3) by (intro eat_string) (simp_all add: bb_at_def MAX_KEY_LENGTH_def MAX_VALUE_LENGTH_def)
  also have "\<dots> = in_eat bb_stringReceived (d' @ be_bytes 2 0 @ r) ?s2"
    using s1(1) d(4) by (intro eat_string) (simp_all add: bb_at_def)
  finally have step: "in_eat bb_stringReceived (d @ be_bytes 2 0 @ r) s = in_eat bb_stringReceived (d' @ be_bytes 2 0 @ r) ?s2"
    by (simp add: d(2))
  have "\<exists>t. in_eat bb_stringReceived (d' @ be_bytes 2 0 @ r) ?s2 = in_eat bb_stringReceived r t \<and> bb_at ''init'' MAX_KEY_LENGTH t \<and>
      bb_boxes (in_app t) = bb_boxes (in_app ?s2) @ [(acc @ [(k, v)]) @ i] \<and> in_events t = in_events ?s2 \<and>
      bb_locked (in_app t) = bb_locked (in_app ?s2)"
    by (rule Cons.IH [OF d(1)]) (use Cons.prems kv s2 in auto)
  with step s2(3-5) kv show ?case by simp
qed


lemma eat_enter:
  assumes "bb_at ''init'' MAX_KEY_LENGTH s" "length m \<le> MAX_KEY_LENGTH"
  shows "in_eat bb_stringReceived (am_string m @ r) s = in_eat bb_stringReceived (am_string m @ r) (bb_enter s)"
proof -
  have "in_eat bb_stringReceived (am_string m @ r) u = in_eat bb_stringReceived r (bb_stringReceived m u)"
    if "in_prefixLength u = int16_prefixLength" "in_MAX_LENGTH u = MAX_KEY_LENGTH" for u
    using that assms(2) by (intro eat_string) (simp_all add: MAX_KEY_LENGTH_def MAX_VALUE_LENGTH_def)
  from this [of s] this [of "bb_enter s"] assms(1) bb_start [of s m] show ?thesis by (simp add: bb_at_def bb_enter_def)
qed

text \<open>A box that can be sent and read back.\<close>

definition am_sendable :: "amp_box \<Rightarrow> bool" where
  "am_sendable b \<longleftrightarrow> distinct (map fst b) \<and> [] \<notin> fst ` set b"

lemma sorted_box:
  assumes "am_sendable b"
  shows "am_sendable (sort_key fst b) \<and> map_of (sort_key fst b) = map_of b"
proof -
  from assms have d: "distinct (map fst b)" "distinct (map fst (sort_key fst b))" by (simp_all add: am_sendable_def distinct_map)
  with assms map_of_inject_set [OF d(2,1)] show ?thesis by (simp add: am_sendable_def)
qed

lemma eat_box:
  assumes "am_serialize b = Inr w" "am_sendable b" "bb_at ''init'' MAX_KEY_LENGTH s"
  shows "\<exists>t. in_eat bb_stringReceived (w @ r) s = in_eat bb_stringReceived r t \<and> bb_at ''init'' MAX_KEY_LENGTH t \<and>
    bb_boxes (in_app t) = bb_boxes (in_app s) @ [sort_key fst b] \<and> in_events t = in_events s \<and>
    bb_locked (in_app t) = bb_locked (in_app s)"
proof -
  from assms(1) obtain d where d: "am_items (sort_key fst b) = Inr d" "w = d @ be_bytes 2 0"
    by (auto simp: am_serialize_def split: sum.splits)
  have "\<exists>m r'. d @ be_bytes 2 0 @ r = am_string m @ r' \<and> length m \<le> MAX_KEY_LENGTH"
  proof (cases "sort_key fst b")
    case Nil
    with d(1) show ?thesis by (intro exI [of _ "[]"] exI [of _ r]) (simp add: am_string_def)
  next
    case (Cons kv i)
    with d(1) show ?thesis by (cases kv) (fastforce split: if_splits sum.splits)
  qed
  then have enter: "in_eat bb_stringReceived (w @ r) s = in_eat bb_stringReceived (d @ be_bytes 2 0 @ r) (bb_enter s)"
    using eat_enter [OF assms(3)] d(2) by auto
  have "\<exists>t. in_eat bb_stringReceived (d @ be_bytes 2 0 @ r) (bb_enter s) = in_eat bb_stringReceived r t \<and>
      bb_at ''init'' MAX_KEY_LENGTH t \<and> bb_boxes (in_app t) = bb_boxes (in_app (bb_enter s)) @ [[] @ sort_key fst b] \<and>
      in_events t = in_events (bb_enter s) \<and> bb_locked (in_app t) = bb_locked (in_app (bb_enter s))"
    by (rule eat_items [OF d(1)]) (use sorted_box [OF assms(2)] assms(3) in \<open>auto simp: am_sendable_def bb_at_def bb_enter_def\<close>)
  then show ?thesis by (simp add: enter bb_enter_def)
qed

lemma eat_boxes:
  "\<forall>b \<in> set bs. am_serialize b = Inr (w b) \<and> am_sendable b \<Longrightarrow> bb_at ''init'' MAX_KEY_LENGTH s \<Longrightarrow>
     \<exists>t. in_eat bb_stringReceived (concat (map w bs)) s = ([], t) \<and> bb_at ''init'' MAX_KEY_LENGTH t \<and>
       bb_boxes (in_app t) = bb_boxes (in_app s) @ map (sort_key fst) bs \<and> in_events t = in_events s \<and>
       bb_locked (in_app t) = bb_locked (in_app s)"
proof (induction bs arbitrary: s)
  case Nil
  have "\<not> in_complete [] s" by (auto simp: in_complete_def)
  with Nil show ?case by (simp add: in_eat_stop)
next
  case (Cons b bs)
  from eat_box [of b "w b" s "concat (map w bs)"] Cons.prems obtain t where
    t: "in_eat bb_stringReceived (w b @ concat (map w bs)) s = in_eat bb_stringReceived (concat (map w bs)) t"
    "bb_at ''init'' MAX_KEY_LENGTH t" "bb_boxes (in_app t) = bb_boxes (in_app s) @ [sort_key fst b]" "in_events t = in_events s"
    "bb_locked (in_app t) = bb_locked (in_app s)" by auto
  from Cons.IH [OF _ t(2)] Cons.prems(1) t(1,3-5) show ?case by auto
qed

text \<open>A connection between two boxes.\<close>

definition bb_resting :: "binary_box_protocol \<Rightarrow> bool" where
  "bb_resting s \<longleftrightarrow> bb_at ''init'' MAX_KEY_LENGTH s \<and> in_ready s \<and> in_unprocessed s = []"

lemma bb_resting_clean: "bb_resting s \<Longrightarrow> in_clean s = s"
  by (cases s) (simp add: bb_resting_def in_ready_def in_clean_def)

lemma bb_init_resting: "bb_resting bb_init" "bb_boxes (in_app bb_init) = []" "in_events bb_init = []" "\<not> bb_locked (in_app bb_init)"
  by (simp_all add: bb_resting_def bb_at_def bb_init_def in_initial_def in_ready_def in_clean_def int16_prefixLength_def)

abbreviation bb_recv :: "bytes \<Rightarrow> binary_box_protocol \<Rightarrow> binary_box_protocol" where
  "bb_recv \<equiv> in_recv bb_stringReceived bb_lengthLimitExceeded"

lemma serialize_not_empty: "am_serialize b \<noteq> Inr []"
proof
  assume "am_serialize b = Inr []"
  then obtain d where "[] = d @ be_bytes 2 0" by (auto simp: am_serialize_def split: sum.splits)
  from arg_cong [OF this, of length] show False by simp
qed

lemma feed_boxes:
  assumes bs: "\<forall>b \<in> set bs. am_serialize b = Inr (w b) \<and> am_sendable b" and "concat cs = concat (map w bs)" and s: "bb_resting s"
  shows "in_within bb_stringReceived (concat cs) s \<and> feed_opt bb_dataReceived cs s = Some (feed bb_recv cs s) \<and>
    bb_resting (feed bb_recv cs s) \<and> bb_boxes (in_app (feed bb_recv cs s)) = bb_boxes (in_app s) @ map (sort_key fst) bs \<and>
    in_events (feed bb_recv cs s) = in_events s \<and> bb_locked (in_app (feed bb_recv cs s)) = bb_locked (in_app s)"
proof -
  from eat_boxes [OF bs] s obtain t where
    t: "in_eat bb_stringReceived (concat cs) s = ([], t)" "bb_at ''init'' MAX_KEY_LENGTH t"
      "bb_boxes (in_app t) = bb_boxes (in_app s) @ map (sort_key fst) bs" "in_events t = in_events s"
      "bb_locked (in_app t) = bb_locked (in_app s)"
    unfolding assms(2) bb_resting_def by blast
  have eat: "in_eat bb_stringReceived (in_unprocessed s @ concat cs) (in_clean s) = ([], t)"
    using t(1) s bb_resting_clean [OF s] by (simp add: bb_resting_def)
  have within: "in_within bb_stringReceived (concat cs) s"
    using eat t(2) s by (simp add: in_within_def bb_resting_def in_exceeds_def bb_at_def int16_prefixLength_def)
  note recv = bb.recv_eat [OF within eat]
  have "feed bb_recv cs s = t\<lparr>in_unprocessed := []\<rparr>"
  proof (cases "cs = []")
    case True
    with t(1) have "in_eat bb_stringReceived [] s = ([], t)" by simp
    moreover have "\<not> in_complete [] s" by (auto simp: in_complete_def)
    ultimately have "t = s" by (simp add: in_eat_stop)
    with True s show ?thesis by (cases s) (simp add: bb_resting_def)
  next
    case False
    with bb.stream.feed_concat [OF False within] recv(2) show ?thesis by simp
  qed
  with within bb.feed_returns [OF within] recv(4) t(2-5) show ?thesis
    by (simp add: bb_dataReceived_eq bb_resting_def bb_at_def)
qed

text \<open>
  C29: Boxes that are serialized and sent arrive: whatever pieces the stream is cut into, every call of
  \<open>dataReceived\<close> returns, the box receiver gets boxes with exactly the keys and values of the boxes
  sent, one for one and in order, the connection is not closed, and the parser is back in its
  initial state with nothing left over.  The keys of a box must not be empty.
\<close>
theorem amp_roundtrip:
  assumes "\<forall>b \<in> set bs. am_serialize b = Inr (w b) \<and> am_sendable b" and "concat cs = concat (map w bs)"
  shows "\<exists>s. feed_opt bb_dataReceived cs bb_init = Some s \<and> map map_of (bb_boxes (in_app s)) = map map_of bs \<and>
    in_events s = [] \<and> bb_state (in_app s) = ''init'' \<and> in_unprocessed s = []"
proof -
  note fed = feed_boxes [OF assms bb_init_resting(1)]
  have "map map_of (map (sort_key fst) bs) = map map_of bs" using assms(1) sorted_box by simp
  with fed show ?thesis by (simp add: bb_resting_def bb_at_def bb_init_resting)
qed

lemma be_two: "be_bytes 2 n = [char_of (n div 256 mod 256), char_of (n mod 256)]"
  by (simp add: numeral_2_eq_2)

lemma amp_roundtrip_witness:
  "\<exists>s. feed_opt bb_dataReceived [[CHR 0x00, CHR 0x01] @ ''b'' @ [CHR 0x00], CHR 0x01 # ''2'' @ [CHR 0x00, CHR 0x00]] bb_init = Some s \<and>
     map map_of (bb_boxes (in_app s)) = map map_of [[(''b'', ''2'')]] \<and>
     in_events s = [] \<and> bb_state (in_app s) = ''init'' \<and> in_unprocessed s = []"
proof (rule amp_roundtrip [of _ "\<lambda>b. [CHR 0x00, CHR 0x01] @ ''b'' @ [CHR 0x00, CHR 0x01] @ ''2'' @ [CHR 0x00, CHR 0x00]"])
  show "\<forall>b \<in> set [[(''b'', ''2'')]]. am_serialize b = Inr ([CHR 0x00, CHR 0x01] @ ''b'' @ [CHR 0x00, CHR 0x01] @ ''2'' @ [CHR 0x00, CHR 0x00]) \<and>
    am_sendable b"
    by (simp add: am_serialize_def am_string_def am_sendable_def MAX_KEY_LENGTH_def MAX_VALUE_LENGTH_def be_two char_of_def bit_0)
qed simp

section \<open>Boxes that cannot be sent\<close>

text \<open>\<open>serialize\<close> refuses exactly the boxes with a key or value that is too long.\<close>

lemma am_serialize_raises:
  "(\<exists>e. am_serialize b = Inl e) \<longleftrightarrow>
     (\<exists>(k, v) \<in> set b. MAX_KEY_LENGTH < length k \<or> MAX_VALUE_LENGTH < length v)"
proof -
  have "(\<exists>e. am_items i = Inl e) \<longleftrightarrow> (\<exists>(k, v) \<in> set i. MAX_KEY_LENGTH < length k \<or> MAX_VALUE_LENGTH < length v)" for i
    by (induction i rule: am_items.induct) (auto split: sum.splits)
  from this [of "sort_key fst b"] show ?thesis by (auto simp: am_serialize_def split: sum.splits)
qed

text \<open>An empty key is not refused, and ends the box: the rest is read as the beginning of another box.\<close>

lemma empty_key_splits_box:
  "am_serialize [(''a'', ''1''), ([], ''x'')] = Inr ([CHR 0x00, CHR 0x00] @ am_string ''x'' @ am_string ''a'' @ am_string ''1'' @ [CHR 0x00, CHR 0x00])"
  by (simp add: am_serialize_def am_string_def MAX_KEY_LENGTH_def MAX_VALUE_LENGTH_def be_two char_of_def bit_0)

end
