(* ===== verification/AmpCalls.thy ===== *)
theory AmpCalls
  imports AmpBoxes "HOL-Library.Multiset"
begin

text \<open>
  \<open>BoxDispatcher\<close> of \<open>twisted/protocols/amp.py\<close> on top of \<open>BinaryBoxProtocol\<close>, as the class
  \<open>AMP\<close> joins them: commands sent as boxes, and the Deferreds that wait for their answers.

  The Deferred of a request is the number in its tag; \<open>am_fired\<close> says with what it was fired.
  The callbacks of these Deferreds run as the last thing a method does, so what they do to the
  dispatcher are further operations, and an error they leave unhandled is the operation
  \<open>Unhandled\<close>.  A responder is called with a box; the command it runs is a number, and its
  result, at once or later, is an operation of its own.  \<open>am_asked\<close> lists the requests for which
  a Deferred was returned and is never read.
\<close>

section \<open>Python's representation of a byte string\<close>

definition py_escape :: "char \<Rightarrow> char \<Rightarrow> bytes" where
  "py_escape quote c =
     (let n = of_char c :: nat; bs = char_of (92 :: nat)
      in if c = quote \<or> c = bs then [bs, c]
         else if n = 9 then [bs, CHR ''t''] else if n = 10 then [bs, CHR ''n''] else if n = 13 then [bs, CHR ''r'']
         else if n < 32 \<or> 127 \<le> n then [bs, CHR ''x'', hex_digits ! (n div 16), hex_digits ! (n mod 16)]
         else [c])"

definition py_repr :: "bytes \<Rightarrow> bytes" where
  "py_repr s =
     (let single = char_of (39 :: nat); double = char_of (34 :: nat);
          quote = (if single \<in> set s \<and> double \<notin> set s then double else single)
      in [quote] @ concat (map (py_escape quote) s) @ [quote])"

section \<open>State\<close>

definition ASK :: bytes where "ASK = ''_ask''"
definition ANSWER :: bytes where "ANSWER = ''_answer''"
definition COMMAND :: bytes where "COMMAND = ''_command''"
definition ERROR :: bytes where "ERROR = ''_error''"
definition ERROR_CODE :: bytes where "ERROR_CODE = ''_error_code''"
definition ERROR_DESCRIPTION :: bytes where "ERROR_DESCRIPTION = ''_error_description''"
definition UNKNOWN_ERROR_CODE :: bytes where "UNKNOWN_ERROR_CODE = ''UNKNOWN''"
definition UNHANDLED_ERROR_CODE :: bytes where "UNHANDLED_ERROR_CODE = ''UNHANDLED''"

datatype 'r am_failure = Reason 'r | KeyTooLong

text \<open>What the Deferred of a request is fired with.\<close>

datatype 'r am_result = Answered amp_box | RemoteError bytes bytes | RemoteUnhandled bytes bytes | Failed "'r am_failure"

datatype am_exception = KeyError bytes | AttributeError | NoEmptyBoxes amp_box | SendError amp_error

record 'r dispatcher =
  am_failAllReason :: "'r am_failure option"
  am_outstanding :: "(bytes \<times> nat) list option"
  am_counter :: nat
  am_connected :: bool
  am_sender :: binary_box_protocol
  am_commands :: "(nat \<times> bytes option) list"
  am_received :: nat
  am_fired :: "(nat \<times> 'r am_result) list"
  am_asked :: "nat list"

definition am_init :: "'r dispatcher" where
  "am_init = \<lparr> am_failAllReason = None, am_outstanding = Some [], am_counter = 0, am_connected = True,
     am_sender = bb_init, am_commands = [], am_received = 0, am_fired = [], am_asked = [] \<rparr>"

definition am_fire :: "nat \<Rightarrow> 'r am_result \<Rightarrow> 'r dispatcher \<Rightarrow> 'r dispatcher" where
  "am_fire n r s = s\<lparr>am_fired := am_fired s @ [(n, r)]\<rparr>"

section \<open>Sending\<close>

text \<open>\<open>box._sendTo(self.boxSender)\<close>\<close>

definition am_send :: "amp_box \<Rightarrow> 'r dispatcher \<Rightarrow> (am_exception, 'r dispatcher) outcome" where
  "am_send box s =
     (case bb_sendBox (am_connected s) box (am_sender s) of
        Ok p \<Rightarrow> Ok (s\<lparr>am_sender := p\<rparr>)
      | Exc e p \<Rightarrow> Exc (SendError e) (s\<lparr>am_sender := p\<rparr>))"

definition am_loseConnection :: "'r dispatcher \<Rightarrow> 'r dispatcher" where
  "am_loseConnection s = s\<lparr>am_sender := in_emit InLoseConnection (am_sender s)\<rparr>"

definition am_unhandledError :: "'r dispatcher \<Rightarrow> 'r dispatcher" where
  "am_unhandledError s = (if am_connected s then am_loseConnection s else s)"

definition am_nextTag :: "'r dispatcher \<Rightarrow> bytes \<times> 'r dispatcher" where
  "am_nextTag s = (hex (am_counter s + 1), s\<lparr>am_counter := am_counter s + 1\<rparr>)"

text \<open>What \<open>_sendBoxCommand\<close> returns: \<open>None\<close>, a Deferred, or \<open>fail(self._failAllReason)\<close>.\<close>

datatype 'r am_return = NoDeferred | Request nat | AlreadyFailed "'r am_failure"

text \<open>The keys that \<open>_sendBoxCommand\<close> adds to the box.\<close>

definition am_commandBox :: "bytes \<Rightarrow> bytes \<Rightarrow> bool \<Rightarrow> amp_box \<Rightarrow> amp_box" where
  "am_commandBox tag command requiresAnswer box =
     (let box1 = AList.update COMMAND command box
      in if requiresAnswer then AList.update ASK tag box1 else box1)"

definition am_sendBoxCommand ::
    "bytes \<Rightarrow> amp_box \<Rightarrow> bool \<Rightarrow> 'r dispatcher \<Rightarrow> (am_exception \<times> 'r dispatcher) + ('r am_return \<times> 'r dispatcher)" where
  "am_sendBoxCommand command box requiresAnswer s =
     (case am_failAllReason s of
        Some r \<Rightarrow> Inr (AlreadyFailed r, s)
      | None \<Rightarrow>
          (let (tag, t) = am_nextTag s
           in case am_send (am_commandBox tag command requiresAnswer box) t of
                Exc e u \<Rightarrow> Inl (e, u)
              | Ok u \<Rightarrow>
                  if requiresAnswer then
                    Inr (Request (am_counter t),
                         u\<lparr>am_outstanding := map_option (AList.update tag (am_counter t)) (am_outstanding u),
                           am_asked := am_asked u @ [am_counter t]\<rparr>)
                  else Inr (NoDeferred, u)))"

section \<open>Receiving\<close>

definition am_failAllOutgoing :: "'r am_failure \<Rightarrow> 'r dispatcher \<Rightarrow> (am_exception, 'r dispatcher) outcome" where
  "am_failAllOutgoing reason s =
     (let t = s\<lparr>am_failAllReason := Some reason\<rparr>
      in case am_outstanding t of
           None \<Rightarrow> Exc AttributeError t
         | Some l \<Rightarrow> Ok (t\<lparr>am_outstanding := None, am_fired := am_fired t @ map (\<lambda>(k, n). (n, Failed reason)) l\<rparr>))"

text \<open>\<open>self._outstandingRequests.pop(tag)\<close>\<close>

definition am_pop :: "bytes \<Rightarrow> 'r dispatcher \<Rightarrow> am_exception + nat \<times> 'r dispatcher" where
  "am_pop tag s =
     (case am_outstanding s of
        None \<Rightarrow> Inl AttributeError
      | Some l \<Rightarrow>
          case map_of l tag of
            None \<Rightarrow> Inl (KeyError tag)
          | Some n \<Rightarrow> Inr (n, s\<lparr>am_outstanding := Some (AList.delete tag l)\<rparr>))"

definition am_answerReceived :: "bytes \<Rightarrow> amp_box \<Rightarrow> 'r dispatcher \<Rightarrow> (am_exception, 'r dispatcher) outcome" where
  "am_answerReceived tag box s =
     (case am_pop tag s of
        Inl e \<Rightarrow> Exc e s
      | Inr (question, t) \<Rightarrow> Ok (am_fire question (Answered box) t))"

definition am_errorReceived :: "bytes \<Rightarrow> amp_box \<Rightarrow> 'r dispatcher \<Rightarrow> (am_exception, 'r dispatcher) outcome" where
  "am_errorReceived tag box s =
     (case am_pop tag s of
        Inl e \<Rightarrow> Exc e s
      | Inr (question, t) \<Rightarrow>
          case map_of box ERROR_CODE of
            None \<Rightarrow> Exc (KeyError ERROR_CODE) t
          | Some code \<Rightarrow>
              case map_of box ERROR_DESCRIPTION of
                None \<Rightarrow> Exc (KeyError ERROR_DESCRIPTION) t
              | Some description \<Rightarrow>
                  Ok (am_fire question
                        (if code = UNHANDLED_ERROR_CODE then RemoteUnhandled code description
                         else RemoteError code description) t))"

text \<open>
  How a command ends: with a box, with a \<open>RemoteAmpError\<close> (code, description, fatal) or with any other failure.
\<close>

datatype am_ended = Returned amp_box | RaisedRemote bytes bytes bool | RaisedOther

definition am_safeEmit :: "amp_box \<Rightarrow> bool \<Rightarrow> 'r dispatcher \<Rightarrow> 'r dispatcher" where
  "am_safeEmit box quit s =
     (case am_send box s of
        Ok t \<Rightarrow> if quit then am_loseConnection t else t
      | Exc (SendError ProtocolSwitched) t \<Rightarrow> t
      | Exc (SendError ConnectionLost) t \<Rightarrow> t
      | Exc e t \<Rightarrow> am_unhandledError t)"

definition am_formatError :: "bytes \<Rightarrow> bytes \<Rightarrow> bytes \<Rightarrow> amp_box" where
  "am_formatError ask code desc = [(ERROR, ask), (ERROR_DESCRIPTION, desc), (ERROR_CODE, code)]"

definition am_respond :: "bytes option \<Rightarrow> am_ended \<Rightarrow> 'r dispatcher \<Rightarrow> 'r dispatcher" where
  "am_respond ask ended s =
     (case (ask, ended) of
        (Some t, Returned box) \<Rightarrow> am_safeEmit (AList.update ANSWER t box) False s
      | (Some t, RaisedRemote code desc fatal) \<Rightarrow> am_safeEmit (am_formatError t code desc) fatal s
      | (Some t, RaisedOther) \<Rightarrow> am_safeEmit (am_formatError t UNKNOWN_ERROR_CODE ''Unknown Error'') True s
      | (None, Returned box) \<Rightarrow> s
      | (None, _) \<Rightarrow> am_unhandledError s)"

text \<open>\<open>located\<close>: the locator has a responder for the command.\<close>

definition am_commandReceived :: "(bytes \<Rightarrow> bool) \<Rightarrow> bytes \<Rightarrow> amp_box \<Rightarrow> 'r dispatcher \<Rightarrow> 'r dispatcher" where
  "am_commandReceived located cmd box s =
     (if \<not> located cmd then
        am_respond (map_of box ASK) (RaisedRemote UNHANDLED_ERROR_CODE (''Unhandled Command: '' @ py_repr cmd) False) s
      else s\<lparr>am_commands := am_commands s @ [(am_received s, map_of box ASK)], am_received := am_received s + 1\<rparr>)"

definition am_commandEnded :: "nat \<Rightarrow> am_ended \<Rightarrow> 'r dispatcher \<Rightarrow> 'r dispatcher" where
  "am_commandEnded i ended s =
     (case map_of (am_commands s) i of
        None \<Rightarrow> s
      | Some ask \<Rightarrow> am_respond ask ended (s\<lparr>am_commands := AList.delete i (am_commands s)\<rparr>))"

definition am_ampBoxReceived :: "(bytes \<Rightarrow> bool) \<Rightarrow> amp_box \<Rightarrow> 'r dispatcher \<Rightarrow> (am_exception, 'r dispatcher) outcome" where
  "am_ampBoxReceived located box s =
     (case map_of box ANSWER of
        Some tag \<Rightarrow> am_answerReceived tag box s
      | None \<Rightarrow>
          case map_of box ERROR of
            Some tag \<Rightarrow> am_errorReceived tag box s
          | None \<Rightarrow>
              case map_of box COMMAND of
                Some cmd \<Rightarrow> Ok (am_commandReceived located cmd box s)
              | None \<Rightarrow> Exc (NoEmptyBoxes box) s)"

definition am_connectionLost :: "'r \<Rightarrow> 'r dispatcher \<Rightarrow> (am_exception, 'r dispatcher) outcome" where
  "am_connectionLost reason s =
     and_then (am_failAllOutgoing (if bb_keyLengthLimitExceeded (in_app (am_sender s)) then KeyTooLong else Reason reason) s)
       (\<lambda>t. Ok (t\<lparr>am_connected := False\<rparr>))"


section \<open>Runs\<close>

datatype 'r am_op =
    Call bytes amp_box bool
  | BoxReceived amp_box
  | CommandEnded nat am_ended
  | Unhandled
  | Lost 'r

text \<open>An exception leaves the method; the state it leaves behind goes on.\<close>

fun am_step :: "(bytes \<Rightarrow> bool) \<Rightarrow> 'r am_op \<Rightarrow> 'r dispatcher \<Rightarrow> 'r dispatcher" where
  "am_step located (Call cmd box req) s =
     (case am_sendBoxCommand cmd box req s of Inl (e, t) \<Rightarrow> t | Inr (r, t) \<Rightarrow> t)"
| "am_step located (BoxReceived box) s = state_of (am_ampBoxReceived located box s)"
| "am_step located (CommandEnded i ended) s = am_commandEnded i ended s"
| "am_step located Unhandled s = am_unhandledError s"
| "am_step located (Lost r) s = state_of (am_connectionLost r s)"

definition am_run :: "(bytes \<Rightarrow> bool) \<Rightarrow> 'r am_op list \<Rightarrow> 'r dispatcher \<Rightarrow> 'r dispatcher" where
  "am_run located ops s = fold (am_step located) ops s"

text \<open>An error box that lacks its code or description makes \<open>_errorReceived\<close> raise.\<close>

definition am_complete_error :: "amp_box \<Rightarrow> bool" where
  "am_complete_error box \<longleftrightarrow> map_of box ERROR = None \<or> map_of box ANSWER \<noteq> None \<or>
     map_of box ERROR_CODE \<noteq> None \<and> map_of box ERROR_DESCRIPTION \<noteq> None"

fun am_op_ok :: "'r am_op \<Rightarrow> bool" where
  "am_op_ok (BoxReceived box) = am_complete_error box"
| "am_op_ok _ = True"

section \<open>Every request is answered once\<close>

text \<open>The requests that wait, and what is known of those that were fired: \<open>ops\<close> is what happened so far.\<close>

definition am_waiting :: "'r dispatcher \<Rightarrow> nat list" where
  "am_waiting s = (case am_outstanding s of None \<Rightarrow> [] | Some l \<Rightarrow> map snd l)"

fun am_earned :: "'r am_op list \<Rightarrow> nat \<times> 'r am_result \<Rightarrow> bool" where
  "am_earned ops (n, Answered box) = (BoxReceived box \<in> set ops \<and> map_of box ANSWER = Some (hex n))"
| "am_earned ops (n, RemoteError code desc) = (\<exists>box. BoxReceived box \<in> set ops \<and> map_of box ERROR = Some (hex n) \<and>
     map_of box ERROR_CODE = Some code \<and> map_of box ERROR_DESCRIPTION = Some desc \<and> code \<noteq> UNHANDLED_ERROR_CODE)"
| "am_earned ops (n, RemoteUnhandled code desc) = (\<exists>box. BoxReceived box \<in> set ops \<and> map_of box ERROR = Some (hex n) \<and>
     map_of box ERROR_CODE = Some code \<and> map_of box ERROR_DESCRIPTION = Some desc \<and> code = UNHANDLED_ERROR_CODE)"
| "am_earned ops (n, Failed reason) = (\<exists>r. Lost r \<in> set ops \<and> reason \<in> {Reason r, KeyTooLong})"

definition am_good :: "'r am_op list \<Rightarrow> 'r dispatcher \<Rightarrow> bool" where
  "am_good ops s \<longleftrightarrow>
     (\<forall>l. am_outstanding s = Some l \<longrightarrow> distinct (map snd l) \<and> (\<forall>(t, n) \<in> set l. t = hex n)) \<and>
     distinct (am_waiting s @ map fst (am_fired s)) \<and> mset (am_asked s) = mset (am_waiting s @ map fst (am_fired s)) \<and>
     (\<forall>n \<in> set (am_asked s). n \<le> am_counter s) \<and> (am_failAllReason s = None \<longleftrightarrow> am_outstanding s \<noteq> None) \<and>
     (\<forall>f \<in> set (am_fired s). am_earned ops f)"

lemma am_asked_set:
  assumes "am_good ops s"
  shows "set (am_asked s) = set (am_waiting s) \<union> fst ` set (am_fired s)"
proof -
  from assms have "mset (am_asked s) = mset (am_waiting s @ map fst (am_fired s))" unfolding am_good_def by blast
  from mset_eq_setD [OF this] show ?thesis by simp
qed

lemma am_earned_mono: "am_earned ops f \<Longrightarrow> am_earned (ops @ ops') f"
  by (cases "(ops, f)" rule: am_earned.cases) auto

text \<open>What sending changes is only the boxes' protocol.\<close>

definition am_same :: "'r dispatcher \<Rightarrow> 'r dispatcher \<Rightarrow> bool" where
  "am_same s t \<longleftrightarrow> am_failAllReason t = am_failAllReason s \<and> am_outstanding t = am_outstanding s \<and>
     am_counter t = am_counter s \<and> am_fired t = am_fired s \<and> am_asked t = am_asked s"

lemma am_same_good: "am_same s t \<Longrightarrow> am_good ops s \<Longrightarrow> am_good ops t"
  by (simp add: am_same_def am_good_def am_waiting_def)

lemma am_send_same: "am_same s (state_of (am_send box s))"
  by (simp add: am_send_def am_same_def split: outcome.split)

lemma am_unhandledError_same: "am_same s (am_unhandledError s)"
  by (simp add: am_unhandledError_def am_loseConnection_def am_same_def)

lemma am_same_trans: "am_same s t \<Longrightarrow> am_same t u \<Longrightarrow> am_same s u"
  by (simp add: am_same_def)

lemma am_safeEmit_same: "am_same s (am_safeEmit box quit s)"
proof (cases "am_send box s")
  case (Ok t)
  with am_send_same [of s box] show ?thesis by (simp add: am_safeEmit_def am_same_def am_loseConnection_def)
next
  case (Exc e t)
  with am_send_same [of s box] have t: "am_same s t" by simp
  from am_same_trans [OF t am_unhandledError_same] t Exc show ?thesis
    by (simp add: am_safeEmit_def split: am_exception.split amp_error.split)
qed

lemma am_respond_same: "am_same s (am_respond ask ended s)"
  by (cases ask; cases ended) (simp_all add: am_respond_def am_safeEmit_same am_unhandledError_same, simp add: am_same_def)

lemma am_commandReceived_same: "am_same s (am_commandReceived located cmd box s)"
proof (cases "located cmd")
  case True
  then show ?thesis by (simp add: am_commandReceived_def am_same_def)
next
  case False
  then show ?thesis by (simp add: am_commandReceived_def am_respond_same)
qed

lemma am_commandEnded_same: "am_same s (am_commandEnded i ended s)"
proof (cases "map_of (am_commands s) i")
  case (Some ask)
  have "am_same s (s\<lparr>am_commands := AList.delete i (am_commands s)\<rparr>)" by (simp add: am_same_def)
  from am_same_trans [OF this am_respond_same] Some show ?thesis by (simp add: am_commandEnded_def)
qed (simp add: am_commandEnded_def am_same_def)

text \<open>Taking a request out of the dictionary and firing it.\<close>

lemma am_pop_Inr:
  assumes "am_pop tag s = Inr (n, t)" "am_good ops s"
  shows "tag = hex n" "am_failAllReason t = am_failAllReason s" "am_counter t = am_counter s" "am_fired t = am_fired s"
    "am_asked t = am_asked s" "mset (am_waiting s) = add_mset n (mset (am_waiting t))" "am_outstanding t \<noteq> None"
    "\<forall>l. am_outstanding t = Some l \<longrightarrow> distinct (map snd l) \<and> (\<forall>(t, n) \<in> set l. t = hex n)" "am_outstanding s \<noteq> None"
proof -
  from assms(1) obtain l where l: "am_outstanding s = Some l" "map_of l tag = Some n"
    "t = s\<lparr>am_outstanding := Some (AList.delete tag l)\<rparr>"
    by (auto simp: am_pop_def split: option.splits)
  then show "am_failAllReason t = am_failAllReason s" "am_counter t = am_counter s" "am_fired t = am_fired s"
    "am_asked t = am_asked s" "am_outstanding t \<noteq> None" "am_outstanding s \<noteq> None" by simp_all
  have good: "distinct (map snd l)" "\<forall>(t, n) \<in> set l. t = hex n" using assms(2) l(1) by (simp_all add: am_good_def)
  with map_of_SomeD [OF l(2)] show tag: "tag = hex n" by blast
  have del: "AList.delete tag l = filter (\<lambda>p. snd p \<noteq> n) l"
    unfolding AList.delete_eq by (rule filter_cong) (use good(2) tag in \<open>auto simp: split_beta\<close>)
  show "\<forall>l. am_outstanding t = Some l \<longrightarrow> distinct (map snd l) \<and> (\<forall>(t, n) \<in> set l. t = hex n)"
    using good by (auto simp: l(3) del distinct_map_filter)
  have "n \<in> set (map snd l)" using map_of_SomeD [OF l(2)] by force
  have "map snd (filter (\<lambda>p. snd p \<noteq> n) l) = remove1 n (map snd l)"
    if "distinct (map snd l)" for l :: "(bytes \<times> nat) list" using that by (induction l) (auto simp: filter_id_conv remove1_idem)
  with good(1) \<open>n \<in> _\<close> show "mset (am_waiting s) = add_mset n (mset (am_waiting t))"
    by (simp add: am_waiting_def l del)
qed


lemma am_good_fire:
  assumes "am_pop tag s = Inr (n, t)" "am_good ops s" "am_earned ops' (n, r)" "set ops \<subseteq> set ops'"
  shows "am_good ops' (am_fire n r t)"
proof -
  note p = am_pop_Inr [OF assms(1,2)]
  have sets: "set (am_waiting s) = insert n (set (am_waiting t))" using arg_cong [OF p(6), of set_mset] by simp
  have same: "mset (am_waiting s @ map fst (am_fired s)) = mset (am_waiting t @ map fst (am_fired (am_fire n r t)))"
    using p(4,6) by (simp add: am_fire_def)
  from assms(2) have "distinct (am_waiting s @ map fst (am_fired s))"
    "mset (am_asked s) = mset (am_waiting s @ map fst (am_fired s))" unfolding am_good_def by blast+
  with same p(5) have ms: "mset (am_asked t) = mset (am_waiting t @ map fst (am_fired (am_fire n r t)))"
    "distinct (am_waiting t @ map fst (am_fired (am_fire n r t)))"
    using mset_eq_imp_distinct_iff [OF same] by metis+
  have earned: "am_earned ops' f" if "f \<in> set (am_fired (am_fire n r t))" for f
  proof (cases "f = (n, r)")
    case False
    with that p(4) assms(2) have "am_earned ops f" by (auto simp: am_fire_def am_good_def)
    with assms(4) show ?thesis by (cases "(ops, f)" rule: am_earned.cases) auto
  qed (use assms(3) in simp)
  have "am_waiting (am_fire n r t) = am_waiting t" by (simp add: am_waiting_def am_fire_def)
  with ms earned p(2,3,5,7,8,9) assms(2) show ?thesis by (simp add: am_good_def am_fire_def)
qed

lemma am_good_ops: "am_good ops s \<Longrightarrow> am_good (ops @ ops') s"
  by (simp add: am_good_def am_earned_mono)

lemma am_good_box:
  assumes "am_good ops s" "am_complete_error box"
  shows "am_good (ops @ [BoxReceived box]) (state_of (am_ampBoxReceived located box s))"
proof -
  note old = am_good_ops [OF assms(1), of "[BoxReceived box]"]
  have sub: "set ops \<subseteq> set (ops @ [BoxReceived box])" by auto
  show ?thesis
  proof (cases "map_of box ANSWER")
    case ans: (Some tag)
    show ?thesis
    proof (cases "am_pop tag s")
      case (Inl e)
      with ans old show ?thesis by (simp add: am_ampBoxReceived_def am_answerReceived_def)
    next
      case (Inr p)
      obtain n t where p: "p = (n, t)" by fastforce
      note pop = Inr [unfolded p]
      have "am_earned (ops @ [BoxReceived box]) (n, Answered box)" using ans am_pop_Inr(1) [OF pop assms(1)] by simp
      from am_good_fire [OF pop assms(1) this sub] pop ans show ?thesis
        by (simp add: am_ampBoxReceived_def am_answerReceived_def)
    qed
  next
    case ans: None
    show ?thesis
    proof (cases "map_of box ERROR")
      case err: (Some tag)
      with assms(2) ans obtain code desc where d: "map_of box ERROR_CODE = Some code" "map_of box ERROR_DESCRIPTION = Some desc"
        by (auto simp: am_complete_error_def)
      show ?thesis
      proof (cases "am_pop tag s")
        case (Inl e)
        with ans err old show ?thesis by (simp add: am_ampBoxReceived_def am_errorReceived_def)
      next
        case (Inr p)
        obtain n t where p: "p = (n, t)" by fastforce
        note pop = Inr [unfolded p]
        let ?r = "if code = UNHANDLED_ERROR_CODE then RemoteUnhandled code desc else RemoteError code desc"
        have "am_earned (ops @ [BoxReceived box]) (n, ?r)" using err d am_pop_Inr(1) [OF pop assms(1)] by auto
        from am_good_fire [OF pop assms(1) this sub] pop ans err d show ?thesis
          by (simp add: am_ampBoxReceived_def am_errorReceived_def)
      qed
    next
      case None
      with ans old am_same_good [OF am_commandReceived_same old] show ?thesis
        by (simp add: am_ampBoxReceived_def split: option.split)
    qed
  qed
qed

lemma am_good_lost:
  assumes "am_good ops s"
  shows "am_good (ops @ [Lost r]) (state_of (am_connectionLost r s))"
proof (cases "am_outstanding s")
  case None
  with am_good_ops [OF assms] show ?thesis
    by (simp add: am_connectionLost_def am_failAllOutgoing_def am_good_def am_waiting_def Let_def)
next
  case (Some l)
  let ?why = "if bb_keyLengthLimitExceeded (in_app (am_sender s)) then KeyTooLong else Reason r"
  have eq: "state_of (am_connectionLost r s) = s\<lparr>am_failAllReason := Some ?why, am_outstanding := None,
      am_fired := am_fired s @ map (\<lambda>(k, n). (n, Failed ?why)) l, am_connected := False\<rparr>"
    by (simp add: am_connectionLost_def am_failAllOutgoing_def Some Let_def)
  have keys: "map fst (map (\<lambda>(k, n). (n, Failed ?why)) l) = map snd l" by (induction l) auto
  have "\<forall>f \<in> set (map (\<lambda>(k, n). (n, Failed ?why)) l). am_earned (ops @ [Lost r]) f" by auto
  with keys am_good_ops [OF assms, of "[Lost r]"] Some show ?thesis
    unfolding eq by (auto simp: am_good_def am_waiting_def simp del: map_map)
qed

lemma am_good_call:
  assumes "am_good ops s"
  shows "am_good (ops @ [Call cmd box req]) (am_step located (Call cmd box req) s)"
proof (cases "am_failAllReason s")
  case None
  let ?t = "s\<lparr>am_counter := am_counter s + 1\<rparr>"
  let ?b = "am_commandBox (hex (am_counter s + 1)) cmd req box"
  from assms have t: "am_good ops ?t" by (auto simp: am_good_def am_waiting_def)
  define u where "u = state_of (am_send ?b ?t)"
  have same: "am_same ?t u" unfolding u_def by (rule am_send_same)
  have u: "am_good ops u" by (rule am_same_good [OF same t])
  show ?thesis
  proof (cases "am_send ?b ?t")
    case (Exc e v)
    with None am_good_ops [OF u] show ?thesis by (simp add: am_sendBoxCommand_def am_nextTag_def Let_def u_def)
  next
    case (Ok v)
    then have v: "v = u" by (simp add: u_def)
    show ?thesis
    proof (cases req)
      case False
      with None Ok am_good_ops [OF u] v show ?thesis by (simp add: am_sendBoxCommand_def am_nextTag_def Let_def)
    next
      case True
      from None assms obtain l where l: "am_outstanding s = Some l" by (auto simp: am_good_def)
      have new: "am_counter s + 1 \<notin> set (am_asked s)" using assms by (fastforce simp: am_good_def)
      then have "am_counter s + 1 \<notin> set (am_waiting s)" "am_counter s + 1 \<notin> fst ` set (am_fired s)"
        unfolding am_asked_set [OF assms] by blast+
      with l have fresh: "am_counter s + 1 \<notin> set (map snd l)" "am_counter s + 1 \<notin> fst ` set (am_fired s)"
        by (simp_all add: am_waiting_def)
      have "hex (am_counter s + 1) \<notin> fst ` set l"
      proof
        assume "hex (am_counter s + 1) \<in> fst ` set l"
        then obtain n where n: "(hex (am_counter s + 1), n) \<in> set l" by auto
        moreover from assms l have "\<forall>(t, n) \<in> set l. t = hex n" unfolding am_good_def by blast
        ultimately have "hex (am_counter s + 1) = hex n" by blast
        then have "am_counter s + 1 = n" by (simp only: hex_inj)
        with n fresh(1) show False by force
      qed
      note upd = update_new [OF this, of "am_counter s + 1"]
      have step: "am_step located (Call cmd box req) s =
          u\<lparr>am_outstanding := Some (l @ [(hex (am_counter s + 1), am_counter s + 1)]), am_asked := am_asked u @ [am_counter s + 1]\<rparr>"
        using None Ok True same l upd v by (simp add: am_sendBoxCommand_def am_nextTag_def Let_def am_same_def)
      from am_good_ops [OF u, of "[Call cmd box req]"] same l fresh show ?thesis
        unfolding step by (auto simp: am_good_def am_same_def am_waiting_def)
    qed
  qed
next
  case (Some r)
  with am_good_ops [OF assms] show ?thesis by (simp add: am_sendBoxCommand_def)
qed

lemma am_good_step: "am_good ops s \<Longrightarrow> am_op_ok op \<Longrightarrow> am_good (ops @ [op]) (am_step located op s)"
  using am_good_call am_good_box am_good_lost am_same_good [OF am_commandEnded_same am_good_ops]
    am_same_good [OF am_unhandledError_same am_good_ops] by (cases op) simp_all

lemma am_good_run:
  "am_good ops s \<Longrightarrow> \<forall>op \<in> set ops'. am_op_ok op \<Longrightarrow> am_good (ops @ ops') (am_run located ops' s)"
proof (induction ops' arbitrary: ops s)
  case (Cons op ops')
  from Cons.IH [OF am_good_step] Cons.prems show ?case by (fastforce simp: am_run_def)
qed (simp add: am_run_def)

lemma am_good_init: "am_good [] am_init"
  by (simp add: am_good_def am_init_def am_waiting_def)


section \<open>Requests\<close>

lemma am_send_reason: "am_failAllReason (state_of (am_send box s)) = am_failAllReason s"
  using am_send_same [of s box] by (simp add: am_same_def)

lemma am_box_reason: "am_failAllReason s \<noteq> None \<Longrightarrow> am_failAllReason (state_of (am_ampBoxReceived located box s)) \<noteq> None"
  using am_commandReceived_same [of s located _ box]
  by (auto simp: am_ampBoxReceived_def am_answerReceived_def am_errorReceived_def am_pop_def am_fire_def am_same_def split: option.split)

lemma am_lost_reason: "am_failAllReason (state_of (am_connectionLost r s)) \<noteq> None"
  by (simp add: am_connectionLost_def am_failAllOutgoing_def Let_def split: option.split)

lemma am_step_reason: "am_failAllReason s \<noteq> None \<or> (\<exists>r. op = Lost r) \<Longrightarrow> am_failAllReason (am_step located op s) \<noteq> None"
proof (cases op)
  case (Call cmd box req)
  assume "am_failAllReason s \<noteq> None \<or> (\<exists>r. op = Lost r)"
  with Call show ?thesis by (auto simp: am_sendBoxCommand_def)
next
  case (BoxReceived box)
  assume "am_failAllReason s \<noteq> None \<or> (\<exists>r. op = Lost r)"
  with BoxReceived show ?thesis using am_box_reason by simp
next
  case (CommandEnded i ended)
  assume "am_failAllReason s \<noteq> None \<or> (\<exists>r. op = Lost r)"
  with CommandEnded show ?thesis using am_commandEnded_same [of s i ended] by (simp add: am_same_def)
next
  case Unhandled
  assume "am_failAllReason s \<noteq> None \<or> (\<exists>r. op = Lost r)"
  with Unhandled show ?thesis using am_unhandledError_same [of s] by (simp add: am_same_def)
next
  case (Lost r)
  then show ?thesis using am_lost_reason by simp
qed

lemma am_run_reason: "am_failAllReason s \<noteq> None \<or> (\<exists>r. Lost r \<in> set ops) \<Longrightarrow> am_failAllReason (am_run located ops s) \<noteq> None"
proof (induction ops arbitrary: s)
  case (Cons op ops)
  show ?case
  proof (cases "am_failAllReason s \<noteq> None \<or> (\<exists>r. op = Lost r)")
    case True
    from Cons.IH [of "am_step located op s"] am_step_reason [OF True] show ?thesis by (simp add: am_run_def)
  next
    case False
    with Cons.prems have "\<exists>r. Lost r \<in> set ops" by auto
    with Cons.IH [of "am_step located op s"] show ?thesis by (simp add: am_run_def)
  qed
qed (simp add: am_run_def)

text \<open>
  C28: Whatever happens to a connection, every request that returned a Deferred waits or was answered,
  not both; none was answered twice; each was answered with a box that carries its own tag, or, when
  the connection was lost, with the reason; and once it was lost no request waits any more.  The
  exception is a request that was sent an error box without code or description.
\<close>
theorem amp_requests_settled:
  assumes "\<forall>op \<in> set ops. am_op_ok op" and "s = am_run located ops am_init"
  shows "distinct (am_waiting s @ map fst (am_fired s)) \<and>
    set (am_asked s) = set (am_waiting s) \<union> fst ` set (am_fired s) \<and>
    (\<forall>f \<in> set (am_fired s). am_earned ops f) \<and>
    ((\<exists>r. Lost r \<in> set ops) \<longrightarrow> am_waiting s = [])"
proof (intro conjI impI)
  have good: "am_good ops s" using am_good_run [OF am_good_init assms(1), of located] assms(2) by simp
  then show "distinct (am_waiting s @ map fst (am_fired s))" "\<forall>f \<in> set (am_fired s). am_earned ops f"
    unfolding am_good_def by blast+
  show "set (am_asked s) = set (am_waiting s) \<union> fst ` set (am_fired s)" by (rule am_asked_set [OF good])
  assume "\<exists>r. Lost r \<in> set ops"
  from am_run_reason [OF disjI2 [OF this], where s = am_init and located = located] have "am_failAllReason s \<noteq> None"
    unfolding assms(2) .
  with good have "am_outstanding s = None" unfolding am_good_def by blast
  then show "am_waiting s = []" by (simp add: am_waiting_def)
qed

lemma amp_requests_settled_witness:
  "let s = am_run (\<lambda>cmd. True) [Call ''sum'' [] True, Lost (), BoxReceived [(ANSWER, ''1'')]] am_init
   in distinct (am_waiting s @ map fst (am_fired s)) \<and> set (am_asked s) = set (am_waiting s) \<union> fst ` set (am_fired s)"
proof -
  have "\<forall>op \<in> set [Call ''sum'' [] True, Lost (), BoxReceived [(ANSWER, ''1'')]]. am_op_ok op"
    by (simp add: am_complete_error_def)
  from amp_requests_settled [OF this refl, of "\<lambda>cmd. True"] show ?thesis unfolding Let_def by blast
qed

text \<open>That exception: the request is taken out of the dictionary before the code is looked up.\<close>

lemma malformed_error_loses_request:
  assumes "am_good ops s" "am_pop tag s = Inr (n, t)" "map_of box ANSWER = None" "map_of box ERROR = Some tag"
    and "map_of box ERROR_CODE = None"
  shows "am_ampBoxReceived located box s = Exc (KeyError ERROR_CODE) t"
    "n \<in> set (am_asked t)" "n \<notin> set (am_waiting t)" "n \<notin> fst ` set (am_fired t)"
proof -
  note p = am_pop_Inr [OF assms(2,1)]
  show "am_ampBoxReceived located box s = Exc (KeyError ERROR_CODE) t"
    by (simp add: am_ampBoxReceived_def am_errorReceived_def assms(2-5))
  have n: "n \<in> set (am_waiting s)" using arg_cong [OF p(6), of set_mset] by simp
  from assms(1) have d: "distinct (am_waiting s @ map fst (am_fired s))" unfolding am_good_def by blast
  have "n \<notin> set (am_waiting t)"
  proof
    assume "n \<in> set (am_waiting t)"
    then have "2 \<le> count (mset (am_waiting s)) n" using p(6) count_greater_eq_one_iff [of "mset (am_waiting t)" n] by simp
    with d show False using distinct_count_atmost_1 [of "am_waiting s"] by (auto split: if_splits)
  qed
  then show "n \<notin> set (am_waiting t)" .
  show "n \<in> set (am_asked t)" using n p(5) am_asked_set [OF assms(1)] by simp
  show "n \<notin> fst ` set (am_fired t)" using n d p(4) by auto
qed


section \<open>Data received by an AMP connection\<close>

text \<open>
  \<open>AMP.dataReceived\<close>: the boxes that the parser completes are dispatched one after the other.  The
  parser goes on whatever the dispatcher does, unless it raises; then the exception leaves
  \<open>dataReceived\<close>, and the reactor drops the connection.
\<close>

definition am_dispatch :: "(bytes \<Rightarrow> bool) \<Rightarrow> amp_box list \<Rightarrow> 'r dispatcher \<Rightarrow> (am_exception, 'r dispatcher) outcome" where
  "am_dispatch located boxes s = foldl (\<lambda>r b. and_then r (am_ampBoxReceived located b)) (Ok s) boxes"

definition am_dataReceived :: "(bytes \<Rightarrow> bool) \<Rightarrow> bytes \<Rightarrow> 'r dispatcher \<Rightarrow> (am_exception, 'r dispatcher) outcome option" where
  "am_dataReceived located d s =
     map_option (\<lambda>p. am_dispatch located (drop (length (bb_boxes (in_app (am_sender s)))) (bb_boxes (in_app p))) (s\<lparr>am_sender := p\<rparr>))
       (bb_dataReceived d (am_sender s))"

fun am_feed :: "(bytes \<Rightarrow> bool) \<Rightarrow> bytes list \<Rightarrow> 'r dispatcher \<Rightarrow> (am_exception, 'r dispatcher) outcome option" where
  "am_feed located [] s = Some (Ok s)"
| "am_feed located (c # cs) s =
     (case am_dataReceived located c s of
        Some (Ok t) \<Rightarrow> am_feed located cs t
      | r \<Rightarrow> r)"

lemma dispatch_Exc: "foldl (\<lambda>r b. and_then r (am_ampBoxReceived located b)) (Exc e s) bs = Exc e s"
  by (induction bs) simp_all

lemma am_dispatch_Nil [simp]: "am_dispatch located [] s = Ok s"
  by (simp add: am_dispatch_def)

lemma am_dispatch_Cons [simp]:
  "am_dispatch located (b # bs) s = and_then (am_ampBoxReceived located b s) (am_dispatch located bs)"
  by (cases "am_ampBoxReceived located b s") (simp_all add: am_dispatch_def dispatch_Exc)

lemma am_dispatch_append: "am_dispatch located (bs @ cs) s = and_then (am_dispatch located bs s) (am_dispatch located cs)"
proof (induction bs arbitrary: s)
  case (Cons b bs)
  then show ?case by (cases "am_ampBoxReceived located b s") simp_all
qed simp

text \<open>Boxes that do not make the dispatcher write anything.\<close>

definition am_quiet :: "(bytes \<Rightarrow> bool) \<Rightarrow> amp_box \<Rightarrow> bool" where
  "am_quiet located b \<longleftrightarrow> map_of b ANSWER \<noteq> None \<or> map_of b ERROR \<noteq> None \<or> (\<exists>cmd. map_of b COMMAND = Some cmd \<and> located cmd)"

lemma am_pop_sender: "am_pop tag (s\<lparr>am_sender := p\<rparr>) = (case am_pop tag s of Inl e \<Rightarrow> Inl e | Inr (n, t) \<Rightarrow> Inr (n, t\<lparr>am_sender := p\<rparr>))"
  by (simp add: am_pop_def split: option.split)

lemma am_quiet_box:
  assumes "am_quiet located b" "am_ampBoxReceived located b s = Ok t"
  shows "am_ampBoxReceived located b (s\<lparr>am_sender := p\<rparr>) = Ok (t\<lparr>am_sender := p\<rparr>)" "am_sender t = am_sender s"
  using assms
  by (auto simp: am_quiet_def am_ampBoxReceived_def am_answerReceived_def am_errorReceived_def am_commandReceived_def
      am_pop_sender am_pop_def am_fire_def split: option.splits)

lemma am_quiet_dispatch:
  "\<forall>b \<in> set bs. am_quiet located b \<Longrightarrow> am_dispatch located bs s = Ok t \<Longrightarrow>
     am_dispatch located bs (s\<lparr>am_sender := p\<rparr>) = Ok (t\<lparr>am_sender := p\<rparr>) \<and> am_sender t = am_sender s"
proof (induction bs arbitrary: s)
  case (Cons b bs)
  from Cons.prems(2) obtain u where u: "am_ampBoxReceived located b s = Ok u" "am_dispatch located bs u = Ok t"
    by (cases "am_ampBoxReceived located b s") auto
  from am_quiet_box [OF _ u(1)] Cons.IH [OF _ u(2)] Cons.prems(1) show ?case by simp
qed simp

text \<open>The parser only adds boxes.\<close>

lemma bb_stringReceived_boxes: "\<exists>bs. bb_boxes (in_app (bb_stringReceived str s)) = bb_boxes (in_app s) @ bs"
proof -
  consider "bb_state (in_app s) = ''init''" | "bb_state (in_app s) = ''key''" | "bb_state (in_app s) = ''value''"
    | "bb_proto (bb_state (in_app s)) = None" by (unfold bb_proto_def) metis
  then show ?thesis
    by cases (simp_all add: bb_states bb_other bb_proto_init_def bb_proto_key_def bb_proto_value_def bb_setItem_def split: option.split)
qed

lemma eat_adds_boxes:
  "h = bb_stringReceived \<Longrightarrow> \<exists>bs. bb_boxes (in_app (snd (in_eat h d s))) = bb_boxes (in_app s) @ bs"
proof (induction h d s rule: in_eat.induct)
  case (1 h d s)
  show ?case
  proof (cases "in_complete d s")
    case True
    from "1.IH" [OF True refl refl "1.prems"] bb_stringReceived_boxes show ?thesis
      unfolding in_eat_next [OF True] "1.prems" by (metis append.assoc)
  next
    case False
    then show ?thesis by (simp add: in_eat_stop)
  qed
qed

lemma recv_adds_boxes:
  assumes "in_within bb_stringReceived d p"
  shows "\<exists>bs. bb_boxes (in_app (in_recv bb_stringReceived bb_lengthLimitExceeded d p)) = bb_boxes (in_app p) @ bs"
proof -
  obtain r t where e: "in_eat bb_stringReceived (in_unprocessed p @ d) (in_clean p) = (r, t)" by fastforce
  from eat_adds_boxes [OF refl, of "in_unprocessed p @ d" "in_clean p"] bb.recv_eat(2) [OF assms e] e show ?thesis
    by (simp add: in_clean_def)
qed

lemma am_feed_dispatch:
  assumes "in_within bb_stringReceived (concat cs) (am_sender s)"
    and "bb_boxes (in_app (feed (in_recv bb_stringReceived bb_lengthLimitExceeded) cs (am_sender s))) = bb_boxes (in_app (am_sender s)) @ bs"
    and "\<forall>b \<in> set bs. am_quiet located b" "am_dispatch located bs s = Ok u"
  shows "am_feed located cs s = Some (Ok (u\<lparr>am_sender := feed (in_recv bb_stringReceived bb_lengthLimitExceeded) cs (am_sender s)\<rparr>))"
  using assms
proof (induction cs arbitrary: s bs u)
  case Nil
  then have "bs = []" by simp
  with Nil.prems(4) show ?case by simp
next
  case (Cons c cs)
  let ?recv = "in_recv bb_stringReceived bb_lengthLimitExceeded"
  let ?p = "?recv c (am_sender s)"
  from Cons.prems(1) bb.stream.safe_append have w: "in_within bb_stringReceived c (am_sender s)" "in_within bb_stringReceived (concat cs) ?p"
    by auto
  obtain r t where "in_eat bb_stringReceived (in_unprocessed (am_sender s) @ c) (in_clean (am_sender s)) = (r, t)" by fastforce
  from bb.recv_eat(1) [OF w(1) this] have recv: "bb_dataReceived c (am_sender s) = Some ?p" by (simp add: bb_dataReceived_eq)
  from recv_adds_boxes [OF w(1)] obtain b1 where b1: "bb_boxes (in_app ?p) = bb_boxes (in_app (am_sender s)) @ b1" by blast
  have "\<exists>b2. bb_boxes (in_app (feed ?recv cs ?p)) = bb_boxes (in_app ?p) @ b2"
  proof (cases cs)
    case (Cons c' cs')
    then show ?thesis using bb.stream.feed_concat [OF _ w(2)] recv_adds_boxes [OF w(2)] by simp
  qed simp
  then obtain b2 where b2: "bb_boxes (in_app (feed ?recv cs ?p)) = bb_boxes (in_app ?p) @ b2" by blast
  with Cons.prems(2) b1 have bs: "bs = b1 @ b2" by simp
  from Cons.prems(4) obtain v where v: "am_dispatch located b1 s = Ok v" "am_dispatch located b2 v = Ok u"
    by (cases "am_dispatch located b1 s") (auto simp: bs am_dispatch_append)
  from am_quiet_dispatch [OF _ v(1), of ?p] am_quiet_dispatch [OF _ v(2), of ?p] Cons.prems(3) bs have
    q: "am_dispatch located b1 (s\<lparr>am_sender := ?p\<rparr>) = Ok (v\<lparr>am_sender := ?p\<rparr>)"
      "am_dispatch located b2 (v\<lparr>am_sender := ?p\<rparr>) = Ok (u\<lparr>am_sender := ?p\<rparr>)" by auto
  have "am_dataReceived located c s = Some (Ok (v\<lparr>am_sender := ?p\<rparr>))"
    by (simp add: am_dataReceived_def recv b1 q(1))
  with Cons.IH [OF _ _ _ q(2)] w(2) b2 Cons.prems(3) bs show ?case by simp
qed


section \<open>Calls over a connection\<close>

definition am_wire :: "amp_box \<Rightarrow> bytes" where
  "am_wire b = (case am_serialize b of Inr d \<Rightarrow> d | Inl e \<Rightarrow> [])"

definition am_ok :: "amp_box \<Rightarrow> bool" where
  "am_ok b \<longleftrightarrow> am_serialize b = Inr (am_wire b) \<and> am_sendable b"

fun bb_write :: "in_event \<Rightarrow> bytes option" where
  "bb_write (InWrite d) = Some d"
| "bb_write _ = None"

definition bb_written :: "binary_box_protocol \<Rightarrow> bytes" where
  "bb_written p = concat (List.map_filter bb_write (in_events p))"

text \<open>A connection that is open and between two boxes.\<close>

definition am_open :: "'r dispatcher \<Rightarrow> bool" where
  "am_open s \<longleftrightarrow> am_connected s \<and> bb_resting (am_sender s) \<and> \<not> bb_locked (in_app (am_sender s)) \<and> am_failAllReason s = None"

lemma am_open_init: "am_open am_init" "bb_written (am_sender am_init) = []"
  by (simp_all add: am_open_def am_init_def bb_init_resting bb_written_def List.map_filter_def)

lemma am_open_send:
  assumes "am_open s" "am_ok b"
  shows "\<exists>t. am_send b s = Ok t \<and> am_open t \<and> bb_written (am_sender t) = bb_written (am_sender s) @ am_wire b \<and>
    t = s\<lparr>am_sender := am_sender t\<rparr> \<and> bb_boxes (in_app (am_sender t)) = bb_boxes (in_app (am_sender s))"
proof -
  let ?t = "s\<lparr>am_sender := in_emit (InWrite (am_wire b)) (am_sender s)\<rparr>"
  have "am_send b s = Ok ?t" using assms by (simp add: am_send_def bb_sendBox_def am_open_def am_ok_def)
  moreover have "am_open ?t" using assms(1)
    by (simp add: am_open_def bb_resting_def bb_at_def in_ready_def)
  moreover have "bb_written (am_sender ?t) = bb_written (am_sender s) @ am_wire b"
    by (simp add: bb_written_def List.map_filter_def)
  ultimately show ?thesis by (intro exI [of _ ?t]) simp
qed

lemma am_open_feed:
  assumes "am_open s" "\<forall>b \<in> set bs. am_ok b" "concat cs = concat (map am_wire bs)"
    and "\<forall>b \<in> set bs. am_quiet located (sort_key fst b)" "am_dispatch located (map (sort_key fst) bs) s = Ok u"
  shows "\<exists>t. am_feed located cs s = Some (Ok t) \<and> t = u\<lparr>am_sender := am_sender t\<rparr> \<and>
    bb_resting (am_sender t) \<and> in_events (am_sender t) = in_events (am_sender s) \<and> \<not> bb_locked (in_app (am_sender t))"
proof -
  have bs: "\<forall>b \<in> set bs. am_serialize b = Inr (am_wire b) \<and> am_sendable b" using assms(2) by (simp add: am_ok_def)
  have s: "bb_resting (am_sender s)" "\<not> bb_locked (in_app (am_sender s))" using assms(1) by (simp_all add: am_open_def)
  note fed = feed_boxes [OF bs assms(3) s(1)]
  from am_feed_dispatch [OF _ _ _ assms(5), of cs] fed assms(4)
  have "am_feed located cs s = Some (Ok (u\<lparr>am_sender := feed bb_recv cs (am_sender s)\<rparr>))" by simp
  with fed s(2) show ?thesis by (intro exI [of _ "u\<lparr>am_sender := feed bb_recv cs (am_sender s)\<rparr>"]) simp
qed

text \<open>The boxes of some calls, and the calls.\<close>

fun am_requests :: "nat \<Rightarrow> (bytes \<times> amp_box) list \<Rightarrow> amp_box list" where
  "am_requests n [] = []"
| "am_requests n ((cmd, box) # calls) = am_commandBox (hex (n + 1)) cmd True box # am_requests (n + 1) calls"

definition am_tags :: "nat \<Rightarrow> nat \<Rightarrow> (bytes \<times> nat) list" where
  "am_tags n k = map (\<lambda>i. (hex (i + 1), i + 1)) [n..<n + k]"

lemma am_tags_Suc: "am_tags n (Suc k) = (hex (n + 1), n + 1) # am_tags (n + 1) k"
  by (simp add: am_tags_def upt_conv_Cons del: upt_Suc)

definition am_call_ops :: "(bytes \<times> amp_box) list \<Rightarrow> 'r am_op list" where
  "am_call_ops calls = map (\<lambda>(cmd, box). Call cmd box True) calls"

lemma am_calls:
  "am_open s \<Longrightarrow> am_outstanding s = Some l \<Longrightarrow> fst ` set l \<inter> {hex (i + 1) | i. am_counter s \<le> i} = {} \<Longrightarrow>
     \<forall>b \<in> set (am_requests (am_counter s) calls). am_ok b \<Longrightarrow>
     \<exists>t. am_run located (am_call_ops calls) s = t \<and> am_open t \<and> am_outstanding t = Some (l @ am_tags (am_counter s) (length calls)) \<and>
       bb_written (am_sender t) = bb_written (am_sender s) @ concat (map am_wire (am_requests (am_counter s) calls)) \<and>
       am_fired t = am_fired s"
proof (induction calls arbitrary: s l)
  case Nil
  then show ?case by (simp add: am_run_def am_call_ops_def am_tags_def)
next
  case (Cons call calls)
  obtain cmd box where call: "call = (cmd, box)" by fastforce
  let ?n = "am_counter s + 1" and ?s = "s\<lparr>am_counter := am_counter s + 1\<rparr>"
  have open_: "am_open ?s" using Cons.prems(1) by (simp add: am_open_def)
  have "am_ok (am_commandBox (hex ?n) cmd True box)" using Cons.prems(4) call by simp
  from am_open_send [OF open_ this] obtain u where u: "am_send (am_commandBox (hex ?n) cmd True box) ?s = Ok u" "am_open u"
    "bb_written (am_sender u) = bb_written (am_sender s) @ am_wire (am_commandBox (hex ?n) cmd True box)"
    "u = ?s\<lparr>am_sender := am_sender u\<rparr>" by auto
  have uf: "am_outstanding u = Some l" "am_counter u = ?n" "am_fired u = am_fired s"
    using arg_cong [OF u(4), of am_outstanding] arg_cong [OF u(4), of am_counter] arg_cong [OF u(4), of am_fired] Cons.prems(2) by simp_all
  have "hex ?n \<notin> fst ` set l" using Cons.prems(3) by blast
  note upd = update_new [OF this, of ?n]
  let ?u = "u\<lparr>am_outstanding := Some (l @ [(hex ?n, ?n)]), am_asked := am_asked u @ [?n]\<rparr>"
  have step: "am_step located (Call cmd box True) s = ?u"
    using Cons.prems(1) u(1) uf(1) upd by (simp add: am_open_def am_sendBoxCommand_def am_nextTag_def)
  have "\<exists>t. am_run located (am_call_ops calls) ?u = t \<and> am_open t \<and>
      am_outstanding t = Some ((l @ [(hex ?n, ?n)]) @ am_tags (am_counter ?u) (length calls)) \<and>
      bb_written (am_sender t) = bb_written (am_sender ?u) @ concat (map am_wire (am_requests (am_counter ?u) calls)) \<and>
      am_fired t = am_fired ?u"
  proof (rule Cons.IH)
    show "am_open ?u" using u(2) by (simp add: am_open_def)
    show "fst ` set (l @ [(hex ?n, ?n)]) \<inter> {hex (i + 1) | i. am_counter ?u \<le> i} = {}"
      using Cons.prems(3) uf(2) by (auto simp: set_eq_iff)
    show "\<forall>b \<in> set (am_requests (am_counter ?u) calls). am_ok b" using Cons.prems(4) call uf(2) by simp
  qed simp
  moreover have "am_run located (am_call_ops (call # calls)) s = am_run located (am_call_ops calls) ?u"
    by (simp add: am_call_ops_def am_run_def call step del: am_step.simps)
  ultimately show ?case using uf(2,3) u(3) by (simp add: call am_tags_Suc)
qed


lemma am_keys [simp]: "ASK \<noteq> COMMAND" "COMMAND \<noteq> ASK" "ANSWER \<noteq> ASK" "ANSWER \<noteq> COMMAND" "ERROR \<noteq> ASK" "ERROR \<noteq> COMMAND" "ERROR \<noteq> ANSWER"
  by (simp_all add: ASK_def COMMAND_def ANSWER_def ERROR_def)

text \<open>The callers' boxes do not use the keys of answers.\<close>

definition am_plain_call :: "(bytes \<Rightarrow> bool) \<Rightarrow> bytes \<times> amp_box \<Rightarrow> bool" where
  "am_plain_call located = (\<lambda>(cmd, box). located cmd \<and> map_of box ANSWER = None \<and> map_of box ERROR = None)"

lemma am_request_keys:
  "map_of (am_commandBox tag cmd True box) k = (if k = ASK then Some tag else if k = COMMAND then Some cmd else map_of box k)"
  by (simp add: am_commandBox_def AList.update_conv')

lemma am_request_received:
  assumes "am_plain_call located (cmd, box)" "am_ok (am_commandBox tag cmd True box)"
  shows "am_quiet located (sort_key fst (am_commandBox tag cmd True box)) \<and>
    am_ampBoxReceived located (sort_key fst (am_commandBox tag cmd True box)) s =
      Ok (s\<lparr>am_commands := am_commands s @ [(am_received s, Some tag)], am_received := am_received s + 1\<rparr>)"
proof -
  have "map_of (sort_key fst (am_commandBox tag cmd True box)) = map_of (am_commandBox tag cmd True box)"
    using assms(2) sorted_box by (simp add: am_ok_def)
  with assms(1) show ?thesis
    by (simp add: am_plain_call_def am_quiet_def am_ampBoxReceived_def am_commandReceived_def am_request_keys)
qed

lemma am_requests_received:
  "\<forall>call \<in> set calls. am_plain_call located call \<Longrightarrow> \<forall>b \<in> set (am_requests (am_received s) calls). am_ok b \<Longrightarrow>
     (\<forall>b \<in> set (am_requests (am_received s) calls). am_quiet located (sort_key fst b)) \<and>
     am_dispatch located (map (sort_key fst) (am_requests (am_received s) calls)) s =
       Ok (s\<lparr>am_commands := am_commands s @ map (\<lambda>i. (i, Some (hex (i + 1)))) [am_received s..<am_received s + length calls],
             am_received := am_received s + length calls\<rparr>)"
proof (induction calls arbitrary: s)
  case (Cons call calls)
  obtain cmd box where call: "call = (cmd, box)" by fastforce
  let ?tag = "hex (am_received s + 1)"
  let ?s = "s\<lparr>am_commands := am_commands s @ [(am_received s, Some ?tag)], am_received := am_received s + 1\<rparr>"
  have "am_plain_call located (cmd, box)" "am_ok (am_commandBox ?tag cmd True box)" using Cons.prems call by simp_all
  note one = am_request_received [OF this, of s]
  have more: "\<forall>b \<in> set (am_requests (am_received ?s) calls). am_ok b" using Cons.prems(2) call by simp
  have upt: "[am_received s..<Suc (am_received s + length calls)] = am_received s # [Suc (am_received s)..<Suc (am_received s + length calls)]"
    by (simp add: upt_conv_Cons del: upt_Suc)
  from Cons.IH [OF _ more] Cons.prems(1) one show ?case by (simp add: call upt del: upt_Suc)
qed simp

text \<open>Commands that end, in any order, and what they write.\<close>

definition am_answerBox :: "(nat \<Rightarrow> amp_box) \<Rightarrow> nat \<Rightarrow> amp_box" where
  "am_answerBox answer i = AList.update ANSWER (hex (i + 1)) (answer i)"

lemma am_commands_ended:
  "am_open s \<Longrightarrow> distinct order \<Longrightarrow> \<forall>i \<in> set order. map_of (am_commands s) i = Some (Some (hex (i + 1))) \<and> am_ok (am_answerBox answer i) \<Longrightarrow>
     am_open (am_run located (map (\<lambda>i. CommandEnded i (Returned (answer i))) order) s) \<and>
     bb_written (am_sender (am_run located (map (\<lambda>i. CommandEnded i (Returned (answer i))) order) s)) =
       bb_written (am_sender s) @ concat (map (\<lambda>i. am_wire (am_answerBox answer i)) order)"
proof (induction order arbitrary: s)
  case Nil
  then show ?case by (simp add: am_run_def)
next
  case (Cons i order)
  let ?s = "s\<lparr>am_commands := AList.delete i (am_commands s)\<rparr>"
  have "am_open ?s" "am_ok (am_answerBox answer i)" using Cons.prems by (simp_all add: am_open_def)
  from am_open_send [OF this] obtain t where t: "am_send (am_answerBox answer i) ?s = Ok t" "am_open t"
    "bb_written (am_sender t) = bb_written (am_sender s) @ am_wire (am_answerBox answer i)" "t = ?s\<lparr>am_sender := am_sender t\<rparr>" by auto
  have step: "am_step located (CommandEnded i (Returned (answer i))) s = t"
    using Cons.prems(3) t(1) by (simp add: am_commandEnded_def am_respond_def am_safeEmit_def am_answerBox_def)
  have "\<forall>j \<in> set order. map_of (am_commands t) j = Some (Some (hex (j + 1))) \<and> am_ok (am_answerBox answer j)"
    using Cons.prems(2,3) arg_cong [OF t(4), of am_commands] by (auto simp: AList.delete_conv')
  from Cons.IH [OF t(2) _ this] Cons.prems(2) t(3) step show ?case by (simp add: am_run_def)
qed

text \<open>Answers that arrive, in any order.\<close>

lemma am_answer_received:
  assumes "am_ok (am_answerBox answer i)" "am_outstanding s = Some l" "map_of l (hex (i + 1)) = Some (i + 1)"
  shows "am_quiet located (sort_key fst (am_answerBox answer i)) \<and>
    am_ampBoxReceived located (sort_key fst (am_answerBox answer i)) s =
      Ok (s\<lparr>am_outstanding := Some (AList.delete (hex (i + 1)) l),
            am_fired := am_fired s @ [(i + 1, Answered (sort_key fst (am_answerBox answer i)))]\<rparr>)"
proof -
  have "map_of (sort_key fst (am_answerBox answer i)) = map_of (am_answerBox answer i)"
    using assms(1) sorted_box by (simp add: am_ok_def)
  then have "map_of (sort_key fst (am_answerBox answer i)) ANSWER = Some (hex (i + 1))"
    by (simp add: am_answerBox_def AList.update_conv')
  with assms(2,3) show ?thesis
    by (simp add: am_quiet_def am_ampBoxReceived_def am_answerReceived_def am_pop_def am_fire_def)
qed

lemma am_answers_received:
  "distinct order \<Longrightarrow> am_outstanding s = Some l \<Longrightarrow>
     \<forall>i \<in> set order. map_of l (hex (i + 1)) = Some (i + 1) \<and> am_ok (am_answerBox answer i) \<Longrightarrow>
     \<exists>l'. am_dispatch located (map (sort_key fst) (map (am_answerBox answer) order)) s =
       Ok (s\<lparr>am_outstanding := Some l', am_fired := am_fired s @ map (\<lambda>i. (i + 1, Answered (sort_key fst (am_answerBox answer i)))) order\<rparr>) \<and>
       fst ` set l' = fst ` set l - (\<lambda>i. hex (i + 1)) ` set order"
proof (induction order arbitrary: s l)
  case Nil
  then have "s\<lparr>am_outstanding := Some l, am_fired := am_fired s @ []\<rparr> = s" by (cases s) simp
  then show ?case by (intro exI [of _ l]) simp
next
  case (Cons i order)
  let ?s = "s\<lparr>am_outstanding := Some (AList.delete (hex (i + 1)) l),
            am_fired := am_fired s @ [(i + 1, Answered (sort_key fst (am_answerBox answer i)))]\<rparr>"
  have one: "am_ampBoxReceived located (sort_key fst (am_answerBox answer i)) s = Ok ?s"
    using am_answer_received [of answer i s l] Cons.prems(2,3) by simp
  have "\<forall>j \<in> set order. map_of (AList.delete (hex (i + 1)) l) (hex (j + 1)) = Some (j + 1) \<and> am_ok (am_answerBox answer j)"
    using Cons.prems(1,3) by (auto simp: AList.delete_conv')
  moreover have "distinct order" "am_outstanding ?s = Some (AList.delete (hex (i + 1)) l)" using Cons.prems(1) by simp_all
  ultimately obtain l' where
    l': "am_dispatch located (map (sort_key fst) (map (am_answerBox answer) order)) ?s =
       Ok (?s\<lparr>am_outstanding := Some l', am_fired := am_fired ?s @ map (\<lambda>i. (i + 1, Answered (sort_key fst (am_answerBox answer i)))) order\<rparr>)"
      "fst ` set l' = fst ` set (AList.delete (hex (i + 1)) l) - (\<lambda>i. hex (i + 1)) ` set order"
    using Cons.IH [of ?s "AList.delete (hex (i + 1)) l"] by blast
  have "fst ` set (AList.delete (hex (i + 1)) l) = fst ` set l - {hex (i + 1)}" by (rule AList.delete_keys [THEN arg_cong, where f = set, simplified])
  note keys = this
  show ?case
  proof (intro exI [of _ l'] conjI)
    show "am_dispatch located (map (sort_key fst) (map (am_answerBox answer) (i # order))) s =
       Ok (s\<lparr>am_outstanding := Some l', am_fired := am_fired s @ map (\<lambda>i. (i + 1, Answered (sort_key fst (am_answerBox answer i)))) (i # order)\<rparr>)"
      using one l'(1) by (simp del: map_map)
    show "fst ` set l' = fst ` set l - (\<lambda>i. hex (i + 1)) ` set (i # order)" unfolding l'(2) keys by auto
  qed
qed


lemma am_init_fields [simp]:
  "am_outstanding am_init = Some []" "am_counter am_init = 0" "am_received am_init = 0" "am_commands am_init = []"
  "am_fired am_init = []" "am_connected am_init" "am_failAllReason am_init = None"
  by (simp_all add: am_init_def)

text \<open>
  C27: Calls over a connection.  A client makes any number of calls; the bytes it writes reach the server
  in any pieces; the server's responders finish in any order, each with a box of its own; the bytes
  the server writes reach the client in any pieces.  Then nothing raises at either end, every call
  has been answered, none waits, and the Deferred of the n-th call was fired with the box that its
  own responder returned, with the tag of the call under \<open>_answer\<close>.
\<close>
theorem amp_calls_answered:
  assumes calls: "\<forall>call \<in> set calls. am_plain_call located call" "\<forall>b \<in> set (am_requests 0 calls). am_ok b"
    and client: "c = am_run located' (am_call_ops calls) am_init"
    and to_server: "concat cs = bb_written (am_sender c)"
    and order: "distinct order" "set order = {..<length calls}"
    and answers: "\<forall>i \<in> set order. am_ok (am_answerBox answer i)"
  shows "\<exists>s :: 's dispatcher. am_feed located cs am_init = Some (Ok s) \<and>
    (\<forall>cs'. concat cs' = bb_written (am_sender (am_run located (map (\<lambda>i. CommandEnded i (Returned (answer i))) order) s)) \<longrightarrow>
      (\<exists>c'. am_feed located' cs' c = Some (Ok c') \<and> am_waiting c' = [] \<and> length (am_fired c') = length calls \<and>
        (\<forall>i < length calls. \<exists>b. (i + 1, Answered b) \<in> set (am_fired c') \<and>
           map_of b = (map_of (answer i))(ANSWER \<mapsto> hex (i + 1)))))"
proof -
  from am_calls [OF am_open_init(1) am_init_fields(1), of calls located'] calls(2) client
  have c: "am_open c" "am_outstanding c = Some (am_tags 0 (length calls))" "am_fired c = []"
    "bb_written (am_sender c) = concat (map am_wire (am_requests 0 calls))" by (auto simp: am_open_init(2))
  define u where "u = (am_init :: 's dispatcher)\<lparr>am_commands := map (\<lambda>i. (i, Some (hex (i + 1)))) [0..<length calls], am_received := length calls\<rparr>"
  from am_requests_received [OF calls(1), of "am_init :: 's dispatcher"] calls(2) have
    "\<forall>b \<in> set (am_requests 0 calls). am_quiet located (sort_key fst b)"
    "am_dispatch located (map (sort_key fst) (am_requests 0 calls)) am_init = Ok u" by (simp_all add: u_def)
  from am_open_feed [OF am_open_init(1) calls(2) _ this] to_server c(4) obtain s where
    s: "am_feed located cs am_init = Some (Ok s)" "s = u\<lparr>am_sender := am_sender s\<rparr>" "bb_resting (am_sender s)"
      "in_events (am_sender s) = in_events (am_sender (am_init :: 's dispatcher))" "\<not> bb_locked (in_app (am_sender s))" by auto
  have sf: "am_connected s" "am_failAllReason s = None" "am_commands s = map (\<lambda>i. (i, Some (hex (i + 1)))) [0..<length calls]"
    using arg_cong [OF s(2), of am_connected] arg_cong [OF s(2), of am_failAllReason] arg_cong [OF s(2), of am_commands]
    by (simp_all add: u_def)
  have open_s: "am_open s" using s(3,5) sf(1,2) by (simp add: am_open_def)
  have written_s: "bb_written (am_sender s) = []" using s(4) am_open_init(2) by (simp add: bb_written_def)
  have "\<forall>i \<in> set order. map_of (am_commands s) i = Some (Some (hex (i + 1))) \<and> am_ok (am_answerBox answer i)"
    using order(2) answers sf(3) by (simp add: map_of_map_restrict)
  from am_commands_ended [OF open_s order(1) this, of located] written_s
  have reply: "bb_written (am_sender (am_run located (map (\<lambda>i. CommandEnded i (Returned (answer i))) order) s)) =
      concat (map am_wire (map (am_answerBox answer) order))" by (simp add: comp_def)
  have tags: "map_of (am_tags 0 (length calls)) (hex (i + 1)) = Some (i + 1)" if "i \<in> set order" for i
    using that order(2) by (intro map_of_is_SomeI) (auto simp: am_tags_def distinct_map inj_on_def)
  from am_answers_received [OF order(1) c(2), of answer located'] tags answers obtain l' where
    l': "am_dispatch located' (map (sort_key fst) (map (am_answerBox answer) order)) c =
       Ok (c\<lparr>am_outstanding := Some l', am_fired := am_fired c @ map (\<lambda>i. (i + 1, Answered (sort_key fst (am_answerBox answer i)))) order\<rparr>)"
      "fst ` set l' = fst ` set (am_tags 0 (length calls)) - (\<lambda>i. hex (i + 1)) ` set order" by auto
  have "fst ` set l' = {}" unfolding l'(2) order(2) by (auto simp: am_tags_def)
  then have "l' = []" by simp
  have ok: "\<forall>b \<in> set (map (am_answerBox answer) order). am_ok b" using answers by simp
  have quiet: "\<forall>b \<in> set (map (am_answerBox answer) order). am_quiet located' (sort_key fst b)"
    using am_answer_received [OF _ c(2) tags] answers by auto
  have count: "length order = length calls" using order distinct_card [OF order(1)] by simp
  have boxes: "map_of (sort_key fst (am_answerBox answer i)) = (map_of (answer i))(ANSWER \<mapsto> hex (i + 1))" if "i \<in> set order" for i
    using answers that sorted_box by (simp add: am_ok_def am_answerBox_def AList.update_conv')
  show ?thesis
  proof (intro exI [of _ s] conjI s(1) allI impI)
    fix cs'
    assume "concat cs' = bb_written (am_sender (am_run located (map (\<lambda>i. CommandEnded i (Returned (answer i))) order) s))"
    from am_open_feed [OF c(1) ok this [unfolded reply] quiet l'(1)] obtain c' where
      c': "am_feed located' cs' c = Some (Ok c')" "c' = c\<lparr>am_outstanding := Some l',
        am_fired := am_fired c @ map (\<lambda>i. (i + 1, Answered (sort_key fst (am_answerBox answer i)))) order, am_sender := am_sender c'\<rparr>" by auto
    have "am_outstanding c' = Some []" "am_fired c' = map (\<lambda>i. (i + 1, Answered (sort_key fst (am_answerBox answer i)))) order"
      using arg_cong [OF c'(2), of am_outstanding] arg_cong [OF c'(2), of am_fired] \<open>l' = []\<close> c(3) by simp_all
    then show "\<exists>c'. am_feed located' cs' c = Some (Ok c') \<and> am_waiting c' = [] \<and> length (am_fired c') = length calls \<and>
        (\<forall>i < length calls. \<exists>b. (i + 1, Answered b) \<in> set (am_fired c') \<and> map_of b = (map_of (answer i))(ANSWER \<mapsto> hex (i + 1)))"
      using c'(1) order(2) count boxes by (intro exI [of _ c']) (auto simp: am_waiting_def)
  qed
qed


lemma amp_calls_answered_witness:
  "let c = am_run (\<lambda>cmd. False) (am_call_ops [(''a'', []), (''b'', [(''x'', ''1'')])]) am_init :: unit dispatcher
   in \<exists>s :: unit dispatcher. am_feed (\<lambda>cmd. True) [bb_written (am_sender c)] am_init = Some (Ok s)"
proof -
  let ?calls = "[(''a'', []), (''b'', [(''x'', ''1'')])]"
  let ?c = "am_run (\<lambda>cmd. False) (am_call_ops ?calls) am_init :: unit dispatcher"
  note eval = am_ok_def am_wire_def am_serialize_def am_sendable_def am_commandBox_def am_string_def MAX_KEY_LENGTH_def MAX_VALUE_LENGTH_def
    ASK_def COMMAND_def am_answerBox_def ANSWER_def hex.simps hex_digits_def
  have plain: "\<forall>call \<in> set ?calls. am_plain_call (\<lambda>cmd. True) call" by (simp add: am_plain_call_def ANSWER_def ERROR_def)
  have ok: "\<forall>b \<in> set (am_requests 0 ?calls). am_ok b" by (simp add: eval)
  have answers: "\<forall>i \<in> set [1, 0]. am_ok (am_answerBox (\<lambda>i. [(''r'', ''2'')]) i)" by (simp add: eval)
  have order: "distinct [1, 0::nat]" "set [1, 0] = {..<length ?calls}" by auto
  have stream: "concat [bb_written (am_sender ?c)] = bb_written (am_sender ?c)" by simp
  show ?thesis unfolding Let_def
    using amp_calls_answered [OF plain ok refl stream order answers, where 's = unit] by (elim exE conjE) (rule exI)
qed

end
