(* ===== verification/Banana.thy ===== *)
theory Banana
  imports Framing "HOL-Library.Word" "HOL-Library.Sublist"
begin

text \<open>
  \<open>twisted/spread/banana.py\<close>: the encoding of lists, strings and numbers under perspective broker,
  with its parser and the negotiation of a dialect.  What the application is told and what is
  written to the transport is recorded in the last four fields of \<open>banana\<close>.
\<close>

section \<open>Numbers of base 128\<close>

fun b128_digits :: "nat \<Rightarrow> bytes" where
  "b128_digits n = (if n = 0 then [] else char_of (n mod 128) # b128_digits (n div 128))"

declare b128_digits.simps [simp del]

definition int2b128 :: "nat \<Rightarrow> bytes" where
  "int2b128 n = (if n = 0 then [char_of (0::nat)] else b128_digits n)"

definition b1282int :: "bytes \<Rightarrow> nat" where
  "b1282int st = fst (foldl (\<lambda>(i, e) c. (i + of_char c * e, e * 2 ^ 7)) (0, 1) st)"

abbreviation tb_LIST :: char where "tb_LIST \<equiv> CHR 0x80"
abbreviation tb_INT :: char where "tb_INT \<equiv> CHR 0x81"
abbreviation tb_STRING :: char where "tb_STRING \<equiv> CHR 0x82"
abbreviation tb_NEG :: char where "tb_NEG \<equiv> CHR 0x83"
abbreviation tb_FLOAT :: char where "tb_FLOAT \<equiv> CHR 0x84"
abbreviation tb_LONGINT :: char where "tb_LONGINT \<equiv> CHR 0x85"
abbreviation tb_LONGNEG :: char where "tb_LONGNEG \<equiv> CHR 0x86"
abbreviation tb_VOCAB :: char where "tb_VOCAB \<equiv> CHR 0x87"

definition high_bit_set :: "char \<Rightarrow> bool" where
  "high_bit_set c \<longleftrightarrow> 128 \<le> (of_char c :: nat)"

definition SIZE_LIMIT :: nat where "SIZE_LIMIT = 640 * 1024"

definition default_PREFIX_LIMIT :: nat where "default_PREFIX_LIMIT = 64"

section \<open>Objects\<close>

text \<open>A float is the 64 bits that \<open>struct.pack("!d")\<close> writes.  \<open>PyOther\<close> stands for everything banana cannot send.\<close>

datatype py_object =
    PyList "py_object list" | PyTuple "py_object list" | PyInt int | PyFloat "64 word" | PyStr bytes | PyOther

datatype banana_error = BananaError | NotImplementedError | KeyError | AssertionError | TypeError | IndexError

record banana =
  bn_isClient :: bool
  bn_prefixLimit :: nat
  bn_currentDialect :: "bytes option"
  bn_listStack :: "(nat \<times> py_object list) list"
  bn_buffer :: bytes
  bn_received :: "py_object list"
  bn_ready :: bool
  bn_written :: "bytes list"
  bn_disconnected :: bool

text \<open>\<open>listStack[-1]\<close> is the head of \<open>bn_listStack\<close>.\<close>

definition knownDialects :: "bytes list" where "knownDialects = [''pb'', ''none'']"

definition bn_vocabulary :: "(bytes \<times> nat) list" where
  "bn_vocabulary =
     [(''None'', 1), (''class'', 2), (''dereference'', 3), (''reference'', 4), (''dictionary'', 5), (''function'', 6),
      (''instance'', 7), (''list'', 8), (''module'', 9), (''persistent'', 10), (''tuple'', 11), (''unpersistable'', 12),
      (''copy'', 13), (''cache'', 14), (''cached'', 15), (''remote'', 16), (''local'', 17), (''lcache'', 18),
      (''version'', 19), (''login'', 20), (''password'', 21), (''challenge'', 22), (''logged_in'', 23),
      (''not_logged_in'', 24), (''cachemessage'', 25), (''message'', 26), (''answer'', 27), (''error'', 28),
      (''decref'', 29), (''decache'', 30), (''uncache'', 31)]"

definition outgoingVocabulary :: "bytes \<Rightarrow> nat option" where
  "outgoingVocabulary = map_of bn_vocabulary"

definition incomingVocabulary :: "nat \<Rightarrow> bytes option" where
  "incomingVocabulary = map_of (map (\<lambda>(k, v). (v, k)) bn_vocabulary)"

section \<open>Encoding\<close>

text \<open>\<open>write\<close> appends to a stream that \<open>sendEncoded\<close> drops when \<open>_encode\<close> raises.\<close>

definition smallestLongInt :: "nat \<Rightarrow> int" where "smallestLongInt limit = - (2 ^ (limit * 7)) + 1"
definition largestLongInt :: "nat \<Rightarrow> int" where "largestLongInt limit = 2 ^ (limit * 7) - 1"
definition smallestInt :: int where "smallestInt = - (2 ^ 31)"
definition largestInt :: int where "largestInt = 2 ^ 31 - 1"

definition bn_encode_int :: "nat \<Rightarrow> int \<Rightarrow> bytes \<Rightarrow> (banana_error, bytes) outcome" where
  "bn_encode_int limit n io =
     (if n < smallestLongInt limit \<or> n > largestLongInt limit then Exc BananaError io
      else if n < smallestInt then Ok (io @ int2b128 (nat (- n)) @ [tb_LONGNEG])
      else if n < 0 then Ok (io @ int2b128 (nat (- n)) @ [tb_NEG])
      else if n \<le> largestInt then Ok (io @ int2b128 (nat n) @ [tb_INT])
      else Ok (io @ int2b128 (nat n) @ [tb_LONGINT]))"

definition bn_encode_str :: "bytes option \<Rightarrow> bytes \<Rightarrow> bytes \<Rightarrow> (banana_error, bytes) outcome" where
  "bn_encode_str dialect str io =
     (case (if dialect = Some ''pb'' then outgoingVocabulary str else None) of
        Some symbolID \<Rightarrow> Ok (io @ int2b128 symbolID @ [tb_VOCAB])
      | None \<Rightarrow>
          if length str > SIZE_LIMIT then Exc BananaError io
          else Ok (io @ int2b128 (length str) @ [tb_STRING] @ str))"

fun bn_encode :: "nat \<Rightarrow> bytes option \<Rightarrow> py_object \<Rightarrow> bytes \<Rightarrow> (banana_error, bytes) outcome"
  and bn_encode_all :: "nat \<Rightarrow> bytes option \<Rightarrow> py_object list \<Rightarrow> bytes \<Rightarrow> (banana_error, bytes) outcome" where
  "bn_encode limit dialect (PyList xs) io =
     (if length xs > SIZE_LIMIT then Exc BananaError io
      else bn_encode_all limit dialect xs (io @ int2b128 (length xs) @ [tb_LIST]))"
| "bn_encode limit dialect (PyTuple xs) io =
     (if length xs > SIZE_LIMIT then Exc BananaError io
      else bn_encode_all limit dialect xs (io @ int2b128 (length xs) @ [tb_LIST]))"
| "bn_encode limit dialect (PyInt n) io = bn_encode_int limit n io"
| "bn_encode limit dialect (PyFloat w) io = Ok (io @ [tb_FLOAT] @ be_bytes 8 (unat w))"
| "bn_encode limit dialect (PyStr str) io = bn_encode_str dialect str io"
| "bn_encode limit dialect PyOther io = Exc BananaError io"
| "bn_encode_all limit dialect [] io = Ok io"
| "bn_encode_all limit dialect (x # xs) io = and_then (bn_encode limit dialect x io) (bn_encode_all limit dialect xs)"

definition bn_sendEncoded :: "py_object \<Rightarrow> banana \<Rightarrow> (banana_error, banana) outcome" where
  "bn_sendEncoded obj s =
     (case bn_encode (bn_prefixLimit s) (bn_currentDialect s) obj [] of
        Ok io \<Rightarrow> Ok (s\<lparr>bn_written := bn_written s @ [io]\<rparr>)
      | Exc e io \<Rightarrow> Exc e s)"

section \<open>Connections and dialects\<close>

definition bn_new :: "bool \<Rightarrow> banana" where
  "bn_new isClient =
     \<lparr> bn_isClient = isClient, bn_prefixLimit = 0, bn_currentDialect = None, bn_listStack = [], bn_buffer = [],
       bn_received = [], bn_ready = False, bn_written = [], bn_disconnected = False \<rparr>"

definition bn_setPrefixLimit :: "nat \<Rightarrow> banana \<Rightarrow> banana" where
  "bn_setPrefixLimit limit s = s\<lparr>bn_prefixLimit := limit\<rparr>"

definition bn_selectDialect :: "bytes \<Rightarrow> banana \<Rightarrow> banana" where
  "bn_selectDialect dialect s = s\<lparr>bn_currentDialect := Some dialect, bn_ready := True\<rparr>"

definition bn_loseConnection :: "banana \<Rightarrow> banana" where
  "bn_loseConnection s = s\<lparr>bn_disconnected := True\<rparr>"

text \<open>\<open>limit\<close> is the global \<open>_PREFIX_LIMIT\<close>.\<close>

definition bn_connectionMade :: "nat \<Rightarrow> banana \<Rightarrow> (banana_error, banana) outcome" where
  "bn_connectionMade limit s =
     (let s = (bn_setPrefixLimit limit s)\<lparr>bn_currentDialect := None\<rparr>
      in if \<not> bn_isClient s then bn_sendEncoded (PyList (map PyStr knownDialects)) s else Ok s)"

text \<open>\<open>for serverVer in obj\<close>\<close>

fun py_elements :: "py_object \<Rightarrow> py_object list option" where
  "py_elements (PyList xs) = Some xs"
| "py_elements (PyTuple xs) = Some xs"
| "py_elements (PyStr str) = Some (map (\<lambda>c. PyStr [c]) str)"
| "py_elements _ = None"

fun known_dialect :: "py_object \<Rightarrow> bytes option" where
  "known_dialect (PyStr str) = (if str \<in> set knownDialects then Some str else None)"
| "known_dialect _ = None"

definition bn_negotiated :: "banana \<Rightarrow> bool" where
  "bn_negotiated s \<longleftrightarrow> bn_currentDialect s \<notin> {None, Some []}"

definition bn_callExpressionReceived :: "py_object \<Rightarrow> banana \<Rightarrow> (banana_error, banana) outcome" where
  "bn_callExpressionReceived obj s =
     (if bn_negotiated s then Ok (s\<lparr>bn_received := bn_received s @ [obj]\<rparr>)
      else if bn_isClient s then
        (case py_elements obj of
           None \<Rightarrow> Exc TypeError s
         | Some offered \<Rightarrow>
             (case List.map_filter known_dialect offered of
                serverVer # _ \<Rightarrow> map_state (bn_selectDialect serverVer) (bn_sendEncoded (PyStr serverVer) s)
              | [] \<Rightarrow> Ok (bn_loseConnection s)))
      else
        (case known_dialect obj of
           Some dialect \<Rightarrow> Ok (bn_selectDialect dialect s)
         | None \<Rightarrow> Ok (bn_loseConnection s)))"

definition bn_gotItem :: "py_object \<Rightarrow> banana \<Rightarrow> (banana_error, banana) outcome" where
  "bn_gotItem item s =
     (case bn_listStack s of
        (n, items) # stack \<Rightarrow> Ok (s\<lparr>bn_listStack := (n, items @ [item]) # stack\<rparr>)
      | [] \<Rightarrow> bn_callExpressionReceived item s)"

section \<open>Parsing\<close>

text \<open>
  One round of the loop in \<open>dataReceived\<close>: it returns, raises, or goes on with the rest of the
  buffer, after which lists that are complete are taken off the stack.
\<close>

datatype bn_round = Returns | Raises banana_error | GoesOn bytes "(banana_error, banana) outcome"

definition bn_typebyte :: "char \<Rightarrow> bytes \<Rightarrow> bytes \<Rightarrow> banana \<Rightarrow> bn_round" where
  "bn_typebyte typebyte digits rest s =
     (let num = b1282int digits
      in if typebyte = tb_LIST then
           (if num > SIZE_LIMIT then Raises BananaError
            else GoesOn rest (Ok (s\<lparr>bn_listStack := (num, []) # bn_listStack s\<rparr>)))
         else if typebyte = tb_STRING then
           (if num > SIZE_LIMIT then Raises BananaError
            else if length rest \<ge> num then GoesOn (drop num rest) (bn_gotItem (PyStr (take num rest)) s)
            else Returns)
         else if typebyte = tb_INT then GoesOn rest (bn_gotItem (PyInt (int num)) s)
         else if typebyte = tb_LONGINT then GoesOn rest (bn_gotItem (PyInt (int num)) s)
         else if typebyte = tb_LONGNEG then GoesOn rest (bn_gotItem (PyInt (- int num)) s)
         else if typebyte = tb_NEG then GoesOn rest (bn_gotItem (PyInt (- int num)) s)
         else if typebyte = tb_VOCAB then
           (case incomingVocabulary num of
              None \<Rightarrow> Raises KeyError
            | Some item \<Rightarrow>
                if bn_currentDialect s = Some ''pb'' then GoesOn rest (bn_gotItem (PyStr item) s)
                else Raises NotImplementedError)
         else if typebyte = tb_FLOAT then
           (if length rest \<ge> 8 then GoesOn (drop 8 rest) (bn_gotItem (PyFloat (of_nat (be_nat (take 8 rest)))) s)
            else Returns)
         else Raises NotImplementedError)"

definition bn_round_of :: "bytes \<Rightarrow> banana \<Rightarrow> bn_round" where
  "bn_round_of buffer s =
     (let num = takeWhile (\<lambda>c. \<not> high_bit_set c) buffer
      in case dropWhile (\<lambda>c. \<not> high_bit_set c) buffer of
           [] \<Rightarrow> if length num > bn_prefixLimit s then Raises BananaError else Returns
         | typebyte # rest \<Rightarrow>
             if length num > bn_prefixLimit s then Raises BananaError else bn_typebyte typebyte num rest s)"

text \<open>\<open>while listStack and len(listStack[-1][1]) == listStack[-1][0]\<close>\<close>

function bn_pop :: "banana \<Rightarrow> (banana_error, banana) outcome" where
  "bn_pop s =
     (case bn_listStack s of
        [] \<Rightarrow> Ok s
      | (n, items) # stack \<Rightarrow>
          if length items \<noteq> n then Ok s
          else case bn_gotItem (PyList items) (s\<lparr>bn_listStack := stack\<rparr>) of
                 Exc e t \<Rightarrow> Exc e t
               | Ok t \<Rightarrow> bn_pop t)"
  by pat_completeness auto

lemma bn_sendEncoded_stack: "bn_listStack (state_of (bn_sendEncoded obj s)) = bn_listStack s"
  by (simp add: bn_sendEncoded_def split: outcome.split)

lemma state_of_map_state [simp]: "state_of (map_state f r) = f (state_of r)"
  by (cases r) simp_all

lemma bn_callExpressionReceived_stack: "bn_listStack (state_of (bn_callExpressionReceived obj s)) = bn_listStack s"
  by (simp add: bn_callExpressionReceived_def bn_selectDialect_def bn_loseConnection_def bn_sendEncoded_stack split: option.split list.split)

lemma bn_gotItem_stack: "length (bn_listStack (state_of (bn_gotItem item s))) = length (bn_listStack s)"
  by (simp add: bn_gotItem_def bn_callExpressionReceived_stack split: list.split)

lemma bn_gotItem_Ok_stack: "bn_gotItem item s = Ok t \<Longrightarrow> length (bn_listStack t) = length (bn_listStack s)"
  using bn_gotItem_stack [of item s] by simp

termination bn_pop
  by (relation "measure (\<lambda>s. length (bn_listStack s))") (auto dest!: bn_gotItem_Ok_stack)

declare bn_pop.simps [simp del]

definition bn_finish :: "(banana_error, banana) outcome \<Rightarrow> (banana_error, banana) outcome" where
  "bn_finish r = and_then r bn_pop"

lemma bn_typebyte_shorter: "bn_typebyte typebyte num rest s = GoesOn buffer r \<Longrightarrow> length buffer \<le> length rest"
  by (auto simp: bn_typebyte_def Let_def split: if_splits option.splits)

lemma dropWhile_length: "dropWhile P xs = y # ys \<Longrightarrow> length ys < length xs"
  using length_dropWhile_le [of P xs] by simp

lemma bn_round_shorter: "bn_round_of buffer s = GoesOn rest r \<Longrightarrow> length rest < length buffer"
  by (auto simp: bn_round_of_def Let_def split: list.splits if_splits dest!: dropWhile_length bn_typebyte_shorter)

text \<open>\<open>while buffer\<close>; the assertion is the one of the source, which an empty chunk fails when something is buffered.\<close>

function bn_loop :: "bytes \<Rightarrow> banana \<Rightarrow> (banana_error, banana) outcome" where
  "bn_loop buffer s =
     (if buffer = [] then Ok (s\<lparr>bn_buffer := []\<rparr>)
      else if bn_buffer s = buffer then Exc AssertionError s
      else let s = s\<lparr>bn_buffer := buffer\<rparr>
        in case bn_round_of buffer s of
             Returns \<Rightarrow> Ok s
           | Raises e \<Rightarrow> Exc e s
           | GoesOn rest r \<Rightarrow>
               (case bn_finish r of
                  Exc e t \<Rightarrow> Exc e t
                | Ok t \<Rightarrow> bn_loop rest t))"
  by pat_completeness auto
termination
  by (relation "measure (length \<circ> fst)") (auto dest: bn_round_shorter)

declare bn_loop.simps [simp del]

definition bn_dataReceived :: "bytes \<Rightarrow> banana \<Rightarrow> (banana_error, banana) outcome" where
  "bn_dataReceived chunk s = bn_loop (bn_buffer s @ chunk) s"

section \<open>The module's own encoder and decoder\<close>

text \<open>\<open>_i\<close> is a connected client that has selected a dialect; \<open>decode\<close> leaves it with what it was left with.\<close>

definition bn_i :: banana where
  "bn_i = bn_selectDialect ''none'' (state_of (bn_connectionMade default_PREFIX_LIMIT (bn_new True)))"

definition bn_encode_top :: "py_object \<Rightarrow> banana \<Rightarrow> (banana_error + bytes)" where
  "bn_encode_top lst i =
     (case bn_sendEncoded lst (i\<lparr>bn_written := []\<rparr>) of Ok s \<Rightarrow> Inr (concat (bn_written s)) | Exc e s \<Rightarrow> Inl e)"

definition bn_decode_top :: "bytes \<Rightarrow> banana \<Rightarrow> (banana_error + py_object) \<times> banana" where
  "bn_decode_top st i =
     (let r = bn_dataReceived st (i\<lparr>bn_received := []\<rparr>); i = (state_of r)\<lparr>bn_buffer := []\<rparr>
      in case r of
           Exc e _ \<Rightarrow> (Inl e, i)
         | Ok _ \<Rightarrow> (case bn_received i of [] \<Rightarrow> Inl IndexError | x # _ \<Rightarrow> Inr x, i))"


section \<open>Numbers of base 128\<close>

fun b128_val :: "bytes \<Rightarrow> nat" where
  "b128_val [] = 0"
| "b128_val (c # cs) = of_char c + 128 * b128_val cs"

lemma b1282int_fold: "fst (foldl (\<lambda>(i, e) c. (i + of_char c * e, e * 2 ^ 7)) (i, e) st) = i + e * b128_val st"
  by (induction st arbitrary: i e) (simp_all add: algebra_simps)

lemma b1282int_val: "b1282int st = b128_val st"
  using b1282int_fold [of 0 1 st] by (simp add: b1282int_def)

lemma b128_digits_val [simp]: "b128_val (b128_digits n) = n"
proof (induction n rule: b128_digits.induct)
  case (1 n)
  then show ?case by (subst b128_digits.simps) simp
qed

lemma b1282int_int2b128 [simp]: "b1282int (int2b128 n) = n"
  by (simp add: b1282int_val int2b128_def)

lemma low_char [simp]: "n < (128::nat) \<Longrightarrow> \<not> high_bit_set (char_of n)"
  by (simp add: high_bit_set_def)

lemma b128_digits_low: "c \<in> set (b128_digits n) \<Longrightarrow> \<not> high_bit_set c"
proof (induction n rule: b128_digits.induct)
  case (1 n)
  from "1.prems" show ?case
    by (subst (asm) b128_digits.simps) (use "1.IH" in \<open>auto split: if_splits\<close>)
qed

lemma int2b128_low: "c \<in> set (int2b128 n) \<Longrightarrow> \<not> high_bit_set c"
  using b128_digits_low by (auto simp: int2b128_def split: if_splits)

lemma b128_digits_length: "n < 128 ^ k \<Longrightarrow> length (b128_digits n) \<le> k"
proof (induction k arbitrary: n)
  case (Suc k)
  then have "n div 128 < 128 ^ k" by (simp add: less_mult_imp_div_less mult.commute)
  with Suc.IH show ?case by (subst b128_digits.simps) simp
qed (simp add: b128_digits.simps)

lemma int2b128_length: "n < 128 ^ k \<Longrightarrow> 0 < k \<Longrightarrow> length (int2b128 n) \<le> k"
  by (simp add: int2b128_def b128_digits_length)

lemma b1282int_bound: "\<forall>c \<in> set st. \<not> high_bit_set c \<Longrightarrow> b1282int st < 128 ^ length st"
  unfolding b1282int_val
proof (induction st)
  case (Cons c st)
  then have "b128_val st < 128 ^ length st" "(of_char c :: nat) < 128" by (simp_all add: high_bit_set_def)
  then show ?case by simp
qed simp

section \<open>A round of the parser\<close>

lemma high_typebytes [simp]:
  "high_bit_set tb_LIST" "high_bit_set tb_INT" "high_bit_set tb_STRING" "high_bit_set tb_NEG"
  "high_bit_set tb_FLOAT" "high_bit_set tb_LONGINT" "high_bit_set tb_LONGNEG" "high_bit_set tb_VOCAB"
  by (simp_all add: high_bit_set_def)

text \<open>
  The parser's methods do not read what \<open>bn_buffer\<close> holds and what was written: a change of either
  commutes with them.
\<close>

lemma map_state_comp [simp]: "map_state f (map_state g r) = map_state (\<lambda>s. f (g s)) r"
  by (cases r) simp_all

fun bn_round_map :: "(banana \<Rightarrow> banana) \<Rightarrow> bn_round \<Rightarrow> bn_round" where
  "bn_round_map f (GoesOn rest r) = GoesOn rest (map_state f r)"
| "bn_round_map f r = r"

locale banana_blind =
  fixes U :: "banana \<Rightarrow> banana"
  assumes U_fields: "bn_isClient (U s) = bn_isClient s" "bn_prefixLimit (U s) = bn_prefixLimit s"
      "bn_currentDialect (U s) = bn_currentDialect s" "bn_listStack (U s) = bn_listStack s"
    and U_listStack: "(U s)\<lparr>bn_listStack := stack\<rparr> = U (s\<lparr>bn_listStack := stack\<rparr>)"
    and U_received: "(U s)\<lparr>bn_received := bn_received (U s) @ xs\<rparr> = U (s\<lparr>bn_received := bn_received s @ xs\<rparr>)"
    and U_written: "(U s)\<lparr>bn_written := bn_written (U s) @ ws\<rparr> = U (s\<lparr>bn_written := bn_written s @ ws\<rparr>)"
    and U_selectDialect: "bn_selectDialect d (U s) = U (bn_selectDialect d s)"
    and U_loseConnection: "bn_loseConnection (U s) = U (bn_loseConnection s)"
begin

lemma sendEncoded: "bn_sendEncoded obj (U s) = map_state U (bn_sendEncoded obj s)"
  by (simp add: bn_sendEncoded_def U_fields U_written split: outcome.split)

lemma callExpressionReceived: "bn_callExpressionReceived obj (U s) = map_state U (bn_callExpressionReceived obj s)"
  by (simp add: bn_callExpressionReceived_def bn_negotiated_def sendEncoded U_fields U_received U_selectDialect U_loseConnection
      split: option.split list.split)

lemma gotItem: "bn_gotItem item (U s) = map_state U (bn_gotItem item s)"
  by (simp add: bn_gotItem_def callExpressionReceived U_fields U_listStack split: list.split)

lemma pop: "bn_pop (U s) = map_state U (bn_pop s)"
proof (induction s rule: bn_pop.induct)
  case (1 s)
  show ?case
  proof (cases "bn_listStack s")
    case Nil
    then show ?thesis by (simp add: bn_pop.simps [of s] bn_pop.simps [of "U s"] U_fields)
  next
    case (Cons p stack)
    obtain n items where p: "p = (n, items)" by fastforce
    with Cons "1.IH" [OF Cons p [symmetric]] show ?thesis
      by (simp add: bn_pop.simps [of s] bn_pop.simps [of "U s"] U_fields U_listStack gotItem split: outcome.split)
  qed
qed

lemma finish: "bn_finish (map_state U r) = map_state U (bn_finish r)"
  by (cases r) (simp_all add: bn_finish_def pop)

lemma typebyte: "bn_typebyte c num rest (U s) = bn_round_map U (bn_typebyte c num rest s)"
  by (simp add: bn_typebyte_def Let_def gotItem U_fields U_listStack split: option.split)

lemma round: "bn_round_of buffer (U s) = bn_round_map U (bn_round_of buffer s)"
  by (cases "dropWhile (\<lambda>c. \<not> high_bit_set c) buffer")
    (simp_all add: bn_round_of_def Let_def typebyte U_fields del: dropWhile_eq_Nil_conv)


end

abbreviation bn_rebuffer :: "bytes \<Rightarrow> banana \<Rightarrow> banana" where
  "bn_rebuffer b \<equiv> bn_buffer_update (\<lambda>_. b)"

abbreviation bn_wrote :: "bytes list \<Rightarrow> banana \<Rightarrow> banana" where
  "bn_wrote ws \<equiv> bn_written_update (\<lambda>written. ws @ written)"

interpretation rebuffered: banana_blind "bn_rebuffer b" for b
  by unfold_locales (simp_all add: bn_selectDialect_def bn_loseConnection_def)

interpretation wrote: banana_blind "bn_wrote ws" for ws
  by unfold_locales (simp_all add: bn_selectDialect_def bn_loseConnection_def)

text \<open>Data that arrives later does not change a round that goes on.\<close>

lemma bn_typebyte_append:
  "bn_typebyte typebyte num rest s = GoesOn buffer r \<Longrightarrow> bn_typebyte typebyte num (rest @ y) s = GoesOn (buffer @ y) r"
  "bn_typebyte typebyte num rest s = Raises e \<Longrightarrow> bn_typebyte typebyte num (rest @ y) s = Raises e"
  by (auto simp: bn_typebyte_def Let_def split: if_splits option.splits)

lemma bn_round_cases:
  obtains (low) "\<forall>c \<in> set buffer. \<not> high_bit_set c"
    "bn_round_of buffer s = (if length buffer > bn_prefixLimit s then Raises BananaError else Returns)"
  | (typed) num typebyte rest where "buffer = num @ typebyte # rest" "\<forall>c \<in> set num. \<not> high_bit_set c" "high_bit_set typebyte"
proof (cases "dropWhile (\<lambda>c. \<not> high_bit_set c) buffer")
  case Nil
  then have "\<forall>c \<in> set buffer. \<not> high_bit_set c" by (simp add: dropWhile_eq_Nil_conv)
  moreover from this have all: "takeWhile (\<lambda>c. \<not> high_bit_set c) buffer = buffer" by (simp add: takeWhile_eq_all_conv)
  have "bn_round_of buffer s = (if length buffer > bn_prefixLimit s then Raises BananaError else Returns)"
    unfolding bn_round_of_def Let_def all Nil by simp
  ultimately show thesis by (intro low)
next
  case (Cons c rest)
  then have "buffer = takeWhile (\<lambda>c. \<not> high_bit_set c) buffer @ c # rest" by (metis takeWhile_dropWhile_id)
  moreover have "high_bit_set c" using Cons by (metis dropWhile_eq_Cons_conv)
  ultimately show thesis by (intro typed [of _ c rest]) (auto dest: set_takeWhileD)
qed

lemma bn_round_typed:
  assumes "\<forall>c \<in> set num. \<not> high_bit_set c" "high_bit_set typebyte"
  shows "bn_round_of (num @ typebyte # rest) s =
    (if length num > bn_prefixLimit s then Raises BananaError else bn_typebyte typebyte num rest s)"
proof -
  have "takeWhile (\<lambda>c. \<not> high_bit_set c) (num @ typebyte # rest) = num" "dropWhile (\<lambda>c. \<not> high_bit_set c) (num @ typebyte # rest) = typebyte # rest"
    using assms by simp_all
  then show ?thesis by (simp add: bn_round_of_def)
qed

lemma bn_round_append_GoesOn:
  assumes "bn_round_of x s = GoesOn buffer r"
  shows "bn_round_of (x @ y) s = GoesOn (buffer @ y) r"
proof (cases rule: bn_round_cases [where buffer = x and s = s])
  case (typed num typebyte rest)
  with assms show ?thesis by (simp add: bn_round_typed bn_typebyte_append split: if_splits)
qed (use assms in \<open>simp split: if_splits\<close>)

lemma bn_round_append_Raises:
  assumes "bn_round_of x s = Raises e"
  shows "\<exists>e. bn_round_of (x @ y) s = Raises e"
proof (cases rule: bn_round_cases [where buffer = x and s = s])
  case low
  with assms have long: "bn_prefixLimit s < length x" by (simp split: if_splits)
  show ?thesis
  proof (cases rule: bn_round_cases [where buffer = "x @ y" and s = s])
    case low
    with long show ?thesis by simp
  next
    case (typed num typebyte rest)
    have "length x \<le> length num"
    proof (rule ccontr)
      assume "\<not> ?thesis"
      then have "x ! length num = typebyte" using typed(1) by (metis not_le nth_append nth_append_length)
      with \<open>\<not> ?thesis\<close> \<open>\<forall>c \<in> set x. \<not> high_bit_set c\<close> typed(3) show False by (metis not_le nth_mem)
    qed
    with long typed show ?thesis by (simp add: bn_round_typed)
  qed
next
  case (typed num typebyte rest)
  with assms show ?thesis by (simp add: bn_round_typed bn_typebyte_append split: if_splits)
qed

section \<open>Chunk boundaries\<close>

definition bn_go :: "bytes \<Rightarrow> banana \<Rightarrow> (banana_error, banana) outcome" where
  "bn_go buffer s = bn_loop buffer (bn_rebuffer (tb_LIST # buffer) s)"

lemma bn_go_rebuffer [simp]: "bn_go buffer (bn_rebuffer b s) = bn_go buffer s"
  by (simp add: bn_go_def)

lemma bn_loop_go: "bn_buffer s \<noteq> buffer \<or> buffer = [] \<Longrightarrow> bn_loop buffer s = bn_go buffer s"
  unfolding bn_go_def by (subst (1 2) bn_loop.simps) simp

lemma bn_go_Nil [simp]: "bn_go [] s = Ok (bn_rebuffer [] s)"
  by (simp add: bn_go_def bn_loop.simps)

lemma bn_go_round:
  assumes "buffer \<noteq> []"
  shows "bn_go buffer s =
    (case bn_round_of buffer s of
       Returns \<Rightarrow> Ok (bn_rebuffer buffer s)
     | Raises e \<Rightarrow> Exc e (bn_rebuffer buffer s)
     | GoesOn rest r \<Rightarrow>
         (case bn_finish r of
            Exc e t \<Rightarrow> Exc e (bn_rebuffer buffer t)
          | Ok t \<Rightarrow> bn_go rest t))"
proof (cases "bn_round_of buffer s")
  case (GoesOn rest r)
  then have "length rest < length buffer" by (rule bn_round_shorter)
  then have rest: "bn_loop rest (bn_rebuffer buffer t) = bn_go rest t" for t
    by (subst bn_loop_go) auto
  show ?thesis
    unfolding bn_go_def [of buffer] using assms GoesOn
    by (subst bn_loop.simps) (simp add: rebuffered.round rebuffered.finish rest split: outcome.split)
qed (use assms in \<open>simp_all add: bn_go_def bn_loop.simps rebuffered.round\<close>)

lemma bn_dataReceived_go:
  "chunk \<noteq> [] \<or> bn_buffer s = [] \<Longrightarrow> bn_dataReceived chunk s = bn_go (bn_buffer s @ chunk) s"
  unfolding bn_dataReceived_def by (intro bn_loop_go) auto

lemma bn_dataReceived_Nil: "bn_buffer s \<noteq> [] \<Longrightarrow> bn_dataReceived [] s = Exc AssertionError s"
  by (simp add: bn_dataReceived_def bn_loop.simps)

lemma bn_go_append:
  "bn_go (x @ y) s = Ok t \<Longrightarrow> \<exists>u. bn_go x s = Ok u \<and> bn_go (bn_buffer u @ y) u = Ok t"
proof (induction "length x" arbitrary: x s rule: less_induct)
  case less
  show ?case
  proof (cases "x = []")
    case False
    show ?thesis
    proof (cases "bn_round_of x s")
      case Returns
      with False less.prems show ?thesis by (simp add: bn_go_round [of x])
    next
      case (Raises e)
      with bn_round_append_Raises [of x s e y] obtain e' where "bn_round_of (x @ y) s = Raises e'" by blast
      with False less.prems show ?thesis by (simp add: bn_go_round [of "x @ y"])
    next
      case (GoesOn rest r)
      from bn_round_append_GoesOn [OF this, of y] False less.prems obtain v where
        v: "bn_finish r = Ok v" "bn_go (rest @ y) v = Ok t" by (auto simp: bn_go_round [of "x @ y"] split: outcome.splits)
      from less.hyps [OF bn_round_shorter [OF GoesOn] v(2)] v(1) GoesOn False show ?thesis
        by (simp add: bn_go_round [of x])
    qed
  qed (use less.prems in simp)
qed

lemma bn_go_wrote: "bn_go buffer (bn_wrote ws s) = map_state (bn_wrote ws) (bn_go buffer s)"
proof (induction "length buffer" arbitrary: buffer s rule: less_induct)
  case less
  show ?case
  proof (cases "buffer = []")
    case False
    show ?thesis
    proof (cases "bn_round_of buffer s")
      case (GoesOn rest r)
      from less.hyps [OF bn_round_shorter [OF this]] GoesOn False show ?thesis
        by (simp add: bn_go_round wrote.round wrote.finish split: outcome.split)
    qed (use False in \<open>simp_all add: bn_go_round wrote.round\<close>)
  qed simp
qed

definition bn_recv :: "bytes \<Rightarrow> banana \<Rightarrow> banana" where
  "bn_recv chunk s = state_of (bn_dataReceived chunk s)"

definition bn_safe :: "bytes \<Rightarrow> banana \<Rightarrow> bool" where
  "bn_safe d s \<longleftrightarrow> d = [] \<or> (\<exists>t. bn_dataReceived d s = Ok t)"

text \<open>What the parser has done, without what it has written meanwhile.\<close>

definition bn_view :: "banana \<Rightarrow> banana" where
  "bn_view s = s\<lparr>bn_written := []\<rparr>"

lemma bn_recv_Nil [simp]: "bn_recv [] s = s"
  by (cases "bn_buffer s = []") (simp_all add: bn_recv_def bn_dataReceived_go bn_dataReceived_Nil)

lemma bn_wrote_view: "s = bn_wrote (bn_written s) (bn_view s)"
  by (simp add: bn_view_def)

lemma bn_dataReceived_wrote: "bn_dataReceived d (bn_wrote ws s) = map_state (bn_wrote ws) (bn_dataReceived d s)"
  by (cases "d \<noteq> [] \<or> bn_buffer s = []") (simp_all add: bn_dataReceived_go bn_go_wrote bn_dataReceived_Nil)

lemma bn_dataReceived_view:
  "(\<exists>t. bn_dataReceived d s = Ok t) = (\<exists>t. bn_dataReceived d (bn_view s) = Ok t)"
  "bn_view (bn_recv d s) = bn_view (bn_recv d (bn_view s))"
proof -
  have "bn_dataReceived d s = map_state (bn_wrote (bn_written s)) (bn_dataReceived d (bn_view s))"
    using bn_dataReceived_wrote [of d "bn_written s" "bn_view s"] bn_wrote_view [of s] by simp
  then show "(\<exists>t. bn_dataReceived d s = Ok t) = (\<exists>t. bn_dataReceived d (bn_view s) = Ok t)"
    "bn_view (bn_recv d s) = bn_view (bn_recv d (bn_view s))"
    by (cases "bn_dataReceived d (bn_view s)"; simp add: bn_recv_def bn_view_def)+
qed

lemma bn_safe_append:
  assumes "bn_safe (x @ y) s"
  shows "bn_safe x s \<and> bn_safe y (bn_recv x s) \<and> bn_recv (x @ y) s = bn_recv y (bn_recv x s)"
proof (cases "x = [] \<or> y = []")
  case False
  with assms obtain t where t: "bn_go ((bn_buffer s @ x) @ y) s = Ok t" by (auto simp: bn_safe_def bn_dataReceived_go)
  from bn_go_append [OF this] obtain u where "bn_go (bn_buffer s @ x) s = Ok u" "bn_go (bn_buffer u @ y) u = Ok t" by blast
  with t False show ?thesis by (simp add: bn_safe_def bn_recv_def bn_dataReceived_go)
qed (use assms in \<open>auto simp: bn_safe_def\<close>)

interpretation bn_stream: stream_receiver bn_recv bn_view bn_safe
proof
  fix s u d assume "bn_view s = bn_view u"
  with bn_dataReceived_view [of d s] bn_dataReceived_view [of d u]
  show "bn_safe d s = bn_safe d u \<and> bn_view (bn_recv d s) = bn_view (bn_recv d u)" by (simp add: bn_safe_def)
qed (use bn_safe_append in auto)

section \<open>What was encoded is received\<close>

text \<open>A tuple is received as a list.\<close>

fun bn_plain :: "py_object \<Rightarrow> py_object" where
  "bn_plain (PyList xs) = PyList (map bn_plain xs)"
| "bn_plain (PyTuple xs) = PyList (map bn_plain xs)"
| "bn_plain x = x"

text \<open>The bytes \<open>b\<close> have the parser receive \<open>item\<close>, whatever comes after them.\<close>

definition bn_hears :: "nat \<Rightarrow> bytes option \<Rightarrow> banana \<Rightarrow> bool" where
  "bn_hears limit dialect s \<longleftrightarrow> bn_prefixLimit s = limit \<and> (dialect = Some ''pb'' \<longrightarrow> bn_currentDialect s = Some ''pb'')"

definition bn_takes :: "nat \<Rightarrow> bytes option \<Rightarrow> bytes \<Rightarrow> py_object \<Rightarrow> bool" where
  "bn_takes limit dialect b item \<longleftrightarrow>
     (\<forall>rest s t. bn_hears limit dialect s \<longrightarrow> bn_finish (bn_gotItem item s) = Ok t \<longrightarrow> bn_go (b @ rest) s = bn_go rest t)"

lemma bn_hears_listStack [simp]: "bn_hears limit dialect (s\<lparr>bn_listStack := stack\<rparr>) = bn_hears limit dialect s"
  by (simp add: bn_hears_def)

lemma bn_listStack_same [simp]: "s\<lparr>bn_listStack := bn_listStack s\<rparr> = s"
  by (cases s) simp

lemma bn_finish_simps:
  "bn_listStack s = [] \<Longrightarrow> bn_finish (Ok s) = Ok s"
  "bn_listStack s = (n, items) # stack \<Longrightarrow>
     bn_finish (Ok s) = (if length items \<noteq> n then Ok s else bn_finish (bn_gotItem (PyList items) (s\<lparr>bn_listStack := stack\<rparr>)))"
  by (simp_all add: bn_finish_def bn_pop.simps [of s] split: outcome.split)

lemma bn_takesI:
  assumes "\<forall>c \<in> set num. \<not> high_bit_set c" "high_bit_set c" "length num \<le> limit"
    and "\<And>rest s. bn_hears limit dialect s \<Longrightarrow> bn_typebyte c num (b @ rest) s = GoesOn rest (bn_gotItem item s)"
  shows "bn_takes limit dialect (num @ c # b) item"
  unfolding bn_takes_def
proof (intro allI impI)
  fix rest s t assume s: "bn_hears limit dialect s" and t: "bn_finish (bn_gotItem item s) = Ok t"
  have "bn_round_of (num @ c # b @ rest) s = GoesOn rest (bn_gotItem item s)"
    using assms(1-3) assms(4) [OF s] s by (simp add: bn_round_typed bn_hears_def)
  with t show "bn_go ((num @ c # b) @ rest) s = bn_go rest t" by (simp add: bn_go_round)
qed

lemma SIZE_LIMIT_b128: "n \<le> SIZE_LIMIT \<Longrightarrow> n < 128 ^ 3"
  by (simp add: SIZE_LIMIT_def)

lemma size_length:
  assumes "n \<le> SIZE_LIMIT" "3 \<le> limit"
  shows "length (int2b128 n) \<le> limit"
  using int2b128_length [OF SIZE_LIMIT_b128 [OF assms(1)]] assms(2) by simp

lemma bn_vocabulary_inverse: "outgoingVocabulary str = Some n \<Longrightarrow> incomingVocabulary n = Some str \<and> n < 128"
proof -
  have "\<forall>(k, v) \<in> set bn_vocabulary. incomingVocabulary v = Some k \<and> v < 128"
    by (simp add: bn_vocabulary_def incomingVocabulary_def)
  moreover assume "outgoingVocabulary str = Some n"
  ultimately show ?thesis unfolding outgoingVocabulary_def by (auto dest!: map_of_SomeD)
qed

lemma bn_encode_str_takes:
  assumes "3 \<le> limit" "bn_encode_str dialect str io = Ok t"
  shows "\<exists>b. t = io @ b \<and> bn_takes limit dialect b (PyStr str)"
proof (cases "dialect = Some ''pb'' \<and> outgoingVocabulary str \<noteq> None")
  case True
  then obtain n where n: "outgoingVocabulary str = Some n" "dialect = Some ''pb''" by blast
  with bn_vocabulary_inverse have inv: "incomingVocabulary n = Some str" "n < 128 ^ 1" by fastforce+
  have "length (int2b128 n) \<le> limit" using int2b128_length [OF inv(2)] assms(1) by simp
  then have "bn_takes limit dialect (int2b128 n @ tb_VOCAB # []) (PyStr str)"
    using n(2) inv(1) by (intro bn_takesI) (auto dest: int2b128_low simp: bn_typebyte_def bn_hears_def)
  with n assms(2) show ?thesis by (auto simp: bn_encode_str_def)
next
  case False
  with assms(2) have t: "length str \<le> SIZE_LIMIT" "t = io @ int2b128 (length str) @ tb_STRING # str"
    by (auto simp: bn_encode_str_def split: option.splits if_splits)
  have "bn_takes limit dialect (int2b128 (length str) @ tb_STRING # str) (PyStr str)"
    using t(1) size_length [OF t(1) assms(1)] by (intro bn_takesI) (auto dest: int2b128_low simp: bn_typebyte_def)
  with t(2) show ?thesis by blast
qed

lemma bn_encode_int_takes:
  assumes "3 \<le> limit" "bn_encode_int limit n io = Ok t"
  shows "\<exists>b. t = io @ b \<and> bn_takes limit dialect b (PyInt n)"
proof -
  have "(2::int) ^ (limit * 7) = (2 ^ 7) ^ limit" by (simp only: power_mult [symmetric] mult.commute)
  then have pow: "(2::int) ^ (limit * 7) = int (128 ^ limit)" by simp
  from assms(2) have "nat \<bar>n\<bar> < 128 ^ limit"
    unfolding bn_encode_int_def smallestLongInt_def largestLongInt_def pow by (auto split: if_splits)
  then have len: "length (int2b128 (nat \<bar>n\<bar>)) \<le> limit" using int2b128_length assms(1) by simp
  have "bn_takes limit dialect (int2b128 (nat \<bar>n\<bar>) @ c # []) (PyInt n)"
    if "c \<in> (if n < 0 then {tb_LONGNEG, tb_NEG} else {tb_INT, tb_LONGINT})" for c
    using that len by (intro bn_takesI) (auto dest: int2b128_low simp: bn_typebyte_def split: if_splits)
  with assms(2) show ?thesis
    by (auto simp: bn_encode_int_def smallestInt_def split: if_splits)
qed

lemma bn_float_takes: "bn_takes limit dialect (tb_FLOAT # be_bytes 8 (unat w)) (PyFloat w)"
proof -
  have "unat w < 2 ^ LENGTH(64)" by (rule unsigned_less)
  then have "unat w < 256 ^ 8" by simp
  then have "of_nat (be_nat (be_bytes 8 (unat w))) = w" by (simp add: be_nat_be_bytes del: be_bytes.simps)
  then have "bn_takes limit dialect ([] @ tb_FLOAT # be_bytes 8 (unat w)) (PyFloat w)"
    by (intro bn_takesI) (auto simp: bn_typebyte_def)
  then show ?thesis by simp
qed

text \<open>The elements of a list that is on the stack.\<close>

definition bn_takes_all :: "nat \<Rightarrow> bytes option \<Rightarrow> bytes \<Rightarrow> py_object list \<Rightarrow> bool" where
  "bn_takes_all limit dialect b items \<longleftrightarrow>
     (\<forall>rest s t heard stack. bn_hears limit dialect s \<longrightarrow> bn_listStack s = (length heard + length items, heard) # stack \<longrightarrow>
        bn_finish (bn_gotItem (PyList (heard @ items)) (s\<lparr>bn_listStack := stack\<rparr>)) = Ok t \<longrightarrow>
        items \<noteq> [] \<longrightarrow> bn_go (b @ rest) s = bn_go rest t)"

lemma bn_takes_list:
  assumes "3 \<le> limit" "length items \<le> SIZE_LIMIT" "bn_takes_all limit dialect b items" "items = [] \<Longrightarrow> b = []"
  shows "bn_takes limit dialect (int2b128 (length items) @ tb_LIST # b) (PyList items)"
  unfolding bn_takes_def
proof (intro allI impI)
  fix rest s t assume s: "bn_hears limit dialect s" and t: "bn_finish (bn_gotItem (PyList items) s) = Ok t"
  let ?s = "s\<lparr>bn_listStack := (length items, []) # bn_listStack s\<rparr>"
  have "bn_round_of (int2b128 (length items) @ tb_LIST # b @ rest) s = GoesOn (b @ rest) (Ok ?s)"
    using s size_length [OF assms(2,1)] assms(2) int2b128_low by (subst bn_round_typed) (auto simp: bn_hears_def bn_typebyte_def)
  then have go: "bn_go ((int2b128 (length items) @ tb_LIST # b) @ rest) s = (case bn_finish (Ok ?s) of
      Exc e t \<Rightarrow> Exc e (bn_rebuffer (int2b128 (length items) @ tb_LIST # b @ rest) t) | Ok t \<Rightarrow> bn_go (b @ rest) t)"
    by (simp add: bn_go_round)
  have pop: "bn_finish (Ok ?s) = (if items \<noteq> [] then Ok ?s else bn_finish (bn_gotItem (PyList []) s))"
    by (subst bn_finish_simps(2)) auto
  show "bn_go ((int2b128 (length items) @ tb_LIST # b) @ rest) s = bn_go rest t"
  proof (cases "items = []")
    case True
    with t pop have "bn_finish (Ok ?s) = Ok t" by simp
    with go assms(4) [OF True] show ?thesis by simp
  next
    case False
    with t s assms(3) have "bn_go (b @ rest) ?s = bn_go rest t"
      unfolding bn_takes_all_def by (elim allE [of _ rest] allE [of _ ?s] allE [of _ t] allE [of _ "[]"] allE) auto
    with False show ?thesis by (simp only: go pop) simp
  qed
qed

lemma bn_takes_Cons:
  assumes "bn_takes limit dialect b item" "bn_takes_all limit dialect b' items" "items = [] \<Longrightarrow> b' = []"
  shows "bn_takes_all limit dialect (b @ b') (item # items)"
  unfolding bn_takes_all_def
proof (intro allI impI)
  fix rest s t heard stack
  assume s: "bn_hears limit dialect s" "bn_listStack s = (length heard + length (item # items), heard) # stack"
    and t: "bn_finish (bn_gotItem (PyList (heard @ item # items)) (s\<lparr>bn_listStack := stack\<rparr>)) = Ok t"
  let ?s = "s\<lparr>bn_listStack := (length heard + length (item # items), heard @ [item]) # stack\<rparr>"
  have got: "bn_gotItem item s = Ok ?s" using s(2) by (simp add: bn_gotItem_def)
  have pop: "bn_finish (Ok ?s) = (if items \<noteq> [] then Ok ?s else bn_finish (bn_gotItem (PyList (heard @ [item])) (s\<lparr>bn_listStack := stack\<rparr>)))"
    by (subst bn_finish_simps(2)) auto
  have first: "bn_go (b @ b' @ rest) s = bn_go (b' @ rest) u" if "bn_finish (bn_gotItem item s) = Ok u" for u
    using assms(1) s(1) that by (simp add: bn_takes_def)
  show "bn_go ((b @ b') @ rest) s = bn_go rest t"
  proof (cases "items = []")
    case True
    with t got pop have "bn_finish (bn_gotItem item s) = Ok t" by simp
    with first [of t] assms(3) [OF True] show ?thesis by simp
  next
    case False
    then have "bn_finish (Ok ?s) = Ok ?s" by (simp only: pop) simp
    with first [of ?s] have "bn_go ((b @ b') @ rest) s = bn_go (b' @ rest) ?s" by (simp add: got)
    also have "\<dots> = bn_go rest t"
    proof -
      have "bn_listStack ?s = (length (heard @ [item]) + length items, heard @ [item]) # stack" by simp
      moreover have "bn_finish (bn_gotItem (PyList ((heard @ [item]) @ items)) (?s\<lparr>bn_listStack := stack\<rparr>)) = Ok t" using t by simp
      moreover have "bn_hears limit dialect ?s" using s(1) by simp
      ultimately show ?thesis using assms(2) False unfolding bn_takes_all_def by blast
    qed
    finally show ?thesis .
  qed
qed

lemma bn_encode_takes:
  "3 \<le> limit \<Longrightarrow> bn_encode limit dialect x io = Ok t \<Longrightarrow> \<exists>b. t = io @ b \<and> bn_takes limit dialect b (bn_plain x)"
  "3 \<le> limit \<Longrightarrow> bn_encode_all limit dialect xs io = Ok t \<Longrightarrow>
     \<exists>b. t = io @ b \<and> bn_takes_all limit dialect b (map bn_plain xs) \<and> (xs = [] \<longrightarrow> b = [])"
proof (induction limit dialect x io and limit dialect xs io arbitrary: t and t rule: bn_encode_bn_encode_all.induct)
  case (1 limit dialect xs io)
  then obtain b where "t = io @ int2b128 (length xs) @ [tb_LIST] @ b" "bn_takes_all limit dialect b (map bn_plain xs)" "xs = [] \<longrightarrow> b = []"
    by (fastforce split: if_splits)
  with 1 bn_takes_list [of limit "map bn_plain xs" dialect b] show ?case by (auto split: if_splits)
next
  case (2 limit dialect xs io)
  then obtain b where "t = io @ int2b128 (length xs) @ [tb_LIST] @ b" "bn_takes_all limit dialect b (map bn_plain xs)" "xs = [] \<longrightarrow> b = []"
    by (fastforce split: if_splits)
  with 2 bn_takes_list [of limit "map bn_plain xs" dialect b] show ?case by (auto split: if_splits)
next
  case (8 limit dialect x xs io)
  from 8(4) obtain u where u: "bn_encode limit dialect x io = Ok u" "bn_encode_all limit dialect xs u = Ok t"
    by (cases "bn_encode limit dialect x io") auto
  from 8(1) [OF 8(3) u(1)] obtain b where b: "u = io @ b" "bn_takes limit dialect b (bn_plain x)" by blast
  from 8(2) [OF 8(3) u(2)] obtain b' where b': "t = u @ b'" "bn_takes_all limit dialect b' (map bn_plain xs)" "xs = [] \<longrightarrow> b' = []" by blast
  from bn_takes_Cons [OF b(2) b'(2)] b(1) b'(1,3) show ?case by auto
qed (auto simp: bn_encode_str_takes bn_encode_int_takes bn_float_takes bn_takes_all_def)

text \<open>A call of \<open>dataReceived\<close> for each chunk, until one raises.\<close>

fun bn_receive :: "bytes list \<Rightarrow> banana \<Rightarrow> (banana_error, banana) outcome" where
  "bn_receive [] s = Ok s"
| "bn_receive (chunk # chunks) s = and_then (bn_dataReceived chunk s) (bn_receive chunks)"

lemma bn_receive_concat:
  assumes "[] \<notin> set cs" "cs \<noteq> []" "bn_dataReceived (concat cs) s = Ok t"
  shows "bn_receive cs s = Ok t"
  using assms
proof (induction cs arbitrary: s)
  case (Cons c cs)
  then have "bn_safe (c @ concat cs) s" by (simp add: bn_safe_def)
  from bn_safe_append [OF this] have safe: "bn_safe c s" "bn_safe (concat cs) (bn_recv c s)" and
    recv: "bn_recv (concat cs) (bn_recv c s) = t" using Cons.prems(3) by (simp_all add: bn_recv_def)
  from safe(1) Cons.prems(1) have c: "bn_dataReceived c s = Ok (bn_recv c s)" by (auto simp: bn_safe_def bn_recv_def)
  show ?case
  proof (cases "cs = []")
    case False
    then have "concat cs \<noteq> []" using Cons.prems(1) by (cases cs) auto
    with safe(2) recv have "bn_dataReceived (concat cs) (bn_recv c s) = Ok t" by (auto simp: bn_safe_def bn_recv_def)
    with Cons.IH False Cons.prems(1) c show ?thesis by simp
  qed (use c recv in simp)
qed simp

definition bn_boundary :: "nat \<Rightarrow> bytes option \<Rightarrow> banana \<Rightarrow> bool" where
  "bn_boundary limit dialect s \<longleftrightarrow> bn_hears limit dialect s \<and> bn_negotiated s \<and> bn_listStack s = [] \<and> bn_buffer s = []"

text \<open>What is written for a sequence of objects that can be sent.\<close>

definition bn_encoding :: "nat \<Rightarrow> bytes option \<Rightarrow> py_object \<Rightarrow> bytes" where
  "bn_encoding limit dialect x = state_of (bn_encode limit dialect x [])"

definition bn_sent :: "nat \<Rightarrow> bytes option \<Rightarrow> py_object \<Rightarrow> bool" where
  "bn_sent limit dialect x \<longleftrightarrow> bn_encode limit dialect x [] = Ok (bn_encoding limit dialect x)"

lemma bn_encoding_takes:
  "3 \<le> limit \<Longrightarrow> bn_sent limit dialect x \<Longrightarrow> bn_takes limit dialect (bn_encoding limit dialect x) (bn_plain x)"
  using bn_encode_takes(1) [of limit dialect x "[]"] by (auto simp: bn_sent_def)

lemma bn_boundary_received [simp]: "bn_boundary limit dialect (s\<lparr>bn_received := xs\<rparr>) = bn_boundary limit dialect s"
  by (simp add: bn_boundary_def bn_hears_def bn_negotiated_def)

lemma bn_go_encodings:
  assumes "3 \<le> limit" "\<forall>x \<in> set xs. bn_sent limit dialect x"
  shows "bn_boundary limit dialect s \<Longrightarrow>
    bn_go (concat (map (bn_encoding limit dialect) xs) @ rest) s = bn_go rest (s\<lparr>bn_received := bn_received s @ map bn_plain xs\<rparr>)"
  using assms(2)
proof (induction xs arbitrary: s)
  case (Cons x xs)
  let ?t = "s\<lparr>bn_received := bn_received s @ [bn_plain x]\<rparr>"
  have "bn_finish (bn_gotItem (bn_plain x) s) = Ok ?t"
    using Cons.prems(1) by (simp add: bn_boundary_def bn_gotItem_def bn_callExpressionReceived_def bn_finish_simps)
  with bn_encoding_takes [OF assms(1), of dialect x] Cons.prems have
    "bn_go (bn_encoding limit dialect x @ y) s = bn_go y ?t" for y by (simp add: bn_takes_def bn_boundary_def)
  with Cons show ?case by simp
qed simp

text \<open>
  C31: banana is a faithful encoding.  Objects that \<open>sendEncoded\<close> accepts (lists and tuples of any depth,
  integers, floats and strings, with or without the vocabulary of a dialect) are received one for
  one by a peer with the same prefix limit, in whatever pieces their bytes arrive: no piece makes
  it raise, every object is equal to the one that was sent, with lists in the place of tuples,
  and the parser is left as it was, with nothing buffered and no list open.
\<close>
theorem banana_roundtrip:
  assumes "3 \<le> limit" "\<forall>x \<in> set xs. bn_encode limit dialect x [] = Ok (enc x)"
    and "bn_boundary limit dialect s" "[] \<notin> set chunks" "concat chunks = concat (map enc xs)"
  shows "bn_receive chunks s = Ok (s\<lparr>bn_received := bn_received s @ map bn_plain xs\<rparr>)"
proof -
  let ?t = "s\<lparr>bn_received := bn_received s @ map bn_plain xs\<rparr>"
  have enc: "\<forall>x \<in> set xs. bn_sent limit dialect x \<and> enc x = bn_encoding limit dialect x"
    using assms(2) by (simp add: bn_sent_def bn_encoding_def)
  then have "map enc xs = map (bn_encoding limit dialect) xs" by simp
  with assms(5) have chunks: "concat chunks = concat (map (bn_encoding limit dialect) xs)" by simp
  have "bn_go (concat chunks @ []) s = bn_go [] ?t"
    unfolding chunks using assms(1,3) enc by (intro bn_go_encodings) simp_all
  then have go: "bn_go (concat chunks) s = Ok ?t" "bn_buffer s = []" using assms(3) by (simp_all add: bn_boundary_def)
  show ?thesis
  proof (cases "chunks = []")
    case True
    moreover have "bn_rebuffer [] s = s" using go(2) by (cases s) simp
    ultimately show ?thesis using go(1) by simp
  next
    case False
    with go assms(4) show ?thesis by (intro bn_receive_concat) (simp_all add: bn_dataReceived_go)
  qed
qed

definition bn_demo :: "py_object list" where
  "bn_demo = [PyTuple [PyStr ''message'', PyInt (- 5), PyList []], PyStr ''hi'']"

lemma banana_roundtrip_witness:
  "bn_receive [[CHR 0x03], [CHR 0x80, CHR 0x1A, CHR 0x87, CHR 0x05], [CHR 0x83, CHR 0x00, CHR 0x80, CHR 0x02, CHR 0x82, CHR 0x68], [CHR 0x69]]
     (bn_selectDialect ''pb'' (bn_setPrefixLimit 64 (bn_new True))) =
   Ok ((bn_selectDialect ''pb'' (bn_setPrefixLimit 64 (bn_new True)))\<lparr>bn_received := [PyList [PyStr ''message'', PyInt (- 5), PyList []], PyStr ''hi'']\<rparr>)"
proof -
  let ?enc = "bn_encoding 64 (Some ''pb'')"
  have chars: "char_of (3::nat) = CHR 0x03" "char_of (26::nat) = CHR 0x1A" "char_of (5::nat) = CHR 0x05" "char_of (0::nat) = CHR 0x00"
    "char_of (Suc (Suc 0)) = CHR 0x02" by code_simp+
  have "\<forall>x \<in> set bn_demo. bn_encode 64 (Some ''pb'') x [] = Ok (?enc x)"
    "concat (map ?enc bn_demo) = [CHR 0x03, CHR 0x80, CHR 0x1A, CHR 0x87, CHR 0x05, CHR 0x83, CHR 0x00, CHR 0x80, CHR 0x02, CHR 0x82, CHR 0x68, CHR 0x69]"
    by (simp_all add: bn_demo_def bn_encoding_def bn_encode_str_def bn_encode_int_def outgoingVocabulary_def bn_vocabulary_def SIZE_LIMIT_def
        smallestLongInt_def largestLongInt_def smallestInt_def largestInt_def int2b128_def b128_digits.simps chars)
  then show ?thesis
    using banana_roundtrip [of 64 bn_demo "Some ''pb''" ?enc "bn_selectDialect ''pb'' (bn_setPrefixLimit 64 (bn_new True))"
      "[[CHR 0x03], [CHR 0x80, CHR 0x1A, CHR 0x87, CHR 0x05], [CHR 0x83, CHR 0x00, CHR 0x80, CHR 0x02, CHR 0x82, CHR 0x68], [CHR 0x69]]"]
    by (simp add: bn_boundary_def bn_hears_def bn_negotiated_def bn_selectDialect_def bn_setPrefixLimit_def bn_new_def bn_demo_def)
qed

section \<open>What a call changes\<close>

text \<open>
  Nothing received is lost; the dialect is selected once, from those that are known, and a client
  tells the server so; nothing else is written.
\<close>

definition bn_evolves :: "banana \<Rightarrow> banana \<Rightarrow> bool" where
  "bn_evolves s t \<longleftrightarrow> bn_isClient t = bn_isClient s \<and> bn_prefixLimit t = bn_prefixLimit s \<and>
     prefix (bn_received s) (bn_received t) \<and> (bn_disconnected s \<longrightarrow> bn_disconnected t) \<and>
     (bn_currentDialect t = bn_currentDialect s \<and> bn_ready t = bn_ready s \<and> bn_written t = bn_written s \<or>
      bn_currentDialect s = None \<and> (\<exists>v \<in> set knownDialects. bn_currentDialect t = Some v \<and> bn_ready t \<and>
        bn_written t = bn_written s @ (if bn_isClient s then [bn_encoding (bn_prefixLimit s) None (PyStr v)] else [])))"

lemma bn_evolves_refl [simp]: "bn_evolves s s"
  by (simp add: bn_evolves_def)

lemma bn_evolves_trans: "bn_evolves s t \<Longrightarrow> bn_evolves t u \<Longrightarrow> bn_evolves s u"
  unfolding bn_evolves_def by (elim conjE) (intro conjI; fastforce intro: prefix_order.order_trans)

lemma bn_evolves_listStack [simp]: "bn_evolves s (t\<lparr>bn_listStack := stack\<rparr>) = bn_evolves s t"
    "bn_evolves (s\<lparr>bn_listStack := stack\<rparr>) t = bn_evolves s t" "bn_evolves s (bn_rebuffer b t) = bn_evolves s t"
  by (simp_all add: bn_evolves_def)

text \<open>The empty string is no dialect.\<close>

abbreviation bn_proper :: "banana \<Rightarrow> bool" where
  "bn_proper s \<equiv> bn_currentDialect s \<noteq> Some []"

lemma bn_evolves_proper: "bn_evolves s t \<Longrightarrow> bn_proper s \<Longrightarrow> bn_proper t"
  by (auto simp: bn_evolves_def knownDialects_def)

lemma known_dialect_Some: "known_dialect x = Some v \<longleftrightarrow> x = PyStr v \<and> v \<in> set knownDialects"
  by (cases x) auto

lemma bn_encode_known: "v \<in> set knownDialects \<Longrightarrow> bn_sent limit None (PyStr v)"
  by (auto simp: bn_sent_def bn_encoding_def bn_encode_str_def knownDialects_def SIZE_LIMIT_def)

lemma bn_callExpressionReceived_evolves:
  assumes "bn_callExpressionReceived obj s = Ok t" "bn_proper s"
  shows "bn_evolves s t"
proof (cases "bn_negotiated s")
  case True
  with assms show ?thesis by (auto simp: bn_callExpressionReceived_def bn_evolves_def)
next
  case False
  with assms(2) have none: "bn_currentDialect s = None" by (simp add: bn_negotiated_def)
  show ?thesis
  proof (cases "bn_isClient s")
    case False
    with \<open>\<not> bn_negotiated s\<close> none assms(1) show ?thesis
      by (auto simp: bn_callExpressionReceived_def bn_evolves_def bn_selectDialect_def bn_loseConnection_def known_dialect_Some split: option.splits)
  next
    case True
    with \<open>\<not> bn_negotiated s\<close> assms(1) obtain offered where offered: "py_elements obj = Some offered"
      by (auto simp: bn_callExpressionReceived_def split: option.splits)
    show ?thesis
    proof (cases "List.map_filter known_dialect offered")
      case Nil
      with True offered \<open>\<not> bn_negotiated s\<close> assms(1) show ?thesis
        by (auto simp: bn_callExpressionReceived_def bn_evolves_def bn_loseConnection_def)
    next
      case (Cons v vs)
      then have "v \<in> set (List.map_filter known_dialect offered)" by simp
      then have v: "v \<in> set knownDialects" by (auto simp: List.map_filter_def known_dialect_Some)
      with none have "bn_sendEncoded (PyStr v) s = Ok (s\<lparr>bn_written := bn_written s @ [bn_encoding (bn_prefixLimit s) None (PyStr v)]\<rparr>)"
        using bn_encode_known [OF v, of "bn_prefixLimit s"] by (simp add: bn_sendEncoded_def bn_sent_def)
      with Cons True offered \<open>\<not> bn_negotiated s\<close> none assms(1) v show ?thesis
        by (auto simp: bn_callExpressionReceived_def bn_evolves_def bn_selectDialect_def)
    qed
  qed
qed

lemma bn_gotItem_evolves: "bn_gotItem item s = Ok t \<Longrightarrow> bn_proper s \<Longrightarrow> bn_evolves s t"
  by (cases "bn_listStack s") (auto simp: bn_gotItem_def intro: bn_callExpressionReceived_evolves)

lemma bn_pop_evolves: "bn_pop s = Ok t \<Longrightarrow> bn_proper s \<Longrightarrow> bn_evolves s t"
proof (induction s rule: bn_pop.induct)
  case (1 s)
  show ?case
  proof (cases "bn_listStack s")
    case (Cons p stack)
    obtain n items where p: "p = (n, items)" by fastforce
    show ?thesis
    proof (cases "length items = n")
      case True
      with "1.prems"(1) Cons p obtain u where u: "bn_gotItem (PyList items) (s\<lparr>bn_listStack := stack\<rparr>) = Ok u" "bn_pop u = Ok t"
        by (auto simp: bn_pop.simps [of s] split: outcome.splits)
      from bn_gotItem_evolves [OF u(1)] "1.prems"(2) have su: "bn_evolves s u" by simp
      from "1.IH" [OF Cons p [symmetric] _ u(1,2)] True bn_evolves_proper [OF su "1.prems"(2)] have "bn_evolves u t" by simp
      with su show ?thesis by (rule bn_evolves_trans)
    qed (use "1.prems"(1) Cons p in \<open>simp add: bn_pop.simps [of s]\<close>)
  qed (use "1.prems"(1) in \<open>simp add: bn_pop.simps [of s]\<close>)
qed

lemma bn_finish_evolves:
  assumes "bn_finish r = Ok t" "\<And>u. r = Ok u \<Longrightarrow> bn_evolves s u" "bn_proper s"
  shows "bn_evolves s t"
proof (cases r)
  case (Ok u)
  from assms(2) [OF Ok] have su: "bn_evolves s u" .
  from assms(1) Ok have "bn_pop u = Ok t" by (simp add: bn_finish_def)
  from bn_pop_evolves [OF this bn_evolves_proper [OF su assms(3)]] have "bn_evolves u t" .
  with su show ?thesis by (rule bn_evolves_trans)
qed (use assms(1) in \<open>simp add: bn_finish_def\<close>)

lemma bn_typebyte_evolves:
  assumes "bn_typebyte typebyte num rest s = GoesOn buffer (Ok u)" "bn_proper s"
  shows "bn_evolves s u"
  using assms by (auto simp: bn_typebyte_def Let_def split: if_splits option.splits dest!: bn_gotItem_evolves)

lemma bn_round_evolves: "bn_round_of buffer s = GoesOn rest (Ok u) \<Longrightarrow> bn_proper s \<Longrightarrow> bn_evolves s u"
  by (cases rule: bn_round_cases [where buffer = buffer and s = s]) (auto simp: bn_round_typed split: if_splits intro: bn_typebyte_evolves)

lemma bn_go_evolves: "bn_go buffer s = Ok t \<Longrightarrow> bn_proper s \<Longrightarrow> bn_evolves s t"
proof (induction "length buffer" arbitrary: buffer s rule: less_induct)
  case less
  show ?case
  proof (cases "buffer = []")
    case False
    show ?thesis
    proof (cases "bn_round_of buffer s")
      case (GoesOn rest r)
      with False less.prems(1) obtain v where v: "bn_finish r = Ok v" "bn_go rest v = Ok t"
        by (auto simp: bn_go_round split: outcome.splits)
      have sv: "bn_evolves s v"
        by (rule bn_finish_evolves [OF v(1) _ less.prems(2)]) (use GoesOn less.prems(2) in \<open>auto intro: bn_round_evolves\<close>)
      from less.hyps [OF bn_round_shorter [OF GoesOn] v(2)] bn_evolves_proper [OF sv less.prems(2)] sv show ?thesis
        by (blast intro: bn_evolves_trans)
    qed (use False less.prems in \<open>auto simp: bn_go_round\<close>)
  qed (use less.prems in auto)
qed

lemma bn_dataReceived_evolves: "bn_dataReceived d s = Ok t \<Longrightarrow> bn_proper s \<Longrightarrow> bn_evolves s t"
  by (cases "d \<noteq> [] \<or> bn_buffer s = []") (auto simp: bn_dataReceived_go bn_dataReceived_Nil intro: bn_go_evolves)

end
