(* ===== verification/BananaSessions.thy ===== *)
theory BananaSessions
  imports Banana
begin

text \<open>
  A client and a server that speak banana over a connection, from the moment it is made: the
  negotiation of a dialect and what the applications send once they are told that they may.
\<close>

section \<open>Sessions\<close>

text \<open>
  \<open>ss_up\<close> and \<open>ss_down\<close> are the bytes on their
  way to the server and to the client; the last two fields record what the applications have
  sent, once they were told that they may.
\<close>

record session =
  ss_client :: banana
  ss_server :: banana
  ss_up :: bytes
  ss_down :: bytes
  ss_sent_up :: "py_object list"
  ss_sent_down :: "py_object list"

definition bn_new_writes :: "banana \<Rightarrow> banana \<Rightarrow> bytes" where
  "bn_new_writes s t = concat (drop (length (bn_written s)) (bn_written t))"

definition ss_init :: "nat \<Rightarrow> session" where
  "ss_init limit =
     (let client = state_of (bn_connectionMade limit (bn_new True)); server = state_of (bn_connectionMade limit (bn_new False))
      in \<lparr> ss_client = client, ss_server = server, ss_up = [], ss_down = bn_new_writes (bn_new False) server,
           ss_sent_up = [], ss_sent_down = [] \<rparr>)"

inductive ss_step :: "session \<Rightarrow> session \<Rightarrow> bool" where
  client_sends: "bn_ready (ss_client ss) \<Longrightarrow> bn_sendEncoded x (ss_client ss) = Ok t \<Longrightarrow>
    ss_step ss (ss\<lparr>ss_client := t, ss_up := ss_up ss @ bn_new_writes (ss_client ss) t, ss_sent_up := ss_sent_up ss @ [x]\<rparr>)"
| server_sends: "bn_ready (ss_server ss) \<Longrightarrow> bn_sendEncoded x (ss_server ss) = Ok t \<Longrightarrow>
    ss_step ss (ss\<lparr>ss_server := t, ss_down := ss_down ss @ bn_new_writes (ss_server ss) t, ss_sent_down := ss_sent_down ss @ [x]\<rparr>)"
| client_receives: "ss_down ss = d @ rest \<Longrightarrow> d \<noteq> [] \<Longrightarrow> state_of (bn_dataReceived d (ss_client ss)) = t \<Longrightarrow>
    ss_step ss (ss\<lparr>ss_client := t, ss_down := rest, ss_up := ss_up ss @ bn_new_writes (ss_client ss) t\<rparr>)"
| server_receives: "ss_up ss = d @ rest \<Longrightarrow> d \<noteq> [] \<Longrightarrow> state_of (bn_dataReceived d (ss_server ss)) = t \<Longrightarrow>
    ss_step ss (ss\<lparr>ss_server := t, ss_up := rest, ss_down := ss_down ss @ bn_new_writes (ss_server ss) t\<rparr>)"

inductive ss_reachable :: "nat \<Rightarrow> session \<Rightarrow> bool" for limit where
  initial: "ss_reachable limit (ss_init limit)"
| step: "ss_reachable limit ss \<Longrightarrow> ss_step ss st \<Longrightarrow> ss_reachable limit st"

section \<open>One direction\<close>

text \<open>
  A peer starts in \<open>z0\<close> and is told \<open>hello\<close> first.  It follows a stream when its parser is where the bytes
  consumed so far have brought it; what it has written meanwhile does not matter.
\<close>

definition ss_greets :: "nat \<Rightarrow> bytes \<Rightarrow> banana \<Rightarrow> banana \<Rightarrow> bool" where
  "ss_greets limit hello z0 z1 \<longleftrightarrow> (\<forall>rest. bn_go (hello @ rest) z0 = bn_go rest z1) \<and>
     bn_boundary limit (Some ''pb'') z1 \<and> bn_currentDialect z1 = Some ''pb'' \<and> bn_received z1 = [] \<and> \<not> bn_disconnected z1 \<and>
     bn_buffer z0 = [] \<and> bn_currentDialect z0 = None \<and> \<not> bn_ready z0"

definition ss_follows :: "banana \<Rightarrow> bytes \<Rightarrow> banana \<Rightarrow> bool" where
  "ss_follows z0 consumed s \<longleftrightarrow> bn_view s = bn_view (bn_recv consumed z0)"

abbreviation bn_stream_of :: "nat \<Rightarrow> py_object list \<Rightarrow> bytes" where
  "bn_stream_of limit xs \<equiv> concat (map (bn_encoding limit (Some ''pb'')) xs)"

lemma bn_view_fields:
  assumes "bn_view s = bn_view t"
  shows "bn_received s = bn_received t" "bn_currentDialect s = bn_currentDialect t" "bn_ready s = bn_ready t"
    "bn_disconnected s = bn_disconnected t" "bn_buffer s = bn_buffer t"
  using assms unfolding bn_view_def by (cases s; cases t; simp)+

lemma total_go:
  assumes "3 \<le> limit" "ss_greets limit hello z0 z1" "\<forall>x \<in> set xs. bn_sent limit (Some ''pb'') x"
  shows "bn_go (hello @ bn_stream_of limit xs) z0 = Ok (bn_rebuffer [] (z1\<lparr>bn_received := map bn_plain xs\<rparr>))"
  using assms(2) bn_go_encodings [OF assms(1,3), of z1 "[]"] by (simp add: ss_greets_def)

lemma total_safe:
  assumes "3 \<le> limit" "ss_greets limit hello z0 z1" "\<forall>x \<in> set xs. bn_sent limit (Some ''pb'') x"
  shows "bn_safe (hello @ bn_stream_of limit xs) z0"
  using total_go [OF assms] assms(2) by (auto simp: bn_safe_def bn_dataReceived_go ss_greets_def)

lemma follows_receives:
  assumes limit: "3 \<le> limit" and greets: "ss_greets limit hello z0 z1" and sent: "\<forall>x \<in> set xs. bn_sent limit (Some ''pb'') x"
    and stream: "hello @ bn_stream_of limit xs = consumed @ d @ rest" "d \<noteq> []" "ss_follows z0 consumed s"
  shows "\<exists>t. bn_dataReceived d s = Ok t \<and> ss_follows z0 (consumed @ d) t"
proof -
  have "bn_safe ((consumed @ d) @ rest) z0" using total_safe [OF limit greets sent] stream(1) by simp
  then have "bn_safe (consumed @ d) z0" using bn_safe_append by blast
  from bn_safe_append [OF this] have "bn_safe d (bn_recv consumed z0)" "bn_recv (consumed @ d) z0 = bn_recv d (bn_recv consumed z0)"
    by simp_all
  with bn_stream.view_cong [of s "bn_recv consumed z0" d] stream(3) have
    safe: "bn_safe d s" and view: "bn_view (bn_recv d s) = bn_view (bn_recv (consumed @ d) z0)" by (simp_all add: ss_follows_def)
  from safe stream(2) obtain t where "bn_dataReceived d s = Ok t" by (auto simp: bn_safe_def)
  with view show ?thesis by (auto simp: ss_follows_def bn_recv_def)
qed

lemma follows_evolves:
  assumes limit: "3 \<le> limit" and greets: "ss_greets limit hello z0 z1" and sent: "\<forall>x \<in> set xs. bn_sent limit (Some ''pb'') x"
    and stream: "hello @ bn_stream_of limit xs = consumed @ rest" "ss_follows z0 consumed s"
  shows "prefix (bn_received s) (map bn_plain xs)" "\<not> bn_disconnected s" "bn_ready s \<longleftrightarrow> bn_currentDialect s = Some ''pb''"
    "bn_currentDialect s \<in> {None, Some ''pb''}" "rest = [] \<Longrightarrow> bn_received s = map bn_plain xs \<and> bn_currentDialect s = Some ''pb''"
proof -
  let ?u = "bn_recv consumed z0" and ?z = "bn_recv (hello @ bn_stream_of limit xs) z0"
  have safe: "bn_safe (consumed @ rest) z0" using total_safe [OF limit greets sent] stream(1) by simp
  from bn_safe_append [OF this] stream(1) have parts: "bn_safe consumed z0" "bn_safe rest ?u" "?z = bn_recv rest ?u" by simp_all
  have step: "bn_evolves v (bn_recv d v)" if "bn_safe d v" "bn_proper v" for d v
    using that by (cases "d = []") (auto simp: bn_safe_def bn_recv_def [of d] intro: bn_dataReceived_evolves)
  have zu: "bn_evolves z0 ?u" using step [OF parts(1)] greets by (simp add: ss_greets_def)
  with greets have "bn_proper ?u" by (auto simp: ss_greets_def dest: bn_evolves_proper)
  from step [OF parts(2) this] have uz: "bn_evolves ?u ?z" by (simp add: parts(3))
  have z: "bn_received ?z = map bn_plain xs" "bn_currentDialect ?z = Some ''pb''" "\<not> bn_disconnected ?z"
    using total_go [OF limit greets sent] greets by (simp_all add: bn_recv_def bn_dataReceived_go ss_greets_def)
  note s = bn_view_fields [OF stream(2) [unfolded ss_follows_def]]
  from uz z show "prefix (bn_received s) (map bn_plain xs)" "\<not> bn_disconnected s" "bn_currentDialect s \<in> {None, Some ''pb''}"
    by (auto simp: s bn_evolves_def)
  then show "bn_ready s \<longleftrightarrow> bn_currentDialect s = Some ''pb''" using zu greets by (auto simp: s bn_evolves_def ss_greets_def)
  show "bn_received s = map bn_plain xs \<and> bn_currentDialect s = Some ''pb''" if "rest = []"
    using that z parts(3) by (simp add: s)
qed

section \<open>Both directions\<close>

definition ss_hello :: "nat \<Rightarrow> bytes" where
  "ss_hello limit = bn_encoding limit None (PyList (map PyStr knownDialects))"

definition ss_choice :: "nat \<Rightarrow> bytes" where
  "ss_choice limit = bn_encoding limit None (PyStr ''pb'')"

definition ss_client0 :: "nat \<Rightarrow> banana" where
  "ss_client0 limit = bn_setPrefixLimit limit (bn_new True)"

definition ss_server0 :: "nat \<Rightarrow> banana" where
  "ss_server0 limit = (bn_setPrefixLimit limit (bn_new False))\<lparr>bn_written := [ss_hello limit]\<rparr>"

lemma ss_hello_sent: "bn_sent limit None (PyList (map PyStr knownDialects))"
  by (simp add: bn_sent_def bn_encoding_def knownDialects_def bn_encode_str_def SIZE_LIMIT_def)

lemma ss_init_eq: "ss_init limit = \<lparr> ss_client = ss_client0 limit, ss_server = ss_server0 limit, ss_up = [], ss_down = ss_hello limit,
    ss_sent_up = [], ss_sent_down = [] \<rparr>"
proof -
  have client: "bn_connectionMade limit (bn_new True) = Ok (ss_client0 limit)"
    by (simp add: bn_connectionMade_def ss_client0_def bn_setPrefixLimit_def bn_new_def)
  have server: "bn_connectionMade limit (bn_new False) = Ok (ss_server0 limit)"
    using ss_hello_sent [of limit]
    by (simp add: bn_connectionMade_def ss_server0_def bn_setPrefixLimit_def bn_new_def bn_sendEncoded_def bn_sent_def ss_hello_def)
  show ?thesis unfolding ss_init_def client server
    by (simp add: bn_new_writes_def bn_new_def ss_server0_def bn_setPrefixLimit_def)
qed

lemma ss_server_greets:
  assumes "3 \<le> limit"
  shows "ss_greets limit (ss_choice limit) (ss_server0 limit) (bn_selectDialect ''pb'' (ss_server0 limit))"
proof -
  have "bn_takes limit None (ss_choice limit) (PyStr ''pb'')"
    using bn_encoding_takes [OF assms bn_encode_known, of "''pb''"] by (simp add: ss_choice_def knownDialects_def)
  moreover have "bn_finish (bn_gotItem (PyStr ''pb'') (ss_server0 limit)) = Ok (bn_selectDialect ''pb'' (ss_server0 limit))"
    by (simp add: bn_gotItem_def ss_server0_def bn_setPrefixLimit_def bn_new_def bn_callExpressionReceived_def bn_negotiated_def
        knownDialects_def bn_selectDialect_def bn_finish_simps)
  ultimately show ?thesis
    by (simp add: ss_greets_def bn_takes_def bn_boundary_def bn_hears_def bn_negotiated_def ss_server0_def bn_setPrefixLimit_def bn_new_def
        bn_selectDialect_def)
qed

lemma ss_client_greets:
  assumes "3 \<le> limit"
  shows "ss_greets limit (ss_hello limit) (ss_client0 limit) (bn_selectDialect ''pb'' ((ss_client0 limit)\<lparr>bn_written := [ss_choice limit]\<rparr>))"
proof -
  have "bn_takes limit None (ss_hello limit) (PyList (map PyStr knownDialects))"
    using bn_encoding_takes [OF assms ss_hello_sent] by (simp add: ss_hello_def knownDialects_def)
  moreover have "bn_sendEncoded (PyStr ''pb'') (ss_client0 limit) = Ok ((ss_client0 limit)\<lparr>bn_written := [ss_choice limit]\<rparr>)"
    using bn_encode_known [of "''pb''" limit]
    by (simp add: bn_sendEncoded_def ss_client0_def bn_setPrefixLimit_def bn_new_def knownDialects_def bn_sent_def ss_choice_def)
  then have "bn_finish (bn_gotItem (PyList (map PyStr knownDialects)) (ss_client0 limit)) =
      Ok (bn_selectDialect ''pb'' ((ss_client0 limit)\<lparr>bn_written := [ss_choice limit]\<rparr>))"
    by (simp add: bn_gotItem_def ss_client0_def bn_setPrefixLimit_def bn_new_def bn_callExpressionReceived_def bn_negotiated_def
        knownDialects_def bn_selectDialect_def bn_finish_simps List.map_filter_def)
  ultimately show ?thesis
    by (simp add: ss_greets_def bn_takes_def bn_boundary_def bn_hears_def bn_negotiated_def ss_client0_def bn_setPrefixLimit_def bn_new_def
        bn_selectDialect_def)
qed

lemma bn_new_writes_simps:
  "bn_written t = bn_written s \<Longrightarrow> bn_new_writes s t = []"
  "bn_written t = bn_written s @ [w] \<Longrightarrow> bn_new_writes s t = w"
  by (simp_all add: bn_new_writes_def)

definition ss_inv :: "nat \<Rightarrow> session \<Rightarrow> bool" where
  "ss_inv limit ss \<longleftrightarrow>
     bn_prefixLimit (ss_client ss) = limit \<and> bn_isClient (ss_client ss) \<and>
     bn_prefixLimit (ss_server ss) = limit \<and> \<not> bn_isClient (ss_server ss) \<and>
     (\<forall>x \<in> set (ss_sent_up ss). bn_sent limit (Some ''pb'') x) \<and> (\<forall>x \<in> set (ss_sent_down ss). bn_sent limit (Some ''pb'') x) \<and>
     (\<exists>consumed. ss_hello limit @ bn_stream_of limit (ss_sent_down ss) = consumed @ ss_down ss \<and>
        ss_follows (ss_client0 limit) consumed (ss_client ss)) \<and>
     (\<exists>consumed. ss_choice limit @ bn_stream_of limit (ss_sent_up ss) =
          consumed @ ss_up ss @ (if bn_ready (ss_client ss) then [] else ss_choice limit) \<and>
        ss_follows (ss_server0 limit) consumed (ss_server ss)) \<and>
     (\<not> bn_ready (ss_client ss) \<longrightarrow> ss_sent_up ss = [])"

lemma ss_invI:
  assumes "bn_prefixLimit (ss_client ss) = limit" "bn_isClient (ss_client ss)" "bn_prefixLimit (ss_server ss) = limit" "\<not> bn_isClient (ss_server ss)"
    "\<forall>x \<in> set (ss_sent_up ss). bn_sent limit (Some ''pb'') x" "\<forall>x \<in> set (ss_sent_down ss). bn_sent limit (Some ''pb'') x"
    "ss_hello limit @ bn_stream_of limit (ss_sent_down ss) = cd @ ss_down ss" "ss_follows (ss_client0 limit) cd (ss_client ss)"
    "ss_choice limit @ bn_stream_of limit (ss_sent_up ss) = cu @ ss_up ss @ (if bn_ready (ss_client ss) then [] else ss_choice limit)"
    "ss_follows (ss_server0 limit) cu (ss_server ss)" "\<not> bn_ready (ss_client ss) \<longrightarrow> ss_sent_up ss = []"
  shows "ss_inv limit ss"
  using assms unfolding ss_inv_def by blast

lemma ss_inv_fields:
  assumes "ss_inv limit ss"
  shows "bn_prefixLimit (ss_client ss) = limit" "bn_isClient (ss_client ss)" "bn_prefixLimit (ss_server ss) = limit" "\<not> bn_isClient (ss_server ss)"
    "\<forall>x \<in> set (ss_sent_up ss). bn_sent limit (Some ''pb'') x" "\<forall>x \<in> set (ss_sent_down ss). bn_sent limit (Some ''pb'') x"
    "\<not> bn_ready (ss_client ss) \<longrightarrow> ss_sent_up ss = []"
  using assms by (simp_all add: ss_inv_def)

lemma ss_inv_init: "ss_inv limit (ss_init limit)"
  by (simp add: ss_inv_def ss_init_eq ss_follows_def ss_client0_def ss_server0_def bn_setPrefixLimit_def bn_new_def)

lemma ss_sends:
  assumes "bn_sendEncoded x s = Ok t" "bn_currentDialect s = Some ''pb''"
  shows "bn_sent (bn_prefixLimit s) (Some ''pb'') x" "t = s\<lparr>bn_written := bn_written s @ [bn_encoding (bn_prefixLimit s) (Some ''pb'') x]\<rparr>"
  using assms by (auto simp: bn_sendEncoded_def bn_sent_def bn_encoding_def split: outcome.splits)

lemma ss_follows_written [simp]: "ss_follows z consumed (s\<lparr>bn_written := ws\<rparr>) = ss_follows z consumed s"
  by (simp add: ss_follows_def bn_view_def)

lemma ss_inv_peers:
  assumes "3 \<le> limit" "ss_inv limit ss"
  obtains cd cu where "ss_hello limit @ bn_stream_of limit (ss_sent_down ss) = cd @ ss_down ss" "ss_follows (ss_client0 limit) cd (ss_client ss)"
    and "ss_choice limit @ bn_stream_of limit (ss_sent_up ss) = cu @ ss_up ss @ (if bn_ready (ss_client ss) then [] else ss_choice limit)"
      "ss_follows (ss_server0 limit) cu (ss_server ss)"
    and "bn_ready (ss_client ss) \<longleftrightarrow> bn_currentDialect (ss_client ss) = Some ''pb''"
      "bn_ready (ss_server ss) \<longleftrightarrow> bn_currentDialect (ss_server ss) = Some ''pb''"
      "bn_proper (ss_client ss)" "bn_proper (ss_server ss)"
proof -
  from assms(2) have sent: "\<forall>x \<in> set (ss_sent_up ss). bn_sent limit (Some ''pb'') x" "\<forall>x \<in> set (ss_sent_down ss). bn_sent limit (Some ''pb'') x"
    by (simp_all add: ss_inv_def)
  from assms(2) obtain cd cu where cd: "ss_hello limit @ bn_stream_of limit (ss_sent_down ss) = cd @ ss_down ss" "ss_follows (ss_client0 limit) cd (ss_client ss)"
    and cu: "ss_choice limit @ bn_stream_of limit (ss_sent_up ss) = cu @ ss_up ss @ (if bn_ready (ss_client ss) then [] else ss_choice limit)"
      "ss_follows (ss_server0 limit) cu (ss_server ss)" unfolding ss_inv_def by blast
  note c = follows_evolves [OF assms(1) ss_client_greets [OF assms(1)] sent(2) cd]
  note v = follows_evolves [OF assms(1) ss_server_greets [OF assms(1)] sent(1) cu]
  have "bn_proper (ss_client ss)" "bn_proper (ss_server ss)" using c(4) v(4) by auto
  with that cd cu c(3) v(3) show thesis by blast
qed

lemma ss_inv_step:
  assumes limit: "3 \<le> limit" and "ss_step ss st" "ss_inv limit ss"
  shows "ss_inv limit st"
  using assms(2,3)
proof (cases rule: ss_step.cases)
  case (client_sends x t)
  from ss_inv_peers [OF limit assms(3)] obtain cd cu where peers:
    "ss_hello limit @ bn_stream_of limit (ss_sent_down ss) = cd @ ss_down ss" "ss_follows (ss_client0 limit) cd (ss_client ss)"
    "ss_choice limit @ bn_stream_of limit (ss_sent_up ss) = cu @ ss_up ss @ (if bn_ready (ss_client ss) then [] else ss_choice limit)"
    "ss_follows (ss_server0 limit) cu (ss_server ss)" "bn_currentDialect (ss_client ss) = Some ''pb''"
    using client_sends(2) by blast
  from ss_sends [OF client_sends(3) peers(5)] assms(3) have
    x: "bn_sent limit (Some ''pb'') x" and t: "t = (ss_client ss)\<lparr>bn_written := bn_written (ss_client ss) @ [bn_encoding limit (Some ''pb'') x]\<rparr>"
    by (simp_all add: ss_inv_def)
  then have "bn_new_writes (ss_client ss) t = bn_encoding limit (Some ''pb'') x" by (intro bn_new_writes_simps) simp
  with client_sends(1,2) x t peers(1-4) assms(3) show ?thesis
    by (simp add: ss_inv_def)
next
  case (server_sends x t)
  from ss_inv_peers [OF limit assms(3)] obtain cd cu where peers:
    "ss_hello limit @ bn_stream_of limit (ss_sent_down ss) = cd @ ss_down ss" "ss_follows (ss_client0 limit) cd (ss_client ss)"
    "ss_choice limit @ bn_stream_of limit (ss_sent_up ss) = cu @ ss_up ss @ (if bn_ready (ss_client ss) then [] else ss_choice limit)"
    "ss_follows (ss_server0 limit) cu (ss_server ss)" "bn_currentDialect (ss_server ss) = Some ''pb''"
    using server_sends(2) by blast
  from ss_sends [OF server_sends(3) peers(5)] assms(3) have
    x: "bn_sent limit (Some ''pb'') x" and t: "t = (ss_server ss)\<lparr>bn_written := bn_written (ss_server ss) @ [bn_encoding limit (Some ''pb'') x]\<rparr>"
    by (simp_all add: ss_inv_def)
  then have "bn_new_writes (ss_server ss) t = bn_encoding limit (Some ''pb'') x" by (intro bn_new_writes_simps) simp
  with server_sends(1,2) x t peers(1-4) assms(3) show ?thesis
    by (simp add: ss_inv_def)
next
  case (client_receives d rest t)
  from assms(3) have sent: "\<forall>x \<in> set (ss_sent_down ss). bn_sent limit (Some ''pb'') x" by (simp add: ss_inv_def)
  from ss_inv_peers [OF limit assms(3)] obtain cd cu where peers:
    "ss_hello limit @ bn_stream_of limit (ss_sent_down ss) = cd @ ss_down ss" "ss_follows (ss_client0 limit) cd (ss_client ss)"
    "ss_choice limit @ bn_stream_of limit (ss_sent_up ss) = cu @ ss_up ss @ (if bn_ready (ss_client ss) then [] else ss_choice limit)"
    "ss_follows (ss_server0 limit) cu (ss_server ss)" "bn_ready (ss_client ss) \<longleftrightarrow> bn_currentDialect (ss_client ss) = Some ''pb''"
    "bn_proper (ss_client ss)" by blast
  note greets = ss_client_greets [OF limit]
  from follows_receives [OF limit greets sent peers(1) [unfolded client_receives(2)] client_receives(3) peers(2)] client_receives(4)
  have t: "bn_dataReceived d (ss_client ss) = Ok t" "ss_follows (ss_client0 limit) (cd @ d) t" by auto
  have stream: "ss_hello limit @ bn_stream_of limit (ss_sent_down ss) = (cd @ d) @ rest" using peers(1) client_receives(2) by simp
  note after = follows_evolves [OF limit greets sent stream t(2)]
  have e: "bn_evolves (ss_client ss) t" by (rule bn_dataReceived_evolves [OF t(1) peers(6)])
  have limits: "bn_prefixLimit (ss_client ss) = limit" "bn_isClient (ss_client ss)" using assms(3) by (simp_all add: ss_inv_def)
  have writes: "bn_new_writes (ss_client ss) t = (if bn_ready t \<and> \<not> bn_ready (ss_client ss) then ss_choice limit else []) \<and>
      (bn_ready (ss_client ss) \<longrightarrow> bn_ready t)"
  proof (cases "bn_ready t \<and> \<not> bn_ready (ss_client ss)")
    case True
    with e limits after(3) have "bn_written t = bn_written (ss_client ss) @ [ss_choice limit]" by (auto simp: bn_evolves_def ss_choice_def)
    with True show ?thesis by (simp add: bn_new_writes_simps)
  next
    case False
    with e peers(5) have "bn_written t = bn_written (ss_client ss)" "bn_ready t = bn_ready (ss_client ss)" by (auto simp: bn_evolves_def)
    with False show ?thesis by (simp add: bn_new_writes_simps)
  qed
  have up: "ss_choice limit @ bn_stream_of limit (ss_sent_up ss) =
      cu @ (ss_up ss @ bn_new_writes (ss_client ss) t) @ (if bn_ready t then [] else ss_choice limit)"
    using peers(3) writes by auto
  from e limits have "bn_prefixLimit t = limit" "bn_isClient t" by (simp_all add: bn_evolves_def)
  moreover have "\<not> bn_ready t \<longrightarrow> ss_sent_up ss = []" using writes assms(3) by (auto simp: ss_inv_def)
  ultimately show ?thesis unfolding client_receives(1)
    by (intro ss_invI [of _ limit "cd @ d" cu]) (use ss_inv_fields [OF assms(3)] stream t(2) up peers(4) in simp_all)
next
  case (server_receives d rest t)
  from assms(3) have sent: "\<forall>x \<in> set (ss_sent_up ss). bn_sent limit (Some ''pb'') x" by (simp add: ss_inv_def)
  from ss_inv_peers [OF limit assms(3)] obtain cd cu where peers:
    "ss_hello limit @ bn_stream_of limit (ss_sent_down ss) = cd @ ss_down ss" "ss_follows (ss_client0 limit) cd (ss_client ss)"
    "ss_choice limit @ bn_stream_of limit (ss_sent_up ss) = cu @ ss_up ss @ (if bn_ready (ss_client ss) then [] else ss_choice limit)"
    "ss_follows (ss_server0 limit) cu (ss_server ss)" "bn_proper (ss_server ss)" by blast
  have stream: "ss_choice limit @ bn_stream_of limit (ss_sent_up ss) = cu @ d @ rest @ (if bn_ready (ss_client ss) then [] else ss_choice limit)"
    using peers(3) server_receives(2) by simp
  from follows_receives [OF limit ss_server_greets [OF limit] sent stream server_receives(3) peers(4)] server_receives(4)
  have t: "bn_dataReceived d (ss_server ss) = Ok t" "ss_follows (ss_server0 limit) (cu @ d) t" by auto
  have e: "bn_evolves (ss_server ss) t" by (rule bn_dataReceived_evolves [OF t(1) peers(5)])
  have "\<not> bn_isClient (ss_server ss)" using assms(3) by (simp add: ss_inv_def)
  with e have "bn_written t = bn_written (ss_server ss)" by (auto simp: bn_evolves_def)
  then have "bn_new_writes (ss_server ss) t = []" by (rule bn_new_writes_simps)
  moreover from e assms(3) have "bn_prefixLimit t = limit" "\<not> bn_isClient t" by (simp_all add: bn_evolves_def ss_inv_def)
  moreover from stream have "ss_choice limit @ bn_stream_of limit (ss_sent_up ss) = (cu @ d) @ rest @ (if bn_ready (ss_client ss) then [] else ss_choice limit)"
    by simp
  ultimately show ?thesis unfolding server_receives(1)
    by (intro ss_invI [of _ limit cd "cu @ d"]) (use ss_inv_fields [OF assms(3)] t(2) peers(1,2) in simp_all)
qed

lemma ss_reachable_inv: "ss_reachable limit ss \<Longrightarrow> 3 \<le> limit \<Longrightarrow> ss_inv limit ss"
  by (induction rule: ss_reachable.induct) (simp_all add: ss_inv_init ss_inv_step)

section \<open>Sessions lose nothing\<close>

text \<open>
  What a peer can rely on: it has received a beginning of what was sent to it, and all of that when
  nothing is on the way; the dialect is \<open>pb\<close> once it is ready; and whatever arrives next is accepted.
\<close>

definition ss_channel :: "bytes \<Rightarrow> py_object list \<Rightarrow> banana \<Rightarrow> bool" where
  "ss_channel way sent peer \<longleftrightarrow>
     prefix (bn_received peer) (map bn_plain sent) \<and> (way = [] \<longrightarrow> bn_received peer = map bn_plain sent) \<and>
     \<not> bn_disconnected peer \<and> (bn_ready peer \<longleftrightarrow> bn_currentDialect peer = Some ''pb'') \<and>
     (\<forall>d rest. way = d @ rest \<and> d \<noteq> [] \<longrightarrow> (\<exists>t. bn_dataReceived d peer = Ok t))"

text \<open>
  C30: a banana session is a pair of ordered channels that lose nothing.  From connectionMade on,
  whatever the applications send once they are ready, and in whatever pieces the network delivers
  the bytes of the two directions, the negotiation included: no piece makes a peer raise, and
  neither disconnects; each peer has received, in order and without a gap, a beginning of what
  the other one sent, with lists for tuples; it has received all of it when nothing is on the
  way; and a peer that is ready has selected the dialect pb.
\<close>
theorem banana_session:
  assumes "3 \<le> limit" and "ss_reachable limit ss"
  shows "ss_channel (ss_up ss) (ss_sent_up ss) (ss_server ss) \<and> ss_channel (ss_down ss) (ss_sent_down ss) (ss_client ss)"
proof -
  note inv = ss_reachable_inv [OF assms(2,1)]
  from inv have sent: "\<forall>x \<in> set (ss_sent_up ss). bn_sent limit (Some ''pb'') x" "\<forall>x \<in> set (ss_sent_down ss). bn_sent limit (Some ''pb'') x"
    and unready: "\<not> bn_ready (ss_client ss) \<longrightarrow> ss_sent_up ss = []" by (simp_all add: ss_inv_def)
  let ?future = "if bn_ready (ss_client ss) then [] else ss_choice limit"
  from ss_inv_peers [OF assms(1) inv] obtain cd cu where
    down: "ss_hello limit @ bn_stream_of limit (ss_sent_down ss) = cd @ ss_down ss" "ss_follows (ss_client0 limit) cd (ss_client ss)"
    and up: "ss_choice limit @ bn_stream_of limit (ss_sent_up ss) = cu @ ss_up ss @ ?future" "ss_follows (ss_server0 limit) cu (ss_server ss)"
    by blast
  note greets = ss_client_greets [OF assms(1)] ss_server_greets [OF assms(1)]
  note c = follows_evolves [OF assms(1) greets(1) sent(2) down] and v = follows_evolves [OF assms(1) greets(2) sent(1) up]
  have "\<exists>t. bn_dataReceived d (ss_client ss) = Ok t" if "ss_down ss = d @ rest" "d \<noteq> []" for d rest
    using follows_receives [OF assms(1) greets(1) sent(2) down(1) [unfolded that(1)] that(2) down(2)] by blast
  with c have "ss_channel (ss_down ss) (ss_sent_down ss) (ss_client ss)" by (auto simp: ss_channel_def)
  moreover have "\<exists>t. bn_dataReceived d (ss_server ss) = Ok t" if "ss_up ss = d @ rest" "d \<noteq> []" for d rest
  proof -
    from up(1) that(1) have "ss_choice limit @ bn_stream_of limit (ss_sent_up ss) = cu @ d @ (rest @ ?future)" by simp
    from follows_receives [OF assms(1) greets(2) sent(1) this that(2) up(2)] show ?thesis by blast
  qed
  moreover have "bn_received (ss_server ss) = map bn_plain (ss_sent_up ss)" if "ss_up ss = []"
    using that v(1,5) unready by (cases "bn_ready (ss_client ss)") simp_all
  ultimately show ?thesis using v by (auto simp: ss_channel_def)
qed

lemma banana_session_witness:
  "ss_channel [] [] (state_of (bn_dataReceived (ss_hello default_PREFIX_LIMIT) (ss_client0 default_PREFIX_LIMIT)))"
proof -
  let ?d = "ss_hello default_PREFIX_LIMIT"
  let ?t = "state_of (bn_dataReceived ?d (ss_client0 default_PREFIX_LIMIT))"
  have "?d \<noteq> []" by (simp add: ss_hello_def bn_encoding_def knownDialects_def bn_encode_str_def SIZE_LIMIT_def)
  then have step: "ss_step (ss_init default_PREFIX_LIMIT) ((ss_init default_PREFIX_LIMIT)\<lparr>ss_client := ?t, ss_down := [],
      ss_up := ss_up (ss_init default_PREFIX_LIMIT) @ bn_new_writes (ss_client (ss_init default_PREFIX_LIMIT)) ?t\<rparr>)"
    by (intro ss_step.client_receives) (simp_all add: ss_init_eq)
  from banana_session [OF _ ss_reachable.step [OF ss_reachable.initial step]] show ?thesis
    by (simp add: ss_init_eq default_PREFIX_LIMIT_def)
qed

end
