(* ===== verification/BananaLimits.thy ===== *)
theory BananaLimits
  imports Banana
begin

text \<open>
  What a peer can make a banana parser hold, and the functions \<open>encode\<close> and \<open>decode\<close> of the module.
\<close>

section \<open>Objects that can be sent\<close>

fun bn_sendable :: "nat \<Rightarrow> py_object \<Rightarrow> bool" where
  "bn_sendable limit (PyList xs) \<longleftrightarrow> length xs \<le> SIZE_LIMIT \<and> (\<forall>x \<in> set xs. bn_sendable limit x)"
| "bn_sendable limit (PyTuple xs) \<longleftrightarrow> length xs \<le> SIZE_LIMIT \<and> (\<forall>x \<in> set xs. bn_sendable limit x)"
| "bn_sendable limit (PyInt n) \<longleftrightarrow> \<bar>n\<bar> < 2 ^ (limit * 7)"
| "bn_sendable limit (PyFloat w) \<longleftrightarrow> True"
| "bn_sendable limit (PyStr str) \<longleftrightarrow> length str \<le> SIZE_LIMIT"
| "bn_sendable limit PyOther \<longleftrightarrow> False"

lemma bn_sendable_encodes:
  "bn_sendable limit x \<Longrightarrow> \<exists>t. bn_encode limit dialect x io = Ok t"
  "\<forall>x \<in> set xs. bn_sendable limit x \<Longrightarrow> \<exists>t. bn_encode_all limit dialect xs io = Ok t"
proof (induction limit dialect x io and limit dialect xs io rule: bn_encode_bn_encode_all.induct)
  case (3 limit dialect n io)
  then show ?case by (auto simp: bn_encode_int_def smallestLongInt_def largestLongInt_def)
next
  case (5 limit dialect str io)
  then show ?case by (auto simp: bn_encode_str_def split: option.split)
next
  case (8 limit dialect x xs io)
  then obtain u where "bn_encode limit dialect x io = Ok u" by auto
  with 8 show ?case by auto
qed auto

section \<open>What is received and held can be sent\<close>

text \<open>\<open>bn_open\<close> says that lists on the stack wait for more elements.\<close>

definition bn_within :: "banana \<Rightarrow> bool" where
  "bn_within s \<longleftrightarrow> (\<forall>x \<in> set (bn_received s). bn_sendable (bn_prefixLimit s) x) \<and>
     (\<forall>(n, items) \<in> set (bn_listStack s). n \<le> SIZE_LIMIT \<and> (\<forall>x \<in> set items. bn_sendable (bn_prefixLimit s) x))"

definition bn_open :: "(nat \<times> py_object list) list \<Rightarrow> bool" where
  "bn_open stack \<longleftrightarrow> (\<forall>(n, items) \<in> set stack. length items < n)"

definition bn_ajar :: "(nat \<times> py_object list) list \<Rightarrow> bool" where
  "bn_ajar stack \<longleftrightarrow> (case stack of [] \<Rightarrow> True | (n, items) # stack \<Rightarrow> length items \<le> n \<and> bn_open stack)"

lemma bn_open_Cons [simp]: "bn_open ((n, items) # stack) \<longleftrightarrow> length items < n \<and> bn_open stack" "bn_open []"
  by (simp_all add: bn_open_def)

lemma bn_open_ajar: "bn_open stack \<Longrightarrow> bn_ajar stack"
  by (cases stack) (auto simp: bn_ajar_def)

lemma bn_sendEncoded_state:
  "bn_received (state_of (bn_sendEncoded x s)) = bn_received s" "bn_prefixLimit (state_of (bn_sendEncoded x s)) = bn_prefixLimit s"
  by (simp_all add: bn_sendEncoded_def split: outcome.split)

lemma bn_call_state:
  "bn_prefixLimit (state_of (bn_callExpressionReceived x s)) = bn_prefixLimit s"
  "set (bn_received (state_of (bn_callExpressionReceived x s))) \<subseteq> insert x (set (bn_received s))"
  by (auto simp: bn_callExpressionReceived_def bn_selectDialect_def bn_loseConnection_def bn_sendEncoded_state split: option.splits list.splits)

lemma bn_gotItem_within:
  assumes "bn_within s" "bn_open (bn_listStack s)" "bn_sendable (bn_prefixLimit s) item"
  shows "bn_within (state_of (bn_gotItem item s))" "bn_ajar (bn_listStack (state_of (bn_gotItem item s)))"
    "bn_gotItem item s = Exc e t \<Longrightarrow> bn_open (bn_listStack t)" "bn_prefixLimit (state_of (bn_gotItem item s)) = bn_prefixLimit s"
proof -
  have "bn_within (state_of (bn_gotItem item s)) \<and> bn_ajar (bn_listStack (state_of (bn_gotItem item s))) \<and>
      (bn_gotItem item s = Exc e t \<longrightarrow> bn_open (bn_listStack t)) \<and> bn_prefixLimit (state_of (bn_gotItem item s)) = bn_prefixLimit s"
  proof (cases "bn_listStack s")
    case Nil
    have stack: "bn_listStack (state_of (bn_gotItem item s)) = []" using Nil by (simp add: bn_gotItem_def bn_callExpressionReceived_stack)
    moreover have "bn_within (state_of (bn_gotItem item s))"
      using bn_call_state [of item s] assms(1,3) Nil by (auto simp: bn_within_def stack) (auto simp: bn_gotItem_def)
    moreover have "bn_prefixLimit (state_of (bn_gotItem item s)) = bn_prefixLimit s" using Nil by (simp add: bn_gotItem_def bn_call_state)
    ultimately show ?thesis by (auto simp: bn_ajar_def)
  next
    case (Cons p stack)
    obtain n items where p: "p = (n, items)" by fastforce
    with Cons assms show ?thesis by (auto simp: bn_gotItem_def bn_within_def bn_ajar_def)
  qed
  then show "bn_within (state_of (bn_gotItem item s))" "bn_ajar (bn_listStack (state_of (bn_gotItem item s)))"
    "bn_gotItem item s = Exc e t \<Longrightarrow> bn_open (bn_listStack t)" "bn_prefixLimit (state_of (bn_gotItem item s)) = bn_prefixLimit s"
    by blast+
qed

abbreviation bn_held :: "nat \<Rightarrow> banana \<Rightarrow> bool" where
  "bn_held limit s \<equiv> bn_within s \<and> bn_open (bn_listStack s) \<and> bn_prefixLimit s = limit"

lemma bn_pop_within:
  "bn_within s \<Longrightarrow> bn_ajar (bn_listStack s) \<Longrightarrow> bn_prefixLimit s = limit \<Longrightarrow> bn_held limit (state_of (bn_pop s))"
proof (induction s rule: bn_pop.induct)
  case (1 s)
  show ?case
  proof (cases "bn_listStack s")
    case Nil
    with "1.prems" show ?thesis by (simp add: bn_pop.simps [of s])
  next
    case (Cons p stack)
    obtain n items where p: "p = (n, items)" by fastforce
    show ?thesis
    proof (cases "length items = n")
      case False
      with Cons p "1.prems" show ?thesis by (simp add: bn_pop.simps [of s] bn_ajar_def)
    next
      case True
      let ?s = "s\<lparr>bn_listStack := stack\<rparr>"
      have s: "bn_within ?s" "bn_open (bn_listStack ?s)" "bn_sendable (bn_prefixLimit ?s) (PyList items)"
        using Cons p True "1.prems" by (auto simp: bn_within_def bn_ajar_def)
      note got = bn_gotItem_within [OF s]
      show ?thesis
      proof (cases "bn_gotItem (PyList items) ?s")
        case (Ok t)
        have "bn_pop s = bn_pop t" using Cons p True Ok by (simp add: bn_pop.simps [of s])
        moreover have "bn_held limit (state_of (bn_pop t))"
          by (rule "1.IH" [OF Cons p [symmetric] _ Ok]) (use True got(1,2,4) Ok "1.prems"(3) in simp_all)
        ultimately show ?thesis by simp
      next
        case (Exc e t)
        with Cons p True have "bn_pop s = Exc e t" by (simp add: bn_pop.simps [of s])
        with got(1,3,4) Exc "1.prems"(3) show ?thesis by simp
      qed
    qed
  qed
qed

lemma bn_finish_gotItem_within:
  assumes "bn_held limit s" "bn_sendable limit item"
  shows "bn_held limit (state_of (bn_finish (bn_gotItem item s)))"
proof (cases "bn_gotItem item s")
  case (Ok t)
  with bn_gotItem_within [of s item] bn_pop_within [of t limit] assms show ?thesis by (simp add: bn_finish_def)
next
  case (Exc e t)
  with bn_gotItem_within [of s item] assms show ?thesis by (simp add: bn_finish_def)
qed

lemma bn_vocabulary_length: "incomingVocabulary n = Some str \<Longrightarrow> length str \<le> SIZE_LIMIT"
proof -
  have "\<forall>(k, v) \<in> set bn_vocabulary. length k \<le> SIZE_LIMIT" by (simp add: bn_vocabulary_def SIZE_LIMIT_def)
  moreover assume "incomingVocabulary n = Some str"
  ultimately show ?thesis unfolding incomingVocabulary_def by (auto dest!: map_of_SomeD)
qed

lemma bn_typebyte_within:
  assumes "bn_held limit s" "bn_typebyte c num rest s = GoesOn buffer r" "\<forall>c \<in> set num. \<not> high_bit_set c" "length num \<le> limit"
  shows "bn_held limit (state_of (bn_finish r))"
proof -
  have "b1282int num < 128 ^ length num" by (rule b1282int_bound [OF assms(3)])
  also have "\<dots> \<le> 128 ^ limit" using assms(4) by (simp add: power_increasing)
  finally have "int (b1282int num) < int (128 ^ limit)" by (simp only: of_nat_less_iff)
  moreover have "(2::int) ^ (limit * 7) = (2 ^ 7) ^ limit" by (simp only: power_mult [symmetric] mult.commute)
  ultimately have int: "int (b1282int num) < 2 ^ (limit * 7)" by simp
  note got = bn_finish_gotItem_within [OF assms(1)]
  show ?thesis
  proof (cases "c = tb_LIST")
    case True
    with assms(2) have r: "r = Ok (s\<lparr>bn_listStack := (b1282int num, []) # bn_listStack s\<rparr>)" "b1282int num \<le> SIZE_LIMIT"
      by (auto simp: bn_typebyte_def Let_def split: if_splits)
    with assms(1) have "bn_held limit (state_of (bn_pop (s\<lparr>bn_listStack := (b1282int num, []) # bn_listStack s\<rparr>)))"
      by (intro bn_pop_within) (auto simp: bn_within_def bn_ajar_def)
    then show ?thesis by (simp add: r bn_finish_def)
  next
    case False
    with assms(2) obtain item where r: "r = bn_gotItem item s" "bn_sendable limit item"
      using int bn_vocabulary_length by (auto simp: bn_typebyte_def Let_def split: if_splits option.splits)
    with got [OF r(2)] show ?thesis by simp
  qed
qed

lemma bn_round_within:
  assumes "bn_held limit s" "bn_round_of buffer s = GoesOn rest r"
  shows "bn_held limit (state_of (bn_finish r))"
proof (cases rule: bn_round_cases [where buffer = buffer and s = s])
  case (typed num c rest')
  with assms have "bn_typebyte c num rest' s = GoesOn rest r" "length num \<le> limit" by (simp_all add: bn_round_typed split: if_splits)
  from bn_typebyte_within [OF assms(1) this(1) typed(2) this(2)] show ?thesis .
qed (use assms(2) in \<open>simp split: if_splits\<close>)

lemma bn_within_rebuffer [simp]: "bn_within (bn_rebuffer b s) = bn_within s"
  by (simp add: bn_within_def)

text \<open>A parser that waits has less than one whole string in its buffer.\<close>

lemma bn_round_Returns_length:
  assumes "bn_round_of buffer s = Returns"
  shows "length buffer \<le> bn_prefixLimit s + SIZE_LIMIT"
proof (cases rule: bn_round_cases [where buffer = buffer and s = s])
  case (typed num c rest)
  with assms have "length num \<le> bn_prefixLimit s" "bn_typebyte c num rest s = Returns" by (simp_all add: bn_round_typed split: if_splits)
  then have "length rest < SIZE_LIMIT" by (auto simp: bn_typebyte_def Let_def SIZE_LIMIT_def split: if_splits option.splits)
  with typed(1) \<open>length num \<le> bn_prefixLimit s\<close> show ?thesis by simp
qed (use assms in \<open>simp split: if_splits\<close>)

lemma bn_go_within:
  "bn_held limit s \<Longrightarrow> bn_held limit (state_of (bn_go buffer s)) \<and>
     (\<forall>t. bn_go buffer s = Ok t \<longrightarrow> length (bn_buffer t) \<le> limit + SIZE_LIMIT)"
proof (induction "length buffer" arbitrary: buffer s rule: less_induct)
  case less
  show ?case
  proof (cases "buffer = []")
    case True
    with less.prems show ?thesis by auto
  next
    case False
    show ?thesis
    proof (cases "bn_round_of buffer s")
      case Returns
      with False less.prems bn_round_Returns_length [OF Returns] show ?thesis by (auto simp: bn_go_round)
    next
      case (Raises e)
      with False less.prems show ?thesis by (auto simp: bn_go_round)
    next
      case (GoesOn rest r)
      note r = bn_round_within [OF less.prems GoesOn]
      show ?thesis
      proof (cases "bn_finish r")
        case (Ok t)
        have "bn_go buffer s = bn_go rest t" using GoesOn Ok False by (simp add: bn_go_round [of buffer])
        moreover have "bn_held limit t" using r Ok by simp
        ultimately show ?thesis using less.hyps [OF bn_round_shorter [OF GoesOn], of t] by simp
      next
        case (Exc e t)
        with GoesOn False have "bn_go buffer s = Exc e (bn_rebuffer buffer t)" by (simp add: bn_go_round [of buffer])
        with r Exc show ?thesis by simp
      qed
    qed
  qed
qed

lemma bn_dataReceived_within:
  assumes "bn_held limit s"
  shows "bn_held limit (state_of (bn_dataReceived d s))"
    and "bn_dataReceived d s = Ok t \<Longrightarrow> length (bn_buffer t) \<le> limit + SIZE_LIMIT"
  using bn_go_within [OF assms, of "bn_buffer s @ d"] assms
  by (cases "d \<noteq> [] \<or> bn_buffer s = []"; simp add: bn_dataReceived_go bn_dataReceived_Nil)+

lemma bn_receive_within:
  "bn_held limit s \<Longrightarrow> bn_held limit (state_of (bn_receive chunks s)) \<and>
    (\<forall>t. bn_receive chunks s = Ok t \<longrightarrow> length (bn_buffer s) \<le> limit + SIZE_LIMIT \<longrightarrow> length (bn_buffer t) \<le> limit + SIZE_LIMIT)"
proof (induction chunks arbitrary: s)
  case (Cons c chunks)
  note one = bn_dataReceived_within [OF Cons.prems, of c]
  show ?case
  proof (cases "bn_dataReceived c s")
    case (Ok u)
    with one have "bn_held limit u" "length (bn_buffer u) \<le> limit + SIZE_LIMIT" by simp_all
    with Cons.IH [of u] Ok show ?thesis by simp
  next
    case (Exc e u)
    with one show ?thesis by simp
  qed
qed simp

text \<open>
  C32: what a peer can make a banana connection hold is bounded.  Whatever bytes arrive and in whatever
  pieces, also when some are refused: every object that is received, and every element of a
  list that is still open, can itself be sent over a connection with the same prefix limit,
  so that its integers, strings and lists keep to the limits of the protocol; a list that is
  open announced no more than SIZE_LIMIT elements and has fewer than it announced; and as long
  as nothing was refused, at most limit + SIZE_LIMIT bytes are buffered.
\<close>
theorem banana_bounds:
  assumes "bn_prefixLimit s = limit" "bn_received s = []" "bn_listStack s = []" "bn_buffer s = []"
    and "t = state_of (bn_receive chunks s)"
  shows "(\<forall>x \<in> set (bn_received t). \<exists>io. bn_encode limit dialect x [] = Ok io) \<and>
    (\<forall>(n, items) \<in> set (bn_listStack t). length items < n \<and> n \<le> SIZE_LIMIT \<and> (\<forall>x \<in> set items. \<exists>io. bn_encode limit dialect x [] = Ok io)) \<and>
    (bn_receive chunks s = Ok t \<longrightarrow> length (bn_buffer t) \<le> limit + SIZE_LIMIT)"
proof -
  have "bn_held limit s" using assms(1-3) by (simp add: bn_within_def)
  note held = bn_receive_within [OF this, of chunks]
  then have t: "bn_within t" "bn_open (bn_listStack t)" "bn_prefixLimit t = limit" by (simp_all add: assms(5))
  have received: "\<forall>x \<in> set (bn_received t). bn_sendable limit x"
    and stack: "\<forall>(n, items) \<in> set (bn_listStack t). n \<le> SIZE_LIMIT \<and> (\<forall>x \<in> set items. bn_sendable limit x)"
    using t(1,3) by (simp_all add: bn_within_def)
  from received bn_sendable_encodes(1) have "\<forall>x \<in> set (bn_received t). \<exists>io. bn_encode limit dialect x [] = Ok io" by blast
  moreover from stack t(2) bn_sendable_encodes(1) have "\<forall>(n, items) \<in> set (bn_listStack t). length items < n \<and> n \<le> SIZE_LIMIT \<and>
      (\<forall>x \<in> set items. \<exists>io. bn_encode limit dialect x [] = Ok io)" unfolding bn_open_def by blast
  ultimately show ?thesis using held assms(4) by simp
qed

definition bn_open_demo :: "bytes list" where
  "bn_open_demo = [[CHR 0x02, CHR 0x80, CHR 0x05], [CHR 0x81]]"

lemma banana_bounds_witness:
  "list_all (\<lambda>(n, items). length items < n \<and> n \<le> SIZE_LIMIT) (bn_listStack (state_of (bn_receive bn_open_demo bn_i)))"
proof -
  have "bn_prefixLimit bn_i = 64" "bn_received bn_i = []" "bn_listStack bn_i = []" "bn_buffer bn_i = []"
    by (simp_all add: bn_i_def bn_connectionMade_def bn_new_def bn_setPrefixLimit_def bn_selectDialect_def default_PREFIX_LIMIT_def)
  from banana_bounds [OF this refl, of bn_open_demo None] show ?thesis unfolding list_all_iff by blast
qed

section \<open>\<open>encode\<close> and \<open>decode\<close>\<close>

lemma bn_i_boundary: "bn_boundary 64 (Some ''none'') bn_i"
  by (simp add: bn_boundary_def bn_hears_def bn_negotiated_def bn_i_def bn_connectionMade_def bn_new_def bn_setPrefixLimit_def
      bn_selectDialect_def default_PREFIX_LIMIT_def)

lemma bn_i_fields: "bn_prefixLimit bn_i = 64" "bn_currentDialect bn_i = Some ''none''" "bn_listStack bn_i = []" "bn_buffer bn_i = []"
  by (simp_all add: bn_i_def bn_connectionMade_def bn_new_def bn_setPrefixLimit_def bn_selectDialect_def default_PREFIX_LIMIT_def)

lemma bn_encode_top_sent:
  "bn_encode_top x bn_i = Inr st \<Longrightarrow> bn_sent 64 (Some ''none'') x \<and> st = bn_encoding 64 (Some ''none'') x"
  by (auto simp: bn_encode_top_def bn_sendEncoded_def bn_i_fields bn_sent_def bn_encoding_def split: outcome.splits)

text \<open>What a call of \<open>decode\<close> that was given the start of a list leaves behind.\<close>

lemma bn_stale_eq: "bn_decode_top [CHR 0x01, tb_LIST] bn_i = (Inl IndexError, bn_i\<lparr>bn_listStack := [(1, [])], bn_received := []\<rparr>)"
proof -
  have "bn_round_of ([CHR 0x01] @ tb_LIST # []) s = GoesOn [] (Ok (s\<lparr>bn_listStack := (1, []) # bn_listStack s\<rparr>))"
    if "bn_prefixLimit s = 64" for s
    using that by (subst bn_round_typed) (simp_all add: high_bit_set_def bn_typebyte_def b1282int_val SIZE_LIMIT_def)
  then have "bn_go [CHR 0x01, tb_LIST] (bn_i\<lparr>bn_received := []\<rparr>) = Ok (bn_rebuffer [] (bn_i\<lparr>bn_listStack := [(1, [])], bn_received := []\<rparr>))"
    by (simp add: bn_go_round bn_i_fields bn_finish_def bn_pop.simps)
  then show ?thesis by (simp add: bn_decode_top_def bn_dataReceived_go bn_i_fields)
qed

text \<open>
  C33: decode undoes encode, once.  In a fresh module, decoding what an object was encoded to gives the
  object back (with lists for tuples), and leaves the module's parser as it was.  But decode
  only empties the buffer: after the start of a list, for which it raises IndexError, the list stays
  open on the stack, and the next call puts what it decodes into it.
\<close>
theorem banana_decode:
  assumes "bn_encode_top x bn_i = Inr st"
  shows "bn_decode_top st bn_i = (Inr (bn_plain x), bn_i\<lparr>bn_received := [bn_plain x]\<rparr>) \<and>
    fst (bn_decode_top [CHR 0x01, tb_LIST] bn_i) = Inl IndexError \<and>
    fst (bn_decode_top st (snd (bn_decode_top [CHR 0x01, tb_LIST] bn_i))) = Inr (PyList [bn_plain x])"
proof (intro conjI)
  from bn_encode_top_sent [OF assms] have x: "bn_sent 64 (Some ''none'') x" and st: "st = bn_encoding 64 (Some ''none'') x" by blast+
  have "bn_go (concat (map (bn_encoding 64 (Some ''none'')) [x]) @ []) (bn_i\<lparr>bn_received := []\<rparr>) =
      bn_go [] ((bn_i\<lparr>bn_received := []\<rparr>)\<lparr>bn_received := bn_received (bn_i\<lparr>bn_received := []\<rparr>) @ map bn_plain [x]\<rparr>)"
    by (rule bn_go_encodings) (use x bn_i_boundary in simp_all)
  then have "bn_go st (bn_i\<lparr>bn_received := []\<rparr>) = Ok (bn_rebuffer [] (bn_i\<lparr>bn_received := [bn_plain x]\<rparr>))" by (simp add: st)
  then show "bn_decode_top st bn_i = (Inr (bn_plain x), bn_i\<lparr>bn_received := [bn_plain x]\<rparr>)"
    using bn_i_fields(4) by (cases bn_i) (simp add: bn_decode_top_def bn_dataReceived_go)
  let ?s = "bn_i\<lparr>bn_listStack := [(1, [])], bn_received := []\<rparr>"
  show "fst (bn_decode_top [CHR 0x01, tb_LIST] bn_i) = Inl IndexError" by (simp add: bn_stale_eq)
  have "bn_takes 64 (Some ''none'') st (bn_plain x)" using bn_encoding_takes [OF _ x] by (simp add: st)
  moreover have "bn_finish (bn_gotItem (bn_plain x) ?s) = Ok (bn_i\<lparr>bn_received := [PyList [bn_plain x]]\<rparr>)"
    using bn_i_fields by (cases bn_i) (simp add: bn_gotItem_def bn_finish_simps bn_callExpressionReceived_def bn_negotiated_def)
  moreover have "bn_hears 64 (Some ''none'') ?s" by (simp add: bn_hears_def bn_i_fields)
  ultimately have "bn_go (st @ []) ?s = bn_go [] (bn_i\<lparr>bn_received := [PyList [bn_plain x]]\<rparr>)" unfolding bn_takes_def by blast
  then show "fst (bn_decode_top st (snd (bn_decode_top [CHR 0x01, tb_LIST] bn_i))) = Inr (PyList [bn_plain x])"
    by (simp add: bn_stale_eq) (simp add: bn_decode_top_def bn_dataReceived_go bn_i_fields)
qed

lemma banana_decode_witness:
  "fst (bn_decode_top [CHR 0x05, tb_INT] bn_i) = Inr (PyInt 5) \<and>
   fst (bn_decode_top [CHR 0x05, tb_INT] (snd (bn_decode_top [CHR 0x01, tb_LIST] bn_i))) = Inr (PyList [PyInt 5])"
proof -
  have "char_of (5::nat) = CHR 0x05" by code_simp
  then have "bn_encode_top (PyInt 5) bn_i = Inr [CHR 0x05, tb_INT]"
    by (simp add: bn_encode_top_def bn_sendEncoded_def bn_encode_int_def bn_i_fields smallestLongInt_def largestLongInt_def smallestInt_def largestInt_def
        int2b128_def b128_digits.simps)
  from banana_decode [OF this] show ?thesis by simp
qed

end
