(* ===== verification/TransferDecoders.thy ===== *)
theory TransferDecoders
  imports Framing
begin

text \<open>
  The transfer decoders of \<open>twisted/web/http.py\<close>: \<open>_IdentityTransferDecoder\<close>,
  \<open>_ChunkedTransferDecoder\<close> and the encoding they undo, \<open>toChunk\<close> and \<open>fromChunk\<close>.  The calls of
  \<open>dataCallback\<close> and \<open>finishCallback\<close> are recorded as events.
\<close>

section \<open>Numbers in chunk headers\<close>

definition is_space :: "char \<Rightarrow> bool" where
  "is_space c \<longleftrightarrow> (of_char c :: nat) = 32 \<or> (9 \<le> (of_char c :: nat) \<and> (of_char c :: nat) \<le> 13)"

definition py_strip :: "bytes \<Rightarrow> bytes" where
  "py_strip s = rev (dropWhile is_space (rev (dropWhile is_space s)))"

text \<open>
  \<open>int(s, 16)\<close>, \<open>None\<close> for \<open>ValueError\<close>: surrounding blanks, a sign and a prefix \<open>0x\<close> are allowed.
\<close>

definition py_int16 :: "bytes \<Rightarrow> int option" where
  "py_int16 s =
     (let t = py_strip s;
          (sign, u) = (if take 1 t = ''-'' then (- 1, drop 1 t) else if take 1 t = ''+'' then (1, drop 1 t) else (1, t));
          v = (if take 2 u = ''0x'' \<or> take 2 u = ''0X'' then drop 2 u else u)
      in if v \<noteq> [] \<and> list_all (\<lambda>c. hex_val c \<noteq> None) v
         then Some (sign * int (foldl (\<lambda>a c. 16 * a + the (hex_val c)) 0 v)) else None)"

section \<open>Chunks\<close>

definition toChunk :: "bytes \<Rightarrow> bytes list" where
  "toChunk d = [hex (length d), CRLF, d, CRLF]"

datatype chunk_error = ChunkValueError | MalformedChunkedData | DecoderFinished | DataLoss | PotentialDataLoss | NotCallable

text \<open>\<open>data[:n]\<close> and \<open>data[n:]\<close>, also for a negative \<open>n\<close>.\<close>

definition slice_to :: "int \<Rightarrow> bytes \<Rightarrow> bytes" where
  "slice_to n d = take (nat (if n < 0 then int (length d) + n else n)) d"

definition slice_from :: "int \<Rightarrow> bytes \<Rightarrow> bytes" where
  "slice_from n d = drop (nat (if n < 0 then int (length d) + n else n)) d"

definition fromChunk :: "bytes \<Rightarrow> chunk_error + bytes \<times> bytes" where
  "fromChunk d =
     (case split_once CRLF d of
        None \<Rightarrow> Inl ChunkValueError
      | Some (prefix, rest) \<Rightarrow>
          case py_int16 prefix of
            None \<Rightarrow> Inl ChunkValueError
          | Some n \<Rightarrow>
              if n < 0 then Inl ChunkValueError
              else if take 2 (slice_from n rest) \<noteq> CRLF then Inl ChunkValueError
              else Inr (slice_to n rest, slice_from (n + 2) rest))"

section \<open>The identity decoder\<close>

datatype decoder_event = BodyData bytes | BodyFinished bytes

record identity_decoder =
  id_contentLength :: "int option"
  id_open :: bool
  id_events :: "decoder_event list"

definition id_init :: "int option \<Rightarrow> identity_decoder" where
  "id_init n = \<lparr> id_contentLength = n, id_open = True, id_events = [] \<rparr>"

definition id_event :: "decoder_event \<Rightarrow> identity_decoder \<Rightarrow> identity_decoder" where
  "id_event e s = s\<lparr>id_events := id_events s @ [e]\<rparr>"

definition id_dataReceived :: "bytes \<Rightarrow> identity_decoder \<Rightarrow> (chunk_error, identity_decoder) outcome" where
  "id_dataReceived d s =
     (if \<not> id_open s then Exc DecoderFinished s
      else case id_contentLength s of
             None \<Rightarrow> Ok (id_event (BodyData d) s)
           | Some n \<Rightarrow>
               if int (length d) < n then Ok (id_event (BodyData d) (s\<lparr>id_contentLength := Some (n - int (length d))\<rparr>))
               else
                 let t = s\<lparr>id_open := False, id_contentLength := Some 0\<rparr>
                 in Ok (id_event (BodyFinished (slice_from n d)) (id_event (BodyData (slice_to n d)) t)))"

text \<open>After a length has been reached \<open>finishCallback\<close> is \<open>None\<close>; it is called only for an unknown length.\<close>

definition id_noMoreData :: "identity_decoder \<Rightarrow> (chunk_error, identity_decoder) outcome" where
  "id_noMoreData s =
     (let t = s\<lparr>id_open := False\<rparr>
      in case id_contentLength t of
           None \<Rightarrow> if \<not> id_open s then Exc NotCallable t else Exc PotentialDataLoss (id_event (BodyFinished []) t)
         | Some n \<Rightarrow> if n \<noteq> 0 then Exc DataLoss t else Ok t)"

section \<open>The chunked decoder\<close>

datatype chunk_state = CHUNK_LENGTH | CHUNK_CRLF | TRAILER | BODY | FINISHED

record chunked_decoder =
  ck_state :: chunk_state
  ck_buffer :: bytes
  ck_length :: int
  ck_events :: "decoder_event list"

definition ck_init :: chunked_decoder where
  "ck_init = \<lparr> ck_state = CHUNK_LENGTH, ck_buffer = [], ck_length = 0, ck_events = [] \<rparr>"

definition ck_event :: "decoder_event \<Rightarrow> chunked_decoder \<Rightarrow> chunked_decoder" where
  "ck_event e s = s\<lparr>ck_events := ck_events s @ [e]\<rparr>"

text \<open>The handlers of the states: what they return, and the decoder they leave.\<close>

type_synonym ck_result = "(chunk_error, bytes \<times> chunked_decoder) outcome"

definition ck_CHUNK_LENGTH :: "bytes \<Rightarrow> chunked_decoder \<Rightarrow> ck_result" where
  "ck_CHUNK_LENGTH d s =
     (case split_once CRLF d of
        Some (line, rest) \<Rightarrow>
          (case py_int16 (takeWhile (\<lambda>c. c \<noteq> CHR '';'') line) of
             None \<Rightarrow> Exc MalformedChunkedData (d, s)
           | Some n \<Rightarrow> Ok (rest, s\<lparr>ck_length := n, ck_state := (if n = 0 then TRAILER else BODY)\<rparr>))
      | None \<Rightarrow> Ok ([], s\<lparr>ck_buffer := d\<rparr>))"

definition ck_CRLF :: "bytes \<Rightarrow> chunked_decoder \<Rightarrow> ck_result" where
  "ck_CRLF d s =
     (if take 2 d = CRLF then Ok (drop 2 d, s\<lparr>ck_state := CHUNK_LENGTH\<rparr>) else Ok ([], s\<lparr>ck_buffer := d\<rparr>))"

definition ck_TRAILER :: "bytes \<Rightarrow> chunked_decoder \<Rightarrow> ck_result" where
  "ck_TRAILER d s =
     (if take 2 d = CRLF then Ok ([], ck_event (BodyFinished (drop 2 d)) (s\<lparr>ck_state := FINISHED\<rparr>))
      else Ok ([], s\<lparr>ck_buffer := d\<rparr>))"

definition ck_BODY :: "bytes \<Rightarrow> chunked_decoder \<Rightarrow> ck_result" where
  "ck_BODY d s =
     (if int (length d) \<ge> ck_length s then
        Ok (slice_from (ck_length s) d, (ck_event (BodyData (slice_to (ck_length s) d)) s)\<lparr>ck_state := CHUNK_CRLF\<rparr>)
      else Ok ([], ck_event (BodyData d) (s\<lparr>ck_length := ck_length s - int (length d)\<rparr>)))"

definition ck_FINISHED :: "bytes \<Rightarrow> chunked_decoder \<Rightarrow> ck_result" where
  "ck_FINISHED d s = Exc DecoderFinished (d, s)"

fun ck_handler :: "chunk_state \<Rightarrow> bytes \<Rightarrow> chunked_decoder \<Rightarrow> ck_result" where
  "ck_handler CHUNK_LENGTH = ck_CHUNK_LENGTH"
| "ck_handler CHUNK_CRLF = ck_CRLF"
| "ck_handler TRAILER = ck_TRAILER"
| "ck_handler BODY = ck_BODY"
| "ck_handler FINISHED = ck_FINISHED"

text \<open>The loop ends: a handler shortens the data or moves from the body to the end of a chunk.\<close>

definition ck_measure :: "bytes \<times> chunked_decoder \<Rightarrow> nat" where
  "ck_measure p = 2 * length (fst p) + (if ck_state (snd p) = BODY then 1 else 0)"

lemma ck_handler_decreases:
  assumes "ck_handler (ck_state s) d s = Ok (rest, t)" "d \<noteq> []"
  shows "ck_measure (rest, t) < ck_measure (d, s)"
proof (cases "ck_state s")
  case CHUNK_LENGTH
  with assms show ?thesis
    by (auto simp: ck_CHUNK_LENGTH_def ck_measure_def split: option.splits dest!: split_once_length)
next
  case CHUNK_CRLF
  have "length d \<ge> 2" if "take 2 d = CRLF" using arg_cong [OF that, of length] by simp
  with CHUNK_CRLF assms show ?thesis by (auto simp: ck_CRLF_def ck_measure_def split: if_splits)
next
  case BODY
  with assms show ?thesis by (auto simp: ck_BODY_def ck_measure_def ck_event_def slice_from_def split: if_splits)
qed (use assms in \<open>auto simp: ck_TRAILER_def ck_FINISHED_def ck_measure_def ck_event_def split: if_splits\<close>)

function ck_loop :: "bytes \<Rightarrow> chunked_decoder \<Rightarrow> (chunk_error, chunked_decoder) outcome" where
  "ck_loop d s =
     (if d = [] then Ok s
      else case ck_handler (ck_state s) d s of
             Exc e (rest, t) \<Rightarrow> Exc e t
           | Ok (rest, t) \<Rightarrow> ck_loop rest t)"
  by pat_completeness auto
termination
  by (relation "measure ck_measure") (auto intro: ck_handler_decreases)

declare ck_loop.simps [simp del]

definition ck_dataReceived :: "bytes \<Rightarrow> chunked_decoder \<Rightarrow> (chunk_error, chunked_decoder) outcome" where
  "ck_dataReceived d s = ck_loop (ck_buffer s @ d) (s\<lparr>ck_buffer := []\<rparr>)"

definition ck_noMoreData :: "chunked_decoder \<Rightarrow> (chunk_error, chunked_decoder) outcome" where
  "ck_noMoreData s = (if ck_state s \<noteq> FINISHED then Exc DataLoss s else Ok s)"


section \<open>Chunk headers\<close>

lemma hex_clean:
  assumes "c \<in> set hex_digits"
  shows "hex_val c \<noteq> None" "\<not> is_space c" "c \<noteq> CHR '';''" "c \<noteq> CR" "c \<noteq> CHR ''-''" "c \<noteq> CHR ''+''" "c \<noteq> CHR ''x''" "c \<noteq> CHR ''X''"
  using assms by (auto simp: hex_digits_def hex_val_def is_space_def)

lemma take_not_in: "c \<notin> set s \<Longrightarrow> take 1 s \<noteq> [c]" "c \<notin> set s \<Longrightarrow> take 2 s \<noteq> [a, c]"
  by (cases s; auto) (metis in_set_takeD list.set_intros(1) list.set_intros(2))

lemma py_strip_clean: "\<forall>c \<in> set s. \<not> is_space c \<Longrightarrow> py_strip s = s"
proof -
  assume s: "\<forall>c \<in> set s. \<not> is_space c"
  then have "dropWhile is_space t = t" if "set t \<subseteq> set s" for t using that by (cases t) auto
  then show ?thesis by (simp add: py_strip_def)
qed

lemma py_int16_hex: "py_int16 (hex n) = Some (int n)"
proof -
  have "\<forall>c \<in> set (hex n). c \<in> set hex_digits" "hex n \<noteq> []" using hex_chars [of n] by auto
  note all = this(1) hex_clean [OF bspec [OF this(1)]]
  have strip: "py_strip (hex n) = hex n" using all(3) by (intro py_strip_clean) blast
  have "CHR ''-'' \<notin> set (hex n)" "CHR ''+'' \<notin> set (hex n)" "CHR ''x'' \<notin> set (hex n)" "CHR ''X'' \<notin> set (hex n)"
    using all(6-9) by blast+
  note no = take_not_in(1) [OF this(1)] take_not_in(1) [OF this(2)] take_not_in(2) [OF this(3)] take_not_in(2) [OF this(4)]
  have digits: "list_all (\<lambda>c. hex_val c \<noteq> None) (hex n)" using all(2) by (simp add: list_all_iff)
  show ?thesis using \<open>hex n \<noteq> []\<close> digits no by (simp add: py_int16_def strip hex_value Let_def)
qed

lemma split_no_CR: "CR \<notin> set s \<Longrightarrow> split_once CRLF (s @ CRLF @ r) = Some (s, r)"
proof (induction s)
  case Nil
  show ?case by (subst split_once.simps) simp
next
  case (Cons c s)
  then have "take (length CRLF) ((c # s) @ CRLF @ r) \<noteq> CRLF" by auto
  with Cons show ?case by (subst split_once.simps) simp
qed

lemma split_hex: "split_once CRLF (hex n @ CRLF @ r) = Some (hex n, r)"
  using hex_chars [of n] hex_clean(4) by (intro split_no_CR) blast

lemma header_hex: "takeWhile (\<lambda>c. c \<noteq> CHR '';'') (hex n) = hex n"
  using hex_chars [of n] hex_clean(3) by (intro takeWhile_eq_all_conv [THEN iffD2]) blast

section \<open>Chunk boundaries\<close>

definition ck_body :: "decoder_event list \<Rightarrow> bytes" where
  "ck_body es = concat (List.map_filter (\<lambda>e. case e of BodyData d \<Rightarrow> Some d | BodyFinished r \<Rightarrow> None) es)"

definition ck_ends :: "decoder_event list \<Rightarrow> bytes list" where
  "ck_ends es = List.map_filter (\<lambda>e. case e of BodyData d \<Rightarrow> None | BodyFinished r \<Rightarrow> Some r) es"

lemma ck_body_simps [simp]: "ck_body [] = []" "ck_body (es @ [BodyData d]) = ck_body es @ d"
    "ck_body (es @ [BodyFinished r]) = ck_body es"
  by (simp_all add: ck_body_def List.map_filter_def)

lemma ck_ends_simps [simp]: "ck_ends [] = []" "ck_ends (es @ [BodyData d]) = ck_ends es"
    "ck_ends (es @ [BodyFinished r]) = ck_ends es @ [r]"
  by (simp_all add: ck_ends_def List.map_filter_def)

text \<open>What is seen of a decoder, whatever pieces the body was handed out in.\<close>

definition ck_view :: "chunked_decoder \<Rightarrow> chunk_state \<times> bytes \<times> int \<times> bytes \<times> bytes list" where
  "ck_view s = (ck_state s, ck_buffer s, (if ck_state s = BODY then ck_length s else 0), ck_body (ck_events s), ck_ends (ck_events s))"

text \<open>No chunk of a negative size, and nothing after the end.\<close>

definition ck_ok :: "chunked_decoder \<Rightarrow> bool" where
  "ck_ok s \<longleftrightarrow> (ck_state s = BODY \<longrightarrow> 0 < ck_length s) \<and> concat (ck_ends (ck_events s)) = []"

function ck_safe :: "bytes \<Rightarrow> chunked_decoder \<Rightarrow> bool" where
  "ck_safe d s \<longleftrightarrow> ck_ok s \<and>
     (d \<noteq> [] \<longrightarrow> (case ck_handler (ck_state s) d s of Exc e p \<Rightarrow> False | Ok (rest, t) \<Rightarrow> ck_safe rest t))"
  by pat_completeness auto
termination
  by (relation "measure ck_measure") (auto intro: ck_handler_decreases)

declare ck_safe.simps [simp del]

text \<open>Two decoders with the same view do the same.\<close>

fun ck_same :: "ck_result \<Rightarrow> ck_result \<Rightarrow> bool" where
  "ck_same (Ok (r, t)) (Ok (r', t')) \<longleftrightarrow> r = r' \<and> ck_view t = ck_view t'"
| "ck_same (Exc e p) (Exc e' p') \<longleftrightarrow> e = e' \<and> ck_view (snd p) = ck_view (snd p')"
| "ck_same r r' \<longleftrightarrow> False"

lemma ck_handler_same:
  assumes "ck_view s = ck_view u"
  shows "ck_same (ck_handler (ck_state s) d s) (ck_handler (ck_state u) d u)"
proof -
  have u: "ck_state u = ck_state s" "ck_buffer u = ck_buffer s" "ck_body (ck_events u) = ck_body (ck_events s)"
    "ck_ends (ck_events u) = ck_ends (ck_events s)" and len: "ck_state s = BODY \<Longrightarrow> ck_length u = ck_length s"
    using assms by (simp_all add: ck_view_def)
  show ?thesis
  proof (cases "ck_state s")
    case CHUNK_LENGTH
    then show ?thesis by (simp add: u ck_CHUNK_LENGTH_def ck_view_def split: option.split)
  next
    case CHUNK_CRLF
    then show ?thesis by (simp add: u ck_CRLF_def ck_view_def)
  next
    case TRAILER
    then show ?thesis by (simp add: u ck_TRAILER_def ck_view_def ck_event_def)
  next
    case BODY
    then show ?thesis by (simp add: u len [OF BODY] ck_BODY_def ck_view_def ck_event_def)
  next
    case FINISHED
    then show ?thesis by (simp add: u ck_FINISHED_def ck_view_def)
  qed
qed

lemma ck_loop_simps [simp]:
  "ck_loop [] s = Ok s"
  "d \<noteq> [] \<Longrightarrow> ck_handler (ck_state s) d s = Ok (rest, t) \<Longrightarrow> ck_loop d s = ck_loop rest t"
  "d \<noteq> [] \<Longrightarrow> ck_handler (ck_state s) d s = Exc e p \<Longrightarrow> ck_loop d s = Exc e (snd p)"
  by (subst ck_loop.simps; simp add: prod.case_eq_if)+

lemma ck_safe_simps [simp]:
  "ck_safe [] s = ck_ok s"
  "d \<noteq> [] \<Longrightarrow> ck_handler (ck_state s) d s = Ok (rest, t) \<Longrightarrow> ck_safe d s = (ck_ok s \<and> ck_safe rest t)"
  "d \<noteq> [] \<Longrightarrow> ck_handler (ck_state s) d s = Exc e p \<Longrightarrow> ck_safe d s = False"
  by (subst ck_safe.simps; simp)+

lemma ck_ok_same: "ck_view s = ck_view u \<Longrightarrow> ck_ok s = ck_ok u"
  by (auto simp: ck_view_def ck_ok_def split: if_splits)

lemma ck_loop_same:
  "ck_view s = ck_view u \<Longrightarrow> ck_safe d s = ck_safe d u \<and> ck_view (state_of (ck_loop d s)) = ck_view (state_of (ck_loop d u))"
proof (induction d s arbitrary: u rule: ck_loop.induct)
  case (1 d s)
  note same = ck_handler_same [OF "1.prems", of d]
  show ?case
  proof (cases "d = []")
    case True
    then show ?thesis using ck_ok_same [OF "1.prems"] "1.prems" by simp
  next
    case False
    show ?thesis
    proof (cases "ck_handler (ck_state s) d s")
      case (Exc e p)
      with same obtain p' where p': "ck_handler (ck_state u) d u = Exc e p'" "ck_view (snd p) = ck_view (snd p')"
        by (cases "ck_handler (ck_state u) d u") auto
      show ?thesis using ck_loop_simps(3) [OF False Exc] ck_loop_simps(3) [OF False p'(1)]
          ck_safe_simps(3) [OF False Exc] ck_safe_simps(3) [OF False p'(1)] p'(2) by simp
    next
      case (Ok p)
      obtain rest t where p: "p = (rest, t)" by fastforce
      with same Ok obtain t' where t': "ck_handler (ck_state u) d u = Ok (rest, t')" "ck_view t = ck_view t'"
        by (cases "ck_handler (ck_state u) d u") auto
      note Ok' = Ok [unfolded p]
      from "1.IH" [OF False Ok p [symmetric] t'(2)] ck_ok_same [OF "1.prems"] show ?thesis
        using ck_loop_simps(2) [OF False Ok'] ck_loop_simps(2) [OF False t'(1)]
          ck_safe_simps(2) [OF False Ok'] ck_safe_simps(2) [OF False t'(1)] by simp
    qed
  qed
qed


text \<open>
  A handler that got a first part of the data either leaves work that the whole data also leaves,
  or has stored or consumed the part, and goes on from there with the rest.
\<close>

lemma ck_handler_split:
  assumes "x \<noteq> []" "ck_buffer s = []" "ck_ok s" "ck_safe (x @ y) s"
  shows "(\<exists>rest t. ck_handler (ck_state s) x s = Ok (rest, t) \<and> ck_handler (ck_state s) (x @ y) s = Ok (rest @ y, t) \<and>
        ck_buffer t = []) \<or>
    (\<exists>t. ck_handler (ck_state s) x s = Ok ([], t) \<and> ck_ok t \<and> ck_safe (ck_buffer t @ y) (t\<lparr>ck_buffer := []\<rparr>) \<and>
        ck_view (state_of (ck_loop (ck_buffer t @ y) (t\<lparr>ck_buffer := []\<rparr>))) = ck_view (state_of (ck_loop (x @ y) s)))"
proof -
  have idle: "s\<lparr>ck_buffer := []\<rparr> = s" using assms(2) by (cases s) simp
  show ?thesis
proof (cases "ck_state s")
  case CHUNK_LENGTH
  show ?thesis
  proof (cases "split_once CRLF x")
    case None
    with CHUNK_LENGTH assms show ?thesis by (simp add: ck_CHUNK_LENGTH_def ck_ok_def idle)
  next
    case (Some p)
    obtain line rest where p: "p = (line, rest)" by fastforce
    have whole: "split_once CRLF (x @ y) = Some (line, rest @ y)" using split_once_append Some p by blast
    obtain n where n: "py_int16 (takeWhile (\<lambda>c. c \<noteq> CHR '';'') line) = Some n"
    proof (cases "py_int16 (takeWhile (\<lambda>c. c \<noteq> CHR '';'') line)")
      case None
      with CHUNK_LENGTH whole have "ck_handler (ck_state s) (x @ y) s = Exc MalformedChunkedData (x @ y, s)"
        by (simp add: ck_CHUNK_LENGTH_def)
      from ck_safe_simps(3) [OF _ this] assms(1,4) show ?thesis by simp
    qed
    with CHUNK_LENGTH Some whole p assms(2) show ?thesis by (simp add: ck_CHUNK_LENGTH_def)
  qed
next
  case CHUNK_CRLF
  show ?thesis
  proof (cases "take 2 x = CRLF")
    case True
    have "length x \<ge> 2" using arg_cong [OF True, of length] by simp
    with True CHUNK_CRLF assms(2) show ?thesis by (simp add: ck_CRLF_def)
  next
    case False
    with CHUNK_CRLF assms show ?thesis by (simp add: ck_CRLF_def ck_ok_def idle)
  qed
next
  case TRAILER
  show ?thesis
  proof (cases "take 2 x = CRLF")
    case True
    have "length x \<ge> 2" using arg_cong [OF True, of length] by simp
    with True TRAILER have whole: "ck_handler (ck_state s) (x @ y) s =
        Ok ([], ck_event (BodyFinished (drop 2 x @ y)) (s\<lparr>ck_state := FINISHED\<rparr>))" by (simp add: ck_TRAILER_def)
    from assms(1,4) ck_safe_simps(2) [OF _ whole] have "ck_ok (ck_event (BodyFinished (drop 2 x @ y)) (s\<lparr>ck_state := FINISHED\<rparr>))"
      by simp
    then have y: "y = []" "drop 2 x = []" by (simp_all add: ck_ok_def ck_event_def)
    with True TRAILER assms(2) whole show ?thesis by (simp add: ck_TRAILER_def ck_event_def)
  next
    case False
    with TRAILER assms show ?thesis by (simp add: ck_TRAILER_def ck_ok_def idle)
  qed
next
  case BODY
  with assms(3) have n: "0 < ck_length s" by (simp add: ck_ok_def)
  show ?thesis
  proof (cases "ck_length s \<le> int (length x)")
    case True
    with n have "slice_from (ck_length s) (x @ y) = slice_from (ck_length s) x @ y"
      "slice_to (ck_length s) (x @ y) = slice_to (ck_length s) x" by (simp_all add: slice_from_def slice_to_def)
    with BODY True assms(2) show ?thesis by (simp add: ck_BODY_def ck_event_def)
  next
    case False
    let ?t = "ck_event (BodyData x) (s\<lparr>ck_length := ck_length s - int (length x)\<rparr>)"
    have part: "ck_handler (ck_state s) x s = Ok ([], ?t)" using BODY False by (simp add: ck_BODY_def)
    have t: "ck_ok ?t" "ck_state ?t = BODY" "ck_buffer ?t = []" "?t\<lparr>ck_buffer := []\<rparr> = ?t"
      using BODY False assms(2,3) by (simp_all add: ck_ok_def ck_event_def)
    have "ck_safe y ?t \<and> ck_view (state_of (ck_loop y ?t)) = ck_view (state_of (ck_loop (x @ y) s))"
    proof (cases "y = []")
      case True
      then have "ck_loop (x @ y) s = Ok ?t" using part assms(1) ck_loop_simps(2) [OF assms(1) part] by simp
      with True t(1) show ?thesis by simp
    next
      case y: False
      have xy: "x @ y \<noteq> []" using assms(1) by simp
      show ?thesis
      proof (cases "ck_length s \<le> int (length x + length y)")
        case True
        let ?n = "nat (ck_length s) - length x"
        define a where "a = (ck_event (BodyData (x @ take ?n y)) s)\<lparr>ck_state := CHUNK_CRLF\<rparr>"
        define b where "b = (ck_event (BodyData (take ?n y)) ?t)\<lparr>ck_state := CHUNK_CRLF\<rparr>"
        have k: "nat (ck_length s - int (length x)) = ?n" "nat (ck_length s) \<ge> length x" using False by simp_all
        have ha: "ck_handler (ck_state s) (x @ y) s = Ok (drop ?n y, a)"
          using BODY True n k by (simp add: ck_BODY_def slice_from_def slice_to_def a_def)
        have hb: "ck_handler (ck_state ?t) y ?t = Ok (drop ?n y, b)"
          using t(2) True False k by (simp add: ck_BODY_def slice_from_def slice_to_def b_def ck_event_def)
        have "ck_view b = ck_view a" by (simp add: a_def b_def ck_view_def ck_event_def)
             (simp add: ck_body_def List.map_filter_def ck_ends_def)
        note same = ck_loop_same [OF this, of "drop ?n y"]
        have "ck_safe (drop ?n y) a" using assms(4) ck_safe_simps(2) [OF xy ha] by simp
        with same show ?thesis
          using ck_loop_simps(2) [OF xy ha] ck_loop_simps(2) [OF y hb] ck_safe_simps(2) [OF y hb] t(1) by simp
      next
        case more: False
        define a where "a = ck_event (BodyData (x @ y)) (s\<lparr>ck_length := ck_length s - int (length (x @ y))\<rparr>)"
        define b where "b = ck_event (BodyData y) (?t\<lparr>ck_length := ck_length ?t - int (length y)\<rparr>)"
        have ha: "ck_handler (ck_state s) (x @ y) s = Ok ([], a)" using BODY more by (simp add: ck_BODY_def a_def)
        have hb: "ck_handler (ck_state ?t) y ?t = Ok ([], b)"
          using t(2) more by (simp add: ck_BODY_def b_def ck_event_def)
        have view: "ck_view b = ck_view a" using BODY by (simp add: a_def b_def ck_view_def ck_event_def)
             (simp add: ck_body_def List.map_filter_def ck_ends_def)
        have "ck_ok a" using assms(4) ck_safe_simps(2) [OF xy ha] by simp
        then have "ck_ok b" using ck_ok_same [OF view] by simp
        then show ?thesis
          using ck_loop_simps(2) [OF xy ha] ck_loop_simps(2) [OF y hb] ck_safe_simps(2) [OF y hb] t(1) view by simp
      qed
    qed
    then have "ck_safe (ck_buffer ?t @ y) (?t\<lparr>ck_buffer := []\<rparr>) \<and>
        ck_view (state_of (ck_loop (ck_buffer ?t @ y) (?t\<lparr>ck_buffer := []\<rparr>))) = ck_view (state_of (ck_loop (x @ y) s))"
      by (simp only: t(3,4) append_Nil)
    with part t(1) show ?thesis by blast
  qed
next
  case FINISHED
  with assms ck_safe_simps(3) [of "x @ y" s DecoderFinished "(x @ y, s)"] show ?thesis by (simp add: ck_FINISHED_def)
qed
qed


lemma ck_safe_ok: "ck_safe d s \<Longrightarrow> ck_ok s"
  by (subst (asm) ck_safe.simps) blast

lemma ck_loop_split:
  "ck_buffer s = [] \<Longrightarrow> ck_safe (x @ y) s \<Longrightarrow>
     \<exists>t. ck_loop x s = Ok t \<and> ck_safe x s \<and> ck_safe (ck_buffer t @ y) (t\<lparr>ck_buffer := []\<rparr>) \<and>
       ck_view (state_of (ck_loop (ck_buffer t @ y) (t\<lparr>ck_buffer := []\<rparr>))) = ck_view (state_of (ck_loop (x @ y) s))"
proof (induction x s rule: ck_loop.induct)
  case (1 x s)
  note ok = ck_safe_ok [OF "1.prems"(2)]
  show ?case
  proof (cases "x = []")
    case True
    have "s\<lparr>ck_buffer := []\<rparr> = s" using "1.prems"(1) by (cases s) simp
    then have "ck_safe (ck_buffer s @ y) (s\<lparr>ck_buffer := []\<rparr>) \<and>
        ck_view (state_of (ck_loop (ck_buffer s @ y) (s\<lparr>ck_buffer := []\<rparr>))) = ck_view (state_of (ck_loop (x @ y) s))"
      using True "1.prems" by (simp only: append_Nil)
    with True ok show ?thesis by (auto intro!: exI [of _ s])
  next
    case False
    then have xy: "x @ y \<noteq> []" by simp
    from ck_handler_split [OF False "1.prems"(1) ok "1.prems"(2)] show ?thesis
    proof (elim disjE exE conjE)
      fix rest t
      assume h: "ck_handler (ck_state s) x s = Ok (rest, t)"
        and w: "ck_handler (ck_state s) (x @ y) s = Ok (rest @ y, t)" and t: "ck_buffer t = []"
      have "ck_safe (rest @ y) t" using ck_safe_simps(2) [OF xy w] "1.prems"(2) by simp
      from "1.IH" [OF False h refl t this] ok show ?thesis
        by (simp only: ck_loop_simps(2) [OF False h] ck_loop_simps(2) [OF xy w] ck_safe_simps(2) [OF False h]) simp
    next
      fix t
      assume h: "ck_handler (ck_state s) x s = Ok ([], t)" and t: "ck_ok t"
        and rest: "ck_safe (ck_buffer t @ y) (t\<lparr>ck_buffer := []\<rparr>)"
          "ck_view (state_of (ck_loop (ck_buffer t @ y) (t\<lparr>ck_buffer := []\<rparr>))) = ck_view (state_of (ck_loop (x @ y) s))"
      have "ck_loop x s = Ok t" "ck_safe x s" using ck_loop_simps(2) [OF False h] ck_safe_simps(2) [OF False h] t ok by simp_all
      with rest show ?thesis by blast
    qed
  qed
qed

definition ck_recv :: "bytes \<Rightarrow> chunked_decoder \<Rightarrow> chunked_decoder" where
  "ck_recv d s = state_of (ck_dataReceived d s)"

definition ck_accepts :: "bytes \<Rightarrow> chunked_decoder \<Rightarrow> bool" where
  "ck_accepts d s \<longleftrightarrow> ck_safe (ck_buffer s @ d) (s\<lparr>ck_buffer := []\<rparr>)"

interpretation ck_stream: stream_receiver ck_recv ck_view ck_accepts
proof
  fix x y :: bytes and s :: chunked_decoder
  assume "ck_accepts (x @ y) s"
  with ck_loop_split [of "s\<lparr>ck_buffer := []\<rparr>" "ck_buffer s @ x" y]
  show "ck_accepts x s \<and> ck_accepts y (ck_recv x s)" "ck_view (ck_recv (x @ y) s) = ck_view (ck_recv y (ck_recv x s))"
    by (auto simp: ck_accepts_def ck_recv_def ck_dataReceived_def)
next
  fix s u :: chunked_decoder and d :: bytes
  assume eq: "ck_view s = ck_view u"
  then have "ck_view (s\<lparr>ck_buffer := []\<rparr>) = ck_view (u\<lparr>ck_buffer := []\<rparr>)" "ck_buffer s = ck_buffer u"
    by (auto simp: ck_view_def split: if_splits)
  with ck_loop_same [OF this(1)] show "ck_accepts d s = ck_accepts d u \<and> ck_view (ck_recv d s) = ck_view (ck_recv d u)"
    by (simp add: ck_accepts_def ck_recv_def ck_dataReceived_def)
qed

text \<open>Data that is accepted raises nothing.\<close>

definition ck_feed :: "bytes list \<Rightarrow> chunked_decoder \<Rightarrow> (chunk_error, chunked_decoder) outcome" where
  "ck_feed cs s = foldl (\<lambda>r d. and_then r (ck_dataReceived d)) (Ok s) cs"

lemma ck_accepts_Ok: "ck_accepts d s \<Longrightarrow> ck_dataReceived d s = Ok (ck_recv d s)"
  using ck_loop_split [of "s\<lparr>ck_buffer := []\<rparr>" "ck_buffer s @ d" "[]"]
  by (auto simp: ck_accepts_def ck_recv_def ck_dataReceived_def)

lemma ck_feed_Ok: "ck_accepts (concat cs) s \<Longrightarrow> ck_feed cs s = Ok (feed ck_recv cs s)"
proof (induction cs arbitrary: s)
  case Nil
  show ?case by (simp add: ck_feed_def)
next
  case (Cons c cs)
  from Cons.prems have c: "ck_accepts c s" and cs: "ck_accepts (concat cs) (ck_recv c s)"
    using ck_stream.safe_append by auto
  from Cons.IH [OF cs] show ?case by (simp add: ck_feed_def ck_accepts_Ok [OF c])
qed

section \<open>Encoding and decoding\<close>

definition chunked :: "bytes \<Rightarrow> bytes" where
  "chunked m = concat (toChunk m)"

lemma ck_header:
  assumes "ck_state s = CHUNK_LENGTH" "ck_ok s"
  shows "ck_loop (hex n @ CRLF @ r) s = ck_loop r (s\<lparr>ck_length := int n, ck_state := (if int n = 0 then TRAILER else BODY)\<rparr>)"
    "ck_safe (hex n @ CRLF @ r) s = ck_safe r (s\<lparr>ck_length := int n, ck_state := (if int n = 0 then TRAILER else BODY)\<rparr>)"
proof -
  have ne: "hex n @ CRLF @ r \<noteq> []" by simp
  have "ck_handler (ck_state s) (hex n @ CRLF @ r) s = Ok (r, s\<lparr>ck_length := int n, ck_state := (if int n = 0 then TRAILER else BODY)\<rparr>)"
    by (simp only: assms(1) ck_handler.simps ck_CHUNK_LENGTH_def split_hex header_hex py_int16_hex option.case prod.case)
  from ck_loop_simps(2) [OF ne this] ck_safe_simps(2) [OF ne this] assms(2)
  show "ck_loop (hex n @ CRLF @ r) s = ck_loop r (s\<lparr>ck_length := int n, ck_state := (if int n = 0 then TRAILER else BODY)\<rparr>)"
    "ck_safe (hex n @ CRLF @ r) s = ck_safe r (s\<lparr>ck_length := int n, ck_state := (if int n = 0 then TRAILER else BODY)\<rparr>)"
    by simp_all
qed

definition ck_after :: "bytes \<Rightarrow> chunked_decoder \<Rightarrow> chunked_decoder" where
  "ck_after m s = (ck_event (BodyData m) (s\<lparr>ck_length := int (length m)\<rparr>))\<lparr>ck_state := CHUNK_LENGTH\<rparr>"

lemma ck_chunk:
  assumes "ck_state s = CHUNK_LENGTH" "ck_ok s" "m \<noteq> []"
  shows "ck_loop (chunked m @ r) s = ck_loop r (ck_after m s) \<and>
    ck_safe (chunked m @ r) s = ck_safe r (ck_after m s)"
proof -
  let ?b = "s\<lparr>ck_length := int (length m), ck_state := BODY\<rparr>"
  let ?c = "(ck_event (BodyData m) ?b)\<lparr>ck_state := CHUNK_CRLF\<rparr>"
  have b: "m @ CRLF @ r \<noteq> []" "ck_handler (ck_state ?b) (m @ CRLF @ r) ?b = Ok (CRLF @ r, ?c)" "ck_ok ?b"
    using assms by (simp_all add: ck_BODY_def slice_from_def slice_to_def ck_ok_def)
  have c: "CRLF @ r \<noteq> []" "ck_handler (ck_state ?c) (CRLF @ r) ?c = Ok (r, ck_after m s)" "ck_ok ?c"
    using assms(2) by (simp_all add: ck_CRLF_def ck_ok_def ck_event_def ck_after_def)
  have enc: "chunked m @ r = hex (length m) @ CRLF @ m @ CRLF @ r" by (simp add: chunked_def toChunk_def)
  have hb: "s\<lparr>ck_length := int (length m), ck_state := (if int (length m) = 0 then TRAILER else BODY)\<rparr> = ?b"
    using assms(3) by simp
  show ?thesis
    unfolding enc ck_header [OF assms(1,2)] hb ck_loop_simps(2) [OF b(1,2)] ck_safe_simps(2) [OF b(1,2)]
      ck_loop_simps(2) [OF c(1,2)] ck_safe_simps(2) [OF c(1,2)] using b(3) c(3) by blast
qed

lemma ck_after_fields [simp]: "ck_state (ck_after m s) = CHUNK_LENGTH" "ck_buffer (ck_after m s) = ck_buffer s"
  "ck_body (ck_events (ck_after m s)) = ck_body (ck_events s) @ m" "ck_ends (ck_events (ck_after m s)) = ck_ends (ck_events s)"
  by (simp_all add: ck_after_def ck_event_def)

lemma ck_chunks:
  "ck_state s = CHUNK_LENGTH \<Longrightarrow> ck_ok s \<Longrightarrow> [] \<notin> set ms \<Longrightarrow>
     \<exists>t. ck_loop (concat (map chunked ms) @ r) s = ck_loop r t \<and>
       ck_safe (concat (map chunked ms) @ r) s = ck_safe r t \<and> ck_state t = CHUNK_LENGTH \<and> ck_ok t \<and>
       ck_buffer t = ck_buffer s \<and> ck_body (ck_events t) = ck_body (ck_events s) @ concat ms \<and>
       ck_ends (ck_events t) = ck_ends (ck_events s)"
proof (induction ms arbitrary: s)
  case Nil
  then show ?case by (intro exI [of _ s]) simp
next
  case (Cons m ms)
  from Cons.prems have ok: "ck_ok (ck_after m s)" "[] \<notin> set ms" by (simp_all add: ck_ok_def)
  have step: "concat (map chunked (m # ms)) @ r = chunked m @ concat (map chunked ms) @ r" by simp
  note one = ck_chunk [of s m "concat (map chunked ms) @ r"]
  have all: "ck_body (ck_events s) @ concat (m # ms) = (ck_body (ck_events s) @ m) @ concat ms" by simp
  from Cons.IH [OF ck_after_fields(1) ok] Cons.prems one show ?case unfolding step all ck_after_fields by auto
qed

lemma ck_last:
  assumes "ck_state s = CHUNK_LENGTH" "ck_ok s"
  shows "ck_loop (chunked []) s = Ok (ck_event (BodyFinished []) (s\<lparr>ck_length := 0, ck_state := FINISHED\<rparr>))"
    "ck_safe (chunked []) s"
proof -
  let ?t = "s\<lparr>ck_length := 0, ck_state := TRAILER\<rparr>"
  let ?u = "ck_event (BodyFinished []) (s\<lparr>ck_length := 0, ck_state := FINISHED\<rparr>)"
  have h: "chunked [] = hex 0 @ CRLF @ CRLF" by (simp add: chunked_def toChunk_def)
  have t: "CRLF \<noteq> []" "ck_handler (ck_state ?t) CRLF ?t = Ok ([], ?u)" "ck_ok ?t" "ck_ok ?u"
    using assms(2) by (simp_all add: ck_TRAILER_def ck_ok_def ck_event_def)
  from ck_header [OF assms, of 0 CRLF] ck_loop_simps(2) [OF t(1,2)] ck_safe_simps(2) [OF t(1,2)] t(3,4)
  show "ck_loop (chunked []) s = Ok ?u" "ck_safe (chunked []) s" unfolding h by simp_all
qed


lemma ck_init_fields [simp]: "ck_state ck_init = CHUNK_LENGTH" "ck_buffer ck_init = []" "ck_events ck_init = []" "ck_ok ck_init"
    "ck_init\<lparr>ck_buffer := []\<rparr> = ck_init"
  by (simp_all add: ck_init_def ck_ok_def)

lemma encoding_accepted:
  assumes "[] \<notin> set ms" "x = concat (map chunked ms) @ chunked []"
  shows "ck_accepts x ck_init" "\<exists>t. ck_recv x ck_init = t \<and> ck_state t = FINISHED \<and> ck_buffer t = [] \<and>
    ck_body (ck_events t) = concat ms \<and> ck_ends (ck_events t) = [[]]"
proof -
  from ck_chunks [of ck_init ms "chunked []"] assms(1) obtain t where
    t: "ck_loop (concat (map chunked ms) @ chunked []) ck_init = ck_loop (chunked []) t"
      "ck_safe (concat (map chunked ms) @ chunked []) ck_init = ck_safe (chunked []) t"
      "ck_state t = CHUNK_LENGTH" "ck_ok t" "ck_buffer t = []" "ck_body (ck_events t) = concat ms" "ck_ends (ck_events t) = []"
    by auto
  note last = ck_last [OF t(3,4)]
  show "ck_accepts x ck_init" using last(2) t(2) assms(2) by (simp add: ck_accepts_def)
  show "\<exists>t. ck_recv x ck_init = t \<and> ck_state t = FINISHED \<and> ck_buffer t = [] \<and>
    ck_body (ck_events t) = concat ms \<and> ck_ends (ck_events t) = [[]]"
    using last(1) t(1,5-7) assms(2) by (simp add: ck_recv_def ck_dataReceived_def ck_event_def)
qed

lemma chunked_not_empty: "chunked m \<noteq> []"
  by (simp add: chunked_def toChunk_def)

text \<open>
  C34: A body sent as non-empty chunks and the terminating empty chunk (\<open>Request.write\<close> and
  \<open>Request.finish\<close>) is received whole, in whatever pieces the transport delivers it: no call raises,
  the data callbacks together get exactly the body, the finish callback is called once with no extra
  data, and \<open>noMoreData\<close> finds nothing missing.
\<close>
theorem chunked_roundtrip:
  assumes "[] \<notin> set ms" and "concat cs = concat (map chunked ms) @ chunked []"
  shows "\<exists>s. ck_feed cs ck_init = Ok s \<and> ck_state s = FINISHED \<and> ck_body (ck_events s) = concat ms \<and>
    ck_ends (ck_events s) = [[]] \<and> ck_noMoreData s = Ok s"
proof -
  have "cs \<noteq> []" using assms(2) chunked_not_empty by auto
  from ck_stream.feed_concat [OF this encoding_accepted(1) [OF assms]] encoding_accepted(2) [OF assms]
  have "ck_state (feed ck_recv cs ck_init) = FINISHED \<and> ck_body (ck_events (feed ck_recv cs ck_init)) = concat ms \<and>
      ck_ends (ck_events (feed ck_recv cs ck_init)) = [[]]" by (simp add: ck_view_def)
  with ck_feed_Ok [OF encoding_accepted(1) [OF assms]] show ?thesis by (simp add: ck_noMoreData_def)
qed

lemma chunked_roundtrip_witness:
  "\<exists>s. ck_feed [''3'', [CR], [LF, CHR ''a'', CHR ''b''], ''c'' @ CRLF @ ''0'', CRLF @ [CR], [LF]] ck_init = Ok s \<and>
     ck_state s = FINISHED \<and> ck_body (ck_events s) = concat [''abc''] \<and> ck_ends (ck_events s) = [[]] \<and> ck_noMoreData s = Ok s"
  by (rule chunked_roundtrip) (simp_all add: chunked_def toChunk_def hex.simps hex_digits_def)

section \<open>Truncated bodies\<close>

lemma ck_body_append [simp]: "ck_body (es @ fs) = ck_body es @ ck_body fs"
  by (simp add: ck_body_def List.map_filter_def)

text \<open>The finish callback is called when the decoder becomes finished, and events are only added.\<close>

definition ck_grows :: "chunked_decoder \<Rightarrow> chunked_decoder \<Rightarrow> bool" where
  "ck_grows s t \<longleftrightarrow> (\<exists>es. ck_events t = ck_events s @ es) \<and>
     ((ck_ends (ck_events s) \<noteq> [] \<longrightarrow> ck_state s = FINISHED) \<longrightarrow> (ck_ends (ck_events t) \<noteq> [] \<longrightarrow> ck_state t = FINISHED))"

lemma ck_grows_refl [simp]: "ck_grows s s"
  by (simp add: ck_grows_def)

lemma ck_grows_trans: "ck_grows s t \<Longrightarrow> ck_grows t u \<Longrightarrow> ck_grows s u"
  by (auto simp: ck_grows_def)

lemma ck_handler_grows: "ck_handler (ck_state s) d s = Ok (rest, t) \<Longrightarrow> ck_grows s t"
  by (cases "ck_state s") (auto simp: ck_CHUNK_LENGTH_def ck_CRLF_def ck_TRAILER_def ck_BODY_def ck_FINISHED_def ck_event_def ck_grows_def
      split: option.splits if_splits)

lemma ck_handler_raise: "ck_handler (ck_state s) d s = Exc e p \<Longrightarrow> snd p = s"
  by (cases "ck_state s") (auto simp: ck_CHUNK_LENGTH_def ck_CRLF_def ck_TRAILER_def ck_BODY_def ck_FINISHED_def
      split: option.splits if_splits)

lemma ck_loop_grows: "ck_grows s (state_of (ck_loop d s))"
proof (induction d s rule: ck_loop.induct)
  case (1 d s)
  show ?case
  proof (cases "d = []")
    case False
    show ?thesis
    proof (cases "ck_handler (ck_state s) d s")
      case (Exc e p)
      with ck_loop_simps(3) [OF False Exc] ck_handler_raise [OF Exc] show ?thesis by simp
    next
      case (Ok p)
      obtain rest t where p: "p = (rest, t)" by fastforce
      note Ok' = Ok [unfolded p]
      from ck_grows_trans [OF ck_handler_grows [OF Ok'] "1.IH" [OF False Ok p [symmetric]]] show ?thesis
        using ck_loop_simps(2) [OF False Ok'] by simp
    qed
  qed simp
qed

lemma ck_recv_grows: "ck_grows s (ck_recv d s)"
  using ck_loop_grows [of "s\<lparr>ck_buffer := []\<rparr>" "ck_buffer s @ d"]
  by (simp add: ck_recv_def ck_dataReceived_def ck_grows_def)

lemma ck_accepts_finished: "ck_state s = FINISHED \<Longrightarrow> ck_accepts d s \<Longrightarrow> d = []"
  using ck_safe_simps(3) [of "ck_buffer s @ d" "s\<lparr>ck_buffer := []\<rparr>" DecoderFinished "(ck_buffer s @ d, s\<lparr>ck_buffer := []\<rparr>)"]
  by (auto simp: ck_accepts_def ck_FINISHED_def)

text \<open>
  C35: Of such a body, when the connection ends before all of its encoding has arrived, what the data
  callbacks got is a beginning of the body, the finish callback has not been called, and
  \<open>noMoreData\<close> raises \<open>_DataLoss\<close>: a truncated body is never taken for a complete one.
\<close>
theorem chunked_truncation:
  assumes "[] \<notin> set ms" and "concat cs @ y = concat (map chunked ms) @ chunked []" and "y \<noteq> []"
  shows "\<exists>s rest. ck_feed cs ck_init = Ok s \<and> concat ms = ck_body (ck_events s) @ rest \<and> ck_ends (ck_events s) = [] \<and>
    ck_noMoreData s = Exc DataLoss s"
proof -
  define s where "s = feed ck_recv cs ck_init"
  have all: "concat (cs @ [y]) = concat (map chunked ms) @ chunked []" using assms(2) by simp
  note enc = encoding_accepted [OF assms(1) all]
  from ck_stream.feed_concat [OF _ enc(1)] enc(2)
  have t: "ck_body (ck_events (ck_recv y s)) = concat ms" by (simp add: ck_view_def s_def)
  have "ck_accepts (concat cs @ y) ck_init" using enc(1) by simp
  then have acc: "ck_accepts (concat cs) ck_init" "ck_accepts y s"
    unfolding s_def using ck_stream.safe_append ck_stream.feed_safe by blast+
  have "ck_grows ck_init s" unfolding s_def by (rule feed_invariant) (auto intro: ck_grows_trans ck_recv_grows)
  moreover have open_: "ck_state s \<noteq> FINISHED" using ck_accepts_finished acc(2) assms(3) by blast
  ultimately have "ck_ends (ck_events s) = []" by (simp add: ck_grows_def)
  moreover obtain es where "ck_events (ck_recv y s) = ck_events s @ es" using ck_recv_grows [of s y] by (auto simp: ck_grows_def)
  with t have "concat ms = ck_body (ck_events s) @ ck_body es" by simp
  ultimately show ?thesis using ck_feed_Ok [OF acc(1)] open_ by (auto simp: s_def ck_noMoreData_def)
qed

lemma chunked_truncation_witness:
  "\<exists>s rest. ck_feed [''3'', CRLF @ ''ab''] ck_init = Ok s \<and> concat [''abc''] = ck_body (ck_events s) @ rest \<and>
     ck_ends (ck_events s) = [] \<and> ck_noMoreData s = Exc DataLoss s"
  by (rule chunked_truncation [of _ _ "''c'' @ CRLF @ ''0'' @ CRLF @ CRLF"])
     (simp_all add: chunked_def toChunk_def hex.simps hex_digits_def)

section \<open>A single chunk, and bodies of a known length\<close>

lemma fromChunk_toChunk: "fromChunk (chunked d @ r) = Inr (d, r)"
proof -
  have "chunked d @ r = hex (length d) @ CRLF @ d @ CRLF @ r" by (simp add: chunked_def toChunk_def)
  then show ?thesis
    by (simp only: fromChunk_def split_hex option.case prod.case py_int16_hex) (simp add: slice_from_def slice_to_def nat_add_distrib)
qed

text \<open>The check of the size is exact: what \<open>fromChunk\<close> accepts, it splits where the size says.\<close>

lemma fromChunk_exact:
  "fromChunk d = Inr (c, r) \<Longrightarrow> \<exists>h. d = h @ CRLF @ c @ CRLF @ r \<and> py_int16 h = Some (int (length c))"
proof -
  assume "fromChunk d = Inr (c, r)"
  then obtain h rest n where h: "split_once CRLF d = Some (h, rest)" "py_int16 h = Some n" "\<not> n < 0"
    "take 2 (slice_from n rest) = CRLF" "c = slice_to n rest" "r = slice_from (n + 2) rest"
    by (auto simp: fromChunk_def split: option.splits if_splits prod.splits)
  have c: "c = take (nat n) rest" "r = drop (nat n + 2) rest" using h(3,5,6) by (simp_all add: slice_to_def slice_from_def nat_add_distrib)
  have two: "take 2 (drop (nat n) rest) = CRLF" using h(3,4) by (simp add: slice_from_def)
  have len: "length c = nat n" using arg_cong [OF two, of length] c(1) by simp
  have "rest = take (nat n) rest @ take 2 (drop (nat n) rest) @ drop 2 (drop (nat n) rest)"
    by (simp only: append_take_drop_id)
  also have "\<dots> = c @ CRLF @ r" unfolding two by (simp add: c add.commute)
  finally have "rest = c @ CRLF @ r" .
  with split_once_Some [OF h(1)] h(2,3) len show ?thesis by auto
qed

definition id_feed :: "bytes list \<Rightarrow> identity_decoder \<Rightarrow> (chunk_error, identity_decoder) outcome" where
  "id_feed cs s = foldl (\<lambda>r d. and_then r (id_dataReceived d)) (Ok s) cs"

text \<open>
  A body of a known length is handed out up to that length, what is left over goes to the finish
  callback, and any later data is refused; before that, \<open>noMoreData\<close> raises \<open>_DataLoss\<close>.
\<close>

lemma identity_body:
  "id_open s \<Longrightarrow> id_contentLength s = Some n \<Longrightarrow> int (length (concat cs)) < n \<Longrightarrow> n \<le> int (length (concat cs @ c)) \<Longrightarrow>
     \<exists>t u. id_feed cs s = Ok t \<and> id_noMoreData t = Exc DataLoss (t\<lparr>id_open := False\<rparr>) \<and>
       id_dataReceived c t = Ok u \<and> \<not> id_open u \<and> id_noMoreData u = Ok u \<and>
       ck_body (id_events u) = ck_body (id_events s) @ take (nat n) (concat cs @ c) \<and>
       ck_ends (id_events u) = ck_ends (id_events s) @ [drop (nat n) (concat cs @ c)]"
proof (induction cs arbitrary: s n)
  case Nil
  then show ?case
    by (auto simp: id_feed_def id_noMoreData_def id_dataReceived_def id_event_def slice_to_def slice_from_def Let_def
        ck_body_def ck_ends_def List.map_filter_def)
next
  case (Cons d cs)
  let ?s = "id_event (BodyData d) (s\<lparr>id_contentLength := Some (n - int (length d))\<rparr>)"
  have "id_dataReceived d s = Ok ?s" using Cons.prems by (simp add: id_dataReceived_def)
  then have step: "id_feed (d # cs) s = id_feed cs ?s" by (simp add: id_feed_def)
  have "nat n - length d = nat (n - int (length d))" "take (nat n) d = d" "drop (nat n) d = []" using Cons.prems(3) by simp_all
  then have k: "take (nat n) (concat (d # cs) @ c) = d @ take (nat (n - int (length d))) (concat cs @ c)"
    "drop (nat n) (concat (d # cs) @ c) = drop (nat (n - int (length d))) (concat cs @ c)" by simp_all
  have ev: "ck_body (id_events ?s) = ck_body (id_events s) @ d" "ck_ends (id_events ?s) = ck_ends (id_events s)"
    by (simp_all add: id_event_def del: ck_body_append)
  from Cons.IH [of ?s "n - int (length d)"] Cons.prems obtain t u where
    "id_feed cs ?s = Ok t \<and> id_noMoreData t = Exc DataLoss (t\<lparr>id_open := False\<rparr>) \<and>
       id_dataReceived c t = Ok u \<and> \<not> id_open u \<and> id_noMoreData u = Ok u \<and>
       ck_body (id_events u) = ck_body (id_events ?s) @ take (nat (n - int (length d))) (concat cs @ c) \<and>
       ck_ends (id_events u) = ck_ends (id_events ?s) @ [drop (nat (n - int (length d))) (concat cs @ c)]"
    by (auto simp: id_event_def)
  then show ?case unfolding step k ev append_assoc by blast
qed

section \<open>Malformed chunks that are not refused\<close>

text \<open>\<open>int(parts[0], 16)\<close> reads a negative size, and everything but the last bytes is taken for the chunk.\<close>

lemma negative_chunk_size:
  "ck_dataReceived (''-2'' @ CRLF @ ''abcd'') ck_init =
     Ok \<lparr> ck_state = CHUNK_CRLF, ck_buffer = ''cd'', ck_length = - 2, ck_events = [BodyData ''ab''] \<rparr>"
  by code_simp

text \<open>
  Once something else than \<open>CRLF\<close> follows a chunk, or the terminating chunk, everything that still
  arrives is stored and nothing is ever delivered or refused.
\<close>

lemma not_CRLF_stuck:
  assumes "ck_state s = CHUNK_CRLF \<or> ck_state s = TRAILER" "2 \<le> length (ck_buffer s)" "take 2 (ck_buffer s) \<noteq> CRLF"
  shows "ck_dataReceived d s = Ok (s\<lparr>ck_buffer := ck_buffer s @ d\<rparr>)"
proof -
  have ne: "ck_buffer s @ d \<noteq> []" using assms(2) by auto
  have "take 2 (ck_buffer s @ d) \<noteq> CRLF" using assms(2,3) by simp
  with assms(1) have "ck_handler (ck_state (s\<lparr>ck_buffer := []\<rparr>)) (ck_buffer s @ d) (s\<lparr>ck_buffer := []\<rparr>) =
      Ok ([], s\<lparr>ck_buffer := ck_buffer s @ d\<rparr>)"
    by (auto simp: ck_CRLF_def ck_TRAILER_def)
  from ck_loop_simps(2) [OF ne this] show ?thesis by (simp add: ck_dataReceived_def)
qed

end
