(* ===== verification/LineOnly.thy ===== *)
theory LineOnly
  imports Framing
begin

text \<open>
  \<open>LineOnlyReceiver\<close> of \<open>twisted/protocols/basic.py\<close>.  The application's
  \<open>lineReceived\<close> is a parameter; it may ask the transport to close the connection,
  which sets \<open>transport.disconnecting\<close>.  The default \<open>lineLengthExceeded\<close> builds a
  \<open>ConnectionLost\<close> that \<open>dataReceived\<close> returns and nobody reads.
\<close>

section \<open>State and operations\<close>

datatype lo_event =
    LoLine bytes | LoExceeded bytes | LoWrite bytes | LoLoseConnection

record 'a lineonly =
  lo_delimiter :: bytes
  lo_MAX_LENGTH :: nat
  lo_buffer :: bytes
  lo_disconnecting :: bool
  lo_app :: 'a
  lo_events :: "lo_event list"

type_synonym 'a lo_application = "bytes \<Rightarrow> 'a \<Rightarrow> 'a \<times> bool"

definition lo_initial :: "bytes \<Rightarrow> nat \<Rightarrow> 'a \<Rightarrow> 'a lineonly" where
  "lo_initial delim n a =
     \<lparr> lo_delimiter = delim, lo_MAX_LENGTH = n, lo_buffer = [], lo_disconnecting = False,
       lo_app = a, lo_events = [] \<rparr>"

definition lo_lineReceived :: "'a lo_application \<Rightarrow> bytes \<Rightarrow> 'a lineonly \<Rightarrow> 'a lineonly" where
  "lo_lineReceived app line s =
     (let (a, close) = app line (lo_app s)
      in s\<lparr>lo_app := a, lo_disconnecting := lo_disconnecting s \<or> close,
           lo_events := lo_events s @ LoLine line # (if close then [LoLoseConnection] else [])\<rparr>)"

definition lo_lineLengthExceeded :: "bytes \<Rightarrow> 'a lineonly \<Rightarrow> 'a lineonly" where
  "lo_lineLengthExceeded line s = s\<lparr>lo_events := lo_events s @ [LoExceeded line]\<rparr>"

fun lo_lines :: "'a lo_application \<Rightarrow> bytes list \<Rightarrow> 'a lineonly \<Rightarrow> 'a lineonly" where
  "lo_lines app [] s =
     (if length (lo_buffer s) > lo_MAX_LENGTH s then lo_lineLengthExceeded (lo_buffer s) s else s)"
| "lo_lines app (line # ls) s =
     (if lo_disconnecting s then s
      else if length line > lo_MAX_LENGTH s then lo_lineLengthExceeded line s
      else lo_lines app ls (lo_lineReceived app line s))"

definition lo_dataReceived :: "'a lo_application \<Rightarrow> bytes \<Rightarrow> 'a lineonly \<Rightarrow> 'a lineonly" where
  "lo_dataReceived app d s =
     (let ls = py_split (lo_delimiter s) (lo_buffer s @ d)
      in lo_lines app (butlast ls) (s\<lparr>lo_buffer := last ls\<rparr>))"

definition lo_sendLine :: "bytes \<Rightarrow> 'a lineonly \<Rightarrow> 'a lineonly" where
  "lo_sendLine line s = s\<lparr>lo_events := lo_events s @ [LoWrite (line @ lo_delimiter s)]\<rparr>"

fun lo_event_line :: "lo_event \<Rightarrow> bytes option" where
  "lo_event_line (LoLine l) = Some l"
| "lo_event_line _ = None"

definition lo_received :: "'a lineonly \<Rightarrow> bytes list" where
  "lo_received s = List.map_filter lo_event_line (lo_events s)"

section \<open>Chunk boundaries\<close>

text \<open>
  Data the receiver takes without a complaint.  A line has to leave room for all but
  the last byte of the delimiter, because a chunk may end there and the whole buffer
  is then compared with the limit.
\<close>

definition line_fits :: "bytes \<Rightarrow> nat \<Rightarrow> bytes \<Rightarrow> bool" where
  "line_fits delim n l \<longleftrightarrow> length l + length delim \<le> n + 1"

definition lo_safe :: "bytes \<Rightarrow> 'a lineonly \<Rightarrow> bool" where
  "lo_safe d s \<longleftrightarrow> lo_delimiter s \<noteq> [] \<and>
     (let ls = py_split (lo_delimiter s) (lo_buffer s @ d)
      in (\<forall>l \<in> set (butlast ls). line_fits (lo_delimiter s) (lo_MAX_LENGTH s) l) \<and>
         length (last ls) \<le> lo_MAX_LENGTH s)"

fun lo_deliver :: "'a lo_application \<Rightarrow> bytes list \<Rightarrow> 'a lineonly \<Rightarrow> 'a lineonly" where
  "lo_deliver app [] s = s"
| "lo_deliver app (l # ls) s = (if lo_disconnecting s then s else lo_deliver app ls (lo_lineReceived app l s))"

lemma lo_lineReceived_sel [simp]:
  "lo_delimiter (lo_lineReceived app l s) = lo_delimiter s"
  "lo_MAX_LENGTH (lo_lineReceived app l s) = lo_MAX_LENGTH s"
  "lo_buffer (lo_lineReceived app l s) = lo_buffer s"
  "lo_lineReceived app l (s\<lparr>lo_buffer := b\<rparr>) = (lo_lineReceived app l s)\<lparr>lo_buffer := b\<rparr>"
  by (simp_all add: lo_lineReceived_def split: prod.splits)

lemma lo_deliver_sel [simp]:
  "lo_delimiter (lo_deliver app ls s) = lo_delimiter s"
  "lo_MAX_LENGTH (lo_deliver app ls s) = lo_MAX_LENGTH s"
  "lo_buffer (lo_deliver app ls s) = lo_buffer s"
  "lo_deliver app ls (s\<lparr>lo_buffer := b\<rparr>) = (lo_deliver app ls s)\<lparr>lo_buffer := b\<rparr>"
  by (induction ls arbitrary: s) simp_all

lemma lo_deliver_stop: "lo_disconnecting s \<Longrightarrow> lo_deliver app ls s = s"
  by (cases ls) simp_all

lemma lo_deliver_append: "lo_deliver app (ls @ ms) s = lo_deliver app ms (lo_deliver app ls s)"
  by (induction ls arbitrary: s) (simp_all add: lo_deliver_stop)

lemma lo_lines_deliver:
  "\<forall>l \<in> set ls. length l \<le> lo_MAX_LENGTH s \<Longrightarrow> length (lo_buffer s) \<le> lo_MAX_LENGTH s \<Longrightarrow>
     lo_lines app ls s = lo_deliver app ls s"
  by (induction ls arbitrary: s) (auto simp: not_le)

lemma line_fits_length: "line_fits delim n l \<Longrightarrow> delim \<noteq> [] \<Longrightarrow> length l \<le> n"
  by (cases delim) (simp_all add: line_fits_def)

lemma lo_dataReceived_safe:
  assumes "lo_safe d s"
  shows "lo_dataReceived app d s =
    (let ls = py_split (lo_delimiter s) (lo_buffer s @ d)
     in (lo_deliver app (butlast ls) s)\<lparr>lo_buffer := last ls\<rparr>)"
proof -
  let ?ls = "py_split (lo_delimiter s) (lo_buffer s @ d)"
  have "\<forall>l \<in> set (butlast ?ls). length l \<le> lo_MAX_LENGTH s"
    using assms by (auto simp: lo_safe_def Let_def intro: line_fits_length)
  then have "lo_lines app (butlast ?ls) (s\<lparr>lo_buffer := last ?ls\<rparr>) = lo_deliver app (butlast ?ls) (s\<lparr>lo_buffer := last ?ls\<rparr>)"
    using assms by (intro lo_lines_deliver) (simp_all add: lo_safe_def Let_def)
  then show ?thesis by (simp add: lo_dataReceived_def Let_def)
qed

text \<open>An unfinished line and the delimiter's first bytes fit as well.\<close>

lemma py_split_first_short:
  assumes "delim \<noteq> []" "split_once delim b = None" "py_split delim (b @ y) = q # qs" "qs \<noteq> []"
  shows "length b < length q + length delim"
proof (rule ccontr)
  assume "\<not> ?thesis"
  from assms(1,3,4) obtain r where "split_once delim (b @ y) = Some (q, r)"
    by (subst (asm) py_split.simps) (auto split: option.splits)
  then have eq: "b @ y = (q @ delim) @ r" by (simp add: split_once_Some)
  with \<open>\<not> ?thesis\<close> have "take (length q + length delim) b = q @ delim"
    by (metis append_eq_conv_conj length_append not_less take_all_iff take_append append_Nil2 diff_is_0_eq take0 take_0)
  then have "b = q @ delim @ drop (length q + length delim) b"
    by (metis append.assoc append_take_drop_id)
  with assms(2) show False unfolding split_once_None by blast
qed

lemma lo_safe_append:
  assumes "lo_safe (x @ y) s"
  shows "lo_safe x s \<and> lo_safe y (lo_dataReceived app x s)"
proof -
  let ?d = "lo_delimiter s" and ?P = "py_split (lo_delimiter s) (lo_buffer s @ x)"
  let ?Q = "py_split ?d (last ?P @ y)"
  have d: "?d \<noteq> []" using assms by (simp add: lo_safe_def)
  have "py_split ?d (lo_buffer s @ x @ y) = butlast ?P @ ?Q"
    using py_split_append [OF d, of "lo_buffer s @ x" y] by simp
  with assms have all: "\<forall>l \<in> set (butlast ?P) \<union> set (butlast ?Q). line_fits ?d (lo_MAX_LENGTH s) l"
    and lq: "length (last ?Q) \<le> lo_MAX_LENGTH s"
    by (auto simp: lo_safe_def Let_def butlast_append)
  have "length (last ?P) \<le> lo_MAX_LENGTH s"
  proof (cases "butlast ?Q")
    case Nil
    then obtain q where Q: "?Q = [q]"
      by (metis append_Nil append_butlast_last_id py_split_nonempty)
    then have "last ?P @ y = q" using join_py_split [of ?d "last ?P @ y"] by simp
    with Q lq show ?thesis by (metis last.simps le_add1 length_append order_trans)
  next
    case (Cons q qs)
    then obtain r where "?Q = q # r" "r \<noteq> []"
      by (cases ?Q) (auto split: if_splits)
    then have "length (last ?P) < length q + length ?d"
      using py_split_first_short [OF d py_split_last [OF d]] by blast
    moreover have "line_fits ?d (lo_MAX_LENGTH s) q" using all Cons by simp
    ultimately show ?thesis by (simp add: line_fits_def)
  qed
  with all d have x: "lo_safe x s" by (simp add: lo_safe_def Let_def)
  then show ?thesis using all lq d
    by (simp add: lo_dataReceived_safe Let_def) (simp add: lo_safe_def Let_def)
qed

lemma lo_dataReceived_append:
  assumes "lo_safe (x @ y) s"
  shows "lo_dataReceived app (x @ y) s = lo_dataReceived app y (lo_dataReceived app x s)"
proof -
  have d: "lo_delimiter s \<noteq> []" using assms by (simp add: lo_safe_def)
  from lo_safe_append [OF assms, of app] have x: "lo_safe x s" and y: "lo_safe y (lo_dataReceived app x s)"
    by simp_all
  show ?thesis
    unfolding lo_dataReceived_safe [OF assms] lo_dataReceived_safe [OF y]
    using py_split_append [OF d, of "lo_buffer s @ x" y]
    by (simp add: lo_dataReceived_safe [OF x] Let_def lo_deliver_append butlast_append)
qed

interpretation lo_stream: stream_receiver "lo_dataReceived app" "\<lambda>s. s" lo_safe for app
proof unfold_locales
  show "lo_safe x s \<and> lo_safe y (lo_dataReceived app x s)" if "lo_safe (x @ y) s" for x y s
    using that by (rule lo_safe_append)
  show "lo_dataReceived app (x @ y) s = lo_dataReceived app y (lo_dataReceived app x s)"
    if "lo_safe (x @ y) s" for x y s
    using that by (rule lo_dataReceived_append)
qed simp

section \<open>Lines as frames\<close>

text \<open>A line that its receiver can recognise: no delimiter starts in it, at its end neither.\<close>

definition clean_line :: "bytes \<Rightarrow> bytes \<Rightarrow> bool" where
  "clean_line delim l \<longleftrightarrow> split_once delim (l @ butlast delim) = None"

lemma split_once_clean: "delim \<noteq> [] \<Longrightarrow> clean_line delim l \<Longrightarrow> split_once delim (l @ delim @ r) = Some (l, r)"
  by (simp add: clean_line_def split_once_first)

lemma py_split_frames:
  assumes "delim \<noteq> []"
  shows "\<forall>l \<in> set ls. clean_line delim l \<Longrightarrow> py_split delim (concat (map (\<lambda>l. l @ delim) ls)) = ls @ [[]]"
  using assms by (induction ls) (simp_all add: py_split_None py_split_Some split_once_clean)

definition lo_boundary :: "bytes \<Rightarrow> nat \<Rightarrow> 'a lineonly \<Rightarrow> bool" where
  "lo_boundary delim n s \<longleftrightarrow> delim \<noteq> [] \<and> lo_delimiter s = delim \<and> lo_MAX_LENGTH s = n \<and> lo_buffer s = [] \<and>
     \<not> lo_disconnecting s"

lemma lo_received_line: "lo_received (lo_lineReceived app l s) = lo_received s @ [l]"
  by (simp add: lo_lineReceived_def lo_received_def List.map_filter_def split: prod.splits)

lemma lo_received_upd [simp]: "lo_received (s\<lparr>lo_buffer := b\<rparr>) = lo_received s"
  by (simp add: lo_received_def)

text \<open>An application that never closes the connection.\<close>

definition lo_open :: "'a lo_application \<Rightarrow> bool" where
  "lo_open app \<longleftrightarrow> (\<forall>l a. \<not> snd (app l a))"

lemma lo_disconnecting_line [simp]:
  "lo_open app \<Longrightarrow> lo_disconnecting (lo_lineReceived app l s) = lo_disconnecting s"
  unfolding lo_open_def lo_lineReceived_def by (auto split: prod.splits) (metis snd_conv)

lemma lo_received_deliver:
  "lo_open app \<Longrightarrow> \<not> lo_disconnecting s \<Longrightarrow>
     lo_received (lo_deliver app ls s) = lo_received s @ ls \<and> \<not> lo_disconnecting (lo_deliver app ls s)"
  by (induction ls arbitrary: s) (simp_all add: lo_received_line)

lemma lo_frames_safe:
  assumes "lo_boundary delim n s" "\<forall>l \<in> set ls. clean_line delim l \<and> line_fits delim n l"
  shows "lo_safe (concat (map (\<lambda>l. l @ delim) ls)) s"
  using assms py_split_frames [of delim ls] by (simp add: lo_safe_def lo_boundary_def)

interpretation lo_frames: framed_receiver "lo_dataReceived (\<lambda>l a. (app l a, False))" "\<lambda>s. s" lo_safe
  "\<lambda>l. l @ delim" "\<lambda>l. clean_line delim l \<and> line_fits delim n l" "lo_boundary delim n" lo_received
  for app :: "bytes \<Rightarrow> 'a \<Rightarrow> 'a" and delim n
proof unfold_locales
  let ?app = "\<lambda>l (a::'a). (app l a, False)"
  have "lo_open ?app" by (simp add: lo_open_def)
  note line = lo_received_deliver [OF this]
  show "lo_safe (concat (map (\<lambda>l. l @ delim) ms)) s"
    if "lo_boundary delim n s" "\<forall>m \<in> set ms. clean_line delim m \<and> line_fits delim n m" for s ms
    using that by (rule lo_frames_safe)
  fix s :: "'a lineonly" and m assume s: "lo_boundary delim n s" and m: "clean_line delim m \<and> line_fits delim n m"
  have "lo_safe (m @ delim) s" using lo_frames_safe [OF s, of "[m]"] m by simp
  moreover have "py_split delim (m @ delim) = [m, []]"
    using py_split_frames [of delim "[m]"] s m by (simp add: lo_boundary_def)
  ultimately have "lo_dataReceived ?app (m @ delim) s = (lo_deliver ?app [m] s)\<lparr>lo_buffer := []\<rparr>"
    using s by (simp add: lo_dataReceived_safe lo_boundary_def)
  then show "lo_boundary delim n (lo_dataReceived ?app (m @ delim) s)"
    and "lo_received (lo_dataReceived ?app (m @ delim) s) = lo_received s @ [m]"
    using line [of s "[m]"] s by (simp_all add: lo_boundary_def del: lo_deliver.simps)
qed simp

section \<open>Properties\<close>

text \<open>
  As long as no line comes within a delimiter's length of the limit, a
  line receiver ends in the same state, with the same lines delivered, however the
  stream is cut, whatever its application does, even when it closes the connection
  in the middle of a chunk.
\<close>

theorem lineonly_chunking:
  assumes "cs \<noteq> []" and "lo_safe (concat cs) s"
  shows "feed (lo_dataReceived app) cs s = lo_dataReceived app (concat cs) s"
  using lo_stream.feed_concat [OF assms] .

theorem lineonly_chunking_witness:
  "feed (lo_dataReceived (\<lambda>l a. (a, l = ''q''))) [''a'' @ [CR], LF # ''q'', [CR, LF, CHR ''b'']] (lo_initial CRLF 9 ())
   = lo_dataReceived (\<lambda>l a. (a, l = ''q'')) (concat [''a'' @ [CR], LF # ''q'', [CR, LF, CHR ''b'']]) (lo_initial CRLF 9 ())"
proof (rule lineonly_chunking)
  show "lo_safe (concat [''a'' @ [CR], LF # ''q'', [CR, LF, CHR ''b'']]) (lo_initial CRLF 9 ())" by code_simp
qed simp

text \<open>
  The lines an application sends with \<open>sendLine\<close> arrive in order, each once,
  however the stream is cut, when none contains or ends in a part of the delimiter and
  each leaves room for it.
\<close>

theorem lineonly_roundtrip:
  assumes "delim \<noteq> []" and "\<forall>l \<in> set ls. clean_line delim l \<and> line_fits delim n l"
    and "concat cs = concat (map (\<lambda>l. l @ delim) ls)"
  shows "lo_received (feed (lo_dataReceived (\<lambda>l a. (app l a, False))) cs (lo_initial delim n a)) = ls"
proof (cases "ls = [] \<or> cs = []")
  case True
  with assms(1,3) have ls: "ls = []" and cs: "concat cs = []" by (auto simp: neq_Nil_conv)
  have s: "lo_safe [] (lo_initial delim n a)"
    using assms(1) by (simp add: lo_safe_def lo_initial_def py_split_None)
  then have s': "lo_safe (concat cs) (lo_initial delim n a)" by (simp only: cs)
  have nothing: "lo_dataReceived (\<lambda>l a. (app l a, False)) [] (lo_initial delim n a) = lo_initial delim n a"
    using s assms(1) by (simp add: lo_dataReceived_safe py_split_None) (simp add: lo_initial_def py_split_None)
  have "feed (lo_dataReceived (\<lambda>l a. (app l a, False))) cs (lo_initial delim n a) = lo_initial delim n a"
  proof (cases "cs = []")
    case False
    then have "feed (lo_dataReceived (\<lambda>l a. (app l a, False))) cs (lo_initial delim n a)
      = lo_dataReceived (\<lambda>l a. (app l a, False)) (concat cs) (lo_initial delim n a)"
      using s' by (rule lo_stream.feed_concat)
    also have "\<dots> = lo_dataReceived (\<lambda>l a. (app l a, False)) [] (lo_initial delim n a)" by (simp only: cs)
    also have "\<dots> = lo_initial delim n a" by (fact nothing)
    finally show ?thesis .
  qed simp
  then show ?thesis using ls by (simp add: lo_initial_def lo_received_def List.map_filter_def)
next
  case False
  have "lo_boundary delim n (lo_initial delim n a)"
    using assms(1) by (simp add: lo_boundary_def lo_initial_def)
  from lo_frames.delivery [OF this assms(2) _ _ assms(3)] False show ?thesis
    by (simp add: lo_initial_def lo_received_def List.map_filter_def)
qed

theorem lineonly_roundtrip_witness:
  "lo_received (feed (lo_dataReceived (\<lambda>l a. (a + 1, False))) [''ab'' @ [CR], LF # CRLF] (lo_initial CRLF 9 (0::nat)))
   = [''ab'', []]"
proof (rule lineonly_roundtrip)
  show "\<forall>l \<in> set [''ab'', []]. clean_line CRLF l \<and> line_fits CRLF 9 l" by code_simp
qed simp_all


end
