(* ===== verification/LineReceiver.thy ===== *)
theory LineReceiver
  imports LineOnly "HOL-Library.Sublist"
begin

text \<open>
  \<open>LineReceiver\<close> of \<open>twisted/protocols/basic.py\<close>: a receiver that switches between
  lines and raw data.  The application is a parameter: \<open>lineReceived\<close> and
  \<open>rawDataReceived\<close> get the data and return what methods of the receiver they call,
  in order, and whether their return value is true.  While they run the receiver is
  busy, so a \<open>dataReceived\<close> they cause only appends to the buffer.
\<close>

section \<open>State\<close>

datatype lr_event =
    LrLine bytes | LrRaw bytes | LrExceeded bytes | LrExtra bytes | LrCleared bytes
  | LrWrite bytes | LrLoseConnection | LrPauseProducing | LrResumeProducing | LrStopProducing

record 'a linereceiver =
  lr_delimiter :: bytes
  lr_MAX_LENGTH :: nat
  lr_line_mode :: bool
  lr_buffer :: bytes
  lr_busyReceiving :: bool
  lr_paused :: bool
  lr_disconnecting :: bool
  lr_app :: 'a
  lr_events :: "lr_event list"

definition lr_initial :: "bytes \<Rightarrow> nat \<Rightarrow> 'a \<Rightarrow> 'a linereceiver" where
  "lr_initial delim n a =
     \<lparr> lr_delimiter = delim, lr_MAX_LENGTH = n, lr_line_mode = True, lr_buffer = [],
       lr_busyReceiving = False, lr_paused = False, lr_disconnecting = False,
       lr_app = a, lr_events = [] \<rparr>"

definition lr_emit :: "lr_event \<Rightarrow> 'a linereceiver \<Rightarrow> 'a linereceiver" where
  "lr_emit e s = s\<lparr>lr_events := lr_events s @ [e]\<rparr>"

text \<open>What the application can do to the receiver from its callbacks.\<close>

datatype lr_action =
    SetLineMode bytes | SetRawMode | ClearLineBuffer | SendLine bytes | LoseConnection
  | PauseProducing | ResumeProducing | StopProducing

type_synonym 'a lr_callback = "bytes \<Rightarrow> 'a \<Rightarrow> 'a \<times> lr_action list \<times> bool"

record 'a lr_application =
  lineReceived :: "'a lr_callback"
  rawDataReceived :: "'a lr_callback"

section \<open>Operations\<close>

definition lr_loseConnection :: "'a linereceiver \<Rightarrow> 'a linereceiver" where
  "lr_loseConnection s = lr_emit LrLoseConnection (s\<lparr>lr_disconnecting := True\<rparr>)"

definition lr_lineLengthExceeded :: "bytes \<Rightarrow> 'a linereceiver \<Rightarrow> 'a linereceiver" where
  "lr_lineLengthExceeded line s = lr_loseConnection (lr_emit (LrExceeded line) s)"

definition lr_clearLineBuffer :: "'a linereceiver \<Rightarrow> 'a linereceiver \<times> bytes" where
  "lr_clearLineBuffer s = (let b = lr_buffer s in (lr_emit (LrCleared b) (s\<lparr>lr_buffer := []\<rparr>), b))"

definition lr_setRawMode :: "'a linereceiver \<Rightarrow> 'a linereceiver" where
  "lr_setRawMode s = s\<lparr>lr_line_mode := False\<rparr>"

definition lr_sendLine :: "bytes \<Rightarrow> 'a linereceiver \<Rightarrow> 'a linereceiver" where
  "lr_sendLine line s = lr_emit (LrWrite (line @ lr_delimiter s)) s"

definition lr_pauseProducing :: "'a linereceiver \<Rightarrow> 'a linereceiver" where
  "lr_pauseProducing s = lr_emit LrPauseProducing (s\<lparr>lr_paused := True\<rparr>)"

definition lr_stopProducing :: "'a linereceiver \<Rightarrow> 'a linereceiver" where
  "lr_stopProducing s = lr_emit LrStopProducing (s\<lparr>lr_paused := True\<rparr>)"

text \<open>The first branch of \<open>dataReceived\<close>, the only one a callback can reach.\<close>

definition lr_busy_data :: "bytes \<Rightarrow> 'a linereceiver \<Rightarrow> 'a linereceiver" where
  "lr_busy_data d s = s\<lparr>lr_buffer := lr_buffer s @ d\<rparr>"

fun lr_act :: "lr_action \<Rightarrow> 'a linereceiver \<Rightarrow> 'a linereceiver" where
  "lr_act (SetLineMode extra) s =
     (let s = s\<lparr>lr_line_mode := True\<rparr>
      in if extra \<noteq> [] then lr_busy_data extra (lr_emit (LrExtra extra) s) else s)"
| "lr_act SetRawMode s = lr_setRawMode s"
| "lr_act ClearLineBuffer s = fst (lr_clearLineBuffer s)"
| "lr_act (SendLine line) s = lr_sendLine line s"
| "lr_act LoseConnection s = lr_loseConnection s"
| "lr_act PauseProducing s = lr_pauseProducing s"
| "lr_act ResumeProducing s = lr_busy_data [] (lr_emit LrResumeProducing (s\<lparr>lr_paused := False\<rparr>))"
| "lr_act StopProducing s = lr_stopProducing s"

definition lr_call :: "(bytes \<Rightarrow> lr_event) \<Rightarrow> 'a lr_callback \<Rightarrow> bytes \<Rightarrow> 'a linereceiver \<Rightarrow> 'a linereceiver \<times> bool" where
  "lr_call ev callback d s =
     (let (a, acts, why) = callback d (lr_app s);
          s = (lr_emit (ev d) s)\<lparr>lr_app := a\<rparr>
      in (fold lr_act acts s, why))"

partial_function (option) lr_loop :: "'a lr_application \<Rightarrow> 'a linereceiver \<Rightarrow> 'a linereceiver option" where
  "lr_loop app s =
     (if lr_buffer s \<noteq> [] \<and> \<not> lr_paused s then
        if lr_line_mode s then
          (case split_once (lr_delimiter s) (lr_buffer s) of
             None \<Rightarrow>
               if length (lr_buffer s) > lr_MAX_LENGTH s
               then Some (lr_lineLengthExceeded (lr_buffer s) (s\<lparr>lr_buffer := []\<rparr>))
               else Some s
           | Some (line, rest) \<Rightarrow>
               if length line > lr_MAX_LENGTH s
               then Some (lr_lineLengthExceeded (line @ lr_delimiter s @ rest) (s\<lparr>lr_buffer := []\<rparr>))
               else
                 (let (s', why) = lr_call LrLine (lineReceived app) line (s\<lparr>lr_buffer := rest\<rparr>)
                  in if why \<or> lr_disconnecting s' then Some s' else lr_loop app s'))
        else
          (let (s', why) = lr_call LrRaw (rawDataReceived app) (lr_buffer s) (s\<lparr>lr_buffer := []\<rparr>)
           in if why then Some s' else lr_loop app s')
      else Some s)"

declare lr_loop.simps [code]

definition lr_dataReceived :: "'a lr_application \<Rightarrow> bytes \<Rightarrow> 'a linereceiver \<Rightarrow> 'a linereceiver option" where
  "lr_dataReceived app d s =
     (if lr_busyReceiving s then Some (lr_busy_data d s)
      else map_option (\<lambda>s. s\<lparr>lr_busyReceiving := False\<rparr>)
             (lr_loop app (s\<lparr>lr_busyReceiving := True, lr_buffer := lr_buffer s @ d\<rparr>)))"

definition lr_setLineMode :: "'a lr_application \<Rightarrow> bytes \<Rightarrow> 'a linereceiver \<Rightarrow> 'a linereceiver option" where
  "lr_setLineMode app extra s =
     (let s = s\<lparr>lr_line_mode := True\<rparr>
      in if extra \<noteq> [] then lr_dataReceived app extra (lr_emit (LrExtra extra) s) else Some s)"

definition lr_resumeProducing :: "'a lr_application \<Rightarrow> 'a linereceiver \<Rightarrow> 'a linereceiver option" where
  "lr_resumeProducing app s = lr_dataReceived app [] (lr_emit LrResumeProducing (s\<lparr>lr_paused := False\<rparr>))"

text \<open>A callback's calls are those of the methods, with the receiver busy.\<close>

lemma lr_act_busy:
  assumes "lr_busyReceiving s"
  shows "lr_setLineMode app extra s = Some (lr_act (SetLineMode extra) s)"
    and "lr_resumeProducing app s = Some (lr_act ResumeProducing s)"
  using assms by (simp_all add: lr_setLineMode_def lr_resumeProducing_def lr_dataReceived_def lr_emit_def Let_def)

fun lr_event_line :: "lr_event \<Rightarrow> bytes option" where
  "lr_event_line (LrLine l) = Some l"
| "lr_event_line _ = None"

definition lr_received :: "'a linereceiver \<Rightarrow> bytes list" where
  "lr_received s = List.map_filter lr_event_line (lr_events s)"

section \<open>The speed optimisation\<close>

lemma lr_emit_sel [simp]:
  "lr_delimiter (lr_emit e s) = lr_delimiter s" "lr_MAX_LENGTH (lr_emit e s) = lr_MAX_LENGTH s"
  "lr_line_mode (lr_emit e s) = lr_line_mode s" "lr_buffer (lr_emit e s) = lr_buffer s"
  "lr_busyReceiving (lr_emit e s) = lr_busyReceiving s" "lr_paused (lr_emit e s) = lr_paused s"
  "lr_disconnecting (lr_emit e s) = lr_disconnecting s" "lr_app (lr_emit e s) = lr_app s"
  "lr_events (lr_emit e s) = lr_events s @ [e]"
  by (simp_all add: lr_emit_def)

text \<open>Applications that only look at lines, for both receivers.\<close>

definition lr_plain :: "(bytes \<Rightarrow> 'a \<Rightarrow> 'a) \<Rightarrow> 'a lr_application" where
  "lr_plain f = \<lparr> lineReceived = (\<lambda>l a. (f l a, [], False)), rawDataReceived = (\<lambda>d a. (a, [], False)) \<rparr>"

definition lo_plain :: "(bytes \<Rightarrow> 'a \<Rightarrow> 'a) \<Rightarrow> 'a lo_application" where
  "lo_plain f = (\<lambda>l a. (f l a, False))"

definition lr_match :: "'a linereceiver \<Rightarrow> 'a lineonly \<Rightarrow> bool" where
  "lr_match s t \<longleftrightarrow> lr_delimiter s = lo_delimiter t \<and> lr_MAX_LENGTH s = lo_MAX_LENGTH t \<and>
     lr_buffer s = lo_buffer t \<and> lr_app s = lo_app t \<and> lr_received s = lo_received t \<and>
     lr_line_mode s \<and> \<not> lr_paused s \<and> \<not> lr_disconnecting s \<and> \<not> lo_disconnecting t"

lemma lr_match_line:
  assumes "lr_match s t"
  shows "lr_match (fst (lr_call LrLine (lineReceived (lr_plain f)) l (s\<lparr>lr_buffer := b\<rparr>)))
    ((lo_lineReceived (lo_plain f) l t)\<lparr>lo_buffer := b\<rparr>)"
  using assms
  by (simp add: lr_match_def lr_call_def lr_plain_def lo_plain_def lo_lineReceived_def lr_received_def
      lo_received_def List.map_filter_def)

lemma lr_loop_match:
  assumes "lr_match s t" "lo_safe [] t"
  shows "\<exists>s'. lr_loop (lr_plain f) s = Some s' \<and> lr_match s' (lo_dataReceived (lo_plain f) [] t)"
  using assms
proof (induction "length (lr_buffer s)" arbitrary: s t rule: less_induct)
  case less
  define d where "d = lo_delimiter t"
  note safe = less.prems(2)
  have eq: "lr_delimiter s = d" "lr_buffer s = lo_buffer t" "lr_MAX_LENGTH s = lo_MAX_LENGTH t"
    "lr_line_mode s" "\<not> lr_paused s" "\<not> lr_disconnecting s" "\<not> lo_disconnecting t"
    using less.prems(1) by (simp_all add: lr_match_def d_def)
  have dn: "d \<noteq> []" using safe by (simp add: lo_safe_def d_def)
  note dr = lo_dataReceived_safe [OF safe, of "lo_plain f", folded d_def]
  show ?case
  proof (cases "split_once d (lo_buffer t)")
    case None
    then have ls: "py_split d (lo_buffer t) = [lo_buffer t]" by (rule py_split_None)
    have "length (lo_buffer t) \<le> lo_MAX_LENGTH t"
      using safe ls by (simp add: lo_safe_def flip: d_def)
    with None eq have "lr_loop (lr_plain f) s = Some s"
      by (subst lr_loop.simps) simp
    moreover have "lo_dataReceived (lo_plain f) [] t = t" using dr ls by simp
    ultimately show ?thesis using less.prems(1) by simp
  next
    case (Some ab)
    then obtain l r where ab: "split_once d (lo_buffer t) = Some (l, r)" by (cases ab) auto
    have ls: "py_split d (lo_buffer t) = l # py_split d r" using dn ab by (rule py_split_Some)
    let ?u = "(lo_lineReceived (lo_plain f) l t)\<lparr>lo_buffer := r\<rparr>"
    let ?v = "fst (lr_call LrLine (lineReceived (lr_plain f)) l (s\<lparr>lr_buffer := r\<rparr>))"
    have v: "lr_match ?v ?u" using less.prems(1) by (rule lr_match_line)
    have su: "lo_safe [] ?u" using safe ls by (simp add: lo_safe_def Let_def flip: d_def)
    have "line_fits d (lo_MAX_LENGTH t) l" using safe ls by (simp add: lo_safe_def Let_def flip: d_def)
    then have fit: "length l \<le> lo_MAX_LENGTH t" using dn by (rule line_fits_length)
    have ne: "lr_buffer s \<noteq> []" using ab eq dn split_once_Nil [OF dn] by auto
    have why: "snd (lr_call LrLine (lineReceived (lr_plain f)) l x) = False" for x
      by (simp add: lr_call_def lr_plain_def)
    have vr: "lr_buffer ?v = r" "\<not> lr_disconnecting ?v" using v by (simp_all add: lr_match_def)
    have "lr_loop (lr_plain f) s = lr_loop (lr_plain f) ?v"
      using ab eq ne fit why vr by (subst lr_loop.simps) (simp add: case_prod_beta)
    moreover have "lo_dataReceived (lo_plain f) [] t = lo_dataReceived (lo_plain f) [] ?u"
      unfolding lo_dataReceived_safe [OF su] using dr ls eq by (simp add: Let_def flip: d_def)
    moreover have "length (lr_buffer ?v) < length (lr_buffer s)"
      using split_once_length [OF ab] dn eq vr by simp
    ultimately show ?thesis using less.hyps [of ?v ?u] v su by simp
  qed
qed

lemma lr_match_dataReceived:
  assumes "lr_match s t" "\<not> lr_busyReceiving s" "lo_safe d t"
  shows "\<exists>s'. lr_dataReceived (lr_plain f) d s = Some s' \<and> lr_match s' (lo_dataReceived (lo_plain f) d t) \<and>
    \<not> lr_busyReceiving s'"
proof -
  let ?t = "t\<lparr>lo_buffer := lo_buffer t @ d\<rparr>" and ?s = "s\<lparr>lr_busyReceiving := True, lr_buffer := lr_buffer s @ d\<rparr>"
  have "lr_match ?s ?t" using assms(1) by (simp add: lr_match_def lr_received_def lo_received_def)
  moreover have "lo_safe [] ?t" using assms(3) by (simp add: lo_safe_def)
  ultimately obtain s' where s': "lr_loop (lr_plain f) ?s = Some s'"
    "lr_match s' (lo_dataReceived (lo_plain f) [] ?t)"
    using lr_loop_match by blast
  have "lo_dataReceived (lo_plain f) [] ?t = lo_dataReceived (lo_plain f) d t"
    by (simp add: lo_dataReceived_def Let_def)
  with s' assms(2) show ?thesis
    by (simp add: lr_dataReceived_def lr_match_def lr_received_def)
qed

lemma lr_match_feed:
  assumes "lr_match s t" "\<not> lr_busyReceiving s" "cs \<noteq> []" "lo_safe (concat cs) t"
  shows "\<exists>s'. feed_opt (lr_dataReceived (lr_plain f)) cs s = Some s' \<and>
    lr_match s' (feed (lo_dataReceived (lo_plain f)) cs t)"
  using assms
proof (induction cs arbitrary: s t)
  case (Cons c cs)
  have safe: "lo_safe c t" "lo_safe (concat cs) (lo_dataReceived (lo_plain f) c t)"
    using lo_safe_append [of c "concat cs" t "lo_plain f"] Cons.prems(4) by simp_all
  obtain s' where s': "lr_dataReceived (lr_plain f) c s = Some s'"
    "lr_match s' (lo_dataReceived (lo_plain f) c t)" "\<not> lr_busyReceiving s'"
    using lr_match_dataReceived [OF Cons.prems(1,2) safe(1)] by blast
  show ?case
  proof (cases cs)
    case Nil
    with s' show ?thesis by simp
  next
    case (Cons c' cs')
    with s' Cons.IH [OF s'(2,3) _ safe(2)] show ?thesis by simp
  qed
qed simp

section \<open>Every byte is handed on once\<close>

text \<open>
  The bytes the application has been given, read off the events: a line with its
  delimiter, raw data, what a line that is too long or \<open>clearLineBuffer\<close> took out of
  the buffer.  \<open>setLineMode\<close> with extra data gives the last of them back.
\<close>

fun lr_consume :: "bytes \<Rightarrow> bytes \<Rightarrow> lr_event \<Rightarrow> bytes" where
  "lr_consume delim acc (LrLine l) = acc @ l @ delim"
| "lr_consume delim acc (LrRaw d) = acc @ d"
| "lr_consume delim acc (LrExceeded d) = acc @ d"
| "lr_consume delim acc (LrCleared d) = acc @ d"
| "lr_consume delim acc (LrExtra e) = take (length acc - length e) acc"
| "lr_consume delim acc _ = acc"

definition lr_consumed :: "'a linereceiver \<Rightarrow> bytes" where
  "lr_consumed s = foldl (lr_consume (lr_delimiter s)) [] (lr_events s)"

lemma lr_consumed_emit [simp]:
  "lr_consumed (lr_emit e s) = lr_consume (lr_delimiter s) (lr_consumed s) e"
  by (simp add: lr_consumed_def)

lemma lr_consumed_upd [simp]:
  "lr_consumed (s\<lparr>lr_buffer := b\<rparr>) = lr_consumed s"
  "lr_consumed (s\<lparr>lr_line_mode := m\<rparr>) = lr_consumed s"
  "lr_consumed (s\<lparr>lr_paused := p\<rparr>) = lr_consumed s"
  "lr_consumed (s\<lparr>lr_disconnecting := p\<rparr>) = lr_consumed s"
  "lr_consumed (s\<lparr>lr_busyReceiving := p\<rparr>) = lr_consumed s"
  "lr_consumed (s\<lparr>lr_app := a\<rparr>) = lr_consumed s"
  by (simp_all add: lr_consumed_def)

fun lr_extra :: "lr_action \<Rightarrow> bytes" where
  "lr_extra (SetLineMode e) = e"
| "lr_extra _ = []"

abbreviation lr_extras :: "lr_action list \<Rightarrow> bytes" where
  "lr_extras acts \<equiv> concat (map lr_extra acts)"

lemmas lr_action_defs = lr_setRawMode_def lr_clearLineBuffer_def lr_sendLine_def lr_loseConnection_def
  lr_pauseProducing_def lr_stopProducing_def lr_busy_data_def

text \<open>
  An application that gives back at most what it was given: no extra data from
  \<open>lineReceived\<close>, as the documentation asks, and from \<open>rawDataReceived\<close> the rest of the
  data, without asking for raw mode again when that is all of it.  It returns nothing.
\<close>

definition lr_honest :: "'a lr_application \<Rightarrow> bool" where
  "lr_honest app \<longleftrightarrow>
     (\<forall>d a a' acts why. lineReceived app d a = (a', acts, why) \<longrightarrow> lr_extras acts = [] \<and> \<not> why) \<and>
     (\<forall>d a a' acts why. rawDataReceived app d a = (a', acts, why) \<longrightarrow>
        suffix (lr_extras acts) d \<and> ClearLineBuffer \<notin> set acts \<and> \<not> why \<and>
        (lr_extras acts = d \<longrightarrow> SetRawMode \<notin> set acts))"

lemma lr_act_delimiter [simp]: "lr_delimiter (lr_act x s) = lr_delimiter s"
  by (cases x) (simp_all add: lr_action_defs Let_def)

lemma lr_acts_delimiter [simp]: "lr_delimiter (fold lr_act xs s) = lr_delimiter s"
  by (induction xs arbitrary: s) simp_all

text \<open>In \<open>lineReceived\<close>, consumed bytes and buffer stay the same together, and the buffer does not grow.\<close>

lemma lr_act_line:
  "lr_extra x = [] \<Longrightarrow> lr_consumed (lr_act x s) @ lr_buffer (lr_act x s) = lr_consumed s @ lr_buffer s \<and>
     length (lr_buffer (lr_act x s)) \<le> length (lr_buffer s)"
  by (cases x) (simp_all add: lr_action_defs Let_def)

lemma lr_acts_line:
  "lr_extras xs = [] \<Longrightarrow>
     lr_consumed (fold lr_act xs s) @ lr_buffer (fold lr_act xs s) = lr_consumed s @ lr_buffer s \<and>
     length (lr_buffer (fold lr_act xs s)) \<le> length (lr_buffer s)"
proof (induction xs arbitrary: s)
  case (Cons x xs)
  then have "lr_extra x = []" "lr_extras xs = []" by simp_all
  from lr_act_line [OF this(1), of s] Cons.IH [OF this(2), of "lr_act x s"] show ?case
    by (auto intro: order_trans)
qed simp

text \<open>In \<open>rawDataReceived\<close>, the bytes given back are taken off the end of those consumed.\<close>

lemma take_take_back:
  "take (length (take (length t - n) t) - m) (take (length t - n) t) = take (length t - (n + m)) t"
  by (simp add: min_absorb2)

lemma lr_act_raw:
  "x \<noteq> ClearLineBuffer \<Longrightarrow> lr_consumed s = take (length t - length (lr_buffer s)) t \<Longrightarrow>
     lr_consumed (lr_act x s) = take (length t - length (lr_buffer (lr_act x s))) t \<and>
     lr_buffer (lr_act x s) = lr_buffer s @ lr_extra x"
  by (cases x) (simp_all add: lr_action_defs Let_def take_take_back del: length_take take_take)

lemma lr_acts_raw:
  "ClearLineBuffer \<notin> set xs \<Longrightarrow> lr_consumed s = take (length t - length (lr_buffer s)) t \<Longrightarrow>
     lr_consumed (fold lr_act xs s) = take (length t - length (lr_buffer (fold lr_act xs s))) t \<and>
     lr_buffer (fold lr_act xs s) = lr_buffer s @ lr_extras xs"
proof (induction xs arbitrary: s)
  case (Cons x xs)
  then have x: "x \<noteq> ClearLineBuffer" and xs: "ClearLineBuffer \<notin> set xs" by auto
  have step: "lr_consumed (lr_act x s) = take (length t - length (lr_buffer (lr_act x s))) t"
    "lr_buffer (lr_act x s) = lr_buffer s @ lr_extra x"
    using lr_act_raw [OF x Cons.prems(2)] by blast+
  from Cons.IH [OF xs step(1)] step(2) show ?case by simp
qed simp

lemma lr_acts_mode:
  "SetRawMode \<notin> set xs \<Longrightarrow> lr_extras xs \<noteq> [] \<or> lr_line_mode s \<Longrightarrow> lr_line_mode (fold lr_act xs s)"
proof (induction xs arbitrary: s)
  case (Cons x xs)
  then have "lr_extras xs \<noteq> [] \<or> lr_line_mode (lr_act x s)"
    by (cases x) (auto simp: lr_action_defs Let_def)
  with Cons show ?case by simp
qed simp

definition lr_settled :: "'a linereceiver \<Rightarrow> bool" where
  "lr_settled s \<longleftrightarrow> lr_paused s \<or> lr_disconnecting s \<or> lr_buffer s = [] \<or>
     lr_line_mode s \<and> split_once (lr_delimiter s) (lr_buffer s) = None"

definition lr_conserves :: "'a linereceiver \<Rightarrow> 'a linereceiver option \<Rightarrow> bool" where
  "lr_conserves s r \<longleftrightarrow> (\<exists>s'. r = Some s' \<and> lr_delimiter s' = lr_delimiter s \<and> lr_settled s' \<and>
     lr_consumed s' @ lr_buffer s' = lr_consumed s @ lr_buffer s)"

definition lr_measure :: "'a linereceiver \<Rightarrow> nat" where
  "lr_measure s = 2 * length (lr_buffer s) + (if lr_line_mode s then 0 else 1)"

lemma lr_line_call:
  assumes "lr_honest app" "split_once (lr_delimiter s) (lr_buffer s) = Some (l, r)" "lr_delimiter s \<noteq> []"
    "lr_call LrLine (lineReceived app) l (s\<lparr>lr_buffer := r\<rparr>) = (s', why)"
  shows "\<not> why \<and> lr_delimiter s' = lr_delimiter s \<and> lr_measure s' < lr_measure s \<and>
    lr_consumed s' @ lr_buffer s' = lr_consumed s @ lr_buffer s"
proof -
  obtain a acts w where app: "lineReceived app l (lr_app s) = (a, acts, w)" by (metis prod.collapse)
  with assms(1) have ex: "lr_extras acts = []" "\<not> w" unfolding lr_honest_def by blast+
  let ?u = "(lr_emit (LrLine l) (s\<lparr>lr_buffer := r\<rparr>))\<lparr>lr_app := a\<rparr>"
  have s': "s' = fold lr_act acts ?u" "why = w" using assms(4) app by (simp_all add: lr_call_def)
  have buf: "lr_buffer s = l @ lr_delimiter s @ r" using assms(2) by (rule split_once_Some)
  have "length r < length (lr_buffer s)"
    using split_once_length [OF assms(2)] assms(3) by simp
  moreover have c: "lr_consumed s' @ lr_buffer s' = lr_consumed ?u @ lr_buffer ?u" and "length (lr_buffer s') \<le> length r"
    using lr_acts_line [OF ex(1), of ?u] s' by simp_all
  ultimately have "lr_measure s' < lr_measure s" unfolding lr_measure_def by simp
  moreover have "lr_consumed ?u @ lr_buffer ?u = lr_consumed s @ lr_buffer s" by (simp add: buf)
  ultimately show ?thesis using ex(2) s' c by simp
qed

lemma lr_raw_call:
  assumes "lr_honest app" "lr_buffer s \<noteq> []" "\<not> lr_line_mode s"
    "lr_call LrRaw (rawDataReceived app) (lr_buffer s) (s\<lparr>lr_buffer := []\<rparr>) = (s', why)"
  shows "\<not> why \<and> lr_delimiter s' = lr_delimiter s \<and> lr_measure s' < lr_measure s \<and>
    lr_consumed s' @ lr_buffer s' = lr_consumed s @ lr_buffer s"
proof -
  let ?d = "lr_buffer s"
  obtain a acts w where app: "rawDataReceived app ?d (lr_app s) = (a, acts, w)" by (metis prod.collapse)
  with assms(1) have ex: "suffix (lr_extras acts) ?d" "ClearLineBuffer \<notin> set acts" "\<not> w"
    "lr_extras acts = ?d \<longrightarrow> SetRawMode \<notin> set acts" unfolding lr_honest_def by blast+
  let ?u = "(lr_emit (LrRaw ?d) (s\<lparr>lr_buffer := []\<rparr>))\<lparr>lr_app := a\<rparr>"
  have s': "s' = fold lr_act acts ?u" "why = w" using assms(4) app by (simp_all add: lr_call_def)
  from lr_acts_raw [OF ex(2), of ?u "lr_consumed s @ ?d"]
  have b: "lr_buffer s' = lr_extras acts"
    and c: "lr_consumed s' = take (length (lr_consumed s @ ?d) - length (lr_extras acts)) (lr_consumed s @ ?d)"
    using s' by simp_all
  from ex(1) obtain used where d: "?d = used @ lr_extras acts" by (auto simp: suffix_def)
  have "lr_consumed s' @ lr_buffer s' = lr_consumed s @ ?d" unfolding b c by (subst (1 2 3) d) simp
  moreover have "lr_measure s' < lr_measure s"
  proof (cases "lr_extras acts = ?d")
    case True
    with ex(4) assms(2) have "lr_line_mode s'" unfolding s' by (intro lr_acts_mode) simp_all
    with True b assms(3) show ?thesis by (simp add: lr_measure_def)
  next
    case False
    with d have "length (lr_extras acts) < length ?d"
      by (metis append_Nil length_append length_greater_0_conv less_add_same_cancel2)
    with b assms(3) show ?thesis by (simp add: lr_measure_def)
  qed
  ultimately show ?thesis using ex(3) s' by simp
qed

lemma lr_loop_conserves:
  assumes "lr_honest app" "lr_delimiter s \<noteq> []"
  shows "lr_conserves s (lr_loop app s)"
  using assms(2)
proof (induction "lr_measure s" arbitrary: s rule: less_induct)
  case less
  show ?case
  proof (cases "lr_buffer s \<noteq> [] \<and> \<not> lr_paused s")
    case False
    then have "lr_loop app s = Some s" by (subst lr_loop.simps) auto
    with False show ?thesis by (auto simp: lr_conserves_def lr_settled_def)
  next
    case True
    note active = this
    have step: ?thesis if "lr_loop app s = lr_loop app s'" "lr_measure s' < lr_measure s"
      "lr_delimiter s' = lr_delimiter s" "lr_consumed s' @ lr_buffer s' = lr_consumed s @ lr_buffer s" for s'
      using less.hyps [OF that(2)] that less.prems by (simp add: lr_conserves_def)
    have exceeded: ?thesis if "lr_loop app s = Some (lr_lineLengthExceeded (lr_buffer s) (s\<lparr>lr_buffer := []\<rparr>))"
      using that by (simp add: lr_conserves_def lr_settled_def lr_lineLengthExceeded_def lr_loseConnection_def)
    show ?thesis
    proof (cases "lr_line_mode s")
      case True
      note mode = this
      show ?thesis
      proof (cases "split_once (lr_delimiter s) (lr_buffer s)")
        case None
        then show ?thesis
        proof (cases "length (lr_buffer s) > lr_MAX_LENGTH s")
          case True
          with None active mode show ?thesis by (intro exceeded) (subst lr_loop.simps, simp)
        next
          case False
          with None active mode have "lr_loop app s = Some s" by (subst lr_loop.simps) simp
          with None mode show ?thesis by (simp add: lr_conserves_def lr_settled_def)
        qed
      next
        case (Some ab)
        then obtain l r where ab: "split_once (lr_delimiter s) (lr_buffer s) = Some (l, r)" by (cases ab) auto
        obtain s' why where call: "lr_call LrLine (lineReceived app) l (s\<lparr>lr_buffer := r\<rparr>) = (s', why)"
          by (metis prod.collapse)
        note s' = lr_line_call [OF assms(1) ab less.prems call]
        consider "length l > lr_MAX_LENGTH s" | "\<not> length l > lr_MAX_LENGTH s" "lr_disconnecting s'"
          | "\<not> length l > lr_MAX_LENGTH s" "\<not> lr_disconnecting s'" by blast
        then show ?thesis
        proof cases
          case 1
          with active mode ab split_once_Some [OF ab] show ?thesis
            by (intro exceeded) (subst lr_loop.simps, simp)
        next
          case 2
          with active mode ab call have "lr_loop app s = Some s'" by (subst lr_loop.simps) simp
          with 2 s' show ?thesis by (simp add: lr_conserves_def lr_settled_def)
        next
          case 3
          with active mode ab call s' have "lr_loop app s = lr_loop app s'" by (subst lr_loop.simps) simp
          with s' show ?thesis by (intro step [of s']) simp_all
        qed
      qed
    next
      case False
      obtain s' why where call: "lr_call LrRaw (rawDataReceived app) (lr_buffer s) (s\<lparr>lr_buffer := []\<rparr>) = (s', why)"
        by (metis prod.collapse)
      note s' = lr_raw_call [OF assms(1) _ False call]
      from active False call s' have "lr_loop app s = lr_loop app s'" by (subst lr_loop.simps) simp
      with s' active show ?thesis by (intro step [of s']) simp_all
    qed
  qed
qed

text \<open>What happens to a receiver from outside its callbacks.\<close>

datatype lr_op = LrData bytes | LrSetLine | LrSetRaw | LrClear | LrPause | LrResume | LrStop

fun lr_step :: "'a lr_application \<Rightarrow> lr_op \<Rightarrow> 'a linereceiver \<Rightarrow> 'a linereceiver option" where
  "lr_step app (LrData d) s = lr_dataReceived app d s"
| "lr_step app LrSetLine s = lr_setLineMode app [] s"
| "lr_step app LrSetRaw s = Some (lr_setRawMode s)"
| "lr_step app LrClear s = Some (fst (lr_clearLineBuffer s))"
| "lr_step app LrPause s = Some (lr_pauseProducing s)"
| "lr_step app LrResume s = lr_resumeProducing app s"
| "lr_step app LrStop s = Some (lr_stopProducing s)"

fun lr_run :: "'a lr_application \<Rightarrow> lr_op list \<Rightarrow> 'a linereceiver \<Rightarrow> 'a linereceiver option" where
  "lr_run app [] s = Some s"
| "lr_run app (p # ps) s = Option.bind (lr_step app p s) (lr_run app ps)"

lemma lr_run_append: "lr_run app (ps @ qs) s = Option.bind (lr_run app ps s) (lr_run app qs)"
proof (induction ps arbitrary: s)
  case (Cons p ps)
  then show ?case by (cases "lr_step app p s") simp_all
qed simp

fun lr_data :: "lr_op list \<Rightarrow> bytes" where
  "lr_data [] = []"
| "lr_data (LrData d # ps) = d @ lr_data ps"
| "lr_data (_ # ps) = lr_data ps"

lemma lr_dataReceived_conserves:
  assumes "lr_honest app" "lr_delimiter s \<noteq> []" "\<not> lr_busyReceiving s"
  shows "\<exists>s'. lr_dataReceived app d s = Some s' \<and> lr_delimiter s' = lr_delimiter s \<and> \<not> lr_busyReceiving s' \<and>
    lr_settled s' \<and> lr_consumed s' @ lr_buffer s' = lr_consumed s @ lr_buffer s @ d"
proof -
  have "lr_conserves (s\<lparr>lr_busyReceiving := True, lr_buffer := lr_buffer s @ d\<rparr>)
      (lr_loop app (s\<lparr>lr_busyReceiving := True, lr_buffer := lr_buffer s @ d\<rparr>))"
    using assms(2) by (intro lr_loop_conserves [OF assms(1)]) simp
  then show ?thesis using assms(3)
    by (auto simp: lr_conserves_def lr_dataReceived_def lr_settled_def)
qed

lemma lr_step_conserves:
  assumes "lr_honest app" "lr_delimiter s \<noteq> []" "\<not> lr_busyReceiving s"
  shows "\<exists>s'. lr_step app p s = Some s' \<and> lr_delimiter s' = lr_delimiter s \<and> \<not> lr_busyReceiving s' \<and>
    lr_consumed s' @ lr_buffer s' = lr_consumed s @ lr_buffer s @ lr_data [p]"
proof (cases p)
  case (LrData d)
  with lr_dataReceived_conserves [OF assms, of d] show ?thesis by auto
next
  case LrResume
  with lr_dataReceived_conserves [OF assms(1), of "lr_emit LrResumeProducing (s\<lparr>lr_paused := False\<rparr>)" "[]"] assms
  show ?thesis by (auto simp: lr_resumeProducing_def)
qed (use assms in \<open>simp_all add: lr_setLineMode_def lr_action_defs Let_def\<close>)

lemma lr_run_conserves:
  assumes "lr_honest app"
  shows "lr_delimiter s \<noteq> [] \<Longrightarrow> \<not> lr_busyReceiving s \<Longrightarrow>
    \<exists>s'. lr_run app ps s = Some s' \<and> lr_delimiter s' = lr_delimiter s \<and> \<not> lr_busyReceiving s' \<and>
      lr_consumed s' @ lr_buffer s' = lr_consumed s @ lr_buffer s @ lr_data ps"
proof (induction ps arbitrary: s)
  case (Cons p ps)
  obtain u where u: "lr_step app p s = Some u" "lr_delimiter u = lr_delimiter s" "\<not> lr_busyReceiving u"
    "lr_consumed u @ lr_buffer u = lr_consumed s @ lr_buffer s @ lr_data [p]"
    using lr_step_conserves [OF assms Cons.prems] by blast
  obtain s' where s': "lr_run app ps u = Some s'" "lr_delimiter s' = lr_delimiter u" "\<not> lr_busyReceiving s'"
    "lr_consumed s' @ lr_buffer s' = lr_consumed u @ lr_buffer u @ lr_data ps"
    using Cons.IH [of u] Cons.prems u by auto
  have "lr_data (p # ps) = lr_data [p] @ lr_data ps" by (cases p) simp_all
  with u s' show ?case by (metis append.assoc bind.bind_lunit lr_run.simps(2))
qed simp

section \<open>Properties\<close>

text \<open>
  \<open>LineOnlyReceiver\<close> is what it says, a speed optimisation: on the same chunks,
  as long as no line comes within a delimiter's length of the limit, a
  \<open>LineReceiver\<close> whose application stays in line mode returns, delivers the same
  lines, and ends with the same buffer and application state.
\<close>

theorem linereceiver_lineonly:
  assumes "cs \<noteq> []" and "lo_safe (concat cs) (lo_initial delim n a)"
    and t_def: "t = feed (lo_dataReceived (lo_plain f)) cs (lo_initial delim n a)"
  shows "\<exists>s. feed_opt (lr_dataReceived (lr_plain f)) cs (lr_initial delim n a) = Some s \<and>
    lr_received s = lo_received t \<and> lr_buffer s = lo_buffer t \<and> lr_app s = lo_app t"
proof -
  have "lr_match (lr_initial delim n a) (lo_initial delim n a)"
    by (simp add: lr_match_def lr_initial_def lo_initial_def lr_received_def lo_received_def List.map_filter_def)
  from lr_match_feed [OF this _ assms(1,2)] show ?thesis
    by (auto simp: lr_match_def lr_initial_def t_def)
qed

theorem linereceiver_lineonly_witness:
  "\<exists>s. feed_opt (lr_dataReceived (lr_plain (\<lambda>l k. k + length l))) [''ab'' @ [CR], LF # ''c''] (lr_initial CRLF 9 0) = Some s \<and>
    lr_received s = lo_received (feed (lo_dataReceived (lo_plain (\<lambda>l k. k + length l))) [''ab'' @ [CR], LF # ''c''] (lo_initial CRLF 9 0))"
proof -
  have "lo_safe (concat [''ab'' @ [CR], LF # ''c'']) (lo_initial CRLF 9 (0::nat))" by code_simp
  from linereceiver_lineonly [OF _ this refl] show ?thesis by blast
qed

text \<open>
  C37: whatever is received, and whenever the receiver is paused, resumed, switched
  between modes or cleared, an application that gives back at most the rest of what it
  was given never makes a call loop, and no byte is lost or handed on twice: the lines
  with their delimiters, the raw data it kept, what was cleared or too long, and the
  buffer make up exactly what was received.  After data has arrived, a receiver that is
  neither paused nor disconnecting holds nothing in raw mode and no complete line in
  line mode.
\<close>

theorem linereceiver_conservation:
  assumes "delim \<noteq> []" and "lr_honest app"
  shows "\<exists>s. lr_run app (ps @ [LrData d]) (lr_initial delim n a) = Some s \<and> lr_settled s \<and>
    lr_consumed s @ lr_buffer s = lr_data ps @ d"
proof -
  have "lr_delimiter (lr_initial delim n a) \<noteq> []" "\<not> lr_busyReceiving (lr_initial delim n a)"
    using assms(1) by (simp_all add: lr_initial_def)
  from lr_run_conserves [OF assms(2) this, of ps] obtain u where
    u: "lr_run app ps (lr_initial delim n a) = Some u" "lr_delimiter u \<noteq> []" "\<not> lr_busyReceiving u"
      "lr_consumed u @ lr_buffer u = lr_data ps"
    using assms(1) by (auto simp: lr_initial_def lr_consumed_def)
  from lr_dataReceived_conserves [OF assms(2) u(2,3), of d] u(1,4) show ?thesis
    by (auto simp: lr_run_append)
qed

text \<open>An application in the style of a body with a known length: after the line \<open>raw\<close> it takes two raw bytes.\<close>

definition lr_demo :: "nat lr_application" where
  "lr_demo = \<lparr> lineReceived = (\<lambda>l k. if l = ''raw'' then (2, [SetRawMode], False) else (k, [], False)),
     rawDataReceived = (\<lambda>d k. if length d < k then (k - length d, [], False) else (0, [SetLineMode (drop k d)], False)) \<rparr>"

theorem linereceiver_conservation_witness:
  "\<exists>s. lr_run lr_demo ([LrData (''raw'' @ CRLF @ ''x''), LrPause, LrData ''yb'', LrResume] @ [LrData CRLF]) (lr_initial CRLF 9 0) = Some s \<and>
    lr_consumed s @ lr_buffer s = (''raw'' @ CRLF @ ''xyb'') @ CRLF"
proof -
  have "lr_honest lr_demo"
    by (auto simp: lr_honest_def lr_demo_def suffix_drop split: if_splits)
  from linereceiver_conservation [OF _ this, of CRLF "[LrData (''raw'' @ CRLF @ ''x''), LrPause, LrData ''yb'', LrResume]" CRLF 9 0]
  show ?thesis by auto
qed

text \<open>
  The limit is applied to an unfinished line together with the part of its
  delimiter that has arrived.  A line of exactly \<open>MAX_LENGTH\<close> bytes is delivered when
  its delimiter comes in one chunk, and drops the connection when a chunk ends between
  the carriage return and the line feed.
\<close>

theorem linereceiver_split_delimiter:
  assumes "clean_line CRLF m" and "length m = n" and "m \<noteq> []"
  shows "\<exists>s t. feed_opt (lr_dataReceived (lr_plain f)) [m @ CRLF] (lr_initial CRLF n a) = Some s \<and>
      lr_received s = [m] \<and> \<not> lr_disconnecting s \<and>
    feed_opt (lr_dataReceived (lr_plain f)) [m @ [CR], [LF]] (lr_initial CRLF n a) = Some t \<and>
      lr_received t = [] \<and> lr_disconnecting t"
proof -
  have whole: "split_once CRLF (m @ CRLF) = Some (m, [])"
    using split_once_clean [OF _ assms(1), of "[]"] by simp
  have part: "split_once CRLF (m @ [CR]) = None" using assms(1) by (simp add: clean_line_def)
  have lf: "split_once CRLF [LF] = None" by code_simp
  have n: "0 < n" using assms(2,3) by auto
  let ?s = "\<lambda>b. (lr_initial CRLF n a)\<lparr>lr_busyReceiving := True, lr_buffer := b\<rparr>"
  let ?u = "fst (lr_call LrLine (lineReceived (lr_plain f)) m (?s []))"
  have "lr_loop (lr_plain f) (?s (m @ CRLF)) = lr_loop (lr_plain f) ?u"
    using whole assms(2) by (subst lr_loop.simps) (simp add: lr_initial_def lr_call_def lr_plain_def)
  also have "\<dots> = Some ?u"
    by (subst lr_loop.simps) (simp add: lr_initial_def lr_call_def lr_plain_def)
  finally have A: "feed_opt (lr_dataReceived (lr_plain f)) [m @ CRLF] (lr_initial CRLF n a)
      = Some (?u\<lparr>lr_busyReceiving := False\<rparr>)"
    by (simp add: lr_dataReceived_def) (simp add: lr_initial_def)
  have B: "lr_received (?u\<lparr>lr_busyReceiving := False\<rparr>) = [m]" "\<not> lr_disconnecting (?u\<lparr>lr_busyReceiving := False\<rparr>)"
    by (simp_all add: lr_call_def lr_plain_def lr_initial_def lr_received_def List.map_filter_def)
  let ?v = "(lr_lineLengthExceeded (m @ [CR]) (?s []))\<lparr>lr_busyReceiving := False\<rparr>"
  have "lr_loop (lr_plain f) (?s (m @ [CR])) = Some (lr_lineLengthExceeded (m @ [CR]) (?s []))"
    using part assms(2) by (subst lr_loop.simps) (simp add: lr_initial_def)
  then have "lr_dataReceived (lr_plain f) (m @ [CR]) (lr_initial CRLF n a) = Some ?v"
    by (simp add: lr_dataReceived_def) (simp add: lr_initial_def)
  moreover have "lr_loop (lr_plain f) (?v\<lparr>lr_busyReceiving := True, lr_buffer := [LF]\<rparr>)
      = Some (?v\<lparr>lr_busyReceiving := True, lr_buffer := [LF]\<rparr>)"
    using n lf by (subst lr_loop.simps) (simp add: lr_initial_def lr_lineLengthExceeded_def lr_loseConnection_def lr_emit_def)
  then have "lr_dataReceived (lr_plain f) [LF] ?v = Some (?v\<lparr>lr_buffer := [LF]\<rparr>)"
    by (simp add: lr_dataReceived_def lr_lineLengthExceeded_def lr_loseConnection_def lr_emit_def lr_initial_def)
  ultimately have C: "feed_opt (lr_dataReceived (lr_plain f)) [m @ [CR], [LF]] (lr_initial CRLF n a) = Some (?v\<lparr>lr_buffer := [LF]\<rparr>)"
    by simp
  have "lr_received (?v\<lparr>lr_buffer := [LF]\<rparr>) = []" "lr_disconnecting (?v\<lparr>lr_buffer := [LF]\<rparr>)"
    by (simp_all add: lr_lineLengthExceeded_def lr_loseConnection_def lr_emit_def lr_initial_def
        lr_received_def List.map_filter_def)
  with A B C show ?thesis by blast
qed

theorem linereceiver_split_delimiter_witness:
  "\<exists>s t. feed_opt (lr_dataReceived (lr_plain (\<lambda>l k. k))) [''abc'' @ CRLF] (lr_initial CRLF 3 ()) = Some s \<and>
      lr_received s = [''abc''] \<and> \<not> lr_disconnecting s \<and>
    feed_opt (lr_dataReceived (lr_plain (\<lambda>l k. k))) [''abc'' @ [CR], [LF]] (lr_initial CRLF 3 ()) = Some t \<and>
      lr_received t = [] \<and> lr_disconnecting t"
  by (rule linereceiver_split_delimiter) (code_simp, simp_all)

end
