(* ===== verification/Deferred.thy ===== *)
theory Deferred
  imports Prelude
begin

text \<open>
  \<open>Deferred\<close> of \<open>twisted/internet/defer.py\<close>.  All Deferreds live in one store,
  indexed by numbers, since callbacks share and chain them.  A user's callable is a
  name \<open>'c\<close>; what it does is a parameter \<open>beh\<close>: called with a value in the user's
  state, it performs methods of Deferreds one after the other (an exception from one of
  them ends it) and then returns a value or raises.

  \<open>_runCallbacks\<close> is re-entered by the callbacks it runs.  Every method is defined over
  a parameter \<open>run\<close> that stands for that inner call, and \<open>df_run\<close> ties the knot with
  fuel, which bounds the nesting and the turns of each loop; without enough of it the
  result is \<open>None\<close>.  Lemma \<open>df_run_mono\<close> says that more fuel changes no result.
  Tracebacks and \<open>_debugInfo\<close> are left out.
\<close>

section \<open>State\<close>

datatype 'v df_error =
    AlreadyCalledError | CancelledError | AssertionError | NoCurrentExceptionError
  | UserError 'v | DeferredAsError nat

text \<open>A Python value: \<open>None\<close>, a plain value, a \<open>Failure\<close> or a Deferred.\<close>

datatype 'v df_value = PyNone | Val 'v | Failure "'v df_error" | Ref nat

fun is_failure :: "'v df_value \<Rightarrow> bool" where
  "is_failure (Failure e) = True"
| "is_failure _ = False"

fun is_deferred :: "'v df_value \<Rightarrow> bool" where
  "is_deferred (Ref d) = True"
| "is_deferred _ = False"

text \<open>What can stand in a callback list: a user's callable, \<open>passthru\<close>, a bound
  \<open>callback\<close> or \<open>errback\<close> of a Deferred, or \<open>_CONTINUE\<close> with the waiting Deferred.\<close>

datatype 'c df_callable = User 'c | Passthru | FireCallback nat | FireErrback nat | CONTINUE nat

type_synonym 'c df_pair = "'c df_callable \<times> 'c df_callable"

record ('c, 'v) deferred =
  df_called :: bool
  df_paused :: int
  df_suppressAlreadyCalled :: bool
  df_runningCallbacks :: bool
  df_result :: "'v df_value option"
  df_callbacks :: "'c df_pair list"
  df_chainedTo :: "nat option"
  df_canceller :: "'c option"

text \<open>The trace records, for each Deferred, the pairs appended and taken, and when a callable is entered and left.\<close>

datatype 'c df_event = Added nat "'c df_pair" | Taken nat "'c df_pair" | Entered nat | Left nat

record ('c, 'v, 'u) df_state =
  df_store :: "nat \<Rightarrow> ('c, 'v) deferred"
  df_trace :: "'c df_event list"
  df_user :: 'u

definition new_deferred :: "'c option \<Rightarrow> ('c, 'v) deferred" where
  "new_deferred canceller =
     \<lparr> df_called = False, df_paused = 0, df_suppressAlreadyCalled = False, df_runningCallbacks = False,
       df_result = None, df_callbacks = [], df_chainedTo = None, df_canceller = canceller \<rparr>"

definition df_at :: "('c, 'v, 'u) df_state \<Rightarrow> nat \<Rightarrow> ('c, 'v) deferred" where
  "df_at s d = df_store s d"

definition df_upd :: "nat \<Rightarrow> (('c, 'v) deferred \<Rightarrow> ('c, 'v) deferred) \<Rightarrow> ('c, 'v, 'u) df_state \<Rightarrow> ('c, 'v, 'u) df_state" where
  "df_upd d f s = s\<lparr>df_store := (df_store s)(d := f (df_store s d))\<rparr>"

definition df_log :: "'c df_event \<Rightarrow> ('c, 'v, 'u) df_state \<Rightarrow> ('c, 'v, 'u) df_state" where
  "df_log e s = s\<lparr>df_trace := df_trace s @ [e]\<rparr>"

text \<open>What a user's callable does: methods it calls, then its result.\<close>

datatype ('c, 'v) df_action =
    DoCallback nat "'v df_value" | DoErrback nat "'v df_value"
  | DoAddCallbacks nat "'c df_callable" "'c df_callable option" | DoChainDeferred nat nat
  | DoPause nat | DoUnpause nat | DoCancel nat

datatype 'v df_return = Return "'v df_value" | Raise "'v df_error"

type_synonym ('c, 'v, 'u) df_behaviour =
  "'c \<Rightarrow> 'v df_value \<Rightarrow> 'u \<Rightarrow> 'u \<times> ('c, 'v) df_action list \<times> 'v df_return"

type_synonym ('c, 'v, 'u) df_result = "('v df_error, ('c, 'v, 'u) df_state) outcome option"

type_synonym ('c, 'v, 'u) df_runner = "nat \<Rightarrow> ('c, 'v, 'u) df_state \<Rightarrow> ('c, 'v, 'u) df_state option"

section \<open>Methods\<close>

definition df_append :: "nat \<Rightarrow> 'c df_pair \<Rightarrow> ('c, 'v, 'u) df_state \<Rightarrow> ('c, 'v, 'u) df_state" where
  "df_append d cbs s = df_log (Added d cbs) (df_upd d (\<lambda>x. x\<lparr>df_callbacks := df_callbacks x @ [cbs]\<rparr>) s)"

definition df_addCallbacks ::
    "('c, 'v, 'u) df_runner \<Rightarrow> nat \<Rightarrow> 'c df_callable \<Rightarrow> 'c df_callable option \<Rightarrow>
     ('c, 'v, 'u) df_state \<Rightarrow> ('c, 'v, 'u) df_result" where
  "df_addCallbacks run d callback errback s =
     (let s = df_append d (callback, case errback of None \<Rightarrow> Passthru | Some e \<Rightarrow> e) s
      in if df_called (df_at s d) then map_option Ok (run d s) else Some (Ok s))"

definition df_addCallback where
  "df_addCallback run d callback s = df_addCallbacks run d callback None s"

definition df_addErrback where
  "df_addErrback run d errback s = df_addCallbacks run d Passthru (Some errback) s"

definition df_addBoth where
  "df_addBoth run d callback s = df_addCallbacks run d callback (Some callback) s"

definition df_chainDeferred ::
    "('c, 'v, 'u) df_runner \<Rightarrow> nat \<Rightarrow> nat \<Rightarrow> ('c, 'v, 'u) df_state \<Rightarrow> ('c, 'v, 'u) df_result" where
  "df_chainDeferred run d d' s =
     df_addCallbacks run d (FireCallback d') (Some (FireErrback d')) (df_upd d' (\<lambda>x. x\<lparr>df_chainedTo := Some d\<rparr>) s)"

definition df_startRunCallbacks ::
    "('c, 'v, 'u) df_runner \<Rightarrow> nat \<Rightarrow> 'v df_value \<Rightarrow> ('c, 'v, 'u) df_state \<Rightarrow> ('c, 'v, 'u) df_result" where
  "df_startRunCallbacks run d v s =
     (if df_called (df_at s d) then
        if df_suppressAlreadyCalled (df_at s d)
        then Some (Ok (df_upd d (\<lambda>x. x\<lparr>df_suppressAlreadyCalled := False\<rparr>) s))
        else Some (Exc AlreadyCalledError s)
      else map_option Ok (run d (df_upd d (\<lambda>x. x\<lparr>df_called := True, df_result := Some v\<rparr>) s)))"

definition df_callback ::
    "('c, 'v, 'u) df_runner \<Rightarrow> nat \<Rightarrow> 'v df_value \<Rightarrow> ('c, 'v, 'u) df_state \<Rightarrow> ('c, 'v, 'u) df_result" where
  "df_callback run d v s =
     (if is_deferred v then Some (Exc AssertionError s) else df_startRunCallbacks run d v s)"

text \<open>
  \<open>errback\<close> wraps what is not a \<open>Failure\<close> in one.  Without an argument it takes the
  current exception, and methods are called outside of any handler here.
\<close>

fun df_as_failure :: "'v df_value \<Rightarrow> 'v df_value option" where
  "df_as_failure (Failure e) = Some (Failure e)"
| "df_as_failure (Val v) = Some (Failure (UserError v))"
| "df_as_failure (Ref d) = Some (Failure (DeferredAsError d))"
| "df_as_failure PyNone = None"

definition df_errback ::
    "('c, 'v, 'u) df_runner \<Rightarrow> nat \<Rightarrow> 'v df_value \<Rightarrow> ('c, 'v, 'u) df_state \<Rightarrow> ('c, 'v, 'u) df_result" where
  "df_errback run d v s =
     (case df_as_failure v of
        None \<Rightarrow> Some (Exc NoCurrentExceptionError s)
      | Some f \<Rightarrow> df_startRunCallbacks run d f s)"

definition df_pause :: "nat \<Rightarrow> ('c, 'v, 'u) df_state \<Rightarrow> ('c, 'v, 'u) df_state" where
  "df_pause d s = df_upd d (\<lambda>x. x\<lparr>df_paused := df_paused x + 1\<rparr>) s"

definition df_unpause ::
    "('c, 'v, 'u) df_runner \<Rightarrow> nat \<Rightarrow> ('c, 'v, 'u) df_state \<Rightarrow> ('c, 'v, 'u) df_result" where
  "df_unpause run d s =
     (let s = df_upd d (\<lambda>x. x\<lparr>df_paused := df_paused x - 1\<rparr>) s
      in if df_paused (df_at s d) \<noteq> 0 then Some (Ok s)
         else if df_called (df_at s d) then map_option Ok (run d s)
         else Some (Ok s))"

definition df_bind :: "('c, 'v, 'u) df_result \<Rightarrow> (('c, 'v, 'u) df_state \<Rightarrow> ('c, 'v, 'u) df_result) \<Rightarrow> ('c, 'v, 'u) df_result" where
  "df_bind r f = (case r of None \<Rightarrow> None | Some (Exc e s) \<Rightarrow> Some (Exc e s) | Some (Ok s) \<Rightarrow> f s)"

text \<open>
  \<open>cancel\<close>, given what calling the canceller does.  Cancelling a Deferred that waits
  for another one cancels that one, so \<open>n\<close> bounds how far the request is forwarded.
\<close>

fun df_cancel ::
    "('c, 'v, 'u) df_runner \<Rightarrow> ('c \<Rightarrow> 'v df_value \<Rightarrow> ('c, 'v, 'u) df_state \<Rightarrow> ('c, 'v, 'u) df_result) \<Rightarrow>
     nat \<Rightarrow> nat \<Rightarrow> ('c, 'v, 'u) df_state \<Rightarrow> ('c, 'v, 'u) df_result" where
  "df_cancel run call 0 d s = None"
| "df_cancel run call (Suc n) d s =
     (if \<not> df_called (df_at s d) then
        df_bind (case df_canceller (df_at s d) of
                   Some c \<Rightarrow> call c (Ref d) s
                 | None \<Rightarrow> Some (Ok (df_upd d (\<lambda>x. x\<lparr>df_suppressAlreadyCalled := True\<rparr>) s)))
          (\<lambda>s. if \<not> df_called (df_at s d) then df_errback run d (Failure CancelledError) s else Some (Ok s))
      else case df_result (df_at s d) of
          Some (Ref r) \<Rightarrow> df_cancel run call n r s
        | _ \<Rightarrow> Some (Ok s))"

section \<open>Running callbacks\<close>

text \<open>The result of a call: a value in a new state, or an exception in one.\<close>

type_synonym ('c, 'v, 'u) df_returned = "(('c, 'v, 'u) df_state \<times> 'v df_return) option"

fun df_returning :: "'v df_return \<Rightarrow> ('c, 'v, 'u) df_result \<Rightarrow> ('c, 'v, 'u) df_returned" where
  "df_returning r None = None"
| "df_returning r (Some (Ok s)) = Some (s, r)"
| "df_returning r (Some (Exc e s)) = Some (s, Raise e)"

fun df_actions :: "(('c, 'v) df_action \<Rightarrow> ('c, 'v, 'u) df_state \<Rightarrow> ('c, 'v, 'u) df_result) \<Rightarrow>
    ('c, 'v) df_action list \<Rightarrow> ('c, 'v, 'u) df_state \<Rightarrow> ('c, 'v, 'u) df_result" where
  "df_actions act [] s = Some (Ok s)"
| "df_actions act (a # as) s = df_bind (act a s) (df_actions act as)"

definition df_call_user ::
    "('c, 'v, 'u) df_behaviour \<Rightarrow> (('c, 'v) df_action \<Rightarrow> ('c, 'v, 'u) df_state \<Rightarrow> ('c, 'v, 'u) df_result) \<Rightarrow>
     'c \<Rightarrow> 'v df_value \<Rightarrow> ('c, 'v, 'u) df_state \<Rightarrow> ('c, 'v, 'u) df_returned" where
  "df_call_user beh act c v s =
     (let (u, acts, ret) = beh c v (df_user s)
      in df_returning ret (df_actions act acts (s\<lparr>df_user := u\<rparr>)))"

text \<open>A canceller's return value is ignored; what it raises is not.\<close>

fun df_ignoring :: "('c, 'v, 'u) df_returned \<Rightarrow> ('c, 'v, 'u) df_result" where
  "df_ignoring None = None"
| "df_ignoring (Some (s, Return v)) = Some (Ok s)"
| "df_ignoring (Some (s, Raise e)) = Some (Exc e s)"

text \<open>
  One method call of a user's callable.  A canceller runs the user's code as well, one
  level deeper, with \<open>n\<close> counting the levels.
\<close>

fun df_perform ::
    "('c, 'v, 'u) df_behaviour \<Rightarrow> ('c, 'v, 'u) df_runner \<Rightarrow> nat \<Rightarrow> ('c, 'v) df_action \<Rightarrow>
     ('c, 'v, 'u) df_state \<Rightarrow> ('c, 'v, 'u) df_result" where
  "df_perform beh run n (DoCallback d v) s = df_callback run d v s"
| "df_perform beh run n (DoErrback d v) s = df_errback run d v s"
| "df_perform beh run n (DoAddCallbacks d c e) s = df_addCallbacks run d c e s"
| "df_perform beh run n (DoChainDeferred d d') s = df_chainDeferred run d d' s"
| "df_perform beh run n (DoPause d) s = Some (Ok (df_pause d s))"
| "df_perform beh run n (DoUnpause d) s = df_unpause run d s"
| "df_perform beh run 0 (DoCancel d) s = None"
| "df_perform beh run (Suc n) (DoCancel d) s =
     df_cancel run (\<lambda>c v s. df_ignoring (df_call_user beh (df_perform beh run n) c v s)) (Suc n) d s"

text \<open>A call from the loop; it tests for \<open>_CONTINUE\<close>, which cannot be called, before.\<close>

definition df_call ::
    "('c, 'v, 'u) df_behaviour \<Rightarrow> ('c, 'v, 'u) df_runner \<Rightarrow> nat \<Rightarrow> 'c df_callable \<Rightarrow> 'v df_value \<Rightarrow>
     ('c, 'v, 'u) df_state \<Rightarrow> ('c, 'v, 'u) df_returned" where
  "df_call beh run n fn v s =
     (case fn of
        User c \<Rightarrow> df_call_user beh (df_perform beh run n) c v s
      | Passthru \<Rightarrow> Some (s, Return v)
      | FireCallback d \<Rightarrow> df_returning (Return PyNone) (df_callback run d v s)
      | FireErrback d \<Rightarrow> df_returning (Return PyNone) (df_errback run d v s)
      | CONTINUE d \<Rightarrow> Some (s, Raise AssertionError))"

definition df_set_result :: "nat \<Rightarrow> 'v df_value \<Rightarrow> ('c, 'v, 'u) df_state \<Rightarrow> ('c, 'v, 'u) df_state" where
  "df_set_result d v s = df_upd d (\<lambda>x. x\<lparr>df_result := Some v\<rparr>) s"

text \<open>\<open>self.result\<close>; callbacks run only once it has been set.\<close>

definition df_value :: "('c, 'v) deferred \<Rightarrow> 'v df_value" where
  "df_value x = (case df_result x of Some v \<Rightarrow> v | None \<Rightarrow> PyNone)"

definition df_pick :: "'c df_pair \<Rightarrow> 'v df_value \<Rightarrow> 'c df_callable" where
  "df_pick item v = (if is_failure v then snd item else fst item)"

text \<open>Giving the waiting Deferred \<open>e\<close> the result of \<open>d\<close>.\<close>

definition df_hand_over :: "nat \<Rightarrow> nat \<Rightarrow> 'v df_value \<Rightarrow> ('c, 'v, 'u) df_state \<Rightarrow> ('c, 'v, 'u) df_state" where
  "df_hand_over d e v s =
     df_upd e (\<lambda>x. x\<lparr>df_paused := df_paused x - 1\<rparr>) (df_set_result d PyNone (df_set_result e v s))"

text \<open>Waiting for the Deferred \<open>r\<close>, whose result \<open>d\<close> needs.\<close>

definition df_wait :: "nat \<Rightarrow> nat \<Rightarrow> ('c, 'v, 'u) df_state \<Rightarrow> ('c, 'v, 'u) df_state" where
  "df_wait d r s =
     df_append r (CONTINUE d, CONTINUE d) (df_upd d (\<lambda>x. x\<lparr>df_chainedTo := Some r\<rparr>) (df_pause d s))"

definition df_has_no_result :: "('c, 'v) deferred \<Rightarrow> bool" where
  "df_has_no_result x \<longleftrightarrow>
     (case df_result x of None \<Rightarrow> True | Some v \<Rightarrow> is_deferred v) \<or> df_paused x \<noteq> 0"

text \<open>Taking the result of \<open>r\<close>.\<close>

definition df_steal :: "nat \<Rightarrow> nat \<Rightarrow> ('c, 'v, 'u) df_state \<Rightarrow> ('c, 'v, 'u) df_state" where
  "df_steal d r s = df_set_result d (df_value (df_at s r)) (df_set_result r PyNone s)"

text \<open>
  The inner loop of \<open>_runCallbacks\<close>: the callbacks of \<open>d\<close> until there are none left, \<open>d\<close>
  has to wait, or it hands its result over to a Deferred that waits for it, which is
  then the second component.
\<close>

fun df_inner ::
    "('c, 'v, 'u) df_behaviour \<Rightarrow> ('c, 'v, 'u) df_runner \<Rightarrow> nat \<Rightarrow> nat \<Rightarrow> ('c, 'v, 'u) df_state \<Rightarrow>
     (('c, 'v, 'u) df_state \<times> nat option) option" where
  "df_inner beh run 0 d s = None"
| "df_inner beh run (Suc n) d s =
     (case df_callbacks (df_at s d) of
        [] \<Rightarrow> Some (s, None)
      | item # rest \<Rightarrow>
          (let v = df_value (df_at s d);
               s = df_log (Taken d item) (df_upd d (\<lambda>x. x\<lparr>df_callbacks := rest\<rparr>) s)
           in case df_pick item v of
                CONTINUE e \<Rightarrow> Some (df_hand_over d e v s, Some e)
              | fn \<Rightarrow>
                  (case df_call beh run n fn v (df_log (Entered d) (df_upd d (\<lambda>x. x\<lparr>df_runningCallbacks := True\<rparr>) s)) of
                     None \<Rightarrow> None
                   | Some (s, ret) \<Rightarrow>
                       (let s = df_log (Left d) (df_upd d (\<lambda>x. x\<lparr>df_runningCallbacks := False\<rparr>) s)
                        in case ret of
                             Raise e \<Rightarrow> df_inner beh run n d (df_set_result d (Failure e) s)
                           | Return w \<Rightarrow>
                               (let s = df_set_result d w s
                                in case w of
                                     Ref r \<Rightarrow>
                                       if df_has_no_result (df_at s r) then Some (df_wait d r s, None)
                                       else df_inner beh run n d (df_steal d r s)
                                   | _ \<Rightarrow> df_inner beh run n d s)))))"

text \<open>The outer loop; the last element of the Python list is the head.\<close>

fun df_chain ::
    "('c, 'v, 'u) df_behaviour \<Rightarrow> ('c, 'v, 'u) df_runner \<Rightarrow> nat \<Rightarrow> nat list \<Rightarrow> ('c, 'v, 'u) df_state \<Rightarrow>
     ('c, 'v, 'u) df_state option" where
  "df_chain beh run 0 ch s = None"
| "df_chain beh run (Suc n) [] s = Some s"
| "df_chain beh run (Suc n) (d # ch) s =
     (if df_paused (df_at s d) \<noteq> 0 then Some s
      else case df_inner beh run n d (df_upd d (\<lambda>x. x\<lparr>df_chainedTo := None\<rparr>) s) of
          None \<Rightarrow> None
        | Some (s, None) \<Rightarrow> df_chain beh run n ch s
        | Some (s, Some e) \<Rightarrow> df_chain beh run n (e # d # ch) s)"

fun df_run :: "('c, 'v, 'u) df_behaviour \<Rightarrow> nat \<Rightarrow> ('c, 'v, 'u) df_runner" where
  "df_run beh 0 d s = None"
| "df_run beh (Suc n) d s =
     (if df_runningCallbacks (df_at s d) then Some s else df_chain beh (df_run beh n) n [d] s)"

text \<open>
  A program: methods called one after the other from outside any callback.  What one
  of them raises is its caller's concern; the next one is called all the same.
\<close>

definition df_step ::
    "('c, 'v, 'u) df_behaviour \<Rightarrow> nat \<Rightarrow> ('c, 'v) df_action \<Rightarrow> ('c, 'v, 'u) df_state \<Rightarrow> ('c, 'v, 'u) df_result" where
  "df_step beh n a s = df_perform beh (df_run beh n) n a s"

fun df_program ::
    "('c, 'v, 'u) df_behaviour \<Rightarrow> nat \<Rightarrow> ('c, 'v) df_action list \<Rightarrow> ('c, 'v, 'u) df_state \<Rightarrow> ('c, 'v, 'u) df_state option" where
  "df_program beh n [] s = Some s"
| "df_program beh n (a # as) s =
     (case df_step beh n a s of None \<Rightarrow> None | Some r \<Rightarrow> df_program beh n as (state_of r))"

definition df_initial :: "(nat \<Rightarrow> 'c option) \<Rightarrow> 'u \<Rightarrow> ('c, 'v, 'u) df_state" where
  "df_initial cancellers u =
     \<lparr> df_store = (\<lambda>d. new_deferred (cancellers d)), df_trace = [], df_user = u \<rparr>"

section \<open>More fuel changes nothing\<close>

definition df_le :: "'a option \<Rightarrow> 'a option \<Rightarrow> bool" where
  "df_le r r' \<longleftrightarrow> r = None \<or> r = r'"

lemma df_le_simps [simp, intro!]: "df_le r r" "df_le None r"
  by (simp_all add: df_le_def)

lemma df_le_Some: "df_le r r' \<Longrightarrow> r = Some x \<Longrightarrow> r' = Some x"
  by (auto simp: df_le_def)

lemma df_le_map: "df_le r r' \<Longrightarrow> df_le (map_option f r) (map_option f r')"
  by (auto simp: df_le_def)

lemma df_le_bind: "df_le r r' \<Longrightarrow> (\<And>s. df_le (f s) (f' s)) \<Longrightarrow> df_le (df_bind r f) (df_bind r' f')"
  by (auto simp: df_le_def df_bind_def split: option.splits outcome.splits)

lemma df_le_returning: "df_le r r' \<Longrightarrow> df_le (df_returning v r) (df_returning v r')"
  by (auto simp: df_le_def)

lemma df_le_ignoring: "df_le r r' \<Longrightarrow> df_le (df_ignoring r) (df_ignoring r')"
  by (auto simp: df_le_def)

definition df_runner_le :: "('c, 'v, 'u) df_runner \<Rightarrow> ('c, 'v, 'u) df_runner \<Rightarrow> bool" where
  "df_runner_le run run' \<longleftrightarrow> (\<forall>d s. df_le (run d s) (run' d s))"

lemma df_runner_leD: "df_runner_le run run' \<Longrightarrow> df_le (run d s) (run' d s)"
  by (simp add: df_runner_le_def)

lemma df_method_le:
  assumes "df_runner_le run run'"
  shows "df_le (df_startRunCallbacks run d v s) (df_startRunCallbacks run' d v s)"
    and "df_le (df_addCallbacks run d c e s) (df_addCallbacks run' d c e s)"
    and "df_le (df_unpause run d s) (df_unpause run' d s)"
  using df_runner_leD [OF assms]
  by (auto simp: df_startRunCallbacks_def df_addCallbacks_def df_unpause_def Let_def intro: df_le_map)

lemma df_fire_le:
  assumes "df_runner_le run run'"
  shows "df_le (df_callback run d v s) (df_callback run' d v s)"
    and "df_le (df_errback run d v s) (df_errback run' d v s)"
    and "df_le (df_chainDeferred run d d' s) (df_chainDeferred run' d d' s)"
  using df_method_le [OF assms]
  by (auto simp: df_callback_def df_errback_def df_chainDeferred_def split: option.splits)

lemma df_cancel_le:
  assumes "df_runner_le run run'" "\<And>c v s. df_le (call c v s) (call' c v s)"
  shows "n \<le> n' \<Longrightarrow> df_le (df_cancel run call n d s) (df_cancel run' call' n' d s)"
proof (induction n arbitrary: n' d s)
  case (Suc n)
  then obtain m where "n' = Suc m" "n \<le> m" by (cases n') auto
  with Suc.IH [of m] show ?case
    using assms(2) df_fire_le(2) [OF assms(1)]
    by (auto intro!: df_le_bind split: option.splits df_value.splits)
qed simp

lemma df_actions_le:
  "(\<And>a s. df_le (act a s) (act' a s)) \<Longrightarrow> df_le (df_actions act as s) (df_actions act' as s)"
  by (induction as arbitrary: s) (auto intro: df_le_bind)

lemma df_call_user_le:
  "(\<And>a s. df_le (act a s) (act' a s)) \<Longrightarrow> df_le (df_call_user beh act c v s) (df_call_user beh act' c v s)"
  by (auto simp: df_call_user_def intro: df_le_returning df_actions_le split: prod.splits)

lemma df_perform_le:
  assumes "df_runner_le run run'"
  shows "n \<le> n' \<Longrightarrow> df_le (df_perform beh run n a s) (df_perform beh run' n' a s)"
proof (induction n arbitrary: n' a s)
  case 0
  then show ?case using df_fire_le [OF assms] df_method_le [OF assms] by (cases a) auto
next
  case (Suc n)
  then obtain m where m: "n' = Suc m" "n \<le> m" by (cases n') auto
  show ?case
  proof (cases a)
    case (DoCancel d)
    have "df_le (df_cancel run (\<lambda>c v s. df_ignoring (df_call_user beh (df_perform beh run n) c v s)) (Suc n) d s)
      (df_cancel run' (\<lambda>c v s. df_ignoring (df_call_user beh (df_perform beh run' m) c v s)) (Suc m) d s)"
      using m Suc.IH by (intro df_cancel_le [OF assms] df_le_ignoring df_call_user_le) auto
    with DoCancel m show ?thesis by (simp del: df_cancel.simps)
  qed (use df_fire_le [OF assms] df_method_le [OF assms] in auto)
qed

lemma df_call_le:
  "df_runner_le run run' \<Longrightarrow> n \<le> n' \<Longrightarrow> df_le (df_call beh run n fn v s) (df_call beh run' n' fn v s)"
  using df_fire_le df_perform_le
  by (auto simp: df_call_def intro!: df_le_returning df_call_user_le split: df_callable.split)

lemma df_inner_le:
  assumes "df_runner_le run run'"
  shows "n \<le> n' \<Longrightarrow> df_le (df_inner beh run n d s) (df_inner beh run' n' d s)"
proof (induction n arbitrary: n' d s)
  case (Suc n)
  then obtain m where m: "n' = Suc m" "n \<le> m" by (cases n') auto
  note IH = Suc.IH [OF m(2)]
  have call: "df_call beh run n fn v u = Some x \<Longrightarrow> df_call beh run' m fn v u = Some x" for fn v u x
    using df_call_le [OF assms m(2)] df_le_Some by metis
  show ?case
    unfolding m(1) df_inner.simps Let_def
    using IH call by (auto split: list.splits df_callable.splits option.splits df_return.splits df_value.splits)
qed simp

lemma df_chain_le:
  assumes "df_runner_le run run'"
  shows "n \<le> n' \<Longrightarrow> df_le (df_chain beh run n ch s) (df_chain beh run' n' ch s)"
proof (induction n arbitrary: n' ch s)
  case (Suc n)
  then obtain m where m: "n' = Suc m" "n \<le> m" by (cases n') auto
  have inner: "df_inner beh run n d u = Some x \<Longrightarrow> df_inner beh run' m d u = Some x" for d u x
    using df_inner_le [OF assms m(2)] df_le_Some by metis
  show ?case
    unfolding m(1) using Suc.IH [OF m(2)] inner
    by (cases ch) (auto split: option.splits)
qed simp

lemma df_run_mono: "n \<le> n' \<Longrightarrow> df_runner_le (df_run beh n) (df_run beh n')"
proof (induction n arbitrary: n')
  case 0
  then show ?case by (simp add: df_runner_le_def)
next
  case (Suc n)
  then obtain m where "n' = Suc m" "n \<le> m" by (cases n') auto
  with df_chain_le [OF Suc.IH [of m]] show ?case by (simp add: df_runner_le_def)
qed

lemma df_step_mono: "n \<le> n' \<Longrightarrow> df_step beh n a s = Some r \<Longrightarrow> df_step beh n' a s = Some r"
  using df_perform_le [OF df_run_mono] df_le_Some unfolding df_step_def by metis

lemma df_program_mono: "n \<le> n' \<Longrightarrow> df_program beh n as s = Some t \<Longrightarrow> df_program beh n' as s = Some t"
proof (induction "as" arbitrary: s)
  case (Cons a "as")
  then obtain r where "df_step beh n a s = Some r" by (cases "df_step beh n a s") auto
  with Cons df_step_mono [OF Cons.prems(1) this] show ?case by simp
qed simp

end
