(* ===== verification/DeferredProtocol.thy ===== *)
theory DeferredProtocol
  imports Deferred "HOL-Library.Multiset" "HOL-Library.Sublist"
begin

text \<open>
  What holds of every run of callbacks, whatever the callbacks do and however they
  re-enter the Deferreds.  The locale \<open>df_protocol\<close> carries an invariant and a relation
  through all methods of \<open>Deferred\<close>; its two interpretations give that callbacks are
  taken in the order in which they were added, each once, and that those of one
  Deferred never run inside each other.
\<close>

section \<open>What every run preserves\<close>

text \<open>
  A protocol is an invariant \<open>I\<close> and a relation \<open>R\<close> between the states before and after
  a method.  It has to hold for the elementary changes the methods make and for one turn
  of the inner loop, where \<open>idle\<close> is what the outer loop needs to know of a Deferred on
  its stack and \<open>ready\<close> what the inner loop knows of the Deferred it works on.  Then it
  holds for every method, however the callbacks re-enter them.
\<close>

definition df_enter :: "nat \<Rightarrow> 'c df_pair \<Rightarrow> 'c df_pair list \<Rightarrow> ('c, 'v, 'u) df_state \<Rightarrow> ('c, 'v, 'u) df_state" where
  "df_enter d item rest s =
     df_log (Entered d) (df_upd d (\<lambda>x. x\<lparr>df_runningCallbacks := True\<rparr>)
       (df_log (Taken d item) (df_upd d (\<lambda>x. x\<lparr>df_callbacks := rest\<rparr>) s)))"

definition df_leave :: "nat \<Rightarrow> ('c, 'v, 'u) df_state \<Rightarrow> ('c, 'v, 'u) df_state" where
  "df_leave d s = df_log (Left d) (df_upd d (\<lambda>x. x\<lparr>df_runningCallbacks := False\<rparr>) s)"

fun df_is_continue :: "'c df_callable \<Rightarrow> bool" where
  "df_is_continue (CONTINUE d) = True"
| "df_is_continue _ = False"

fun df_public :: "('c, 'v) df_action \<Rightarrow> bool" where
  "df_public (DoAddCallbacks d c e) = (\<not> df_is_continue c \<and> \<not> (case e of None \<Rightarrow> False | Some e \<Rightarrow> df_is_continue e))"
| "df_public _ = True"

fun df_pauses :: "('c, 'v) df_action \<Rightarrow> bool" where
  "df_pauses (DoPause d) = True"
| "df_pauses (DoUnpause d) = True"
| "df_pauses _ = False"

locale df_protocol =
  fixes I :: "('c, 'v, 'u) df_state \<Rightarrow> bool"
    and R :: "('c, 'v, 'u) df_state \<Rightarrow> ('c, 'v, 'u) df_state \<Rightarrow> bool"
    and idle :: "nat \<Rightarrow> ('c, 'v, 'u) df_state \<Rightarrow> bool"
    and ready :: "nat \<Rightarrow> ('c, 'v, 'u) df_state \<Rightarrow> bool"
    and pausing :: bool
  assumes R_refl: "R s s"
    and R_trans: "R s t \<Longrightarrow> R t u \<Longrightarrow> R s u"
    and idle_R: "idle d s \<Longrightarrow> R s t \<Longrightarrow> idle d t"
    and idle_start: "I s \<Longrightarrow> \<not> df_runningCallbacks (df_at s d) \<Longrightarrow> idle d s"
    and chain_start: "I s \<Longrightarrow> idle d s \<Longrightarrow> df_paused (df_at s d) = 0 \<Longrightarrow>
      t = df_upd d (\<lambda>x. x\<lparr>df_chainedTo := None\<rparr>) s \<Longrightarrow> I t \<and> R s t \<and> ready d t"
    and user: "I s \<Longrightarrow> I (s\<lparr>df_user := usr\<rparr>) \<and> R s (s\<lparr>df_user := usr\<rparr>)"
    and append: "I s \<Longrightarrow> \<not> df_is_continue c \<Longrightarrow> \<not> df_is_continue c' \<Longrightarrow>
      I (df_append d (c, c') s) \<and> R s (df_append d (c, c') s)"
    and chained: "I s \<Longrightarrow> t = df_upd d (\<lambda>x. x\<lparr>df_chainedTo := Some d'\<rparr>) s \<Longrightarrow> I t \<and> R s t"
    and suppress: "I s \<Longrightarrow> t = df_upd d (\<lambda>x. x\<lparr>df_suppressAlreadyCalled := b\<rparr>) s \<Longrightarrow> I t \<and> R s t"
    and fire: "I s \<Longrightarrow> \<not> df_called (df_at s d) \<Longrightarrow>
      t = df_upd d (\<lambda>x. x\<lparr>df_called := True, df_result := Some v\<rparr>) s \<Longrightarrow> I t \<and> R s t"
    and pause: "pausing \<Longrightarrow> I s \<Longrightarrow> t = df_upd d (\<lambda>x. x\<lparr>df_paused := i\<rparr>) s \<Longrightarrow> I t \<and> R s t"
    and turn_continue: "I s \<Longrightarrow> ready d s \<Longrightarrow> df_callbacks (df_at s d) = item # rest \<Longrightarrow>
      df_pick item v = CONTINUE e \<Longrightarrow>
      t = df_hand_over d e w (df_log (Taken d item) (df_upd d (\<lambda>x. x\<lparr>df_callbacks := rest\<rparr>) s)) \<Longrightarrow>
      I t \<and> R s t \<and> idle e t"
    and turn_enter: "I s \<Longrightarrow> ready d s \<Longrightarrow> df_callbacks (df_at s d) = item # rest \<Longrightarrow>
      \<not> df_is_continue (df_pick item v) \<Longrightarrow> I (df_enter d item rest s)"
    and turn_leave: "I s \<Longrightarrow> ready d s \<Longrightarrow> df_callbacks (df_at s d) = item # rest \<Longrightarrow>
      \<not> df_is_continue (df_pick item v) \<Longrightarrow> I t \<Longrightarrow> R (df_enter d item rest s) t \<Longrightarrow>
      I (df_set_result d w (df_leave d t)) \<and> R s (df_set_result d w (df_leave d t)) \<and>
      ready d (df_set_result d w (df_leave d t))"
    and turn_steal: "I s \<Longrightarrow> ready d s \<Longrightarrow> I (df_steal d r s) \<and> R s (df_steal d r s) \<and> ready d (df_steal d r s)"
    and turn_wait: "I s \<Longrightarrow> ready d s \<Longrightarrow> I (df_wait d r s) \<and> R s (df_wait d r s)"
begin

definition good :: "('c, 'v, 'u) df_state \<Rightarrow> ('c, 'v, 'u) df_result \<Rightarrow> bool" where
  "good s r \<longleftrightarrow> (\<forall>x. r = Some x \<longrightarrow> I (state_of x) \<and> R s (state_of x))"

definition good_run :: "('c, 'v, 'u) df_runner \<Rightarrow> bool" where
  "good_run run \<longleftrightarrow> (\<forall>d s. I s \<longrightarrow> good s (map_option Ok (run d s)))"

definition allowed :: "('c, 'v) df_action \<Rightarrow> bool" where
  "allowed a \<longleftrightarrow> df_public a \<and> (df_pauses a \<longrightarrow> pausing)"

definition good_beh :: "('c, 'v, 'u) df_behaviour \<Rightarrow> bool" where
  "good_beh beh \<longleftrightarrow> (\<forall>c v u. \<forall>a \<in> set (fst (snd (beh c v u))). allowed a)"

lemma good_refl: "I s \<Longrightarrow> good s (Some (Ok s))" "I s \<Longrightarrow> good s (Some (Exc e s))" "good s None"
  by (simp_all add: good_def R_refl)

lemma good_step: "R s t \<Longrightarrow> good t r \<Longrightarrow> good s r"
  unfolding good_def using R_trans by blast

lemma good_bind:
  assumes "good s r" "\<And>t. I t \<Longrightarrow> R s t \<Longrightarrow> good t (f t)"
  shows "good s (df_bind r f)"
proof (cases r)
  case (Some x)
  show ?thesis
  proof (cases x)
    case (Ok t)
    with Some assms(1) have "I t" "R s t" by (simp_all add: good_def)
    then have "good s (f t)" by (blast intro: good_step assms(2))
    with Some Ok show ?thesis by (simp add: df_bind_def)
  next
    case (Exc e t)
    with Some assms(1) show ?thesis by (simp add: df_bind_def)
  qed
qed (simp add: df_bind_def good_refl)

lemma good_runD: "good_run run \<Longrightarrow> I t \<Longrightarrow> R s t \<Longrightarrow> good s (map_option Ok (run d t))"
  unfolding good_run_def by (blast intro: good_step)

lemma good_startRunCallbacks: "good_run run \<Longrightarrow> I s \<Longrightarrow> good s (df_startRunCallbacks run d v s)"
proof (cases "df_called (df_at s d)")
  case True
  assume "I s"
  with True suppress [OF \<open>I s\<close> refl, of d False] show ?thesis
    by (auto simp: df_startRunCallbacks_def good_def R_refl)
next
  case False
  assume "good_run run" "I s"
  with False fire [OF \<open>I s\<close> False refl, of v] show ?thesis
    by (simp add: df_startRunCallbacks_def good_runD)
qed

lemma good_addCallbacks:
  assumes "good_run run" "I s" "\<not> df_is_continue c" "\<not> (case e of None \<Rightarrow> False | Some e \<Rightarrow> df_is_continue e)"
  shows "good s (df_addCallbacks run d c e s)"
proof -
  let ?e = "case e of None \<Rightarrow> Passthru | Some e \<Rightarrow> e"
  have "\<not> df_is_continue ?e" using assms(4) by (auto split: option.splits)
  with append [OF assms(2,3)] have "I (df_append d (c, ?e) s) \<and> R s (df_append d (c, ?e) s)" by blast
  with assms(1) show ?thesis
    by (auto simp: df_addCallbacks_def Let_def good_runD) (simp add: good_def)
qed

lemma good_chainDeferred: "good_run run \<Longrightarrow> I s \<Longrightarrow> good s (df_chainDeferred run d d' s)"
proof -
  assume run: "good_run run" and s: "I s"
  let ?t = "df_upd d' (\<lambda>x. x\<lparr>df_chainedTo := Some d\<rparr>) s"
  have t: "I ?t" "R s ?t" using chained [OF s refl, of d' d] by blast+
  show ?thesis unfolding df_chainDeferred_def
    by (rule good_step [OF t(2)], rule good_addCallbacks [OF run t(1)]) simp_all
qed

lemma good_paused:
  assumes "pausing" "good_run run" "I s"
  shows "good s (Some (Ok (df_pause d s)))" "good s (df_unpause run d s)"
proof -
  have step: "I t \<and> R s t" if "t = df_upd d (\<lambda>x. x\<lparr>df_paused := df_paused x + k\<rparr>) s" for t k
    using that by (intro pause [OF assms(1,3), of t d "df_paused (df_store s d) + k"]) (simp add: df_upd_def)
  from step [OF refl, of 1] show "good s (Some (Ok (df_pause d s)))"
    by (simp add: good_def df_pause_def)
  let ?t = "df_upd d (\<lambda>x. x\<lparr>df_paused := df_paused x - 1\<rparr>) s"
  have t: "I ?t" "R s ?t" using step [of ?t "- 1"] by simp_all
  then have "good s (Some (Ok ?t))" by (simp add: good_def)
  with good_runD [OF assms(2) t, of d] show "good s (df_unpause run d s)"
    by (auto simp: df_unpause_def Let_def)
qed

lemma good_fire:
  assumes "good_run run" "I s"
  shows "good s (df_callback run d v s)" "good s (df_errback run d v s)"
  using assms good_startRunCallbacks
  by (auto simp: df_callback_def df_errback_def good_refl split: option.splits)

lemma good_cancel:
  assumes "good_run run" "\<And>c v s. I s \<Longrightarrow> good s (call c v s)"
  shows "I s \<Longrightarrow> good s (df_cancel run call n d s)"
proof (induction n arbitrary: d s)
  case (Suc n)
  have "good s (case df_canceller (df_at s d) of Some c \<Rightarrow> call c (Ref d) s
      | None \<Rightarrow> Some (Ok (df_upd d (\<lambda>x. x\<lparr>df_suppressAlreadyCalled := True\<rparr>) s)))"
    using suppress [OF Suc.prems refl, of d True] assms(2) [OF Suc.prems]
    by (auto simp: good_def split: option.splits)
  then have "good s (df_bind (case df_canceller (df_at s d) of Some c \<Rightarrow> call c (Ref d) s
      | None \<Rightarrow> Some (Ok (df_upd d (\<lambda>x. x\<lparr>df_suppressAlreadyCalled := True\<rparr>) s)))
      (\<lambda>s. if \<not> df_called (df_at s d) then df_errback run d (Failure CancelledError) s else Some (Ok s)))"
    by (rule good_bind) (auto intro: good_fire good_refl assms(1))
  then show ?case
    using Suc by (auto simp: good_refl split: option.splits df_value.splits)
qed (simp add: good_refl)

lemma good_actions:
  "(\<And>a s. a \<in> set as \<Longrightarrow> I s \<Longrightarrow> good s (act a s)) \<Longrightarrow> I s \<Longrightarrow> good s (df_actions act as s)"
  by (induction "as" arbitrary: s) (auto simp: good_refl intro: good_bind)

definition good_called :: "('c, 'v, 'u) df_state \<Rightarrow> ('c, 'v, 'u) df_returned \<Rightarrow> bool" where
  "good_called s r \<longleftrightarrow> (\<forall>t v. r = Some (t, v) \<longrightarrow> I t \<and> R s t)"

lemma good_returning: "good s r \<Longrightarrow> good_called s (df_returning v r)"
  by (cases "(v, r)" rule: df_returning.cases) (auto simp: good_def good_called_def)

lemma good_ignoring: "good_called s r \<Longrightarrow> good s (df_ignoring r)"
  by (cases r rule: df_ignoring.cases) (auto simp: good_def good_called_def)

lemma good_call_user:
  assumes "good_beh beh" "\<And>a s. allowed a \<Longrightarrow> I s \<Longrightarrow> good s (act a s)" "I s"
  shows "good_called s (df_call_user beh act c v s)"
proof -
  obtain u acts ret where b: "beh c v (df_user s) = (u, acts, ret)" by (metis prod.collapse)
  with assms(1) have "\<forall>a \<in> set acts. allowed a" unfolding good_beh_def by (metis fst_conv snd_conv)
  then have "good (s\<lparr>df_user := u\<rparr>) (df_actions act acts (s\<lparr>df_user := u\<rparr>))"
    using user [OF assms(3), of u] assms(2) by (intro good_actions) simp_all
  then have "good s (df_actions act acts (s\<lparr>df_user := u\<rparr>))"
    using user [OF assms(3), of u] good_step by blast
  then show ?thesis by (simp add: df_call_user_def b good_returning)
qed

lemma good_perform:
  assumes "good_run run" "good_beh beh"
  shows "allowed a \<Longrightarrow> I s \<Longrightarrow> good s (df_perform beh run n a s)"
proof (induction n arbitrary: a s)
  case 0
  then show ?case
    using good_fire [OF assms(1)] good_addCallbacks [OF assms(1)] good_chainDeferred [OF assms(1)]
      good_paused [OF _ assms(1)]
    by (cases a) (auto simp: allowed_def good_refl)
next
  case (Suc n)
  show ?case
  proof (cases a)
    case (DoCancel d)
    have "good s (df_cancel run (\<lambda>c v s. df_ignoring (df_call_user beh (df_perform beh run n) c v s)) (Suc n) d s)"
      using Suc by (intro good_cancel [OF assms(1)] good_ignoring good_call_user [OF assms(2)]) auto
    with DoCancel show ?thesis by (simp del: df_cancel.simps)
  qed (use Suc.prems good_fire [OF assms(1)] good_addCallbacks [OF assms(1)] good_chainDeferred [OF assms(1)]
      good_paused [OF _ assms(1)] in \<open>auto simp: allowed_def good_refl\<close>)
qed

lemma good_call:
  assumes "good_run run" "good_beh beh" "I s"
  shows "good_called s (df_call beh run n fn v s)"
proof (cases fn)
  case (User c)
  then show ?thesis
    by (simp add: df_call_def good_call_user [OF assms(2) good_perform [OF assms(1,2)] assms(3)])
next
  case (FireCallback d)
  then show ?thesis by (simp add: df_call_def good_returning good_fire [OF assms(1,3)])
next
  case (FireErrback d)
  then show ?thesis by (simp add: df_call_def good_returning good_fire [OF assms(1,3)])
qed (simp_all add: df_call_def good_called_def R_refl assms(3))

definition good_inner :: "('c, 'v, 'u) df_state \<Rightarrow> (('c, 'v, 'u) df_state \<times> nat option) option \<Rightarrow> bool" where
  "good_inner s r \<longleftrightarrow> (\<forall>t h. r = Some (t, h) \<longrightarrow> I t \<and> R s t \<and> (\<forall>e. h = Some e \<longrightarrow> idle e t))"

lemma good_inner_step: "R s t \<Longrightarrow> good_inner t r \<Longrightarrow> good_inner s r"
  unfolding good_inner_def using R_trans by blast

text \<open>One turn that calls something, whatever the call returns.\<close>

lemma good_turn:
  assumes IH: "\<And>t. I t \<Longrightarrow> ready d t \<Longrightarrow> good_inner t (df_inner beh run n d t)"
    and s: "I s" "ready d s" "df_callbacks (df_at s d) = item # rest" "\<not> df_is_continue (df_pick item (v :: 'v df_value))"
    and t: "I t" "R (df_enter d item rest s) t"
  shows "good_inner s
    (case ret of
       Raise e \<Rightarrow> df_inner beh run n d (df_set_result d (Failure e) (df_leave d t))
     | Return w \<Rightarrow>
         (let s = df_set_result d w (df_leave d t)
          in case w of
               Ref r \<Rightarrow>
                 if df_has_no_result (df_at s r) then Some (df_wait d r s, None)
                 else df_inner beh run n d (df_steal d r s)
             | _ \<Rightarrow> df_inner beh run n d s))"
proof -
  let ?t = "\<lambda>w. df_set_result d w (df_leave d t)"
  have l: "I (?t w)" "R s (?t w)" "ready d (?t w)" for w
    using turn_leave [OF s t] by blast+
  have "good_inner s (df_inner beh run n d (?t w))" for w
    by (rule good_inner_step [OF l(2) IH [OF l(1,3)]])
  moreover have "good_inner s (df_inner beh run n d (df_steal d r (?t w)))" for r w
    using turn_steal [OF l(1) [of w] l(3) [of w], of r] R_trans [OF l(2)] by (blast intro: good_inner_step IH)
  moreover have "good_inner s (Some (df_wait d r (?t w), None))" for r w
    using turn_wait [OF l(1) [of w] l(3) [of w], of r] R_trans [OF l(2)] by (auto simp: good_inner_def)
  ultimately show ?thesis by (auto simp: Let_def split: df_return.split df_value.split)
qed

lemma good_inner:
  assumes "good_run run" "good_beh beh"
  shows "I s \<Longrightarrow> ready d s \<Longrightarrow> good_inner s (df_inner beh run n d s)"
proof (induction n arbitrary: s)
  case (Suc n)
  show ?case
  proof (cases "df_callbacks (df_at s d)")
    case Nil
    with Suc.prems show ?thesis by (simp add: good_inner_def R_refl)
  next
    case (Cons item rest)
    let ?v = "df_value (df_at s d)"
    show ?thesis
    proof (cases "df_is_continue (df_pick item ?v)")
      case True
      then obtain e where e: "df_pick item ?v = CONTINUE e" by (cases "df_pick item ?v") auto
      from turn_continue [OF Suc.prems Cons e refl, of ?v] Cons e show ?thesis
        by (simp add: good_inner_def)
    next
      case False
      let ?s = "df_enter d item rest s"
      have "I ?s" by (rule turn_enter [OF Suc.prems Cons False])
      then have call: "good_called ?s (df_call beh run n (df_pick item ?v) ?v ?s)" by (rule good_call [OF assms])
      show ?thesis
      proof (cases "df_call beh run n (df_pick item ?v) ?v ?s")
        case None
        with Cons False show ?thesis
          unfolding df_enter_def
          by (cases "df_pick item ?v") (simp_all add: Let_def good_inner_def)
      next
        case (Some tr)
        obtain t ret where tr: "tr = (t, ret)" by (cases tr)
        with Some call have t: "I t" "R ?s t" by (simp_all add: good_called_def)
        from good_turn [OF Suc.IH Suc.prems Cons False t, where ret = ret]
        show ?thesis using Cons False Some tr
          unfolding df_enter_def df_leave_def
          by (cases "df_pick item ?v") (simp_all add: Let_def split: df_return.splits)
      qed
    qed
  qed
qed (simp add: good_inner_def)

lemma good_chain:
  assumes "good_run run" "good_beh beh"
  shows "I s \<Longrightarrow> \<forall>d \<in> set ch. idle d s \<Longrightarrow> good s (map_option Ok (df_chain beh run n ch s))"
proof (induction n arbitrary: ch s)
  case (Suc n)
  show ?case
  proof (cases ch)
    case (Cons d ds)
    show ?thesis
    proof (cases "df_paused (df_at s d) = 0")
      case True
      let ?s = "df_upd d (\<lambda>x. x\<lparr>df_chainedTo := None\<rparr>) s"
      have s: "I ?s" "R s ?s" "ready d ?s"
        using chain_start [OF Suc.prems(1) _ True refl] Suc.prems(2) Cons by auto
      have inner: "good_inner ?s (df_inner beh run n d ?s)" by (rule good_inner [OF assms s(1,3)])
      show ?thesis
      proof (cases "df_inner beh run n d ?s")
        case (Some th)
        obtain t h where th: "th = (t, h)" by (cases th)
        with Some inner have t: "I t" "R ?s t" "\<forall>e. h = Some e \<longrightarrow> idle e t" by (simp_all add: good_inner_def)
        have st: "R s t" by (rule R_trans [OF s(2) t(2)])
        have ch: "\<forall>d \<in> set ch. idle d t" using Suc.prems(2) idle_R st by blast
        have "good s (map_option Ok (df_chain beh run n ds t))"
          using ch Cons by (intro good_step [OF st] Suc.IH t) simp
        moreover have "good s (map_option Ok (df_chain beh run n (e # d # ds) t))" if "h = Some e" for e
          using ch Cons t(3) that by (intro good_step [OF st] Suc.IH t) simp
        ultimately show ?thesis using Some th Cons True by (cases h) simp_all
      qed (simp add: Cons True good_refl)
    qed (simp add: Cons good_refl Suc.prems)
  qed (simp add: good_refl Suc.prems)
qed (simp add: good_refl)

lemma good_df_run: "good_beh beh \<Longrightarrow> good_run (df_run beh n)"
proof (induction n)
  case (Suc n)
  then show ?case
    using good_chain [of "df_run beh n" beh] idle_start
    by (auto simp: good_run_def good_refl)
qed (simp add: good_run_def good_refl)

theorem df_step_good:
  "good_beh beh \<Longrightarrow> allowed a \<Longrightarrow> I s \<Longrightarrow> df_step beh n a s = Some r \<Longrightarrow> I (state_of r) \<and> R s (state_of r)"
  using good_perform [OF good_df_run, of beh beh] by (simp add: df_step_def good_def)

theorem df_program_good:
  "good_beh beh \<Longrightarrow> \<forall>a \<in> set as. allowed a \<Longrightarrow> I s \<Longrightarrow> df_program beh n as s = Some t \<Longrightarrow> I t \<and> R s t"
proof (induction "as" arbitrary: s)
  case (Cons a "as")
  then obtain r where r: "df_step beh n a s = Some r" "df_program beh n as (state_of r) = Some t"
    by (cases "df_step beh n a s") auto
  from df_step_good [OF Cons.prems(1) _ Cons.prems(3) r(1)] Cons.prems(2)
  have step: "I (state_of r)" "R s (state_of r)" by simp_all
  with Cons.IH [OF Cons.prems(1) _ step(1) r(2)] Cons.prems(2) show ?case by (auto intro: R_trans)
qed (simp add: R_refl)

end

section \<open>Each callback once, in order\<close>

lemma df_at_upd [simp]: "df_at (df_upd d f s) d' = (if d' = d then f (df_at s d) else df_at s d')"
  by (simp add: df_at_def df_upd_def)

lemma df_at_log [simp]: "df_at (df_log e s) d = df_at s d"
  by (simp add: df_at_def df_log_def)

lemma df_at_user [simp]: "df_at (s\<lparr>df_user := u\<rparr>) d = df_at s d"
  by (simp add: df_at_def)

lemma df_trace_simps [simp]:
  "df_trace (df_upd d f s) = df_trace s" "df_trace (df_log e s) = df_trace s @ [e]"
  by (simp_all add: df_upd_def df_log_def)

lemmas df_primitives = df_append_def df_enter_def df_leave_def df_set_result_def df_hand_over_def
  df_wait_def df_steal_def df_pause_def

fun df_added_to :: "nat \<Rightarrow> 'c df_event \<Rightarrow> 'c df_pair option" where
  "df_added_to d (Added d' p) = (if d' = d then Some p else None)"
| "df_added_to d _ = None"

fun df_taken_from :: "nat \<Rightarrow> 'c df_event \<Rightarrow> 'c df_pair option" where
  "df_taken_from d (Taken d' p) = (if d' = d then Some p else None)"
| "df_taken_from d _ = None"

definition df_added :: "nat \<Rightarrow> ('c, 'v, 'u) df_state \<Rightarrow> 'c df_pair list" where
  "df_added d s = List.map_filter (df_added_to d) (df_trace s)"

definition df_taken :: "nat \<Rightarrow> ('c, 'v, 'u) df_state \<Rightarrow> 'c df_pair list" where
  "df_taken d s = List.map_filter (df_taken_from d) (df_trace s)"

lemma df_added_simps [simp]:
  "df_added d (df_upd d' f s) = df_added d s" "df_taken d (df_upd d' f s) = df_taken d s"
  "df_added d (s\<lparr>df_user := u\<rparr>) = df_added d s" "df_taken d (s\<lparr>df_user := u\<rparr>) = df_taken d s"
  "df_added d (df_log e s) = df_added d s @ (case df_added_to d e of None \<Rightarrow> [] | Some p \<Rightarrow> [p])"
  "df_taken d (df_log e s) = df_taken d s @ (case df_taken_from d e of None \<Rightarrow> [] | Some p \<Rightarrow> [p])"
  by (simp_all add: df_added_def df_taken_def List.map_filter_def split: option.splits)

definition df_fifo :: "('c, 'v, 'u) df_state \<Rightarrow> bool" where
  "df_fifo s \<longleftrightarrow> (\<forall>d. df_added d s = df_taken d s @ df_callbacks (df_at s d))"

definition df_later :: "('c, 'v, 'u) df_state \<Rightarrow> ('c, 'v, 'u) df_state \<Rightarrow> bool" where
  "df_later s t \<longleftrightarrow> prefix (df_trace s) (df_trace t) \<and> (\<forall>d. df_called (df_at s d) \<longrightarrow> df_called (df_at t d))"

interpretation df_order: df_protocol df_fifo df_later "\<lambda>_ _. True" "\<lambda>_ _. True" True
proof unfold_locales
  show "df_later s t \<Longrightarrow> df_later t u \<Longrightarrow> df_later s u" for s t u
    unfolding df_later_def by (meson prefix_order.trans)
next
  fix s t :: "('a, 'b, 'c) df_state" and d item rest and w v :: "'b df_value"
  assume s: "df_fifo s" and t: "df_fifo t" "df_later (df_enter d item rest s) t"
  have "df_fifo (df_set_result d w (df_leave d t))"
    using t(1) by (auto simp: df_fifo_def df_primitives)
  moreover have "prefix (df_trace s) (df_trace t)"
    using t(2) by (auto simp: df_later_def df_enter_def dest: append_prefixD)
  moreover have "df_called (df_at t d')" if "df_called (df_at s d')" for d'
    using t(2) that by (cases "d' = d") (auto simp: df_later_def df_enter_def)
  ultimately show "df_fifo (df_set_result d w (df_leave d t)) \<and> df_later s (df_set_result d w (df_leave d t)) \<and> True"
    by (simp add: df_later_def df_leave_def df_set_result_def)
qed (auto simp: df_fifo_def df_later_def df_primitives)

section \<open>Callbacks of one Deferred never run inside each other\<close>

text \<open>The Deferreds in one of whose callbacks a trace ends, unless one was entered twice.\<close>

fun df_open_step :: "'c df_event \<Rightarrow> nat set option \<Rightarrow> nat set option" where
  "df_open_step (Entered d) (Some D) = (if d \<in> D then None else Some (insert d D))"
| "df_open_step (Left d) (Some D) = Some (D - {d})"
| "df_open_step e r = r"

definition df_open :: "('c, 'v, 'u) df_state \<Rightarrow> nat set option" where
  "df_open s = fold df_open_step (df_trace s) (Some {})"

lemma df_open_simps [simp]:
  "df_open (df_upd d f s) = df_open s" "df_open (s\<lparr>df_user := u\<rparr>) = df_open s"
  "df_open (df_log e s) = df_open_step e (df_open s)"
  by (simp_all add: df_open_def)

text \<open>How often a continuation of \<open>e\<close> has been added to some Deferred, and taken from one.\<close>

definition df_waiting :: "nat \<Rightarrow> ('c, 'v, 'u) df_state \<Rightarrow> int" where
  "df_waiting e s =
     int (length (filter (\<lambda>x. \<exists>d. x = Added d (CONTINUE e, CONTINUE e)) (df_trace s))) -
     int (length (filter (\<lambda>x. \<exists>d. x = Taken d (CONTINUE e, CONTINUE e)) (df_trace s)))"

lemma df_waiting_simps [simp]:
  "df_waiting e (df_upd d f s) = df_waiting e s" "df_waiting e (s\<lparr>df_user := u\<rparr>) = df_waiting e s"
  "df_waiting e (df_log x s) = df_waiting e s +
     (if \<exists>d. x = Added d (CONTINUE e, CONTINUE e) then 1 else 0) -
     (if \<exists>d. x = Taken d (CONTINUE e, CONTINUE e) then 1 else 0)"
  by (auto simp: df_waiting_def df_log_def)

definition df_well_formed :: "'c df_pair \<Rightarrow> bool" where
  "df_well_formed p \<longleftrightarrow> (\<exists>e. p = (CONTINUE e, CONTINUE e)) \<or> (\<not> df_is_continue (fst p) \<and> \<not> df_is_continue (snd p))"

lemma df_well_formed_pick:
  "df_well_formed p \<Longrightarrow> df_pick p v = CONTINUE e \<longleftrightarrow> p = (CONTINUE e, CONTINUE e)"
  "df_well_formed p \<Longrightarrow> df_is_continue (df_pick p v) \<longleftrightarrow> (\<exists>e. p = (CONTINUE e, CONTINUE e))"
  by (auto simp: df_well_formed_def df_pick_def)

text \<open>A continuation in some callback list has been added more often than it has been taken.\<close>

lemma length_filter_pairs:
  "length (filter (\<lambda>x. \<exists>d. x = Added d p) tr) = size (filter_mset (\<lambda>x. \<exists>d. x = Added d p) (mset tr))"
  by (simp flip: mset_filter)

lemma df_count_added:
  "count_list (List.map_filter (df_added_to d) tr) p = count_list tr (Added d p)"
  "count_list (List.map_filter (df_taken_from d) tr) p = count_list tr (Taken d p)"
proof (induction tr)
  case (Cons x tr)
  {
    case 1
    then show ?case using Cons by (cases x) (auto simp: List.map_filter_def)
  next
    case 2
    then show ?case using Cons by (cases x) (auto simp: List.map_filter_def)
  }
qed (simp_all add: List.map_filter_def)

fun df_added_pair :: "'c df_event \<Rightarrow> (nat \<times> 'c df_pair) option" where
  "df_added_pair (Added d p) = Some (d, p)"
| "df_added_pair _ = None"

fun df_taken_pair :: "'c df_event \<Rightarrow> (nat \<times> 'c df_pair) option" where
  "df_taken_pair (Taken d p) = Some (d, p)"
| "df_taken_pair _ = None"

lemma df_count_pairs:
  "count (mset (List.map_filter df_added_pair tr)) (d, p) = count_list tr (Added d p)"
  "count (mset (List.map_filter df_taken_pair tr)) (d, p) = count_list tr (Taken d p)"
proof (induction tr)
  case (Cons x tr)
  {
    case 1
    then show ?case using Cons by (cases x) (auto simp: List.map_filter_def)
  next
    case 2
    then show ?case using Cons by (cases x) (auto simp: List.map_filter_def)
  }
qed (simp_all add: List.map_filter_def)

lemma df_length_pairs:
  "length (filter (\<lambda>x. \<exists>d. x = Added d p) tr) = size (filter_mset (\<lambda>x. snd x = p) (mset (List.map_filter df_added_pair tr)))"
  "length (filter (\<lambda>x. \<exists>d. x = Taken d p) tr) = size (filter_mset (\<lambda>x. snd x = p) (mset (List.map_filter df_taken_pair tr)))"
proof (induction tr)
  case (Cons x tr)
  {
    case 1
    then show ?case using Cons by (cases x) (auto simp: List.map_filter_def)
  next
    case 2
    then show ?case using Cons by (cases x) (auto simp: List.map_filter_def)
  }
qed (simp_all add: List.map_filter_def)

lemma df_fifo_waiting:
  assumes "df_fifo s"
  shows "0 \<le> df_waiting e s"
    and "(CONTINUE e, CONTINUE e) \<in> set (df_callbacks (df_at s d)) \<Longrightarrow> 0 < df_waiting e s"
proof -
  let ?p = "(CONTINUE e, CONTINUE e)"
  define A where "A = mset (List.map_filter df_added_pair (df_trace s))"
  define T where "T = mset (List.map_filter df_taken_pair (df_trace s))"
  have eq: "count A (d, p) = count T (d, p) + count_list (df_callbacks (df_at s d)) p" for d p
  proof -
    have "df_added d s = df_taken d s @ df_callbacks (df_at s d)" using assms by (simp add: df_fifo_def)
    then have "count_list (df_added d s) p = count_list (df_taken d s) p + count_list (df_callbacks (df_at s d)) p"
      by simp
    then show ?thesis by (simp add: A_def T_def df_count_pairs df_added_def df_taken_def df_count_added)
  qed
  then have sub: "T \<subseteq># A" by (auto simp: subseteq_mset_def)
  have w: "df_waiting e s = int (size (filter_mset (\<lambda>x. snd x = ?p) A)) - int (size (filter_mset (\<lambda>x. snd x = ?p) T))"
    by (simp add: df_waiting_def df_length_pairs A_def T_def)
  show "0 \<le> df_waiting e s" unfolding w using size_mset_mono [OF multiset_filter_mono [OF sub]] by simp
  show "0 < df_waiting e s" if "?p \<in> set (df_callbacks (df_at s d))"
  proof -
    have "count_list (df_callbacks (df_at s d)) ?p > 0" using that by (simp add: count_list_0_iff flip: neq0_conv)
    then have "count (filter_mset (\<lambda>x. snd x = ?p) T) (d, ?p) < count (filter_mset (\<lambda>x. snd x = ?p) A) (d, ?p)"
      using eq by simp
    then have "filter_mset (\<lambda>x. snd x = ?p) T \<subset># filter_mset (\<lambda>x. snd x = ?p) A"
      using multiset_filter_mono [OF sub] by (metis less_irrefl subset_mset.less_le)
    then show ?thesis unfolding w by (simp add: mset_subset_size)
  qed
qed

text \<open>
  Without \<open>pause\<close> and \<open>unpause\<close>, a Deferred's counter says whether its continuation is in
  some callback list, which it is at most once and never while its callbacks run.
\<close>

definition df_orderly :: "('c, 'v, 'u) df_state \<Rightarrow> bool" where
  "df_orderly s \<longleftrightarrow> df_fifo s \<and> (\<forall>d p. Added d p \<in> set (df_trace s) \<longrightarrow> df_well_formed p) \<and>
     (\<forall>d. df_paused (df_at s d) = df_waiting d s \<and> df_waiting d s \<le> 1 \<and>
       (df_runningCallbacks (df_at s d) \<longrightarrow> df_waiting d s = 0)) \<and>
     df_open s = Some {d. df_runningCallbacks (df_at s d)}"

definition df_same_running :: "('c, 'v, 'u) df_state \<Rightarrow> ('c, 'v, 'u) df_state \<Rightarrow> bool" where
  "df_same_running s t \<longleftrightarrow> (\<forall>d. df_runningCallbacks (df_at s d) = df_runningCallbacks (df_at t d))"

lemma df_callbacks_well_formed:
  assumes "df_orderly s" "p \<in> set (df_callbacks (df_at s d))"
  shows "df_well_formed p"
proof -
  have "p \<in> set (df_added d s)" using assms by (simp add: df_orderly_def df_fifo_def)
  then have "Added d p \<in> set (df_trace s)"
    unfolding df_added_def List.map_filter_def by (auto elim: df_added_to.elims split: if_splits)
  with assms(1) show ?thesis unfolding df_orderly_def by blast
qed


lemma df_orderly_continue:
  assumes s: "df_orderly s" and r: "\<not> df_runningCallbacks (df_at s d)" "df_paused (df_at s d) = 0"
    and c: "df_callbacks (df_at s d) = item # rest" "df_pick item v = CONTINUE e"
    and t: "t = df_hand_over d e w (df_log (Taken d item) (df_upd d (\<lambda>x. x\<lparr>df_callbacks := rest\<rparr>) s))"
  shows "df_orderly t \<and> df_same_running s t \<and> \<not> df_runningCallbacks (df_at t e)"
proof -
  have item: "item = (CONTINUE e, CONTINUE e)"
    using df_callbacks_well_formed [OF s, of item d] c df_well_formed_pick(1) [of item v e] by simp
  have fifo: "df_fifo s" using s by (simp add: df_orderly_def)
  then have w: "0 < df_waiting e s" using df_fifo_waiting(2) [of s e d] c item by simp
  moreover have "df_waiting e s \<le> 1" and run: "\<not> df_runningCallbacks (df_at s e)"
    using s w unfolding df_orderly_def by auto
  ultimately have one: "df_waiting e s = 1" by simp
  have "e \<noteq> d" using s r(2) one unfolding df_orderly_def by auto
  have "df_fifo t" using fifo c by (auto simp: t df_fifo_def df_primitives)
  with s one run \<open>e \<noteq> d\<close> item show ?thesis
    by (auto simp: t df_orderly_def df_same_running_def df_primitives)
qed

lemma df_orderly_enter:
  assumes s: "df_orderly s" and r: "\<not> df_runningCallbacks (df_at s d)" "df_paused (df_at s d) = 0"
    and c: "df_callbacks (df_at s d) = item # rest" "\<not> df_is_continue (df_pick item v)"
  shows "df_orderly (df_enter d item rest s)"
proof -
  have item: "item \<noteq> (CONTINUE e, CONTINUE e)" for e
    using df_callbacks_well_formed [OF s, of item d] c df_well_formed_pick(2) [of item v] by auto
  have "df_fifo (df_enter d item rest s)" using s c by (auto simp: df_orderly_def df_fifo_def df_primitives)
  with s r item show ?thesis
    by (auto simp: df_orderly_def df_enter_def)
qed

lemma df_orderly_leave:
  assumes s: "df_orderly s" "\<not> df_runningCallbacks (df_at s d)"
    and t: "df_orderly t" "df_same_running (df_enter d item rest s) t"
    and x: "x = df_set_result d w (df_leave d t)"
  shows "df_orderly x \<and> df_same_running s x \<and> \<not> df_runningCallbacks (df_at x d) \<and> df_paused (df_at x d) = 0"
proof -
  have run: "df_runningCallbacks (df_at t e) = (e = d \<or> df_runningCallbacks (df_at s e))" for e
  proof -
    from t(2) have "df_runningCallbacks (df_at t e) = df_runningCallbacks (df_at (df_enter d item rest s) e)"
      by (simp add: df_same_running_def)
    also have "\<dots> = (e = d \<or> df_runningCallbacks (df_at s e))" by (simp add: df_enter_def)
    finally show ?thesis .
  qed
  have I: "df_fifo t" "Added e p \<in> set (df_trace t) \<Longrightarrow> df_well_formed p"
    "df_paused (df_at t e) = df_waiting e t" "df_waiting e t \<le> 1"
    "df_runningCallbacks (df_at t e) \<Longrightarrow> df_waiting e t = 0"
    "df_open t = Some {e. df_runningCallbacks (df_at t e)}" for e p
    using t(1) unfolding df_orderly_def by blast+
  have X: "df_fifo x" "df_waiting e x = df_waiting e t" "df_paused (df_at x e) = df_paused (df_at t e)"
    "df_runningCallbacks (df_at x e) = df_runningCallbacks (df_at s e)"
    "Added e p \<in> set (df_trace x) \<longleftrightarrow> Added e p \<in> set (df_trace t)" for e p
    using I(1) s(2) run [of e] by (auto simp: x df_fifo_def df_primitives)
  have "{e. df_runningCallbacks (df_at t e)} - {d} = {e. df_runningCallbacks (df_at x e)}"
    using s(2) run X(4) by auto
  then have opn: "df_open x = Some {e. df_runningCallbacks (df_at x e)}"
    using I(6) by (simp add: x df_leave_def df_set_result_def)
  have "df_waiting e x = 0" if "df_runningCallbacks (df_at x e)" for e
    using I(5) [of e] X(2,4) run that by simp
  with I X(1-3,5) opn have "df_orderly x" unfolding df_orderly_def by simp
  moreover have "df_paused (df_at x d) = 0" using X(3) I(3) I(5) [of d] run [of d] by simp
  ultimately show ?thesis using X(4) s(2) by (simp add: df_same_running_def)
qed

lemma df_orderly_wait:
  assumes s: "df_orderly s" and r: "\<not> df_runningCallbacks (df_at s d)" "df_paused (df_at s d) = 0"
  shows "df_orderly (df_wait d r s) \<and> df_same_running s (df_wait d r s)"
proof -
  have "df_fifo (df_wait d r s)" using s by (auto simp: df_orderly_def df_fifo_def df_primitives)
  with s r show ?thesis
    by (auto simp: df_orderly_def df_same_running_def df_primitives df_well_formed_def)
qed

lemma df_orderly_upd:
  assumes "df_orderly s" "\<And>x. df_paused (f x) = df_paused x" "\<And>x. df_callbacks (f x) = df_callbacks x"
    "\<And>x. df_runningCallbacks (f x) = df_runningCallbacks x"
  shows "df_orderly (df_upd d f s) \<and> df_same_running s (df_upd d f s)"
proof -
  have "df_fifo (df_upd d f s)" using assms by (auto simp: df_orderly_def df_fifo_def)
  with assms show ?thesis by (auto simp: df_orderly_def df_same_running_def)
qed

lemma df_orderly_append:
  assumes "df_orderly s" "\<not> df_is_continue c" "\<not> df_is_continue e"
  shows "df_orderly (df_append d (c, e) s) \<and> df_same_running s (df_append d (c, e) s)"
proof -
  have "df_fifo (df_append d (c, e) s)" using assms by (auto simp: df_orderly_def df_fifo_def df_primitives)
  moreover have "c \<noteq> CONTINUE e'" for e' using assms(2) by auto
  ultimately show ?thesis using assms
    by (auto simp: df_orderly_def df_same_running_def df_append_def df_well_formed_def)
qed

lemma df_orderly_user: "df_orderly s \<Longrightarrow> df_orderly (s\<lparr>df_user := u\<rparr>) \<and> df_same_running s (s\<lparr>df_user := u\<rparr>)"
  by (auto simp: df_orderly_def df_same_running_def df_fifo_def)

lemma df_orderly_steal:
  assumes "df_orderly s"
  shows "df_orderly (df_steal d r s) \<and> df_same_running s (df_steal d r s) \<and>
    df_paused (df_at (df_steal d r s) d') = df_paused (df_at s d') \<and>
    df_runningCallbacks (df_at (df_steal d r s) d') = df_runningCallbacks (df_at s d')"
proof -
  have "df_fifo (df_steal d r s)" using assms by (auto simp: df_orderly_def df_fifo_def df_primitives)
  with assms show ?thesis by (auto simp: df_orderly_def df_same_running_def df_primitives)
qed

interpretation df_nesting: df_protocol df_orderly df_same_running
  "\<lambda>d s. \<not> df_runningCallbacks (df_at s d)"
  "\<lambda>d s. \<not> df_runningCallbacks (df_at s d) \<and> df_paused (df_at s d) = 0" False
proof (unfold_locales, goal_cases)
  case (5 s d t)
  then show ?case using df_orderly_upd [of s] by (auto simp: df_same_running_def)
next
  case (6 s u)
  then show ?case by (rule df_orderly_user)
next
  case (7 s c c' d)
  then show ?case by (rule df_orderly_append)
next
  case (12 s d item rest v e t w)
  then show ?case using df_orderly_continue [of s d item rest v e t w] by blast
next
  case (13 s d item rest v)
  then show ?case using df_orderly_enter [of s d item rest v] by blast
next
  case (14 s d item rest v t w)
  then show ?case using df_orderly_leave [of s d t item rest _ w] by blast
next
  case (15 s d r)
  then show ?case using df_orderly_steal [of s d r d] by simp
next
  case (16 s d r)
  then show ?case using df_orderly_wait [of s d r] by blast
qed (simp_all add: df_same_running_def df_orderly_upd [unfolded df_same_running_def])

section \<open>Programs\<close>

lemma df_initial_sel [simp]:
  "df_at (df_initial cs u) d = new_deferred (cs d)" "df_trace (df_initial cs u) = []"
  by (simp_all add: df_initial_def df_at_def)

lemma df_initial_orderly: "df_fifo (df_initial cs u)" "df_orderly (df_initial cs u)"
proof -
  show fifo: "df_fifo (df_initial cs u)"
    by (simp add: df_fifo_def df_added_def df_taken_def new_deferred_def List.map_filter_def)
  show "df_orderly (df_initial cs u)"
    using fifo by (simp add: df_orderly_def df_waiting_def df_open_def new_deferred_def)
qed


section \<open>Properties\<close>

text \<open>
  C5: whatever the callbacks do, including firing, extending, pausing and cancelling
  the Deferreds they run on, when the program ends the pairs taken from a Deferred's callback
  list are the first of those added to it, in the order in which they were added, each taken once; the
  others are still in the list.  A Deferred that has fired stays fired.
\<close>

theorem deferred_callbacks_in_order:
  assumes "\<forall>c v u. \<forall>a \<in> set (fst (snd (beh c v u))). df_public a" and "\<forall>a \<in> set (as @ bs). df_public a"
    and "df_program beh n as (df_initial cs u) = Some s" and "df_program beh n bs s = Some t"
  shows "df_added d t = df_taken d t @ df_callbacks (df_at t d) \<and> prefix (df_taken d s) (df_taken d t) \<and>
    (df_called (df_at s d) \<longrightarrow> df_called (df_at t d))"
proof -
  have beh: "df_order.good_beh beh" and acts: "\<forall>a \<in> set (as @ bs). df_order.allowed a"
    using assms(1,2) by (simp_all add: df_order.good_beh_def df_order.allowed_def)
  have s: "df_fifo s" using df_order.df_program_good [OF beh _ df_initial_orderly(1) assms(3)] acts by simp
  have t: "df_fifo t" "df_later s t" using df_order.df_program_good [OF beh _ s assms(4)] acts by simp_all
  then have "prefix (df_taken d s) (df_taken d t)"
    by (auto simp: df_later_def df_taken_def List.map_filter_def prefix_def)
  with t show ?thesis by (simp add: df_fifo_def df_later_def)
qed

text \<open>A behaviour that re-enters the Deferred it runs on.\<close>

definition df_reenter :: "(bool, nat, unit) df_behaviour" where
  "df_reenter c v u = ((), if c then [DoAddCallbacks 0 (User False) None, DoCancel 1] else [], Return v)"

theorem deferred_callbacks_in_order_witness:
  "\<exists>s t. df_program df_reenter 9 [DoAddCallbacks 0 (User True) None] (df_initial (\<lambda>_. None) ()) = Some s \<and>
    df_program df_reenter 9 [DoCallback 0 (Val 7)] s = Some t \<and> df_added 0 t = df_taken 0 t @ df_callbacks (df_at t 0)"
proof -
  define s where "s = the (df_program df_reenter 9 [DoAddCallbacks 0 (User True) None] (df_initial (\<lambda>_. None) ()))"
  define t where "t = the (df_program df_reenter 9 [DoCallback 0 (Val 7)] s)"
  have "df_program df_reenter 9 [DoAddCallbacks 0 (User True) None] (df_initial (\<lambda>_. None) ()) \<noteq> None"
    "df_program df_reenter 9 [DoCallback 0 (Val 7)]
      (the (df_program df_reenter 9 [DoAddCallbacks 0 (User True) None] (df_initial (\<lambda>_. None) ()))) \<noteq> None"
    by code_simp+
  then have st: "df_program df_reenter 9 [DoAddCallbacks 0 (User True) None] (df_initial (\<lambda>_. None) ()) = Some s"
    "df_program df_reenter 9 [DoCallback 0 (Val 7)] s = Some t"
    by (auto simp: s_def t_def)
  have "\<forall>c v u. \<forall>a \<in> set (fst (snd (df_reenter c v u))). df_public a" by (auto simp: df_reenter_def)
  from deferred_callbacks_in_order [OF this _ st] st show ?thesis by auto
qed

text \<open>
  C6: unless someone uses \<open>pause\<close> and \<open>unpause\<close>, the callbacks of one Deferred never run
  inside each other, however they fire and chain Deferreds: when a program ends, no
  callback has been entered while another one of the same Deferred was running, none is
  still running, and a Deferred's pause counter is 1 exactly while its continuation
  is in a callback list, and otherwise 0.
\<close>

theorem deferred_no_reentry:
  assumes "\<forall>c v u. \<forall>a \<in> set (fst (snd (beh c v u))). df_public a \<and> \<not> df_pauses a"
    and "\<forall>a \<in> set as. df_public a \<and> \<not> df_pauses a"
    and "df_program beh n as (df_initial cs u) = Some t"
  shows "df_open t = Some {} \<and> df_paused (df_at t d) = df_waiting d t \<and> df_waiting d t \<in> {0, 1}"
proof -
  have "df_nesting.good_beh beh" "\<forall>a \<in> set as. df_nesting.allowed a"
    using assms(1,2) by (simp_all add: df_nesting.good_beh_def df_nesting.allowed_def)
  from df_nesting.df_program_good [OF this df_initial_orderly(2) assms(3)]
  have t: "df_orderly t" "\<not> df_runningCallbacks (df_at t d)" for d
    by (simp_all add: df_same_running_def new_deferred_def)
  have "df_fifo t" "df_paused (df_at t d) = df_waiting d t" "df_waiting d t \<le> 1"
    "df_open t = Some {d. df_runningCallbacks (df_at t d)}"
    using t(1) unfolding df_orderly_def by blast+
  with df_fifo_waiting(1) [of t d] t(2) show ?thesis by auto
qed

theorem deferred_no_reentry_witness:
  "\<exists>t. df_program df_reenter 9 [DoAddCallbacks 0 (User True) None, DoCallback 0 (Val 7)] (df_initial (\<lambda>_. None) ()) = Some t \<and>
    df_open t = Some {}"
proof -
  define t where "t = the (df_program df_reenter 9 [DoAddCallbacks 0 (User True) None, DoCallback 0 (Val 7)] (df_initial (\<lambda>_. None) ()))"
  have "df_program df_reenter 9 [DoAddCallbacks 0 (User True) None, DoCallback 0 (Val 7)] (df_initial (\<lambda>_. None) ()) \<noteq> None"
    by code_simp
  then have t: "df_program df_reenter 9 [DoAddCallbacks 0 (User True) None, DoCallback 0 (Val 7)] (df_initial (\<lambda>_. None) ()) = Some t"
    by (auto simp: t_def)
  have "\<forall>c v u. \<forall>a \<in> set (fst (snd (df_reenter c v u))). df_public a \<and> \<not> df_pauses a" by (auto simp: df_reenter_def)
  from deferred_no_reentry [OF this _ t] t show ?thesis by auto
qed

end
