(* ===== verification/DeferredChains.thy ===== *)
theory DeferredChains
  imports DeferredProtocol
begin

text \<open>
  What a Deferred computes when its callbacks call no methods of Deferreds: a fold over
  the pairs of the chain, whenever they were added, and over the chains of the Deferreds
  it waits for, whichever fired first.  Then cancellation, and a stranded callback.
\<close>

section \<open>Chains of plain callables\<close>

definition df_pure :: "('c \<Rightarrow> 'v df_value \<Rightarrow> 'v df_return) \<Rightarrow> ('c, 'v, 'u) df_behaviour" where
  "df_pure f c v u = (u, [], f c v)"

text \<open>The result after one pair of callables.\<close>

fun df_apply :: "('c \<Rightarrow> 'v df_value \<Rightarrow> 'v df_return) \<Rightarrow> 'c df_callable \<Rightarrow> 'v df_value \<Rightarrow> 'v df_value" where
  "df_apply f (User c) v = (case f c v of Return w \<Rightarrow> w | Raise e \<Rightarrow> Failure e)"
| "df_apply f _ v = v"

definition df_turn :: "('c \<Rightarrow> 'v df_value \<Rightarrow> 'v df_return) \<Rightarrow> 'v df_value \<Rightarrow> 'c df_pair \<Rightarrow> 'v df_value" where
  "df_turn f v item = df_apply f (df_pick item v) v"

definition df_plain :: "('c \<Rightarrow> 'v df_value \<Rightarrow> 'v df_return) \<Rightarrow> 'c df_pair \<Rightarrow> bool" where
  "df_plain f item \<longleftrightarrow> (\<forall>fn \<in> {fst item, snd item}.
     fn = Passthru \<or> (\<exists>c. fn = User c \<and> (\<forall>v. \<not> is_deferred v \<longrightarrow> \<not> is_deferred (df_apply f fn v))))"

lemma df_plain_pick:
  assumes "df_plain f item"
  obtains "df_pick item v = Passthru" | c where "df_pick item v = User c"
proof -
  have "df_pick item v \<in> {fst item, snd item}" by (simp add: df_pick_def)
  with assms have "df_pick item v = Passthru \<or> (\<exists>c. df_pick item v = User c)"
    unfolding df_plain_def by blast
  with that show thesis by blast
qed

lemma df_plain_turn: "df_plain f item \<Longrightarrow> \<not> is_deferred v \<Longrightarrow> \<not> is_deferred (df_turn f v item)"
proof -
  assume plain: "df_plain f item" and v: "\<not> is_deferred v"
  have "df_pick item v \<in> {fst item, snd item}" by (simp add: df_pick_def)
  with plain v show ?thesis unfolding df_plain_def df_turn_def by (metis df_apply.simps(2))
qed

lemma df_plain_turns: "\<forall>i \<in> set items. df_plain f i \<Longrightarrow> \<not> is_deferred v \<Longrightarrow> \<not> is_deferred (foldl (df_turn f) v items)"
  by (induction items arbitrary: v) (simp_all add: df_plain_turn)

text \<open>The state after \<open>s\<close> in which only the Deferred \<open>d\<close> has changed, to \<open>x\<close>.\<close>

definition df_becomes :: "('c, 'v, 'u) df_state \<Rightarrow> nat \<Rightarrow> ('c, 'v) deferred \<Rightarrow> ('c, 'v, 'u) df_state \<Rightarrow> bool" where
  "df_becomes s d x t \<longleftrightarrow> df_at t d = x \<and> (\<forall>e. e \<noteq> d \<longrightarrow> df_at t e = df_at s e)"

lemma df_call_plain:
  assumes "df_plain f item" "\<not> is_deferred v"
  shows "df_call (df_pure f) run n (df_pick item v) v s =
    Some (s, case df_pick item v of User c \<Rightarrow> f c v | _ \<Rightarrow> Return v)"
  using assms(1) by (cases rule: df_plain_pick [of f item v]) (simp_all add: df_call_def df_call_user_def df_pure_def)

lemma df_inner_plain:
  assumes "\<forall>i \<in> set items. df_plain f i" "df_callbacks (df_at s d) = items @ rest"
    "df_result (df_at s d) = Some v" "\<not> is_deferred v" "\<not> df_runningCallbacks (df_at s d)"
  shows "\<exists>t. df_inner (df_pure f) run (length items + n) d s = df_inner (df_pure f) run n d t \<and>
    df_becomes s d ((df_at s d)\<lparr>df_callbacks := rest, df_result := Some (foldl (df_turn f) v items)\<rparr>) t"
  using assms
proof (induction items arbitrary: s v)
  case Nil
  then show ?case by (intro exI [of _ s]) (simp add: df_becomes_def)
next
  case (Cons item items)
  let ?w = "df_turn f v item"
  define u where "u = df_set_result d ?w (df_leave d (df_enter d item (items @ rest) s))"
  have plain: "df_plain f item" using Cons.prems by simp
  have w: "\<not> is_deferred ?w" using plain Cons.prems(4) by (rule df_plain_turn)
  have v: "df_value (df_at s d) = v" using Cons.prems by (simp add: df_value_def)
  have call: "df_call (df_pure f) run m (df_pick item v) v t =
      Some (t, case df_pick item v of User c \<Rightarrow> f c v | _ \<Rightarrow> Return v)" for m t
    by (rule df_call_plain [OF plain Cons.prems(4)])
  have "df_inner (df_pure f) run (length (item # items) + n) d s = df_inner (df_pure f) run (length items + n) d u"
    using plain
  proof (cases rule: df_plain_pick [of f item v])
    case 1
    with Cons.prems(2,4) v call show ?thesis
      by (cases v) (simp_all add: Let_def u_def df_turn_def df_enter_def df_leave_def)
  next
    case (2 c)
    show ?thesis
    proof (cases "f c v")
      case (Return x)
      with 2 w have "\<not> is_deferred x" by (simp add: df_turn_def)
      with Cons.prems(2) v call 2 Return show ?thesis
        by (cases x) (simp_all add: Let_def u_def df_turn_def df_enter_def df_leave_def)
    next
      case (Raise e)
      with Cons.prems(2) v call 2 show ?thesis
        by (simp add: Let_def u_def df_turn_def df_enter_def df_leave_def)
    qed
  qed
  moreover have u: "df_becomes s d ((df_at s d)\<lparr>df_callbacks := items @ rest, df_result := Some ?w, df_runningCallbacks := False\<rparr>) u"
    by (simp add: df_becomes_def u_def df_primitives)
  moreover obtain t where "df_inner (df_pure f) run (length items + n) d u = df_inner (df_pure f) run n d t"
    "df_becomes u d ((df_at u d)\<lparr>df_callbacks := rest, df_result := Some (foldl (df_turn f) ?w items)\<rparr>) t"
    using Cons.IH [of u ?w] Cons.prems(1) u w by (auto simp: df_becomes_def)
  ultimately show ?case using Cons.prems(5) by (auto simp: df_becomes_def intro!: exI [of _ t])
qed

section \<open>Programs over one Deferred\<close>

definition df_add :: "nat \<Rightarrow> 'c df_pair \<Rightarrow> ('c, 'v) df_action" where
  "df_add d item = DoAddCallbacks d (fst item) (Some (snd item))"

lemma df_program_append:
  "df_program beh n (as @ bs) s = (case df_program beh n as s of None \<Rightarrow> None | Some t \<Rightarrow> df_program beh n bs t)"
  by (induction "as" arbitrary: s) (simp_all split: option.split)

definition df_resting :: "('c, 'v) deferred \<Rightarrow> bool" where
  "df_resting x \<longleftrightarrow> \<not> df_runningCallbacks x \<and> df_paused x = 0 \<and> df_chainedTo x = None"

lemma df_unchained:
  "df_chainedTo x = None \<Longrightarrow> x\<lparr>df_callbacks := c, df_result := r, df_chainedTo := None\<rparr> = x\<lparr>df_callbacks := c, df_result := r\<rparr>"
  by (cases x) simp

text \<open>The inner loop from its start to its end.\<close>

lemma df_inner_all:
  assumes "\<forall>i \<in> set items. df_plain f i" "df_callbacks (df_at s d) = items"
    "df_result (df_at s d) = Some v" "\<not> is_deferred v" "\<not> df_runningCallbacks (df_at s d)" "length items < m"
  shows "\<exists>t. df_inner (df_pure f) run m d (df_upd d (\<lambda>x. x\<lparr>df_chainedTo := None\<rparr>) s) = Some (t, None) \<and>
    df_becomes s d ((df_at s d)\<lparr>df_callbacks := [], df_result := Some (foldl (df_turn f) v items),
      df_chainedTo := None\<rparr>) t"
proof -
  let ?s = "df_upd d (\<lambda>x. x\<lparr>df_chainedTo := None\<rparr>) s"
  obtain k where m: "m = length items + Suc k" using assms(6) less_imp_Suc_add by fastforce
  have "\<exists>t. df_inner (df_pure f) run (length items + Suc k) d ?s = df_inner (df_pure f) run (Suc k) d t \<and>
    df_becomes ?s d ((df_at ?s d)\<lparr>df_callbacks := [], df_result := Some (foldl (df_turn f) v items)\<rparr>) t"
    using assms(1-5) by (intro df_inner_plain) simp_all
  with m show ?thesis by (auto simp: df_becomes_def)
qed

lemma df_run_plain:
  assumes "\<forall>i \<in> set items. df_plain f i" "df_callbacks (df_at s d) = items"
    "df_result (df_at s d) = Some v" "\<not> is_deferred v" "df_resting (df_at s d)" "length items + 3 \<le> n"
  shows "\<exists>t. df_run (df_pure f) n d s = Some t \<and>
    df_becomes s d ((df_at s d)\<lparr>df_callbacks := [], df_result := Some (foldl (df_turn f) v items)\<rparr>) t"
proof -
  obtain m where n: "n = Suc (Suc (Suc m))" using assms(6) by (cases n; simp) (metis Suc_le_D Suc_le_eq add_Suc_right le_Suc_eq not0_implies_Suc numeral_3_eq_3)
  have "length items < Suc m" using assms(6) n by simp
  from df_inner_all [OF assms(1-4) _ this, of "df_run (df_pure f) (Suc (Suc m))"] show ?thesis
    using assms(5) by (auto simp: n df_resting_def df_unchained simp del: df_inner.simps)
qed

lemma df_step_callback:
  assumes "\<not> df_called (df_at s d)" "\<forall>i \<in> set (df_callbacks (df_at s d)). df_plain f i" "\<not> is_deferred v"
    "df_resting (df_at s d)" "length (df_callbacks (df_at s d)) + 3 \<le> n"
  shows "\<exists>t. df_step (df_pure f) n (DoCallback d v) s = Some (Ok t) \<and>
    df_becomes s d ((df_at s d)\<lparr>df_called := True, df_callbacks := [],
      df_result := Some (foldl (df_turn f) v (df_callbacks (df_at s d)))\<rparr>) t"
proof -
  let ?s = "df_upd d (\<lambda>x. x\<lparr>df_called := True, df_result := Some v\<rparr>) s"
  have "\<exists>t. df_run (df_pure f) n d ?s = Some t \<and> df_becomes ?s d
      ((df_at ?s d)\<lparr>df_callbacks := [], df_result := Some (foldl (df_turn f) v (df_callbacks (df_at s d)))\<rparr>) t"
    using assms by (intro df_run_plain) (simp_all add: df_resting_def)
  with assms(1,3) show ?thesis
    by (auto simp: df_step_def df_callback_def df_startRunCallbacks_def df_becomes_def)
qed

lemma df_step_add:
  assumes "\<not> df_called (df_at s d)"
  shows "\<exists>t. df_step beh n (df_add d item) s = Some (Ok t) \<and>
    df_becomes s d ((df_at s d)\<lparr>df_callbacks := df_callbacks (df_at s d) @ [item]\<rparr>) t"
  using assms
  by (cases n) (simp_all add: df_step_def df_add_def df_addCallbacks_def df_append_def df_becomes_def Let_def)

lemma df_step_add_called:
  assumes "df_called (df_at s d)" "df_plain f item" "df_callbacks (df_at s d) = []"
    "df_result (df_at s d) = Some v" "\<not> is_deferred v" "df_resting (df_at s d)" "4 \<le> n"
  shows "\<exists>t. df_step (df_pure f) n (df_add d item) s = Some (Ok t) \<and>
    df_becomes s d ((df_at s d)\<lparr>df_result := Some (df_turn f v item)\<rparr>) t"
proof -
  let ?s = "df_append d item s"
  have at: "df_at ?s d = (df_at s d)\<lparr>df_callbacks := [item]\<rparr>" using assms(3) by (simp add: df_append_def)
  have "\<exists>t. df_run (df_pure f) n d ?s = Some t \<and> df_becomes ?s d
      ((df_at ?s d)\<lparr>df_callbacks := [], df_result := Some (foldl (df_turn f) v [item])\<rparr>) t"
    using assms by (intro df_run_plain) (simp_all add: at df_resting_def)
  moreover have "(df_at s d)\<lparr>df_callbacks := [], df_result := r\<rparr> = (df_at s d)\<lparr>df_result := r\<rparr>" for r
    using assms(3) by simp
  moreover obtain k where "n = Suc k" using assms(7) by (cases n) auto
  ultimately show ?thesis using assms(1) at
    by (auto simp: df_step_def df_add_def df_addCallbacks_def Let_def df_becomes_def df_append_def)
qed

lemma df_program_add:
  "\<not> df_called (df_at s d) \<Longrightarrow> \<exists>t. df_program beh n (map (df_add d) items) s = Some t \<and>
    df_becomes s d ((df_at s d)\<lparr>df_callbacks := df_callbacks (df_at s d) @ items\<rparr>) t"
proof (induction items arbitrary: s)
  case Nil
  show ?case by (simp add: df_becomes_def)
next
  case (Cons item items)
  obtain u where u: "df_step beh n (df_add d item) s = Some (Ok u)"
    "df_becomes s d ((df_at s d)\<lparr>df_callbacks := df_callbacks (df_at s d) @ [item]\<rparr>) u"
    using df_step_add [OF Cons.prems] by blast
  then have "\<not> df_called (df_at u d)" using Cons.prems by (simp add: df_becomes_def)
  from Cons.IH [OF this] u show ?case by (auto simp: df_becomes_def)
qed

lemma df_program_add_called:
  assumes "df_called (df_at s d)" "\<forall>i \<in> set items. df_plain f i" "df_callbacks (df_at s d) = []"
    "df_result (df_at s d) = Some v" "\<not> is_deferred v" "df_resting (df_at s d)" "4 \<le> n"
  shows "\<exists>t. df_program (df_pure f) n (map (df_add d) items) s = Some t \<and>
    df_becomes s d ((df_at s d)\<lparr>df_result := Some (foldl (df_turn f) v items)\<rparr>) t"
  using assms(1-6)
proof (induction items arbitrary: s v)
  case Nil
  then show ?case by (simp add: df_becomes_def)
next
  case (Cons item items)
  obtain u where u: "df_step (df_pure f) n (df_add d item) s = Some (Ok u)"
    "df_becomes s d ((df_at s d)\<lparr>df_result := Some (df_turn f v item)\<rparr>) u"
    using df_step_add_called [OF Cons.prems(1) _ Cons.prems(3-6) assms(7), of f item] Cons.prems(2) by fastforce
  have "\<not> is_deferred (df_turn f v item)" using Cons.prems by (simp add: df_plain_turn)
  with Cons.IH [of u "df_turn f v item"] Cons.prems u show ?case
    by (auto simp: df_becomes_def df_resting_def)
qed

section \<open>A Deferred that waits for another\<close>

lemma df_becomes_all: "df_becomes s d x t \<Longrightarrow> df_at t = (df_at s)(d := x)"
  by (auto simp: df_becomes_def)

text \<open>What the pair that returns the Deferred \<open>e\<close> does.\<close>

definition df_link :: "('c \<Rightarrow> 'v df_value \<Rightarrow> 'v df_return) \<Rightarrow> 'v df_value \<Rightarrow> 'c df_pair \<Rightarrow> nat \<Rightarrow> bool" where
  "df_link f v item e \<longleftrightarrow> (\<exists>c. df_pick item v = User c \<and> f c v = Return (Ref e))"

lemma df_inner_link:
  assumes "df_link f v item e" "e \<noteq> d" "df_callbacks (df_at s d) = item # rest" "df_result (df_at s d) = Some v"
    "\<not> df_runningCallbacks (df_at s d)"
  shows "\<exists>t. df_becomes s d ((df_at s d)\<lparr>df_callbacks := rest, df_result := Some (Ref e)\<rparr>) t \<and>
    df_inner (df_pure f) run (Suc n) d s =
      (if df_has_no_result (df_at s e) then Some (df_wait d e t, None)
       else df_inner (df_pure f) run n d (df_steal d e t))"
proof -
  obtain c where c: "df_pick item v = User c" "f c v = Return (Ref e)" using assms(1) by (auto simp: df_link_def)
  let ?t = "df_set_result d (Ref e) (df_leave d (df_enter d item rest s))"
  have v: "df_value (df_at s d) = v" using assms(4) by (simp add: df_value_def)
  have "df_at ?t e = df_at s e" using assms(2) by (simp add: df_primitives)
  then have "df_inner (df_pure f) run (Suc n) d s =
      (if df_has_no_result (df_at s e) then Some (df_wait d e ?t, None)
       else df_inner (df_pure f) run n d (df_steal d e ?t))"
    using c v assms(3)
    by (simp add: Let_def df_call_def df_call_user_def df_pure_def df_enter_def df_leave_def)
  moreover have "df_becomes s d ((df_at s d)\<lparr>df_callbacks := rest, df_result := Some (Ref e)\<rparr>) ?t"
    using assms(5) by (simp add: df_becomes_def df_primitives)
  ultimately show ?thesis by blast
qed

text \<open>Firing a Deferred whose first pair returns another one that has not fired: it waits.\<close>

lemma df_fire_waits:
  assumes "df_link f v item e" "e \<noteq> d" "df_callbacks (df_at s d) = item # rest" "\<not> df_called (df_at s d)"
    "df_resting (df_at s d)" "df_result (df_at s e) = None" "\<not> is_deferred v" "4 \<le> n"
  shows "\<exists>t. df_step (df_pure f) n (DoCallback d v) s = Some (Ok t) \<and>
    df_at t d = (df_at s d)\<lparr>df_called := True, df_callbacks := rest, df_result := Some (Ref e),
      df_paused := 1, df_chainedTo := Some e\<rparr> \<and>
    df_at t e = (df_at s e)\<lparr>df_callbacks := df_callbacks (df_at s e) @ [(CONTINUE d, CONTINUE d)]\<rparr>"
proof -
  obtain m where "n = 4 + m" using le_Suc_ex [OF assms(8)] by blast
  then have n: "n = Suc (Suc (Suc (Suc m)))" by simp
  let ?s = "df_upd d (\<lambda>x. x\<lparr>df_chainedTo := None\<rparr>) (df_upd d (\<lambda>x. x\<lparr>df_called := True, df_result := Some v\<rparr>) s)"
  obtain t where t: "df_becomes ?s d ((df_at ?s d)\<lparr>df_callbacks := rest, df_result := Some (Ref e)\<rparr>) t"
    "df_inner (df_pure f) (df_run (df_pure f) (Suc (Suc (Suc m)))) (Suc (Suc m)) d ?s = Some (df_wait d e t, None)"
    using df_inner_link [OF assms(1,2), of ?s rest "df_run (df_pure f) (Suc (Suc (Suc m)))" "Suc m"] assms
    by (auto simp: df_has_no_result_def df_resting_def)
  have "df_step (df_pure f) n (DoCallback d v) s = Some (Ok (df_wait d e t))"
    using assms(4,5,7) t(2)
    by (simp add: n df_step_def df_callback_def df_startRunCallbacks_def df_resting_def)
  moreover have "df_at (df_wait d e t) d = (df_at s d)\<lparr>df_called := True, df_callbacks := rest, df_result := Some (Ref e),
      df_paused := 1, df_chainedTo := Some e\<rparr>"
    using t(1) assms(2,5) by (simp add: df_primitives df_becomes_def df_resting_def)
  moreover have "df_at (df_wait d e t) e = (df_at s e)\<lparr>df_callbacks := df_callbacks (df_at s e) @ [(CONTINUE d, CONTINUE d)]\<rparr>"
    using t(1) assms(2) by (simp add: df_primitives df_becomes_def)
  ultimately show ?thesis by blast
qed

text \<open>Firing a Deferred for which another one waits, after its own callbacks.\<close>

lemma df_fire_continues:
  fixes s :: "('c, 'v, 'u) df_state" and f :: "'c \<Rightarrow> 'v df_value \<Rightarrow> 'v df_return"
  assumes "e \<noteq> d" "\<not> df_called (df_at s e)" "df_resting (df_at s e)"
    "df_callbacks (df_at s e) = zs @ [(CONTINUE d, CONTINUE d)]" "\<forall>i \<in> set zs. df_plain f i" "\<not> is_deferred w"
    "df_paused (df_at s d) = 1" "\<not> df_runningCallbacks (df_at s d)" "\<forall>i \<in> set (df_callbacks (df_at s d)). df_plain f i"
    "length zs + length (df_callbacks (df_at s d)) + 6 \<le> n"
  shows "\<exists>t. df_step (df_pure f) n (DoCallback e w) s = Some (Ok t) \<and>
    df_at t d = (df_at s d)\<lparr>df_callbacks := [], df_paused := 0, df_chainedTo := None,
      df_result := Some (foldl (df_turn f) (foldl (df_turn f) w zs) (df_callbacks (df_at s d)))\<rparr> \<and>
    df_at t e = (df_at s e)\<lparr>df_called := True, df_callbacks := [], df_result := Some PyNone\<rparr>"
proof -
  let ?w = "foldl (df_turn f) w zs" and ?ys = "df_callbacks (df_at s d)"
  obtain k where k: "n = length zs + length ?ys + 6 + k" using le_Suc_ex [OF assms(10)] by blast
  define L where "L = length ?ys + 3 + k"
  have n: "n = Suc (Suc (length zs + Suc L))" by (simp add: k L_def)
  have L: "length ?ys < length zs + L" by (simp add: L_def)
  have j: "length zs + L = Suc (Suc (Suc (length zs + length ?ys + k)))" by (simp add: L_def)
  define run :: "('c, 'v, 'u) df_runner" where "run = df_run (df_pure f) (Suc (length zs + Suc (L)))"
  let ?s = "df_upd e (\<lambda>x. x\<lparr>df_chainedTo := None\<rparr>) (df_upd e (\<lambda>x. x\<lparr>df_called := True, df_result := Some w\<rparr>) s)"
  have x: "df_at ?s e = (df_at s e)\<lparr>df_called := True, df_result := Some w\<rparr>" using assms(3) by (simp add: df_resting_def)
  have xd: "df_at ?s d = df_at s d" using assms(1) by simp
  obtain t where t: "df_inner (df_pure f) run (length zs + Suc (L)) e ?s =
      df_inner (df_pure f) run (Suc (L)) e t"
    "df_becomes ?s e ((df_at ?s e)\<lparr>df_callbacks := [(CONTINUE d, CONTINUE d)], df_result := Some ?w\<rparr>) t"
    using df_inner_plain [OF assms(5), of ?s e "[(CONTINUE d, CONTINUE d)]" w run "Suc L"]
      assms(3,4,6) x by (auto simp: df_resting_def)
  let ?u = "df_hand_over e d ?w (df_log (Taken e (CONTINUE d, CONTINUE d)) (df_upd e (\<lambda>x. x\<lparr>df_callbacks := []\<rparr>) t))"
  have te: "df_at t e = (df_at s e)\<lparr>df_called := True, df_callbacks := [(CONTINUE d, CONTINUE d)], df_result := Some ?w\<rparr>"
    and td: "df_at t d = df_at s d"
    using assms(1) by (simp_all only: df_becomes_all [OF t(2)] x xd fun_upd_same fun_upd_other) simp
  have v: "df_value (df_at t e) = ?w" by (simp add: te df_value_def)
  have inner: "df_inner (df_pure f) run (Suc (L)) e t = Some (?u, Some d)"
    by (simp add: te df_value_def df_pick_def Let_def)
  have ue: "df_at ?u e = (df_at s e)\<lparr>df_called := True, df_callbacks := [], df_result := Some PyNone\<rparr>"
    and ud: "df_at ?u d = (df_at s d)\<lparr>df_paused := 0, df_result := Some ?w\<rparr>"
    using assms(1,7) te td by (simp_all add: df_hand_over_def df_set_result_def)
  have plainw: "\<not> is_deferred ?w" by (rule df_plain_turns [OF assms(5,6)])
  have "\<exists>r. df_inner (df_pure f) run (length zs + L) d
      (df_upd d (\<lambda>x. x\<lparr>df_chainedTo := None\<rparr>) ?u) = Some (r, None) \<and>
    df_becomes ?u d ((df_at ?u d)\<lparr>df_callbacks := [], df_result := Some (foldl (df_turn f) ?w ?ys), df_chainedTo := None\<rparr>) r"
    using assms(8,9) by (intro df_inner_all plainw L) (simp_all add: ud L)
  then obtain r where r: "df_inner (df_pure f) run (length zs + L) d
      (df_upd d (\<lambda>x. x\<lparr>df_chainedTo := None\<rparr>) ?u) = Some (r, None)"
    "df_becomes ?u d ((df_at ?u d)\<lparr>df_callbacks := [], df_result := Some (foldl (df_turn f) ?w ?ys), df_chainedTo := None\<rparr>) r"
    by blast
  let ?r = "df_upd e (\<lambda>x. x\<lparr>df_chainedTo := None\<rparr>) r"
  have re: "df_at r e = (df_at s e)\<lparr>df_called := True, df_callbacks := [], df_result := Some PyNone\<rparr>"
    by (simp only: df_becomes_all [OF r(2)] ue fun_upd_other [OF assms(1)])
  have last: "df_chain (df_pure f) run (length zs + L) [e] r = Some ?r"
    using re assms(3) by (simp add: j df_resting_def)
  let ?t0 = "df_upd e (\<lambda>x. x\<lparr>df_called := True, df_result := Some w\<rparr>) s"
  have chain: "df_chain (df_pure f) run (Suc (length zs + Suc (L))) [e] ?t0 = Some ?r"
    using t(1) inner r(1) last assms(3) ud by (simp add: df_resting_def)
  have "df_step (df_pure f) n (DoCallback e w) s = Some (Ok ?r)"
    using chain assms(2,3,6)
    by (simp add: n df_step_def df_callback_def df_startRunCallbacks_def df_resting_def run_def)
  moreover have "df_at ?r e = (df_at s e)\<lparr>df_called := True, df_callbacks := [], df_result := Some PyNone\<rparr>"
    using re assms(3) by (simp add: df_resting_def)
  moreover have "df_at ?r d = (df_at s d)\<lparr>df_callbacks := [], df_paused := 0, df_chainedTo := None,
      df_result := Some (foldl (df_turn f) ?w ?ys)\<rparr>"
    using r(2) ud assms(1) by (simp add: df_becomes_def)
  ultimately show ?thesis by blast
qed

text \<open>Firing a Deferred whose first pair returns another one that has fired: it takes the result.\<close>

lemma df_fire_steals:
  fixes s :: "('c, 'v, 'u) df_state" and f :: "'c \<Rightarrow> 'v df_value \<Rightarrow> 'v df_return"
  assumes "df_link f v item e" "e \<noteq> d" "df_callbacks (df_at s d) = item # ys" "\<forall>i \<in> set ys. df_plain f i"
    "\<not> df_called (df_at s d)" "df_resting (df_at s d)" "df_result (df_at s e) = Some w" "\<not> is_deferred w"
    "df_paused (df_at s e) = 0" "\<not> is_deferred v" "length ys + 4 \<le> n"
  shows "\<exists>t. df_step (df_pure f) n (DoCallback d v) s = Some (Ok t) \<and>
    df_at t d = (df_at s d)\<lparr>df_called := True, df_callbacks := [], df_result := Some (foldl (df_turn f) w ys)\<rparr> \<and>
    df_at t e = (df_at s e)\<lparr>df_result := Some PyNone\<rparr>"
proof -
  obtain k where k: "n = length ys + 4 + k" using le_Suc_ex [OF assms(11)] by blast
  define L where "L = length ys + Suc k"
  have n: "n = Suc (Suc (Suc L))" by (simp add: k L_def)
  define run :: "('c, 'v, 'u) df_runner" where "run = df_run (df_pure f) (Suc (Suc L))"
  let ?s = "df_upd d (\<lambda>x. x\<lparr>df_chainedTo := None\<rparr>) (df_upd d (\<lambda>x. x\<lparr>df_called := True, df_result := Some v\<rparr>) s)"
  obtain t where t: "df_becomes ?s d ((df_at ?s d)\<lparr>df_callbacks := ys, df_result := Some (Ref e)\<rparr>) t"
    "df_inner (df_pure f) run (Suc L) d ?s =
      (if df_has_no_result (df_at ?s e) then Some (df_wait d e t, None) else df_inner (df_pure f) run L d (df_steal d e t))"
    using df_inner_link [OF assms(1,2), of ?s ys run L] assms(3,6) by (auto simp: df_resting_def)
  let ?t = "df_steal d e t"
  have td: "df_at ?t d = (df_at s d)\<lparr>df_called := True, df_callbacks := ys, df_result := Some w\<rparr>"
    and te: "df_at ?t e = (df_at s e)\<lparr>df_result := Some PyNone\<rparr>"
    using assms(2,6,7) by (simp_all add: df_steal_def df_set_result_def df_becomes_all [OF t(1)] df_value_def df_resting_def)
  obtain u where u: "df_inner (df_pure f) run L d ?t = df_inner (df_pure f) run (Suc k) d u"
    "df_becomes ?t d ((df_at ?t d)\<lparr>df_callbacks := [], df_result := Some (foldl (df_turn f) w ys)\<rparr>) u"
    unfolding L_def using df_inner_plain [OF assms(4), of ?t d "[]" w run "Suc k"] td assms(6,8)
    by (auto simp: df_resting_def simp del: df_inner.simps)
  have "\<not> df_has_no_result (df_at ?s e)" using assms(2,7,8,9) by (simp add: df_has_no_result_def)
  moreover have "df_inner (df_pure f) run (Suc k) d u = Some (u, None)" using u(2) td by (simp add: df_becomes_def)
  ultimately have "df_inner (df_pure f) run (Suc L) d ?s = Some (u, None)" using t(2) u(1) by simp
  then have "df_step (df_pure f) n (DoCallback d v) s = Some (Ok u)"
    using assms(5,6,10)
    by (simp add: n df_step_def df_callback_def df_startRunCallbacks_def df_resting_def run_def L_def del: df_inner.simps)
  moreover have "df_at u d = (df_at s d)\<lparr>df_called := True, df_callbacks := [], df_result := Some (foldl (df_turn f) w ys)\<rparr>"
    "df_at u e = (df_at s e)\<lparr>df_result := Some PyNone\<rparr>"
    using assms(2) by (simp_all add: df_becomes_all [OF u(2)] td te)
  ultimately show ?thesis by blast
qed

section \<open>Properties\<close>

text \<open>
  C7: it does not matter when a Deferred fires.  Whether its callbacks are
  added before or after, firing it makes it the fold of all of them over the value, each
  pair choosing the errback when the result so far is a \<open>Failure\<close>, and nothing is left
  to run.
\<close>

theorem deferred_add_order:
  assumes "\<forall>i \<in> set (xs @ ys). df_plain f i" and "\<not> is_deferred v" and "length xs + 4 \<le> n"
  shows "\<exists>t. df_program (df_pure f) n (map (df_add d) xs @ DoCallback d v # map (df_add d) ys) (df_initial cs u) = Some t \<and>
    df_result (df_at t d) = Some (foldl (df_turn f) v (xs @ ys)) \<and> df_callbacks (df_at t d) = []"
proof -
  let ?w = "foldl (df_turn f) v xs"
  obtain s where s: "df_program (df_pure f) n (map (df_add d) xs) (df_initial cs u) = Some s"
    "df_at s d = (new_deferred (cs d))\<lparr>df_callbacks := xs\<rparr>"
    using df_program_add [of "df_initial cs u" d "df_pure f" n xs]
    by (auto simp: new_deferred_def df_becomes_def)
  then have rest: "\<not> df_called (df_at s d)" "df_resting (df_at s d)" "df_callbacks (df_at s d) = xs"
    by (simp_all add: new_deferred_def df_resting_def)
  obtain t where t: "df_step (df_pure f) n (DoCallback d v) s = Some (Ok t)"
    "df_becomes s d ((df_at s d)\<lparr>df_called := True, df_callbacks := [], df_result := Some ?w\<rparr>) t"
    using df_step_callback [OF rest(1) _ assms(2) rest(2), of f n] rest(3) assms by auto
  have w: "\<not> is_deferred ?w" using assms by (intro df_plain_turns) auto
  have "\<exists>r. df_program (df_pure f) n (map (df_add d) ys) t = Some r \<and>
      df_becomes t d ((df_at t d)\<lparr>df_result := Some (foldl (df_turn f) ?w ys)\<rparr>) r"
    using t(2) rest(2) assms w
    by (intro df_program_add_called) (auto simp: df_becomes_def df_resting_def)
  with s(1) t show ?thesis by (auto simp: df_program_append df_becomes_def)
qed

theorem deferred_add_order_witness:
  "\<exists>t. df_program (df_pure (\<lambda>c v. if c then Raise CancelledError else Return PyNone)) 6
      (map (df_add 0) [(User True, Passthru)] @ DoCallback 0 (Val (1::nat)) # map (df_add 0) [(Passthru, User False)])
      (df_initial (\<lambda>_. None) ()) = Some t \<and>
    df_result (df_at t 0) = Some (foldl (df_turn (\<lambda>c v. if c then Raise CancelledError else Return PyNone)) (Val (1::nat))
      ([(User True, Passthru)] @ [(Passthru, User False)])) \<and> df_callbacks (df_at t 0) = []"
  by (rule deferred_add_order) (auto simp: df_plain_def)

text \<open>
  C8: a Deferred \<open>d\<close> whose first callback returns another Deferred \<open>e\<close> ends with the
  rest of its chain run on what \<open>e\<close>'s own chain makes of \<open>e\<close>'s value, whichever of the
  two fires first; \<open>e\<close> is left with \<open>None\<close>, and neither has anything left to run.
\<close>

theorem deferred_chain_any_order:
  assumes "d \<noteq> e" and "df_link f v item e"
    and "\<forall>i \<in> set (ys @ zs). df_plain f i" and "\<not> is_deferred v" and "\<not> is_deferred w"
    and "p \<in> {[DoCallback d v, DoCallback e w], [DoCallback e w, DoCallback d v]}"
    and "length ys + length zs + 6 \<le> n"
  shows "\<exists>t. df_program (df_pure f) n (map (df_add e) zs @ map (df_add d) (item # ys) @ p) (df_initial cs u) = Some t \<and>
    df_result (df_at t d) = Some (foldl (df_turn f) (foldl (df_turn f) w zs) ys) \<and>
    df_result (df_at t e) = Some PyNone \<and>
    df_callbacks (df_at t d) = [] \<and> df_callbacks (df_at t e) = [] \<and> df_paused (df_at t d) = 0"
proof -
  obtain r where r: "df_program (df_pure f) n (map (df_add e) zs) (df_initial cs u) = Some r"
    "df_at r = (df_at (df_initial cs u))(e := (new_deferred (cs e))\<lparr>df_callbacks := zs\<rparr>)"
    using df_program_add [of "df_initial cs u" e "df_pure f" n zs]
    by (auto simp: new_deferred_def dest: df_becomes_all)
  have rd: "df_at r d = new_deferred (cs d)" using assms(1) by (simp add: r(2))
  obtain s where s: "df_program (df_pure f) n (map (df_add d) (item # ys)) r = Some s"
    "df_at s = (df_at r)(d := (new_deferred (cs d))\<lparr>df_callbacks := item # ys\<rparr>)"
    using df_program_add [of r d "df_pure f" n "item # ys"] rd
    by (auto simp: new_deferred_def dest!: df_becomes_all)
  have sd: "df_at s d = (new_deferred (cs d))\<lparr>df_callbacks := item # ys\<rparr>"
    and se: "df_at s e = (new_deferred (cs e))\<lparr>df_callbacks := zs\<rparr>"
    using assms(1) by (simp_all add: s(2) r(2))
  note x = sd se new_deferred_def df_resting_def
  have start: "df_program (df_pure f) n (map (df_add e) zs @ map (df_add d) (item # ys) @ q) (df_initial cs u)
      = df_program (df_pure f) n q s" for q
    using r(1) s(1) by (simp add: df_program_append del: list.map)
  have w: "\<not> is_deferred (foldl (df_turn f) w zs)" using assms(3,5) by (intro df_plain_turns) auto
  consider "p = [DoCallback d v, DoCallback e w]" | "p = [DoCallback e w, DoCallback d v]" using assms(6) by auto
  then show ?thesis
  proof cases
    case 1
    obtain t where t: "df_step (df_pure f) n (DoCallback d v) s = Some (Ok t)"
      "df_at t d = (df_at s d)\<lparr>df_called := True, df_callbacks := ys, df_result := Some (Ref e), df_paused := 1, df_chainedTo := Some e\<rparr>"
      "df_at t e = (df_at s e)\<lparr>df_callbacks := zs @ [(CONTINUE d, CONTINUE d)]\<rparr>"
      using df_fire_waits [OF assms(2) assms(1) [symmetric], of s ys n] assms(4,7) by (auto simp: x)
    obtain y where "df_step (df_pure f) n (DoCallback e w) t = Some (Ok y)"
      "df_at y d = (df_at t d)\<lparr>df_callbacks := [], df_paused := 0, df_chainedTo := None,
        df_result := Some (foldl (df_turn f) (foldl (df_turn f) w zs) ys)\<rparr>"
      "df_at y e = (df_at t e)\<lparr>df_called := True, df_callbacks := [], df_result := Some PyNone\<rparr>"
      using df_fire_continues [OF assms(1) [symmetric], of t zs f w n] t(2,3) assms(3,5,7) by (auto simp: x)
    with 1 start t(1) show ?thesis by simp
  next
    case 2
    obtain t where t: "df_step (df_pure f) n (DoCallback e w) s = Some (Ok t)"
      "df_at t = (df_at s)(e := (df_at s e)\<lparr>df_called := True, df_callbacks := [],
        df_result := Some (foldl (df_turn f) w zs)\<rparr>)"
      using df_step_callback [of s e f w n] assms(3,5,7) by (auto simp: x dest: df_becomes_all)
    obtain y where "df_step (df_pure f) n (DoCallback d v) t = Some (Ok y)"
      "df_at y d = (df_at t d)\<lparr>df_called := True, df_callbacks := [],
        df_result := Some (foldl (df_turn f) (foldl (df_turn f) w zs) ys)\<rparr>"
      "df_at y e = (df_at t e)\<lparr>df_result := Some PyNone\<rparr>"
      using df_fire_steals [OF assms(2) assms(1) [symmetric], of t ys "foldl (df_turn f) w zs" n] assms(1,3,4,7) w
      by (auto simp: t(2) x)
    with 2 start t assms(1) show ?thesis by (simp add: x)
  qed
qed

theorem deferred_chain_any_order_witness:
  "\<exists>t. df_program (df_pure (\<lambda>c v. if c then Return (Ref 1) else Return v)) 7
      (map (df_add 1) [(User False, Passthru)] @ map (df_add 0) ((User True, Passthru) # []) @
        [DoCallback 0 (Val (3::nat)), DoCallback 1 (Val 4)]) (df_initial (\<lambda>_. None) ()) = Some t \<and>
    df_result (df_at t 0) = Some (foldl (df_turn (\<lambda>c v. if c then Return (Ref 1) else Return v))
      (foldl (df_turn (\<lambda>c v. if c then Return (Ref 1) else Return v)) (Val 4) [(User False, Passthru)]) []) \<and>
    df_result (df_at t 1) = Some PyNone \<and>
    df_callbacks (df_at t 0) = [] \<and> df_callbacks (df_at t 1) = [] \<and> df_paused (df_at t 0) = 0"
  by (rule deferred_chain_any_order [where v = "Val 3" and w = "Val 4"])
    (auto simp: df_plain_def df_link_def df_pick_def)

text \<open>
  Cancelling a Deferred that has no canceller runs its chain on a
  \<open>CancelledError\<close>; the one call that its owner may still make is swallowed and changes
  no result; the next one raises \<open>AlreadyCalledError\<close> and changes nothing.
\<close>

theorem deferred_cancel_once:
  assumes "\<forall>i \<in> set xs. df_plain f i" and "cs d = None" and "\<not> is_deferred v" "\<not> is_deferred w"
    and "length xs + 3 \<le> n"
  shows "\<exists>s t. df_program (df_pure f) n (map (df_add d) xs @ [DoCancel d]) (df_initial cs u) = Some s \<and>
    df_result (df_at s d) = Some (foldl (df_turn f) (Failure CancelledError) xs) \<and>
    df_step (df_pure f) n (DoCallback d v) s = Some (Ok t) \<and> df_result (df_at t d) = df_result (df_at s d) \<and>
    df_step (df_pure f) n (DoCallback d w) t = Some (Exc AlreadyCalledError t)"
proof -
  obtain s where s: "df_program (df_pure f) n (map (df_add d) xs) (df_initial cs u) = Some s"
    "df_at s d = (new_deferred None)\<lparr>df_callbacks := xs\<rparr>"
    using df_program_add [of "df_initial cs u" d "df_pure f" n xs] assms(2)
    by (auto simp: new_deferred_def df_becomes_def)
  let ?s = "df_upd d (\<lambda>x. x\<lparr>df_suppressAlreadyCalled := True\<rparr>) s"
  have "\<exists>t. df_step (df_pure f) n (DoCallback d (Failure CancelledError)) ?s = Some (Ok t) \<and>
      df_becomes ?s d ((df_at ?s d)\<lparr>df_called := True, df_callbacks := [],
        df_result := Some (foldl (df_turn f) (Failure CancelledError) (df_callbacks (df_at ?s d)))\<rparr>) t"
    using assms(1,5) s(2) by (intro df_step_callback) (simp_all add: new_deferred_def df_resting_def)
  then obtain t where t: "df_step (df_pure f) n (DoCallback d (Failure CancelledError)) ?s = Some (Ok t)"
    "df_at t d = (new_deferred None)\<lparr>df_called := True, df_callbacks := [], df_suppressAlreadyCalled := True,
      df_result := Some (foldl (df_turn f) (Failure CancelledError) xs)\<rparr>"
    using s(2) by (auto simp: df_becomes_def new_deferred_def)
  obtain m where m: "n = Suc m" using assms(5) by (cases n) auto
  have "df_step (df_pure f) n (DoCancel d) s = Some (Ok t)"
    using t(1) s(2)
    by (simp add: m df_step_def new_deferred_def df_bind_def df_errback_def df_callback_def del: df_run.simps)
  moreover have "df_step (df_pure f) n (DoCallback d v) t = Some (Ok (df_upd d (\<lambda>x. x\<lparr>df_suppressAlreadyCalled := False\<rparr>) t))"
    "df_step (df_pure f) n (DoCallback d w) (df_upd d (\<lambda>x. x\<lparr>df_suppressAlreadyCalled := False\<rparr>) t)
     = Some (Exc AlreadyCalledError (df_upd d (\<lambda>x. x\<lparr>df_suppressAlreadyCalled := False\<rparr>) t))"
    using assms(3,4) by (simp_all add: m df_step_def df_callback_def df_startRunCallbacks_def t(2))
  ultimately show ?thesis using s(1) t(2) by (simp add: df_program_append)
qed

theorem deferred_cancel_once_witness:
  "\<exists>s t. df_program (df_pure (\<lambda>c v. Return PyNone)) 4 (map (df_add 0) [(Passthru, User ())] @ [DoCancel 0])
      (df_initial (\<lambda>_. None) ()) = Some s \<and>
    df_result (df_at s 0) = Some (foldl (df_turn (\<lambda>c v. Return PyNone)) (Failure CancelledError) [(Passthru, User ())]) \<and>
    df_step (df_pure (\<lambda>c v. Return PyNone)) 4 (DoCallback 0 (Val (1::nat))) s = Some (Ok t) \<and>
    df_result (df_at t 0) = df_result (df_at s 0) \<and>
    df_step (df_pure (\<lambda>c v. Return PyNone)) 4 (DoCallback 0 (Val 2)) t = Some (Exc AlreadyCalledError t)"
  by (rule deferred_cancel_once) (auto simp: df_plain_def)

text \<open>
  Callbacks can be stranded.  The Deferred 0, for which the Deferred 1
  waits, gets one more callback; then 1 is paused.  When 0 fires and hands its result
  over, \<open>_runCallbacks\<close> finds 1 paused and returns, although it is 0 whose callbacks it
  still has to run.  Unpausing 1 runs only 1: the last callback of 0 stays in the list of
  a Deferred that has fired, is not paused and does not wait.
\<close>

theorem deferred_stranded:
  assumes "f k v = Return (Ref 0)" and "\<not> is_failure v" "\<not> is_deferred v" "\<not> is_deferred w"
  shows "\<exists>t. df_program (df_pure f) 9
      [DoAddCallbacks 1 (User k) None, DoCallback 1 v, DoAddCallbacks 0 (User c) None,
       DoPause 1, DoCallback 0 w, DoUnpause 1] (df_initial cs u) = Some t \<and>
    df_callbacks (df_at t 0) = [(User c, Passthru)] \<and> df_called (df_at t 0) \<and> df_paused (df_at t 0) = 0 \<and>
    \<not> df_runningCallbacks (df_at t 0) \<and> df_result (df_at t 1) = Some w \<and> df_callbacks (df_at t 1) = []"
  using assms
  by (simp add: eval_nat_numeral df_step_def df_addCallbacks_def df_callback_def df_startRunCallbacks_def
      df_append_def new_deferred_def df_pick_def df_value_def df_call_def df_call_user_def df_pure_def Let_def
      df_set_result_def df_has_no_result_def df_wait_def df_pause_def df_unpause_def df_hand_over_def)


theorem deferred_stranded_witness:
  "\<exists>t. df_program (df_pure (\<lambda>k v. if k then Return (Ref 0) else Return PyNone)) 9
      [DoAddCallbacks 1 (User True) None, DoCallback 1 PyNone, DoAddCallbacks 0 (User False) None,
       DoPause 1, DoCallback 0 (Val (5::nat)), DoUnpause 1] (df_initial (\<lambda>_. None) ()) = Some t \<and>
    df_callbacks (df_at t 0) = [(User False, Passthru)] \<and> df_called (df_at t 0) \<and> df_paused (df_at t 0) = 0 \<and>
    \<not> df_runningCallbacks (df_at t 0) \<and> df_result (df_at t 1) = Some (Val 5) \<and> df_callbacks (df_at t 1) = []"
  by (rule deferred_stranded) simp_all

end
