(* ===== verification/DeferredSync.thy ===== *)
theory DeferredSync
  imports Prelude "HOL-Library.Sublist"
begin

text \<open>
  \<open>DeferredLock\<close>, \<open>DeferredSemaphore\<close> and \<open>DeferredQueue\<close> of
  \<open>twisted/internet/defer.py\<close>.  Each method changes the primitive's state first and
  fires at most one Deferred as its last action, so what the callbacks of that Deferred
  do to the primitive happens after the method: a run is a sequence of whole methods.
  The Deferreds a primitive creates are numbered in the order of creation, and what
  happens to them is logged.

  The locale \<open>primitive\<close> is the contract of a lock with several holders; the lock and
  the semaphore interpret it.
\<close>

datatype 'v sync_event = Fired nat 'v | Cancelled nat

datatype sync_error = SyncAssertionError | SyncValueError | QueueOverflow | QueueUnderflow

fun sync_fired :: "'v sync_event \<Rightarrow> (nat \<times> 'v) option" where
  "sync_fired (Fired d v) = Some (d, v)"
| "sync_fired (Cancelled d) = None"

definition fired :: "'v sync_event list \<Rightarrow> (nat \<times> 'v) list" where
  "fired es = List.map_filter sync_fired es"

fun sync_cancelled :: "'v sync_event \<Rightarrow> nat option" where
  "sync_cancelled (Cancelled d) = Some d"
| "sync_cancelled (Fired d v) = None"

definition cancelled :: "'v sync_event list \<Rightarrow> nat list" where
  "cancelled es = List.map_filter sync_cancelled es"

lemma fired_simps [simp]:
  "fired [] = []" "fired (es @ fs) = fired es @ fired fs" "fired [Fired d v] = [(d, v)]" "fired [Cancelled d] = []"
  "cancelled [] = []" "cancelled (es @ fs) = cancelled es @ cancelled fs"
  "cancelled [Fired d v] = []" "cancelled [Cancelled d] = [d]"
  by (simp_all add: fired_def cancelled_def List.map_filter_def)

section \<open>Locks and semaphores\<close>

datatype sync_op = Acquire | Release | Cancel nat

text \<open>What a caller sees: an exception leaves the state as it is and the caller goes on.\<close>

fun sync_exec :: "('o \<Rightarrow> 's \<Rightarrow> (sync_error, 's) outcome) \<Rightarrow> 'o list \<Rightarrow> 's \<Rightarrow> 's \<times> ('o \<times> bool) list" where
  "sync_exec step [] s = (s, [])"
| "sync_exec step (p # ps) s =
     (let (t, oks) = sync_exec step ps (state_of (step p s))
      in (t, (p, case step p s of Ok u \<Rightarrow> True | Exc e u \<Rightarrow> False) # oks))"

text \<open>
  \<open>run\<close> of a primitive: acquire it, call \<open>f\<close> when the acquisition fires, and release it
  when the Deferred of \<open>f\<close> has fired, whether with a result or a failure.  A job is named
  by the Deferred of its acquisition; the jobs in \<open>jb_running\<close> are those whose \<open>f\<close> has
  been called and has not finished.  An exception from \<open>release\<close> would become the
  result of the job.
\<close>

record 's jobs =
  jb_prim :: 's
  jb_running :: "nat list"
  jb_raised :: "nat list"

definition jb_started :: "('s \<Rightarrow> unit sync_event list) \<Rightarrow> 's \<Rightarrow> 's \<Rightarrow> nat list" where
  "jb_started events p q = map fst (fired (drop (length (events p)) (events q)))"

definition jb_run :: "(sync_op \<Rightarrow> 's \<Rightarrow> (sync_error, 's) outcome) \<Rightarrow> ('s \<Rightarrow> unit sync_event list) \<Rightarrow> 's jobs \<Rightarrow> 's jobs" where
  "jb_run step events j =
     (let p = state_of (step Acquire (jb_prim j))
      in j\<lparr>jb_prim := p, jb_running := jb_running j @ jb_started events (jb_prim j) p\<rparr>)"

definition jb_releaseAndReturn ::
    "(sync_op \<Rightarrow> 's \<Rightarrow> (sync_error, 's) outcome) \<Rightarrow> ('s \<Rightarrow> unit sync_event list) \<Rightarrow> nat \<Rightarrow> 's jobs \<Rightarrow> 's jobs" where
  "jb_releaseAndReturn step events d j =
     (let j = j\<lparr>jb_running := remove1 d (jb_running j)\<rparr>
      in case step Release (jb_prim j) of
           Ok p \<Rightarrow> j\<lparr>jb_prim := p, jb_running := jb_running j @ jb_started events (jb_prim j) p\<rparr>
         | Exc e p \<Rightarrow> j\<lparr>jb_prim := p, jb_raised := jb_raised j @ [d]\<rparr>)"

datatype jb_op = Run | Finish nat | CancelRun nat

fun jb_step :: "(sync_op \<Rightarrow> 's \<Rightarrow> (sync_error, 's) outcome) \<Rightarrow> ('s \<Rightarrow> unit sync_event list) \<Rightarrow> jb_op \<Rightarrow> 's jobs \<Rightarrow> 's jobs" where
  "jb_step step events Run j = jb_run step events j"
| "jb_step step events (Finish d) j = (if d \<in> set (jb_running j) then jb_releaseAndReturn step events d j else j)"
| "jb_step step events (CancelRun d) j = j\<lparr>jb_prim := state_of (step (Cancel d) (jb_prim j))\<rparr>"

locale primitive =
  fixes step :: "sync_op \<Rightarrow> 's \<Rightarrow> (sync_error, 's) outcome"
    and free :: "'s \<Rightarrow> nat"
    and capacity :: "'s \<Rightarrow> nat"
    and waiting :: "'s \<Rightarrow> nat list"
    and created :: "'s \<Rightarrow> nat"
    and events :: "'s \<Rightarrow> unit sync_event list"
  assumes acquire_free: "0 < free s \<Longrightarrow> \<exists>t. step Acquire s = Ok t \<and> free t = free s - 1 \<and> waiting t = waiting s \<and>
      created t = created s + 1 \<and> events t = events s @ [Fired (created s) ()] \<and> capacity t = capacity s"
    and acquire_busy: "free s = 0 \<Longrightarrow> \<exists>t. step Acquire s = Ok t \<and> free t = 0 \<and> waiting t = waiting s @ [created s] \<and>
      created t = created s + 1 \<and> events t = events s \<and> capacity t = capacity s"
    and release_extra: "free s \<ge> capacity s \<Longrightarrow> step Release s = Exc SyncAssertionError s"
    and release_idle: "free s < capacity s \<Longrightarrow> waiting s = [] \<Longrightarrow> \<exists>t. step Release s = Ok t \<and> free t = free s + 1 \<and>
      waiting t = [] \<and> created t = created s \<and> events t = events s \<and> capacity t = capacity s"
    and release_next: "free s < capacity s \<Longrightarrow> waiting s = d # ds \<Longrightarrow> \<exists>t. step Release s = Ok t \<and> free t = free s \<and>
      waiting t = ds \<and> created t = created s \<and> events t = events s @ [Fired d ()] \<and> capacity t = capacity s"
    and cancel_waiting: "d \<in> set (waiting s) \<Longrightarrow> free (state_of (step (Cancel d) s)) = free s \<and> waiting (state_of (step (Cancel d) s)) = remove1 d (waiting s) \<and>
      created (state_of (step (Cancel d) s)) = created s \<and> events (state_of (step (Cancel d) s)) = events s @ [Cancelled d] \<and> capacity (state_of (step (Cancel d) s)) = capacity s"
    and cancel_fired: "d \<notin> set (waiting s) \<Longrightarrow> step (Cancel d) s = Ok s"
begin

definition inv :: "'s \<Rightarrow> bool" where
  "inv s \<longleftrightarrow> free s \<le> capacity s \<and> (waiting s \<noteq> [] \<longrightarrow> free s = 0) \<and>
     sorted_wrt (<) (map fst (fired (events s)) @ waiting s) \<and>
     set (map fst (fired (events s))) \<union> set (cancelled (events s)) \<union> set (waiting s) = {..<created s} \<and>
     distinct (cancelled (events s)) \<and>
     set (cancelled (events s)) \<inter> set (map fst (fired (events s)) @ waiting s) = {}"

definition granted :: "'s \<Rightarrow> nat" where
  "granted s = length (fired (events s))"

lemma sorted_created: "inv s \<Longrightarrow> d \<in> set (map fst (fired (events s)) @ waiting s) \<Longrightarrow> d < created s"
  unfolding inv_def by (metis UnCI Un_iff lessThan_iff set_append)

lemma inv_acquire: "inv s \<Longrightarrow> inv (state_of (step Acquire s)) \<and> capacity (state_of (step Acquire s)) = capacity s \<and>
    granted (state_of (step Acquire s)) + free (state_of (step Acquire s)) = granted s + free s"
proof (cases "free s = 0")
  case True
  assume inv: "inv s"
  from acquire_busy [OF True] obtain t where t: "step Acquire s = Ok t" "free t = 0" "waiting t = waiting s @ [created s]"
    "created t = created s + 1" "events t = events s" "capacity t = capacity s" by blast
  with inv sorted_created [OF inv] True show ?thesis
    unfolding inv_def granted_def by (auto simp: sorted_wrt_append lessThan_Suc)
next
  case False
  assume inv: "inv s"
  from acquire_free [of s] False obtain t where t: "step Acquire s = Ok t" "free t = free s - 1" "waiting t = waiting s"
    "created t = created s + 1" "events t = events s @ [Fired (created s) ()]" "capacity t = capacity s" by blast
  moreover have "waiting s = []" using inv False by (auto simp: inv_def)
  ultimately show ?thesis
    using inv sorted_created [OF inv] False unfolding inv_def granted_def
    by (auto simp: sorted_wrt_append lessThan_Suc)
qed

lemma inv_release:
  assumes "inv s"
  shows "inv (state_of (step Release s)) \<and> capacity (state_of (step Release s)) = capacity s \<and>
    granted (state_of (step Release s)) + free (state_of (step Release s)) =
      granted s + free s + (if \<exists>u. step Release s = Ok u then 1 else 0)"
proof -
  consider "free s \<ge> capacity s" | "free s < capacity s" "waiting s = []"
    | d ds where "free s < capacity s" "waiting s = d # ds"
    by (cases "waiting s"; cases "free s < capacity s") auto
  then show ?thesis
  proof cases
    case 1
    with assms show ?thesis by (simp add: release_extra)
  next
    case 2
    from release_idle [OF this] obtain t where "step Release s = Ok t" "free t = free s + 1" "waiting t = []"
      "created t = created s" "events t = events s" "capacity t = capacity s" by blast
    with 2 assms show ?thesis unfolding inv_def granted_def by auto
  next
    case 3
    from release_next [OF this] obtain t where "step Release s = Ok t" "free t = free s" "waiting t = ds"
      "created t = created s" "events t = events s @ [Fired d ()]" "capacity t = capacity s" by blast
    with 3 assms show ?thesis unfolding inv_def granted_def by (auto simp: sorted_wrt_append)
  qed
qed

lemma sorted_wrt_remove1: "sorted_wrt (<) (xs @ ys) \<Longrightarrow> sorted_wrt (<) (xs @ remove1 (d :: nat) ys)"
  by (induction ys arbitrary: xs) (auto simp: sorted_wrt_append dest: notin_set_remove1 [rotated] in_set_remove1 [THEN iffD1, rotated])

lemma inv_cancel:
  assumes "inv s"
  shows "inv (state_of (step (Cancel d) s)) \<and> capacity (state_of (step (Cancel d) s)) = capacity s \<and> granted (state_of (step (Cancel d) s)) + free (state_of (step (Cancel d) s)) = granted s + free s"
proof (cases "d \<in> set (waiting s)")
  case True
  have dist: "distinct (map fst (fired (events s)) @ waiting s)"
    using assms unfolding inv_def strict_sorted_iff by blast
  note sorted_wrt_remove1 [of "map fst (fired (events s))" "waiting s" d]
  with cancel_waiting [OF True] assms dist True show ?thesis
    unfolding inv_def granted_def by (auto simp: set_remove1_eq)
next
  case False
  with assms show ?thesis by (simp add: cancel_fired)
qed

lemma exec_inv:
  "inv s \<Longrightarrow> sync_exec step ps s = (t, oks) \<Longrightarrow>
     inv t \<and> capacity t = capacity s \<and> granted t + free t = granted s + free s + count_list oks (Release, True)"
proof (induction ps arbitrary: s oks)
  case (Cons p ps)
  obtain oks' where rest: "sync_exec step ps (state_of (step p s)) = (t, oks')"
    using Cons.prems(2) by (auto simp: Let_def split: prod.splits)
  then have oks: "oks = (p, case step p s of Ok u \<Rightarrow> True | Exc e u \<Rightarrow> False) # oks'"
    using Cons.prems(2) by simp
  have "inv (state_of (step p s)) \<and> capacity (state_of (step p s)) = capacity s \<and>
    granted (state_of (step p s)) + free (state_of (step p s)) =
      granted s + free s + (if p = Release \<and> (\<exists>u. step p s = Ok u) then 1 else 0)"
    using inv_acquire inv_release inv_cancel Cons.prems(1) by (cases p) auto
  with Cons.IH [OF _ rest] show ?case by (cases "step p s") (auto simp: oks)
qed auto

text \<open>Jobs: as many as there are tokens run at once, none waits while a token is free, and no release raises.\<close>

definition jobs_inv :: "'s jobs \<Rightarrow> bool" where
  "jobs_inv j \<longleftrightarrow> free (jb_prim j) + length (jb_running j) = capacity (jb_prim j) \<and> jb_raised j = [] \<and>
     (waiting (jb_prim j) \<noteq> [] \<longrightarrow> free (jb_prim j) = 0)"

lemma started_simps [simp]:
  "events q = events p @ es \<Longrightarrow> jb_started events p q = map fst (fired es)"
  by (simp add: jb_started_def)

lemma jobs_run: "jobs_inv j \<Longrightarrow> jobs_inv (jb_run step events j) \<and> capacity (jb_prim (jb_run step events j)) = capacity (jb_prim j)"
proof (cases "free (jb_prim j) = 0")
  case True
  assume "jobs_inv j"
  with acquire_busy [OF True] True show ?thesis
    by (auto simp: jobs_inv_def jb_run_def Let_def)
next
  case False
  assume "jobs_inv j"
  with acquire_free [of "jb_prim j"] False show ?thesis
    by (auto simp: jobs_inv_def jb_run_def Let_def)
qed

lemma jobs_finish:
  assumes "jobs_inv j" "d \<in> set (jb_running j)"
  shows "jobs_inv (jb_releaseAndReturn step events d j) \<and>
    capacity (jb_prim (jb_releaseAndReturn step events d j)) = capacity (jb_prim j)"
proof -
  obtain k where k: "length (jb_running j) = Suc k"
    using length_pos_if_in_set [OF assms(2)] gr0_conv_Suc by auto
  then have len: "length (jb_running j) = Suc k" "length (remove1 d (jb_running j)) = k"
    using assms(2) by (simp_all add: length_remove1)
  then have "free (jb_prim j) < capacity (jb_prim j)" using assms(1) unfolding jobs_inv_def by linarith
  then show ?thesis
  proof (cases "waiting (jb_prim j)")
    case Nil
    from release_idle [OF \<open>free (jb_prim j) < capacity (jb_prim j)\<close> Nil] assms(1) len show ?thesis
      unfolding jobs_inv_def jb_releaseAndReturn_def by (auto simp: Let_def simp del: length_greater_0_conv)
  next
    case (Cons e es)
    from release_next [OF \<open>free (jb_prim j) < capacity (jb_prim j)\<close> Cons] assms(1) len Cons show ?thesis
      unfolding jobs_inv_def jb_releaseAndReturn_def by (auto simp: Let_def simp del: length_greater_0_conv)
  qed
qed

lemma jobs_cancel:
  "jobs_inv j \<Longrightarrow> jobs_inv (jb_step step events (CancelRun d) j) \<and>
     capacity (jb_prim (jb_step step events (CancelRun d) j)) = capacity (jb_prim j)"
  using cancel_waiting [of d "jb_prim j"] cancel_fired [of d "jb_prim j"]
  by (cases "d \<in> set (waiting (jb_prim j))") (auto simp: jobs_inv_def)

lemma jobs_steps:
  "jobs_inv j \<Longrightarrow> jobs_inv (fold (jb_step step events) ops j) \<and>
     capacity (jb_prim (fold (jb_step step events) ops j)) = capacity (jb_prim j)"
proof (induction ops arbitrary: j)
  case (Cons p ops)
  then have "jobs_inv (jb_step step events p j) \<and> capacity (jb_prim (jb_step step events p j)) = capacity (jb_prim j)"
    using jobs_run jobs_finish jobs_cancel by (cases p) auto
  with Cons.IH [of "jb_step step events p j"] show ?case by simp
qed simp

end

section \<open>\<open>DeferredLock\<close>\<close>

record deferred_lock =
  dl_locked :: bool
  dl_waiting :: "nat list"
  dl_created :: nat
  dl_events :: "unit sync_event list"

definition dl_init :: deferred_lock where
  "dl_init = \<lparr> dl_locked = False, dl_waiting = [], dl_created = 0, dl_events = [] \<rparr>"

definition dl_acquire :: "deferred_lock \<Rightarrow> (sync_error, deferred_lock) outcome" where
  "dl_acquire s =
     (let d = dl_created s; s = s\<lparr>dl_created := d + 1\<rparr>
      in if dl_locked s then Ok (s\<lparr>dl_waiting := dl_waiting s @ [d]\<rparr>)
         else Ok (s\<lparr>dl_locked := True, dl_events := dl_events s @ [Fired d ()]\<rparr>))"

definition dl_release :: "deferred_lock \<Rightarrow> (sync_error, deferred_lock) outcome" where
  "dl_release s =
     (if \<not> dl_locked s then Exc SyncAssertionError s
      else let s = s\<lparr>dl_locked := False\<rparr>
           in case dl_waiting s of
                [] \<Rightarrow> Ok s
              | d # ds \<Rightarrow> Ok (s\<lparr>dl_locked := True, dl_waiting := ds, dl_events := dl_events s @ [Fired d ()]\<rparr>))"

definition dl_cancelAcquire :: "nat \<Rightarrow> deferred_lock \<Rightarrow> deferred_lock" where
  "dl_cancelAcquire d s = s\<lparr>dl_waiting := remove1 d (dl_waiting s)\<rparr>"

text \<open>
  \<open>Deferred.cancel\<close> on a Deferred made by \<open>acquire\<close>: the canceller and then the errback,
  when it has not fired.
\<close>

definition dl_cancel :: "nat \<Rightarrow> deferred_lock \<Rightarrow> deferred_lock" where
  "dl_cancel d s =
     (if d \<in> set (dl_waiting s)
      then (dl_cancelAcquire d s)\<lparr>dl_events := dl_events s @ [Cancelled d]\<rparr> else s)"

fun dl_step :: "sync_op \<Rightarrow> deferred_lock \<Rightarrow> (sync_error, deferred_lock) outcome" where
  "dl_step Acquire s = dl_acquire s"
| "dl_step Release s = dl_release s"
| "dl_step (Cancel d) s = Ok (dl_cancel d s)"

interpretation lk: primitive dl_step "\<lambda>s. if dl_locked s then 0 else 1" "\<lambda>_. 1" dl_waiting dl_created dl_events
  by unfold_locales
    (auto simp: dl_acquire_def dl_release_def dl_cancel_def dl_cancelAcquire_def Let_def split: if_splits)

section \<open>\<open>DeferredSemaphore\<close>\<close>

text \<open>\<open>tokens\<close> never becomes negative, so it is a natural number once the constructor has checked it.\<close>

record semaphore =
  sm_tokens :: nat
  sm_limit :: nat
  sm_waiting :: "nat list"
  sm_created :: nat
  sm_events :: "unit sync_event list"

definition sm_init :: "int \<Rightarrow> sync_error + semaphore" where
  "sm_init tokens =
     (if tokens < 1 then Inl SyncValueError
      else Inr \<lparr> sm_tokens = nat tokens, sm_limit = nat tokens, sm_waiting = [], sm_created = 0, sm_events = [] \<rparr>)"

definition sm_acquire :: "semaphore \<Rightarrow> (sync_error, semaphore) outcome" where
  "sm_acquire s =
     (let d = sm_created s; s = s\<lparr>sm_created := d + 1\<rparr>
      in if sm_tokens s = 0 then Ok (s\<lparr>sm_waiting := sm_waiting s @ [d]\<rparr>)
         else Ok (s\<lparr>sm_tokens := sm_tokens s - 1, sm_events := sm_events s @ [Fired d ()]\<rparr>))"

definition sm_release :: "semaphore \<Rightarrow> (sync_error, semaphore) outcome" where
  "sm_release s =
     (if \<not> sm_tokens s < sm_limit s then Exc SyncAssertionError s
      else let s = s\<lparr>sm_tokens := sm_tokens s + 1\<rparr>
           in case sm_waiting s of
                [] \<Rightarrow> Ok s
              | d # ds \<Rightarrow> Ok (s\<lparr>sm_tokens := sm_tokens s - 1, sm_waiting := ds, sm_events := sm_events s @ [Fired d ()]\<rparr>))"

definition sm_cancelAcquire :: "nat \<Rightarrow> semaphore \<Rightarrow> semaphore" where
  "sm_cancelAcquire d s = s\<lparr>sm_waiting := remove1 d (sm_waiting s)\<rparr>"

definition sm_cancel :: "nat \<Rightarrow> semaphore \<Rightarrow> semaphore" where
  "sm_cancel d s =
     (if d \<in> set (sm_waiting s)
      then (sm_cancelAcquire d s)\<lparr>sm_events := sm_events s @ [Cancelled d]\<rparr> else s)"

fun sm_step :: "sync_op \<Rightarrow> semaphore \<Rightarrow> (sync_error, semaphore) outcome" where
  "sm_step Acquire s = sm_acquire s"
| "sm_step Release s = sm_release s"
| "sm_step (Cancel d) s = Ok (sm_cancel d s)"

interpretation sem: primitive sm_step sm_tokens sm_limit sm_waiting sm_created sm_events
  by unfold_locales
    (auto simp: sm_acquire_def sm_release_def sm_cancel_def sm_cancelAcquire_def Let_def)

section \<open>\<open>DeferredQueue\<close>\<close>

record 'a deferred_queue =
  dq_waiting :: "nat list"
  dq_pending :: "'a list"
  dq_size :: "nat option"
  dq_backlog :: "nat option"
  dq_created :: nat
  dq_events :: "'a sync_event list"

definition dq_init :: "nat option \<Rightarrow> nat option \<Rightarrow> 'a deferred_queue" where
  "dq_init sz backlog =
     \<lparr> dq_waiting = [], dq_pending = [], dq_size = sz, dq_backlog = backlog, dq_created = 0, dq_events = [] \<rparr>"

definition dq_fits :: "nat option \<Rightarrow> 'b list \<Rightarrow> bool" where
  "dq_fits limit xs = (case limit of None \<Rightarrow> True | Some n \<Rightarrow> length xs < n)"

definition dq_put :: "'a \<Rightarrow> 'a deferred_queue \<Rightarrow> (sync_error, 'a deferred_queue) outcome" where
  "dq_put obj s =
     (case dq_waiting s of
        d # ds \<Rightarrow> Ok (s\<lparr>dq_waiting := ds, dq_events := dq_events s @ [Fired d obj]\<rparr>)
      | [] \<Rightarrow>
          if dq_fits (dq_size s) (dq_pending s) then Ok (s\<lparr>dq_pending := dq_pending s @ [obj]\<rparr>)
          else Exc QueueOverflow s)"

definition dq_get :: "'a deferred_queue \<Rightarrow> (sync_error, 'a deferred_queue) outcome" where
  "dq_get s =
     (let d = dq_created s
      in case dq_pending s of
           obj # objs \<Rightarrow> Ok (s\<lparr>dq_pending := objs, dq_created := d + 1, dq_events := dq_events s @ [Fired d obj]\<rparr>)
         | [] \<Rightarrow>
             if dq_fits (dq_backlog s) (dq_waiting s)
             then Ok (s\<lparr>dq_waiting := dq_waiting s @ [d], dq_created := d + 1\<rparr>)
             else Exc QueueUnderflow s)"

definition dq_cancelGet :: "nat \<Rightarrow> 'a deferred_queue \<Rightarrow> 'a deferred_queue" where
  "dq_cancelGet d s = s\<lparr>dq_waiting := remove1 d (dq_waiting s)\<rparr>"

definition dq_cancel :: "nat \<Rightarrow> 'a deferred_queue \<Rightarrow> 'a deferred_queue" where
  "dq_cancel d s =
     (if d \<in> set (dq_waiting s)
      then (dq_cancelGet d s)\<lparr>dq_events := dq_events s @ [Cancelled d]\<rparr> else s)"

datatype 'a dq_op = Put 'a | Get | CancelGet nat

fun dq_step :: "'a dq_op \<Rightarrow> 'a deferred_queue \<Rightarrow> (sync_error, 'a deferred_queue) outcome" where
  "dq_step (Put x) s = dq_put x s"
| "dq_step Get s = dq_get s"
| "dq_step (CancelGet d) s = Ok (dq_cancel d s)"

text \<open>The objects of the \<open>put\<close> calls that did not raise.\<close>

fun dq_accepted :: "('a dq_op \<times> bool) list \<Rightarrow> 'a list" where
  "dq_accepted [] = []"
| "dq_accepted ((Put x, True) # oks) = x # dq_accepted oks"
| "dq_accepted (_ # oks) = dq_accepted oks"

definition dq_within :: "nat option \<Rightarrow> 'b list \<Rightarrow> bool" where
  "dq_within limit xs = (case limit of None \<Rightarrow> True | Some n \<Rightarrow> length xs \<le> n)"

definition dq_inv :: "nat option \<Rightarrow> nat option \<Rightarrow> 'a deferred_queue \<Rightarrow> bool" where
  "dq_inv sz backlog s \<longleftrightarrow> dq_size s = sz \<and> dq_backlog s = backlog \<and>
     (dq_waiting s = [] \<or> dq_pending s = []) \<and> dq_within sz (dq_pending s) \<and> dq_within backlog (dq_waiting s) \<and>
     sorted_wrt (<) (map fst (fired (dq_events s)) @ dq_waiting s) \<and>
     (\<forall>d \<in> set (map fst (fired (dq_events s)) @ dq_waiting s). d < dq_created s)"

definition dq_through :: "'a deferred_queue \<Rightarrow> 'a list" where
  "dq_through s = map snd (fired (dq_events s)) @ dq_pending s"

lemma dq_fits_within: "dq_fits limit xs \<Longrightarrow> dq_within limit (xs @ [x])"
  by (auto simp: dq_fits_def dq_within_def split: option.splits)

lemma dq_within_mono: "dq_within limit ys \<Longrightarrow> length xs \<le> length ys \<Longrightarrow> dq_within limit xs"
  by (auto simp: dq_within_def split: option.splits)

lemma dq_put_inv:
  "dq_inv sz backlog s \<Longrightarrow> dq_inv sz backlog (state_of (dq_put x s)) \<and>
     dq_through (state_of (dq_put x s)) = dq_through s @ (case dq_put x s of Ok u \<Rightarrow> [x] | Exc e u \<Rightarrow> [])"
  by (auto simp: dq_inv_def dq_put_def dq_through_def sorted_wrt_append
      intro: dq_fits_within dq_within_mono split: list.splits)

lemma dq_get_inv:
  "dq_inv sz backlog s \<Longrightarrow> dq_inv sz backlog (state_of (dq_get s)) \<and> dq_through (state_of (dq_get s)) = dq_through s"
  by (auto simp: dq_inv_def dq_get_def dq_through_def sorted_wrt_append Let_def less_Suc_eq
      intro: dq_fits_within dq_within_mono split: list.splits)

lemma dq_cancel_inv:
  "dq_inv sz backlog s \<Longrightarrow> dq_inv sz backlog (dq_cancel d s) \<and> dq_through (dq_cancel d s) = dq_through s"
  using lk.sorted_wrt_remove1 [of "map fst (fired (dq_events s))" "dq_waiting s" d]
  by (auto simp: dq_inv_def dq_cancel_def dq_cancelGet_def dq_through_def length_remove1
      intro: dq_within_mono dest: notin_set_remove1 [rotated])

lemma dq_exec_inv:
  "dq_inv sz backlog s \<Longrightarrow> sync_exec dq_step ps s = (t, oks) \<Longrightarrow>
     dq_inv sz backlog t \<and> dq_through t = dq_through s @ dq_accepted oks"
proof (induction ps arbitrary: s oks)
  case (Cons p ps)
  obtain oks' where rest: "sync_exec dq_step ps (state_of (dq_step p s)) = (t, oks')"
    using Cons.prems(2) by (auto simp: Let_def split: prod.splits)
  then have oks: "oks = (p, case dq_step p s of Ok u \<Rightarrow> True | Exc e u \<Rightarrow> False) # oks'"
    using Cons.prems(2) by simp
  show ?case
  proof (cases p)
    case (Put x)
    with dq_put_inv [OF Cons.prems(1), of x] Cons.IH [OF _ rest] oks show ?thesis
      by (cases "dq_put x s") auto
  next
    case Get
    with dq_get_inv [OF Cons.prems(1)] Cons.IH [OF _ rest] oks show ?thesis by simp
  next
    case (CancelGet d)
    with dq_cancel_inv [OF Cons.prems(1), of d] Cons.IH [OF _ rest] oks show ?thesis by simp
  qed
qed simp

section \<open>Properties\<close>

text \<open>
  C38: a \<open>DeferredLock\<close> excludes and is fair.  After any sequence of calls, whatever is
  cancelled and whatever raises, the lock has been granted once more often than it has
  been released exactly when it is locked; it is locked whenever somebody waits; it was
  granted in the order of the \<open>acquire\<close> calls; and every call has been granted, was
  cancelled or waits.
\<close>

theorem lock_exclusive_fair:
  "let (t, oks) = sync_exec dl_step ps dl_init
   in length (fired (dl_events t)) = count_list oks (Release, True) + (if dl_locked t then 1 else 0) \<and>
     (dl_waiting t = [] \<or> dl_locked t) \<and>
     sorted_wrt (<) (map fst (fired (dl_events t)) @ dl_waiting t) \<and>
     set (map fst (fired (dl_events t))) \<union> set (cancelled (dl_events t)) \<union> set (dl_waiting t) = {..<dl_created t}"
proof -
  obtain t oks where run: "sync_exec dl_step ps dl_init = (t, oks)" by (cases "sync_exec dl_step ps dl_init")
  have "lk.inv dl_init" unfolding lk.inv_def by (simp add: dl_init_def)
  from lk.exec_inv [OF this run, unfolded lk.inv_def lk.granted_def] run show ?thesis
    by (auto simp: dl_init_def split: if_splits)
qed

text \<open>
  C39: with \<open>run\<close>, at most as many jobs of a \<open>DeferredSemaphore\<close> are running as it has
  tokens, none waits while fewer are running, and no job's \<open>release\<close> ever raises the
  assertion, whether jobs succeed, fail or are cancelled while they wait.
\<close>

theorem semaphore_run_bounded:
  assumes "sm_init n = Inr s" and "j = fold (jb_step sm_step sm_events) ops \<lparr> jb_prim = s, jb_running = [], jb_raised = [] \<rparr>"
  shows "length (jb_running j) \<le> nat n \<and> (sm_waiting (jb_prim j) = [] \<or> length (jb_running j) = nat n) \<and> jb_raised j = []"
proof -
  have s: "sm_tokens s = nat n" "sm_limit s = nat n" "sm_waiting s = []"
    using assms(1) by (auto simp: sm_init_def split: if_splits)
  then have "sem.jobs_inv \<lparr> jb_prim = s, jb_running = [], jb_raised = [] \<rparr>" by (simp add: sem.jobs_inv_def)
  from sem.jobs_steps [OF this, of ops] assms(2) s show ?thesis by (auto simp: sem.jobs_inv_def)
qed

theorem semaphore_run_bounded_witness:
  "length (jb_running (fold (jb_step sm_step sm_events) [Run, Run, Run, Finish 0]
     \<lparr> jb_prim = the (case sm_init 2 of Inr s \<Rightarrow> Some s | Inl e \<Rightarrow> None), jb_running = [], jb_raised = [] \<rparr>)) \<le> nat 2"
  using semaphore_run_bounded [of 2 _ _ "[Run, Run, Run, Finish 0]", OF _ refl]
  by (simp add: sm_init_def del: fold_simps fold.simps)

text \<open>
  A \<open>DeferredQueue\<close> is a queue.  After any sequence of calls, the objects handed out
  and then those pending are the objects of the accepted \<open>put\<close> calls in order; they went
  to the \<open>get\<close> calls in order; objects and getters never wait at the same time; and
  neither waits in larger numbers than its limit.
\<close>

theorem queue_fifo:
  "let (t, oks) = sync_exec dq_step ps (dq_init sz backlog)
   in map snd (fired (dq_events t)) @ dq_pending t = dq_accepted oks \<and>
     sorted_wrt (<) (map fst (fired (dq_events t)) @ dq_waiting t) \<and>
     (dq_waiting t = [] \<or> dq_pending t = []) \<and>
     dq_within sz (dq_pending t) \<and> dq_within backlog (dq_waiting t)"
proof -
  obtain t oks where run: "sync_exec dq_step ps (dq_init sz backlog) = (t, oks)"
    by (cases "sync_exec dq_step ps (dq_init sz backlog)")
  have "dq_inv sz backlog (dq_init sz backlog)"
    by (simp add: dq_inv_def dq_init_def dq_within_def split: option.split)
  from dq_exec_inv [OF this run] run show ?thesis
    by (auto simp: dq_inv_def dq_through_def dq_init_def)
qed

end
