(* ===== verification/DeferredLists.thy ===== *)
theory DeferredLists
  imports DeferredProtocol
begin

text \<open>
  The functions around \<open>Deferred\<close> in \<open>twisted/internet/defer.py\<close>: \<open>succeed\<close>, \<open>fail\<close>,
  \<open>execute\<close> and \<open>maybeDeferred\<close> over the store of Deferreds, and \<open>DeferredList\<close> with
  \<open>gatherResults\<close>.  A \<open>DeferredList\<close> sees of the Deferreds it tracks only that one of
  them fires, with which value and whether as a success; when and in which order they do
  is the environment's choice.
\<close>

section \<open>From calls to Deferreds\<close>

text \<open>The Deferred \<open>d\<close> is the new one these functions make; what the callable does is \<open>ret\<close>.\<close>

definition df_succeed ::
    "('c, 'v, 'u) df_runner \<Rightarrow> nat \<Rightarrow> 'v df_value \<Rightarrow> ('c, 'v, 'u) df_state \<Rightarrow> ('c, 'v, 'u) df_result" where
  "df_succeed run d v s = df_callback run d v s"

definition df_fail ::
    "('c, 'v, 'u) df_runner \<Rightarrow> nat \<Rightarrow> 'v df_value \<Rightarrow> ('c, 'v, 'u) df_state \<Rightarrow> ('c, 'v, 'u) df_result" where
  "df_fail run d v s = df_errback run d v s"

definition df_execute ::
    "('c, 'v, 'u) df_runner \<Rightarrow> nat \<Rightarrow> 'v df_return \<Rightarrow> ('c, 'v, 'u) df_state \<Rightarrow> ('c, 'v, 'u) df_result" where
  "df_execute run d ret s =
     (case ret of Raise e \<Rightarrow> df_fail run d (Failure e) s | Return v \<Rightarrow> df_succeed run d v s)"

text \<open>The Deferred \<open>maybeDeferred\<close> returns, and the result of making it.\<close>

definition df_maybeDeferred ::
    "('c, 'v, 'u) df_runner \<Rightarrow> nat \<Rightarrow> 'v df_return \<Rightarrow> ('c, 'v, 'u) df_state \<Rightarrow> nat \<times> ('c, 'v, 'u) df_result" where
  "df_maybeDeferred run d ret s =
     (case ret of
        Raise e \<Rightarrow> (d, df_fail run d (Failure e) s)
      | Return v \<Rightarrow>
          if is_deferred v then (case v of Ref r \<Rightarrow> (r, Some (Ok s)) | _ \<Rightarrow> (d, Some (Ok s)))
          else if is_failure v then (d, df_fail run d v s)
          else (d, df_succeed run d v s))"

lemma df_start_fresh:
  assumes "df_at s d = new_deferred c"
  shows "\<exists>t. df_startRunCallbacks (df_run beh (Suc (Suc (Suc n)))) d v s = Some (Ok t) \<and>
    df_result (df_at t d) = Some v \<and> df_called (df_at t d) \<and> (\<forall>e. e \<noteq> d \<longrightarrow> df_at t e = df_at s e)"
  using assms by (cases n) (simp_all add: df_startRunCallbacks_def new_deferred_def)

section \<open>\<open>DeferredList\<close>\<close>

text \<open>With what a \<open>DeferredList\<close> fires: all results, the first success, or a \<open>FirstError\<close>.\<close>

datatype 'v dk_outcome =
    AllResults "(bool \<times> 'v) option list"
  | FirstResult 'v nat
  | FirstError 'v nat

record 'v deferred_list =
  dk_resultList :: "(bool \<times> 'v) option list"
  dk_finishedCount :: nat
  dk_fireOnOneCallback :: bool
  dk_fireOnOneErrback :: bool
  dk_consumeErrors :: bool
  dk_fired :: "'v dk_outcome option"

definition dk_called :: "'v deferred_list \<Rightarrow> bool" where
  "dk_called s \<longleftrightarrow> dk_fired s \<noteq> None"

definition dk_init :: "nat \<Rightarrow> bool \<Rightarrow> bool \<Rightarrow> bool \<Rightarrow> 'v deferred_list" where
  "dk_init n onCallback onErrback consume =
     \<lparr> dk_resultList = replicate n None, dk_finishedCount = 0, dk_fireOnOneCallback = onCallback,
       dk_fireOnOneErrback = onErrback, dk_consumeErrors = consume,
       dk_fired = (if n = 0 \<and> \<not> onCallback then Some (AllResults (replicate n None)) else None) \<rparr>"

text \<open>
  \<open>_cbDeferred\<close>: the new state, and what it returns to the chain of the Deferred that
  fired, where \<open>None\<close> is Python's.
\<close>

definition dk_cbDeferred :: "'v \<Rightarrow> nat \<Rightarrow> bool \<Rightarrow> 'v deferred_list \<Rightarrow> 'v deferred_list \<times> 'v option" where
  "dk_cbDeferred result i succeeded s =
     (let s = s\<lparr>dk_resultList := (dk_resultList s)[i := Some (succeeded, result)],
               dk_finishedCount := dk_finishedCount s + 1\<rparr>;
          s = (if \<not> dk_called s then
                 if succeeded \<and> dk_fireOnOneCallback s then s\<lparr>dk_fired := Some (FirstResult result i)\<rparr>
                 else if \<not> succeeded \<and> dk_fireOnOneErrback s then s\<lparr>dk_fired := Some (FirstError result i)\<rparr>
                 else if dk_finishedCount s = length (dk_resultList s)
                   then s\<lparr>dk_fired := Some (AllResults (dk_resultList s))\<rparr>
                 else s
               else s)
      in (s, if \<not> succeeded \<and> dk_consumeErrors s then None else Some result))"

text \<open>The positions of the Deferreds that \<open>cancel\<close> cancels.\<close>

definition dk_cancel :: "'v deferred_list \<Rightarrow> nat list" where
  "dk_cancel s = (if \<not> dk_called s then [0..<length (dk_resultList s)] else [])"

text \<open>The Deferreds firing one after the other.\<close>

type_synonym 'v dk_firing = "nat \<times> bool \<times> 'v"

definition dk_run :: "'v dk_firing list \<Rightarrow> 'v deferred_list \<Rightarrow> 'v deferred_list" where
  "dk_run evs s = foldl (\<lambda>s (i, ok, v). fst (dk_cbDeferred v i ok s)) s evs"

section \<open>\<open>gatherResults\<close>\<close>

datatype dk_error = AssertionFailed

fun dk_parseDListResult :: "(bool \<times> 'v) option list \<Rightarrow> dk_error + 'v list" where
  "dk_parseDListResult [] = Inr []"
| "dk_parseDListResult (Some (True, v) # l) =
     (case dk_parseDListResult l of Inl e \<Rightarrow> Inl e | Inr vs \<Rightarrow> Inr (v # vs))"
| "dk_parseDListResult (_ # l) = Inl AssertionFailed"

datatype 'v gathered = Pending | Gathered "'v list" | GatherError 'v nat | GatherAssertion

definition dk_gatherResults :: "nat \<Rightarrow> bool \<Rightarrow> 'v dk_firing list \<Rightarrow> 'v gathered" where
  "dk_gatherResults n consume evs =
     (case dk_fired (dk_run evs (dk_init n False True consume)) of
        None \<Rightarrow> Pending
      | Some (AllResults l) \<Rightarrow> (case dk_parseDListResult l of Inl e \<Rightarrow> GatherAssertion | Inr vs \<Rightarrow> Gathered vs)
      | Some (FirstResult v i) \<Rightarrow> GatherAssertion
      | Some (FirstError v i) \<Rightarrow> GatherError v i)"

section \<open>What a \<open>DeferredList\<close> fires with\<close>

definition dk_decides :: "bool \<Rightarrow> bool \<Rightarrow> 'v dk_firing \<Rightarrow> bool" where
  "dk_decides onCallback onErrback ev = (case ev of (i, ok, v) \<Rightarrow> if ok then onCallback else onErrback)"

definition dk_decision :: "'v dk_firing \<Rightarrow> 'v dk_outcome" where
  "dk_decision ev = (case ev of (i, ok, v) \<Rightarrow> if ok then FirstResult v i else FirstError v i)"

definition dk_results :: "nat \<Rightarrow> 'v dk_firing list \<Rightarrow> (bool \<times> 'v) option list" where
  "dk_results n evs = map (map_of evs) [0..<n]"

lemma dk_results_Nil [simp]: "dk_results n [] = replicate n None"
  by (simp add: dk_results_def map_replicate_const)

lemma length_dk_results [simp]: "length (dk_results n evs) = n"
  by (simp add: dk_results_def)

lemma map_of_snoc: "i \<notin> fst ` set evs \<Longrightarrow> map_of (evs @ [(i, x)]) j = (if j = i then Some x else map_of evs j)"
  by (induction evs) auto

lemma dk_results_snoc: "i \<notin> fst ` set evs \<Longrightarrow> dk_results n (evs @ [(i, x)]) = (dk_results n evs)[i := Some x]"
  by (rule nth_equalityI) (simp_all add: dk_results_def map_of_snoc nth_list_update del: map_of_append)

definition dk_expected :: "nat \<Rightarrow> bool \<Rightarrow> bool \<Rightarrow> 'v dk_firing list \<Rightarrow> 'v dk_outcome option" where
  "dk_expected n onCallback onErrback evs =
     (case find (dk_decides onCallback onErrback) evs of
        Some ev \<Rightarrow> Some (dk_decision ev)
      | None \<Rightarrow> if length evs = n \<and> \<not> (n = 0 \<and> onCallback) then Some (AllResults (dk_results n evs)) else None)"

lemma find_snoc: "find P (xs @ [x]) = (case find P xs of None \<Rightarrow> if P x then Some x else None | r \<Rightarrow> r)"
  by (induction xs) auto

lemma dk_run_state:
  assumes "distinct (map fst evs)" "fst ` set evs \<subseteq> {..<n}"
  shows "dk_run evs (dk_init n c e k) =
    \<lparr> dk_resultList = dk_results n evs, dk_finishedCount = length evs, dk_fireOnOneCallback = c,
      dk_fireOnOneErrback = e, dk_consumeErrors = k, dk_fired = dk_expected n c e evs \<rparr>"
  using assms
proof (induction evs rule: rev_induct)
  case Nil
  show ?case by (auto simp: dk_run_def dk_init_def dk_expected_def)
next
  case (snoc ev evs)
  obtain i ok v where ev: "ev = (i, ok, v)" by (cases ev)
  from snoc.prems have i: "i \<notin> fst ` set evs" "i < n" and IH: "dk_run evs (dk_init n c e k) =
    \<lparr> dk_resultList = dk_results n evs, dk_finishedCount = length evs, dk_fireOnOneCallback = c,
      dk_fireOnOneErrback = e, dk_consumeErrors = k, dk_fired = dk_expected n c e evs \<rparr>"
    using snoc.IH by (auto simp: ev)
  have card: "length evs < n"
  proof -
    have "length evs = card (fst ` set evs)" using snoc.prems(1) by (simp add: distinct_card flip: set_map)
    also have "\<dots> < card (insert i (fst ` set evs))" using i(1) by simp
    also have "\<dots> \<le> card {..<n}" using snoc.prems(2) by (intro card_mono) (auto simp: ev)
    finally show ?thesis by simp
  qed
  have "dk_run (evs @ [ev]) (dk_init n c e k) = fst (dk_cbDeferred v i ok (dk_run evs (dk_init n c e k)))"
    by (simp add: dk_run_def ev)
  also have "\<dots> = \<lparr> dk_resultList = dk_results n (evs @ [ev]), dk_finishedCount = length (evs @ [ev]),
      dk_fireOnOneCallback = c, dk_fireOnOneErrback = e, dk_consumeErrors = k, dk_fired = dk_expected n c e (evs @ [ev]) \<rparr>"
    using card i
    by (cases "find (dk_decides c e) evs")
      (auto simp: IH ev dk_cbDeferred_def dk_called_def dk_expected_def dk_results_snoc find_snoc
        dk_decides_def dk_decision_def Let_def)
  finally show ?case .
qed

lemma dk_parse_all:
  "\<forall>x \<in> set l. \<exists>v. x = Some (True, v) \<Longrightarrow> dk_parseDListResult l = Inr (map (\<lambda>x. snd (the x)) l)"
  by (induction l) auto

section \<open>Properties\<close>

text \<open>
  C40: a \<open>DeferredList\<close> fires once, with a result that depends on the order in which its
  Deferreds fire only where the flags say so: with the first success or the first failure
  of that order when it is to fire on one, and otherwise, when all have fired, with
  all results in the order of the list.  An empty list that waits for a first success
  never fires.
\<close>

theorem deferredlist_result:
  assumes "distinct (map fst evs)" and "fst ` set evs = {..<n}"
  shows "dk_fired (dk_run evs (dk_init n onCallback onErrback consume)) =
    (case find (dk_decides onCallback onErrback) evs of
       Some ev \<Rightarrow> Some (dk_decision ev)
     | None \<Rightarrow> if n = 0 \<and> onCallback then None else Some (AllResults (map (map_of evs) [0..<n])))"
proof -
  have "length evs = card (fst ` set evs)" using assms(1) by (simp add: distinct_card flip: set_map)
  then have "length evs = n" using assms(2) by simp
  with dk_run_state [OF assms(1), of n] assms(2) show ?thesis
    by (auto simp: dk_expected_def dk_results_def split: option.split)
qed

theorem deferredlist_result_witness:
  "dk_fired (dk_run [(1, True, ''b''), (0, False, ''a'')] (dk_init 2 False False True)) =
    (case find (dk_decides False False) [(1, True, ''b''), (0, False, ''a'')] of
       Some ev \<Rightarrow> Some (dk_decision ev)
     | None \<Rightarrow> if (2::nat) = 0 \<and> False then None
         else Some (AllResults (map (map_of [(1, True, ''b''), (0, False, ''a'')]) [0..<2])))"
  by (rule deferredlist_result) auto

text \<open>
  \<open>gatherResults\<close> joins: when all Deferreds succeed, in whatever order, it fires
  with their values in the order of the list; when one fails, with a \<open>FirstError\<close> for the
  one that failed first and its position; the assertion of \<open>_parseDListResult\<close> never
  fails.
\<close>

theorem gather_results:
  assumes "distinct (map fst evs)" and "fst ` set evs = {..<n}"
  shows "dk_gatherResults n consume evs =
    (case find (\<lambda>(i, ok, v). \<not> ok) evs of
       Some (i, ok, v) \<Rightarrow> GatherError v i
     | None \<Rightarrow> Gathered (map (\<lambda>i. snd (the (map_of evs i))) [0..<n]))"
proof -
  have len: "length evs = n" using assms distinct_card [of "map fst evs"] by simp
  have dec: "dk_decides False True = (\<lambda>(i, ok, v). \<not> ok)" by (auto simp: dk_decides_def fun_eq_iff)
  have run: "dk_fired (dk_run evs (dk_init n False True consume)) = dk_expected n False True evs"
    using dk_run_state [OF assms(1), of n] assms(2) by simp
  show ?thesis
  proof (cases "find (\<lambda>(i, ok, v). \<not> ok) evs")
    case (Some ev)
    then have "\<not> fst (snd ev)" by (auto simp: find_Some_iff)
    with Some show ?thesis
      by (cases ev) (simp add: dk_gatherResults_def run dk_expected_def dec dk_decision_def)
  next
    case None
    have "\<exists>v. map_of evs i = Some (True, v)" if i: "i < n" for i
    proof -
      from i assms(2) have "i \<in> fst ` set evs" by simp
      then obtain x where x: "map_of evs i = Some x" by (meson not_None_eq map_of_eq_None_iff)
      then have "(i, x) \<in> set evs" by (rule map_of_SomeD)
      with None have "fst x" by (cases x) (auto simp: find_None_iff)
      with x show ?thesis by (cases x) simp
    qed
    then have "dk_parseDListResult (map (map_of evs) [0..<n]) = Inr (map (\<lambda>i. snd (the (map_of evs i))) [0..<n])"
      by (subst dk_parse_all) auto
    with None len show ?thesis by (simp add: dk_gatherResults_def run dk_expected_def dec dk_results_def)
  qed
qed

theorem gather_results_witness:
  "dk_gatherResults 2 False [(1, True, ''b''), (0, True, ''a'')] =
    (case find (\<lambda>(i, ok, v). \<not> ok) [(1, True, ''b''), (0, True, ''a'')] of
       Some (i, ok, v) \<Rightarrow> GatherError v i
     | None \<Rightarrow> Gathered (map (\<lambda>i. snd (the (map_of [(1, True, ''b''), (0, True, ''a'')] i))) [0..<2]))"
  by (rule gather_results) auto

end
