(* ===== verification/InlineCallbacks.thy ===== *)
theory InlineCallbacks
  imports Deferred
begin

text \<open>
  \<open>inlineCallbacks\<close> of \<open>twisted/internet/defer.py\<close>: a generator that yields Deferreds and is resumed
  with their results.  The generator is a parameter: sent a value, or thrown the exception of a
  \<open>Failure\<close>, its frame \<open>'g\<close> goes on and yields, ends or raises.  Whether a Deferred that it yields has
  its result by then is a parameter too, another one each time the loop is entered; a Deferred
  without one calls \<open>gotResult\<close> later.  \<open>gotResult\<close> returns \<open>None\<close>, which becomes the Deferred's
  result, so that a Deferred that is yielded again gives \<open>None\<close>.  The warning about a misplaced \<open>returnValue\<close> is left out.
\<close>

section \<open>The loop\<close>

datatype 'v gen_step =
    Yields "'v df_value" | StopIteration "'v df_value" | DefGenReturn "'v df_value" | GenRaises "'v df_error"

type_synonym ('g, 'v) generator = "'g \<Rightarrow> 'v df_value \<Rightarrow> 'g \<times> 'v gen_step"

type_synonym 'v ready = "nat \<Rightarrow> 'v df_value option"

text \<open>
  \<open>ic_waitingFor\<close> is the Deferred that has \<open>gotResult\<close> as a callback that was not called yet,
  \<open>ic_taken\<close> are those whose result \<open>gotResult\<close> took and replaced by \<open>None\<close>;
  \<open>ic_fired\<close> lists what the returned Deferred was fired with, and \<open>ic_raised\<close> says that an exception
  left \<open>_inlineCallbacks\<close>.
\<close>

record ('g, 'v) inline =
  ic_gen :: 'g
  ic_waitingFor :: "nat option"
  ic_taken :: "nat list"
  ic_fired :: "'v df_value list"
  ic_raised :: bool

definition ic_init :: "'g \<Rightarrow> ('g, 'v) inline" where
  "ic_init g = \<lparr> ic_gen = g, ic_waitingFor = None, ic_taken = [], ic_fired = [], ic_raised = False \<rparr>"

text \<open>\<open>deferred.callback(value)\<close> asserts that the value is not a Deferred.\<close>

definition ic_callback :: "'v df_value \<Rightarrow> ('g, 'v) inline \<Rightarrow> ('g, 'v) inline" where
  "ic_callback v s = (if is_deferred v then s\<lparr>ic_raised := True\<rparr> else s\<lparr>ic_fired := ic_fired s @ [v]\<rparr>)"

definition ic_errback :: "'v df_error \<Rightarrow> ('g, 'v) inline \<Rightarrow> ('g, 'v) inline" where
  "ic_errback e s = s\<lparr>ic_fired := ic_fired s @ [Failure e]\<rparr>"

text \<open>
  The local list \<open>waiting\<close>: whether a result is waited for, and the result.  \<open>result.addBoth(gotResult)\<close>
  calls \<open>gotResult\<close> at once when the Deferred has a result.
\<close>

type_synonym 'v ic_waiting = "bool \<times> 'v df_value"

definition ic_result :: "'v ready \<Rightarrow> nat list \<Rightarrow> nat \<Rightarrow> 'v df_value option" where
  "ic_result ready taken d = (if d \<in> set taken then Some PyNone else ready d)"

definition ic_addBoth :: "'v ready \<Rightarrow> nat \<Rightarrow> 'v ic_waiting \<Rightarrow> ('g, 'v) inline \<Rightarrow> 'v ic_waiting \<times> ('g, 'v) inline" where
  "ic_addBoth ready d waiting s =
     (case ic_result ready (ic_taken s) d of
        Some r \<Rightarrow> (if fst waiting then (False, r) else waiting, s\<lparr>ic_taken := d # ic_taken s\<rparr>)
      | None \<Rightarrow> (waiting, s))"

partial_function (option) ic_loop ::
    "('g, 'v) generator \<Rightarrow> 'v ready \<Rightarrow> 'v df_value \<Rightarrow> 'v ic_waiting \<Rightarrow> ('g, 'v) inline \<Rightarrow> ('g, 'v) inline option" where
  "ic_loop gen ready result waiting s =
     (let (g, step) = gen (ic_gen s) result; s = s\<lparr>ic_gen := g\<rparr>
      in case step of
           StopIteration v \<Rightarrow> Some (ic_callback v s)
         | DefGenReturn v \<Rightarrow> Some (ic_callback v s)
         | GenRaises e \<Rightarrow> Some (ic_errback e s)
         | Yields y \<Rightarrow>
             (case y of
                Ref d \<Rightarrow>
                  (let (waiting, s) = ic_addBoth ready d waiting s
                   in if fst waiting then Some (s\<lparr>ic_waitingFor := Some d\<rparr>)
                      else ic_loop gen ready (snd waiting) (True, PyNone) s)
              | _ \<Rightarrow> ic_loop gen ready y waiting s))"

declare ic_loop.simps [code]

definition ic_inlineCallbacks ::
    "('g, 'v) generator \<Rightarrow> 'v ready \<Rightarrow> 'v df_value \<Rightarrow> ('g, 'v) inline \<Rightarrow> ('g, 'v) inline option" where
  "ic_inlineCallbacks gen ready result s = ic_loop gen ready result (True, PyNone) s"

text \<open>The Deferred that was yielded fires: \<open>gotResult\<close> is called when the loop has been left, and starts another.\<close>

definition ic_gotResult :: "('g, 'v) generator \<Rightarrow> 'v ready \<Rightarrow> nat \<Rightarrow> 'v df_value \<Rightarrow> ('g, 'v) inline \<Rightarrow> ('g, 'v) inline option" where
  "ic_gotResult gen ready d r s = ic_inlineCallbacks gen ready r (s\<lparr>ic_waitingFor := None, ic_taken := d # ic_taken s\<rparr>)"

text \<open>
  A run: the generator is started, and each time it waits for a Deferred, that one fires at some time
  with the result \<open>res\<close> says; \<open>ready\<close> is what is ready in each of the stretches between.
\<close>

fun ic_resume :: "('g, 'v) generator \<Rightarrow> (nat \<Rightarrow> 'v df_value) \<Rightarrow> 'v ready list \<Rightarrow> ('g, 'v) inline \<Rightarrow> ('g, 'v) inline option" where
  "ic_resume gen res [] s = Some s"
| "ic_resume gen res (ready # readies) s =
     (case ic_waitingFor s of
        None \<Rightarrow> Some s
      | Some d \<Rightarrow> Option.bind (ic_gotResult gen ready d (res d) s) (ic_resume gen res readies))"

definition ic_run :: "('g, 'v) generator \<Rightarrow> (nat \<Rightarrow> 'v df_value) \<Rightarrow> 'v ready list \<Rightarrow> 'g \<Rightarrow> ('g, 'v) inline option" where
  "ic_run gen res readies g =
     (case readies of
        [] \<Rightarrow> None
      | ready # readies \<Rightarrow> Option.bind (ic_inlineCallbacks gen ready PyNone (ic_init g)) (ic_resume gen res readies))"

section \<open>Sequential code\<close>

text \<open>
  The generator read as a sequential program: \<open>yield d\<close> is the result of \<open>d\<close>, and \<open>None\<close> when it is
  yielded again.  \<open>n\<close> bounds the yields.
\<close>

definition ic_await :: "(nat \<Rightarrow> 'v df_value) \<Rightarrow> nat list \<Rightarrow> 'v df_value \<Rightarrow> 'v df_value" where
  "ic_await res taken y = (case y of Ref d \<Rightarrow> if d \<in> set taken then PyNone else res d | _ \<Rightarrow> y)"

definition ic_takes :: "'v df_value \<Rightarrow> nat list \<Rightarrow> nat list" where
  "ic_takes y taken = (case y of Ref d \<Rightarrow> d # taken | _ \<Rightarrow> taken)"

fun ic_direct :: "('g, 'v) generator \<Rightarrow> (nat \<Rightarrow> 'v df_value) \<Rightarrow> nat \<Rightarrow> nat list \<Rightarrow> 'v df_value \<Rightarrow> 'g \<Rightarrow> 'v df_value option" where
  "ic_direct gen res 0 taken result g = None"
| "ic_direct gen res (Suc n) taken result g =
     (let (g, step) = gen g result
      in case step of
           StopIteration v \<Rightarrow> Some v
         | DefGenReturn v \<Rightarrow> Some v
         | GenRaises e \<Rightarrow> Some (Failure e)
         | Yields y \<Rightarrow> ic_direct gen res n (ic_takes y taken) (ic_await res taken y) g)"

definition ic_agrees :: "(nat \<Rightarrow> 'v df_value) \<Rightarrow> 'v ready \<Rightarrow> bool" where
  "ic_agrees res ready \<longleftrightarrow> (\<forall>d r. ready d = Some r \<longrightarrow> r = res d)"

text \<open>What a stretch of the loop comes to: the end, or a Deferred to wait for, from where \<open>m\<close> yields are left.\<close>

definition ic_done :: "'v df_value \<Rightarrow> ('g, 'v) inline \<Rightarrow> ('g, 'v) inline \<Rightarrow> bool" where
  "ic_done out s t \<longleftrightarrow> ic_waitingFor t = None \<and> ic_raised t = (ic_raised s \<or> is_deferred out) \<and>
     ic_fired t = ic_fired s @ (if is_deferred out then [] else [out])"

definition ic_waits :: "('g, 'v) generator \<Rightarrow> (nat \<Rightarrow> 'v df_value) \<Rightarrow> nat \<Rightarrow> 'v df_value \<Rightarrow> ('g, 'v) inline \<Rightarrow> ('g, 'v) inline \<Rightarrow> bool" where
  "ic_waits gen res n out s t \<longleftrightarrow> (\<exists>d m. ic_waitingFor t = Some d \<and> m < n \<and> ic_direct gen res m (d # ic_taken t) (res d) (ic_gen t) = Some out \<and>
     ic_fired t = ic_fired s \<and> ic_raised t = ic_raised s)"

lemma ic_loop_stretch:
  assumes "ic_agrees res ready"
  shows "ic_direct gen res n (ic_taken s) result (ic_gen s) = Some out \<Longrightarrow> ic_waitingFor s = None \<Longrightarrow>
    \<exists>t. ic_loop gen ready result (True, w) s = Some t \<and> (ic_done out s t \<or> ic_waits gen res n out s t)"
proof (induction n arbitrary: result s w)
  case (Suc n)
  obtain g step where g: "gen (ic_gen s) result = (g, step)" by fastforce
  let ?s = "s\<lparr>ic_gen := g\<rparr>"
  show ?case
  proof (cases step)
    case (Yields y)
    have next_: "ic_direct gen res n (ic_takes y (ic_taken s)) (ic_await res (ic_taken s) y) g = Some out"
      using Suc.prems(1) g Yields by simp
    let ?t = "?s\<lparr>ic_taken := ic_takes y (ic_taken s)\<rparr>"
    have later: "\<exists>t. ic_loop gen ready result (True, w) s = Some t \<and> (ic_done out s t \<or> ic_waits gen res (Suc n) out s t)"
      if loop: "ic_loop gen ready result (True, w) s = ic_loop gen ready (ic_await res (ic_taken s) y) (True, w') ?t" for w'
    proof -
      have "\<exists>t. ic_loop gen ready (ic_await res (ic_taken s) y) (True, w') ?t = Some t \<and> (ic_done out ?t t \<or> ic_waits gen res n out ?t t)"
        by (rule Suc.IH) (use next_ Suc.prems(2) in simp_all)
      then show ?thesis by (auto simp: loop ic_done_def ic_waits_def)
    qed
    show ?thesis
    proof (cases "is_deferred y")
      case False
      with g Yields have "ic_loop gen ready result (True, w) s = ic_loop gen ready (ic_await res (ic_taken s) y) (True, w) ?t"
        by (subst ic_loop.simps) (cases y; simp add: ic_await_def ic_takes_def)
      then show ?thesis by (rule later)
    next
      case True
      then obtain d where Ref: "y = Ref d" by (cases y) simp_all
      show ?thesis
      proof (cases "ic_result ready (ic_taken s) d")
        case None
        then have "d \<notin> set (ic_taken s)" by (auto simp: ic_result_def split: if_splits)
        moreover from None g Yields Ref have "ic_loop gen ready result (True, w) s = Some (?s\<lparr>ic_waitingFor := Some d\<rparr>)"
          by (subst ic_loop.simps) (simp add: ic_addBoth_def)
        ultimately show ?thesis using next_ Ref by (auto simp: ic_waits_def ic_await_def ic_takes_def)
      next
        case (Some r)
        with assms have "r = ic_await res (ic_taken s) y"
          by (auto simp: ic_agrees_def ic_result_def ic_await_def Ref split: if_splits)
        with Some g Yields Ref have "ic_loop gen ready result (True, w) s = ic_loop gen ready (ic_await res (ic_taken s) y) (True, PyNone) ?t"
          by (subst ic_loop.simps) (simp add: ic_addBoth_def ic_takes_def)
        then show ?thesis by (rule later)
      qed
    qed
  qed (use Suc.prems g in \<open>subst ic_loop.simps, auto simp: ic_callback_def ic_errback_def ic_done_def\<close>)+
qed simp

lemma ic_resume_done: "ic_waitingFor s = None \<Longrightarrow> ic_resume gen res readies s = Some s"
  by (cases readies) simp_all

lemma ic_resume_ends:
  "\<forall>ready \<in> set readies. ic_agrees res ready \<Longrightarrow> ic_waitingFor s = Some d \<Longrightarrow>
     ic_direct gen res n (d # ic_taken s) (res d) (ic_gen s) = Some out \<Longrightarrow> n \<le> length readies \<Longrightarrow>
     \<exists>t. ic_resume gen res readies s = Some t \<and> ic_done out s t"
proof (induction n arbitrary: readies s d rule: less_induct)
  case (less n)
  show ?case
  proof (cases readies)
    case Nil
    with less.prems(3,4) show ?thesis by simp
  next
    case (Cons ready rest)
    let ?s = "s\<lparr>ic_waitingFor := None, ic_taken := d # ic_taken s\<rparr>"
    have "\<exists>t. ic_loop gen ready (res d) (True, PyNone) ?s = Some t \<and> (ic_done out ?s t \<or> ic_waits gen res n out ?s t)"
      using less.prems Cons by (intro ic_loop_stretch) simp_all
    then obtain t where t: "ic_loop gen ready (res d) (True, PyNone) ?s = Some t" "ic_done out ?s t \<or> ic_waits gen res n out ?s t" by blast
    have step: "ic_resume gen res readies s = ic_resume gen res rest t"
      using less.prems(2) t(1) by (simp add: Cons ic_gotResult_def ic_inlineCallbacks_def)
    from t(2) show ?thesis
    proof
      assume "ic_done out ?s t"
      with step ic_resume_done [of t] show ?thesis by (auto simp: ic_done_def)
    next
      assume "ic_waits gen res n out ?s t"
      then obtain d' m where w: "ic_waitingFor t = Some d'" "m < n" "ic_direct gen res m (d' # ic_taken t) (res d') (ic_gen t) = Some out"
        "ic_fired t = ic_fired s" "ic_raised t = ic_raised s" by (auto simp: ic_waits_def)
      have "m \<le> length rest" using w(2) less.prems(4) Cons by simp
      from less.IH [OF w(2) _ w(1,3) this] less.prems(1) Cons step w(4,5) show ?thesis by (auto simp: ic_done_def)
    qed
  qed
qed

lemma ic_init_fields [simp]:
  "ic_gen (ic_init g) = g" "ic_waitingFor (ic_init g) = None" "ic_fired (ic_init g) = []" "\<not> ic_raised (ic_init g)" "ic_taken (ic_init g) = []"
  by (simp_all add: ic_init_def)

text \<open>
  C9: \<open>inlineCallbacks\<close> runs sequential code.  When the generator, read as a program in which each
  \<open>yield\<close> of a Deferred stands for that Deferred's result (and for None when it was yielded before), ends within n yields, the decorated
  function does so as well, whichever of the Deferreds have their results when they are yielded and
  however long the others take: it never waits for ever, and the Deferred it returned is fired
  exactly once, with the value or failure the program ends with.  If that value is itself a
  Deferred, the returned Deferred is never fired and an AssertionError is raised instead.
\<close>
theorem inline_callbacks_sequential:
  assumes "\<forall>ready \<in> set readies. ic_agrees res ready" and "ic_direct gen res n [] PyNone g = Some out" and "n < length readies"
  shows "\<exists>s. ic_run gen res readies g = Some s \<and> ic_waitingFor s = None \<and>
    ic_fired s = (if is_deferred out then [] else [out]) \<and> ic_raised s = is_deferred out"
proof -
  obtain ready rest where readies: "readies = ready # rest" using assms(3) by (cases readies) auto
  have "\<exists>t. ic_loop gen ready PyNone (True, PyNone) (ic_init g) = Some t \<and> (ic_done out (ic_init g) t \<or> ic_waits gen res n out (ic_init g) t)"
    using assms readies by (intro ic_loop_stretch) simp_all
  then obtain t where t: "ic_loop gen ready PyNone (True, PyNone) (ic_init g) = Some t"
    "ic_done out (ic_init g) t \<or> ic_waits gen res n out (ic_init g) t" by blast
  have run: "ic_run gen res readies g = ic_resume gen res rest t" by (simp add: ic_run_def readies ic_inlineCallbacks_def t(1))
  from t(2) show ?thesis
  proof
    assume "ic_done out (ic_init g) t"
    with run ic_resume_done [of t] show ?thesis by (auto simp: ic_done_def)
  next
    assume "ic_waits gen res n out (ic_init g) t"
    then obtain d m where w: "ic_waitingFor t = Some d" "m < n" "ic_direct gen res m (d # ic_taken t) (res d) (ic_gen t) = Some out"
      "ic_fired t = []" "\<not> ic_raised t" by (auto simp: ic_waits_def)
    have "m \<le> length rest" using w(2) assms(3) readies by simp
    from ic_resume_ends [OF _ w(1,3) this] assms(1) readies run w(4,5) show ?thesis by (auto simp: ic_done_def)
  qed
qed

text \<open>A generator that waits for two Deferreds and returns the result of the second.\<close>

definition ic_demo :: "(nat, nat) generator" where
  "ic_demo g v = (if g < 2 then (g + 1, Yields (Ref g)) else (g, DefGenReturn v))"

lemma inline_callbacks_sequential_witness:
  "\<exists>s. ic_run ic_demo (\<lambda>d. Val (d + 10)) [\<lambda>d. None, \<lambda>d. Some (Val (d + 10)), \<lambda>d. None, \<lambda>d. None] 0 = Some s \<and>
     ic_waitingFor s = None \<and> ic_fired s = [Val 11] \<and> \<not> ic_raised s"
  using inline_callbacks_sequential [of "[\<lambda>d. None, \<lambda>d. Some (Val (d + 10)), \<lambda>d. None, \<lambda>d. None]" "\<lambda>d. Val (d + 10)" ic_demo 3 0 "Val 11"]
  by (simp add: ic_agrees_def ic_demo_def ic_await_def ic_takes_def numeral_3_eq_3)

end
