(* ===== verification/HeapQueue.thy ===== *)
theory HeapQueue
  imports Main "HOL-Library.Multiset"
begin

text \<open>
  The binary heap in a list under the reactor's timers: \<open>heappush\<close>, \<open>heappop\<close> and
  \<open>heapify\<close> of Python's standard library module \<open>heapq\<close>, which
  \<open>twisted/internet/base.py\<close> calls, and the loop of \<open>_moveCallLaterSooner\<close>, which
  moves an element whose time has become smaller towards the root.  The elements are
  compared by a key that the caller can change between two calls, so each operation takes
  the key it compares with.  The locale \<open>timer_heap\<close> says what the timers rely on.
\<close>

section \<open>The operations\<close>

definition parent :: "nat \<Rightarrow> nat" where
  "parent i = (i - 1) div 2"

lemma parent_less: "0 < i \<Longrightarrow> parent i < i"
  by (auto simp: parent_def)

lemma parent_simps [simp]: "parent i < i \<longleftrightarrow> 0 < i" "parent i = i \<longleftrightarrow> i = 0" "i = parent i \<longleftrightarrow> i = 0"
  by (auto simp: parent_def)

lemma parent_le: "parent i \<le> i"
  by (auto simp: parent_def)

lemma parent_less_le [simp]: "i < n \<Longrightarrow> parent i < n"
  using parent_le [of i] by linarith

text \<open>\<open>heapq._siftdown\<close>: the element \<open>x\<close> at \<open>pos\<close> moves towards the root \<open>start\<close> of its subtree.\<close>

function siftdown :: "('a \<Rightarrow> 't :: linorder) \<Rightarrow> nat \<Rightarrow> 'a list \<Rightarrow> nat \<Rightarrow> 'a \<Rightarrow> 'a list" where
  "siftdown key start h pos x =
     (if start < pos \<and> key x < key (h ! parent pos)
      then siftdown key start (h[pos := h ! parent pos]) (parent pos) x
      else h[pos := x])"
  by pat_completeness auto
termination by (relation "measure (\<lambda>(key, start, h, pos, x). pos)") auto

text \<open>\<open>heapq._siftup\<close>: the smaller child moves up until the hole is a leaf.\<close>

definition smaller_child :: "('a \<Rightarrow> 't :: linorder) \<Rightarrow> 'a list \<Rightarrow> nat \<Rightarrow> nat" where
  "smaller_child key h pos =
     (let c = 2 * pos + 1 in if c + 1 < length h \<and> \<not> key (h ! c) < key (h ! (c + 1)) then c + 1 else c)"

function siftup :: "('a \<Rightarrow> 't :: linorder) \<Rightarrow> nat \<Rightarrow> 'a list \<Rightarrow> nat \<Rightarrow> 'a \<Rightarrow> 'a list" where
  "siftup key start h pos x =
     (if 2 * pos + 1 < length h
      then siftup key start (h[pos := h ! smaller_child key h pos]) (smaller_child key h pos) x
      else siftdown key start h pos x)"
  by pat_completeness auto
termination
  by (relation "measure (\<lambda>(key, start, h, pos, x). length h - pos)") (auto simp: smaller_child_def Let_def)

declare siftdown.simps [simp del] siftup.simps [simp del]

definition heappush :: "('a \<Rightarrow> 't :: linorder) \<Rightarrow> 'a list \<Rightarrow> 'a \<Rightarrow> 'a list" where
  "heappush key h x = siftdown key 0 (h @ [x]) (length h) x"

definition heappop :: "('a \<Rightarrow> 't :: linorder) \<Rightarrow> 'a list \<Rightarrow> 'a \<times> 'a list" where
  "heappop key h =
     (let lastelt = last h; h = butlast h
      in if h \<noteq> [] then (h ! 0, siftup key 0 (h[0 := lastelt]) 0 lastelt) else (lastelt, h))"

definition heapify :: "('a \<Rightarrow> 't :: linorder) \<Rightarrow> 'a list \<Rightarrow> 'a list" where
  "heapify key h = foldl (\<lambda>h i. siftup key i h i (h ! i)) h (rev [0..<length h div 2])"

text \<open>The loop of \<open>_moveCallLaterSooner\<close>, from the position of the element.\<close>

function move_up :: "('a \<Rightarrow> 't :: linorder) \<Rightarrow> 'a list \<Rightarrow> nat \<Rightarrow> 'a \<Rightarrow> 'a list" where
  "move_up key h pos elt =
     (if pos \<noteq> 0 then
        if key (h ! parent pos) \<le> key elt then h[pos := elt]
        else move_up key (h[pos := h ! parent pos]) (parent pos) elt
      else h[pos := elt])"
  by pat_completeness auto
termination by (relation "measure (\<lambda>(key, h, pos, elt). pos)") auto

declare move_up.simps [simp del]

section \<open>Heap order\<close>

text \<open>Every parent from \<open>s\<close> on is at most its children.\<close>

definition heap_from :: "('a \<Rightarrow> 't :: linorder) \<Rightarrow> nat \<Rightarrow> 'a list \<Rightarrow> bool" where
  "heap_from key s h \<longleftrightarrow> (\<forall>i < length h. 0 < i \<longrightarrow> s \<le> parent i \<longrightarrow> key (h ! parent i) \<le> key (h ! i))"

abbreviation is_heap :: "('a \<Rightarrow> 't :: linorder) \<Rightarrow> 'a list \<Rightarrow> bool" where
  "is_heap key h \<equiv> heap_from key 0 h"

text \<open>The same with a hole at \<open>pos\<close>: the pairs without the hole are in order, and so are its parent and its children.\<close>

definition heap_hole :: "('a \<Rightarrow> 't :: linorder) \<Rightarrow> nat \<Rightarrow> 'a list \<Rightarrow> nat \<Rightarrow> bool" where
  "heap_hole key s h pos \<longleftrightarrow>
     (\<forall>i < length h. 0 < i \<longrightarrow> s \<le> parent i \<longrightarrow> i \<noteq> pos \<longrightarrow> parent i \<noteq> pos \<longrightarrow> key (h ! parent i) \<le> key (h ! i)) \<and>
     (\<forall>i < length h. 0 < i \<longrightarrow> parent i = pos \<longrightarrow> s < pos \<longrightarrow> key (h ! parent pos) \<le> key (h ! i))"

lemma heap_holeD:
  assumes "heap_hole key s h pos" "i < length h" "0 < i"
  shows "s \<le> parent i \<Longrightarrow> i \<noteq> pos \<Longrightarrow> parent i \<noteq> pos \<Longrightarrow> key (h ! parent i) \<le> key (h ! i)"
    and "parent i = pos \<Longrightarrow> s < pos \<Longrightarrow> key (h ! parent pos) \<le> key (h ! i)"
  using assms by (auto simp: heap_hole_def)

inductive below :: "nat \<Rightarrow> nat \<Rightarrow> bool" for s where
  root: "below s s"
| child: "0 < i \<Longrightarrow> below s (parent i) \<Longrightarrow> below s i"

inductive_cases belowE: "below s i"

lemma below_le: "below s i \<Longrightarrow> s \<le> i"
  by (induction rule: below.induct) (auto intro: le_trans parent_le)

lemma below_parent: "below s i \<Longrightarrow> s < i \<Longrightarrow> below s (parent i)"
  by (erule belowE) auto

lemma below_zero: "below 0 i"
proof (induction i rule: less_induct)
  case (less i)
  then show ?case by (cases "i = 0") (auto intro: below.intros)
qed

lemma length_siftdown [simp]: "length (siftdown key s h pos x) = length h"
  by (induction key s h pos x rule: siftdown.induct) (simp add: siftdown.simps)

lemma length_siftup [simp]: "length (siftup key s h pos x) = length h"
  by (induction key s h pos x rule: siftup.induct) (simp add: siftup.simps)

lemma mset_hole: "i < length h \<Longrightarrow> j < length h \<Longrightarrow> mset (h[i := h ! j, j := x]) = mset (h[i := x])"
  by (cases "i = j") (simp_all add: mset_update nth_list_update add_mset_commute)

lemma mset_siftdown: "pos < length h \<Longrightarrow> mset (siftdown key s h pos x) = mset (h[pos := x])"
proof (induction key s h pos x rule: siftdown.induct)
  case (1 key s h pos x)
  have "parent pos < length h" using "1.prems" by (cases "pos = 0") (auto simp: parent_def)
  with 1 show ?case by (subst siftdown.simps) (auto simp: mset_hole)
qed

lemma smaller_child:
  assumes "2 * pos + 1 < length h"
  shows "smaller_child key h pos < length h" "parent (smaller_child key h pos) = pos" "pos < smaller_child key h pos"
    "i < length h \<Longrightarrow> 0 < i \<Longrightarrow> parent i = pos \<Longrightarrow> key (h ! smaller_child key h pos) \<le> key (h ! i)"
proof -
  show "smaller_child key h pos < length h" "parent (smaller_child key h pos) = pos" "pos < smaller_child key h pos"
    using assms by (auto simp: smaller_child_def Let_def parent_def)
  assume "i < length h" "0 < i" "parent i = pos"
  then have "i = 2 * pos + 1 \<or> i = 2 * pos + 2 \<and> 2 * pos + 2 < length h" unfolding parent_def by presburger
  then show "key (h ! smaller_child key h pos) \<le> key (h ! i)"
    by (auto simp: smaller_child_def Let_def)
qed

lemma mset_siftup: "pos < length h \<Longrightarrow> mset (siftup key s h pos x) = mset (h[pos := x])"
proof (induction key s h pos x rule: siftup.induct)
  case (1 key s h pos x)
  then show ?case
    using smaller_child(1) [of pos h key] by (subst siftup.simps) (auto simp: mset_siftdown mset_hole)
qed


lemma siftdown_heap:
  assumes "heap_hole key s h pos" "pos < length h" "below s pos"
    and "\<And>i. i < length h \<Longrightarrow> 0 < i \<Longrightarrow> parent i = pos \<Longrightarrow> key x \<le> key (h ! i)"
  shows "heap_from key s (siftdown key s h pos x)"
  using assms
proof (induction key s h pos x rule: siftdown.induct)
  case (1 key s h pos x)
  note hole = "1.prems"(1) [unfolded heap_hole_def]
  show ?case
  proof (cases "s < pos \<and> key x < key (h ! parent pos)")
    case True
    define p where "p = parent pos"
    have p: "p < pos" "p < length h" "below s p" "s \<le> p"
      using True "1.prems"(2,3) by (auto simp: p_def below_parent below_le intro: le_less_trans [OF parent_le])
    have le_p: "key (h ! p) \<le> key (h ! i)" if "i < length h" "0 < i" "parent i = p" "i \<noteq> pos" for i
      using hole that p by auto
    have up: "key (h ! parent p) \<le> key (h ! p)" if "s < p"
    proof -
      have "parent p < p" "s \<le> parent p" using that below_le [OF below_parent [OF p(3) that]] by auto
      with p that show ?thesis by (intro heap_holeD(1) [OF "1.prems"(1)]) linarith+
    qed
    have "heap_hole key s (h[pos := h ! p]) p"
      unfolding heap_hole_def
    proof (intro conjI allI impI)
      fix i
      assume "i < length (h[pos := h ! p])" "0 < i" "s \<le> parent i" "i \<noteq> p" "parent i \<noteq> p"
      then show "key (h[pos := h ! p] ! parent i) \<le> key (h[pos := h ! p] ! i)"
        using hole True p by (cases "parent i = pos"; cases "i = pos") (auto simp: p_def nth_list_update)
    next
      fix i
      assume "i < length (h[pos := h ! p])" "0 < i" "parent i = p" "s < p"
      then show "key (h[pos := h ! p] ! parent p) \<le> key (h[pos := h ! p] ! i)"
        using up le_p [of i] p parent_less [of p] "1.prems"(2) by (cases "i = pos") (auto simp: nth_list_update p_def intro: order_trans)
    qed
    moreover have "key x \<le> key (h[pos := h ! p] ! i)" if "i < length h" "0 < i" "parent i = p" for i
      using that le_p [of i] True by (cases "i = pos") (auto simp: p_def "1.prems"(2))
    ultimately show ?thesis
      using 1 True p by (subst siftdown.simps) (simp add: p_def del: parent_simps)
  next
    case False
    have "heap_from key s (h[pos := x])"
      unfolding heap_from_def
    proof (intro allI impI)
      fix i
      assume i: "i < length (h[pos := x])" "0 < i" "s \<le> parent i"
      consider "i = pos" | "parent i = pos" "i \<noteq> pos" | "i \<noteq> pos" "parent i \<noteq> pos" by blast
      then show "key (h[pos := x] ! parent i) \<le> key (h[pos := x] ! i)"
      proof cases
        case 1
        then have "0 < pos" "s \<le> parent pos" using i by simp_all
        then have "s < pos" "parent pos \<noteq> pos" using le_less_trans [OF _ parent_less] by auto
        with 1 i False show ?thesis by (simp add: not_less)
      next
        case 2
        then show ?thesis using i "1.prems"(2,4) by auto
      next
        case 3
        then show ?thesis using i hole by auto
      qed
    qed
    with False show ?thesis by (subst siftdown.simps) auto
  qed
qed

lemma siftup_heap:
  assumes "heap_hole key s h pos" "pos < length h" "below s pos"
  shows "heap_from key s (siftup key s h pos x)"
  using assms
proof (induction key s h pos x rule: siftup.induct)
  case (1 key s h pos x)
  note hole = "1.prems"(1) [unfolded heap_hole_def]
  show ?case
  proof (cases "2 * pos + 1 < length h")
    case True
    define c where "c = smaller_child key h pos"
    note c = smaller_child [OF True, where key = key, folded c_def]
    have up: "key (h ! parent pos) \<le> key (h ! c)" if "s \<le> parent pos" "0 < pos"
    proof -
      have "s < pos" using that(1) parent_less [OF that(2)] by (rule le_less_trans)
      with c show ?thesis by (intro heap_holeD(2) [OF "1.prems"(1)]) auto
    qed
    have "heap_hole key s (h[pos := h ! c]) c"
      unfolding heap_hole_def
    proof (intro conjI allI impI)
      fix i
      assume i: "i < length (h[pos := h ! c])" "0 < i" "s \<le> parent i" "i \<noteq> c" "parent i \<noteq> c"
      then show "key (h[pos := h ! c] ! parent i) \<le> key (h[pos := h ! c] ! i)"
        using hole c parent_less [of i] "1.prems"(2) up by (cases "i = pos"; cases "parent i = pos") auto
    next
      fix i
      assume i: "i < length (h[pos := h ! c])" "0 < i" "parent i = c" "s < c"
      then have "i \<noteq> pos" "s \<le> c" using c parent_less [of i] by auto
      with i c hole "1.prems"(2) show "key (h[pos := h ! c] ! parent c) \<le> key (h[pos := h ! c] ! i)" by auto
    qed
    moreover have "below s c" using c(2,3) "1.prems"(3) by (metis below.child gr_implies_not0 not_gr_zero)
    ultimately show ?thesis
      using 1 True c by (subst siftup.simps) (simp add: c_def)
  next
    case False
    have "heap_from key s (siftdown key s h pos x)"
      by (rule siftdown_heap [OF "1.prems"]) (use False in \<open>auto simp: parent_def\<close>)
    with False show ?thesis by (subst siftup.simps) simp
  qed
qed

lemma heap_root_least: "is_heap key h \<Longrightarrow> i < length h \<Longrightarrow> key (h ! 0) \<le> key (h ! i)"
proof (induction i rule: less_induct)
  case (less i)
  show ?case
  proof (cases "i = 0")
    case False
    then have "key (h ! parent i) \<le> key (h ! i)" using less.prems by (simp add: heap_from_def)
    moreover have "key (h ! 0) \<le> key (h ! parent i)"
      using less.IH [of "parent i"] less.prems False le_less_trans [OF parent_le less.prems(2)] by simp
    ultimately show ?thesis by (rule order_trans [rotated])
  qed simp
qed

lemma heap_hole_Suc: "heap_from key (Suc s) h \<Longrightarrow> heap_hole key s h s"
  by (auto simp: heap_from_def heap_hole_def Suc_le_eq le_less)

lemma heap_hole_append: "is_heap key h \<Longrightarrow> heap_hole key 0 (h @ [x]) (length h)"
  unfolding heap_hole_def
proof (intro conjI allI impI)
  fix i
  assume "is_heap key h" "i < length (h @ [x])" "0 < i" "i \<noteq> length h"
  then show "key ((h @ [x]) ! parent i) \<le> key ((h @ [x]) ! i)"
    using parent_less [of i] by (simp add: heap_from_def nth_append)
next
  fix i
  assume "i < length (h @ [x])" "0 < i" "parent i = length h"
  then show "key ((h @ [x]) ! parent (length h)) \<le> key ((h @ [x]) ! i)"
    using parent_less [of i] by simp
qed

lemma heap_hole_root: "is_heap key (g @ [l]) \<Longrightarrow> heap_hole key 0 (g[0 := x]) 0"
  unfolding heap_hole_def
proof (intro conjI allI impI)
  fix i
  assume heap: "is_heap key (g @ [l])" and i: "i < length (g[0 := x])" "0 < i" "i \<noteq> 0" "parent i \<noteq> 0"
  have "parent i < length g" using i parent_less [of i] by simp
  moreover have "key ((g @ [l]) ! parent i) \<le> key ((g @ [l]) ! i)" using heap i by (simp add: heap_from_def)
  ultimately show "key (g[0 := x] ! parent i) \<le> key (g[0 := x] ! i)" using i by (simp add: nth_append)
qed simp

lemma heappush_heap: "is_heap key h \<Longrightarrow> is_heap key (heappush key h x)"
  unfolding heappush_def
  by (rule siftdown_heap) (auto simp: heap_hole_append below_zero less_Suc_eq dest: parent_less)

lemma mset_heappush: "mset (heappush key h x) = add_mset x (mset h)"
  by (simp add: heappush_def mset_siftdown)

lemma heappop_heap:
  assumes "is_heap key h" "h \<noteq> []"
  shows "fst (heappop key h) = h ! 0 \<and> is_heap key (snd (heappop key h)) \<and>
    mset h = add_mset (h ! 0) (mset (snd (heappop key h)))"
proof -
  obtain g l where h: "h = g @ [l]" using assms(2) by (cases h rule: rev_cases) auto
  show ?thesis
  proof (cases g)
    case Nil
    with h show ?thesis by (simp add: heappop_def heap_from_def)
  next
    case (Cons a as)
    have "heap_hole key 0 (g[0 := l]) 0"
      using assms(1) h by (simp add: heap_hole_root)
    then have "is_heap key (siftup key 0 (g[0 := l]) 0 l)"
      by (rule siftup_heap) (auto simp: Cons below_zero)
    with Cons show ?thesis by (simp add: heappop_def h mset_siftup)
  qed
qed

lemma heapify_heap: "is_heap key (heapify key h) \<and> mset (heapify key h) = mset h"
proof -
  have "heap_from key 0 (foldl (\<lambda>h i. siftup key i h i (h ! i)) g (rev [0..<m])) \<and>
    mset (foldl (\<lambda>h i. siftup key i h i (h ! i)) g (rev [0..<m])) = mset g"
    if "heap_from key m g" "m \<le> length g div 2" for m g
    using that
  proof (induction m arbitrary: g)
    case (Suc m)
    have m: "m < length g" using Suc.prems(2) by simp
    have "heap_from key m (siftup key m g m (g ! m))"
      by (rule siftup_heap [OF heap_hole_Suc [OF Suc.prems(1)] m below.root])
    with Suc m show ?case by (simp add: mset_siftup)
  qed simp
  moreover have "heap_from key (length h div 2) h" by (auto simp: heap_from_def parent_def)
  ultimately show ?thesis by (simp add: heapify_def)
qed


lemma move_up_siftdown: "move_up key h pos x = siftdown key 0 h pos x"
proof (induction key h pos x rule: move_up.induct)
  case (1 key h pos x)
  then show ?case by (subst move_up.simps, subst siftdown.simps) (auto simp: not_le)
qed

lemma move_up_heap:
  assumes "is_heap key h" "distinct h" "pos < length h" "k \<le> key (h ! pos)"
  shows "is_heap (key(h ! pos := k)) (move_up (key(h ! pos := k)) h pos (h ! pos)) \<and>
    mset (move_up (key(h ! pos := k)) h pos (h ! pos)) = mset h"
proof -
  let ?key = "key(h ! pos := k)"
  have other: "?key (h ! i) = key (h ! i)" if "i < length h" "i \<noteq> pos" for i
    using that assms(2,3) by (simp add: nth_eq_iff_index_eq)
  have le: "?key (h ! pos) \<le> key (h ! i)" if "i < length h" "0 < i" "parent i = pos" for i
    using that assms(1,4) by (fastforce simp: heap_from_def intro: order_trans)
  have hole: "heap_hole ?key 0 h pos"
    unfolding heap_hole_def
  proof (intro conjI allI impI)
    fix i assume i: "i < length h" "0 < i" "i \<noteq> pos" "parent i \<noteq> pos"
    then have "?key (h ! parent i) = key (h ! parent i)" "?key (h ! i) = key (h ! i)" by (intro other; simp)+
    with i show "?key (h ! parent i) \<le> ?key (h ! i)" using assms(1) by (simp only: heap_from_def)
  next
    fix i assume i: "i < length h" "0 < i" "parent i = pos" "0 < pos"
    then have "parent pos \<noteq> pos" "i \<noteq> pos" by auto
    moreover have "key (h ! parent pos) \<le> key (h ! pos)" "key (h ! pos) \<le> key (h ! i)"
      using assms(1,3) i by (auto simp: heap_from_def)
    ultimately show "?key (h ! parent pos) \<le> ?key (h ! i)"
      using i assms(3) other [of "parent pos"] other [of i] by (metis order_trans parent_less_le)
  qed
  have "is_heap ?key (siftdown ?key 0 h pos (h ! pos))"
  proof (rule siftdown_heap [OF hole assms(3) below_zero])
    fix i assume i: "i < length h" "0 < i" "parent i = pos"
    then have "i \<noteq> pos" using parent_less [of i] by auto
    with le [OF i] other [OF i(1)] show "?key (h ! pos) \<le> ?key (h ! i)" by (simp only: not_False_eq_True simp_thms)
  qed
  then show ?thesis by (simp add: move_up_siftdown mset_siftdown assms(3))
qed

section \<open>What the timers rely on\<close>

locale timer_heap =
  fixes valid :: "('a \<Rightarrow> 't :: linorder) \<Rightarrow> 'a list \<Rightarrow> bool"
    and push :: "('a \<Rightarrow> 't) \<Rightarrow> 'a list \<Rightarrow> 'a \<Rightarrow> 'a list"
    and pop :: "('a \<Rightarrow> 't) \<Rightarrow> 'a list \<Rightarrow> 'a \<times> 'a list"
    and build :: "('a \<Rightarrow> 't) \<Rightarrow> 'a list \<Rightarrow> 'a list"
    and sooner :: "('a \<Rightarrow> 't) \<Rightarrow> 'a list \<Rightarrow> nat \<Rightarrow> 'a \<Rightarrow> 'a list"
  assumes valid_Nil: "valid key []"
    and valid_cong: "(\<And>x. x \<in> set h \<Longrightarrow> key x = key' x) \<Longrightarrow> valid key h = valid key' h"
    and valid_first: "valid key h \<Longrightarrow> x \<in> set h \<Longrightarrow> key (h ! 0) \<le> key x"
    and valid_push: "valid key h \<Longrightarrow> valid key (push key h x)"
    and mset_push: "mset (push key h x) = add_mset x (mset h)"
    and pop_first: "valid key h \<Longrightarrow> h \<noteq> [] \<Longrightarrow> fst (pop key h) = h ! 0"
    and valid_pop: "valid key h \<Longrightarrow> h \<noteq> [] \<Longrightarrow> valid key (snd (pop key h))"
    and mset_pop: "valid key h \<Longrightarrow> h \<noteq> [] \<Longrightarrow> mset h = add_mset (h ! 0) (mset (snd (pop key h)))"
    and valid_build: "valid key (build key h)"
    and mset_build: "mset (build key h) = mset h"
    and valid_sooner: "valid key h \<Longrightarrow> distinct h \<Longrightarrow> i < length h \<Longrightarrow> k \<le> key (h ! i) \<Longrightarrow>
      valid (key(h ! i := k)) (sooner (key(h ! i := k)) h i (h ! i))"
    and mset_sooner: "valid key h \<Longrightarrow> distinct h \<Longrightarrow> i < length h \<Longrightarrow> k \<le> key (h ! i) \<Longrightarrow>
      mset (sooner (key(h ! i := k)) h i (h ! i)) = mset h"
begin

lemma set_push: "set (push key h x) = insert x (set h)"
  using arg_cong [OF mset_push [of key h x], of set_mset] by simp

lemma distinct_push: "distinct (push key h x) \<longleftrightarrow> x \<notin> set h \<and> distinct h"
  using mset_eq_imp_distinct_iff [of "push key h x" "x # h"] mset_push [of key h x] by simp

lemma mset_first_pop: "valid key h \<Longrightarrow> h \<noteq> [] \<Longrightarrow> mset h = mset (h ! 0 # snd (pop key h))"
  using mset_pop by simp

lemma set_pop: "valid key h \<Longrightarrow> h \<noteq> [] \<Longrightarrow> set h = insert (h ! 0) (set (snd (pop key h)))"
  using mset_eq_setD [OF mset_first_pop] by simp

lemma distinct_pop: "valid key h \<Longrightarrow> h \<noteq> [] \<Longrightarrow> distinct h \<Longrightarrow> distinct (snd (pop key h)) \<and> h ! 0 \<notin> set (snd (pop key h))"
  using mset_eq_imp_distinct_iff [OF mset_first_pop] by simp

lemma length_pop: "valid key h \<Longrightarrow> h \<noteq> [] \<Longrightarrow> length h = Suc (length (snd (pop key h)))"
  using mset_eq_length [OF mset_first_pop] by simp

lemma set_build: "set (build key h) = set h"
  using mset_eq_setD [OF mset_build] .

lemma distinct_build: "distinct (build key h) = distinct h"
  using mset_eq_imp_distinct_iff [OF mset_build] .

lemma nothing_due: "valid key h \<Longrightarrow> (h = [] \<or> now < key (h ! 0)) \<longleftrightarrow> (\<forall>x \<in> set h. now < key x)"
  using valid_first by (metis empty_iff le_less_trans not_le length_greater_0_conv less_le_trans list.set(1) nth_mem)

end

interpretation hq: timer_heap is_heap heappush heappop heapify move_up
proof unfold_locales
  fix key :: "'a \<Rightarrow> 't :: linorder" and h :: "'a list" and x :: 'a
  show "is_heap key []" by (simp add: heap_from_def)
  show "is_heap key h \<Longrightarrow> x \<in> set h \<Longrightarrow> key (h ! 0) \<le> key x"
    by (metis heap_root_least in_set_conv_nth)
  show "is_heap key h = is_heap key' h" if "\<And>x. x \<in> set h \<Longrightarrow> key x = key' x" for key'
  proof -
    have "key (h ! i) = key' (h ! i)" if "i < length h" for i using that \<open>\<And>x. x \<in> set h \<Longrightarrow> key x = key' x\<close> by simp
    then show ?thesis by (simp add: heap_from_def)
  qed
qed (simp_all add: heappush_heap mset_heappush heappop_heap heapify_heap move_up_heap)

end
