(* ===== verification/Timers.thy ===== *)
theory Timers
  imports Prelude Complex_Main "HOL-Library.Sublist"
begin

text \<open>
  \<open>DelayedCall\<close> of \<open>twisted/internet/base.py\<close> and \<open>Clock\<close> of
  \<open>twisted/internet/task.py\<close>.  A \<open>DelayedCall\<close> is an object its creator and its owner
  both change, so it lives in a store, and its methods take the canceller and the
  resetter of the owner as the code does.  Time is an exact rational number of
  seconds: the rounding of floats is not modelled.  What a scheduled function does is a parameter:
  it reads the state, performs timer operations and returns or raises.
\<close>

type_synonym time = rat

section \<open>\<open>DelayedCall\<close>\<close>

record 'f delayed_call =
  dc_time :: time
  dc_delayed_time :: time
  dc_cancelled :: bool
  dc_called :: bool
  dc_func :: 'f

record 'f timers =
  tm_at :: "nat \<Rightarrow> 'f delayed_call"
  tm_made :: nat
  tm_now :: time

datatype timer_error = AlreadyCancelled | AlreadyCalled | ValueError | AssertionError | CallableRaised

definition dc_init :: "time \<Rightarrow> 'f \<Rightarrow> 'f delayed_call" where
  "dc_init t f = \<lparr> dc_time = t, dc_delayed_time = 0, dc_cancelled = False, dc_called = False, dc_func = f \<rparr>"

definition dc_getTime :: "'f delayed_call \<Rightarrow> time" where
  "dc_getTime c = dc_time c + dc_delayed_time c"

definition dc_active :: "'f delayed_call \<Rightarrow> bool" where
  "dc_active c \<longleftrightarrow> \<not> (dc_cancelled c \<or> dc_called c)"

definition dc_lt :: "'f delayed_call \<Rightarrow> 'f delayed_call \<Rightarrow> bool" where
  "dc_lt c d \<longleftrightarrow> dc_time c < dc_time d"

definition dc_le :: "'f delayed_call \<Rightarrow> 'f delayed_call \<Rightarrow> bool" where
  "dc_le c d \<longleftrightarrow> dc_time c \<le> dc_time d"

definition dc_activate_delay :: "'f delayed_call \<Rightarrow> 'f delayed_call" where
  "dc_activate_delay c = c\<lparr>dc_time := dc_time c + dc_delayed_time c, dc_delayed_time := 0\<rparr>"

definition tm_upd :: "nat \<Rightarrow> ('f delayed_call \<Rightarrow> 'f delayed_call) \<Rightarrow> ('f, 'z) timers_scheme \<Rightarrow> ('f, 'z) timers_scheme" where
  "tm_upd i g s = s\<lparr>tm_at := (tm_at s)(i := g (tm_at s i))\<rparr>"

definition tm_time :: "('f, 'z) timers_scheme \<Rightarrow> nat \<Rightarrow> time" where
  "tm_time s i = dc_getTime (tm_at s i)"

definition dc_checked ::
    "nat \<Rightarrow> (('f, 'z) timers_scheme \<Rightarrow> (timer_error, ('f, 'z) timers_scheme) outcome) \<Rightarrow>
     ('f, 'z) timers_scheme \<Rightarrow> (timer_error, ('f, 'z) timers_scheme) outcome" where
  "dc_checked i act s =
     (if dc_cancelled (tm_at s i) then Exc AlreadyCancelled s
      else if dc_called (tm_at s i) then Exc AlreadyCalled s
      else act s)"

definition dc_cancel ::
    "(nat \<Rightarrow> ('f, 'z) timers_scheme \<Rightarrow> (timer_error, ('f, 'z) timers_scheme) outcome) \<Rightarrow> nat \<Rightarrow>
     ('f, 'z) timers_scheme \<Rightarrow> (timer_error, ('f, 'z) timers_scheme) outcome" where
  "dc_cancel canceller i =
     dc_checked i (\<lambda>s. and_then (canceller i s) (\<lambda>s. Ok (tm_upd i (\<lambda>c. c\<lparr>dc_cancelled := True\<rparr>) s)))"

definition dc_reset ::
    "(nat \<Rightarrow> ('f, 'z) timers_scheme \<Rightarrow> ('f, 'z) timers_scheme) \<Rightarrow> nat \<Rightarrow> time \<Rightarrow>
     ('f, 'z) timers_scheme \<Rightarrow> (timer_error, ('f, 'z) timers_scheme) outcome" where
  "dc_reset resetter i secondsFromNow =
     dc_checked i (\<lambda>s.
       let newTime = tm_now s + secondsFromNow
       in if newTime < dc_time (tm_at s i)
          then Ok (resetter i (tm_upd i (\<lambda>c. c\<lparr>dc_delayed_time := 0, dc_time := newTime\<rparr>) s))
          else Ok (tm_upd i (\<lambda>c. c\<lparr>dc_delayed_time := newTime - dc_time c\<rparr>) s))"

definition dc_delay ::
    "(nat \<Rightarrow> ('f, 'z) timers_scheme \<Rightarrow> ('f, 'z) timers_scheme) \<Rightarrow> nat \<Rightarrow> time \<Rightarrow>
     ('f, 'z) timers_scheme \<Rightarrow> (timer_error, ('f, 'z) timers_scheme) outcome" where
  "dc_delay resetter i secondsLater =
     dc_checked i (\<lambda>s.
       let s = tm_upd i (\<lambda>c. c\<lparr>dc_delayed_time := dc_delayed_time c + secondsLater\<rparr>) s
       in if dc_delayed_time (tm_at s i) < 0 then Ok (resetter i (tm_upd i dc_activate_delay s)) else Ok s)"

text \<open>What a scheduled function can do to the timers, and whether it raises at the end.\<close>

datatype 'f timer_op = CallLater time 'f | CancelCall nat | ResetCall nat time | DelayCall nat time

type_synonym ('f, 's) behaviour = "'f \<Rightarrow> 's \<Rightarrow> 'f timer_op list \<times> bool"

lemma dc_getTime_simps [simp]:
  "dc_getTime (dc_init t f) = t"
  "dc_getTime (dc_activate_delay c) = dc_getTime c"
  "dc_getTime (c\<lparr>dc_cancelled := b\<rparr>) = dc_getTime c"
  "dc_getTime (c\<lparr>dc_called := b\<rparr>) = dc_getTime c"
  "dc_getTime (c\<lparr>dc_delayed_time := u - dc_time c\<rparr>) = u"
  "dc_getTime (c\<lparr>dc_delayed_time := dc_delayed_time c + x\<rparr>) = dc_getTime c + x"
  "dc_getTime (c\<lparr>dc_delayed_time := 0, dc_time := u\<rparr>) = u"
  by (simp_all add: dc_getTime_def dc_init_def dc_activate_delay_def)

lemma dc_active_simps [simp]:
  "dc_active (dc_init t f)"
  "dc_active (dc_activate_delay c) = dc_active c"
  "\<not> dc_active (c\<lparr>dc_cancelled := True\<rparr>)"
  "\<not> dc_active (c\<lparr>dc_called := True\<rparr>)"
  "dc_active (c\<lparr>dc_delayed_time := u\<rparr>) = dc_active c"
  "dc_active (c\<lparr>dc_time := u\<rparr>) = dc_active c"
  by (simp_all add: dc_active_def dc_init_def dc_activate_delay_def)

lemma tm_upd_simps [simp]:
  "tm_at (tm_upd i g s) = (tm_at s)(i := g (tm_at s i))"
  "tm_made (tm_upd i g s) = tm_made s"
  "tm_now (tm_upd i g s) = tm_now s"
  "timers.more (tm_upd i g s) = timers.more s"
  by (simp_all add: tm_upd_def)

lemma dc_checked_active: "dc_checked i act s = act s" if "dc_active (tm_at s i)"
  using that by (simp add: dc_checked_def dc_active_def)

lemma dc_checked_inactive: "\<not> dc_active (tm_at s i) \<Longrightarrow> state_of (dc_checked i act s) = s"
  by (auto simp: dc_checked_def dc_active_def)

section \<open>\<open>Clock\<close>\<close>

text \<open>\<open>clk_ran\<close> records the calls that have been made, in order.\<close>

record 'f clock = "'f timers" +
  clk_calls :: "nat list"
  clk_ran :: "nat list"

definition clk_init :: "'f delayed_call \<Rightarrow> 'f clock" where
  "clk_init c = \<lparr> tm_at = \<lambda>i. c, tm_made = 0, tm_now = 0, clk_calls = [], clk_ran = [] \<rparr>"

definition clk_sortCalls :: "'f clock \<Rightarrow> 'f clock" where
  "clk_sortCalls s = s\<lparr>clk_calls := sort_key (tm_time s) (clk_calls s)\<rparr>"

definition clk_callLater :: "time \<Rightarrow> 'f \<Rightarrow> 'f clock \<Rightarrow> nat \<times> 'f clock" where
  "clk_callLater when f s =
     (let i = tm_made s
      in (i, clk_sortCalls (s\<lparr>tm_at := (tm_at s)(i := dc_init (tm_now s + when) f), tm_made := i + 1,
                              clk_calls := clk_calls s @ [i]\<rparr>)))"

definition clk_canceller :: "nat \<Rightarrow> 'f clock \<Rightarrow> (timer_error, 'f clock) outcome" where
  "clk_canceller i s =
     (if i \<in> set (clk_calls s) then Ok (s\<lparr>clk_calls := remove1 i (clk_calls s)\<rparr>) else Exc ValueError s)"

definition clk_resetter :: "nat \<Rightarrow> 'f clock \<Rightarrow> 'f clock" where
  "clk_resetter i s = s"

text \<open>A function holds only handles of calls that have been made.\<close>

fun clk_op :: "'f timer_op \<Rightarrow> 'f clock \<Rightarrow> (timer_error, 'f clock) outcome" where
  "clk_op (CallLater when f) s = Ok (snd (clk_callLater when f s))"
| "clk_op (CancelCall i) s = (if i < tm_made s then dc_cancel clk_canceller i s else Ok s)"
| "clk_op (ResetCall i t) s = (if i < tm_made s then dc_reset clk_resetter i t s else Ok s)"
| "clk_op (DelayCall i t) s = (if i < tm_made s then dc_delay clk_resetter i t s else Ok s)"

definition clk_perform :: "'f timer_op list \<Rightarrow> 'f clock \<Rightarrow> 'f clock" where
  "clk_perform ops s = fold (\<lambda>p s. state_of (clk_op p s)) ops s"

definition clk_due :: "'f clock \<Rightarrow> bool" where
  "clk_due s \<longleftrightarrow> clk_calls s \<noteq> [] \<and> tm_time s (hd (clk_calls s)) \<le> tm_now s"

text \<open>One round of the loop of \<open>advance\<close>, up to the call of the function.\<close>

definition clk_call :: "('f, 'f clock) behaviour \<Rightarrow> 'f clock \<Rightarrow> (timer_error, 'f clock) outcome" where
  "clk_call beh s =
     (let i = hd (clk_calls s);
          s = tm_upd i (\<lambda>c. c\<lparr>dc_called := True\<rparr>) (s\<lparr>clk_calls := tl (clk_calls s), clk_ran := clk_ran s @ [i]\<rparr>)
      in case beh (dc_func (tm_at s i)) s of (ops, raises) \<Rightarrow>
           if raises then Exc CallableRaised (clk_perform ops s) else Ok (clk_perform ops s))"

partial_function (option) clk_loop ::
    "('f, 'f clock) behaviour \<Rightarrow> 'f clock \<Rightarrow> (timer_error, 'f clock) outcome option" where
  "clk_loop beh s =
     (if clk_due s
      then case clk_call beh s of Exc e t \<Rightarrow> Some (Exc e t) | Ok t \<Rightarrow> clk_loop beh (clk_sortCalls t)
      else Some (Ok s))"

definition clk_advance :: "('f, 'f clock) behaviour \<Rightarrow> time \<Rightarrow> 'f clock \<Rightarrow> (timer_error, 'f clock) outcome option" where
  "clk_advance beh amount s = clk_loop beh (clk_sortCalls (s\<lparr>tm_now := tm_now s + amount\<rparr>))"

fun clk_pump :: "('f, 'f clock) behaviour \<Rightarrow> time list \<Rightarrow> 'f clock \<Rightarrow> (timer_error, 'f clock) outcome option" where
  "clk_pump beh [] s = Some (Ok s)"
| "clk_pump beh (amount # timings) s =
     (case clk_advance beh amount s of
        Some (Ok t) \<Rightarrow> clk_pump beh timings t
      | r \<Rightarrow> r)"

declare clk_loop.simps [code]

section \<open>Invariant: the list holds the calls that are still to be made\<close>

definition clk_inv :: "'f clock \<Rightarrow> bool" where
  "clk_inv s \<longleftrightarrow> distinct (clk_calls s) \<and> (\<forall>i. i \<in> set (clk_calls s) \<longleftrightarrow> i < tm_made s \<and> dc_active (tm_at s i)) \<and>
     distinct (clk_ran s) \<and> (\<forall>i. i \<in> set (clk_ran s) \<longleftrightarrow> i < tm_made s \<and> dc_called (tm_at s i))"

lemma clk_sort_simps [simp]:
  "tm_at (clk_sortCalls s) = tm_at s" "tm_made (clk_sortCalls s) = tm_made s" "tm_now (clk_sortCalls s) = tm_now s"
  "clk_ran (clk_sortCalls s) = clk_ran s" "set (clk_calls (clk_sortCalls s)) = set (clk_calls s)"
  "distinct (clk_calls (clk_sortCalls s)) = distinct (clk_calls s)"
  "tm_time (clk_sortCalls s) = tm_time s" "tm_time (s\<lparr>clk_calls := cs\<rparr>) = tm_time (s :: 'f clock)" "tm_time (s\<lparr>tm_now := u\<rparr>) = tm_time s"
  by (simp_all add: clk_sortCalls_def tm_time_def fun_eq_iff)

lemma clk_inv_sort [simp]: "clk_inv (clk_sortCalls s) = clk_inv s"
  by (simp add: clk_inv_def)

lemma clk_inv_init: "clk_inv (clk_init c)"
  by (simp add: clk_inv_def clk_init_def)


section \<open>The agenda: what every owner of timers promises\<close>

text \<open>The calls still to be made, each with its time and its function.\<close>

type_synonym 'f agenda = "nat \<Rightarrow> (time \<times> 'f) option"

definition tm_agenda :: "('f, 'z) timers_scheme \<Rightarrow> 'f agenda" where
  "tm_agenda s i = (if i < tm_made s \<and> dc_active (tm_at s i) then Some (tm_time s i, dc_func (tm_at s i)) else None)"

fun ag_op :: "time \<Rightarrow> 'f timer_op \<Rightarrow> nat \<times> 'f agenda \<Rightarrow> nat \<times> 'f agenda" where
  "ag_op now (CallLater w f) (n, a) = (n + 1, a(n \<mapsto> (now + w, f)))"
| "ag_op now (CancelCall i) (n, a) = (n, a(i := None))"
| "ag_op now (ResetCall i t) (n, a) = (n, a(i := map_option (\<lambda>(u, f). (now + t, f)) (a i)))"
| "ag_op now (DelayCall i t) (n, a) = (n, a(i := map_option (\<lambda>(u, f). (u + t, f)) (a i)))"

definition ag_due :: "time \<Rightarrow> 'f agenda \<Rightarrow> nat set" where
  "ag_due now a = {i. \<exists>u f. a i = Some (u, f) \<and> u \<le> now}"

text \<open>An operation that makes nothing due that was not due.\<close>

fun forward :: "'f timer_op \<Rightarrow> bool" where
  "forward (CallLater w f) \<longleftrightarrow> 0 < w"
| "forward (CancelCall i) \<longleftrightarrow> True"
| "forward (ResetCall i t) \<longleftrightarrow> 0 < t"
| "forward (DelayCall i t) \<longleftrightarrow> 0 \<le> t"

lemma ag_due_forward: "forward p \<Longrightarrow> ag_due now (snd (ag_op now p (n, a))) \<subseteq> ag_due now a"
  by (cases p) (auto simp: ag_due_def)

lemma tm_agenda_upd_inactive:
  "\<not> dc_active (g (tm_at s i)) \<Longrightarrow> tm_agenda (tm_upd i g s) = (tm_agenda s)(i := None)"
  by (auto simp: tm_agenda_def tm_time_def fun_eq_iff)

lemma tm_agenda_upd_time:
  "i < tm_made s \<Longrightarrow> dc_active (tm_at s i) \<Longrightarrow> dc_active (g (tm_at s i)) \<Longrightarrow> dc_func (g (tm_at s i)) = dc_func (tm_at s i) \<Longrightarrow>
    tm_agenda (tm_upd i g s) = (tm_agenda s)(i \<mapsto> (dc_getTime (g (tm_at s i)), dc_func (tm_at s i)))"
  by (auto simp: tm_agenda_def tm_time_def fun_eq_iff)

lemma tm_agenda_None: "tm_agenda s i = None \<longleftrightarrow> \<not> (i < tm_made s \<and> dc_active (tm_at s i))"
  by (auto simp: tm_agenda_def)

lemma finite_ag_due: "finite (ag_due now (tm_agenda s))"
  by (rule finite_subset [of _ "{..<tm_made s}"]) (auto simp: ag_due_def tm_agenda_def split: if_splits)

locale timer_owner =
  fixes inv :: "('f, 'z) timers_scheme \<Rightarrow> bool"
    and oper :: "'f timer_op \<Rightarrow> ('f, 'z) timers_scheme \<Rightarrow> (timer_error, ('f, 'z) timers_scheme) outcome"
    and legal :: "'f timer_op \<Rightarrow> bool"
    and history :: "('f, 'z) timers_scheme \<Rightarrow> 'h"
  assumes op_inv: "inv s \<Longrightarrow> inv (state_of (oper p s))"
    and op_agenda: "inv s \<Longrightarrow> legal p \<Longrightarrow>
      (tm_made (state_of (oper p s)), tm_agenda (state_of (oper p s))) = ag_op (tm_now s) p (tm_made s, tm_agenda s)"
    and op_now: "tm_now (state_of (oper p s)) = tm_now s"
    and op_history: "history (state_of (oper p s)) = history s"
    and op_refused: "\<not> legal p \<Longrightarrow> oper p s = Exc AssertionError s"
    and op_later: "legal (CallLater w f) \<Longrightarrow> \<exists>t. oper (CallLater w f) s = Ok t"
    and op_error: "inv s \<Longrightarrow> legal p \<Longrightarrow> i < tm_made s \<Longrightarrow> p \<in> {CancelCall i, ResetCall i x, DelayCall i x} \<Longrightarrow>
      (case oper p s of Ok t \<Rightarrow> tm_agenda s i \<noteq> None | Exc e t \<Rightarrow> tm_agenda s i = None \<and> t = s \<and>
         e = (if dc_cancelled (tm_at s i) then AlreadyCancelled else AlreadyCalled))"
begin

definition perform :: "'f timer_op list \<Rightarrow> ('f, 'z) timers_scheme \<Rightarrow> ('f, 'z) timers_scheme" where
  "perform ops s = fold (\<lambda>p s. state_of (oper p s)) ops s"

lemma perform_inv: "inv s \<Longrightarrow> inv (perform ops s)"
  by (induction ops arbitrary: s) (simp_all add: perform_def op_inv)

lemma perform_now [simp]: "tm_now (perform ops s) = tm_now s"
  by (induction ops arbitrary: s) (simp_all add: perform_def op_now)

lemma perform_history [simp]: "history (perform ops s) = history s"
  by (induction ops arbitrary: s) (simp_all add: perform_def op_history)

lemma perform_agenda: "inv s \<Longrightarrow>
    (tm_made (perform ops s), tm_agenda (perform ops s)) = fold (ag_op (tm_now s)) (filter legal ops) (tm_made s, tm_agenda s)"
proof (induction ops arbitrary: s)
  case (Cons p ops)
  from Cons.IH [OF op_inv [OF Cons.prems, of p]] op_agenda [OF Cons.prems, of p] op_refused [of p s] show ?case
    by (cases "legal p") (simp_all add: perform_def op_now)
qed (simp add: perform_def)

lemma perform_forward:
  assumes "inv s" "list_all forward ops"
  shows "ag_due (tm_now s) (tm_agenda (perform ops s)) \<subseteq> ag_due (tm_now s) (tm_agenda s)"
  using assms
proof (induction ops arbitrary: s)
  case (Cons p ops)
  let ?t = "state_of (oper p s)"
  have "ag_due (tm_now s) (tm_agenda ?t) \<subseteq> ag_due (tm_now s) (tm_agenda s)"
    using ag_due_forward [of p "tm_now s" "tm_made s" "tm_agenda s"] Cons.prems op_agenda [OF Cons.prems(1), of p, symmetric]
      op_refused [of p s] by (cases "legal p") simp_all
  moreover have "ag_due (tm_now s) (tm_agenda (perform ops ?t)) \<subseteq> ag_due (tm_now s) (tm_agenda ?t)"
    using Cons.IH [OF op_inv [OF Cons.prems(1), of p]] Cons.prems(2) by (simp add: op_now)
  ultimately show ?case by (simp add: perform_def)
qed (simp add: perform_def)

end

section \<open>\<open>Clock\<close> is an owner of timers\<close>

lemma clk_callLater_agenda:
  "tm_agenda (snd (clk_callLater w f s)) = (tm_agenda s)(tm_made s \<mapsto> (tm_now s + w, f))"
  by (auto simp: clk_callLater_def Let_def clk_sortCalls_def tm_agenda_def tm_time_def fun_eq_iff less_Suc_eq) (simp_all add: dc_init_def)

lemma clk_callLater_simps [simp]:
  "tm_made (snd (clk_callLater w f s)) = tm_made s + 1" "tm_now (snd (clk_callLater w f s)) = tm_now s"
  "clk_ran (snd (clk_callLater w f s)) = clk_ran s"
  by (simp_all add: clk_callLater_def Let_def)

lemma dc_called_simps [simp]:
  "\<not> dc_called (dc_init t f)" "dc_called (dc_activate_delay c) = dc_called c" "dc_func (dc_init t f) = f"
  "dc_func (dc_activate_delay c) = dc_func c"
  by (simp_all add: dc_init_def dc_activate_delay_def)

lemma clk_inv_callLater: "clk_inv s \<Longrightarrow> clk_inv (snd (clk_callLater w f s))"
  unfolding clk_callLater_def Let_def snd_conv clk_inv_sort by (simp add: clk_inv_def less_Suc_eq)

lemma clk_cancel: "clk_inv s \<Longrightarrow> i < tm_made s \<Longrightarrow> dc_active (tm_at s i) \<Longrightarrow>
    dc_cancel clk_canceller i s = Ok (tm_upd i (\<lambda>c. c\<lparr>dc_cancelled := True\<rparr>) (s\<lparr>clk_calls := remove1 i (clk_calls s)\<rparr>))"
  by (simp add: dc_cancel_def dc_checked_active clk_canceller_def clk_inv_def)

lemma clk_upd_simps [simp]:
  "clk_calls (tm_upd i g s) = clk_calls s" "clk_ran (tm_upd i g s) = clk_ran s"
  by (simp_all add: tm_upd_def)

lemma clk_inv_upd:
  "clk_inv s \<Longrightarrow> dc_active (g (tm_at s i)) = dc_active (tm_at s i) \<Longrightarrow> dc_called (g (tm_at s i)) = dc_called (tm_at s i) \<Longrightarrow>
    clk_inv (tm_upd i g s)"
  by (simp add: clk_inv_def)

lemma clk_inv_cancel:
  assumes "clk_inv s"
  shows "clk_inv (tm_upd i (\<lambda>c. c\<lparr>dc_cancelled := True\<rparr>) (s\<lparr>clk_calls := remove1 i (clk_calls s)\<rparr>))"
  using assms by (simp add: clk_inv_def)

lemma clk_inv_op:
  assumes "clk_inv s"
  shows "clk_inv (state_of (clk_op p s))"
proof -
  have later: "clk_inv (snd (clk_callLater w f s))" for w f
    using assms by (rule clk_inv_callLater)
  have cancel: "clk_inv (state_of (dc_cancel clk_canceller i s))" if "i < tm_made s" for i
    using assms clk_cancel [OF assms that] clk_inv_cancel [OF assms, of i]
    by (cases "dc_active (tm_at s i)") (simp_all add: dc_cancel_def dc_checked_inactive)
  have reset: "clk_inv (state_of (dc_reset clk_resetter i t s))" for i t
    using assms by (cases "dc_active (tm_at s i)")
      (simp_all add: dc_reset_def dc_checked_inactive dc_checked_active Let_def clk_resetter_def clk_inv_upd)
  have delay: "clk_inv (state_of (dc_delay clk_resetter i t s))" for i t
    using assms by (cases "dc_active (tm_at s i)")
      (simp_all add: dc_delay_def dc_checked_inactive dc_checked_active Let_def clk_resetter_def clk_inv_upd)
  show ?thesis by (cases p) (simp_all add: later cancel reset delay assms)
qed


lemma clk_agenda_upd [simp]: "tm_agenda (s\<lparr>clk_calls := cs\<rparr>) = tm_agenda (s :: 'f clock)"
  "tm_agenda (s\<lparr>clk_ran := cs\<rparr>) = tm_agenda (s :: 'f clock)" "tm_agenda (clk_sortCalls s) = tm_agenda s"
  by (simp_all add: tm_agenda_def tm_time_def clk_sortCalls_def fun_eq_iff)

lemma tm_agenda_active: "i < tm_made s \<Longrightarrow> dc_active (tm_at s i) \<Longrightarrow> tm_agenda s i = Some (dc_getTime (tm_at s i), dc_func (tm_at s i))"
  by (simp add: tm_agenda_def tm_time_def)

lemma tm_agenda_inactive: "\<not> (i < tm_made s \<and> dc_active (tm_at s i)) \<Longrightarrow> tm_agenda s i = None"
  by (auto simp: tm_agenda_def)

lemma clk_op_agenda:
  assumes "clk_inv s"
  shows "(tm_made (state_of (clk_op p s)), tm_agenda (state_of (clk_op p s))) = ag_op (tm_now s) p (tm_made s, tm_agenda s)"
proof (cases p)
  case (CallLater w f)
  then show ?thesis by (simp add: clk_callLater_agenda)
next
  case (CancelCall i)
  then show ?thesis
    using clk_cancel [OF assms, of i]
    by (cases "i < tm_made s \<and> dc_active (tm_at s i)")
      (auto simp: tm_agenda_upd_inactive tm_agenda_inactive dc_cancel_def dc_checked_inactive fun_upd_idem)
next
  case (ResetCall i t)
  then show ?thesis
    by (cases "i < tm_made s \<and> dc_active (tm_at s i)")
      (auto simp: dc_reset_def dc_checked_active dc_checked_inactive Let_def clk_resetter_def
        tm_agenda_upd_time tm_agenda_active tm_agenda_inactive fun_upd_idem)
next
  case (DelayCall i t)
  then show ?thesis
    by (cases "i < tm_made s \<and> dc_active (tm_at s i)")
      (auto simp: dc_delay_def dc_checked_active dc_checked_inactive Let_def clk_resetter_def
        tm_agenda_upd_time tm_agenda_active tm_agenda_inactive fun_upd_idem)
qed

lemma clk_op_now: "tm_now (state_of (clk_op p s)) = tm_now s"
  by (cases p) (auto simp: dc_cancel_def dc_reset_def dc_delay_def dc_checked_def clk_canceller_def clk_resetter_def Let_def)

lemma clk_op_ran: "clk_ran (state_of (clk_op p s)) = clk_ran s"
  by (cases p) (auto simp: dc_cancel_def dc_reset_def dc_delay_def dc_checked_def clk_canceller_def clk_resetter_def Let_def)

lemma dc_checked_error:
  assumes "i < tm_made s" "dc_active (tm_at s i) \<Longrightarrow> \<exists>t. act s = Ok t"
  shows "case dc_checked i act s of Ok t \<Rightarrow> tm_agenda s i \<noteq> None | Exc e t \<Rightarrow> tm_agenda s i = None \<and> t = s \<and>
    e = (if dc_cancelled (tm_at s i) then AlreadyCancelled else AlreadyCalled)"
  using assms by (cases "dc_active (tm_at s i)") (auto simp: dc_checked_active tm_agenda_active tm_agenda_inactive dc_checked_def dc_active_def)

lemma clk_op_error:
  assumes "clk_inv s" "i < tm_made s" "p \<in> {CancelCall i, ResetCall i x, DelayCall i x}"
  shows "case clk_op p s of Ok t \<Rightarrow> tm_agenda s i \<noteq> None | Exc e t \<Rightarrow> tm_agenda s i = None \<and> t = s \<and>
    e = (if dc_cancelled (tm_at s i) then AlreadyCancelled else AlreadyCalled)"
proof -
  have "clk_op p s \<in> {dc_cancel clk_canceller i s, dc_reset clk_resetter i x s, dc_delay clk_resetter i x s}"
    using assms(2,3) by auto
  moreover have "dc_active (tm_at s i) \<Longrightarrow> \<exists>t. clk_canceller i s = Ok t"
    using assms by (simp add: clk_canceller_def clk_inv_def)
  ultimately show ?thesis
    unfolding dc_cancel_def dc_reset_def dc_delay_def
    by (elim insertE emptyE) (simp only:, rule dc_checked_error [OF assms(2)], force simp: Let_def)+
qed

interpretation clk: timer_owner clk_inv clk_op "\<lambda>p. True" clk_ran
  by unfold_locales (rule clk_inv_op clk_op_agenda clk_op_now clk_op_ran clk_op_error | simp)+

lemma clk_perform: "clk_perform = clk.perform"
  by (simp add: clk_perform_def clk.perform_def fun_eq_iff)

section \<open>The loop of \<open>advance\<close>\<close>

definition clk_popped :: "'f clock \<Rightarrow> 'f clock" where
  "clk_popped s = (let i = hd (clk_calls s) in
     tm_upd i (\<lambda>c. c\<lparr>dc_called := True\<rparr>) (s\<lparr>clk_calls := tl (clk_calls s), clk_ran := clk_ran s @ [i]\<rparr>))"

lemma clk_popped:
  assumes "clk_inv s" "clk_calls s = i # cs"
  shows "clk_inv (clk_popped s)" "tm_agenda (clk_popped s) = (tm_agenda s)(i := None)"
    "clk_ran (clk_popped s) = clk_ran s @ [i]" "tm_now (clk_popped s) = tm_now s"
proof -
  have i: "i < tm_made s" "dc_active (tm_at s i)" "\<not> dc_called (tm_at s i)"
    using assms by (auto simp: clk_inv_def dc_active_def)
  show "clk_inv (clk_popped s)"
    using assms i by (auto simp: clk_popped_def clk_inv_def)
  show "tm_agenda (clk_popped s) = (tm_agenda s)(i := None)"
    using assms(2) by (simp add: clk_popped_def tm_agenda_upd_inactive)
qed (simp_all add: clk_popped_def assms(2) Let_def)

lemma clk_call: "clk_call beh s = (case beh (dc_func (tm_at s (hd (clk_calls s)))) (clk_popped s) of (ops, raises) \<Rightarrow>
    if raises then Exc CallableRaised (clk_perform ops (clk_popped s)) else Ok (clk_perform ops (clk_popped s)))"
  by (simp add: clk_call_def clk_popped_def Let_def split: prod.split)

lemma clk_call_inv: "clk_inv s \<Longrightarrow> clk_due s \<Longrightarrow> clk_inv (state_of (clk_call beh s)) \<and>
    clk_ran (state_of (clk_call beh s)) = clk_ran s @ [hd (clk_calls s)] \<and> tm_now (state_of (clk_call beh s)) = tm_now s"
  by (cases "clk_calls s") (auto simp: clk_call clk_due_def clk_perform clk_popped clk.perform_inv split: prod.split)

lemma clk_not_due:
  assumes "clk_inv s" "sorted (map (tm_time s) (clk_calls s))" "\<not> clk_due s"
  shows "ag_due (tm_now s) (tm_agenda s) = {}"
proof -
  have "tm_now s < tm_time s i" if i: "i \<in> set (clk_calls s)" for i
    using assms(2,3) i by (cases "clk_calls s") (auto simp: clk_due_def)
  then show ?thesis
    using assms(1) by (fastforce simp: ag_due_def tm_agenda_def clk_inv_def split: if_splits)
qed

lemma sorted_sortCalls: "sorted (map (tm_time (clk_sortCalls s)) (clk_calls (clk_sortCalls s)))"
  by (simp add: clk_sortCalls_def)

lemma clk_loop_result:
  "clk_loop beh s = Some r \<Longrightarrow> clk_inv s \<Longrightarrow> sorted (map (tm_time s) (clk_calls s)) \<Longrightarrow>
    clk_inv (state_of r) \<and> tm_now (state_of r) = tm_now s \<and> prefix (clk_ran s) (clk_ran (state_of r)) \<and>
    (\<forall>t. r = Ok t \<longrightarrow> ag_due (tm_now t) (tm_agenda t) = {})"
proof (induction beh s r rule: clk_loop.raw_induct [rotated, consumes 1, case_names step])
  case (step loop beh s r)
  show ?case
  proof (cases "clk_due s")
    case True
    note inv = clk_call_inv [OF step.prems(1) True, of beh]
    show ?thesis
    proof (cases "clk_call beh s")
      case (Ok t)
      with step.hyps True have "loop beh (clk_sortCalls t) = Some r" by simp
      with step.IH [OF this] inv Ok sorted_sortCalls [of t] show ?thesis
        by (auto intro: prefix_order.trans prefixI)
    next
      case (Exc e t)
      with step.hyps True inv show ?thesis by (auto intro: prefixI)
    qed
  next
    case False
    with step.hyps clk_not_due [OF step.prems False] step.prems show ?thesis by auto
  qed
qed


lemma clk_loop_simps: "clk_due s \<Longrightarrow> clk_call beh s = Ok t \<Longrightarrow> clk_loop beh s = clk_loop beh (clk_sortCalls t)"
  "\<not> clk_due s \<Longrightarrow> clk_loop beh s = Some (Ok s)"
  by (subst clk_loop.simps, simp)+

lemma clk_loop_forward:
  assumes "\<And>f u. list_all forward (fst (beh f u)) \<and> \<not> snd (beh f u)"
  shows "clk_inv s \<Longrightarrow> sorted (map (tm_time s) (clk_calls s)) \<Longrightarrow>
    \<exists>t. clk_loop beh s = Some (Ok t) \<and> (\<exists>r. clk_ran t = clk_ran s @ r \<and> set r \<subseteq> ag_due (tm_now s) (tm_agenda s))"
proof (induction "card (ag_due (tm_now s) (tm_agenda s))" arbitrary: s rule: less_induct)
  case less
  show ?case
  proof (cases "clk_due s")
    case True
    then obtain i cs where i: "clk_calls s = i # cs" "tm_time s i \<le> tm_now s"
      by (cases "clk_calls s") (auto simp: clk_due_def)
    note pop = clk_popped [OF less.prems(1) i(1)]
    have due: "i \<in> ag_due (tm_now s) (tm_agenda s)"
      using less.prems(1) i by (auto simp: ag_due_def tm_agenda_def clk_inv_def)
    obtain ops where ops: "beh (dc_func (tm_at s i)) (clk_popped s) = (ops, False)" "list_all forward ops"
      using assms [of "dc_func (tm_at s i)" "clk_popped s"] by (cases "beh (dc_func (tm_at s i)) (clk_popped s)") auto
    define t where "t = clk_sortCalls (clk_perform ops (clk_popped s))"
    have loop: "clk_loop beh s = clk_loop beh t"
      unfolding t_def by (rule clk_loop_simps(1) [OF True]) (simp add: clk_call i ops)
    have "ag_due (tm_now s) (tm_agenda t) \<subseteq> ag_due (tm_now s) ((tm_agenda s)(i := None))"
      using clk.perform_forward [OF pop(1) ops(2)] pop by (simp add: t_def clk_perform)
    also have "\<dots> = ag_due (tm_now s) (tm_agenda s) - {i}" by (auto simp: ag_due_def)
    finally have sub: "ag_due (tm_now s) (tm_agenda t) \<subseteq> ag_due (tm_now s) (tm_agenda s) - {i}" .
    have t: "tm_now t = tm_now s" "clk_inv t" "clk_ran t = clk_ran s @ [i]"
      using pop by (simp_all add: t_def clk_perform clk.perform_inv)
    have "card (ag_due (tm_now t) (tm_agenda t)) < card (ag_due (tm_now s) (tm_agenda s))"
      using sub due t(1) by (intro psubset_card_mono finite_ag_due) auto
    from less.hyps [OF this t(2)] obtain u r where "clk_loop beh t = Some (Ok u)" "clk_ran u = clk_ran t @ r"
      "set r \<subseteq> ag_due (tm_now t) (tm_agenda t)"
      using sorted_sortCalls t_def by blast
    with loop t sub due show ?thesis by auto
  qed (simp add: clk_loop_simps)
qed

lemma clk_loop_quiet:
  "clk_inv s \<Longrightarrow> sorted (map (tm_time s) (clk_calls s)) \<Longrightarrow>
    \<exists>t. clk_loop (\<lambda>f u. ([], False)) s = Some (Ok t) \<and>
      clk_ran t = clk_ran s @ filter (\<lambda>i. tm_time s i \<le> tm_now s) (clk_calls s) \<and> tm_made t = tm_made s \<and>
      tm_agenda t = (\<lambda>i. if i \<in> ag_due (tm_now s) (tm_agenda s) then None else tm_agenda s i)"
proof (induction "length (clk_calls s)" arbitrary: s)
  case 0
  then show ?case by (auto simp: clk_loop_simps clk_due_def clk_inv_def ag_due_def tm_agenda_def fun_eq_iff)
next
  case (Suc n)
  then obtain i cs where i: "clk_calls s = i # cs" by (cases "clk_calls s") auto
  note pop = clk_popped [OF Suc.prems(1) i]
  show ?case
  proof (cases "clk_due s")
    case True
    have popped: "clk_calls (clk_popped s) = cs" "tm_time (clk_popped s) = tm_time s"
      using i by (auto simp: clk_popped_def tm_time_def fun_eq_iff)
    then have sort: "clk_sortCalls (clk_popped s) = clk_popped s"
      using Suc.prems(2) by (simp add: clk_sortCalls_def i sorted_sort_id sort_key_id_if_sorted)
    have loop: "clk_loop (\<lambda>f u. ([], False)) s = clk_loop (\<lambda>f u. ([], False)) (clk_popped s)"
      using clk_loop_simps(1) [OF True, of "\<lambda>f u. ([], False)" "clk_popped s"] sort by (simp add: clk_call clk_perform_def)
    have due: "tm_time s i \<le> tm_now s" "i \<in> ag_due (tm_now s) (tm_agenda s)"
      using True i Suc.prems(1) by (auto simp: clk_due_def ag_due_def tm_agenda_def clk_inv_def)
    have "n = length (clk_calls (clk_popped s))" "sorted (map (tm_time (clk_popped s)) (clk_calls (clk_popped s)))"
      using Suc.hyps(2) Suc.prems(2) popped i by auto
    from Suc.hyps(1) [OF this(1) pop(1) this(2)] obtain t where
      "clk_loop (\<lambda>f u. ([], False)) (clk_popped s) = Some (Ok t)"
      "clk_ran t = clk_ran (clk_popped s) @ filter (\<lambda>i. tm_time s i \<le> tm_now s) cs" "tm_made t = tm_made (clk_popped s)"
      "tm_agenda t = (\<lambda>j. if j \<in> ag_due (tm_now s) ((tm_agenda s)(i := None)) then None else ((tm_agenda s)(i := None)) j)"
      unfolding popped pop(2,4) by blast
    moreover have "tm_made (clk_popped s) = tm_made s" by (simp add: clk_popped_def Let_def)
    ultimately show ?thesis using loop due pop i by (auto simp: ag_due_def fun_eq_iff)
  next
    case False
    then have "tm_now s < tm_time s j" if "j \<in> set (clk_calls s)" for j
      using that Suc.prems(2) i by (auto simp: clk_due_def)
    with False clk_not_due [OF Suc.prems False] show ?thesis
      by (simp add: clk_loop_simps filter_empty_conv not_le)
  qed
qed

section \<open>Properties\<close>

text \<open>
  C12: \<open>Clock.advance\<close> returns, and leaves nothing due: when no scheduled function raises
  or schedules anything for now or the past, the loop ends, whatever else the functions
  do to the timers; it has then made calls that were due at the start, each once, and
  every call that is left is for later than the new time.
\<close>

theorem clock_advance_returns:
  assumes "clk_inv s" and "\<And>f u. list_all forward (fst (beh f u)) \<and> \<not> snd (beh f u)"
  shows "\<exists>t r. clk_advance beh amount s = Some (Ok t) \<and> tm_now t = tm_now s + amount \<and>
    clk_ran t = clk_ran s @ r \<and> distinct r \<and> set r \<subseteq> ag_due (tm_now s + amount) (tm_agenda s) \<and>
    ag_due (tm_now t) (tm_agenda t) = {}"
proof -
  let ?s = "clk_sortCalls (s\<lparr>tm_now := tm_now s + amount\<rparr>)"
  have s: "clk_inv ?s" "tm_agenda ?s = tm_agenda s" "tm_now ?s = tm_now s + amount" "clk_ran ?s = clk_ran s"
    using assms(1) by (auto simp: clk_inv_def tm_agenda_def tm_time_def fun_eq_iff)
  from clk_loop_forward [where beh = beh, OF assms(2) s(1) sorted_sortCalls] obtain t r where
    t: "clk_loop beh ?s = Some (Ok t)" "clk_ran t = clk_ran s @ r" "set r \<subseteq> ag_due (tm_now s + amount) (tm_agenda s)"
    using s by auto
  moreover from clk_loop_result [OF t(1) s(1) sorted_sortCalls] have "clk_inv t" "tm_now t = tm_now ?s" "ag_due (tm_now t) (tm_agenda t) = {}"
    by auto
  moreover from \<open>clk_inv t\<close> t(2) have "distinct r" by (simp add: clk_inv_def)
  ultimately show ?thesis using s by (auto simp: clk_advance_def)
qed

theorem clock_advance_returns_witness:
  "\<exists>t r. clk_advance (\<lambda>f u. if f = ''again'' then ([CallLater 2 ''tick'', CancelCall 1], False) else ([], False)) 5
      (snd (clk_callLater 4 ''late'' (snd (clk_callLater 3 ''again'' (clk_init (dc_init 0 '''')))))) = Some (Ok t) \<and>
    tm_now t = 5 \<and> clk_ran t = r \<and> distinct r \<and> set r \<subseteq> {0, 1} \<and> ag_due 5 (tm_agenda t) = {}"
proof -
  let ?s = "snd (clk_callLater 4 ''late'' (snd (clk_callLater 3 ''again'' (clk_init (dc_init 0 '''')))))"
  have s: "tm_now ?s = 0" "clk_ran ?s = []" "tm_made ?s = 2" by (simp_all add: clk_init_def)
  have "ag_due 5 (tm_agenda ?s) \<subseteq> {0, 1}"
    using s(3) by (auto simp: ag_due_def tm_agenda_def split: if_splits)
  moreover have "\<exists>t r. clk_advance (\<lambda>f u. if f = ''again'' then ([CallLater 2 ''tick'', CancelCall 1], False) else ([], False)) 5 ?s = Some (Ok t) \<and>
    tm_now t = tm_now ?s + 5 \<and> clk_ran t = clk_ran ?s @ r \<and> distinct r \<and>
    set r \<subseteq> ag_due (tm_now ?s + 5) (tm_agenda ?s) \<and> ag_due (tm_now t) (tm_agenda t) = {}"
    by (rule clock_advance_returns) (simp_all add: clk_inv_callLater clk_inv_init)
  ultimately show ?thesis unfolding s by auto
qed

lemma clk_advance_quiet:
  assumes "clk_inv s"
  shows "\<exists>t. clk_advance (\<lambda>f u. ([], False)) amount s = Some (Ok t) \<and>
    clk_inv t \<and> tm_made t = tm_made s \<and> tm_now t = tm_now s + amount \<and>
    clk_ran t = clk_ran s @ filter (\<lambda>i. tm_time s i \<le> tm_now s + amount) (sort_key (tm_time s) (clk_calls s)) \<and>
    tm_agenda t = (\<lambda>i. if i \<in> ag_due (tm_now s + amount) (tm_agenda s) then None else tm_agenda s i)"
proof -
  let ?s = "clk_sortCalls (s\<lparr>tm_now := tm_now s + amount\<rparr>)"
  have s: "clk_inv ?s" "tm_agenda ?s = tm_agenda s" "tm_now ?s = tm_now s + amount" "clk_ran ?s = clk_ran s"
    "tm_time ?s = tm_time s" "clk_calls ?s = sort_key (tm_time s) (clk_calls s)"
    using assms(1) by (auto simp: clk_inv_def tm_agenda_def tm_time_def fun_eq_iff clk_sortCalls_def)
  from clk_loop_quiet [OF s(1) sorted_sortCalls] obtain t where t: "clk_loop (\<lambda>f u. ([], False)) ?s = Some (Ok t)"
    "clk_ran t = clk_ran s @ filter (\<lambda>i. tm_time s i \<le> tm_now s + amount) (sort_key (tm_time s) (clk_calls s))" "tm_made t = tm_made s"
    "tm_agenda t = (\<lambda>i. if i \<in> ag_due (tm_now s + amount) (tm_agenda s) then None else tm_agenda s i)"
    unfolding s by auto
  moreover from clk_loop_result [OF t(1) s(1) sorted_sortCalls] have "clk_inv t" "tm_now t = tm_now s + amount" by (simp_all add: s)
  ultimately show ?thesis by (simp add: clk_advance_def)
qed

text \<open>
  \<open>Clock.advance\<close> makes the calls that are due in the order of their times, and
  calls for the same time in the order of the list: functions that leave the timers
  alone are called in the order of a stable sort, and all other calls stay as they are.
\<close>

theorem clock_advance_order:
  assumes "clk_inv s"
  shows "\<exists>t. clk_advance (\<lambda>f u. ([], False)) amount s = Some (Ok t) \<and>
    clk_ran t = clk_ran s @ filter (\<lambda>i. tm_time s i \<le> tm_now s + amount) (sort_key (tm_time s) (clk_calls s)) \<and>
    tm_agenda t = (\<lambda>i. if i \<in> ag_due (tm_now s + amount) (tm_agenda s) then None else tm_agenda s i)"
  using clk_advance_quiet [OF assms] by blast

theorem clock_advance_order_witness:
  "\<exists>t. clk_advance (\<lambda>f u. ([], False)) 4
      (snd (clk_callLater 3 ''b'' (snd (clk_callLater 4 ''a'' (clk_init (dc_init 0 '''')))))) = Some (Ok t) \<and> clk_ran t = [1, 0]"
proof -
  let ?s = "snd (clk_callLater 3 ''b'' (snd (clk_callLater 4 ''a'' (clk_init (dc_init 0 '''')))))"
  have "clk_ran ?s = [] \<and> filter (\<lambda>i. tm_time ?s i \<le> tm_now ?s + 4) (sort_key (tm_time ?s) (clk_calls ?s)) = [1, 0]"
    by code_simp
  with clock_advance_order [of ?s 4] show ?thesis
    by (auto simp: clk_inv_callLater clk_inv_init)
qed

end
