(* ===== verification/ReactorTimers.thy ===== *)
theory ReactorTimers
  imports HeapQueue Timers
begin

text \<open>
  The timers and the thread queue of \<open>ReactorBase\<close> in \<open>twisted/internet/base.py\<close>.  New
  calls wait in a list; \<open>_insertNewDelayedCalls\<close> moves them to a heap ordered by
  \<open>time\<close>, where a call that was delayed keeps its old time until it reaches the root.  A
  cancelled call stays in the list or heap and is counted.  Scheduled functions run while
  the reactor works on the heap, and can cancel, reset and delay the calls in it.
\<close>

section \<open>State and operations\<close>

text \<open>
  \<open>rt_ran\<close> records the calls that have been made, each with its time; \<open>rt_threadRan\<close> the
  functions run from the thread queue and \<open>rt_threadGiven\<close> all that were given to
  \<open>callFromThread\<close>; \<open>rt_shutdowns\<close> how often the shutdown event was
  fired and \<open>rt_wakeups\<close> how often the waker was used.
\<close>

record 'f reactor = "'f timers" +
  rt_pending :: "nat list"
  rt_new :: "nat list"
  rt_cancellations :: int
  rt_threadCallQueue :: "'f list"
  rt_justStopped :: bool
  rt_ran :: "(nat \<times> time) list"
  rt_threadRan :: "'f list"
  rt_threadGiven :: "'f list"
  rt_shutdowns :: nat
  rt_wakeups :: nat

definition rt_key :: "('f, 'z) timers_scheme \<Rightarrow> nat \<Rightarrow> time" where
  "rt_key s i = dc_time (tm_at s i)"

definition rt_callLater :: "time \<Rightarrow> 'f \<Rightarrow> 'f reactor \<Rightarrow> (timer_error, 'f reactor) outcome" where
  "rt_callLater secs f s =
     (if secs < 0 then Exc AssertionError s
      else Ok (s\<lparr>tm_at := (tm_at s)(tm_made s := dc_init (tm_now s + secs) f), tm_made := tm_made s + 1,
                 rt_new := rt_new s @ [tm_made s]\<rparr>))"

definition index_of :: "'a \<Rightarrow> 'a list \<Rightarrow> nat" where
  "index_of x xs = length (takeWhile (\<lambda>y. y \<noteq> x) xs)"

definition rt_moveCallLaterSooner :: "nat \<Rightarrow> 'f reactor \<Rightarrow> 'f reactor" where
  "rt_moveCallLaterSooner i s =
     (if i \<in> set (rt_pending s)
      then let pos = index_of i (rt_pending s)
           in s\<lparr>rt_pending := move_up (rt_key s) (rt_pending s) pos (rt_pending s ! pos)\<rparr>
      else s)"

definition rt_cancelCallLater :: "nat \<Rightarrow> 'f reactor \<Rightarrow> (timer_error, 'f reactor) outcome" where
  "rt_cancelCallLater i s = Ok (s\<lparr>rt_cancellations := rt_cancellations s + 1\<rparr>)"

definition rt_getDelayedCalls :: "'f reactor \<Rightarrow> nat list" where
  "rt_getDelayedCalls s = filter (\<lambda>i. \<not> dc_cancelled (tm_at s i)) (rt_pending s @ rt_new s)"

definition rt_insertNewDelayedCall :: "nat \<Rightarrow> 'f reactor \<Rightarrow> 'f reactor" where
  "rt_insertNewDelayedCall i s =
     (if dc_cancelled (tm_at s i) then s\<lparr>rt_cancellations := rt_cancellations s - 1\<rparr>
      else let s = tm_upd i dc_activate_delay s in s\<lparr>rt_pending := heappush (rt_key s) (rt_pending s) i\<rparr>)"

definition rt_insertNewDelayedCalls :: "'f reactor \<Rightarrow> 'f reactor" where
  "rt_insertNewDelayedCalls s = (fold rt_insertNewDelayedCall (rt_new s) s)\<lparr>rt_new := []\<rparr>"

definition rt_timeout :: "'f reactor \<Rightarrow> 'f reactor \<times> time option" where
  "rt_timeout s =
     (let s = rt_insertNewDelayedCalls s
      in (s, if rt_pending s = [] then None
             else Some (max 0 (min 2147483 (rt_key s (rt_pending s ! 0) - tm_now s)))))"

text \<open>What a function does: operations on timers, \<open>callFromThread\<close>, \<open>reactor.stop\<close>, and taking time.\<close>

datatype 'f reactor_op = Timer "'f timer_op" | CallFromThread 'f | StopReactor | Elapse time

fun rt_timer_op :: "'f timer_op \<Rightarrow> 'f reactor \<Rightarrow> (timer_error, 'f reactor) outcome" where
  "rt_timer_op (CallLater secs f) s = rt_callLater secs f s"
| "rt_timer_op (CancelCall i) s = (if i < tm_made s then dc_cancel rt_cancelCallLater i s else Ok s)"
| "rt_timer_op (ResetCall i t) s = (if i < tm_made s then dc_reset rt_moveCallLaterSooner i t s else Ok s)"
| "rt_timer_op (DelayCall i t) s = (if i < tm_made s then dc_delay rt_moveCallLaterSooner i t s else Ok s)"

definition rt_wakeUp :: "'f reactor \<Rightarrow> 'f reactor" where
  "rt_wakeUp s = s\<lparr>rt_wakeups := rt_wakeups s + 1\<rparr>"

fun rt_op :: "'f reactor_op \<Rightarrow> 'f reactor \<Rightarrow> 'f reactor" where
  "rt_op (Timer p) s = state_of (rt_timer_op p s)"
| "rt_op (CallFromThread f) s = rt_wakeUp (s\<lparr>rt_threadCallQueue := rt_threadCallQueue s @ [f], rt_threadGiven := rt_threadGiven s @ [f]\<rparr>)"
| "rt_op StopReactor s = s\<lparr>rt_justStopped := True\<rparr>"
| "rt_op (Elapse t) s = (if 0 \<le> t then s\<lparr>tm_now := tm_now s + t\<rparr> else s)"

definition rt_perform :: "'f reactor_op list \<Rightarrow> 'f reactor \<Rightarrow> 'f reactor" where
  "rt_perform ops s = fold rt_op ops s"

text \<open>
  An exception of the function is logged and the reactor goes on, so whether it raises
  makes no difference.
\<close>

type_synonym 'f rt_behaviour = "'f \<Rightarrow> 'f reactor \<Rightarrow> 'f reactor_op list"

definition rt_call :: "'f rt_behaviour \<Rightarrow> 'f \<Rightarrow> 'f reactor \<Rightarrow> 'f reactor" where
  "rt_call beh f s = rt_perform (beh f s) s"

definition rt_runThreadCalls :: "'f rt_behaviour \<Rightarrow> 'f reactor \<Rightarrow> 'f reactor" where
  "rt_runThreadCalls beh s =
     (if rt_threadCallQueue s \<noteq> [] then
        let count = length (rt_threadCallQueue s);
            s = fold (\<lambda>f s. rt_call beh f (s\<lparr>rt_threadRan := rt_threadRan s @ [f]\<rparr>)) (rt_threadCallQueue s) s;
            s = s\<lparr>rt_threadCallQueue := drop count (rt_threadCallQueue s)\<rparr>
        in if rt_threadCallQueue s \<noteq> [] then rt_wakeUp s else s
      else s)"

text \<open>One round of the loop over the heap.\<close>

definition rt_round :: "'f rt_behaviour \<Rightarrow> 'f reactor \<Rightarrow> 'f reactor" where
  "rt_round beh s =
     (case heappop (rt_key s) (rt_pending s) of (i, rest) \<Rightarrow>
        let s = s\<lparr>rt_pending := rest\<rparr>
        in if dc_cancelled (tm_at s i) then s\<lparr>rt_cancellations := rt_cancellations s - 1\<rparr>
           else if 0 < dc_delayed_time (tm_at s i)
             then let s = tm_upd i dc_activate_delay s in s\<lparr>rt_pending := heappush (rt_key s) (rt_pending s) i\<rparr>
           else rt_call beh (dc_func (tm_at s i))
             (tm_upd i (\<lambda>c. c\<lparr>dc_called := True\<rparr>) (s\<lparr>rt_ran := rt_ran s @ [(i, tm_time s i)]\<rparr>)))"

definition rt_delayed :: "'f reactor \<Rightarrow> nat" where
  "rt_delayed s = length (filter (\<lambda>i. 0 < dc_delayed_time (tm_at s i)) (rt_pending s))"

definition rt_compact :: "'f reactor \<Rightarrow> 'f reactor" where
  "rt_compact s =
     (if 50 < rt_cancellations s \<and> int (length (rt_pending s) div 2) < rt_cancellations s
      then s\<lparr>rt_cancellations := 0,
             rt_pending := heapify (rt_key s) (filter (\<lambda>i. \<not> dc_cancelled (tm_at s i)) (rt_pending s))\<rparr>
      else s)"

definition rt_fireShutdown :: "'f reactor \<Rightarrow> 'f reactor" where
  "rt_fireShutdown s =
     (if rt_justStopped s then s\<lparr>rt_justStopped := False, rt_shutdowns := rt_shutdowns s + 1\<rparr> else s)"

section \<open>The loop ends\<close>

lemma length_heappush [simp]: "length (heappush key h x) = Suc (length h)"
  by (simp add: heappush_def)

lemma length_heappop [simp]: "length (snd (heappop key h)) = length h - 1"
  by (cases h rule: rev_cases) (auto simp: heappop_def Let_def)

lemma size_filter_mset_le: "(\<And>x. P x \<Longrightarrow> Q x) \<Longrightarrow> size (filter_mset P M) \<le> size (filter_mset Q M)"
  by (induction M) (auto intro: le_SucI)

lemma mset_heappop: "h \<noteq> [] \<Longrightarrow> mset h = add_mset (fst (heappop key h)) (mset (snd (heappop key h)))"
proof (cases h rule: rev_cases)
  case (snoc g l)
  then show ?thesis by (cases g) (simp_all add: heappop_def mset_siftup)
qed simp

lemma rt_moveCallLaterSooner_simps [simp]:
  "length (rt_pending (rt_moveCallLaterSooner i s)) = length (rt_pending s)"
  "tm_at (rt_moveCallLaterSooner i s) = tm_at s" "tm_made (rt_moveCallLaterSooner i s) = tm_made s"
  "tm_now (rt_moveCallLaterSooner i s) = tm_now s" "rt_new (rt_moveCallLaterSooner i s) = rt_new s"
  "rt_ran (rt_moveCallLaterSooner i s) = rt_ran s" "rt_threadCallQueue (rt_moveCallLaterSooner i s) = rt_threadCallQueue s"
  by (simp_all add: rt_moveCallLaterSooner_def Let_def move_up_siftdown)

lemma rt_upd_simps [simp]:
  "rt_pending (tm_upd i g s) = rt_pending s" "rt_new (tm_upd i g s) = rt_new s" "rt_ran (tm_upd i g s) = rt_ran s"
  "rt_cancellations (tm_upd i g s) = rt_cancellations s" "rt_threadCallQueue (tm_upd i g s) = rt_threadCallQueue s"
  by (simp_all add: tm_upd_def)

lemma rt_timer_op_length: "length (rt_pending (state_of (rt_timer_op p s))) = length (rt_pending s)"
  by (cases p) (simp_all add: rt_callLater_def dc_cancel_def dc_reset_def dc_delay_def dc_checked_def
      rt_cancelCallLater_def Let_def)

lemma rt_op_length: "length (rt_pending (rt_op p s)) = length (rt_pending s)"
  by (cases p) (simp_all add: rt_timer_op_length rt_wakeUp_def)

lemma rt_call_length [simp]: "length (rt_pending (rt_call beh f s)) = length (rt_pending s)"
proof -
  have "length (rt_pending (fold rt_op ops s)) = length (rt_pending s)" for ops
    by (induction ops arbitrary: s) (simp_all add: rt_op_length)
  then show ?thesis by (simp add: rt_call_def rt_perform_def)
qed

lemma rt_round_decreases:
  assumes "rt_pending s \<noteq> []"
  shows "(rt_round beh s, s) \<in> measures [\<lambda>s. length (rt_pending s), rt_delayed]"
proof -
  obtain i rest where pop: "heappop (rt_key s) (rt_pending s) = (i, rest)" by (cases "heappop (rt_key s) (rt_pending s)")
  from assms length_heappop [of "rt_key s" "rt_pending s"] pop have len: "Suc (length rest) = length (rt_pending s)" by (simp del: length_heappop)
  show ?thesis
  proof (cases "\<not> dc_cancelled (tm_at s i) \<and> 0 < dc_delayed_time (tm_at s i)")
    case True
    define t where "t = tm_upd i dc_activate_delay (s\<lparr>rt_pending := rest\<rparr>)"
    have round: "rt_round beh s = t\<lparr>rt_pending := heappush (rt_key t) rest i\<rparr>"
      using True by (simp add: rt_round_def pop Let_def t_def)
    have "mset (rt_pending s) = add_mset i (mset rest)" using mset_heappop [OF assms, of "rt_key s"] pop by simp
    then have "rt_delayed s = Suc (size (filter_mset (\<lambda>j. 0 < dc_delayed_time (tm_at s j)) (mset rest)))"
      using True unfolding rt_delayed_def size_mset [symmetric] mset_filter by simp
    moreover have "rt_delayed (rt_round beh s) = size (filter_mset (\<lambda>j. 0 < dc_delayed_time (tm_at t j)) (mset rest))"
      unfolding round rt_delayed_def size_mset [symmetric] mset_filter
      by (simp add: mset_heappush t_def dc_activate_delay_def)
    moreover have "size (filter_mset (\<lambda>j. 0 < dc_delayed_time (tm_at t j)) (mset rest))
        \<le> size (filter_mset (\<lambda>j. 0 < dc_delayed_time (tm_at s j)) (mset rest))"
      by (rule size_filter_mset_le) (auto simp: t_def dc_activate_delay_def split: if_splits)
    ultimately show ?thesis using len round by simp
  next
    case False
    then show ?thesis using len by (auto simp: rt_round_def pop Let_def)
  qed
qed

function rt_loop :: "'f rt_behaviour \<Rightarrow> time \<Rightarrow> 'f reactor \<Rightarrow> 'f reactor" where
  "rt_loop beh now s =
     (if rt_pending s \<noteq> [] \<and> rt_key s (rt_pending s ! 0) \<le> now then rt_loop beh now (rt_round beh s) else s)"
  by pat_completeness auto
termination
proof (relation "inv_image (measures [\<lambda>s. length (rt_pending s), rt_delayed]) (snd \<circ> snd)")
  show "((beh, now, rt_round beh s), beh, now, s) \<in> inv_image (measures [\<lambda>s. length (rt_pending s), rt_delayed]) (snd \<circ> snd)"
    if "rt_pending s \<noteq> [] \<and> rt_key s (rt_pending s ! 0) \<le> now" for beh now and s :: "'f reactor"
    using rt_round_decreases [OF conjunct1 [OF that], of beh] by (simp only: in_inv_image o_apply snd_conv)
qed simp

declare rt_loop.simps [simp del]

definition rt_runUntilCurrent :: "'f rt_behaviour \<Rightarrow> 'f reactor \<Rightarrow> 'f reactor" where
  "rt_runUntilCurrent beh s =
     (let s = rt_insertNewDelayedCalls (rt_runThreadCalls beh s);
          now = tm_now s
      in rt_fireShutdown (rt_compact (rt_loop beh now s)))"


section \<open>Invariant\<close>

definition rt_inv :: "'f reactor \<Rightarrow> bool" where
  "rt_inv s \<longleftrightarrow> is_heap (rt_key s) (rt_pending s) \<and> distinct (rt_pending s @ rt_new s) \<and>
     (\<forall>i \<in> set (rt_pending s @ rt_new s). i < tm_made s \<and> \<not> dc_called (tm_at s i) \<and> 0 \<le> dc_delayed_time (tm_at s i)) \<and>
     (\<forall>i < tm_made s. dc_active (tm_at s i) \<longrightarrow> i \<in> set (rt_pending s @ rt_new s)) \<and>
     (\<forall>i < tm_made s. \<not> (dc_cancelled (tm_at s i) \<and> dc_called (tm_at s i))) \<and>
     distinct (map fst (rt_ran s)) \<and> (\<forall>i. i \<in> fst ` set (rt_ran s) \<longleftrightarrow> i < tm_made s \<and> dc_called (tm_at s i))"

definition rt_init :: "'f delayed_call \<Rightarrow> 'f reactor" where
  "rt_init c = \<lparr> tm_at = \<lambda>i. c, tm_made = 0, tm_now = 0, rt_pending = [], rt_new = [], rt_cancellations = 0,
     rt_threadCallQueue = [], rt_justStopped = False, rt_ran = [], rt_threadRan = [], rt_threadGiven = [], rt_shutdowns = 0, rt_wakeups = 0 \<rparr>"

lemma rt_inv_init: "rt_inv (rt_init c)"
  by (simp add: rt_inv_def rt_init_def hq.valid_Nil)

lemma rt_key_simps [simp]:
  "rt_key (tm_upd i g s) = (rt_key s)(i := dc_time (g (tm_at s i)))"
  "rt_key (s\<lparr>rt_pending := h\<rparr>) = rt_key (s :: 'f reactor)" "rt_key (s\<lparr>rt_new := h\<rparr>) = rt_key (s :: 'f reactor)"
  "rt_key (s\<lparr>rt_cancellations := c\<rparr>) = rt_key (s :: 'f reactor)" "rt_key (s\<lparr>rt_ran := r\<rparr>) = rt_key (s :: 'f reactor)"
  "rt_key (s\<lparr>rt_threadCallQueue := q\<rparr>) = rt_key (s :: 'f reactor)" "rt_key (s\<lparr>rt_threadRan := q\<rparr>) = rt_key (s :: 'f reactor)"
  "rt_key (s\<lparr>rt_justStopped := b\<rparr>) = rt_key (s :: 'f reactor)" "rt_key (s\<lparr>rt_wakeups := n\<rparr>) = rt_key (s :: 'f reactor)"
  "rt_key (s\<lparr>rt_threadGiven := q\<rparr>) = rt_key (s :: 'f reactor)"
  "rt_key (s\<lparr>rt_shutdowns := n\<rparr>) = rt_key (s :: 'f reactor)" "rt_key (s\<lparr>tm_now := t\<rparr>) = rt_key s"
  by (auto simp: rt_key_def fun_eq_iff)

lemma rt_agenda_simps [simp]:
  "tm_agenda (s\<lparr>rt_pending := h\<rparr>) = tm_agenda (s :: 'f reactor)" "tm_agenda (s\<lparr>rt_new := h\<rparr>) = tm_agenda (s :: 'f reactor)"
  "tm_agenda (s\<lparr>rt_cancellations := c\<rparr>) = tm_agenda (s :: 'f reactor)" "tm_agenda (s\<lparr>rt_ran := r\<rparr>) = tm_agenda (s :: 'f reactor)"
  "tm_agenda (s\<lparr>rt_threadCallQueue := q\<rparr>) = tm_agenda (s :: 'f reactor)" "tm_agenda (s\<lparr>rt_threadRan := q\<rparr>) = tm_agenda (s :: 'f reactor)"
  "tm_agenda (s\<lparr>rt_threadGiven := q\<rparr>) = tm_agenda (s :: 'f reactor)"
  "tm_agenda (s\<lparr>rt_justStopped := b\<rparr>) = tm_agenda (s :: 'f reactor)" "tm_agenda (s\<lparr>rt_wakeups := n\<rparr>) = tm_agenda (s :: 'f reactor)"
  "tm_agenda (s\<lparr>rt_shutdowns := n\<rparr>) = tm_agenda (s :: 'f reactor)" "tm_agenda (s\<lparr>tm_now := t\<rparr>) = tm_agenda s"
  "tm_agenda (rt_moveCallLaterSooner i s) = tm_agenda s"
  by (simp_all add: tm_agenda_def tm_time_def rt_moveCallLaterSooner_def Let_def fun_eq_iff)

lemma rt_inv_other [simp]:
  "rt_inv (s\<lparr>rt_cancellations := c\<rparr>) = rt_inv s" "rt_inv (s\<lparr>rt_threadCallQueue := q\<rparr>) = rt_inv s"
  "rt_inv (s\<lparr>rt_threadRan := q\<rparr>) = rt_inv s" "rt_inv (s\<lparr>rt_threadGiven := q\<rparr>) = rt_inv s" "rt_inv (s\<lparr>rt_justStopped := b\<rparr>) = rt_inv s"
  "rt_inv (s\<lparr>rt_wakeups := n\<rparr>) = rt_inv s" "rt_inv (s\<lparr>rt_shutdowns := n\<rparr>) = rt_inv s" "rt_inv (s\<lparr>tm_now := t\<rparr>) = rt_inv s"
  by (simp_all add: rt_inv_def)

lemma rt_inv_upd:
  assumes "rt_inv s" "dc_time (g (tm_at s i)) = dc_time (tm_at s i)" "dc_called (g (tm_at s i)) = dc_called (tm_at s i)"
    "0 \<le> dc_delayed_time (tm_at s i) \<Longrightarrow> 0 \<le> dc_delayed_time (g (tm_at s i))"
    "dc_active (g (tm_at s i)) \<Longrightarrow> dc_active (tm_at s i)"
    "dc_called (tm_at s i) \<Longrightarrow> dc_cancelled (g (tm_at s i)) = dc_cancelled (tm_at s i)"
  shows "rt_inv (tm_upd i g s)"
proof -
  have "rt_key (tm_upd i g s) = rt_key s" using assms(2) by (auto simp: rt_key_def fun_eq_iff)
  with assms show ?thesis by (simp add: rt_inv_def) blast
qed

lemma index_of: "x \<in> set xs \<Longrightarrow> index_of x xs < length xs \<and> xs ! index_of x xs = x"
  unfolding index_of_def by (induction xs) auto

lemma rt_inv_lower:
  assumes "rt_inv s" "i < tm_made s" "dc_active (tm_at s i)" "dc_time (g (tm_at s i)) \<le> dc_time (tm_at s i)"
    "dc_called (g (tm_at s i)) = dc_called (tm_at s i)" "dc_delayed_time (g (tm_at s i)) = 0"
  shows "rt_inv (rt_moveCallLaterSooner i (tm_upd i g s))"
proof (cases "i \<in> set (rt_pending s)")
  case True
  let ?k = "dc_time (g (tm_at s i))" and ?pos = "index_of i (rt_pending s)"
  let ?h = "move_up ((rt_key s)(i := ?k)) (rt_pending s) ?pos i"
  note pos = index_of [OF True]
  have inv: "is_heap (rt_key s) (rt_pending s)" "distinct (rt_pending s)" using assms(1) by (auto simp: rt_inv_def)
  have le: "?k \<le> rt_key s (rt_pending s ! ?pos)" using pos assms(4) by (simp add: rt_key_def)
  have heap: "is_heap ((rt_key s)(i := ?k)) ?h" and ms: "mset ?h = mset (rt_pending s)"
    using hq.valid_sooner [OF inv conjunct1 [OF pos] le] hq.mset_sooner [OF inv conjunct1 [OF pos] le] pos by simp_all
  have "set ?h = set (rt_pending s)" "distinct ?h"
    using mset_eq_setD [OF ms] mset_eq_imp_distinct_iff [OF ms] inv by simp_all
  with assms heap True pos show ?thesis
    by (simp add: rt_moveCallLaterSooner_def rt_inv_def)
next
  case False
  have "is_heap (rt_key (tm_upd i g s)) (rt_pending s) = is_heap (rt_key s) (rt_pending s)"
    by (rule hq.valid_cong) (use False in auto)
  moreover have "\<not> dc_called (tm_at s i)" using assms(3) by (simp add: dc_active_def)
  ultimately show ?thesis using assms False by (simp add: rt_moveCallLaterSooner_def rt_inv_def) blast
qed

lemma rt_inv_callLater: "rt_inv s \<Longrightarrow> rt_inv (state_of (rt_callLater secs f s))"
proof (cases "secs < 0")
  case False
  assume inv: "rt_inv s"
  have "is_heap ((rt_key s)(tm_made s := k)) (rt_pending s) = is_heap (rt_key s) (rt_pending s)" for k
    by (rule hq.valid_cong) (use inv in \<open>auto simp: rt_inv_def\<close>)
  moreover have "rt_key (state_of (rt_callLater secs f s)) = (rt_key s)(tm_made s := tm_now s + secs)"
    using False by (auto simp: rt_callLater_def rt_key_def dc_init_def fun_eq_iff)
  ultimately show ?thesis using inv False
    by (simp add: rt_callLater_def rt_inv_def less_Suc_eq) (auto simp: dc_init_def)
qed (simp add: rt_callLater_def)


lemma rt_inv_timer_op:
  assumes "rt_inv s"
  shows "rt_inv (state_of (rt_timer_op p s))"
proof -
  have cancel: "rt_inv (state_of (dc_cancel rt_cancelCallLater i s))" for i
    using assms by (cases "dc_active (tm_at s i)")
      (auto simp: dc_cancel_def dc_checked_inactive dc_checked_active rt_cancelCallLater_def dc_active_def intro!: rt_inv_upd)
  have reset: "rt_inv (state_of (dc_reset rt_moveCallLaterSooner i t s))" if "i < tm_made s" for i t
  proof (cases "dc_active (tm_at s i)")
    case True
    then show ?thesis
      using assms that
      by (auto simp: dc_reset_def dc_checked_active Let_def intro!: rt_inv_lower rt_inv_upd)
  qed (simp add: dc_reset_def dc_checked_inactive assms)
  have delay: "rt_inv (state_of (dc_delay rt_moveCallLaterSooner i t s))" if "i < tm_made s" for i t
  proof (cases "dc_active (tm_at s i)")
    case True
    have "tm_upd i dc_activate_delay (tm_upd i (\<lambda>c. c\<lparr>dc_delayed_time := dc_delayed_time c + t\<rparr>) s) =
        tm_upd i (\<lambda>c. dc_activate_delay (c\<lparr>dc_delayed_time := dc_delayed_time c + t\<rparr>)) s"
      by (simp add: tm_upd_def)
    with True show ?thesis
      using assms that
      by (auto simp: dc_delay_def dc_checked_active Let_def dc_activate_delay_def intro!: rt_inv_lower rt_inv_upd)
  qed (simp add: dc_delay_def dc_checked_inactive assms)
  show ?thesis
    using assms rt_inv_callLater [OF assms] by (cases p) (simp_all add: cancel reset delay)
qed

fun rt_legal :: "'f timer_op \<Rightarrow> bool" where
  "rt_legal (CallLater secs f) \<longleftrightarrow> 0 \<le> secs"
| "rt_legal p \<longleftrightarrow> True"

lemma rt_timer_op_agenda:
  assumes "rt_legal p"
  shows "(tm_made (state_of (rt_timer_op p s)), tm_agenda (state_of (rt_timer_op p s))) = ag_op (tm_now s) p (tm_made s, tm_agenda s)"
proof (cases p)
  case (CallLater secs f)
  have "tm_agenda (state_of (rt_callLater secs f s)) = (tm_agenda s)(tm_made s \<mapsto> (tm_now s + secs, f))" if "0 \<le> secs"
    using that by (auto simp: rt_callLater_def tm_agenda_def tm_time_def fun_eq_iff less_Suc_eq)
  with CallLater assms show ?thesis by (simp add: rt_callLater_def)
next
  case (CancelCall i)
  then show ?thesis
    by (cases "i < tm_made s \<and> dc_active (tm_at s i)")
      (auto simp: tm_agenda_upd_inactive tm_agenda_inactive dc_cancel_def dc_checked_active dc_checked_inactive
        rt_cancelCallLater_def fun_upd_idem)
next
  case (ResetCall i t)
  then show ?thesis
    by (cases "i < tm_made s \<and> dc_active (tm_at s i)")
      (auto simp: dc_reset_def dc_checked_active dc_checked_inactive Let_def
        tm_agenda_upd_time tm_agenda_active tm_agenda_inactive fun_upd_idem)
next
  case (DelayCall i t)
  then show ?thesis
    by (cases "i < tm_made s \<and> dc_active (tm_at s i)")
      (auto simp: dc_delay_def dc_checked_active dc_checked_inactive Let_def
        tm_agenda_upd_time tm_agenda_active tm_agenda_inactive fun_upd_idem)
qed

lemmas rt_method_defs = dc_cancel_def dc_reset_def dc_delay_def dc_checked_def rt_cancelCallLater_def rt_callLater_def Let_def

lemma rt_timer_op_now: "tm_now (state_of (rt_timer_op p s)) = tm_now s"
  by (cases p) (simp_all add: rt_method_defs)

lemma rt_timer_op_ran: "rt_ran (state_of (rt_timer_op p s)) = rt_ran s"
  by (cases p) (simp_all add: rt_method_defs)

lemma rt_timer_op_refused: "\<not> rt_legal p \<Longrightarrow> rt_timer_op p s = Exc AssertionError s"
  by (cases p) (simp_all add: rt_callLater_def)

lemma rt_timer_op_error:
  assumes "i < tm_made s" "p \<in> {CancelCall i, ResetCall i x, DelayCall i x}"
  shows "case rt_timer_op p s of Ok t \<Rightarrow> tm_agenda s i \<noteq> None | Exc e t \<Rightarrow> tm_agenda s i = None \<and> t = s \<and>
    e = (if dc_cancelled (tm_at s i) then AlreadyCancelled else AlreadyCalled)"
proof -
  have "rt_timer_op p s \<in> {dc_cancel rt_cancelCallLater i s, dc_reset rt_moveCallLaterSooner i x s, dc_delay rt_moveCallLaterSooner i x s}"
    using assms by auto
  then show ?thesis
    unfolding dc_cancel_def dc_reset_def dc_delay_def
    by (elim insertE emptyE) (simp only:, rule dc_checked_error [OF assms(1)], force simp: Let_def rt_cancelCallLater_def)+
qed

interpretation rt: timer_owner rt_inv rt_timer_op rt_legal rt_ran
proof unfold_locales
  fix w :: time and f :: 'f and s :: "'f reactor"
  show "rt_legal (CallLater w f) \<Longrightarrow> \<exists>t. rt_timer_op (CallLater w f) s = Ok t" by (simp add: rt_callLater_def)
qed (rule rt_inv_timer_op rt_timer_op_agenda rt_timer_op_now rt_timer_op_ran rt_timer_op_refused rt_timer_op_error; assumption)+

end
