(* ===== verification/ReactorLoop.thy ===== *)
theory ReactorLoop
  imports ReactorTimers
begin

text \<open>
  What one iteration of the reactor, \<open>runUntilCurrent\<close>, does to its timers, whatever
  the scheduled functions do to them meanwhile, and how the reactor and \<open>Clock\<close> agree.
\<close>


section \<open>Inserting the new calls\<close>

lemma rt_insertNewDelayedCall:
  assumes "rt_inv (s\<lparr>rt_new := i # js\<rparr>)"
  shows "rt_inv ((rt_insertNewDelayedCall i s)\<lparr>rt_new := js\<rparr>)" "tm_agenda (rt_insertNewDelayedCall i s) = tm_agenda s"
    "tm_made (rt_insertNewDelayedCall i s) = tm_made s" "tm_now (rt_insertNewDelayedCall i s) = tm_now s"
    "rt_ran (rt_insertNewDelayedCall i s) = rt_ran s"
proof -
  let ?t = "tm_upd i dc_activate_delay s"
  have "rt_inv (?t\<lparr>rt_pending := heappush (rt_key ?t) (rt_pending ?t) i, rt_new := js\<rparr>)"
  proof -
    have "is_heap (rt_key ?t) (rt_pending s) = is_heap (rt_key s) (rt_pending s)"
      by (rule hq.valid_cong) (use assms in \<open>auto simp: rt_inv_def\<close>)
    with assms have "is_heap (rt_key ?t) (heappush (rt_key ?t) (rt_pending s) i)"
      by (simp add: rt_inv_def hq.valid_push)
    then show ?thesis
      using assms by (simp add: rt_inv_def hq.set_push hq.distinct_push) (auto simp: dc_activate_delay_def)
  qed
  moreover have "rt_inv (s\<lparr>rt_cancellations := c, rt_new := js\<rparr>)" if "dc_cancelled (tm_at s i)" for c
    using assms that by (simp add: rt_inv_def) (metis dc_active_def)
  ultimately show "rt_inv ((rt_insertNewDelayedCall i s)\<lparr>rt_new := js\<rparr>)"
    by (simp add: rt_insertNewDelayedCall_def Let_def)
  have "i < tm_made s" using assms by (simp add: rt_inv_def)
  then show "tm_agenda (rt_insertNewDelayedCall i s) = tm_agenda s"
    by (cases "dc_active (tm_at s i)")
      (auto simp: rt_insertNewDelayedCall_def Let_def tm_agenda_upd_time tm_agenda_active tm_agenda_upd_inactive tm_agenda_inactive fun_upd_idem)
qed (simp_all add: rt_insertNewDelayedCall_def Let_def)

lemma rt_insert_new: "rt_new (rt_insertNewDelayedCall i s) = rt_new s"
  by (simp add: rt_insertNewDelayedCall_def Let_def)

lemma rt_insert_fold:
  "rt_inv (s\<lparr>rt_new := js\<rparr>) \<Longrightarrow>
    rt_inv ((fold rt_insertNewDelayedCall js s)\<lparr>rt_new := []\<rparr>) \<and> tm_agenda (fold rt_insertNewDelayedCall js s) = tm_agenda s \<and>
    tm_made (fold rt_insertNewDelayedCall js s) = tm_made s \<and> tm_now (fold rt_insertNewDelayedCall js s) = tm_now s \<and>
    rt_ran (fold rt_insertNewDelayedCall js s) = rt_ran s"
proof (induction js arbitrary: s)
  case (Cons i js)
  from Cons.IH [OF rt_insertNewDelayedCall(1) [OF Cons.prems]] rt_insertNewDelayedCall [OF Cons.prems]
  show ?case by simp
qed simp

lemma rt_insertNewDelayedCalls:
  "rt_inv s \<Longrightarrow> rt_inv (rt_insertNewDelayedCalls s) \<and> tm_agenda (rt_insertNewDelayedCalls s) = tm_agenda s \<and>
    tm_made (rt_insertNewDelayedCalls s) = tm_made s \<and> tm_now (rt_insertNewDelayedCalls s) = tm_now s \<and>
    rt_ran (rt_insertNewDelayedCalls s) = rt_ran s \<and> rt_new (rt_insertNewDelayedCalls s) = []"
  using rt_insert_fold [where s = s and js = "rt_new s"] by (simp add: rt_insertNewDelayedCalls_def)

section \<open>The loop\<close>

definition rt_keeps :: "'f reactor \<Rightarrow> 'f reactor \<Rightarrow> bool" where
  "rt_keeps s t \<longleftrightarrow> rt_inv t \<and> tm_made s \<le> tm_made t \<and> rt_ran t = rt_ran s \<and>
     set (rt_new t) \<subseteq> set (rt_new s) \<union> {tm_made s..}"

lemma rt_timer_op_made: "tm_made s \<le> tm_made (state_of (rt_timer_op p s)) \<and>
    set (rt_new (state_of (rt_timer_op p s))) \<subseteq> set (rt_new s) \<union> {tm_made s..}"
  by (cases p) (auto simp: rt_method_defs)

lemma rt_op_keeps: "rt_inv s \<Longrightarrow> rt_keeps s (rt_op p s)"
  using rt_timer_op_made [of s] rt_inv_timer_op [of s] rt_timer_op_ran [of _ s]
  by (cases p) (simp_all add: rt_keeps_def rt_wakeUp_def)

lemma rt_keeps_trans: "rt_keeps s t \<Longrightarrow> rt_keeps t u \<Longrightarrow> rt_keeps s u"
  unfolding rt_keeps_def by (elim conjE) (intro conjI; force)

lemma rt_fold_keeps: "rt_inv s \<Longrightarrow> rt_keeps s (fold rt_op ops s)"
proof (induction ops arbitrary: s)
  case (Cons p ops)
  note step = rt_op_keeps [OF Cons.prems, of p]
  then have "rt_inv (rt_op p s)" by (simp add: rt_keeps_def)
  from rt_keeps_trans [OF step Cons.IH [OF this]] show ?case by simp
qed (simp add: rt_keeps_def)

lemma rt_call_keeps: "rt_inv s \<Longrightarrow> rt_keeps s (rt_call beh f s)"
  by (simp add: rt_call_def rt_perform_def rt_fold_keeps)

definition rt_popped :: "'f reactor \<Rightarrow> 'f reactor" where
  "rt_popped s = s\<lparr>rt_pending := snd (heappop (rt_key s) (rt_pending s))\<rparr>"

definition rt_started :: "'f reactor \<Rightarrow> 'f reactor" where
  "rt_started s = (let i = rt_pending s ! 0 in
     tm_upd i (\<lambda>c. c\<lparr>dc_called := True\<rparr>) ((rt_popped s)\<lparr>rt_ran := rt_ran s @ [(i, tm_time s i)]\<rparr>))"

definition rt_deferred :: "'f reactor \<Rightarrow> 'f reactor" where
  "rt_deferred s = (let i = rt_pending s ! 0; t = tm_upd i dc_activate_delay (rt_popped s)
     in t\<lparr>rt_pending := heappush (rt_key t) (rt_pending t) i\<rparr>)"

lemma rt_round_cases:
  assumes "rt_inv s" "rt_pending s \<noteq> []"
  defines "i \<equiv> rt_pending s ! 0"
  shows "rt_round beh s =
    (if dc_cancelled (tm_at s i) then (rt_popped s)\<lparr>rt_cancellations := rt_cancellations s - 1\<rparr>
     else if 0 < dc_delayed_time (tm_at s i) then rt_deferred s
     else rt_call beh (dc_func (tm_at s i)) (rt_started s))"
proof -
  have "fst (heappop (rt_key s) (rt_pending s)) = i"
    using assms by (simp add: hq.pop_first rt_inv_def)
  then show ?thesis
    by (simp add: rt_round_def rt_popped_def rt_started_def rt_deferred_def i_def Let_def case_prod_beta tm_time_def)
qed


lemma rt_root:
  assumes "rt_inv s" "rt_pending s \<noteq> []"
  defines "i \<equiv> rt_pending s ! 0" and "h \<equiv> snd (heappop (rt_key s) (rt_pending s))"
  shows "i < tm_made s" "\<not> dc_called (tm_at s i)" "0 \<le> dc_delayed_time (tm_at s i)" "i \<notin> set h" "i \<notin> set (rt_new s)"
    "set (rt_pending s) = insert i (set h)" "distinct h" "is_heap (rt_key s) h"
proof -
  have inv: "is_heap (rt_key s) (rt_pending s)" "distinct (rt_pending s)" using assms by (auto simp: rt_inv_def)
  have "i \<in> set (rt_pending s)" using assms(2) by (simp add: i_def)
  then show "i < tm_made s" "\<not> dc_called (tm_at s i)" "0 \<le> dc_delayed_time (tm_at s i)" "i \<notin> set (rt_new s)"
    using assms(1) by (auto simp: rt_inv_def)
  show "i \<notin> set h" "distinct h" using hq.distinct_pop [OF inv(1) assms(2) inv(2)] by (simp_all add: i_def h_def)
  show "set (rt_pending s) = insert i (set h)" "is_heap (rt_key s) h"
    using hq.set_pop [OF inv(1) assms(2)] hq.valid_pop [OF inv(1) assms(2)] by (simp_all add: i_def h_def)
qed

lemma rt_popped_simps [simp]:
  "rt_pending (rt_popped s) = snd (heappop (rt_key s) (rt_pending s))" "rt_new (rt_popped s) = rt_new s"
  "tm_at (rt_popped s) = tm_at s" "tm_made (rt_popped s) = tm_made s" "tm_now (rt_popped s) = tm_now s"
  "rt_ran (rt_popped s) = rt_ran s" "rt_key (rt_popped s) = rt_key s" "tm_agenda (rt_popped s) = tm_agenda s"
  by (simp_all add: rt_popped_def)

lemma rt_dropped:
  assumes "rt_inv s" "rt_pending s \<noteq> []" "dc_cancelled (tm_at s (rt_pending s ! 0))"
  shows "rt_inv (rt_popped s)"
  using assms(1,3) rt_root [OF assms(1,2)] by (auto simp: rt_inv_def dc_active_def)

lemma rt_started:
  assumes "rt_inv s" "rt_pending s \<noteq> []"
  defines "i \<equiv> rt_pending s ! 0"
  assumes "\<not> dc_cancelled (tm_at s i)"
  shows "rt_inv (rt_started s)" "tm_agenda (rt_started s) = (tm_agenda s)(i := None)"
    "rt_ran (rt_started s) = rt_ran s @ [(i, tm_time s i)]" "tm_made (rt_started s) = tm_made s"
    "rt_new (rt_started s) = rt_new s" "tm_now (rt_started s) = tm_now s"
proof -
  note root = rt_root [OF assms(1,2), folded i_def]
  have key: "rt_key (rt_started s) = rt_key s"
    by (simp add: rt_started_def Let_def rt_key_def fun_eq_iff)
  have "dc_active (tm_at s j) \<longrightarrow> j \<in> set (rt_pending (rt_started s) @ rt_new s)" if "j < tm_made s" "j \<noteq> i" for j
    using that assms(1) root by (auto simp: rt_inv_def rt_started_def Let_def)
  with key root assms(1,4) show "rt_inv (rt_started s)"
    unfolding rt_inv_def by (auto simp: rt_started_def Let_def i_def [symmetric] dc_active_def)
qed (simp_all add: rt_started_def Let_def i_def tm_agenda_upd_inactive)

lemma rt_deferred:
  assumes "rt_inv s" "rt_pending s \<noteq> []"
  defines "i \<equiv> rt_pending s ! 0"
  shows "rt_inv (rt_deferred s)" "tm_agenda (rt_deferred s) = tm_agenda s"
    "rt_ran (rt_deferred s) = rt_ran s" "tm_made (rt_deferred s) = tm_made s"
    "rt_new (rt_deferred s) = rt_new s" "tm_now (rt_deferred s) = tm_now s"
proof -
  note root = rt_root [OF assms(1,2), folded i_def]
  let ?t = "tm_upd i dc_activate_delay (rt_popped s)"
  have "is_heap (rt_key ?t) (rt_pending ?t) = is_heap (rt_key s) (rt_pending ?t)"
    by (rule hq.valid_cong) (use root in auto)
  then have "is_heap (rt_key ?t) (heappush (rt_key ?t) (rt_pending ?t) i)"
    using root by (simp add: hq.valid_push)
  with root assms(1) show "rt_inv (rt_deferred s)"
    by (simp add: rt_deferred_def Let_def i_def [symmetric] rt_inv_def hq.set_push hq.distinct_push)
      (auto simp: dc_activate_delay_def)
  show "tm_agenda (rt_deferred s) = tm_agenda s"
    using root(1) by (cases "dc_active (tm_at s i)")
      (auto simp: rt_deferred_def Let_def i_def [symmetric] tm_agenda_upd_time tm_agenda_active tm_agenda_upd_inactive tm_agenda_inactive fun_upd_idem)
qed (simp_all add: rt_deferred_def Let_def)

definition rt_progress :: "time \<Rightarrow> 'f reactor \<Rightarrow> 'f reactor \<Rightarrow> bool" where
  "rt_progress now s t \<longleftrightarrow> rt_inv t \<and> tm_made s \<le> tm_made t \<and> set (rt_new t) \<subseteq> set (rt_new s) \<union> {tm_made s..} \<and>
     (\<exists>r. rt_ran t = rt_ran s @ r \<and> (\<forall>x \<in> set r. snd x \<le> now))"

lemma rt_progress_trans: "rt_progress now s t \<Longrightarrow> rt_progress now t u \<Longrightarrow> rt_progress now s u"
proof -
  assume st: "rt_progress now s t" and tu: "rt_progress now t u"
  obtain r q where "rt_ran t = rt_ran s @ r" "rt_ran u = rt_ran t @ q" "\<forall>x \<in> set (r @ q). snd x \<le> now"
    using st tu unfolding rt_progress_def set_append by blast
  then have "\<exists>r. rt_ran u = rt_ran s @ r \<and> (\<forall>x \<in> set r. snd x \<le> now)" by (intro exI [of _ "r @ q"]) simp
  moreover have "rt_inv u" "tm_made s \<le> tm_made u" "set (rt_new u) \<subseteq> set (rt_new s) \<union> {tm_made s..}"
    using st tu by (auto simp: rt_progress_def)
  ultimately show ?thesis by (simp add: rt_progress_def)
qed

lemma rt_round_progress:
  assumes "rt_inv s" "rt_pending s \<noteq> []" "rt_key s (rt_pending s ! 0) \<le> now"
  shows "rt_progress now s (rt_round beh s)"
proof -
  let ?i = "rt_pending s ! 0"
  consider "dc_cancelled (tm_at s ?i)" | "\<not> dc_cancelled (tm_at s ?i)" "0 < dc_delayed_time (tm_at s ?i)"
    | "\<not> dc_cancelled (tm_at s ?i)" "\<not> 0 < dc_delayed_time (tm_at s ?i)" by blast
  then show ?thesis
  proof cases
    case 1
    with assms rt_dropped show ?thesis by (auto simp: rt_round_cases rt_progress_def)
  next
    case 2
    with assms rt_deferred [OF assms(1,2)] show ?thesis by (auto simp: rt_round_cases rt_progress_def)
  next
    case 3
    have "tm_time s ?i = rt_key s ?i" using 3 rt_root(3) [OF assms(1,2)] by (simp add: tm_time_def dc_getTime_def rt_key_def)
    with assms(3) have time: "tm_time s ?i \<le> now" by simp
    note start = rt_started [OF assms(1,2) 3(1)]
    have "rt_keeps (rt_started s) (rt_call beh (dc_func (tm_at s ?i)) (rt_started s))"
      by (rule rt_call_keeps [OF start(1)])
    with 3 start time show ?thesis by (simp add: rt_round_cases [OF assms(1,2)] rt_progress_def rt_keeps_def)
  qed
qed

lemma rt_loop_progress: "rt_inv s \<Longrightarrow> rt_progress now s (rt_loop beh now s) \<and> (\<forall>i \<in> set (rt_pending (rt_loop beh now s)). now < rt_key (rt_loop beh now s) i)"
proof (induction beh now s rule: rt_loop.induct)
  case (1 beh now s)
  show ?case
  proof (cases "rt_pending s \<noteq> [] \<and> rt_key s (rt_pending s ! 0) \<le> now")
    case True
    then have step: "rt_progress now s (rt_round beh s)" using rt_round_progress [OF "1.prems"] by blast
    then have "rt_inv (rt_round beh s)" by (simp add: rt_progress_def)
    from "1.IH" [OF True this] rt_progress_trans [OF step] True show ?thesis
      by (subst (1 2 3) rt_loop.simps) simp
  next
    case False
    have "rt_progress now s s" using "1.prems" by (simp add: rt_progress_def)
    moreover have "\<forall>i \<in> set (rt_pending s). now < rt_key s i"
      using False hq.nothing_due [of "rt_key s" "rt_pending s" now] "1.prems" by (auto simp: rt_inv_def not_le)
    moreover have "rt_loop beh now s = s" using False by (subst rt_loop.simps) auto
    ultimately show ?thesis by simp
  qed
qed


lemma rt_compact:
  assumes "rt_inv s"
  shows "rt_inv (rt_compact s) \<and> tm_agenda (rt_compact s) = tm_agenda s \<and> tm_made (rt_compact s) = tm_made s \<and>
    rt_new (rt_compact s) = rt_new s \<and> rt_ran (rt_compact s) = rt_ran s \<and> rt_key (rt_compact s) = rt_key s \<and>
    tm_now (rt_compact s) = tm_now s \<and> set (rt_pending (rt_compact s)) \<subseteq> set (rt_pending s)"
proof -
  let ?h = "filter (\<lambda>i. \<not> dc_cancelled (tm_at s i)) (rt_pending s)"
  have "rt_inv (s\<lparr>rt_cancellations := 0, rt_pending := heapify (rt_key s) ?h\<rparr>)"
    using assms by (simp add: rt_inv_def hq.valid_build hq.distinct_build hq.set_build) (auto simp: dc_active_def)
  then show ?thesis using assms by (simp add: rt_compact_def hq.set_build)
qed

lemma rt_runThreadCalls_fold:
  "rt_inv s \<Longrightarrow> rt_keeps s (fold (\<lambda>f s. rt_call beh f (s\<lparr>rt_threadRan := rt_threadRan s @ [f]\<rparr>)) fs s)"
proof (induction fs arbitrary: s)
  case (Cons f fs)
  let ?t = "rt_call beh f (s\<lparr>rt_threadRan := rt_threadRan s @ [f]\<rparr>)"
  have step: "rt_keeps s ?t"
    using rt_call_keeps [of "s\<lparr>rt_threadRan := rt_threadRan s @ [f]\<rparr>" beh f] Cons.prems by (simp add: rt_keeps_def)
  then have "rt_inv ?t" by (simp add: rt_keeps_def)
  from rt_keeps_trans [OF step Cons.IH [OF this]] show ?case by simp
qed (simp add: rt_keeps_def)

lemma rt_runThreadCalls: "rt_inv s \<Longrightarrow> rt_keeps s (rt_runThreadCalls beh s)"
  using rt_runThreadCalls_fold [of s beh "rt_threadCallQueue s"]
  by (simp add: rt_runThreadCalls_def Let_def rt_keeps_def rt_wakeUp_def)

section \<open>The thread queue\<close>

text \<open>Functions are only added to the queue, and each that is given is added to it.\<close>

definition rt_queues :: "'f reactor \<Rightarrow> 'f reactor \<Rightarrow> bool" where
  "rt_queues s t \<longleftrightarrow> rt_threadRan t = rt_threadRan s \<and>
     (\<exists>fs. rt_threadCallQueue t = rt_threadCallQueue s @ fs \<and> rt_threadGiven t = rt_threadGiven s @ fs)"

lemma rt_queues_same:
  "rt_threadRan t = rt_threadRan s \<Longrightarrow> rt_threadCallQueue t = rt_threadCallQueue s \<Longrightarrow> rt_threadGiven t = rt_threadGiven s \<Longrightarrow> rt_queues s t"
  by (simp add: rt_queues_def)

lemma rt_queues_trans: "rt_queues s t \<Longrightarrow> rt_queues t u \<Longrightarrow> rt_queues s u"
  by (auto simp: rt_queues_def)

lemma rt_op_queues: "rt_queues s (rt_op p s)"
proof -
  have "rt_queues s (state_of (rt_timer_op p s))" for p
    by (rule rt_queues_same) (cases p; simp add: rt_method_defs rt_moveCallLaterSooner_def tm_upd_def)+
  then show ?thesis by (cases p) (auto simp: rt_wakeUp_def rt_queues_def)
qed

lemma rt_perform_queues: "rt_queues s (rt_perform ops s)"
proof (induction ops arbitrary: s)
  case Nil
  show ?case by (rule rt_queues_same) (simp_all add: rt_perform_def)
next
  case (Cons p ops)
  from rt_queues_trans [OF rt_op_queues [of s p] Cons.IH [of "rt_op p s"]] show ?case by (simp add: rt_perform_def)
qed

lemma rt_call_queues: "rt_queues s (rt_call beh f s)"
  by (simp add: rt_call_def rt_perform_queues)

lemma rt_runThreadCalls_queues:
  "\<exists>fs. rt_threadCallQueue (rt_runThreadCalls beh s) = fs \<and> rt_threadGiven (rt_runThreadCalls beh s) = rt_threadGiven s @ fs \<and>
    rt_threadRan (rt_runThreadCalls beh s) = rt_threadRan s @ rt_threadCallQueue s"
proof -
  have "\<exists>fs. rt_threadCallQueue t = rt_threadCallQueue s @ fs \<and> rt_threadGiven t = rt_threadGiven s @ fs \<and> rt_threadRan t = rt_threadRan s @ gs"
    if "t = fold (\<lambda>f s. rt_call beh f (s\<lparr>rt_threadRan := rt_threadRan s @ [f]\<rparr>)) gs s" for gs t
    using that
  proof (induction gs arbitrary: s)
    case (Cons g gs)
    have "rt_queues (s\<lparr>rt_threadRan := rt_threadRan s @ [g]\<rparr>) (rt_call beh g (s\<lparr>rt_threadRan := rt_threadRan s @ [g]\<rparr>))"
      by (rule rt_call_queues)
    then obtain fs where "rt_threadCallQueue (rt_call beh g (s\<lparr>rt_threadRan := rt_threadRan s @ [g]\<rparr>)) = rt_threadCallQueue s @ fs"
      "rt_threadGiven (rt_call beh g (s\<lparr>rt_threadRan := rt_threadRan s @ [g]\<rparr>)) = rt_threadGiven s @ fs"
      "rt_threadRan (rt_call beh g (s\<lparr>rt_threadRan := rt_threadRan s @ [g]\<rparr>)) = rt_threadRan s @ [g]" by (auto simp: rt_queues_def)
    with Cons.IH [of "rt_call beh g (s\<lparr>rt_threadRan := rt_threadRan s @ [g]\<rparr>)"] Cons.prems show ?case by fastforce
  qed simp
  from this [OF refl, of "rt_threadCallQueue s"] show ?thesis by (auto simp: rt_runThreadCalls_def Let_def rt_wakeUp_def)
qed

lemma rt_insert_queues: "rt_queues s (rt_insertNewDelayedCalls s)"
proof -
  have "rt_threadRan (fold rt_insertNewDelayedCall js s) = rt_threadRan s \<and>
      rt_threadCallQueue (fold rt_insertNewDelayedCall js s) = rt_threadCallQueue s \<and>
      rt_threadGiven (fold rt_insertNewDelayedCall js s) = rt_threadGiven s" for js
    by (induction js arbitrary: s) (simp_all add: rt_insertNewDelayedCall_def Let_def tm_upd_def)
  then show ?thesis by (intro rt_queues_same) (simp_all add: rt_insertNewDelayedCalls_def)
qed

lemma rt_round_queues: "rt_queues s (rt_round beh s)"
proof -
  obtain i rest where pop: "heappop (rt_key s) (rt_pending s) = (i, rest)" by fastforce
  let ?t = "s\<lparr>rt_pending := rest\<rparr>"
  let ?u = "tm_upd i (\<lambda>c. c\<lparr>dc_called := True\<rparr>) (?t\<lparr>rt_ran := rt_ran ?t @ [(i, tm_time ?t i)]\<rparr>)"
  have "rt_queues s ?u" by (rule rt_queues_same) (simp_all add: tm_upd_def)
  then have called: "rt_queues s (rt_call beh (dc_func (tm_at s i)) ?u)" by (rule rt_queues_trans [OF _ rt_call_queues])
  consider "dc_cancelled (tm_at s i)" | "\<not> dc_cancelled (tm_at s i)" "0 < dc_delayed_time (tm_at s i)"
    | "\<not> dc_cancelled (tm_at s i)" "\<not> 0 < dc_delayed_time (tm_at s i)" by blast
  then show ?thesis
    by cases (use called in \<open>simp_all add: rt_round_def pop Let_def rt_queues_same tm_upd_def\<close>)
qed

lemma rt_loop_queues: "rt_queues s (rt_loop beh now s)"
proof (induction beh now s rule: rt_loop.induct)
  case (1 beh now s)
  show ?case
  proof (cases "rt_pending s \<noteq> [] \<and> rt_key s (rt_pending s ! 0) \<le> now")
    case True
    from rt_queues_trans [OF rt_round_queues "1.IH" [OF True]] True show ?thesis by (subst rt_loop.simps) simp
  qed (subst rt_loop.simps, auto intro: rt_queues_same)
qed

lemma rt_runUntilCurrent_queues:
  "rt_threadGiven (rt_runUntilCurrent beh s) = rt_threadGiven s @ rt_threadCallQueue (rt_runUntilCurrent beh s) \<and>
   rt_threadRan (rt_runUntilCurrent beh s) = rt_threadRan s @ rt_threadCallQueue s"
proof -
  let ?a = "rt_runThreadCalls beh s"
  let ?b = "rt_insertNewDelayedCalls ?a"
  let ?c = "rt_loop beh (tm_now ?b) ?b"
  from rt_runThreadCalls_queues [of beh s] rt_queues_trans [OF rt_insert_queues rt_loop_queues, of ?a beh "tm_now ?b"]
  have "rt_threadGiven ?c = rt_threadGiven s @ rt_threadCallQueue ?c \<and> rt_threadRan ?c = rt_threadRan s @ rt_threadCallQueue s"
    by (auto simp: rt_queues_def)
  then show ?thesis by (simp add: rt_runUntilCurrent_def Let_def rt_fireShutdown_def rt_compact_def)
qed

text \<open>Whatever is done from outside between the iterations of a reactor.\<close>

datatype 'f reactor_step = Does "'f reactor_op" | Iterates

fun rt_step :: "'f rt_behaviour \<Rightarrow> 'f reactor_step \<Rightarrow> 'f reactor \<Rightarrow> 'f reactor" where
  "rt_step beh (Does p) s = rt_op p s"
| "rt_step beh Iterates s = rt_runUntilCurrent beh s"

lemma rt_steps_queues:
  "rt_threadGiven s = rt_threadRan s @ rt_threadCallQueue s \<Longrightarrow>
    rt_threadGiven (fold (rt_step beh) xs s) = rt_threadRan (fold (rt_step beh) xs s) @ rt_threadCallQueue (fold (rt_step beh) xs s)"
proof (induction xs arbitrary: s)
  case (Cons x xs)
  have "rt_threadGiven (rt_step beh x s) = rt_threadRan (rt_step beh x s) @ rt_threadCallQueue (rt_step beh x s)"
  proof (cases x)
    case (Does p)
    with rt_op_queues [of s p] Cons.prems show ?thesis by (auto simp: rt_queues_def)
  next
    case Iterates
    with rt_runUntilCurrent_queues [of beh s] Cons.prems show ?thesis by simp
  qed
  with Cons.IH show ?case by simp
qed simp

section \<open>Functions that leave the timers alone\<close>

lemma rt_loop_stop: "\<not> (rt_pending s \<noteq> [] \<and> rt_key s (rt_pending s ! 0) \<le> now) \<Longrightarrow> rt_loop beh now s = s"
  by (subst rt_loop.simps) auto

lemma rt_loop_step: "rt_pending s \<noteq> [] \<and> rt_key s (rt_pending s ! 0) \<le> now \<Longrightarrow> rt_loop beh now s = rt_loop beh now (rt_round beh s)"
  by (subst rt_loop.simps) auto

lemma rt_not_due:
  assumes "rt_inv s" "rt_new s = []" "\<forall>i \<in> set (rt_pending s). now < rt_key s i"
  shows "ag_due now (tm_agenda s) = {}"
proof -
  have "now < tm_time s i" if "i < tm_made s" "dc_active (tm_at s i)" for i
  proof -
    have "i \<in> set (rt_pending s)" "0 \<le> dc_delayed_time (tm_at s i)" using that assms(1,2) by (auto simp: rt_inv_def)
    with assms(3) show ?thesis by (auto simp: tm_time_def dc_getTime_def rt_key_def intro: less_le_trans)
  qed
  then show ?thesis by (fastforce simp: ag_due_def tm_agenda_def split: if_splits)
qed

lemma rt_loop_quiet:
  "beh = (\<lambda>f u. []) \<Longrightarrow> rt_inv s \<Longrightarrow> rt_new s = [] \<Longrightarrow> \<forall>i \<in> set (rt_pending s). v \<le> rt_key s i \<Longrightarrow>
    \<exists>r. rt_ran (rt_loop beh now s) = rt_ran s @ r \<and> sorted (map snd r) \<and> (\<forall>x \<in> set r. v \<le> snd x) \<and>
      (\<forall>x \<in> set r. map_option fst (tm_agenda s (fst x)) = Some (snd x)) \<and> fst ` set r = ag_due now (tm_agenda s) \<and>
      tm_agenda (rt_loop beh now s) = (\<lambda>i. if i \<in> ag_due now (tm_agenda s) then None else tm_agenda s i)"
proof (induction beh now s arbitrary: v rule: rt_loop.induct)
  case (1 beh now s)
  show ?case
  proof (cases "rt_pending s \<noteq> [] \<and> rt_key s (rt_pending s ! 0) \<le> now")
    case False
    then have "\<forall>i \<in> set (rt_pending s). now < rt_key s i"
      using hq.nothing_due [of "rt_key s" "rt_pending s" now] "1.prems"(2) by (auto simp: rt_inv_def not_le)
    then have "ag_due now (tm_agenda s) = {}" by (rule rt_not_due [OF "1.prems"(2,3)])
    with rt_loop_stop [OF False] show ?thesis by simp
  next
    case True
    then have ne: "rt_pending s \<noteq> []" by simp
    let ?i = "rt_pending s ! 0"
    note root = rt_root [OF "1.prems"(2) ne]
    note step = rt_loop_step [OF True, of beh] and IH = "1.IH" [OF True "1.prems"(1)]
    have least: "rt_key s ?i \<le> rt_key s j" if "j \<in> set (rt_pending s)" for j
      using hq.valid_first [of "rt_key s" "rt_pending s"] "1.prems"(2) that by (simp add: rt_inv_def)
    have v: "v \<le> rt_key s ?i" using "1.prems"(4) ne by simp
    consider "dc_cancelled (tm_at s ?i)" | "\<not> dc_cancelled (tm_at s ?i)" "0 < dc_delayed_time (tm_at s ?i)"
      | "\<not> dc_cancelled (tm_at s ?i)" "\<not> 0 < dc_delayed_time (tm_at s ?i)" by blast
    then show ?thesis
    proof cases
      case 1
      then have round: "rt_round beh s = (rt_popped s)\<lparr>rt_cancellations := rt_cancellations s - 1\<rparr>"
        by (simp add: rt_round_cases [OF "1.prems"(2) ne])
      have "\<forall>j \<in> set (rt_pending (rt_round beh s)). v \<le> rt_key (rt_round beh s) j"
        using "1.prems"(4) root(6) by (simp add: round)
      note IH [OF _ _ this]
      moreover have "rt_inv (rt_round beh s)" "rt_new (rt_round beh s) = []" "tm_agenda (rt_round beh s) = tm_agenda s"
        "rt_ran (rt_round beh s) = rt_ran s" using rt_dropped [OF "1.prems"(2) ne 1] "1.prems"(3) by (simp_all add: round)
      ultimately show ?thesis unfolding step by (simp only:)
    next
      case 2
      then have round: "rt_round beh s = rt_deferred s" by (simp add: rt_round_cases [OF "1.prems"(2) ne])
      have "\<forall>j \<in> set (rt_pending (rt_round beh s)). v \<le> rt_key (rt_round beh s) j"
        using "1.prems"(4) root(6) 2 v by (auto simp: round rt_deferred_def Let_def hq.set_push dc_activate_delay_def rt_key_def)
      note IH [OF _ _ this]
      moreover have "rt_inv (rt_round beh s)" "rt_new (rt_round beh s) = []" "tm_agenda (rt_round beh s) = tm_agenda s"
        "rt_ran (rt_round beh s) = rt_ran s" using rt_deferred [OF "1.prems"(2) ne] "1.prems"(3) by (simp_all add: round)
      ultimately show ?thesis unfolding step by (simp only:)
    next
      case 3
      note start = rt_started [OF "1.prems"(2) ne 3(1)]
      have round: "rt_round beh s = rt_started s"
        using 3 "1.prems"(1) by (simp add: rt_round_cases [OF "1.prems"(2) ne] rt_call_def rt_perform_def)
      have time: "tm_time s ?i = rt_key s ?i" using 3 root(3) by (simp add: tm_time_def dc_getTime_def rt_key_def)
      have agenda: "tm_agenda s ?i = Some (rt_key s ?i, dc_func (tm_at s ?i))"
        using 3 root time by (simp add: tm_agenda_def dc_active_def)
      then have due: "?i \<in> ag_due now (tm_agenda s)" using True by (simp add: ag_due_def)
      have "\<forall>j \<in> set (rt_pending (rt_round beh s)). rt_key s ?i \<le> rt_key (rt_round beh s) j"
        using least root(6) by (auto simp: round rt_started_def Let_def rt_key_def)
      note IH [OF _ _ this]
      moreover have "rt_inv (rt_round beh s)" "rt_new (rt_round beh s) = []" "tm_agenda (rt_round beh s) = (tm_agenda s)(?i := None)"
        "rt_ran (rt_round beh s) = rt_ran s @ [(?i, rt_key s ?i)]" using start "1.prems"(3) by (simp_all add: round time)
      ultimately obtain r where r: "rt_ran (rt_loop beh now (rt_round beh s)) = (rt_ran s @ [(?i, rt_key s ?i)]) @ r"
        "sorted (map snd r)" "\<forall>x \<in> set r. rt_key s ?i \<le> snd x"
        "\<forall>x \<in> set r. map_option fst (((tm_agenda s)(?i := None)) (fst x)) = Some (snd x)"
        "fst ` set r = ag_due now ((tm_agenda s)(?i := None))"
        "tm_agenda (rt_loop beh now (rt_round beh s)) = (\<lambda>i. if i \<in> ag_due now ((tm_agenda s)(?i := None)) then None else ((tm_agenda s)(?i := None)) i)"
        by (simp only:) blast
      have rest: "ag_due now ((tm_agenda s)(?i := None)) = ag_due now (tm_agenda s) - {?i}" by (auto simp: ag_due_def)
      show ?thesis
        unfolding step
      proof (intro exI [of _ "(?i, rt_key s ?i) # r"] conjI)
        show "tm_agenda (rt_loop beh now (rt_round beh s)) = (\<lambda>i. if i \<in> ag_due now (tm_agenda s) then None else tm_agenda s i)"
          using r(6) due by (auto simp: rest fun_eq_iff)
        show "\<forall>x \<in> set ((?i, rt_key s ?i) # r). map_option fst (tm_agenda s (fst x)) = Some (snd x)"
          using r(4) agenda by (auto split: if_splits)
      qed (use r v rest due in \<open>auto intro: order_trans\<close>)
    qed
  qed
qed


text \<open>Such functions leave also the clock, the number of the calls and the thread queue as they are.\<close>

lemma rt_round_quiet:
  "tm_made (rt_round (\<lambda>f u. []) s) = tm_made s \<and> tm_now (rt_round (\<lambda>f u. []) s) = tm_now s \<and>
    rt_threadCallQueue (rt_round (\<lambda>f u. []) s) = rt_threadCallQueue s"
  by (simp add: rt_round_def rt_call_def rt_perform_def Let_def split: prod.split)

lemma rt_loop_quiet_keeps:
  "beh = (\<lambda>f u. []) \<Longrightarrow> tm_made (rt_loop beh now s) = tm_made s \<and> tm_now (rt_loop beh now s) = tm_now s \<and>
    rt_threadCallQueue (rt_loop beh now s) = rt_threadCallQueue s"
proof (induction beh now s rule: rt_loop.induct)
  case (1 beh now s)
  with rt_round_quiet [of s] show ?case by (subst (1 2 3) rt_loop.simps) simp
qed

lemma rt_insert_queue: "rt_threadCallQueue (rt_insertNewDelayedCalls s) = rt_threadCallQueue s"
proof -
  have "rt_threadCallQueue (fold rt_insertNewDelayedCall js s) = rt_threadCallQueue s" for js
    by (induction js arbitrary: s) (simp_all add: rt_insertNewDelayedCall_def Let_def tm_upd_def)
  then show ?thesis by (simp add: rt_insertNewDelayedCalls_def)
qed

lemma rt_runUntilCurrent_quiet:
  assumes "rt_inv s" "rt_threadCallQueue s = []"
  defines "t \<equiv> rt_runUntilCurrent (\<lambda>f u. []) s"
  shows "rt_inv t" "rt_threadCallQueue t = []" "tm_made t = tm_made s" "tm_now t = tm_now s"
    "\<exists>r. rt_ran t = rt_ran s @ r \<and> sorted (map snd r) \<and> distinct (map fst r) \<and>
      (\<forall>x \<in> set r. map_option fst (tm_agenda s (fst x)) = Some (snd x)) \<and> fst ` set r = ag_due (tm_now s) (tm_agenda s) \<and>
      tm_agenda t = (\<lambda>i. if i \<in> ag_due (tm_now s) (tm_agenda s) then None else tm_agenda s i)"
proof -
  let ?b = "rt_insertNewDelayedCalls s"
  let ?l = "rt_loop (\<lambda>f u. []) (tm_now s) ?b"
  note b = rt_insertNewDelayedCalls [OF assms(1)]
  have run: "t = rt_fireShutdown (rt_compact ?l)"
    using b assms(2) by (simp add: t_def rt_runUntilCurrent_def rt_runThreadCalls_def)
  have inv: "rt_inv ?l" using rt_loop_progress [of ?b "tm_now s"] b by (simp add: rt_progress_def)
  note c = rt_compact [OF inv]
  show "rt_inv t" using c by (simp add: run rt_fireShutdown_def)
  have "rt_threadCallQueue (rt_compact ?l) = rt_threadCallQueue ?l" by (simp add: rt_compact_def)
  with c b rt_loop_quiet_keeps [OF refl, of "tm_now s" ?b] rt_insert_queue [of s] assms(2)
  show "rt_threadCallQueue t = []" "tm_made t = tm_made s" "tm_now t = tm_now s" by (simp_all add: run rt_fireShutdown_def)
  have low: "\<exists>v. \<forall>i \<in> set (rt_pending ?b). v \<le> rt_key ?b i"
    by (cases "rt_pending ?b = []") (use hq.valid_first [of "rt_key ?b" "rt_pending ?b"] b in \<open>auto simp: rt_inv_def\<close>)
  then obtain v where "\<forall>i \<in> set (rt_pending ?b). v \<le> rt_key ?b i" ..
  from rt_loop_quiet [OF refl _ _ this, of "tm_now s"] b obtain r where r: "rt_ran ?l = rt_ran s @ r" "sorted (map snd r)"
    "\<forall>x \<in> set r. map_option fst (tm_agenda s (fst x)) = Some (snd x)" "fst ` set r = ag_due (tm_now s) (tm_agenda s)"
    "tm_agenda ?l = (\<lambda>i. if i \<in> ag_due (tm_now s) (tm_agenda s) then None else tm_agenda s i)"
    by (auto cong del: if_weak_cong)
  have "distinct (map fst (rt_ran ?l))" using inv by (simp add: rt_inv_def)
  then have "distinct (map fst r)" by (simp add: r(1))
  moreover have "rt_ran t = rt_ran ?l" "tm_agenda t = tm_agenda ?l" using c by (simp_all add: run rt_fireShutdown_def)
  ultimately show "\<exists>r. rt_ran t = rt_ran s @ r \<and> sorted (map snd r) \<and> distinct (map fst r) \<and>
      (\<forall>x \<in> set r. map_option fst (tm_agenda s (fst x)) = Some (snd x)) \<and> fst ` set r = ag_due (tm_now s) (tm_agenda s) \<and>
      tm_agenda t = (\<lambda>i. if i \<in> ag_due (tm_now s) (tm_agenda s) then None else tm_agenda s i)"
    using r by (intro exI [of _ r]) simp
qed

section \<open>The reactor and the \<open>Clock\<close> side by side\<close>

text \<open>
  A turn of each: operations on the timers, some time, and then an iteration or \<open>advance\<close>, with
  scheduled functions that do nothing to the timers.
\<close>

definition rt_turn :: "'f timer_op list \<times> time \<Rightarrow> 'f reactor \<Rightarrow> 'f reactor" where
  "rt_turn = (\<lambda>(ops, d) s. rt_runUntilCurrent (\<lambda>f u. []) (rt_perform (map Timer ops @ [Elapse d]) s))"

definition clk_turn :: "'f timer_op list \<times> time \<Rightarrow> 'f clock \<Rightarrow> 'f clock option" where
  "clk_turn = (\<lambda>(ops, d) c. case clk_advance (\<lambda>f u. ([], False)) d (clk_perform ops c) of Some (Ok c') \<Rightarrow> Some c' | _ \<Rightarrow> None)"

fun clk_turns :: "('f timer_op list \<times> time) list \<Rightarrow> 'f clock \<Rightarrow> 'f clock option" where
  "clk_turns [] c = Some c"
| "clk_turns (x # xs) c = (case clk_turn x c of None \<Rightarrow> None | Some c \<Rightarrow> clk_turns xs c)"

definition turn_legal :: "'f timer_op list \<times> time \<Rightarrow> bool" where
  "turn_legal x \<longleftrightarrow> list_all rt_legal (fst x) \<and> 0 \<le> snd x"

text \<open>The same timers are scheduled.\<close>

definition same_timers :: "'f reactor \<Rightarrow> 'f clock \<Rightarrow> bool" where
  "same_timers s c \<longleftrightarrow> tm_agenda s = tm_agenda c \<and> tm_made s = tm_made c \<and> tm_now s = tm_now c"

text \<open>
  The reactor made the calls \<open>r\<close>, each with its time, and the clock \<open>q\<close>: the same calls, both in
  the order of their times; only calls for one time can come in another order.
\<close>

definition same_calls :: "(nat \<times> time) list \<Rightarrow> nat list \<Rightarrow> bool" where
  "same_calls r q \<longleftrightarrow> sorted (map snd r) \<and> (\<exists>x. map fst x = q \<and> mset x = mset r \<and> map snd x = map snd r)"

definition rt_related :: "'f reactor \<Rightarrow> 'f clock \<Rightarrow> bool" where
  "rt_related s c \<longleftrightarrow> rt_inv s \<and> clk_inv c \<and> rt_threadCallQueue s = [] \<and> same_timers s c"

lemma rt_perform_timers: "rt_perform (map Timer ops) s = rt.perform ops s"
  by (induction ops arbitrary: s) (simp_all add: rt_perform_def rt.perform_def)

lemma rt_perform_queue: "rt_threadCallQueue (rt.perform ops s) = rt_threadCallQueue s"
proof (induction ops arbitrary: s)
  case (Cons p ops)
  have "rt_threadCallQueue (state_of (rt_timer_op p s)) = rt_threadCallQueue s"
    by (cases p) (simp_all add: rt_method_defs)
  with Cons show ?case by (simp add: rt.perform_def)
qed (simp add: rt.perform_def)

lemma rt_related_elapse:
  assumes "rt_related s c" "turn_legal (ops, d)"
  defines "s' \<equiv> rt_perform (map Timer ops @ [Elapse d]) s" and "c' \<equiv> clk_perform ops c"
  shows "rt_inv s'" "clk_inv c'" "rt_threadCallQueue s' = []" "tm_agenda s' = tm_agenda c'" "tm_made s' = tm_made c'" "tm_now s' = tm_now c' + d"
    "rt_ran s' = rt_ran s" "clk_ran c' = clk_ran c"
proof -
  have rel: "rt_inv s" "clk_inv c" "rt_threadCallQueue s = []" "tm_agenda s = tm_agenda c" "tm_made s = tm_made c" "tm_now s = tm_now c"
    using assms(1) by (simp_all add: rt_related_def same_timers_def)
  have legal: "filter rt_legal ops = ops" "0 \<le> d" using assms(2) by (simp_all add: turn_legal_def filter_id_conv list_all_iff)
  have s': "s' = (rt.perform ops s)\<lparr>tm_now := tm_now s + d\<rparr>"
    using legal(2) rt_perform_timers [of ops s] by (simp add: s'_def rt_perform_def)
  have "(tm_made (rt.perform ops s), tm_agenda (rt.perform ops s)) = (tm_made c', tm_agenda c')"
    using rt.perform_agenda [OF rel(1), of ops] clk.perform_agenda [OF rel(2), of ops] rel(4-6) by (simp add: legal c'_def clk_perform)
  then show "tm_agenda s' = tm_agenda c'" "tm_made s' = tm_made c'" by (simp_all add: s')
  show "rt_inv s'" "clk_inv c'" "rt_threadCallQueue s' = []" "tm_now s' = tm_now c' + d" "rt_ran s' = rt_ran s" "clk_ran c' = clk_ran c"
    using rt.perform_inv [OF rel(1), of ops] clk.perform_inv [OF rel(2), of ops] rel(3,6)
    by (simp_all add: s' c'_def clk_perform rt_perform_queue)
qed

lemma rt_related_turn:
  assumes "rt_related s c" "turn_legal x"
  shows "\<exists>c' r q. clk_turn x c = Some c' \<and> rt_related (rt_turn x s) c' \<and> rt_ran (rt_turn x s) = rt_ran s @ r \<and>
    clk_ran c' = clk_ran c @ q \<and> same_calls r q"
proof -
  obtain ops d where x: "x = (ops, d)" by fastforce
  define s' where "s' = rt_perform (map Timer ops @ [Elapse d]) s"
  define c' where "c' = clk_perform ops c"
  note e = rt_related_elapse [OF assms(1) assms(2) [unfolded x], folded s'_def c'_def]
  note t = rt_runUntilCurrent_quiet [OF e(1,3)]
  let ?due = "ag_due (tm_now s') (tm_agenda s')"
  from t(5) obtain r where r: "rt_ran (rt_runUntilCurrent (\<lambda>f u. []) s') = rt_ran s @ r" "sorted (map snd r)" "distinct (map fst r)"
    "\<forall>x \<in> set r. map_option fst (tm_agenda s' (fst x)) = Some (snd x)" "fst ` set r = ?due"
    "tm_agenda (rt_runUntilCurrent (\<lambda>f u. []) s') = (\<lambda>i. if i \<in> ?due then None else tm_agenda s' i)"
    unfolding e(7) by blast
  define q where "q = filter (\<lambda>i. tm_time c' i \<le> tm_now c' + d) (sort_key (tm_time c') (clk_calls c'))"
  from clk_advance_quiet [OF e(2), of d] obtain c'' where c'': "clk_advance (\<lambda>f u. ([], False)) d c' = Some (Ok c'')" "clk_inv c''"
    "tm_made c'' = tm_made c'" "tm_now c'' = tm_now c' + d" "clk_ran c'' = clk_ran c @ q" "tm_agenda c'' = (\<lambda>i. if i \<in> ?due then None else tm_agenda c' i)"
    unfolding q_def [symmetric] e(4,6,8) by blast
  have q: "distinct q" "set q = ?due" "sorted (map (tm_time c') q)"
    using e(2) by (auto simp: q_def clk_inv_def ag_due_def tm_agenda_def sorted_filter e(4,6) split: if_splits)
  have ms: "mset (map fst r) = mset q"
    using set_eq_iff_mset_eq_distinct [of "map fst r" q] q(1,2) r(3,5) by simp
  have "x = (fst x, tm_time c' (fst x))" if "x \<in> set r" for x
    using r(4) that by (cases x) (auto simp: e(4) tm_agenda_def split: if_splits)
  then have pairs: "r = map (\<lambda>i. (i, tm_time c' i)) (map fst r)" by (simp add: map_idI comp_def)
  let ?x = "map (\<lambda>i. (i, tm_time c' i)) q"
  have "mset ?x = mset r" by (subst pairs) (simp only: mset_map ms [symmetric])
  moreover from this have "map snd ?x = map snd r"
    using r(2) q(3) by (metis (no_types, lifting) properties_for_sort mset_map map_map comp_apply snd_conv map_eq_conv)
  ultimately have "same_calls r q" using r(2) by (auto simp: same_calls_def comp_def intro!: exI [of _ ?x])
  moreover have "clk_turn x c = Some c''" using c''(1) by (simp add: clk_turn_def x c'_def)
  moreover have "rt_related (rt_turn x s) c''"
    using t(1-4) r(6) [unfolded e(4)] c'' e(4,5,6)
    by (simp add: rt_related_def same_timers_def rt_turn_def x s'_def [symmetric] cong del: if_weak_cong)
  ultimately show ?thesis using r(1) c''(5) by (auto simp: rt_turn_def x s'_def [symmetric])
qed

section \<open>Properties\<close>

text \<open>
  C10: an iteration of the reactor makes the calls that are due, and none early.  Whatever
  the functions it runs do to the timers, \<open>runUntilCurrent\<close> ends; every call it made was
  due, no call is ever made twice or made after it was cancelled, and a call that is due
  when it returns was scheduled during the iteration.  The invariant of the heap is kept.
\<close>

theorem reactor_run_due:
  assumes "rt_inv s" and t_def: "t = rt_runUntilCurrent beh s" and now_def: "now = tm_now (rt_runThreadCalls beh s)"
  shows "rt_inv t \<and>
    (\<exists>r. rt_ran t = rt_ran s @ r \<and> list_all (\<lambda>(i, u). u \<le> now) r) \<and>
    distinct (map fst (rt_ran t)) \<and>
    list_all (\<lambda>(i, u). dc_called (tm_at t i) \<and> \<not> dc_cancelled (tm_at t i)) (rt_ran t) \<and>
    ag_due now (tm_agenda t) \<subseteq> {tm_made s..}"
proof -
  let ?a = "rt_runThreadCalls beh s"
  let ?b = "rt_insertNewDelayedCalls ?a"
  let ?c = "rt_loop beh now ?b"
  let ?d = "rt_compact ?c"
  have a: "rt_keeps s ?a" by (rule rt_runThreadCalls [OF assms(1)])
  then have inv_a: "rt_inv ?a" by (simp add: rt_keeps_def)
  note b = rt_insertNewDelayedCalls [OF inv_a]
  from b have inv_b: "rt_inv ?b" by simp
  note c = rt_loop_progress [OF inv_b, of now beh]
  then have inv_c: "rt_inv ?c" by (simp add: rt_progress_def)
  note d = rt_compact [OF inv_c]
  have t: "t = rt_fireShutdown ?d" using b by (simp add: t_def rt_runUntilCurrent_def Let_def now_def)
  have inv: "rt_inv t" and ran: "rt_ran t = rt_ran ?c" and agenda: "tm_agenda t = tm_agenda ?c"
    using d by (simp_all add: t rt_fireShutdown_def)
  have "\<exists>r. rt_ran t = rt_ran s @ r \<and> list_all (\<lambda>(i, u). u \<le> now) r"
    using a b c ran by (auto simp: rt_keeps_def rt_progress_def list_all_iff case_prod_beta)
  moreover have "i \<ge> tm_made s" if i: "i \<in> ag_due now (tm_agenda t)" for i
  proof -
    from i obtain u f where u: "tm_agenda ?c i = Some (u, f)" "u \<le> now" by (auto simp: agenda ag_due_def)
    then have "i < tm_made ?c" "dc_active (tm_at ?c i)" "u = tm_time ?c i" by (auto simp: tm_agenda_def split: if_splits)
    with inv_c have "i \<in> set (rt_pending ?c) \<or> i \<in> set (rt_new ?c)" "i \<in> set (rt_pending ?c) \<Longrightarrow> 0 \<le> dc_delayed_time (tm_at ?c i)"
      by (auto simp: rt_inv_def)
    moreover have "i \<notin> set (rt_pending ?c)"
      using c u(2) \<open>u = tm_time ?c i\<close> calculation(2) by (force simp: tm_time_def dc_getTime_def rt_key_def)
    ultimately have "i \<in> set (rt_new ?c)" by simp
    with c b a show ?thesis by (fastforce simp: rt_progress_def rt_keeps_def)
  qed
  moreover have "distinct (map fst (rt_ran t))" using inv by (simp add: rt_inv_def)
  moreover have called: "fst x < tm_made t \<and> dc_called (tm_at t (fst x))" if "x \<in> set (rt_ran t)" for x
  proof -
    from that have "fst x \<in> fst ` set (rt_ran t)" by simp
    with inv show ?thesis unfolding rt_inv_def by blast
  qed
  moreover have "\<not> dc_cancelled (tm_at t (fst x))" if "x \<in> set (rt_ran t)" for x
    using called [OF that] inv by (auto simp: rt_inv_def)
  then have "list_all (\<lambda>(i, u). dc_called (tm_at t i) \<and> \<not> dc_cancelled (tm_at t i)) (rt_ran t)"
    using called by (auto simp: list_all_iff)
  ultimately show ?thesis using inv by auto
qed

text \<open>
  The reactor does not sleep past a call.  \<open>timeout\<close> answers \<open>None\<close> only when nothing
  is scheduled; otherwise it is between zero and the bound of the system call, and no
  more than the time left to any scheduled call, however often calls were delayed or
  reset; it does not change what is scheduled.
\<close>

theorem reactor_timeout:
  assumes "rt_inv s" and "rt_timeout s = (t, d)"
  shows "tm_agenda t = tm_agenda s \<and>
    (case d of
       None \<Rightarrow> tm_agenda s = Map.empty
     | Some d \<Rightarrow> 0 \<le> d \<and> d \<le> 2147483 \<and>
         list_all (\<lambda>i. case tm_agenda s i of None \<Rightarrow> True | Some (u, f) \<Rightarrow> d \<le> max 0 (u - tm_now s)) [0..<tm_made s])"
proof -
  let ?t = "rt_insertNewDelayedCalls s"
  note b = rt_insertNewDelayedCalls [OF assms(1)]
  have t: "t = ?t" "d = (if rt_pending ?t = [] then None
             else Some (max 0 (min 2147483 (rt_key ?t (rt_pending ?t ! 0) - tm_now s))))"
    using assms(2) b by (auto simp: rt_timeout_def Let_def)
  have le: "rt_pending ?t \<noteq> [] \<and> rt_key ?t (rt_pending ?t ! 0) \<le> u" if "tm_agenda s i = Some (u, f)" for i u f
  proof -
    from that b have "i < tm_made ?t" "dc_active (tm_at ?t i)" "u = tm_time ?t i"
      by (metis option.distinct(1) tm_agenda_def option.inject prod.inject)+
    with b have i: "i \<in> set (rt_pending ?t)" "0 \<le> dc_delayed_time (tm_at ?t i)" by (auto simp: rt_inv_def)
    then have "rt_key ?t (rt_pending ?t ! 0) \<le> rt_key ?t i" using b by (auto simp: rt_inv_def intro: hq.valid_first)
    also have "\<dots> \<le> u" using i(2) \<open>u = tm_time ?t i\<close> by (simp add: rt_key_def tm_time_def dc_getTime_def)
    finally show ?thesis using i(1) by auto
  qed
  show ?thesis
  proof (cases "rt_pending ?t = []")
    case True
    then have "tm_agenda s i = None" for i using le [of i] by (cases "tm_agenda s i") auto
    with True t b show ?thesis by auto
  next
    case False
    have "max 0 (min 2147483 (rt_key ?t (rt_pending ?t ! 0) - tm_now s)) \<le> max 0 (u - tm_now s)"
      if "tm_agenda s i = Some (u, f)" for i u f
      using le [OF that] by (simp add: max_def min_def)
    with False t b show ?thesis by (auto simp: list_all_iff split: option.split)
  qed
qed

text \<open>
  C11: the reactor and the \<open>Clock\<close> of the tests are the same timers, for scheduled functions
  that do nothing to the timers and as long as nothing is given to the thread queue.  From the
  same agenda, let any turns follow, in each of which there are calls of \<open>callLater\<close> (with a
  delay that is not negative), \<open>cancel\<close>, \<open>reset\<close> and \<open>delay\<close>, then time passes, and then the
  reactor iterates and the clock advances by that time.  In every turn both make the same calls,
  in the order of their times, where only calls for one time may come in another order; and
  afterwards the same calls are scheduled for the same times.  (Functions that schedule something
  for now would separate them: \<open>advance\<close> makes such a call in the same turn, the reactor in the
  next one.)
\<close>

theorem reactor_clock_equivalent:
  assumes "rt_inv s" "clk_inv c" "rt_threadCallQueue s = []" "same_timers s c" "list_all turn_legal xs"
  shows "\<exists>c' rs qs. clk_turns xs c = Some c' \<and> same_timers (fold rt_turn xs s) c' \<and>
    rt_ran (fold rt_turn xs s) = rt_ran s @ concat rs \<and> clk_ran c' = clk_ran c @ concat qs \<and>
    length rs = length xs \<and> list_all2 same_calls rs qs"
proof -
  have "\<exists>c' rs qs. clk_turns xs c = Some c' \<and> rt_related (fold rt_turn xs s) c' \<and>
      rt_ran (fold rt_turn xs s) = rt_ran s @ concat rs \<and> clk_ran c' = clk_ran c @ concat qs \<and>
      length rs = length xs \<and> list_all2 same_calls rs qs" if "rt_related s c"
    using that assms(5)
  proof (induction xs arbitrary: s c)
    case Nil
    then show ?case by (intro exI [of _ c] exI [of _ "[]"]) (simp add: rt_related_def)
  next
    case (Cons x xs)
    from Cons.prems(2) have "turn_legal x" by simp
    from rt_related_turn [OF Cons.prems(1) this] obtain u r q where
      u: "clk_turn x c = Some u" "rt_related (rt_turn x s) u" "rt_ran (rt_turn x s) = rt_ran s @ r" "clk_ran u = clk_ran c @ q" "same_calls r q"
      by blast
    from Cons.IH [OF u(2)] Cons.prems(2) obtain c' rs qs where
      "clk_turns xs u = Some c'" "rt_related (fold rt_turn xs (rt_turn x s)) c'" "rt_ran (fold rt_turn xs (rt_turn x s)) = rt_ran (rt_turn x s) @ concat rs"
      "clk_ran c' = clk_ran u @ concat qs" "length rs = length xs" "list_all2 same_calls rs qs" by auto
    with u show ?case by (intro exI [of _ c'] exI [of _ "r # rs"] exI [of _ "q # qs"]) simp
  qed
  with assms(1-4) show ?thesis unfolding rt_related_def by blast
qed

text \<open>
  C13: functions given to \<open>callFromThread\<close> are run once each, in the order in which they were
  given.  In any run of a reactor, those that were run and then those in the queue are all that
  were given.  After one more iteration all that were given before it have been run, and the
  queue holds those that were given during it, by the functions that it ran or by other
  threads; they wait for the next one.
\<close>

theorem reactor_thread_calls:
  "let s = fold (rt_step beh) xs (rt_init c); t = rt_runUntilCurrent beh s
   in rt_threadGiven s = rt_threadRan s @ rt_threadCallQueue s \<and> rt_threadRan t = rt_threadGiven s \<and>
      rt_threadGiven t = rt_threadGiven s @ rt_threadCallQueue t"
proof -
  let ?s = "fold (rt_step beh) xs (rt_init c)"
  have "rt_threadGiven ?s = rt_threadRan ?s @ rt_threadCallQueue ?s" by (rule rt_steps_queues) (simp add: rt_init_def)
  with rt_runUntilCurrent_queues [of beh ?s] show ?thesis by (simp add: Let_def)
qed

text \<open>The example: a call that schedules another one for now, one that is delayed, one that is cancelled.\<close>

definition rt_example :: "string reactor" where
  "rt_example = rt_perform [Timer (CallLater 3 ''again''), Timer (CallLater 1 ''delayed''), Timer (CallLater 2 ''x''),
     Timer (DelayCall 1 5), Timer (CancelCall 2), Elapse 4] (rt_init (dc_init 0 ''''))"

definition rt_example_beh :: "string rt_behaviour" where
  "rt_example_beh f s = (if f = ''again'' then [Timer (CallLater 0 ''new'')] else [])"

lemma rt_perform_inv: "rt_inv s \<Longrightarrow> rt_inv (rt_perform ops s)"
  using rt_fold_keeps [of s ops] by (simp add: rt_perform_def rt_keeps_def)

lemma rt_inv_example: "rt_inv rt_example"
  unfolding rt_example_def by (rule rt_perform_inv [OF rt_inv_init])

theorem reactor_run_due_witness:
  "\<exists>t. t = rt_runUntilCurrent rt_example_beh rt_example \<and> rt_ran t = [(0, 3)] \<and> rt_getDelayedCalls t = [1, 3] \<and>
    rt_inv t \<and> ag_due 4 (tm_agenda t) \<subseteq> {3..}"
proof -
  have "rt_ran (rt_runUntilCurrent rt_example_beh rt_example) = [(0, 3)]"
    "rt_getDelayedCalls (rt_runUntilCurrent rt_example_beh rt_example) = [1, 3]"
    "tm_now (rt_runThreadCalls rt_example_beh rt_example) = 4" "tm_made rt_example = 3"
    by code_simp+
  with reactor_run_due [OF rt_inv_example refl refl, of rt_example_beh] show ?thesis by simp
qed

theorem reactor_timeout_witness:
  "snd (rt_timeout rt_example) = Some 0 \<and> tm_agenda (fst (rt_timeout rt_example)) = tm_agenda rt_example"
proof -
  have "snd (rt_timeout rt_example) = Some 0" by code_simp
  with reactor_timeout [OF rt_inv_example surjective_pairing] show ?thesis by blast
qed

definition rt_start :: "string reactor" where
  "rt_start = rt_init (dc_init 0 '''')"

definition clk_start :: "string clock" where
  "clk_start = clk_init (dc_init 0 '''')"

definition turns_example :: "(string timer_op list \<times> time) list" where
  "turns_example = [([CallLater 2 ''b'', CallLater 1 ''a'', CallLater 1 ''c''], 1), ([CancelCall 0, CallLater 3 ''d'', DelayCall 3 1], 4)]"

theorem reactor_clock_equivalent_witness:
  "\<exists>c' rs qs. clk_turns turns_example clk_start = Some c' \<and> same_timers (fold rt_turn turns_example rt_start) c' \<and>
    rt_ran (fold rt_turn turns_example rt_start) = concat rs \<and> clk_ran c' = concat qs \<and> list_all2 same_calls rs qs \<and>
    map snd (concat rs) = [1, 1, 5]"
proof -
  have start: "rt_inv rt_start" "clk_inv clk_start" "rt_threadCallQueue rt_start = []" "same_timers rt_start clk_start"
    by (simp_all add: rt_start_def clk_start_def rt_inv_init clk_inv_init same_timers_def)
      (simp_all add: rt_init_def clk_init_def tm_agenda_def fun_eq_iff)
  have "list_all turn_legal turns_example" by (simp add: turns_example_def turn_legal_def)
  note same = reactor_clock_equivalent [OF start this]
  have "rt_ran rt_start = []" "clk_ran clk_start = []" by (simp_all add: rt_start_def clk_start_def rt_init_def clk_init_def)
  with same obtain c' rs qs where r: "clk_turns turns_example clk_start = Some c'" "same_timers (fold rt_turn turns_example rt_start) c'"
    "rt_ran (fold rt_turn turns_example rt_start) = concat rs" "clk_ran c' = concat qs" "list_all2 same_calls rs qs" by auto
  moreover have "map snd (rt_ran (fold rt_turn turns_example rt_start)) = [1, 1, 5]" by code_simp
  ultimately show ?thesis by metis
qed

end
