(* ===== verification/Cooperator.thy ===== *)
theory Cooperator
  imports Prelude
begin

text \<open>
  \<open>Cooperator\<close> and \<open>CooperativeTask\<close> of \<open>twisted/internet/task.py\<close>: a scheduler that
  runs iterators step by step, round robin, a slice per tick of the reactor.  A task is a
  number.  What \<open>next\<close> of its iterator does is a parameter: it performs operations on
  tasks and then yields a value or a Deferred, ends, or raises.  The Deferreds of
  \<open>whenDone\<close> are numbered and their firings recorded; their callbacks are not modelled.

  The position of the round robin is a Python list iterator, an index into the list of
  tasks that does not move when a task before it is removed; after \<open>stop\<close> it still points
  into the list that the cooperator has dropped.
\<close>

section \<open>State\<close>

datatype completion = TaskDone | TaskStopped | TaskFailed | SchedulerStopped

datatype coop_error = TaskFinished completion | NotPaused | NotInList | AlreadyFired

record coop_task =
  tk_pauseCount :: nat
  tk_completion :: "completion option"
  tk_deferreds :: "nat list"
  tk_yielded :: nat

datatype metarator = Exhausted | At nat | Dropped "nat list" nat

record coop =
  co_at :: "nat \<Rightarrow> coop_task"
  co_made :: nat
  co_tasks :: "nat list"
  co_metarator :: metarator
  co_delayedCall :: bool
  co_stopped :: bool
  co_started :: bool
  co_mustScheduleOnStart :: bool
  co_deferreds :: nat
  co_fired :: "(nat \<times> completion) list"
  co_worked :: "nat list"

definition new_task :: coop_task where
  "new_task = \<lparr> tk_pauseCount = 0, tk_completion = None, tk_deferreds = [], tk_yielded = 0 \<rparr>"

definition co_init :: "bool \<Rightarrow> coop" where
  "co_init started =
     \<lparr> co_at = \<lambda>i. new_task, co_made = 0, co_tasks = [], co_metarator = Exhausted, co_delayedCall = False,
       co_stopped = False, co_started = started, co_mustScheduleOnStart = False,
       co_deferreds = 0, co_fired = [], co_worked = [] \<rparr>"

definition co_upd :: "nat \<Rightarrow> (coop_task \<Rightarrow> coop_task) \<Rightarrow> coop \<Rightarrow> coop" where
  "co_upd i g s = s\<lparr>co_at := (co_at s)(i := g (co_at s i))\<rparr>"

definition co_running :: "coop \<Rightarrow> bool" where
  "co_running s \<longleftrightarrow> co_started s \<and> \<not> co_stopped s"

section \<open>Adding, removing and completing tasks\<close>

definition co_reschedule :: "coop \<Rightarrow> coop" where
  "co_reschedule s =
     (if \<not> co_started s then s\<lparr>co_mustScheduleOnStart := True\<rparr>
      else if \<not> co_delayedCall s \<and> co_tasks s \<noteq> [] then s\<lparr>co_delayedCall := True\<rparr>
      else s)"

definition co_removeTask :: "nat \<Rightarrow> coop \<Rightarrow> (coop_error, coop) outcome" where
  "co_removeTask i s =
     (if i \<notin> set (co_tasks s) then Exc NotInList s
      else let s = s\<lparr>co_tasks := remove1 i (co_tasks s)\<rparr>
           in Ok (if co_tasks s = [] \<and> co_delayedCall s then s\<lparr>co_delayedCall := False\<rparr> else s))"

text \<open>\<open>callback\<close> of the completion Deferreds: the second call raises.\<close>

fun co_callback :: "completion \<Rightarrow> nat list \<Rightarrow> coop \<Rightarrow> (coop_error, coop) outcome" where
  "co_callback c [] s = Ok s"
| "co_callback c (d # ds) s =
     (if d \<in> fst ` set (co_fired s) then Exc AlreadyFired s
      else co_callback c ds (s\<lparr>co_fired := co_fired s @ [(d, c)]\<rparr>))"

definition co_completeWith :: "nat \<Rightarrow> completion \<Rightarrow> coop \<Rightarrow> (coop_error, coop) outcome" where
  "co_completeWith i c s =
     (let s = co_upd i (\<lambda>t. t\<lparr>tk_completion := Some c\<rparr>) s
      in and_then (if tk_pauseCount (co_at s i) = 0 then co_removeTask i s else Ok s)
           (\<lambda>s. co_callback c (tk_deferreds (co_at s i)) s))"

definition co_addTask :: "nat \<Rightarrow> coop \<Rightarrow> (coop_error, coop) outcome" where
  "co_addTask i s =
     (if co_stopped s then co_completeWith i SchedulerStopped (s\<lparr>co_tasks := co_tasks s @ [i]\<rparr>)
      else Ok (co_reschedule (s\<lparr>co_tasks := co_tasks s @ [i]\<rparr>)))"

section \<open>The operations of a task\<close>

definition co_cooperate :: "coop \<Rightarrow> (coop_error, coop) outcome" where
  "co_cooperate s =
     (let i = co_made s
      in co_addTask i (s\<lparr>co_at := (co_at s)(i := new_task), co_made := i + 1\<rparr>))"

definition co_whenDone :: "nat \<Rightarrow> coop \<Rightarrow> (coop_error, coop) outcome" where
  "co_whenDone i s =
     (let d = co_deferreds s; s = s\<lparr>co_deferreds := d + 1\<rparr>
      in case tk_completion (co_at s i) of
           None \<Rightarrow> Ok (co_upd i (\<lambda>t. t\<lparr>tk_deferreds := tk_deferreds t @ [d]\<rparr>) s)
         | Some c \<Rightarrow> co_callback c [d] s)"

definition co_coiterate :: "coop \<Rightarrow> (coop_error, coop) outcome" where
  "co_coiterate s = and_then (co_cooperate s) (co_whenDone (co_made s))"

definition co_checkFinish :: "nat \<Rightarrow> coop \<Rightarrow> (coop_error, coop) outcome" where
  "co_checkFinish i s = (case tk_completion (co_at s i) of None \<Rightarrow> Ok s | Some c \<Rightarrow> Exc (TaskFinished c) s)"

definition co_pause :: "nat \<Rightarrow> coop \<Rightarrow> (coop_error, coop) outcome" where
  "co_pause i s =
     and_then (co_checkFinish i s) (\<lambda>s.
       let s = co_upd i (\<lambda>t. t\<lparr>tk_pauseCount := tk_pauseCount t + 1\<rparr>) s
       in if tk_pauseCount (co_at s i) = 1 then co_removeTask i s else Ok s)"

definition co_resume :: "nat \<Rightarrow> coop \<Rightarrow> (coop_error, coop) outcome" where
  "co_resume i s =
     (if tk_pauseCount (co_at s i) = 0 then Exc NotPaused s
      else let s = co_upd i (\<lambda>t. t\<lparr>tk_pauseCount := tk_pauseCount t - 1\<rparr>) s
           in if tk_pauseCount (co_at s i) = 0 \<and> tk_completion (co_at s i) = None then co_addTask i s else Ok s)"

definition co_stopTask :: "nat \<Rightarrow> coop \<Rightarrow> (coop_error, coop) outcome" where
  "co_stopTask i s = and_then (co_checkFinish i s) (co_completeWith i TaskStopped)"

section \<open>One work unit\<close>

datatype task_op = Cooperate | Coiterate | WhenDone nat | PauseTask nat | ResumeTask nat | StopTask nat

fun co_op :: "task_op \<Rightarrow> coop \<Rightarrow> (coop_error, coop) outcome" where
  "co_op Cooperate s = co_cooperate s"
| "co_op Coiterate s = co_coiterate s"
| "co_op (WhenDone i) s = (if i < co_made s then co_whenDone i s else Ok s)"
| "co_op (PauseTask i) s = (if i < co_made s then co_pause i s else Ok s)"
| "co_op (ResumeTask i) s = (if i < co_made s then co_resume i s else Ok s)"
| "co_op (StopTask i) s = (if i < co_made s then co_stopTask i s else Ok s)"

text \<open>The caller of an operation handles its exception.\<close>

definition task_ops :: "task_op list \<Rightarrow> coop \<Rightarrow> coop" where
  "task_ops ops s = fold (\<lambda>p s. state_of (co_op p s)) ops s"

datatype next_result = NextValue | NextDeferred | StopIteration | NextRaise

type_synonym task_iterator = "nat \<Rightarrow> coop \<Rightarrow> task_op list \<times> next_result"

definition co_oneWorkUnit :: "task_iterator \<Rightarrow> nat \<Rightarrow> coop \<Rightarrow> (coop_error, coop) outcome" where
  "co_oneWorkUnit it i s =
     (case it i s of (ops, result) \<Rightarrow>
        let s = task_ops ops (s\<lparr>co_worked := co_worked s @ [i]\<rparr>)
        in case result of
             StopIteration \<Rightarrow> co_completeWith i TaskDone s
           | NextRaise \<Rightarrow> co_completeWith i TaskFailed s
           | NextValue \<Rightarrow> Ok s
           | NextDeferred \<Rightarrow> and_then (co_pause i s) (\<lambda>s. Ok (co_upd i (\<lambda>t. t\<lparr>tk_yielded := tk_yielded t + 1\<rparr>) s)))"

text \<open>A Deferred that the task has yielded fires or fails.\<close>

definition co_yieldedFires :: "nat \<Rightarrow> coop \<Rightarrow> (coop_error, coop) outcome" where
  "co_yieldedFires i s =
     (if tk_yielded (co_at s i) = 0 then Ok s
      else co_resume i (co_upd i (\<lambda>t. t\<lparr>tk_yielded := tk_yielded t - 1\<rparr>) s))"

definition co_failLater :: "nat \<Rightarrow> coop \<Rightarrow> (coop_error, coop) outcome" where
  "co_failLater i s =
     (if tk_yielded (co_at s i) = 0 then Ok s
      else co_completeWith i TaskFailed (co_upd i (\<lambda>t. t\<lparr>tk_yielded := tk_yielded t - 1\<rparr>) s))"

section \<open>A tick\<close>

fun co_next :: "coop \<Rightarrow> (nat \<times> coop) option" where
  "co_next s = (case co_metarator s of
      Exhausted \<Rightarrow> None
    | At k \<Rightarrow> if k < length (co_tasks s) then Some (co_tasks s ! k, s\<lparr>co_metarator := At (k + 1)\<rparr>) else None
    | Dropped ts k \<Rightarrow> if k < length ts then Some (ts ! k, s\<lparr>co_metarator := Dropped ts (k + 1)\<rparr>) else None)"

text \<open>The generator \<open>_tasksWhileNotStopped\<close>: from the head of its \<open>while\<close>, and from inside its \<open>for\<close>.\<close>

definition co_while :: "coop \<Rightarrow> nat option \<times> coop" where
  "co_while s =
     (if co_tasks s = [] then (None, s)
      else case co_next s of
             Some (t, s) \<Rightarrow> (Some t, s)
           | None \<Rightarrow> (Some (hd (co_tasks s)), s\<lparr>co_metarator := At 1\<rparr>))"

definition co_for :: "coop \<Rightarrow> nat option \<times> coop" where
  "co_for s = (case co_next s of Some (t, s) \<Rightarrow> (Some t, s) | None \<Rightarrow> co_while (s\<lparr>co_metarator := At 0\<rparr>))"

text \<open>\<open>n\<close> is how often the terminator answers that there is time left.\<close>

fun co_units :: "task_iterator \<Rightarrow> nat \<Rightarrow> nat option \<times> coop \<Rightarrow> (coop_error, coop) outcome" where
  "co_units it n (None, s) = Ok s"
| "co_units it 0 (Some t, s) = co_oneWorkUnit it t s"
| "co_units it (Suc n) (Some t, s) = and_then (co_oneWorkUnit it t s) (\<lambda>s. co_units it n (co_for s))"

definition co_tick :: "task_iterator \<Rightarrow> nat \<Rightarrow> coop \<Rightarrow> (coop_error, coop) outcome" where
  "co_tick it n s = and_then (co_units it n (co_while (s\<lparr>co_delayedCall := False\<rparr>))) (\<lambda>s. Ok (co_reschedule s))"

section \<open>Starting and stopping\<close>

definition co_start :: "coop \<Rightarrow> coop" where
  "co_start s =
     (let s = s\<lparr>co_stopped := False, co_started := True\<rparr>
      in if co_mustScheduleOnStart s then co_reschedule (s\<lparr>co_mustScheduleOnStart := False\<rparr>) else s)"

text \<open>The loop of \<open>stop\<close> at index \<open>k\<close>; it runs at most as often as there are tasks.\<close>

fun co_stopLoop :: "nat \<Rightarrow> nat \<Rightarrow> coop \<Rightarrow> (coop_error, coop) outcome" where
  "co_stopLoop 0 k s = Ok s"
| "co_stopLoop (Suc n) k s =
     (if k < length (co_tasks s)
      then and_then (co_completeWith (co_tasks s ! k) SchedulerStopped s) (co_stopLoop n (k + 1))
      else Ok s)"

definition co_stop :: "coop \<Rightarrow> (coop_error, coop) outcome" where
  "co_stop s =
     (let s = s\<lparr>co_stopped := True\<rparr>
      in and_then (co_stopLoop (length (co_tasks s)) 0 s) (\<lambda>s.
           let s = s\<lparr>co_metarator := (case co_metarator s of At k \<Rightarrow> Dropped (co_tasks s) k | m \<Rightarrow> m), co_tasks := []\<rparr>
           in Ok (if co_delayedCall s then s\<lparr>co_delayedCall := False\<rparr> else s)))"

section \<open>Invariants\<close>

definition co_runnable :: "coop \<Rightarrow> nat \<Rightarrow> bool" where
  "co_runnable s i \<longleftrightarrow> i < co_made s \<and> tk_pauseCount (co_at s i) = 0 \<and> tk_completion (co_at s i) = None"

text \<open>The list holds the tasks that can run, and nothing is scheduled for no task.\<close>

definition co_tasks_ok :: "coop \<Rightarrow> bool" where
  "co_tasks_ok s \<longleftrightarrow> \<not> co_stopped s \<and> distinct (co_tasks s) \<and> (\<forall>i. i \<in> set (co_tasks s) \<longleftrightarrow> co_runnable s i) \<and>
     (co_delayedCall s \<longrightarrow> co_tasks s \<noteq> [] \<and> co_started s) \<and>
     (\<not> co_started s \<longrightarrow> co_tasks s \<noteq> [] \<longrightarrow> co_mustScheduleOnStart s) \<and>
     (\<forall>ts k. co_metarator s \<noteq> Dropped ts k)"

text \<open>Between two ticks, a tick is scheduled when there is work.\<close>

definition co_scheduled :: "coop \<Rightarrow> bool" where
  "co_scheduled s \<longleftrightarrow> (co_started s \<longrightarrow> co_tasks s \<noteq> [] \<longrightarrow> co_delayedCall s)"

text \<open>The Deferreds of a task have fired when it is complete, and not before.\<close>

definition co_deferreds_ok :: "coop \<Rightarrow> bool" where
  "co_deferreds_ok s \<longleftrightarrow> distinct (map fst (co_fired s)) \<and> (\<forall>d \<in> fst ` set (co_fired s). d < co_deferreds s) \<and>
     (\<forall>i < co_made s. distinct (tk_deferreds (co_at s i)) \<and> (\<forall>d \<in> set (tk_deferreds (co_at s i)). d < co_deferreds s \<and>
        (d \<in> fst ` set (co_fired s) \<longleftrightarrow> tk_completion (co_at s i) \<noteq> None))) \<and>
     (\<forall>i < co_made s. \<forall>j < co_made s. i \<noteq> j \<longrightarrow> set (tk_deferreds (co_at s i)) \<inter> set (tk_deferreds (co_at s j)) = {})"

lemma co_upd_simps [simp]:
  "co_at (co_upd i g s) = (co_at s)(i := g (co_at s i))" "co_made (co_upd i g s) = co_made s"
  "co_tasks (co_upd i g s) = co_tasks s" "co_metarator (co_upd i g s) = co_metarator s"
  "co_delayedCall (co_upd i g s) = co_delayedCall s" "co_stopped (co_upd i g s) = co_stopped s"
  "co_started (co_upd i g s) = co_started s" "co_mustScheduleOnStart (co_upd i g s) = co_mustScheduleOnStart s"
  "co_deferreds (co_upd i g s) = co_deferreds s" "co_fired (co_upd i g s) = co_fired s" "co_worked (co_upd i g s) = co_worked s"
  by (simp_all add: co_upd_def)

text \<open>What the scheduler sees of a state: all but the Deferreds and the record of the work.\<close>

definition co_same_tasks :: "coop \<Rightarrow> coop \<Rightarrow> bool" where
  "co_same_tasks s t \<longleftrightarrow> co_made t = co_made s \<and> co_tasks t = co_tasks s \<and> co_metarator t = co_metarator s \<and>
     co_delayedCall t = co_delayedCall s \<and> co_stopped t = co_stopped s \<and> co_started t = co_started s \<and>
     co_mustScheduleOnStart t = co_mustScheduleOnStart s \<and>
     (\<forall>i. tk_pauseCount (co_at t i) = tk_pauseCount (co_at s i) \<and> tk_completion (co_at t i) = tk_completion (co_at s i))"

lemma co_same_tasks_ok: "co_same_tasks s t \<Longrightarrow> co_tasks_ok t = co_tasks_ok s" "co_same_tasks s t \<Longrightarrow> co_scheduled t = co_scheduled s"
  by (simp_all add: co_same_tasks_def co_tasks_ok_def co_scheduled_def co_runnable_def)

lemma co_same_tasks_trans: "co_same_tasks s t \<Longrightarrow> co_same_tasks t u \<Longrightarrow> co_same_tasks s u"
  by (simp add: co_same_tasks_def)

lemma co_callback_same: "co_same_tasks s (state_of (co_callback c ds s))"
proof (induction c ds s rule: co_callback.induct)
  case (2 c d ds s)
  have "co_same_tasks s (s\<lparr>co_fired := co_fired s @ [(d, c)]\<rparr>)" by (simp add: co_same_tasks_def)
  with 2 show ?case by (auto intro: co_same_tasks_trans simp: co_same_tasks_def)
qed (simp add: co_same_tasks_def)

lemma co_removed_ok:
  assumes "co_tasks_ok s" "co_scheduled s \<or> b" "\<And>j. j \<noteq> i \<Longrightarrow> co_runnable t j = co_runnable s j" "\<not> co_runnable t i" "co_runnable s i"
    and "co_tasks t = co_tasks s" "co_stopped t = co_stopped s" "co_started t = co_started s" "co_delayedCall t = co_delayedCall s"
    "co_metarator t = co_metarator s" "co_mustScheduleOnStart t = co_mustScheduleOnStart s"
  shows "\<exists>u. co_removeTask i t = Ok u \<and> co_tasks_ok u \<and> (co_scheduled u \<or> b) \<and> co_at u = co_at t \<and> co_made u = co_made t \<and>
    co_deferreds u = co_deferreds t \<and> co_fired u = co_fired t \<and> co_tasks u = remove1 i (co_tasks s)"
proof -
  define h where "h = remove1 i (co_tasks s)"
  have i: "i \<in> set (co_tasks s)" using assms(1,5) by (simp add: co_tasks_ok_def)
  let ?u = "t\<lparr>co_tasks := h, co_delayedCall := co_delayedCall s \<and> h \<noteq> []\<rparr>"
  have run: "co_runnable ?u j = co_runnable t j" for j by (simp add: co_runnable_def)
  have list: "j \<in> set h \<longleftrightarrow> co_runnable t j" for j
    using assms(1,3,4) unfolding h_def by (cases "j = i") (auto simp: co_tasks_ok_def)
  have "distinct h" "co_tasks s = [] \<Longrightarrow> h = []" using assms(1) by (simp_all add: h_def co_tasks_ok_def)
  with assms(1,7-11) have "co_tasks_ok ?u" unfolding co_tasks_ok_def run by (auto simp: list)
  moreover have "co_scheduled ?u \<or> b" using assms(2,8) i by (auto simp: co_scheduled_def)
  moreover have "co_removeTask i t = Ok ?u"
    using i assms(6,9) by (cases t) (auto simp: co_removeTask_def h_def [symmetric] Let_def)
  ultimately show ?thesis by (auto simp: h_def [symmetric])
qed


text \<open>
  Completing a task keeps the invariants whether it was complete, paused or running; it
  returns when the task was not complete.  \<open>b\<close> stands for a tick in progress, during which
  nothing need be scheduled.
\<close>

lemma co_completeWith_tasks:
  assumes "co_tasks_ok s" "co_scheduled s \<or> b" "i < co_made s"
  shows "co_tasks_ok (state_of (co_completeWith i c s)) \<and> (co_scheduled (state_of (co_completeWith i c s)) \<or> b)"
proof -
  let ?t = "co_upd i (\<lambda>t. t\<lparr>tk_completion := Some c\<rparr>) s"
  have other: "co_runnable ?t j = co_runnable s j" if "j \<noteq> i" for j using that by (simp add: co_runnable_def)
  have notrun: "\<not> co_runnable ?t i" by (simp add: co_runnable_def)
  show ?thesis
  proof (cases "co_runnable s i")
    case True
    from co_removed_ok [OF assms(1,2) other notrun True] obtain u where u: "co_removeTask i ?t = Ok u" "co_tasks_ok u" "co_scheduled u \<or> b"
      by auto
    have "state_of (co_completeWith i c s) = state_of (co_callback c (tk_deferreds (co_at u i)) u)"
      using u(1) True by (simp add: co_completeWith_def Let_def co_runnable_def)
    then show ?thesis using co_same_tasks_ok [OF co_callback_same] u by simp
  next
    case False
    have "co_runnable ?t = co_runnable s" by (rule ext) (metis False other notrun)
    then have t: "co_tasks_ok ?t" "co_scheduled ?t \<or> b" "i \<notin> set (co_tasks ?t)"
      using assms False by (auto simp: co_tasks_ok_def co_scheduled_def)
    show ?thesis
    proof (cases "tk_pauseCount (co_at s i) = 0")
      case True
      with t show ?thesis by (simp add: co_completeWith_def Let_def co_removeTask_def)
    next
      case False
      then have "co_completeWith i c s = co_callback c (tk_deferreds (co_at ?t i)) ?t" by (simp add: co_completeWith_def Let_def)
      then show ?thesis using co_same_tasks_ok [OF co_callback_same] t by simp
    qed
  qed
qed

lemma co_addTask_tasks:
  assumes "co_tasks_ok s" "i \<notin> set (co_tasks s)" "\<And>j. j \<noteq> i \<Longrightarrow> co_runnable t j = co_runnable s j" "co_runnable t i"
    and "co_tasks t = co_tasks s" "co_stopped t = co_stopped s" "co_started t = co_started s" "co_delayedCall t = co_delayedCall s"
    "co_metarator t = co_metarator s" "co_mustScheduleOnStart t = co_mustScheduleOnStart s"
  shows "\<exists>u. co_addTask i t = Ok u \<and> co_tasks_ok u \<and> co_scheduled u"
proof -
  let ?u = "co_reschedule (t\<lparr>co_tasks := co_tasks s @ [i]\<rparr>)"
  have run: "co_runnable ?u j = co_runnable t j" for j by (simp add: co_runnable_def co_reschedule_def)
  have list: "j \<in> set (co_tasks ?u) \<longleftrightarrow> co_runnable t j" for j
    using assms(1-4) by (cases "j = i") (auto simp: co_tasks_ok_def co_reschedule_def)
  have "distinct (co_tasks ?u)" using assms(1,2) by (simp add: co_tasks_ok_def co_reschedule_def)
  moreover have "\<not> co_stopped s" using assms(1) by (simp add: co_tasks_ok_def)
  ultimately have "co_tasks_ok ?u"
    using assms(1,5-10) unfolding co_tasks_ok_def run list by (auto simp: co_reschedule_def)
  moreover have "co_scheduled ?u" by (simp add: co_scheduled_def co_reschedule_def)
  ultimately show ?thesis using \<open>\<not> co_stopped s\<close> assms(5,6) by (simp add: co_addTask_def)
qed


lemma co_checkFinish: "and_then (co_checkFinish i s) k = (case tk_completion (co_at s i) of None \<Rightarrow> k s | Some c \<Rightarrow> Exc (TaskFinished c) s)"
  by (simp add: co_checkFinish_def split: option.split)

lemma co_pause_tasks:
  assumes "co_tasks_ok s" "co_scheduled s \<or> b" "i < co_made s"
  shows "co_tasks_ok (state_of (co_pause i s)) \<and> (co_scheduled (state_of (co_pause i s)) \<or> b) \<and>
    (tk_completion (co_at s i) = None \<longrightarrow> (\<exists>u. co_pause i s = Ok u))"
proof (cases "tk_completion (co_at s i)")
  case None
  let ?t = "co_upd i (\<lambda>t. t\<lparr>tk_pauseCount := tk_pauseCount t + 1\<rparr>) s"
  have other: "co_runnable ?t j = co_runnable s j" if "j \<noteq> i" for j using that by (simp add: co_runnable_def)
  have notrun: "\<not> co_runnable ?t i" by (simp add: co_runnable_def)
  show ?thesis
  proof (cases "tk_pauseCount (co_at s i) = 0")
    case True
    then have "co_runnable s i" using None assms(3) by (simp add: co_runnable_def)
    from co_removed_ok [OF assms(1,2) other notrun this] obtain u where "co_removeTask i ?t = Ok u" "co_tasks_ok u" "co_scheduled u \<or> b"
      by auto
    with None True show ?thesis by (simp add: co_pause_def co_checkFinish Let_def)
  next
    case False
    have "co_runnable ?t = co_runnable s" by (rule ext) (metis False co_runnable_def other notrun)
    then have "co_tasks_ok ?t" "co_scheduled ?t \<or> b" using assms by (auto simp: co_tasks_ok_def co_scheduled_def)
    with None False show ?thesis by (simp add: co_pause_def co_checkFinish Let_def)
  qed
qed (use assms in \<open>simp add: co_pause_def co_checkFinish\<close>)

lemma co_resume_tasks:
  assumes "co_tasks_ok s" "co_scheduled s \<or> b" "i < co_made s"
  shows "co_tasks_ok (state_of (co_resume i s)) \<and> (co_scheduled (state_of (co_resume i s)) \<or> b)"
proof (cases "tk_pauseCount (co_at s i)")
  case (Suc n)
  let ?t = "co_upd i (\<lambda>t. t\<lparr>tk_pauseCount := tk_pauseCount t - 1\<rparr>) s"
  have other: "co_runnable ?t j = co_runnable s j" if "j \<noteq> i" for j using that by (simp add: co_runnable_def)
  have notrun: "\<not> co_runnable s i" "i \<notin> set (co_tasks s)" using Suc assms(1) by (simp_all add: co_tasks_ok_def co_runnable_def)
  show ?thesis
  proof (cases "n = 0 \<and> tk_completion (co_at s i) = None")
    case True
    then have "co_runnable ?t i" using Suc assms(3) by (simp add: co_runnable_def)
    from co_addTask_tasks [OF assms(1) notrun(2) other this] obtain u where "co_addTask i ?t = Ok u" "co_tasks_ok u" "co_scheduled u"
      by auto
    with Suc True show ?thesis by (simp add: co_resume_def Let_def)
  next
    case False
    then have "\<not> co_runnable ?t i" using Suc by (auto simp: co_runnable_def)
    then have "co_runnable ?t = co_runnable s" by (intro ext) (metis other notrun(1))
    then have "co_tasks_ok ?t" "co_scheduled ?t \<or> b" using assms by (auto simp: co_tasks_ok_def co_scheduled_def)
    with Suc False show ?thesis by (auto simp: co_resume_def Let_def)
  qed
qed (use assms in \<open>simp add: co_resume_def\<close>)

lemma co_cooperate_tasks:
  assumes "co_tasks_ok s"
  shows "\<exists>u. co_cooperate s = Ok u \<and> co_tasks_ok u \<and> co_scheduled u"
proof -
  let ?t = "s\<lparr>co_at := (co_at s)(co_made s := new_task), co_made := co_made s + 1\<rparr>"
  have "co_runnable ?t j = co_runnable s j" if "j \<noteq> co_made s" for j using that by (auto simp: co_runnable_def)
  moreover have "co_runnable ?t (co_made s)" by (simp add: co_runnable_def new_task_def)
  moreover have "co_made s \<notin> set (co_tasks s)" using assms by (simp add: co_tasks_ok_def co_runnable_def)
  ultimately show ?thesis
    using co_addTask_tasks [OF assms, of "co_made s" ?t] by (simp add: co_cooperate_def Let_def)
qed

lemma co_whenDone_same: "co_same_tasks s (state_of (co_whenDone i s))"
proof (cases "tk_completion (co_at s i)")
  case (Some c)
  have "co_same_tasks s (s\<lparr>co_deferreds := co_deferreds s + 1\<rparr>)" by (simp add: co_same_tasks_def)
  then have "co_same_tasks s (state_of (co_callback c [co_deferreds s] (s\<lparr>co_deferreds := co_deferreds s + 1\<rparr>)))"
    using co_callback_same by (rule co_same_tasks_trans)
  with Some show ?thesis by (simp add: co_whenDone_def Let_def)
qed (simp add: co_whenDone_def Let_def co_same_tasks_def)

lemma co_op_tasks:
  assumes "co_tasks_ok s" "co_scheduled s \<or> b"
  shows "co_tasks_ok (state_of (co_op p s)) \<and> (co_scheduled (state_of (co_op p s)) \<or> b)"
proof (cases p)
  case Cooperate
  with co_cooperate_tasks [OF assms(1)] show ?thesis by auto
next
  case Coiterate
  from co_cooperate_tasks [OF assms(1)] obtain u where "co_cooperate s = Ok u" "co_tasks_ok u" "co_scheduled u" by auto
  with Coiterate co_same_tasks_ok [OF co_whenDone_same, of "co_made s" u] show ?thesis by (simp add: co_coiterate_def)
next
  case (StopTask i)
  with co_completeWith_tasks [OF assms, of i TaskStopped] assms show ?thesis
    by (auto simp: co_stopTask_def co_checkFinish split: option.split)
qed (use assms co_pause_tasks [OF assms] co_resume_tasks [OF assms] co_same_tasks_ok [OF co_whenDone_same] in auto)

lemma task_ops_tasks:
  "co_tasks_ok s \<Longrightarrow> co_scheduled s \<or> b \<Longrightarrow> co_tasks_ok (task_ops ops s) \<and> (co_scheduled (task_ops ops s) \<or> b)"
proof (induction ops arbitrary: s)
  case (Cons p ops)
  from co_op_tasks [OF Cons.prems, of p] Cons.IH [of "state_of (co_op p s)"] show ?case by (simp add: task_ops_def)
qed (simp add: task_ops_def)


section \<open>The completion Deferreds\<close>

definition co_same_deferreds :: "coop \<Rightarrow> coop \<Rightarrow> bool" where
  "co_same_deferreds s t \<longleftrightarrow> co_made t = co_made s \<and> co_deferreds t = co_deferreds s \<and> co_fired t = co_fired s \<and>
     (\<forall>i. tk_deferreds (co_at t i) = tk_deferreds (co_at s i) \<and> tk_completion (co_at t i) = tk_completion (co_at s i))"

lemma co_same_deferreds_ok: "co_same_deferreds s t \<Longrightarrow> co_deferreds_ok t = co_deferreds_ok s"
  by (simp add: co_same_deferreds_def co_deferreds_ok_def)

lemma co_deferreds_okD:
  assumes "co_deferreds_ok s" "i < co_made s"
  shows "distinct (tk_deferreds (co_at s i))"
    "d \<in> set (tk_deferreds (co_at s i)) \<Longrightarrow> d < co_deferreds s"
    "d \<in> set (tk_deferreds (co_at s i)) \<Longrightarrow> d \<in> fst ` set (co_fired s) \<longleftrightarrow> tk_completion (co_at s i) \<noteq> None"
    "j < co_made s \<Longrightarrow> i \<noteq> j \<Longrightarrow> d \<in> set (tk_deferreds (co_at s i)) \<Longrightarrow> d \<notin> set (tk_deferreds (co_at s j))"
  using assms unfolding co_deferreds_ok_def by blast+

lemma co_removeTask_deferreds: "co_same_deferreds s (state_of (co_removeTask i s))"
  by (simp add: co_removeTask_def co_same_deferreds_def Let_def)

lemma co_pause_deferreds: "co_same_deferreds s (state_of (co_pause i s))"
  by (auto simp: co_pause_def co_checkFinish co_removeTask_def co_same_deferreds_def Let_def split: option.split)

lemma co_resume_deferreds: "\<not> co_stopped s \<Longrightarrow> co_same_deferreds s (state_of (co_resume i s))"
  by (auto simp: co_resume_def co_addTask_def co_reschedule_def co_same_deferreds_def Let_def)

lemma co_callback_fires:
  "distinct ds \<Longrightarrow> set ds \<inter> fst ` set (co_fired s) = {} \<Longrightarrow>
    co_callback c ds s = Ok (s\<lparr>co_fired := co_fired s @ map (\<lambda>d. (d, c)) ds\<rparr>)"
  by (induction ds arbitrary: s) auto

lemma co_callback_fired:
  "set ds \<subseteq> fst ` set (co_fired s) \<Longrightarrow> state_of (co_callback c ds s) = s"
  by (cases ds) auto

lemma co_fired_ok:
  assumes "co_deferreds_ok s" "i < co_made s" "tk_completion (co_at s i) = None"
    and "co_made t = co_made s" "co_deferreds t = co_deferreds s"
    "co_fired t = co_fired s @ map (\<lambda>d. (d, c)) (tk_deferreds (co_at s i))"
    "\<And>j. tk_deferreds (co_at t j) = tk_deferreds (co_at s j)" "tk_completion (co_at t i) \<noteq> None"
    "\<And>j. j \<noteq> i \<Longrightarrow> tk_completion (co_at t j) = tk_completion (co_at s j)"
  shows "co_deferreds_ok t"
proof -
  have fired: "fst ` set (co_fired t) = fst ` set (co_fired s) \<union> set (tk_deferreds (co_at s i))"
    by (auto simp: assms(6) image_Un image_image)
  have unfired: "set (tk_deferreds (co_at s i)) \<inter> fst ` set (co_fired s) = {}" "distinct (tk_deferreds (co_at s i))"
    "\<forall>d \<in> set (tk_deferreds (co_at s i)). d < co_deferreds s"
    using co_deferreds_okD [OF assms(1,2)] assms(3) by blast+
  have "distinct (map fst (co_fired t))"
    using assms(1,6) unfired by (auto simp: co_deferreds_ok_def comp_def)
  moreover have "d \<in> fst ` set (co_fired t) \<longleftrightarrow> tk_completion (co_at t j) \<noteq> None"
    if "j < co_made s" "d \<in> set (tk_deferreds (co_at s j))" for j d
  proof (cases "j = i")
    case True
    with that assms(8) fired show ?thesis by simp
  next
    case False
    with that have "d \<notin> set (tk_deferreds (co_at s i))" using co_deferreds_okD(4) [OF assms(1)] assms(2) by blast
    with that False assms(1,9) fired show ?thesis by (simp add: co_deferreds_ok_def)
  qed
  ultimately show ?thesis
    using assms(1) unfired(3) fired by (auto simp: co_deferreds_ok_def assms(4,5,7))
qed

lemma co_completeWith_fires:
  assumes "tk_completion (co_at s i) = None \<Longrightarrow> tk_pauseCount (co_at s i) = 0 \<Longrightarrow> i \<in> set (co_tasks s)"
    and "co_deferreds_ok s" "i < co_made s"
  shows "co_deferreds_ok (state_of (co_completeWith i c s)) \<and>
    (tk_completion (co_at s i) = None \<longrightarrow> (\<exists>u. co_completeWith i c s = Ok u))"
proof -
  let ?t = "co_upd i (\<lambda>t. t\<lparr>tk_completion := Some c\<rparr>) s"
  show ?thesis
  proof (cases "tk_completion (co_at s i)")
    case None
    define r where "r = (if tk_pauseCount (co_at ?t i) = 0 then co_removeTask i ?t else Ok ?t)"
    have "i \<in> set (co_tasks s)" if "tk_pauseCount (co_at s i) = 0"
      using that None assms(1) by simp
    then have "\<exists>u. r = Ok u" by (cases "tk_pauseCount (co_at s i) = 0") (simp_all add: r_def co_removeTask_def Let_def)
    then obtain u where u: "r = Ok u" ..
    have same: "co_same_deferreds ?t u"
      using co_removeTask_deferreds [of ?t i] u by (auto simp: r_def co_same_deferreds_def split: if_splits)
    let ?ds = "tk_deferreds (co_at s i)"
    have ds: "distinct ?ds" "set ?ds \<inter> fst ` set (co_fired s) = {}"
      using co_deferreds_okD [OF assms(2,3)] None by blast+
    have "tk_deferreds (co_at u i) = ?ds" "co_fired u = co_fired s" using same by (simp_all add: co_same_deferreds_def)
    with ds have run: "co_completeWith i c s = Ok (u\<lparr>co_fired := co_fired u @ map (\<lambda>d. (d, c)) ?ds\<rparr>)"
      using u co_callback_fires [of ?ds u c] by (simp add: co_completeWith_def Let_def r_def)
    have "co_deferreds_ok (u\<lparr>co_fired := co_fired u @ map (\<lambda>d. (d, c)) ?ds\<rparr>)"
      by (rule co_fired_ok [OF assms(2,3) None]) (use same in \<open>auto simp: co_same_deferreds_def\<close>)
    with run show ?thesis by simp
  next
    case (Some b)
    have keep: "co_deferreds_ok u" if "co_same_deferreds ?t u" for u
    proof -
      have "co_made u = co_made s" "co_deferreds u = co_deferreds s" "co_fired u = co_fired s"
        "\<And>j. tk_deferreds (co_at u j) = tk_deferreds (co_at s j)"
        "\<And>j. (tk_completion (co_at u j) = None) = (tk_completion (co_at s j) = None)"
        using that Some by (auto simp: co_same_deferreds_def)
      with assms(2) show ?thesis by (simp add: co_deferreds_ok_def)
    qed
    have fired: "set (tk_deferreds (co_at s i)) \<subseteq> fst ` set (co_fired s)"
      using co_deferreds_okD(3) [OF assms(2,3)] Some by blast
    have call: "state_of (co_callback c (tk_deferreds (co_at u i)) u) = u" if "co_same_deferreds ?t u" for u
      using fired that by (simp add: co_callback_fired co_same_deferreds_def)
    define r where "r = (if tk_pauseCount (co_at ?t i) = 0 then co_removeTask i ?t else Ok ?t)"
    have same: "co_same_deferreds ?t (state_of r)"
      unfolding r_def using co_removeTask_deferreds [of ?t i] by (simp add: co_same_deferreds_def)
    have "co_completeWith i c s = and_then r (\<lambda>s. co_callback c (tk_deferreds (co_at s i)) s)"
      by (simp add: co_completeWith_def Let_def r_def)
    then have "state_of (co_completeWith i c s) = state_of r" using call same by (cases r) auto
    with same have "co_same_deferreds ?t (state_of (co_completeWith i c s))" by simp
    with keep Some show ?thesis by simp
  qed
qed

lemma co_completeWith_deferreds:
  assumes "co_tasks_ok s" "co_deferreds_ok s" "i < co_made s"
  shows "co_deferreds_ok (state_of (co_completeWith i c s)) \<and>
    (tk_completion (co_at s i) = None \<longrightarrow> (\<exists>u. co_completeWith i c s = Ok u))"
  by (rule co_completeWith_fires [OF _ assms(2,3)]) (use assms(1,3) in \<open>simp add: co_tasks_ok_def co_runnable_def\<close>)

lemma co_cooperate_deferreds:
  assumes "co_tasks_ok s" "co_deferreds_ok s" "co_cooperate s = Ok u"
  shows "co_deferreds_ok u"
proof -
  have "co_at u = (co_at s)(co_made s := new_task)" "co_made u = co_made s + 1" "co_deferreds u = co_deferreds s" "co_fired u = co_fired s"
    using assms(1,3) by (auto simp: co_cooperate_def co_addTask_def co_tasks_ok_def co_reschedule_def Let_def split: if_splits)
  with assms(2) show ?thesis by (auto simp: co_deferreds_ok_def new_task_def less_Suc_eq)
qed

lemma co_whenDone_deferreds:
  assumes "co_deferreds_ok s" "i < co_made s"
  shows "co_deferreds_ok (state_of (co_whenDone i s))"
proof -
  have fresh: "co_deferreds s \<notin> fst ` set (co_fired s)" using assms(1) by (auto simp: co_deferreds_ok_def)
  have old: "co_deferreds s \<notin> set (tk_deferreds (co_at s j))" if "j < co_made s" for j
    using co_deferreds_okD(2) [OF assms(1) that] by blast
  show ?thesis
  proof (cases "tk_completion (co_at s i)")
    case None
    have "co_deferreds_ok (co_upd i (\<lambda>t. t\<lparr>tk_deferreds := tk_deferreds t @ [co_deferreds s]\<rparr>) (s\<lparr>co_deferreds := co_deferreds s + 1\<rparr>))"
      using assms fresh old None unfolding co_deferreds_ok_def
      by (intro conjI) (force simp: less_Suc_eq)+
    with None show ?thesis by (simp add: co_whenDone_def Let_def)
  next
    case (Some c)
    have "co_deferreds_ok (s\<lparr>co_deferreds := co_deferreds s + 1, co_fired := co_fired s @ [(co_deferreds s, c)]\<rparr>)"
      using assms fresh old unfolding co_deferreds_ok_def
      by (intro conjI) (force simp: less_Suc_eq)+
    with Some fresh show ?thesis by (simp add: co_whenDone_def Let_def)
  qed
qed


lemma co_op_deferreds:
  assumes "co_tasks_ok s" "co_deferreds_ok s"
  shows "co_deferreds_ok (state_of (co_op p s))"
proof -
  have "\<not> co_stopped s" using assms(1) by (simp add: co_tasks_ok_def)
  then have resume: "co_deferreds_ok (state_of (co_resume i s))" for i
    using co_same_deferreds_ok [OF co_resume_deferreds] assms(2) by simp
  have pause: "co_deferreds_ok (state_of (co_pause i s))" for i
    using co_same_deferreds_ok [OF co_pause_deferreds] assms(2) by simp
  obtain u where u: "co_cooperate s = Ok u" "co_tasks_ok u" using co_cooperate_tasks [OF assms(1)] by auto
  note new = co_cooperate_deferreds [OF assms u(1)]
  have made: "co_made s < co_made u"
    using u(1) assms(1) by (auto simp: co_cooperate_def co_addTask_def co_tasks_ok_def co_reschedule_def Let_def split: if_splits)
  have stop: "co_deferreds_ok (state_of (co_stopTask i s))" if "i < co_made s" for i
    using co_completeWith_deferreds [OF assms that, of TaskStopped] assms(2)
    by (simp add: co_stopTask_def co_checkFinish split: option.split)
  show ?thesis
    using assms(2) u(1) new co_whenDone_deferreds [OF assms(2)] co_whenDone_deferreds [OF new made]
    by (cases p) (simp_all add: pause resume stop co_coiterate_def)
qed

lemma task_ops_deferreds:
  "co_tasks_ok s \<Longrightarrow> co_deferreds_ok s \<Longrightarrow> co_deferreds_ok (task_ops ops s)"
proof (induction ops arbitrary: s)
  case (Cons p ops)
  from co_op_deferreds [OF Cons.prems, of p] co_op_tasks [OF Cons.prems(1), of True p] Cons.IH [of "state_of (co_op p s)"]
  show ?case by (simp add: task_ops_def)
qed (simp add: task_ops_def)

section \<open>Work units and ticks\<close>

lemma co_op_completion:
  assumes "co_tasks_ok s" "i < co_made s" "p \<noteq> StopTask i" "tk_completion (co_at s i) = None"
  shows "tk_completion (co_at (state_of (co_op p s)) i) = None \<and> i < co_made (state_of (co_op p s))"
proof -
  have callback: "tk_completion (co_at (state_of (co_callback c ds s)) i) = tk_completion (co_at s i) \<and>
      co_made (state_of (co_callback c ds s)) = co_made s" for c ds s
    using co_callback_same [of s c ds] by (simp add: co_same_tasks_def)
  have remove: "co_at (state_of (co_removeTask j s)) = co_at s \<and> co_made (state_of (co_removeTask j s)) = co_made s" for j s
    by (simp add: co_removeTask_def Let_def)
  have complete: "tk_completion (co_at (state_of (co_completeWith j c s)) i) = None \<and> co_made (state_of (co_completeWith j c s)) = co_made s"
    if "j \<noteq> i" for j c
  proof -
    define r where "r = (if tk_pauseCount (co_at (co_upd j (\<lambda>t. t\<lparr>tk_completion := Some c\<rparr>) s) j) = 0
      then co_removeTask j (co_upd j (\<lambda>t. t\<lparr>tk_completion := Some c\<rparr>) s) else Ok (co_upd j (\<lambda>t. t\<lparr>tk_completion := Some c\<rparr>) s))"
    have "tk_completion (co_at (state_of r) i) = None \<and> co_made (state_of r) = co_made s"
      using that assms(4) by (simp add: r_def remove)
    moreover have "co_completeWith j c s = and_then r (\<lambda>s. co_callback c (tk_deferreds (co_at s j)) s)"
      by (simp add: co_completeWith_def Let_def r_def)
    ultimately show ?thesis by (cases r) (simp_all add: callback)
  qed
  have pause: "tk_completion (co_at (state_of (co_pause j s)) i) = None \<and> co_made (state_of (co_pause j s)) = co_made s" for j
    using co_pause_deferreds [of s j] assms(4) by (simp add: co_same_deferreds_def)
  have resume: "tk_completion (co_at (state_of (co_resume j s)) i) = None \<and> co_made (state_of (co_resume j s)) = co_made s" for j
    using co_resume_deferreds [of s j] assms(1,4) by (simp add: co_same_deferreds_def co_tasks_ok_def)
  have notify: "tk_completion (co_at (state_of (co_whenDone j t)) i) = tk_completion (co_at t i) \<and> co_made (state_of (co_whenDone j t)) = co_made t" for j t
    using co_whenDone_same [of t j] by (simp add: co_same_tasks_def)
  obtain u where u: "co_cooperate s = Ok u" using co_cooperate_tasks [OF assms(1)] by auto
  then have "co_at u = (co_at s)(co_made s := new_task)" "co_made u = co_made s + 1"
    using assms(1) by (auto simp: co_cooperate_def co_addTask_def co_tasks_ok_def co_reschedule_def Let_def split: if_splits)
  then have new: "tk_completion (co_at u i) = None" "i < co_made u" using assms(2,4) by simp_all
  show ?thesis
    using assms(2-4) u new
    by (cases p) (simp_all add: pause resume notify co_coiterate_def co_stopTask_def co_checkFinish complete split: option.split)
qed

lemma task_ops_completion:
  "co_tasks_ok s \<Longrightarrow> i < co_made s \<Longrightarrow> StopTask i \<notin> set ops \<Longrightarrow> tk_completion (co_at s i) = None \<Longrightarrow>
    tk_completion (co_at (task_ops ops s) i) = None \<and> i < co_made (task_ops ops s)"
proof (induction ops arbitrary: s)
  case (Cons p ops)
  from Cons.prems have p: "p \<noteq> StopTask i" by auto
  from co_op_completion [OF Cons.prems(1,2) p Cons.prems(4)] co_op_tasks [OF Cons.prems(1), of True p] Cons.IH [of "state_of (co_op p s)"] Cons.prems(3)
  show ?case by (simp add: task_ops_def)
qed (simp add: task_ops_def)

end
