(* ===== verification/CooperatorTicks.thy ===== *)
theory CooperatorTicks
  imports Cooperator
begin

text \<open>
  What the ticks of a \<open>Cooperator\<close> do: no work is forgotten, the tasks take turns however
  the work is cut into ticks, and what \<open>stop\<close> leaves behind.
\<close>

section \<open>A tick keeps the invariants and returns\<close>

text \<open>
  An iterator that stops its own task and then yields a Deferred or ends makes the tick
  raise; the others do not.
\<close>

definition stops_itself :: "task_iterator \<Rightarrow> nat \<Rightarrow> coop \<Rightarrow> bool" where
  "stops_itself it i s \<longleftrightarrow> StopTask i \<in> set (fst (it i s))"

lemma co_unit_ok:
  assumes "co_tasks_ok s" "co_deferreds_ok s" "i \<in> set (co_tasks s)" "\<And>u. \<not> stops_itself it i u"
  shows "\<exists>u. co_oneWorkUnit it i s = Ok u \<and> co_tasks_ok u \<and> co_deferreds_ok u"
proof -
  obtain ops result where it: "it i s = (ops, result)" by (cases "it i s")
  let ?s = "s\<lparr>co_worked := co_worked s @ [i]\<rparr>"
  let ?t = "task_ops ops ?s"
  have "co_same_tasks s ?s" "co_same_deferreds s ?s" by (simp_all add: co_same_tasks_def co_same_deferreds_def)
  then have s: "co_tasks_ok ?s" "co_deferreds_ok ?s" using co_same_tasks_ok co_same_deferreds_ok assms(1,2) by simp_all
  have i: "i < co_made ?s" "tk_completion (co_at ?s i) = None" using assms(1,3) by (simp_all add: co_tasks_ok_def co_runnable_def)
  have "StopTask i \<notin> set ops" using assms(4) [of s] it by (simp add: stops_itself_def)
  from task_ops_completion [OF s(1) i(1) this i(2)] have i': "i < co_made ?t" "tk_completion (co_at ?t i) = None" by simp_all
  have t: "co_tasks_ok ?t" "co_deferreds_ok ?t"
    using task_ops_tasks [OF s(1), of True ops] task_ops_deferreds [OF s] by simp_all
  have complete: "\<exists>u. co_completeWith i c ?t = Ok u \<and> co_tasks_ok u \<and> co_deferreds_ok u" for c
    using co_completeWith_deferreds [OF t i'(1), of c] co_completeWith_tasks [OF t(1) _ i'(1), of True c] i'(2) by auto
  from co_pause_tasks [OF t(1) _ i'(1), of True] i'(2) obtain u where u: "co_pause i ?t = Ok u" "co_tasks_ok u" by auto
  with co_same_deferreds_ok [OF co_pause_deferreds, of i ?t] t have "co_deferreds_ok u" by simp
  moreover have "co_same_tasks u (co_upd i (\<lambda>t. t\<lparr>tk_yielded := tk_yielded t + 1\<rparr>) u)"
    "co_same_deferreds u (co_upd i (\<lambda>t. t\<lparr>tk_yielded := tk_yielded t + 1\<rparr>) u)"
    by (simp_all add: co_same_tasks_def co_same_deferreds_def)
  ultimately show ?thesis
    using complete t u co_same_tasks_ok co_same_deferreds_ok by (cases result) (simp_all add: co_oneWorkUnit_def it)
qed

lemma co_next_ok:
  assumes "co_tasks_ok s" "co_deferreds_ok s" "co_next s = Some (i, t)"
  shows "i \<in> set (co_tasks t) \<and> co_tasks_ok t \<and> co_deferreds_ok t"
proof -
  obtain k where "co_metarator s = At k" "k < length (co_tasks s)" "i = co_tasks s ! k" "t = s\<lparr>co_metarator := At (k + 1)\<rparr>"
    using assms(1,3) by (auto simp: co_tasks_ok_def split: metarator.splits if_splits)
  with assms(1,2) show ?thesis by (auto simp: co_tasks_ok_def co_deferreds_ok_def co_runnable_def)
qed

definition co_turn_ok :: "nat option \<times> coop \<Rightarrow> bool" where
  "co_turn_ok r \<longleftrightarrow> co_tasks_ok (snd r) \<and> co_deferreds_ok (snd r) \<and> (case fst r of None \<Rightarrow> True | Some i \<Rightarrow> i \<in> set (co_tasks (snd r)))"

lemma co_while_ok: "co_tasks_ok s \<Longrightarrow> co_deferreds_ok s \<Longrightarrow> co_turn_ok (co_while s)"
proof (cases "co_next s")
  case None
  assume "co_tasks_ok s" "co_deferreds_ok s"
  then have "co_tasks_ok (s\<lparr>co_metarator := At 1\<rparr>)" "co_deferreds_ok (s\<lparr>co_metarator := At 1\<rparr>)"
    by (simp_all add: co_tasks_ok_def co_deferreds_ok_def co_runnable_def)
  with None \<open>co_tasks_ok s\<close> \<open>co_deferreds_ok s\<close> show ?thesis by (simp add: co_while_def co_turn_ok_def del: co_next.simps)
next
  case (Some x)
  assume "co_tasks_ok s" "co_deferreds_ok s"
  moreover obtain i t where "x = (i, t)" by (cases x)
  ultimately show ?thesis
    using Some co_next_ok [of s i t] by (simp add: co_while_def co_turn_ok_def del: co_next.simps)
qed

lemma co_for_ok: "co_tasks_ok s \<Longrightarrow> co_deferreds_ok s \<Longrightarrow> co_turn_ok (co_for s)"
proof (cases "co_next s")
  case None
  assume "co_tasks_ok s" "co_deferreds_ok s"
  then have "co_tasks_ok (s\<lparr>co_metarator := At 0\<rparr>)" "co_deferreds_ok (s\<lparr>co_metarator := At 0\<rparr>)"
    by (simp_all add: co_tasks_ok_def co_deferreds_ok_def co_runnable_def)
  with None co_while_ok show ?thesis by (simp add: co_for_def del: co_next.simps)
next
  case (Some x)
  assume "co_tasks_ok s" "co_deferreds_ok s"
  moreover obtain i t where "x = (i, t)" by (cases x)
  ultimately show ?thesis
    using Some co_next_ok [of s i t] by (simp add: co_for_def co_turn_ok_def del: co_next.simps)
qed

lemma co_units_ok:
  "(\<And>i u. \<not> stops_itself it i u) \<Longrightarrow> co_turn_ok r \<Longrightarrow> \<exists>u. co_units it n r = Ok u \<and> co_tasks_ok u \<and> co_deferreds_ok u"
proof (induction it n r rule: co_units.induct)
  case (3 it n t s)
  then have "co_tasks_ok s" "co_deferreds_ok s" "t \<in> set (co_tasks s)" by (simp_all add: co_turn_ok_def)
  from co_unit_ok [OF this "3.prems"(1)] obtain u where "co_oneWorkUnit it t s = Ok u" "co_tasks_ok u" "co_deferreds_ok u" by blast
  with 3 co_for_ok show ?case by auto
qed (use co_unit_ok in \<open>simp_all add: co_turn_ok_def\<close>)

lemma co_tick_ok:
  assumes "\<And>i u. \<not> stops_itself it i u" "co_tasks_ok s" "co_deferreds_ok s"
  shows "\<exists>u. co_tick it n s = Ok u \<and> co_tasks_ok u \<and> co_scheduled u \<and> co_deferreds_ok u"
proof -
  have "co_tasks_ok (s\<lparr>co_delayedCall := False\<rparr>)" "co_deferreds_ok (s\<lparr>co_delayedCall := False\<rparr>)"
    using assms(2,3) by (simp_all add: co_tasks_ok_def co_deferreds_ok_def co_runnable_def)
  from co_units_ok [OF assms(1) co_while_ok [OF this]] obtain u where
    u: "co_units it n (co_while (s\<lparr>co_delayedCall := False\<rparr>)) = Ok u" "co_tasks_ok u" "co_deferreds_ok u" by blast
  then have "co_tasks_ok (co_reschedule u)" "co_scheduled (co_reschedule u)" "co_deferreds_ok (co_reschedule u)"
    by (auto simp: co_tasks_ok_def co_scheduled_def co_deferreds_ok_def co_runnable_def co_reschedule_def)
  with u show ?thesis by (simp add: co_tick_def)
qed

section \<open>Runs\<close>

datatype co_event = TaskOp task_op | YieldedFires nat | YieldedFails nat | Tick nat | Start

fun co_step :: "task_iterator \<Rightarrow> co_event \<Rightarrow> coop \<Rightarrow> coop" where
  "co_step it (TaskOp p) s = state_of (co_op p s)"
| "co_step it (YieldedFires i) s = (if i < co_made s then state_of (co_yieldedFires i s) else s)"
| "co_step it (YieldedFails i) s = (if i < co_made s then state_of (co_failLater i s) else s)"
| "co_step it (Tick n) s = (if co_delayedCall s then state_of (co_tick it n s) else s)"
| "co_step it Start s = co_start s"

lemma co_start_ok: "co_tasks_ok s \<Longrightarrow> co_scheduled s \<Longrightarrow> co_tasks_ok (co_start s) \<and> co_scheduled (co_start s)"
  by (auto simp: co_start_def Let_def co_tasks_ok_def co_scheduled_def co_runnable_def co_reschedule_def)

lemma co_step_ok:
  assumes "\<And>i u. \<not> stops_itself it i u" "co_tasks_ok s" "co_scheduled s" "co_deferreds_ok s"
  shows "co_tasks_ok (co_step it e s) \<and> co_scheduled (co_step it e s) \<and> co_deferreds_ok (co_step it e s)"
proof (cases e)
  case (TaskOp p)
  with co_op_tasks [OF assms(2), of False p] co_op_deferreds [OF assms(2,4), of p] assms(3) show ?thesis by simp
next
  case (YieldedFires i)
  let ?t = "co_upd i (\<lambda>t. t\<lparr>tk_yielded := tk_yielded t - 1\<rparr>) s"
  have same: "co_same_tasks s ?t" "co_same_deferreds s ?t" by (simp_all add: co_same_tasks_def co_same_deferreds_def)
  then have t: "co_tasks_ok ?t" "co_scheduled ?t" "co_deferreds_ok ?t"
    using co_same_tasks_ok co_same_deferreds_ok assms by simp_all
  then have "co_deferreds_ok (state_of (co_resume i ?t))"
    using co_same_deferreds_ok [OF co_resume_deferreds] by (simp add: co_tasks_ok_def)
  with YieldedFires co_resume_tasks [OF t(1), of False i] t assms show ?thesis
    by (simp add: co_yieldedFires_def)
next
  case (YieldedFails i)
  let ?t = "co_upd i (\<lambda>t. t\<lparr>tk_yielded := tk_yielded t - 1\<rparr>) s"
  have same: "co_same_tasks s ?t" "co_same_deferreds s ?t" by (simp_all add: co_same_tasks_def co_same_deferreds_def)
  then have t: "co_tasks_ok ?t" "co_scheduled ?t" "co_deferreds_ok ?t"
    using co_same_tasks_ok co_same_deferreds_ok assms by simp_all
  with YieldedFails co_completeWith_tasks [OF t(1), of False i] co_completeWith_deferreds [OF t(1,3), of i] assms show ?thesis
    by (simp add: co_failLater_def)
next
  case (Tick n)
  with co_tick_ok [OF assms(1,2,4), of n] assms show ?thesis by auto
next
  case Start
  have "co_deferreds_ok (co_start s) = co_deferreds_ok s"
    by (simp add: co_start_def Let_def co_deferreds_ok_def co_reschedule_def)
  with Start co_start_ok assms show ?thesis by simp
qed

lemma co_run_ok:
  assumes "\<And>i u. \<not> stops_itself it i u"
  shows "co_tasks_ok s \<Longrightarrow> co_scheduled s \<Longrightarrow> co_deferreds_ok s \<Longrightarrow>
    co_tasks_ok (fold (co_step it) es s) \<and> co_scheduled (fold (co_step it) es s) \<and> co_deferreds_ok (fold (co_step it) es s)"
proof (induction es arbitrary: s)
  case (Cons e es)
  from co_step_ok [OF assms Cons.prems, of e] Cons.IH [of "co_step it e s"] show ?case by simp
qed simp


section \<open>Turns\<close>

definition co_quiet :: task_iterator where
  "co_quiet i s = ([], NextValue)"

definition co_position :: "coop \<Rightarrow> nat" where
  "co_position s = (case co_metarator s of At k \<Rightarrow> k | m \<Rightarrow> 0)"

definition co_positioned :: "coop \<Rightarrow> bool" where
  "co_positioned s \<longleftrightarrow> co_tasks s \<noteq> [] \<and> (case co_metarator s of Exhausted \<Rightarrow> True | At k \<Rightarrow> k \<le> length (co_tasks s) | Dropped ts k \<Rightarrow> False)"

lemma co_turn:
  assumes "co_positioned s"
  defines "p \<equiv> co_position s mod length (co_tasks s)"
  shows "co_while s = (Some (co_tasks s ! p), s\<lparr>co_metarator := At (p + 1)\<rparr>)"
    "co_for s = (Some (co_tasks s ! p), s\<lparr>co_metarator := At (p + 1)\<rparr>)"
proof -
  have ne: "co_tasks s \<noteq> []" using assms(1) by (simp add: co_positioned_def)
  consider "co_metarator s = Exhausted" | k where "co_metarator s = At k" "k < length (co_tasks s)"
    | "co_metarator s = At (length (co_tasks s))"
    using assms(1) by (auto simp: co_positioned_def le_less split: metarator.splits)
  then show "co_while s = (Some (co_tasks s ! p), s\<lparr>co_metarator := At (p + 1)\<rparr>)"
    "co_for s = (Some (co_tasks s ! p), s\<lparr>co_metarator := At (p + 1)\<rparr>)"
    by (cases; use ne in \<open>simp add: co_while_def co_for_def p_def co_position_def hd_conv_nth\<close>)+
qed

lemma co_units_turns:
  assumes "co_tasks s \<noteq> []" "p < length (co_tasks s)" "co_metarator s = At (p + 1)"
  shows "co_units co_quiet n (Some (co_tasks s ! p), s) =
    Ok (s\<lparr>co_metarator := At ((p + n) mod length (co_tasks s) + 1),
          co_worked := co_worked s @ map (\<lambda>j. co_tasks s ! ((p + j) mod length (co_tasks s))) [0..<Suc n]\<rparr>)"
  using assms
proof (induction n arbitrary: p s)
  case 0
  then show ?case by (cases s) (simp add: co_oneWorkUnit_def co_quiet_def task_ops_def)
next
  case (Suc n)
  let ?l = "length (co_tasks s)" and ?s = "s\<lparr>co_worked := co_worked s @ [co_tasks s ! p]\<rparr>"
  let ?p = "Suc p mod ?l"
  have unit: "co_oneWorkUnit co_quiet (co_tasks s ! p) s = Ok ?s"
    by (simp add: co_oneWorkUnit_def co_quiet_def task_ops_def)
  have "co_positioned ?s" "co_position ?s = Suc p" using Suc.prems by (simp_all add: co_positioned_def co_position_def)
  then have turn: "co_for ?s = (Some (co_tasks s ! ?p), ?s\<lparr>co_metarator := At (?p + 1)\<rparr>)"
    using co_turn(2) [of ?s] by simp
  have "map (\<lambda>j. co_tasks s ! ((p + j) mod ?l)) [0..<Suc (Suc n)] =
      co_tasks s ! p # map (\<lambda>j. co_tasks s ! ((?p + j) mod ?l)) [0..<Suc n]"
    using Suc.prems(2) by (simp add: map_upt_Suc mod_add_left_eq del: upt_Suc)
  moreover have "(?p + n) mod ?l = (p + Suc n) mod ?l" by (simp add: mod_add_left_eq)
  ultimately show ?case
    using Suc.IH [of "?s\<lparr>co_metarator := At (?p + 1)\<rparr>" ?p] Suc.prems by (simp add: unit turn del: upt_Suc)
qed

lemma co_tick_turns:
  assumes "co_positioned s"
  defines "l \<equiv> length (co_tasks s)"
  shows "\<exists>t. co_tick co_quiet n s = Ok t \<and> co_positioned t \<and> co_tasks t = co_tasks s \<and>
    co_position t mod l = (co_position s + Suc n) mod l \<and>
    co_worked t = co_worked s @ map (\<lambda>j. co_tasks s ! ((co_position s + j) mod l)) [0..<Suc n]"
proof -
  let ?s = "s\<lparr>co_delayedCall := False\<rparr>" and ?p = "co_position s mod l"
  have s: "co_positioned ?s" "co_position ?s = co_position s"
    using assms(1) by (auto simp: co_positioned_def co_position_def split: metarator.splits)
  have l: "0 < l" using assms(1) by (simp add: co_positioned_def l_def)
  let ?t = "?s\<lparr>co_metarator := At ((?p + n) mod l + 1), co_worked := co_worked s @ map (\<lambda>j. co_tasks s ! ((?p + j) mod l)) [0..<Suc n]\<rparr>"
  have "co_tick co_quiet n s = Ok (co_reschedule ?t)"
    using co_turn(1) [OF s(1)] s(2) l co_units_turns [of "?s\<lparr>co_metarator := At (?p + 1)\<rparr>" ?p n]
    by (simp add: co_tick_def l_def del: upt_Suc)
  moreover have "(?p + n) mod l < l" using l by simp
  then have "co_positioned (co_reschedule ?t)"
    using assms(1) by (simp add: co_positioned_def co_reschedule_def l_def Suc_le_eq)
  moreover have "co_position (co_reschedule ?t) mod l = (co_position s + Suc n) mod l"
  proof -
    have "co_position (co_reschedule ?t) = co_position ?t" by (simp add: co_position_def co_reschedule_def)
    also have "\<dots> = Suc ((?p + n) mod l)" by (subst co_position_def) simp
    finally show ?thesis by (simp add: mod_add_left_eq mod_Suc_eq)
  qed
  moreover have "(?p + j) mod l = (co_position s + j) mod l" for j by (rule mod_add_left_eq)
  ultimately show ?thesis by (intro exI [of _ "co_reschedule ?t"]) (simp add: co_reschedule_def del: upt_Suc)
qed

section \<open>What \<open>stop\<close> completes\<close>

fun evens :: "'a list \<Rightarrow> 'a list" where
  "evens [] = []"
| "evens [x] = [x]"
| "evens (x # y # zs) = x # evens zs"

text \<open>The firings of the completion Deferreds of tasks.\<close>

definition co_firings :: "completion \<Rightarrow> nat list \<Rightarrow> coop \<Rightarrow> (nat \<times> completion) list" where
  "co_firings c is s = concat (map (\<lambda>i. map (\<lambda>d. (d, c)) (tk_deferreds (co_at s i))) is)"

lemma co_callback_fires_all: "co_callback c ds s = Ok t \<Longrightarrow> co_fired t = co_fired s @ map (\<lambda>d. (d, c)) ds \<and> co_at t = co_at s"
  by (induction c ds s rule: co_callback.induct) (auto split: if_splits)

definition co_completes :: "completion \<Rightarrow> nat list \<Rightarrow> coop \<Rightarrow> coop \<Rightarrow> bool" where
  "co_completes c is s t \<longleftrightarrow> co_deferreds_ok t \<and> co_made t = co_made s \<and> co_fired t = co_fired s @ co_firings c is s \<and>
     co_started t = co_started s \<and> co_stopped t = co_stopped s \<and> (\<forall>i. tk_deferreds (co_at t i) = tk_deferreds (co_at s i)) \<and>
     (\<forall>i. tk_pauseCount (co_at t i) = tk_pauseCount (co_at s i) \<and>
          tk_completion (co_at t i) = (if i \<in> set is then Some c else tk_completion (co_at s i)))"

lemma co_complete_running:
  assumes "co_deferreds_ok s" "i \<in> set (co_tasks s)" "co_runnable s i"
  shows "\<exists>t. co_completeWith i c s = Ok t \<and> co_completes c [i] s t \<and> co_tasks t = remove1 i (co_tasks s)"
proof -
  have i: "i < co_made s" "tk_pauseCount (co_at s i) = 0" "tk_completion (co_at s i) = None" using assms(3) by (simp_all add: co_runnable_def)
  from co_completeWith_fires [OF _ assms(1) i(1), of c] assms(2) i obtain t where t: "co_completeWith i c s = Ok t" "co_deferreds_ok t" by auto
  define u where "u = co_upd i (\<lambda>t. t\<lparr>tk_completion := Some c\<rparr>) s"
  obtain v where v: "co_removeTask i u = Ok v" "co_tasks v = remove1 i (co_tasks s)" "co_at v = co_at u" "co_made v = co_made s"
      "co_fired v = co_fired s" "co_started v = co_started s" "co_stopped v = co_stopped s"
    using assms(2) by (auto simp: co_removeTask_def Let_def u_def)
  have "co_callback c (tk_deferreds (co_at v i)) v = Ok t"
    using t(1) v(1) i(2) by (simp add: co_completeWith_def Let_def u_def)
  with co_callback_same [of v c "tk_deferreds (co_at v i)"] co_callback_fires_all [of c "tk_deferreds (co_at v i)" v t]
  have "co_same_tasks v t" "co_fired t = co_fired v @ map (\<lambda>d. (d, c)) (tk_deferreds (co_at v i))" "co_at t = co_at v" by simp_all
  with v t(2) have "co_completes c [i] s t" "co_tasks t = remove1 i (co_tasks s)"
    by (simp_all add: co_completes_def co_same_tasks_def u_def co_firings_def)
  with t(1) show ?thesis by blast
qed

lemma co_completes_trans: "co_completes c is s t \<Longrightarrow> co_completes c js t u \<Longrightarrow> co_completes c (is @ js) s u"
  by (auto simp: co_completes_def co_firings_def)

lemma co_stopLoop_evens:
  "co_deferreds_ok s \<Longrightarrow> co_tasks s = xs @ ys \<Longrightarrow> distinct (xs @ ys) \<Longrightarrow> list_all (co_runnable s) ys \<Longrightarrow> length ys \<le> n \<Longrightarrow>
    \<exists>t. co_stopLoop n (length xs) s = Ok t \<and> co_completes SchedulerStopped (evens ys) s t"
proof (induction ys arbitrary: xs s n rule: evens.induct)
  case 1
  then show ?case by (cases n) (simp_all add: co_completes_def co_firings_def)
next
  case (2 x)
  from "2.prems" obtain m where m: "n = Suc m" by (cases n) auto
  from co_complete_running [of s x SchedulerStopped] "2.prems" obtain t where
    t: "co_completeWith x SchedulerStopped s = Ok t" "co_completes SchedulerStopped [x] s t" "co_tasks t = remove1 x (xs @ [x])" by auto
  have "co_stopLoop m (Suc (length xs)) t = Ok t" using t(3) "2.prems"(3) by (cases m) (simp_all add: remove1_append)
  with t "2.prems" m show ?case by simp
next
  case (3 x y zs)
  from "3.prems" obtain m where m: "n = Suc m" by (cases n) auto
  from co_complete_running [of s x SchedulerStopped] "3.prems" obtain t where
    t: "co_completeWith x SchedulerStopped s = Ok t" "co_completes SchedulerStopped [x] s t" "co_tasks t = remove1 x (xs @ x # y # zs)" by auto
  then have tasks: "co_tasks t = (xs @ [y]) @ zs" using "3.prems"(3) by (simp add: remove1_append)
  have "list_all (co_runnable t) zs"
    using "3.prems"(3,4) t(2) by (auto simp: list_all_iff co_runnable_def co_completes_def)
  with "3.IH" [of t "xs @ [y]" m] tasks t(2) "3.prems"(3,5) m obtain u where
    "co_stopLoop m (length (xs @ [y])) t = Ok u" "co_completes SchedulerStopped (evens zs) t u"
    by (auto simp: co_completes_def)
  with co_completes_trans [OF t(2)] t(1) "3.prems" m show ?case by (auto simp: nth_append)
qed

lemma evens_nth: "distinct xs \<Longrightarrow> j < length xs \<Longrightarrow> xs ! j \<in> set (evens xs) \<longleftrightarrow> even j"
proof (induction xs arbitrary: j rule: evens.induct)
  case (3 x y zs)
  have sub: "set (evens zs) \<subseteq> set zs" for zs :: "'a list" by (induction zs rule: evens.induct) auto
  show ?case
  proof (cases j)
    case (Suc k)
    then show ?thesis
    proof (cases k)
      case (Suc l)
      with 3 \<open>j = Suc k\<close> show ?thesis by (auto simp: nth_Cons')
    qed (use 3 sub in auto)
  qed simp
qed auto

text \<open>What the cooperator does by itself: ticks, and \<open>start\<close>.\<close>

fun co_unattended :: "co_event \<Rightarrow> bool" where
  "co_unattended (Tick n) \<longleftrightarrow> True"
| "co_unattended Start \<longleftrightarrow> True"
| "co_unattended e \<longleftrightarrow> False"

lemma co_unattended_run:
  "co_tasks s = [] \<Longrightarrow> \<not> co_delayedCall s \<Longrightarrow> list_all co_unattended es \<Longrightarrow> co_fired (fold (co_step it) es s) = co_fired s"
proof (induction es arbitrary: s)
  case (Cons e es)
  have "co_tasks (co_step it e s) = [] \<and> \<not> co_delayedCall (co_step it e s) \<and> co_fired (co_step it e s) = co_fired s"
    using Cons.prems by (cases e) (simp_all add: co_start_def Let_def co_reschedule_def)
  with Cons show ?case by simp
qed simp

section \<open>Properties\<close>

text \<open>
  C14: no work is forgotten and no tick is idle.  Whatever the tasks do, except stop
  themselves, and however they are added, paused, resumed, stopped and held up by the
  Deferreds they yield: the list holds exactly the tasks that can run; a tick is scheduled
  exactly when there are some, once the cooperator has started; the Deferreds of a task have
  fired, each once, when it is complete and not before; and the next tick does not raise.
\<close>

theorem cooperator_no_lost_work:
  assumes "\<And>i u. \<not> stops_itself it i u" and "s = fold (co_step it) es (co_init started)"
  shows "distinct (co_tasks s) \<and> set (co_tasks s) = {i. co_runnable s i} \<and>
    (co_delayedCall s \<longleftrightarrow> co_started s \<and> co_tasks s \<noteq> []) \<and> co_deferreds_ok s \<and> (\<exists>t. co_tick it n s = Ok t)"
proof -
  have "co_tasks_ok (co_init started)" "co_scheduled (co_init started)" "co_deferreds_ok (co_init started)"
    by (simp_all add: co_init_def co_tasks_ok_def co_scheduled_def co_deferreds_ok_def co_runnable_def)
  note s = co_run_ok [where it = it and es = es, OF assms(1) this, folded assms(2)]
  moreover have "\<exists>t. co_tick it n s = Ok t" using co_tick_ok [where it = it, OF assms(1)] s by blast
  ultimately show ?thesis by (auto simp: co_tasks_ok_def co_scheduled_def)
qed

text \<open>
  C16: the tasks take turns.  When no task ends or waits, the work units go through the
  list of tasks round and round without leaving one out, wherever the time of a tick
  runs out and the next tick takes over.
\<close>

theorem cooperator_round_robin:
  assumes "co_positioned s"
  shows "co_worked (fold (\<lambda>n s. state_of (co_tick co_quiet n s)) ns s) =
    co_worked s @ map (\<lambda>j. co_tasks s ! ((co_position s + j) mod length (co_tasks s))) [0..<sum_list (map Suc ns)]"
  using assms
proof (induction ns arbitrary: s)
  case (Cons n ns)
  let ?l = "length (co_tasks s)"
  from co_tick_turns [OF Cons.prems, of n] obtain t where t: "co_tick co_quiet n s = Ok t" "co_positioned t" "co_tasks t = co_tasks s"
    "co_position t mod ?l = (co_position s + Suc n) mod ?l"
    "co_worked t = co_worked s @ map (\<lambda>j. co_tasks s ! ((co_position s + j) mod ?l)) [0..<Suc n]" by blast
  have "(co_position t + j) mod ?l = (co_position s + (Suc n + j)) mod ?l" for j
    using t(4) by (metis add.assoc mod_add_left_eq)
  moreover have "[0..<Suc n + m] = [0..<Suc n] @ map (\<lambda>j. Suc n + j) [0..<m]" for m
    using upt_add_eq_append [of 0 "Suc n" m] map_add_upt [of "Suc n" m] by (simp only: add.commute le0)
  ultimately show ?case using Cons.IH [OF t(2)] t by (simp add: comp_def del: upt_Suc)
qed simp

text \<open>
  C15: \<open>stop\<close> completes every other task only, although its documentation promises an errback
  for the Deferreds of all.  It walks the list of tasks while each completed task removes itself
  from it, so the tasks at odd positions are dropped without being completed.  The Deferreds
  that it fires are exactly those of the tasks at even positions.  Those of a dropped task have
  not fired; the cooperator, left to itself, does not fire them whatever ticks and calls of its
  \<open>start\<close> follow, and \<open>stop\<close> of the task raises and does not fire them either.  (They do fire when
  the task is first paused, which raises as well, and then stopped or resumed.)
\<close>

theorem cooperator_stop_skips:
  assumes "co_tasks_ok s" "co_deferreds_ok s" and "list_all co_unattended es"
  shows "\<exists>t. co_stop s = Ok t \<and> co_tasks t = [] \<and>
    map (\<lambda>i. tk_completion (co_at t i)) (co_tasks s) =
      map (\<lambda>j. if even j then Some SchedulerStopped else None) [0..<length (co_tasks s)] \<and>
    co_fired t = co_fired s @ co_firings SchedulerStopped (evens (co_tasks s)) s \<and>
    co_fired (fold (co_step it) es t) = co_fired t \<and>
    list_all (\<lambda>j. even j \<or> set (tk_deferreds (co_at t (co_tasks s ! j))) \<inter> fst ` set (co_fired t) = {} \<and>
      (\<exists>u. co_op (StopTask (co_tasks s ! j)) t = Exc NotInList u \<and> co_fired u = co_fired t)) [0..<length (co_tasks s)]"
proof -
  let ?s = "s\<lparr>co_stopped := True\<rparr>"
  have "co_deferreds_ok ?s" "list_all (co_runnable ?s) (co_tasks s)" "distinct (co_tasks s)"
    using assms by (simp_all add: co_deferreds_ok_def co_tasks_ok_def list_all_iff co_runnable_def)
  with co_stopLoop_evens [of ?s "[]" "co_tasks s" "length (co_tasks s)"] obtain t where
    t: "co_stopLoop (length (co_tasks s)) 0 ?s = Ok t" "co_completes SchedulerStopped (evens (co_tasks s)) ?s t" by auto
  obtain u where u: "co_stop s = Ok u" "co_at u = co_at t" "co_tasks u = []" "\<not> co_delayedCall u" "co_fired u = co_fired t" "co_made u = co_made t"
      "co_deferreds u = co_deferreds t"
    using t(1) by (simp add: co_stop_def Let_def)
  have "co_deferreds_ok t" using t(2) by (simp add: co_completes_def)
  then have ok: "co_deferreds_ok u" unfolding co_deferreds_ok_def u .
  have fired: "co_fired u = co_fired s @ co_firings SchedulerStopped (evens (co_tasks s)) s"
    using t(2) by (simp add: u co_completes_def co_firings_def)
  have task: "co_runnable s (co_tasks s ! j) \<and> tk_completion (co_at u (co_tasks s ! j)) = (if even j then Some SchedulerStopped else None) \<and>
      tk_pauseCount (co_at u (co_tasks s ! j)) = 0 \<and> co_tasks s ! j < co_made u"
    if "j < length (co_tasks s)" for j
  proof -
    have "co_runnable s (co_tasks s ! j)" "distinct (co_tasks s)"
      using assms(1) nth_mem [OF that] unfolding co_tasks_ok_def by blast+
    with t(2) evens_nth [OF this(2) that] show ?thesis by (simp add: co_completes_def co_runnable_def u)
  qed
  then have "map (\<lambda>i. tk_completion (co_at u i)) (co_tasks s) =
      map (\<lambda>j. if even j then Some SchedulerStopped else None) [0..<length (co_tasks s)]" by (auto intro!: nth_equalityI)
  moreover have "set (tk_deferreds (co_at u i)) \<inter> fst ` set (co_fired u) = {} \<and>
      (\<exists>v. co_op (StopTask i) u = Exc NotInList v \<and> co_fired v = co_fired u)"
    if i: "i < co_made u" "tk_completion (co_at u i) = None" "tk_pauseCount (co_at u i) = 0" for i
  proof -
    have "set (tk_deferreds (co_at u i)) \<inter> fst ` set (co_fired u) = {}" using ok i(1,2) unfolding co_deferreds_ok_def by blast
    moreover have "co_op (StopTask i) u = Exc NotInList (co_upd i (\<lambda>t. t\<lparr>tk_completion := Some TaskStopped\<rparr>) u)"
      using i u(3) by (simp add: co_stopTask_def co_checkFinish_def co_completeWith_def co_removeTask_def Let_def)
    ultimately show ?thesis by simp
  qed
  with task have "list_all (\<lambda>j. even j \<or> set (tk_deferreds (co_at u (co_tasks s ! j))) \<inter> fst ` set (co_fired u) = {} \<and>
      (\<exists>v. co_op (StopTask (co_tasks s ! j)) u = Exc NotInList v \<and> co_fired v = co_fired u)) [0..<length (co_tasks s)]"
    by (fastforce simp: list_all_iff)
  ultimately show ?thesis using u(1,3) fired co_unattended_run [OF u(3,4) assms(3)] by blast
qed

text \<open>Pausing a dropped task raises, but then stopping it fires its Deferred.\<close>

lemma cooperator_dropped_task_fires:
  "let s = state_of (co_op Coiterate (state_of (co_op Coiterate (co_init True))));
       t = state_of (co_stop s); u = state_of (co_op (PauseTask 1) t)
   in co_fired t = [(0, SchedulerStopped)] \<and> co_fired (state_of (co_op (StopTask 1) u)) = [(0, SchedulerStopped), (1, TaskStopped)]"
  by code_simp

text \<open>The example: three tasks; the first yields a Deferred when it has worked twice, the second ends then.\<close>

definition co_example_it :: task_iterator where
  "co_example_it i s =
     (if length (filter ((=) i) (co_worked s)) < 2 then ([], NextValue)
      else if i = 0 then ([PauseTask 2], NextDeferred) else if i = 1 then ([WhenDone 0], StopIteration) else ([], NextValue))"

definition co_example :: "co_event list" where
  "co_example = [TaskOp Coiterate, TaskOp Coiterate, TaskOp Coiterate, Tick 4, Tick 4, YieldedFires 0]"

lemma co_example_it_ok: "\<not> stops_itself co_example_it i s"
  by (simp add: stops_itself_def co_example_it_def)

theorem cooperator_no_lost_work_witness:
  "co_tasks (fold (co_step co_example_it) co_example (co_init True)) = [0] \<and>
   co_fired (fold (co_step co_example_it) co_example (co_init True)) = [(1, TaskDone)] \<and>
   co_deferreds_ok (fold (co_step co_example_it) co_example (co_init True))"
proof -
  have "co_tasks (fold (co_step co_example_it) co_example (co_init True)) = [0]"
    "co_fired (fold (co_step co_example_it) co_example (co_init True)) = [(1, TaskDone)]"
    by code_simp+
  with cooperator_no_lost_work [OF co_example_it_ok refl, of co_example True] show ?thesis by blast
qed

definition co_two :: coop where
  "co_two = state_of (co_coiterate (state_of (co_coiterate (co_init True))))"

theorem cooperator_round_robin_witness:
  "co_worked (fold (\<lambda>n s. state_of (co_tick co_quiet n s)) [0, 1, 1] co_two) = [0, 1, 0, 1, 0]"
proof -
  have "co_positioned co_two" by code_simp
  from cooperator_round_robin [OF this, of "[0, 1, 1]"]
  have "co_worked (fold (\<lambda>n s. state_of (co_tick co_quiet n s)) [0, 1, 1] co_two) =
    co_worked co_two @ map (\<lambda>j. co_tasks co_two ! ((co_position co_two + j) mod length (co_tasks co_two))) [0..<sum_list (map Suc [0, 1, 1])]" .
  also have "\<dots> = [0, 1, 0, 1, 0]" by code_simp
  finally show ?thesis .
qed

theorem cooperator_stop_skips_witness:
  "\<exists>t. co_stop co_two = Ok t \<and> tk_completion (co_at t 0) = Some SchedulerStopped \<and> tk_completion (co_at t 1) = None \<and>
    co_fired t = [(0, SchedulerStopped)] \<and> co_fired (fold (co_step co_example_it) [Tick 3, Start, Tick 1] t) = [(0, SchedulerStopped)]"
proof -
  have "co_tasks_ok (co_init True)" "co_deferreds_ok (co_init True)"
    by (simp_all add: co_init_def co_tasks_ok_def co_deferreds_ok_def co_runnable_def)
  then have "co_tasks_ok co_two" "co_deferreds_ok co_two"
    using co_op_tasks [of _ True Coiterate] co_op_deferreds [of _ Coiterate] by (simp_all add: co_two_def)
  moreover have "list_all co_unattended [Tick 3, Start, Tick 1]" by simp
  ultimately obtain t where t: "co_stop co_two = Ok t"
    "map (\<lambda>i. tk_completion (co_at t i)) (co_tasks co_two) =
      map (\<lambda>j. if even j then Some SchedulerStopped else None) [0..<length (co_tasks co_two)]"
    "co_fired t = co_fired co_two @ co_firings SchedulerStopped (evens (co_tasks co_two)) co_two"
    "co_fired (fold (co_step co_example_it) [Tick 3, Start, Tick 1] t) = co_fired t"
    using cooperator_stop_skips [of co_two "[Tick 3, Start, Tick 1]" co_example_it] by blast
  moreover have "co_tasks co_two = [0, 1]" "co_fired co_two @ co_firings SchedulerStopped (evens (co_tasks co_two)) co_two = [(0, SchedulerStopped)]"
    by code_simp+
  ultimately show ?thesis by (simp del: fold.simps)
qed

text \<open>
  A task that stops itself and then yields a Deferred ends the tick with its
  \<open>TaskStopped\<close>: the other task is left with nothing scheduled.
\<close>

lemma cooperator_self_stop_stalls:
  "case co_tick (\<lambda>i s. if i = 0 then ([StopTask 0], NextDeferred) else ([], NextValue)) 5 co_two of
     Ok t \<Rightarrow> False
   | Exc e t \<Rightarrow> e = TaskFinished TaskStopped \<and> co_tasks t = [1] \<and> \<not> co_delayedCall t"
  by code_simp

end
