(* ===== verification/Looping.thy ===== *)
theory Looping
  imports ReactorTimers
begin

text \<open>
  \<open>LoopingCall\<close> of \<open>twisted/internet/task.py\<close>, on any owner of timers: its \<open>clock\<close> is the
  reactor or a \<open>Clock\<close>, reached through the operations of the contract \<open>timer_owner\<close>.  The
  function it calls returns, raises or returns a Deferred that fires later; a synchronous
  result is one that arrives at once, so a call is modelled as two steps, its beginning
  and its result, between which anything can happen.
\<close>

section \<open>The operations\<close>

text \<open>
  \<open>lc_scheduled\<close> records the time of the clock when \<open>_scheduleFrom\<close> ran last, and \<open>lc_overlapped\<close>
  whether \<open>start\<close> was ever called between the beginning of a call of the function and its result.
\<close>

record looping_call =
  lc_running :: bool
  lc_call :: "nat option"
  lc_deferred :: "nat option"
  lc_interval :: time
  lc_runAtStart :: bool
  lc_starttime :: time
  lc_realLastTime :: "time option"
  lc_calling :: nat
  lc_deferreds :: nat
  lc_fired :: "(nat \<times> bool) list"
  lc_scheduled :: time
  lc_overlapped :: bool

definition lc_init :: looping_call where
  "lc_init = \<lparr> lc_running = False, lc_call = None, lc_deferred = None, lc_interval = 0, lc_runAtStart = False,
     lc_starttime = 0, lc_realLastTime = None, lc_calling = 0, lc_deferreds = 0, lc_fired = [],
     lc_scheduled = 0, lc_overlapped = False \<rparr>"

text \<open>Python's \<open>%\<close> and \<open>int\<close> on exact numbers, for a positive divisor.\<close>

definition time_mod :: "time \<Rightarrow> time \<Rightarrow> time" where
  "time_mod a b = a - b * of_int \<lfloor>a / b\<rfloor>"

definition int_of_time :: "time \<Rightarrow> int" where
  "int_of_time x = (if 0 \<le> x then \<lfloor>x\<rfloor> else \<lceil>x\<rceil>)"

definition lc_howLong :: "looping_call \<Rightarrow> time \<Rightarrow> time" where
  "lc_howLong l when =
     (if lc_interval l = 0 then 0
      else let runningFor = when - lc_starttime l;
               untilNextInterval = lc_interval l - time_mod runningFor (lc_interval l)
           in if when = when + untilNextInterval then lc_interval l else untilNextInterval)"

type_synonym ('f, 'z) owner_op = "'f timer_op \<Rightarrow> ('f, 'z) timers_scheme \<Rightarrow> (timer_error, ('f, 'z) timers_scheme) outcome"
type_synonym ('f, 'z) looping_state = "looping_call \<times> ('f, 'z) timers_scheme"

definition lc_scheduleFrom :: "('f, 'z) owner_op \<Rightarrow> 'f \<Rightarrow> time \<Rightarrow> ('f, 'z) looping_state \<Rightarrow> ('f, 'z) looping_state" where
  "lc_scheduleFrom oper self when = (\<lambda>(l, s).
     (l\<lparr>lc_call := Some (tm_made s), lc_scheduled := tm_now s\<rparr>, state_of (oper (CallLater (lc_howLong l when) self) s)))"

text \<open>\<open>d, self.deferred = self.deferred, None\<close> and then \<open>callback\<close> or \<open>errback\<close>.\<close>

definition lc_fire :: "bool \<Rightarrow> looping_call \<Rightarrow> looping_call" where
  "lc_fire ok l = (case lc_deferred l of None \<Rightarrow> l | Some d \<Rightarrow> l\<lparr>lc_deferred := None, lc_fired := lc_fired l @ [(d, ok)]\<rparr>)"

definition lc_begin :: "looping_call \<Rightarrow> looping_call" where
  "lc_begin l = l\<lparr>lc_call := None, lc_calling := lc_calling l + 1\<rparr>"

definition lc_cb :: "('f, 'z) owner_op \<Rightarrow> 'f \<Rightarrow> ('f, 'z) looping_state \<Rightarrow> ('f, 'z) looping_state" where
  "lc_cb oper self = (\<lambda>(l, s).
     let l = l\<lparr>lc_calling := lc_calling l - 1\<rparr>
     in if lc_running l then lc_scheduleFrom oper self (tm_now s) (l, s) else (lc_fire True l, s))"

definition lc_eb :: "('f, 'z) looping_state \<Rightarrow> ('f, 'z) looping_state" where
  "lc_eb = (\<lambda>(l, s). (lc_fire False (l\<lparr>lc_calling := lc_calling l - 1, lc_running := False\<rparr>), s))"

definition lc_start ::
    "('f, 'z) owner_op \<Rightarrow> 'f \<Rightarrow> time \<Rightarrow> bool \<Rightarrow> ('f, 'z) looping_state \<Rightarrow> (timer_error, ('f, 'z) looping_state) outcome" where
  "lc_start oper self interval now = (\<lambda>(l, s).
     if lc_running l then Exc AssertionError (l, s)
     else if interval < 0 then Exc ValueError (l, s)
     else let l = l\<lparr>lc_running := True, lc_deferred := Some (lc_deferreds l), lc_deferreds := lc_deferreds l + 1,
                    lc_starttime := tm_now s, lc_interval := interval, lc_runAtStart := now,
                    lc_overlapped := lc_overlapped l \<or> lc_calling l \<noteq> 0\<rparr>
          in Ok (if now then (lc_begin l, s) else lc_scheduleFrom oper self (lc_starttime l) (l, s)))"

definition lc_stop :: "('f, 'z) owner_op \<Rightarrow> ('f, 'z) looping_state \<Rightarrow> (timer_error, ('f, 'z) looping_state) outcome" where
  "lc_stop oper = (\<lambda>(l, s).
     if \<not> lc_running l then Exc AssertionError (l, s)
     else let l = l\<lparr>lc_running := False\<rparr>
          in case lc_call l of
               None \<Rightarrow> Ok (l, s)
             | Some i \<Rightarrow> (case oper (CancelCall i) s of
                   Exc e s \<Rightarrow> Exc e (l, s)
                 | Ok s \<Rightarrow> Ok (lc_fire True (l\<lparr>lc_call := None\<rparr>), s)))"

definition lc_reset :: "('f, 'z) owner_op \<Rightarrow> 'f \<Rightarrow> ('f, 'z) looping_state \<Rightarrow> (timer_error, ('f, 'z) looping_state) outcome" where
  "lc_reset oper self = (\<lambda>(l, s).
     if \<not> lc_running l then Exc AssertionError (l, s)
     else case lc_call l of
            None \<Rightarrow> Ok (l, s)
          | Some i \<Rightarrow> (case oper (CancelCall i) s of
                Exc e s \<Rightarrow> Exc e (l, s)
              | Ok s \<Rightarrow> let l = l\<lparr>lc_call := None, lc_starttime := tm_now s\<rparr>
                        in Ok (lc_scheduleFrom oper self (lc_starttime l) (l, s))))"

text \<open>\<open>withCount\<close>: what the counter passes on, or \<open>ZeroDivisionError\<close>.\<close>

definition lc_intervalOf :: "looping_call \<Rightarrow> time \<Rightarrow> int option" where
  "lc_intervalOf l t =
     (if lc_interval l = 0 then None else Some (int_of_time ((t - lc_starttime l) / lc_interval l)))"

definition lc_counter :: "time \<Rightarrow> looping_call \<Rightarrow> (looping_call \<times> int option) option" where
  "lc_counter now l =
     (let lastTime = (case lc_realLastTime l of
            None \<Rightarrow> if lc_runAtStart l then lc_starttime l - lc_interval l else lc_starttime l
          | Some t \<Rightarrow> t)
      in case (lc_intervalOf l lastTime, lc_intervalOf l now) of
           (Some lastInterval, Some thisInterval) \<Rightarrow>
             let count = thisInterval - lastInterval
             in Some (if 0 < count then (l\<lparr>lc_realLastTime := Some now\<rparr>, Some count) else (l, None))
         | _ \<Rightarrow> None)"

section \<open>When the next call comes\<close>

text \<open>The first point of the grid from the start time after the given time.\<close>

definition lc_next :: "looping_call \<Rightarrow> time \<Rightarrow> time" where
  "lc_next l when =
     (if lc_interval l = 0 then when
      else lc_starttime l + of_int (\<lfloor>(when - lc_starttime l) / lc_interval l\<rfloor> + 1) * lc_interval l)"

lemma lc_howLong:
  assumes "0 \<le> lc_interval l"
  shows "when + lc_howLong l when = lc_next l when" "0 \<le> lc_howLong l when"
    "0 < lc_interval l \<Longrightarrow> when < lc_next l when" "lc_next l when \<le> when + lc_interval l"
proof -
  let ?i = "lc_interval l" and ?r = "when - lc_starttime l"
  have "when + lc_howLong l when = lc_next l when \<and> 0 \<le> lc_howLong l when \<and> when < lc_next l when \<and> lc_next l when \<le> when + ?i"
    if i: "0 < ?i"
  proof -
    have floor: "of_int \<lfloor>?r / ?i\<rfloor> * ?i \<le> ?r" "?r < (of_int \<lfloor>?r / ?i\<rfloor> + 1) * ?i"
      using i floor_correct [of "?r / ?i"] by (simp_all add: le_divide_eq divide_less_eq)
    then show ?thesis using i by (simp add: lc_howLong_def lc_next_def time_mod_def Let_def algebra_simps)
  qed
  then show "when + lc_howLong l when = lc_next l when" "0 \<le> lc_howLong l when"
    "0 < lc_interval l \<Longrightarrow> when < lc_next l when" "lc_next l when \<le> when + lc_interval l"
    using assms by (cases "?i = 0"; simp add: lc_howLong_def lc_next_def)+
qed

section \<open>Runs\<close>

text \<open>
  The steps of a \<open>LoopingCall\<close> and its clock.  \<open>tm_calls self\<close> are the calls of the agenda
  that call it; whatever else happens on the clock, other parts of the program do not touch
  them.
\<close>

definition tm_calls :: "'f \<Rightarrow> ('f, 'z) timers_scheme \<Rightarrow> nat \<Rightarrow> time option" where
  "tm_calls self s i = (case tm_agenda s i of Some (u, f) \<Rightarrow> if f = self then Some u else None | None \<Rightarrow> None)"

inductive lc_step ::
    "(('f, 'z) timers_scheme \<Rightarrow> bool) \<Rightarrow> ('f, 'z) owner_op \<Rightarrow> 'f \<Rightarrow> ('f, 'z) looping_state \<Rightarrow> ('f, 'z) looping_state \<Rightarrow> bool"
  for good oper self where
  clock: "good t \<Longrightarrow> tm_now s \<le> tm_now t \<Longrightarrow> tm_calls self t = tm_calls self s \<Longrightarrow> lc_step good oper self (l, s) (l, t)"
| start: "lc_start oper self interval now (l, s) = r \<Longrightarrow> lc_step good oper self (l, s) (state_of r)"
| stop: "lc_stop oper (l, s) = r \<Longrightarrow> lc_step good oper self (l, s) (state_of r)"
| reset: "lc_reset oper self (l, s) = r \<Longrightarrow> lc_step good oper self (l, s) (state_of r)"
| run: "tm_calls self s i = Some u \<Longrightarrow> u \<le> tm_now t \<Longrightarrow> good t \<Longrightarrow> tm_now s \<le> tm_now t \<Longrightarrow> tm_calls self t = (tm_calls self s)(i := None) \<Longrightarrow>
    lc_step good oper self (l, s) (lc_begin l, t)"
| returned: "0 < lc_calling l \<Longrightarrow> lc_step good oper self (l, s) (lc_cb oper self (l, s))"
| raised: "0 < lc_calling l \<Longrightarrow> lc_step good oper self (l, s) (lc_eb (l, s))"

inductive lc_reachable ::
    "(('f, 'z) timers_scheme \<Rightarrow> bool) \<Rightarrow> ('f, 'z) owner_op \<Rightarrow> 'f \<Rightarrow> ('f, 'z) looping_state \<Rightarrow> bool"
  for good oper self where
  initial: "good s \<Longrightarrow> tm_calls self s = Map.empty \<Longrightarrow> lc_reachable good oper self (lc_init, s)"
| step: "lc_reachable good oper self x \<Longrightarrow> lc_step good oper self x y \<Longrightarrow> lc_reachable good oper self y"

inductive_cases lc_stepE: "lc_step good oper self (l, s) y"

text \<open>
  When the next call is due: after the moment of the scheduling, no more than an interval later,
  and a whole number of intervals from the start time.  With an interval of zero it is due at once.
\<close>

definition lc_slot :: "looping_call \<Rightarrow> time \<Rightarrow> bool" where
  "lc_slot l u \<longleftrightarrow>
     (if lc_interval l = 0 then u = lc_scheduled l
      else lc_scheduled l < u \<and> u \<le> lc_scheduled l + lc_interval l \<and> (\<exists>k. u = lc_starttime l + of_int k * lc_interval l))"

lemma lc_slot_next: "0 \<le> lc_interval l \<Longrightarrow> lc_slot l (lc_next l (lc_scheduled l))"
proof -
  assume i: "0 \<le> lc_interval l"
  have "\<exists>k. lc_next l (lc_scheduled l) = lc_starttime l + of_int k * lc_interval l" if "lc_interval l \<noteq> 0"
    using that by (intro exI [of _ "\<lfloor>(lc_scheduled l - lc_starttime l) / lc_interval l\<rfloor> + 1"]) (simp add: lc_next_def)
  moreover have "lc_next l (lc_scheduled l) = lc_scheduled l" if "lc_interval l = 0" using that by (simp add: lc_next_def)
  ultimately show ?thesis using lc_howLong [OF i, of "lc_scheduled l"] i by (simp add: lc_slot_def)
qed

text \<open>
  \<open>stop\<close> and \<open>reset\<close> of one that runs do not raise; \<open>stop\<close> leaves no call behind that it knows of, and
  \<open>reset\<close> of one that waits for its next call begins a new grid at once.
\<close>

definition lc_obeys :: "('f, 'z) owner_op \<Rightarrow> 'f \<Rightarrow> ('f, 'z) looping_state \<Rightarrow> bool" where
  "lc_obeys oper self = (\<lambda>(l, s).
     (case lc_stop oper (l, s) of Ok y \<Rightarrow> \<not> lc_running (fst y) \<and> lc_call (fst y) = None | Exc e y \<Rightarrow> \<not> lc_running l) \<and>
     (case lc_reset oper self (l, s) of
        Ok y \<Rightarrow> lc_running (fst y) \<and> (lc_call l = None \<or> lc_starttime (fst y) = tm_now s \<and> lc_scheduled (fst y) = tm_now s)
      | Exc e y \<Rightarrow> \<not> lc_running l))"

text \<open>What holds in any run.\<close>

definition lc_safe :: "'f \<Rightarrow> ('f, 'z) looping_state \<Rightarrow> bool" where
  "lc_safe self = (\<lambda>(l, s).
     0 \<le> lc_interval l \<and> (lc_running l \<longrightarrow> lc_deferred l \<noteq> None) \<and>
     (case lc_call l of None \<Rightarrow> True | Some i \<Rightarrow> tm_calls self s i \<noteq> None) \<and>
     distinct (map fst (lc_fired l)) \<and>
     (case lc_deferred l of
        None \<Rightarrow> fst ` set (lc_fired l) \<subseteq> {..<lc_deferreds l}
      | Some d \<Rightarrow> Suc d = lc_deferreds l \<and> fst ` set (lc_fired l) \<subseteq> {..<d}))"

text \<open>What holds as long as no \<open>start\<close> overlapped a call.\<close>

definition lc_ok :: "'f \<Rightarrow> ('f, 'z) looping_state \<Rightarrow> bool" where
  "lc_ok self = (\<lambda>(l, s).
     0 \<le> lc_interval l \<and> lc_calling l \<le> 1 \<and>
     (lc_deferred l \<noteq> None \<longleftrightarrow> lc_running l \<or> lc_calling l = 1) \<and>
     (lc_deferred l \<noteq> None \<longrightarrow> lc_starttime l \<le> tm_now s) \<and>
     (case lc_call l of
        None \<Rightarrow> tm_calls self s = Map.empty \<and> (lc_running l \<longrightarrow> lc_calling l = 1)
      | Some i \<Rightarrow> lc_running l \<and> lc_calling l = 0 \<and> lc_starttime l \<le> lc_scheduled l \<and> lc_scheduled l \<le> tm_now s \<and>
          tm_calls self s = [i \<mapsto> lc_next l (lc_scheduled l)]) \<and>
     (case lc_deferred l of
        None \<Rightarrow> fst ` set (lc_fired l) = {..<lc_deferreds l}
      | Some d \<Rightarrow> Suc d = lc_deferreds l \<and> fst ` set (lc_fired l) = {..<d}))"

lemma lc_next_simps [simp]:
  "lc_next (l\<lparr>lc_scheduled := w\<rparr>) = lc_next l" "lc_next (l\<lparr>lc_overlapped := b\<rparr>) = lc_next l"
  "lc_next (l\<lparr>lc_call := c\<rparr>) = lc_next l" "lc_next (l\<lparr>lc_calling := n\<rparr>) = lc_next l" "lc_next (l\<lparr>lc_running := b\<rparr>) = lc_next l"
  "lc_next (l\<lparr>lc_call := c, lc_starttime := u\<rparr>) = lc_next (l\<lparr>lc_starttime := u\<rparr>)"
  by (simp_all add: lc_next_def fun_eq_iff)

lemma lc_fire_simps [simp]: "lc_running (lc_fire ok l) = lc_running l" "lc_call (lc_fire ok l) = lc_call l"
  by (simp_all add: lc_fire_def split: option.split)

locale looping_clock = timer_owner +
  assumes legal_later: "0 \<le> w \<Longrightarrow> legal (CallLater w f)"
    and legal_cancel: "legal (CancelCall i)"
begin

lemma later:
  assumes "inv s" "0 \<le> w"
  shows "inv (state_of (oper (CallLater w self) s)) \<and> tm_now (state_of (oper (CallLater w self) s)) = tm_now s \<and>
    tm_calls self (state_of (oper (CallLater w self) s)) = (tm_calls self s)(tm_made s \<mapsto> tm_now s + w)"
  using op_inv [OF assms(1)] op_now op_agenda [OF assms(1) legal_later [OF assms(2)], of self]
  by (auto simp: tm_calls_def fun_eq_iff)

lemma cancel:
  assumes "inv s" "tm_calls self s i \<noteq> None"
  shows "\<exists>t. oper (CancelCall i) s = Ok t \<and> inv t \<and> tm_now t = tm_now s \<and> tm_calls self t = (tm_calls self s)(i := None)"
proof -
  have "tm_agenda s i \<noteq> None" using assms(2) by (auto simp: tm_calls_def split: option.splits)
  then have "i < tm_made s" by (auto simp: tm_agenda_def split: if_splits)
  with op_error [OF assms(1) legal_cancel, of i i] \<open>tm_agenda s i \<noteq> None\<close> obtain t where t: "oper (CancelCall i) s = Ok t"
    by (cases "oper (CancelCall i) s") auto
  with op_inv [OF assms(1), of "CancelCall i"] op_now [of "CancelCall i" s] op_agenda [OF assms(1) legal_cancel, of i] show ?thesis
    by (auto simp: tm_calls_def fun_eq_iff)
qed

lemma schedule:
  assumes "inv s" "0 \<le> lc_interval l"
  obtains t where "lc_scheduleFrom oper self (tm_now s) (l, s) = (l\<lparr>lc_call := Some (tm_made s), lc_scheduled := tm_now s\<rparr>, t)" "inv t" "tm_now t = tm_now s"
    "tm_calls self t = (tm_calls self s)(tm_made s \<mapsto> lc_next l (tm_now s))"
  using later [OF assms(1) lc_howLong(2) [OF assms(2), of "tm_now s"], of self] lc_howLong(1) [OF assms(2), of "tm_now s"]
  by (simp add: lc_scheduleFrom_def)

lemma stop_result:
  assumes "inv s" "lc_safe self (l, s)" "lc_running l"
  shows "\<exists>m t. lc_stop oper (l, s) = Ok (m, t) \<and> inv t \<and> tm_now t = tm_now s \<and>
    (case lc_call l of
       None \<Rightarrow> m = l\<lparr>lc_running := False\<rparr> \<and> t = s
     | Some i \<Rightarrow> m = lc_fire True (l\<lparr>lc_running := False, lc_call := None\<rparr>) \<and> tm_calls self t = (tm_calls self s)(i := None))"
proof (cases "lc_call l")
  case (Some i)
  with assms cancel [of s self i] obtain t where
    "oper (CancelCall i) s = Ok t" "inv t" "tm_now t = tm_now s" "tm_calls self t = (tm_calls self s)(i := None)"
    by (auto simp: lc_safe_def)
  with Some assms show ?thesis by (simp add: lc_stop_def Let_def)
qed (use assms in \<open>simp add: lc_stop_def\<close>)

lemma reset_result:
  assumes "inv s" "lc_safe self (l, s)" "lc_running l"
  shows "\<exists>m t. lc_reset oper self (l, s) = Ok (m, t) \<and> inv t \<and> tm_now t = tm_now s \<and>
    (case lc_call l of
       None \<Rightarrow> m = l \<and> t = s
     | Some i \<Rightarrow> \<exists>j. m = l\<lparr>lc_call := Some j, lc_starttime := tm_now s, lc_scheduled := tm_now s\<rparr> \<and>
         tm_calls self t = (tm_calls self s)(i := None, j \<mapsto> lc_next (l\<lparr>lc_starttime := tm_now s\<rparr>) (tm_now s)))"
proof (cases "lc_call l")
  case (Some i)
  with assms cancel [of s self i] obtain t where
    t: "oper (CancelCall i) s = Ok t" "inv t" "tm_now t = tm_now s" "tm_calls self t = (tm_calls self s)(i := None)"
    by (auto simp: lc_safe_def)
  let ?l = "l\<lparr>lc_call := None, lc_starttime := tm_now t\<rparr>"
  have "0 \<le> lc_interval ?l" using assms(2) by (simp add: lc_safe_def)
  from schedule [OF t(2) this, of self] obtain u where
    u: "lc_scheduleFrom oper self (tm_now t) (?l, t) = (?l\<lparr>lc_call := Some (tm_made t), lc_scheduled := tm_now t\<rparr>, u)" "inv u" "tm_now u = tm_now t"
      "tm_calls self u = (tm_calls self t)(tm_made t \<mapsto> lc_next ?l (tm_now t))" .
  have "lc_reset oper self (l, s) = Ok (?l\<lparr>lc_call := Some (tm_made t), lc_scheduled := tm_now t\<rparr>, u)"
    using Some assms(3) t(1) u(1) by (simp add: lc_reset_def Let_def)
  with Some t u show ?thesis by (auto intro!: exI [of _ "tm_made t"])
qed (use assms in \<open>simp add: lc_reset_def\<close>)

lemma step_safe:
  assumes "lc_step inv oper self x y" "inv (snd x)" "lc_safe self x"
  shows "inv (snd y) \<and> lc_safe self y"
  using assms
proof (induction rule: lc_step.induct)
  case (start interval now l s r)
  show ?case
  proof (cases "lc_running l \<or> interval < 0")
    case True
    with start show ?thesis by (auto simp: lc_start_def)
  next
    case False
    let ?l = "l\<lparr>lc_running := True, lc_deferred := Some (lc_deferreds l), lc_deferreds := lc_deferreds l + 1,
      lc_starttime := tm_now s, lc_interval := interval, lc_runAtStart := now, lc_overlapped := lc_overlapped l \<or> lc_calling l \<noteq> 0\<rparr>"
    have "0 \<le> lc_interval ?l" "inv s" using False start by simp_all
    from schedule [OF this(2,1), of self] obtain t where
      t: "lc_scheduleFrom oper self (tm_now s) (?l, s) = (?l\<lparr>lc_call := Some (tm_made s), lc_scheduled := tm_now s\<rparr>, t)" "inv t"
        "tm_calls self t = (tm_calls self s)(tm_made s \<mapsto> lc_next ?l (tm_now s))" by blast
    have "state_of r = (if now then (lc_begin ?l, s) else (?l\<lparr>lc_call := Some (tm_made s), lc_scheduled := tm_now s\<rparr>, t))"
      using start(1) False t(1) by (auto simp: lc_start_def Let_def)
    moreover have "fst ` set (lc_fired l) \<subseteq> {..<lc_deferreds l}"
      using start.prems(2) by (auto simp: lc_safe_def split: option.splits)
    ultimately show ?thesis
      using start.prems False t(2,3) by (cases now) (simp_all add: lc_safe_def lc_begin_def)
  qed
next
  case (stop l s r)
  show ?case
  proof (cases "lc_running l")
    case False
    then have "state_of r = (l, s)" using stop(1) by (auto simp: lc_stop_def)
    with stop.prems show ?thesis by simp
  next
    case True
    from stop.prems have inv: "inv s" by simp
    from stop_result [OF inv stop.prems(2) True] stop(1) obtain m t where
      t: "state_of r = (m, t)" "inv t" "case lc_call l of None \<Rightarrow> m = l\<lparr>lc_running := False\<rparr> \<and> t = s
        | Some i \<Rightarrow> m = lc_fire True (l\<lparr>lc_running := False, lc_call := None\<rparr>) \<and> tm_calls self t = (tm_calls self s)(i := None)" by auto
    with stop.prems(2) show ?thesis
      by (cases "lc_call l"; cases "lc_deferred l") (auto simp: lc_safe_def lc_fire_def intro: less_SucI)
  qed
next
  case (reset l s r)
  show ?case
  proof (cases "lc_running l")
    case False
    then have "state_of r = (l, s)" using reset(1) by (auto simp: lc_reset_def)
    with reset.prems show ?thesis by simp
  next
    case True
    from reset.prems have inv: "inv s" by simp
    from reset_result [OF inv reset.prems(2) True] reset(1) obtain m t where
      t: "state_of r = (m, t)" "inv t" "case lc_call l of None \<Rightarrow> m = l \<and> t = s
        | Some i \<Rightarrow> \<exists>j. m = l\<lparr>lc_call := Some j, lc_starttime := tm_now s, lc_scheduled := tm_now s\<rparr> \<and>
           tm_calls self t = (tm_calls self s)(i := None, j \<mapsto> lc_next (l\<lparr>lc_starttime := tm_now s\<rparr>) (tm_now s))" by auto
    with reset.prems(2) show ?thesis by (cases "lc_call l"; cases "lc_deferred l") (auto simp: lc_safe_def)
  qed
next
  case (returned l s)
  show ?case
  proof (cases "lc_running l")
    case True
    let ?l = "l\<lparr>lc_calling := lc_calling l - 1\<rparr>"
    have "inv s" "0 \<le> lc_interval ?l" using returned by (simp_all add: lc_safe_def)
    from schedule [OF this, of self] obtain t where
      t: "lc_scheduleFrom oper self (tm_now s) (?l, s) = (?l\<lparr>lc_call := Some (tm_made s), lc_scheduled := tm_now s\<rparr>, t)" "inv t"
        "tm_calls self t = (tm_calls self s)(tm_made s \<mapsto> lc_next ?l (tm_now s))" by blast
    with returned.prems True show ?thesis by (cases "lc_deferred l") (simp_all add: lc_cb_def Let_def lc_safe_def)
  next
    case False
    with returned.prems show ?thesis
      by (cases "lc_deferred l") (auto simp: lc_cb_def Let_def lc_safe_def lc_fire_def intro: less_SucI)
  qed
next
  case (raised l s)
  then show ?case
    by (cases "lc_deferred l") (auto simp: lc_eb_def Let_def lc_safe_def lc_fire_def intro: less_SucI)
next
  case (clock t s l)
  then show ?case by (cases "lc_call l") (simp_all add: lc_safe_def)
next
  case (run s i u t l)
  then show ?case by (cases "lc_deferred l") (auto simp: lc_safe_def lc_begin_def)
qed

lemma step_ok:
  assumes "lc_step inv oper self x y" "inv (snd x)" "lc_ok self x" "lc_safe self x" "\<not> lc_overlapped (fst y)"
  shows "lc_ok self y"
  using assms
proof (induction rule: lc_step.induct)
  case (clock t s l)
  then show ?case by (auto simp: lc_ok_def split: option.splits intro: order_trans)
next
  case (start interval now l s r)
  show ?case
  proof (cases "lc_running l \<or> interval < 0")
    case True
    with start show ?thesis by (auto simp: lc_start_def)
  next
    case False
    have calling: "lc_calling l = 0" using start.hyps start.prems(4) False by (auto simp: lc_start_def lc_scheduleFrom_def lc_begin_def Let_def split: if_splits)
    let ?l = "l\<lparr>lc_running := True, lc_deferred := Some (lc_deferreds l), lc_deferreds := lc_deferreds l + 1,
      lc_starttime := tm_now s, lc_interval := interval, lc_runAtStart := now, lc_overlapped := lc_overlapped l \<or> lc_calling l \<noteq> 0\<rparr>"
    have l: "lc_deferred l = None" "lc_call l = None" "tm_calls self s = Map.empty" "fst ` set (lc_fired l) = {..<lc_deferreds l}"
      using start False calling by (auto simp: lc_ok_def split: option.splits)
    have "0 \<le> lc_interval ?l" "inv s" using False start by simp_all
    from schedule [OF this(2,1), of self] obtain t where
      t: "lc_scheduleFrom oper self (tm_now s) (?l, s) = (?l\<lparr>lc_call := Some (tm_made s), lc_scheduled := tm_now s\<rparr>, t)" "inv t" "tm_now t = tm_now s"
        "tm_calls self t = (tm_calls self s)(tm_made s \<mapsto> lc_next ?l (tm_now s))" .
    have "state_of r = (if now then (lc_begin ?l, s) else (?l\<lparr>lc_call := Some (tm_made s), lc_scheduled := tm_now s\<rparr>, t))"
      using start(1) False t(1) by (auto simp: lc_start_def Let_def)
    with l t(3,4) calling False show ?thesis by (cases now) (simp_all add: lc_ok_def lc_begin_def)
  qed
next
  case (stop l s r)
  show ?case
  proof (cases "lc_running l")
    case False
    then have "state_of r = (l, s)" using stop(1) by (auto simp: lc_stop_def)
    with stop.prems show ?thesis by simp
  next
    case True
    from stop.prems have inv: "inv s" by simp
    from stop_result [OF inv stop.prems(3) True] stop(1) obtain m t where
      t: "state_of r = (m, t)" "tm_now t = tm_now s" "case lc_call l of None \<Rightarrow> m = l\<lparr>lc_running := False\<rparr> \<and> t = s
        | Some i \<Rightarrow> m = lc_fire True (l\<lparr>lc_running := False, lc_call := None\<rparr>) \<and> tm_calls self t = (tm_calls self s)(i := None)" by auto
    with stop.prems(2) True show ?thesis
      by (cases "lc_call l") (auto simp: lc_ok_def lc_fire_def lessThan_Suc split: option.splits)
  qed
next
  case (reset l s r)
  show ?case
  proof (cases "lc_running l")
    case False
    then have "state_of r = (l, s)" using reset(1) by (auto simp: lc_reset_def)
    with reset.prems show ?thesis by simp
  next
    case True
    from reset.prems have inv: "inv s" by simp
    from reset_result [OF inv reset.prems(3) True] reset(1) obtain m t where
      t: "state_of r = (m, t)" "tm_now t = tm_now s" "case lc_call l of None \<Rightarrow> m = l \<and> t = s
        | Some i \<Rightarrow> \<exists>j. m = l\<lparr>lc_call := Some j, lc_starttime := tm_now s, lc_scheduled := tm_now s\<rparr> \<and>
           tm_calls self t = (tm_calls self s)(i := None, j \<mapsto> lc_next (l\<lparr>lc_starttime := tm_now s\<rparr>) (tm_now s))" by auto
    with reset.prems(2) True show ?thesis by (cases "lc_call l") (auto simp: lc_ok_def split: option.splits)
  qed
next
  case (run s i u t l)
  then show ?case by (auto simp: lc_ok_def lc_begin_def split: option.splits if_splits)
next
  case (returned l s)
  then have l: "lc_calling l = 1" "lc_call l = None" "tm_calls self s = Map.empty" "0 \<le> lc_interval l" "inv s"
    by (auto simp: lc_ok_def split: option.splits)
  show ?case
  proof (cases "lc_running l")
    case True
    let ?l = "l\<lparr>lc_calling := 0\<rparr>"
    have "0 \<le> lc_interval ?l" using l by simp
    from schedule [OF l(5) this, of self] obtain t where
      t: "lc_scheduleFrom oper self (tm_now s) (?l, s) = (?l\<lparr>lc_call := Some (tm_made s), lc_scheduled := tm_now s\<rparr>, t)" "inv t" "tm_now t = tm_now s"
        "tm_calls self t = (tm_calls self s)(tm_made s \<mapsto> lc_next ?l (tm_now s))" .
    with returned.prems l True show ?thesis by (auto simp: lc_cb_def lc_ok_def split: option.splits)
  next
    case False
    with returned.prems l show ?thesis
      by (auto simp: lc_ok_def lc_cb_def lc_fire_def lessThan_Suc split: option.splits)
  qed
next
  case (raised l s)
  then show ?case
    by (auto simp: lc_ok_def lc_eb_def lc_fire_def lessThan_Suc split: option.splits)
qed

lemma step_overlapped:
  assumes "lc_step inv oper self x y" "lc_overlapped (fst x)"
  shows "lc_overlapped (fst y)"
  using assms
  by (induction rule: lc_step.induct)
    (auto simp: lc_start_def lc_stop_def lc_reset_def lc_cb_def lc_eb_def lc_scheduleFrom_def lc_begin_def lc_fire_def Let_def
      split: option.splits outcome.splits)

lemma reachable_ok: "lc_reachable inv oper self x \<Longrightarrow> inv (snd x) \<and> lc_safe self x \<and> (lc_overlapped (fst x) \<or> lc_ok self x)"
proof (induction rule: lc_reachable.induct)
  case (initial s)
  then show ?case by (simp add: lc_ok_def lc_safe_def lc_init_def)
next
  case (step x y)
  with step_safe [OF step.hyps(2)] step_ok [OF step.hyps(2)] step_overlapped [OF step.hyps(2)] show ?case by blast
qed

text \<open>While it runs, the next call is the first point of the grid after the moment at which it was scheduled.\<close>

lemma reachable_next:
  assumes "lc_reachable inv oper self (l, s)" "\<not> lc_overlapped l"
  shows "lc_running l \<Longrightarrow> lc_calling l = 0 \<Longrightarrow> \<exists>i u. lc_call l = Some i \<and> lc_scheduled l \<le> tm_now s \<and> tm_calls self s = [i \<mapsto> u] \<and> lc_slot l u"
    and "\<not> lc_running l \<or> lc_calling l \<noteq> 0 \<Longrightarrow> tm_calls self s = Map.empty"
    and "\<not> lc_running l \<Longrightarrow> lc_calling l = 0 \<Longrightarrow> fst ` set (lc_fired l) = {..<lc_deferreds l}"
  using reachable_ok [OF assms(1)] assms(2) lc_slot_next [of l]
  by (auto simp: lc_ok_def split: option.splits)

lemma reachable_obeys:
  assumes "lc_reachable inv oper self (l, s)"
  shows "lc_obeys oper self (l, s)"
proof (cases "lc_running l")
  case True
  from reachable_ok [OF assms] have inv: "inv s" "lc_safe self (l, s)" by simp_all
  from stop_result [OF this True] obtain m t where "lc_stop oper (l, s) = Ok (m, t)" "\<not> lc_running m" "lc_call m = None"
    by (cases "lc_call l") auto
  moreover from reset_result [OF inv True] obtain m t where
    "lc_reset oper self (l, s) = Ok (m, t)" "lc_call l = None \<or> lc_starttime m = tm_now s \<and> lc_scheduled m = tm_now s" "lc_running m"
    using True by (cases "lc_call l") auto
  ultimately show ?thesis by (auto simp: lc_obeys_def)
qed (simp add: lc_obeys_def lc_stop_def lc_reset_def)

end

interpretation clk: looping_clock clk_inv clk_op "\<lambda>p. True" clk_ran
  by unfold_locales simp_all

interpretation rt: looping_clock rt_inv rt_timer_op rt_legal rt_ran
  by unfold_locales simp_all


section \<open>Counting the calls\<close>

text \<open>The counter called at the times \<open>ts\<close>, one after the other, and the counts it passed on.\<close>

fun lc_count :: "time list \<Rightarrow> looping_call \<Rightarrow> (looping_call \<times> int list) option" where
  "lc_count [] l = Some (l, [])"
| "lc_count (t # ts) l =
     (case lc_counter t l of
        None \<Rightarrow> None
      | Some (l, c) \<Rightarrow> map_option (\<lambda>(l, cs). (l, (case c of None \<Rightarrow> [] | Some c \<Rightarrow> [c]) @ cs)) (lc_count ts l))"

definition lc_last :: "looping_call \<Rightarrow> time" where
  "lc_last l = (case lc_realLastTime l of
     None \<Rightarrow> if lc_runAtStart l then lc_starttime l - lc_interval l else lc_starttime l | Some t \<Rightarrow> t)"

definition lc_interval_index :: "looping_call \<Rightarrow> time \<Rightarrow> int" where
  "lc_interval_index l t = int_of_time ((t - lc_starttime l) / lc_interval l)"

lemma int_of_time_mono: "x \<le> y \<Longrightarrow> int_of_time x \<le> int_of_time y"
proof -
  assume le: "x \<le> y"
  have "\<lceil>x\<rceil> \<le> 0" if "x < 0" using that by (simp add: ceiling_le_iff)
  moreover have "0 \<le> \<lfloor>y\<rfloor>" if "0 \<le> y" using that by simp
  ultimately have "\<lceil>x\<rceil> \<le> \<lfloor>y\<rfloor>" if "x < 0" "0 \<le> y" using that by (meson order_trans)
  with le show ?thesis by (auto simp: int_of_time_def floor_mono ceiling_mono not_le)
qed

lemma lc_interval_index_mono: "0 < lc_interval l \<Longrightarrow> t \<le> u \<Longrightarrow> lc_interval_index l t \<le> lc_interval_index l u"
  unfolding lc_interval_index_def by (intro int_of_time_mono divide_right_mono) simp_all

lemma lc_counter_step:
  assumes "0 < lc_interval l" "lc_last l \<le> now"
  shows "\<exists>l' c. lc_counter now l = Some (l', c) \<and> lc_interval l' = lc_interval l \<and> lc_starttime l' = lc_starttime l \<and>
    (case c of None \<Rightarrow> 0 | Some n \<Rightarrow> n) = lc_interval_index l now - lc_interval_index l (lc_last l) \<and>
    (case c of None \<Rightarrow> True | Some n \<Rightarrow> 0 < n) \<and>
    lc_interval_index l (lc_last l') = lc_interval_index l now \<and> lc_last l' \<le> now"
proof -
  have mono: "lc_interval_index l (lc_last l) \<le> lc_interval_index l now"
    using assms by (rule lc_interval_index_mono)
  have "lc_counter now l = Some (if 0 < lc_interval_index l now - lc_interval_index l (lc_last l)
      then (l\<lparr>lc_realLastTime := Some now\<rparr>, Some (lc_interval_index l now - lc_interval_index l (lc_last l))) else (l, None))"
    using assms(1) by (simp add: lc_counter_def lc_intervalOf_def lc_interval_index_def lc_last_def Let_def)
  with mono assms(2) show ?thesis
    by (cases "lc_interval_index l (lc_last l) < lc_interval_index l now") (auto simp: lc_last_def)
qed

lemma lc_count_sum:
  "0 < lc_interval l \<Longrightarrow> sorted (lc_last l # ts) \<Longrightarrow>
    \<exists>l' cs. lc_count ts l = Some (l', cs) \<and> list_all ((<) 0) cs \<and>
      sum_list cs = lc_interval_index l (last (lc_last l # ts)) - lc_interval_index l (lc_last l)"
proof (induction ts arbitrary: l)
  case (Cons t ts)
  from Cons.prems lc_counter_step [of l t] obtain l' c where
    l': "lc_counter t l = Some (l', c)" "lc_interval l' = lc_interval l" "lc_starttime l' = lc_starttime l"
      "(case c of None \<Rightarrow> 0 | Some n \<Rightarrow> n) = lc_interval_index l t - lc_interval_index l (lc_last l)"
      "case c of None \<Rightarrow> True | Some n \<Rightarrow> 0 < n"
      "lc_interval_index l (lc_last l') = lc_interval_index l t" "lc_last l' \<le> t" by auto
  have index: "lc_interval_index l' = lc_interval_index l" using l'(2,3) by (simp add: lc_interval_index_def fun_eq_iff)
  have "sorted (lc_last l' # ts)" using Cons.prems(2) l'(7) by (auto intro: order_trans)
  with Cons.IH [of l'] Cons.prems(1) l'(2) index obtain l'' cs where
    "lc_count ts l' = Some (l'', cs)" "list_all ((<) 0) cs"
    "sum_list cs = lc_interval_index l (last (lc_last l' # ts)) - lc_interval_index l (lc_last l')" by auto
  with l' show ?case by (cases c; cases "ts = []") auto
qed simp

section \<open>Properties\<close>

definition lc_on_grid :: "'f \<Rightarrow> ('f, 'z) looping_state \<Rightarrow> bool" where
  "lc_on_grid self = (\<lambda>(l, s).
     (if lc_running l \<and> lc_calling l = 0
      then \<exists>i u. lc_call l = Some i \<and> lc_scheduled l \<le> tm_now s \<and> tm_calls self s = [i \<mapsto> u] \<and> lc_slot l u
      else tm_calls self s = Map.empty) \<and>
     (lc_running l \<or> lc_calling l \<noteq> 0 \<or> fst ` set (lc_fired l) = {..<lc_deferreds l}))"

text \<open>
  C17: a \<open>LoopingCall\<close> on the reactor or on a \<open>Clock\<close> keeps to its grid.  However it is started,
  stopped and reset, also by its own function, whether the function returns, raises or returns a
  Deferred, and whatever else happens on the clock: \<open>stop\<close> and \<open>reset\<close> of one that runs do not
  raise, \<open>reset\<close> begins a new grid at the present time, and no Deferred of \<open>start\<close> fires twice.
  Moreover, unless \<open>start\<close> was called, after \<open>stop\<close>, while a call of the function had not ended:
  while it runs and its function is not being called, exactly one call of it is scheduled, for the
  first whole number of intervals from the start time that comes after the moment at which
  \<open>_scheduleFrom\<close> ran (at once for an interval of zero); otherwise none is, and the Deferreds of
  \<open>start\<close> have all fired when it is at rest.  (After such an overlapping \<open>start\<close> two calls can be
  scheduled at once: lemma \<open>looping_call_restarted_twice\<close>.)
\<close>

theorem looping_call_grid:
  "(lc_reachable clk_inv clk_op self x \<longrightarrow>
      lc_obeys clk_op self x \<and> distinct (map fst (lc_fired (fst x))) \<and> (lc_overlapped (fst x) \<or> lc_on_grid self x)) \<and>
   (lc_reachable rt_inv rt_timer_op self y \<longrightarrow>
      lc_obeys rt_timer_op self y \<and> distinct (map fst (lc_fired (fst y))) \<and> (lc_overlapped (fst y) \<or> lc_on_grid self y))"
proof (intro conjI impI)
  assume "lc_reachable clk_inv clk_op self x"
  then have x: "lc_reachable clk_inv clk_op self (fst x, snd x)" by simp
  from clk.reachable_obeys [OF x] show "lc_obeys clk_op self x" by simp
  from clk.reachable_ok [OF x] show "distinct (map fst (lc_fired (fst x)))" by (simp add: lc_safe_def case_prod_beta)
  from clk.reachable_next [OF x] show "lc_overlapped (fst x) \<or> lc_on_grid self x"
    by (auto simp: lc_on_grid_def case_prod_beta)
next
  assume "lc_reachable rt_inv rt_timer_op self y"
  then have y: "lc_reachable rt_inv rt_timer_op self (fst y, snd y)" by simp
  from rt.reachable_obeys [OF y] show "lc_obeys rt_timer_op self y" by simp
  from rt.reachable_ok [OF y] show "distinct (map fst (lc_fired (fst y)))" by (simp add: lc_safe_def case_prod_beta)
  from rt.reachable_next [OF y] show "lc_overlapped (fst y) \<or> lc_on_grid self y"
    by (auto simp: lc_on_grid_def case_prod_beta)
qed

definition lc_started :: "(string, 'z) owner_op \<Rightarrow> (string, 'z) timers_scheme \<Rightarrow> (string, 'z) looping_state" where
  "lc_started oper s = state_of (lc_start oper ''loop'' 2 False (lc_init, s))"

lemma lc_reachable_started: "good s \<Longrightarrow> tm_calls ''loop'' s = Map.empty \<Longrightarrow> lc_reachable good oper ''loop'' (lc_started oper s)"
  unfolding lc_started_def
  by (rule lc_reachable.step [OF lc_reachable.initial lc_step.start]) (simp_all add: lc_init_def)

theorem looping_call_grid_witness:
  "lc_on_grid ''loop'' (lc_started clk_op (clk_init (dc_init 0 ''''))) \<and>
   lc_on_grid ''loop'' (lc_started rt_timer_op (rt_init (dc_init 0 ''''))) \<and>
   tm_calls ''loop'' (snd (lc_started rt_timer_op (rt_init (dc_init 0 '''')))) 0 = Some 2"
proof -
  have "tm_calls ''loop'' (clk_init (dc_init 0 '''')) = Map.empty" "tm_calls ''loop'' (rt_init (dc_init 0 '''')) = Map.empty"
    by (simp_all add: tm_calls_def tm_agenda_def clk_init_def rt_init_def fun_eq_iff)
  then have "lc_reachable clk_inv clk_op ''loop'' (lc_started clk_op (clk_init (dc_init 0 '''')))"
    "lc_reachable rt_inv rt_timer_op ''loop'' (lc_started rt_timer_op (rt_init (dc_init 0 '''')))"
    by (simp_all add: lc_reachable_started clk_inv_init rt_inv_init)
  moreover have "\<not> lc_overlapped (fst (lc_started clk_op (clk_init (dc_init 0 ''''))))"
    "\<not> lc_overlapped (fst (lc_started rt_timer_op (rt_init (dc_init 0 ''''))))"
    "tm_calls ''loop'' (snd (lc_started rt_timer_op (rt_init (dc_init 0 '''')))) 0 = Some 2" by code_simp+
  ultimately show ?thesis
    using looping_call_grid [of "''loop''" "lc_started clk_op (clk_init (dc_init 0 ''''))" "lc_started rt_timer_op (rt_init (dc_init 0 ''''))"]
    by blast
qed

text \<open>
  The counts of \<open>withCount\<close> add up.  Called at any times in order, however late and
  however many intervals were missed, the counts passed on are positive and their sum is
  the number of intervals since the last time counted, so that no interval is lost or
  counted twice; with an interval of zero the counter raises.
\<close>

theorem looping_call_counts:
  assumes "0 < lc_interval l" and "sorted (lc_last l # ts)"
  shows "\<exists>l' cs. lc_count ts l = Some (l', cs) \<and> list_all ((<) 0) cs \<and>
    sum_list cs = lc_interval_index l (last (lc_last l # ts)) - lc_interval_index l (lc_last l) \<and>
    (ts = [] \<or> lc_count ts (l\<lparr>lc_interval := 0\<rparr>) = None)"
  using lc_count_sum [OF assms]
  by (cases ts) (auto simp: lc_counter_def lc_intervalOf_def Let_def)

theorem looping_call_counts_witness:
  "\<exists>l' cs. lc_count [0, 3, 3, 9] (lc_init\<lparr>lc_interval := 2, lc_runAtStart := True\<rparr>) = Some (l', cs) \<and> cs = [1, 1, 3] \<and> sum_list cs = 5"
proof -
  let ?l = "lc_init\<lparr>lc_interval := 2, lc_runAtStart := True\<rparr>"
  have "0 < lc_interval ?l" "sorted (lc_last ?l # [0, 3, 3, 9])" by (simp_all add: lc_last_def lc_init_def)
  from looping_call_counts [OF this] obtain l' cs where "lc_count [0, 3, 3, 9] ?l = Some (l', cs)"
    "sum_list cs = lc_interval_index ?l (last (lc_last ?l # [0, 3, 3, 9])) - lc_interval_index ?l (lc_last ?l)" by blast
  moreover have "lc_interval_index ?l (last (lc_last ?l # [0, 3, 3, 9])) - lc_interval_index ?l (lc_last ?l) = 5" by code_simp
  moreover have "map_option snd (lc_count [0, 3, 3, 9] ?l) = Some [1, 1, 3]" by code_simp
  ultimately show ?thesis by auto
qed

text \<open>
  Restarted while the Deferred of an earlier call is still to fire, it ends up with two
  calls scheduled, of which it forgets the first.
\<close>

lemma looping_call_restarted_twice:
  "let x = lc_started clk_op (clk_init (dc_init 0 ''''));
       x = (lc_begin (fst x), state_of (clk_op (CancelCall 0) (snd x)));
       x = state_of (lc_stop clk_op x);
       x = state_of (lc_start clk_op ''loop'' 2 False x);
       x = lc_cb clk_op ''loop'' x
   in lc_call (fst x) = Some 2 \<and> tm_calls ''loop'' (snd x) 1 = Some 2 \<and> tm_calls ''loop'' (snd x) 2 = Some 2"
  by code_simp

end
