(* ===== verification/Timeouts.thy ===== *)
theory Timeouts
  imports Looping
begin

text \<open>
  Idle timeouts of \<open>twisted/protocols/policies.py\<close>: \<open>TimeoutMixin\<close> and \<open>TimeoutProtocol\<close>, on any owner of
  timers.  \<open>self\<close> is the function that the timeout call makes.  \<open>tx_since\<close> and \<open>tx_closed\<close> record
  when the timeout was last set or reset, and when it was due and when it struck; they are never read.
\<close>

section \<open>\<open>TimeoutMixin\<close>\<close>

text \<open>The name-mangled \<open>__timeoutCall\<close> is \<open>tx_timeoutCall\<close>.  \<open>setTimeout\<close> returns the period it replaces.\<close>

record timeout_mixin =
  tx_timeOut :: "time option"
  tx_timeoutCall :: "nat option"
  tx_since :: time
  tx_closed :: "(time \<times> time) list"

definition tx_init :: timeout_mixin where
  "tx_init = \<lparr> tx_timeOut = None, tx_timeoutCall = None, tx_since = 0, tx_closed = [] \<rparr>"

type_synonym ('f, 'z) timeout_state = "timeout_mixin \<times> ('f, 'z) timers_scheme"

definition tx_resetTimeout :: "('f, 'z) owner_op \<Rightarrow> ('f, 'z) timeout_state \<Rightarrow> (timer_error, ('f, 'z) timeout_state) outcome" where
  "tx_resetTimeout oper = (\<lambda>(x, s).
     case (tx_timeoutCall x, tx_timeOut x) of
       (Some i, Some period) \<Rightarrow> (case oper (ResetCall i period) s of
           Exc e t \<Rightarrow> Exc e (x, t)
         | Ok t \<Rightarrow> Ok (x\<lparr>tx_since := tm_now s\<rparr>, t))
     | _ \<Rightarrow> Ok (x, s))"

definition tx_setTimeout ::
    "('f, 'z) owner_op \<Rightarrow> 'f \<Rightarrow> time option \<Rightarrow> ('f, 'z) timeout_state \<Rightarrow> time option \<times> (timer_error, ('f, 'z) timeout_state) outcome" where
  "tx_setTimeout oper self period = (\<lambda>(x, s).
     let prev = tx_timeOut x; x = x\<lparr>tx_timeOut := period\<rparr>
     in (prev, case tx_timeoutCall x of
          Some i \<Rightarrow>
            (case period of
               None \<Rightarrow> (case oper (CancelCall i) s of
                   Exc e t \<Rightarrow> Exc e (x, t)
                 | Ok t \<Rightarrow> Ok (x\<lparr>tx_timeoutCall := None\<rparr>, t))
             | Some p \<Rightarrow> (case oper (ResetCall i p) s of
                   Exc e t \<Rightarrow> Exc e (x, t)
                 | Ok t \<Rightarrow> Ok (x\<lparr>tx_since := tm_now s\<rparr>, t)))
        | None \<Rightarrow>
            (case period of
               None \<Rightarrow> Ok (x, s)
             | Some p \<Rightarrow> (case oper (CallLater p self) s of
                   Exc e t \<Rightarrow> Exc e (x, t)
                 | Ok t \<Rightarrow> Ok (x\<lparr>tx_timeoutCall := Some (tm_made s), tx_since := tm_now s\<rparr>, t)))))"

text \<open>\<open>__timedOut\<close>; \<open>timeoutConnection\<close> closes the transport.\<close>

definition tx_timedOut :: "time \<Rightarrow> timeout_mixin \<Rightarrow> timeout_mixin" where
  "tx_timedOut now x =
     x\<lparr>tx_timeoutCall := None,
       tx_closed := tx_closed x @ [(tx_since x + (case tx_timeOut x of Some p \<Rightarrow> p | None \<Rightarrow> 0), now)]\<rparr>"

lemma tx_none [simp]: "tx_timeoutCall tx_init = None" "tx_timeoutCall (tx_timedOut now x) = None"
  by (simp_all add: tx_init_def tx_timedOut_def)

section \<open>When a timeout strikes\<close>

inductive tx_step ::
    "(('f, 'z) timers_scheme \<Rightarrow> bool) \<Rightarrow> ('f, 'z) owner_op \<Rightarrow> 'f \<Rightarrow> ('f, 'z) timeout_state \<Rightarrow> ('f, 'z) timeout_state \<Rightarrow> bool"
  for good oper self where
  clock: "good t \<Longrightarrow> tm_now s \<le> tm_now t \<Longrightarrow> tm_calls self t = tm_calls self s \<Longrightarrow> tx_step good oper self (x, s) (x, t)"
| reset: "tx_resetTimeout oper (x, s) = r \<Longrightarrow> tx_step good oper self (x, s) (state_of r)"
| set: "snd (tx_setTimeout oper self period (x, s)) = r \<Longrightarrow> tx_step good oper self (x, s) (state_of r)"
| strikes: "tm_calls self s i = Some u \<Longrightarrow> u \<le> tm_now t \<Longrightarrow> good t \<Longrightarrow> tm_now s \<le> tm_now t \<Longrightarrow> tm_calls self t = (tm_calls self s)(i := None) \<Longrightarrow>
    tx_step good oper self (x, s) (tx_timedOut (tm_now t) x, t)"

inductive tx_reachable ::
    "(('f, 'z) timers_scheme \<Rightarrow> bool) \<Rightarrow> ('f, 'z) owner_op \<Rightarrow> 'f \<Rightarrow> ('f, 'z) timeout_state \<Rightarrow> bool"
  for good oper self where
  initial: "good s \<Longrightarrow> tm_calls self s = Map.empty \<Longrightarrow> tx_reachable good oper self (tx_init, s)"
| step: "tx_reachable good oper self x \<Longrightarrow> tx_step good oper self x y \<Longrightarrow> tx_reachable good oper self y"

definition tx_punctual :: "timeout_mixin \<Rightarrow> bool" where
  "tx_punctual x \<longleftrightarrow> (\<forall>strike \<in> set (tx_closed x). fst strike \<le> snd strike)"

lemma tx_punctual_simps [simp]:
  "tx_punctual tx_init" "tx_punctual (x\<lparr>tx_timeOut := p\<rparr>) = tx_punctual x" "tx_punctual (x\<lparr>tx_timeoutCall := c\<rparr>) = tx_punctual x"
  "tx_punctual (x\<lparr>tx_since := t\<rparr>) = tx_punctual x"
  "tx_punctual (tx_timedOut now x) \<longleftrightarrow> tx_punctual x \<and> tx_since x + (case tx_timeOut x of Some p \<Rightarrow> p | None \<Rightarrow> 0) \<le> now"
  by (auto simp: tx_punctual_def tx_timedOut_def tx_init_def)

text \<open>
  One call is scheduled, for the period after the last activity, or none; and no timeout has struck
  before its period was over.
\<close>

definition tx_ok :: "'f \<Rightarrow> ('f, 'z) timeout_state \<Rightarrow> bool" where
  "tx_ok self = (\<lambda>(x, s).
     (case tx_timeoutCall x of
        None \<Rightarrow> tm_calls self s = Map.empty
      | Some i \<Rightarrow> (\<exists>p. tx_timeOut x = Some p \<and> tm_calls self s = [i \<mapsto> tx_since x + p])) \<and>
     tx_punctual x)"

locale idle_clock = looping_clock +
  assumes legal_reset: "legal (ResetCall i t)"
begin

lemma reset_call:
  assumes "inv s" "tm_calls self s i \<noteq> None"
  shows "\<exists>t. oper (ResetCall i p) s = Ok t \<and> inv t \<and> tm_now t = tm_now s \<and> tm_calls self t = (tm_calls self s)(i \<mapsto> tm_now s + p)"
proof -
  from assms(2) obtain u where u: "tm_agenda s i = Some (u, self)" by (auto simp: tm_calls_def split: option.splits if_splits)
  then have "i < tm_made s" by (auto simp: tm_agenda_def split: if_splits)
  with op_error [OF assms(1) legal_reset, of i i p] u obtain t where t: "oper (ResetCall i p) s = Ok t"
    by (cases "oper (ResetCall i p) s") auto
  with op_inv [OF assms(1), of "ResetCall i p"] op_now [of "ResetCall i p" s] op_agenda [OF assms(1) legal_reset, of i p] u show ?thesis
    by (auto simp: tm_calls_def fun_eq_iff)
qed

lemma later_call:
  assumes "inv s"
  shows "(\<exists>e. oper (CallLater p self) s = Exc e s) \<or>
    (\<exists>t. oper (CallLater p self) s = Ok t \<and> inv t \<and> tm_now t = tm_now s \<and> tm_calls self t = (tm_calls self s)(tm_made s \<mapsto> tm_now s + p))"
proof (cases "legal (CallLater p self)")
  case True
  then obtain t where t: "oper (CallLater p self) s = Ok t" using op_later by blast
  with op_inv [OF assms, of "CallLater p self"] op_now [of "CallLater p self" s] op_agenda [OF assms True] show ?thesis
    by (auto simp: tm_calls_def fun_eq_iff)
qed (use op_refused in blast)

lemma timeout_step:
  assumes "tx_step inv oper self a b" "inv (snd a)" "tx_ok self a"
  shows "inv (snd b) \<and> tx_ok self b"
  using assms
proof (induction rule: tx_step.induct)
  case (clock t s x)
  then show ?case by (auto simp: tx_ok_def split: option.splits)
next
  case (reset x s r)
  have closed: "tx_punctual x" using reset.prems(2) by (simp add: tx_ok_def)
  show ?case
  proof (cases "tx_timeoutCall x")
    case None
    with reset show ?thesis by (auto simp: tx_resetTimeout_def)
  next
    case (Some i)
    with reset.prems obtain p where p: "tx_timeOut x = Some p" "tm_calls self s = [i \<mapsto> tx_since x + p]" by (auto simp: tx_ok_def)
    with reset_call [of s self i p] reset.prems(1) obtain t where
      t: "oper (ResetCall i p) s = Ok t" "inv t" "tm_calls self t = [i \<mapsto> tm_now s + p]" by auto
    with reset(1) Some p have "r = Ok (x\<lparr>tx_since := tm_now s\<rparr>, t)" by (simp add: tx_resetTimeout_def)
    with Some p(1) t(2,3) closed show ?thesis by (simp add: tx_ok_def)
  qed
next
  case (set period x s r)
  have closed: "tx_punctual x" using set.prems(2) by (simp add: tx_ok_def)
  show ?case
  proof (cases "tx_timeoutCall x")
    case None
    with set.prems have none: "tm_calls self s = Map.empty" "inv s" by (simp_all add: tx_ok_def)
    show ?thesis
    proof (cases period)
      case None
      with \<open>tx_timeoutCall x = None\<close> set none show ?thesis by (auto simp: tx_setTimeout_def tx_ok_def)
    next
      case (Some p)
      with \<open>tx_timeoutCall x = None\<close> set(1) none closed later_call [OF none(2), of p self] show ?thesis
        by (auto simp: tx_setTimeout_def tx_ok_def)
    qed
  next
    case (Some i)
    with set.prems obtain p' where p': "tx_timeOut x = Some p'" "tm_calls self s = [i \<mapsto> tx_since x + p']" "inv s" by (auto simp: tx_ok_def)
    show ?thesis
    proof (cases period)
      case None
      with Some set(1) p' closed cancel [of s self i] show ?thesis by (auto simp: tx_setTimeout_def tx_ok_def)
    next
      case (Some p)
      with \<open>tx_timeoutCall x = Some i\<close> set(1) p' closed reset_call [of s self i p] show ?thesis
        by (auto simp: tx_setTimeout_def tx_ok_def)
    qed
  qed
next
  case (strikes s i u t x)
  then obtain p where "tx_timeoutCall x = Some i" "tx_timeOut x = Some p" "tm_calls self s = [i \<mapsto> tx_since x + p]"
    by (auto simp: tx_ok_def split: option.splits if_splits)
  with strikes show ?case by (auto simp: tx_ok_def)
qed

lemma timeout_reachable: "tx_reachable inv oper self a \<Longrightarrow> inv (snd a) \<and> tx_ok self a"
proof (induction rule: tx_reachable.induct)
  case (initial s)
  then show ?case by (simp add: tx_ok_def)
next
  case (step a b)
  then show ?case using timeout_step by blast
qed

end

section \<open>\<open>TimeoutProtocol\<close>\<close>

text \<open>
  A wrapper around a protocol, with a transport and a factory; what it does with them is recorded
  in \<open>tp_events\<close>.  Its methods call the ones of \<open>ProtocolWrapper\<close> when they did not raise.
\<close>

datatype timeout_event =
    TransportWrite bytes | TransportWriteSequence "bytes list" | TransportLoseConnection
  | WrappedDataReceived bytes | FactoryUnregister | WrappedConnectionLost

record timeout_protocol =
  tp_timeoutPeriod :: time
  tp_timeoutCall :: "nat option"
  tp_disconnecting :: bool
  tp_events :: "timeout_event list"

type_synonym ('f, 'z) wrapper_state = "timeout_protocol \<times> ('f, 'z) timers_scheme"

definition tp_emit :: "timeout_event list \<Rightarrow> ('f, 'z) wrapper_state \<Rightarrow> (timer_error, ('f, 'z) wrapper_state) outcome" where
  "tp_emit es = (\<lambda>(p, s). Ok (p\<lparr>tp_events := tp_events p @ es\<rparr>, s))"

definition tp_cancelTimeout :: "('f, 'z) owner_op \<Rightarrow> ('f, 'z) wrapper_state \<Rightarrow> (timer_error, ('f, 'z) wrapper_state) outcome" where
  "tp_cancelTimeout oper = (\<lambda>(p, s).
     case tp_timeoutCall p of
       None \<Rightarrow> Ok (p, s)
     | Some i \<Rightarrow> (case oper (CancelCall i) s of
           Ok t \<Rightarrow> Ok (p\<lparr>tp_timeoutCall := None\<rparr>, t)
         | Exc AlreadyCalled t \<Rightarrow> Ok (p\<lparr>tp_timeoutCall := None\<rparr>, t)
         | Exc e t \<Rightarrow> Exc e (p, t)))"

definition tp_setTimeout ::
    "('f, 'z) owner_op \<Rightarrow> 'f \<Rightarrow> time option \<Rightarrow> ('f, 'z) wrapper_state \<Rightarrow> (timer_error, ('f, 'z) wrapper_state) outcome" where
  "tp_setTimeout oper self timeoutPeriod x = and_then (tp_cancelTimeout oper x) (\<lambda>(p, s).
     let p = (case timeoutPeriod of Some period \<Rightarrow> p\<lparr>tp_timeoutPeriod := period\<rparr> | None \<Rightarrow> p)
     in case oper (CallLater (tp_timeoutPeriod p) self) s of
          Ok t \<Rightarrow> Ok (p\<lparr>tp_timeoutCall := Some (tm_made s)\<rparr>, t)
        | Exc e t \<Rightarrow> Exc e (p, t))"

definition tp_new ::
    "('f, 'z) owner_op \<Rightarrow> 'f \<Rightarrow> time \<Rightarrow> ('f, 'z) timers_scheme \<Rightarrow> (timer_error, ('f, 'z) wrapper_state) outcome" where
  "tp_new oper self period s = tp_setTimeout oper self (Some period)
     (\<lparr> tp_timeoutPeriod = period, tp_timeoutCall = None, tp_disconnecting = False, tp_events = [] \<rparr>, s)"

definition tp_resetTimeout :: "('f, 'z) owner_op \<Rightarrow> ('f, 'z) wrapper_state \<Rightarrow> (timer_error, ('f, 'z) wrapper_state) outcome" where
  "tp_resetTimeout oper = (\<lambda>(p, s).
     case tp_timeoutCall p of
       None \<Rightarrow> Ok (p, s)
     | Some i \<Rightarrow> (case oper (ResetCall i (tp_timeoutPeriod p)) s of
           Ok t \<Rightarrow> Ok (p, t)
         | Exc e t \<Rightarrow> Exc e (p, t)))"

definition tp_write :: "('f, 'z) owner_op \<Rightarrow> bytes \<Rightarrow> ('f, 'z) wrapper_state \<Rightarrow> (timer_error, ('f, 'z) wrapper_state) outcome" where
  "tp_write oper data x = and_then (tp_resetTimeout oper x) (tp_emit [TransportWrite data])"

definition tp_writeSequence ::
    "('f, 'z) owner_op \<Rightarrow> bytes list \<Rightarrow> ('f, 'z) wrapper_state \<Rightarrow> (timer_error, ('f, 'z) wrapper_state) outcome" where
  "tp_writeSequence oper seq x = and_then (tp_resetTimeout oper x) (tp_emit [TransportWriteSequence seq])"

definition tp_dataReceived :: "('f, 'z) owner_op \<Rightarrow> bytes \<Rightarrow> ('f, 'z) wrapper_state \<Rightarrow> (timer_error, ('f, 'z) wrapper_state) outcome" where
  "tp_dataReceived oper data x = and_then (tp_resetTimeout oper x) (tp_emit [WrappedDataReceived data])"

definition tp_connectionLost :: "('f, 'z) owner_op \<Rightarrow> ('f, 'z) wrapper_state \<Rightarrow> (timer_error, ('f, 'z) wrapper_state) outcome" where
  "tp_connectionLost oper x = and_then (tp_cancelTimeout oper x) (tp_emit [FactoryUnregister, WrappedConnectionLost])"

definition tp_timeoutFunc :: "timeout_protocol \<Rightarrow> timeout_protocol" where
  "tp_timeoutFunc p = p\<lparr>tp_disconnecting := True, tp_events := tp_events p @ [TransportLoseConnection]\<rparr>"

text \<open>
  What holds of a wrapper: its call is the only one, is pending or was made, and was not
  cancelled.
\<close>

definition tp_ok :: "'f \<Rightarrow> ('f, 'z) wrapper_state \<Rightarrow> bool" where
  "tp_ok self = (\<lambda>(p, s).
     case tp_timeoutCall p of
       None \<Rightarrow> tm_calls self s = Map.empty
     | Some i \<Rightarrow> dom (tm_calls self s) \<subseteq> {i} \<and> i < tm_made s \<and> (tm_agenda s i \<noteq> None \<longrightarrow> tm_calls self s i \<noteq> None) \<and>
         (tm_agenda s i = None \<longrightarrow> \<not> dc_cancelled (tm_at s i)))"

context idle_clock
begin

lemma cancelTimeout_ok:
  assumes "inv s" "tp_ok self (p, s)"
  shows "\<exists>t. tp_cancelTimeout oper (p, s) = Ok (p\<lparr>tp_timeoutCall := None\<rparr>, t) \<and> inv t \<and> tm_calls self t = Map.empty \<and> tm_now t = tm_now s"
proof (cases "tp_timeoutCall p")
  case None
  with assms show ?thesis by (intro exI [of _ s]) (simp add: tp_cancelTimeout_def tp_ok_def)
next
  case (Some i)
  with assms(2) have i: "dom (tm_calls self s) \<subseteq> {i}" "i < tm_made s" "tm_agenda s i \<noteq> None \<longrightarrow> tm_calls self s i \<noteq> None"
    "tm_agenda s i = None \<longrightarrow> \<not> dc_cancelled (tm_at s i)" by (simp_all add: tp_ok_def)
  show ?thesis
  proof (cases "tm_agenda s i")
    case None
    then have "tm_calls self s i = None" by (simp add: tm_calls_def)
    with i(1) have "tm_calls self s = Map.empty" by blast
    moreover from None i(2,4) op_error [OF assms(1) legal_cancel i(2), of i] have "oper (CancelCall i) s = Exc AlreadyCalled s"
      by (auto split: outcome.splits)
    ultimately show ?thesis using Some assms(1) by (simp add: tp_cancelTimeout_def)
  next
    case (Some u)
    with i(3) have "tm_calls self s i \<noteq> None" by simp
    from cancel [OF assms(1) this] obtain t where
      "oper (CancelCall i) s = Ok t" "inv t" "tm_now t = tm_now s" "tm_calls self t = (tm_calls self s)(i := None)" by blast
    moreover from i(1) have "(tm_calls self s)(i := None) = Map.empty" by (auto simp: fun_eq_iff)
    ultimately show ?thesis using \<open>tp_timeoutCall p = Some i\<close> by (simp add: tp_cancelTimeout_def)
  qed
qed

text \<open>A connection that was lost has no timeout left, whether it had struck or not.\<close>

lemma connectionLost_no_timeout:
  assumes "inv s" "tp_ok self (p, s)"
  shows "\<exists>q t. tp_connectionLost oper (p, s) = Ok (q, t) \<and> tm_calls self t = Map.empty \<and> tp_timeoutCall q = None \<and>
    tp_events q = tp_events p @ [FactoryUnregister, WrappedConnectionLost]"
  using cancelTimeout_ok [OF assms] by (auto simp: tp_connectionLost_def tp_emit_def)

text \<open>Activity puts a pending timeout off by a full period, and then reaches the transport.\<close>

lemma write_puts_off:
  assumes "inv s" "tp_timeoutCall p = Some i" "tm_calls self s i \<noteq> None"
  shows "\<exists>t. tp_write oper data (p, s) = Ok (p\<lparr>tp_events := tp_events p @ [TransportWrite data]\<rparr>, t) \<and>
    tm_calls self t = (tm_calls self s)(i \<mapsto> tm_now s + tp_timeoutPeriod p)"
  using reset_call [OF assms(1,3), of "tp_timeoutPeriod p"] assms(2)
  by (auto simp: tp_write_def tp_resetTimeout_def tp_emit_def)

text \<open>After it has struck, a write raises and its data does not reach the transport.\<close>

lemma write_after_timeout:
  assumes "inv s" "tp_ok self (p, s)" "tp_timeoutCall p = Some i" "tm_agenda s i = None"
  shows "tp_write oper data (p, s) = Exc AlreadyCalled (p, s)"
proof -
  from assms(2-4) have i: "i < tm_made s" "\<not> dc_cancelled (tm_at s i)" by (simp_all add: tp_ok_def)
  with op_error [OF assms(1) legal_reset i(1), of i "tp_timeoutPeriod p"] assms(4) have
    "oper (ResetCall i (tp_timeoutPeriod p)) s = Exc AlreadyCalled s" by (auto split: outcome.splits)
  with assms(3) show ?thesis by (simp add: tp_write_def tp_resetTimeout_def)
qed

end

interpretation idle_clk: idle_clock clk_inv clk_op "\<lambda>p. True" clk_ran
  by unfold_locales simp

interpretation idle_rt: idle_clock rt_inv rt_timer_op rt_legal rt_ran
  by unfold_locales simp

text \<open>
  C18: A connection with an idle timeout is closed for it only when it was idle for that long.  On the
  reactor and on a \<open>Clock\<close>, whatever else happens there and however the timeout is set, changed,
  reset and disabled: while a timeout is pending, exactly one call is scheduled, one period after
  the last time it was set or reset; otherwise none is; and whenever it has struck, that
  moment had come.
\<close>
theorem timeout_idle:
  "(tx_reachable clk_inv clk_op self a \<longrightarrow> tx_ok self a) \<and> (tx_reachable rt_inv rt_timer_op self b \<longrightarrow> tx_ok self b)"
proof (intro conjI impI)
  show "tx_ok self a" if "tx_reachable clk_inv clk_op self a" using idle_clk.timeout_reachable [OF that] by simp
  show "tx_ok self b" if "tx_reachable rt_inv rt_timer_op self b" using idle_rt.timeout_reachable [OF that] by simp
qed

definition tx_set :: "(string, 'z) owner_op \<Rightarrow> (string, 'z) timers_scheme \<Rightarrow> (string, 'z) timeout_state" where
  "tx_set oper s = state_of (snd (tx_setTimeout oper ''timeout'' (Some 3) (tx_init, s)))"

lemma tx_reachable_set:
  assumes "good s" "tm_calls ''timeout'' s = Map.empty"
  shows "tx_reachable good oper ''timeout'' (tx_set oper s)"
  unfolding tx_set_def
  by (rule tx_reachable.step [OF tx_reachable.initial [of good, OF assms] tx_step.set [OF refl]])

theorem timeout_idle_witness:
  "tx_ok ''timeout'' (tx_set clk_op (clk_init (dc_init 0 ''''))) \<and> tx_ok ''timeout'' (tx_set rt_timer_op (rt_init (dc_init 0 ''''))) \<and>
   tx_timeoutCall (fst (tx_set rt_timer_op (rt_init (dc_init 0 '''')))) = Some 0"
proof -
  have "tm_calls ''timeout'' (clk_init (dc_init 0 '''')) = Map.empty" "tm_calls ''timeout'' (rt_init (dc_init 0 '''')) = Map.empty"
    by (simp_all add: tm_calls_def tm_agenda_def clk_init_def rt_init_def fun_eq_iff)
  then have "tx_reachable clk_inv clk_op ''timeout'' (tx_set clk_op (clk_init (dc_init 0 '''')))"
    "tx_reachable rt_inv rt_timer_op ''timeout'' (tx_set rt_timer_op (rt_init (dc_init 0 '''')))"
    by (simp_all add: tx_reachable_set clk_inv_init rt_inv_init)
  moreover have "tx_timeoutCall (fst (tx_set rt_timer_op (rt_init (dc_init 0 '''')))) = Some 0" by code_simp
  ultimately show ?thesis
    using timeout_idle [of "''timeout''" "tx_set clk_op (clk_init (dc_init 0 ''''))" "tx_set rt_timer_op (rt_init (dc_init 0 ''''))"]
    by simp
qed

end
