(* ===== verification/EventTriggers.thy ===== *)
theory EventTriggers
  imports Prelude "HOL-Library.Multiset" "HOL-Library.Sublist"
begin

text \<open>
  \<open>_ThreePhaseEvent\<close> of \<open>twisted/internet/base.py\<close>, the triggers of a system event of the
  reactor.  A trigger is a callable with its arguments.  What it does when it is called is
  a parameter: it adds and removes triggers of the same event and then returns, returns a
  Deferred, or raises.  A Deferred that a trigger of the before phase returns has fired by
  the time the phase is over, when the \<open>DeferredList\<close> is made, or it has not; those that
  have not are counted down until the last has fired.

  \<open>tp_ran\<close>, \<open>tp_returned\<close>, \<open>tp_added\<close> and \<open>tp_removed\<close> record what was called, with what
  result, added and removed.
\<close>

section \<open>State and operations\<close>

datatype phase = Before | During | After | InvalidPhase

datatype trigger_error = TriggerKeyError | TriggerValueError | TriggerTypeError

text \<open>\<open>ReturnsDeferred fired\<close>: a Deferred that has or has not fired when the phase is over.\<close>

datatype trigger_result = ReturnsValue | ReturnsDeferred bool | RaisesError

datatype 'k handle = Handle phase 'k | BadHandle

record 'k three_phase =
  tp_before :: "'k list"
  tp_finishedBefore :: "'k list"
  tp_during :: "'k list"
  tp_after :: "'k list"
  tp_base :: bool
  tp_waiting :: "nat list"
  tp_warnings :: nat
  tp_ran :: "(phase \<times> 'k) list"
  tp_added :: "(phase \<times> 'k) list"
  tp_removed :: "(phase \<times> 'k) list"
  tp_returned :: "trigger_result list"


text \<open>\<open>getattr(self, phase)\<close>, to read and to change.\<close>

fun tp_phase :: "phase \<Rightarrow> 'k three_phase \<Rightarrow> 'k list" where
  "tp_phase Before s = tp_before s"
| "tp_phase During s = tp_during s"
| "tp_phase After s = tp_after s"
| "tp_phase InvalidPhase s = []"

fun tp_set_phase :: "phase \<Rightarrow> 'k list \<Rightarrow> 'k three_phase \<Rightarrow> 'k three_phase" where
  "tp_set_phase Before ks s = s\<lparr>tp_before := ks\<rparr>"
| "tp_set_phase During ks s = s\<lparr>tp_during := ks\<rparr>"
| "tp_set_phase After ks s = s\<lparr>tp_after := ks\<rparr>"
| "tp_set_phase InvalidPhase ks s = s"

definition tp_addTrigger :: "phase \<Rightarrow> 'k \<Rightarrow> 'k three_phase \<Rightarrow> (trigger_error, 'k three_phase) outcome" where
  "tp_addTrigger p k s =
     (if p = InvalidPhase then Exc TriggerKeyError s
      else Ok (tp_set_phase p (tp_phase p s @ [k]) (s\<lparr>tp_added := tp_added s @ [(p, k)]\<rparr>)))"

fun tp_removeTrigger_BASE :: "'k handle \<Rightarrow> 'k three_phase \<Rightarrow> (trigger_error, 'k three_phase) outcome" where
  "tp_removeTrigger_BASE BadHandle s = Exc TriggerValueError s"
| "tp_removeTrigger_BASE (Handle p k) s =
     (if p = InvalidPhase then Exc TriggerKeyError s
      else if k \<in> set (tp_phase p s)
        then Ok (tp_set_phase p (remove1 k (tp_phase p s)) (s\<lparr>tp_removed := tp_removed s @ [(p, k)]\<rparr>))
      else Exc TriggerValueError s)"

fun tp_removeTrigger_BEFORE :: "'k handle \<Rightarrow> 'k three_phase \<Rightarrow> (trigger_error, 'k three_phase) outcome" where
  "tp_removeTrigger_BEFORE BadHandle s = Exc TriggerTypeError s"
| "tp_removeTrigger_BEFORE (Handle p k) s =
     (if p \<noteq> Before then tp_removeTrigger_BASE (Handle p k) s
      else if k \<in> set (tp_finishedBefore s) then Ok (s\<lparr>tp_warnings := tp_warnings s + 1\<rparr>)
      else tp_removeTrigger_BASE (Handle p k) s)"

definition tp_removeTrigger :: "'k handle \<Rightarrow> 'k three_phase \<Rightarrow> (trigger_error, 'k three_phase) outcome" where
  "tp_removeTrigger h s = (if tp_base s then tp_removeTrigger_BASE h s else tp_removeTrigger_BEFORE h s)"

datatype 'k trigger_op = AddTrigger phase 'k | RemoveTrigger "'k handle"

fun tp_op :: "'k trigger_op \<Rightarrow> 'k three_phase \<Rightarrow> 'k three_phase" where
  "tp_op (AddTrigger p k) s = state_of (tp_addTrigger p k s)"
| "tp_op (RemoveTrigger h) s = state_of (tp_removeTrigger h s)"


section \<open>Firing\<close>








section \<open>No trigger is lost or called twice\<close>

definition tp_listed :: "'k three_phase \<Rightarrow> (phase \<times> 'k) list" where
  "tp_listed s = map (Pair Before) (tp_before s) @ map (Pair During) (tp_during s) @ map (Pair After) (tp_after s)"

definition tp_balanced :: "'k three_phase \<Rightarrow> bool" where
  "tp_balanced s \<longleftrightarrow> mset (tp_added s) = mset (tp_ran s) + mset (tp_removed s) + mset (tp_listed s)"

lemma tp_set_phase_simps [simp]:
  "tp_ran (tp_set_phase p ks s) = tp_ran s" "tp_added (tp_set_phase p ks s) = tp_added s"
  "tp_removed (tp_set_phase p ks s) = tp_removed s" "tp_returned (tp_set_phase p ks s) = tp_returned s" "tp_waiting (tp_set_phase p ks s) = tp_waiting s"
  "tp_base (tp_set_phase p ks s) = tp_base s"
  "p \<noteq> InvalidPhase \<Longrightarrow> tp_phase p (tp_set_phase p ks s) = ks"
  by (cases p; simp)+


lemma tp_listed_other [simp]:
  "tp_listed (s\<lparr>tp_ran := r\<rparr>) = tp_listed s" "tp_listed (s\<lparr>tp_added := r\<rparr>) = tp_listed s"
  "tp_listed (s\<lparr>tp_removed := r\<rparr>) = tp_listed s" "tp_listed (s\<lparr>tp_finishedBefore := f\<rparr>) = tp_listed s"
  "tp_listed (s\<lparr>tp_warnings := n\<rparr>) = tp_listed s" "tp_listed (s\<lparr>tp_base := b\<rparr>) = tp_listed s"
  "tp_listed (s\<lparr>tp_waiting := w\<rparr>) = tp_listed s" "tp_listed (s\<lparr>tp_returned := rs\<rparr>) = tp_listed s"
  by (simp_all add: tp_listed_def)

lemma tp_phase_other [simp]:
  "tp_phase p (s\<lparr>tp_ran := r\<rparr>) = tp_phase p s" "tp_phase p (s\<lparr>tp_added := r\<rparr>) = tp_phase p s"
  "tp_phase p (s\<lparr>tp_removed := r\<rparr>) = tp_phase p s" "tp_phase p (s\<lparr>tp_finishedBefore := f\<rparr>) = tp_phase p s"
  "tp_phase p (s\<lparr>tp_warnings := n\<rparr>) = tp_phase p s" "tp_phase p (s\<lparr>tp_base := b\<rparr>) = tp_phase p s"
  "tp_phase p (s\<lparr>tp_waiting := w\<rparr>) = tp_phase p s" "tp_phase p (s\<lparr>tp_returned := rs\<rparr>) = tp_phase p s"
  by (cases p; simp)+

lemma tp_balanced_other [simp]:
  "tp_balanced (s\<lparr>tp_finishedBefore := f\<rparr>) = tp_balanced s" "tp_balanced (s\<lparr>tp_warnings := n\<rparr>) = tp_balanced s"
  "tp_balanced (s\<lparr>tp_base := b\<rparr>) = tp_balanced s" "tp_balanced (s\<lparr>tp_waiting := w\<rparr>) = tp_balanced s"
  "tp_balanced (s\<lparr>tp_returned := rs\<rparr>) = tp_balanced s"
  by (simp_all add: tp_balanced_def)






lemma tp_op_keeps: "tp_ran (tp_op q s) = tp_ran s \<and> tp_waiting (tp_op q s) = tp_waiting s \<and> tp_base (tp_op q s) = tp_base s \<and>
    tp_returned (tp_op q s) = tp_returned s"
proof -
  have "tp_ran (state_of (tp_removeTrigger h s)) = tp_ran s \<and> tp_waiting (state_of (tp_removeTrigger h s)) = tp_waiting s \<and>
      tp_base (state_of (tp_removeTrigger h s)) = tp_base s \<and> tp_returned (state_of (tp_removeTrigger h s)) = tp_returned s" for h
    by (cases h) (simp_all add: tp_removeTrigger_def)
  then show ?thesis by (cases q) (simp_all add: tp_addTrigger_def)
qed

lemma tp_ops_keeps [simp]:
  "tp_ran (fold tp_op qs s) = tp_ran s" "tp_waiting (fold tp_op qs s) = tp_waiting s" "tp_base (fold tp_op qs s) = tp_base s"
  "tp_returned (fold tp_op qs s) = tp_returned s"
  by (induction qs arbitrary: s) (simp_all add: tp_op_keeps)








section \<open>A phase\<close>



section \<open>The phases\<close>







section \<open>Properties\<close>






end
