(* ===== verification/FileDescriptors.thy ===== *)
theory FileDescriptors
  imports Prelude
begin

text \<open>
  \<open>FileDescriptor\<close> and \<open>_ConsumerMixin\<close> of \<open>twisted/internet/abstract.py\<close>: the write buffer of
  every stream transport, the producer that fills it, and closing once it is empty.  The
  methods a subclass overrides (\<open>writeSomeData\<close>, \<open>_closeWriteConnection\<close>, \<open>connectionLost\<close>)
  are arguments of the methods that call them; \<open>Connections\<close> gives those of TCP.

  A call to the producer is an entry of \<open>fd_log\<close>.  In every method but \<open>doWrite\<close> such a call is
  the last thing done, or is \<open>pauseProducing\<close> or \<open>stopProducing\<close>, which call nothing back; so
  what a producer does when it is called are further calls after the method.  What it does in
  the \<open>resumeProducing\<close> of \<open>doWrite\<close> is an argument, since it may raise there.
  \<open>fd_reading\<close> and \<open>fd_writing\<close> say whether the reactor has the descriptor among those it
  watches; \<open>fd_written\<close> records the data that the methods accepted, and is never read.
\<close>

section \<open>State\<close>

datatype reason = ConnectionDone | ConnectionLost | ConnectionAborted | OtherException

datatype payload = Data bytes | Unicode "nat list"

datatype fd_error = FdRuntimeError | FdTypeError

datatype fd_event =
    ProducerPaused nat | ProducerResumed nat | ProducerStopped nat
  | DataReceived bytes | ReadConnectionLost | WriteConnectionLost | ProtocolConnectionLost reason
  | SocketShutdown nat | SocketLinger | SocketClosed

record fd =
  fd_connected :: bool
  fd_disconnected :: bool
  fd_disconnecting :: bool
  fd_writeDisconnecting :: bool
  fd_writeDisconnected :: bool
  fd_dataBuffer :: bytes
  fd_offset :: nat
  fd_tempDataBuffer :: "bytes list"
  fd_tempDataLen :: nat
  fd_producer :: "nat option"
  fd_producerPaused :: bool
  fd_streamingProducer :: bool
  fd_reading :: bool
  fd_writing :: bool
  fd_written :: bytes
  fd_log :: "fd_event list"

definition SEND_LIMIT :: nat where "SEND_LIMIT = 128 * 1024"

definition bufferSize :: nat where "bufferSize = 2 ^ 2 ^ 2 ^ 2"

definition fd_event :: "fd_event \<Rightarrow> 'a fd_scheme \<Rightarrow> 'a fd_scheme" where
  "fd_event e s = s\<lparr>fd_log := fd_log s @ [e]\<rparr>"

section \<open>Watching for readiness\<close>

definition fd_startReading :: "'a fd_scheme \<Rightarrow> 'a fd_scheme" where "fd_startReading s = s\<lparr>fd_reading := True\<rparr>"
definition fd_stopReading :: "'a fd_scheme \<Rightarrow> 'a fd_scheme" where "fd_stopReading s = s\<lparr>fd_reading := False\<rparr>"
definition fd_startWriting :: "'a fd_scheme \<Rightarrow> 'a fd_scheme" where "fd_startWriting s = s\<lparr>fd_writing := True\<rparr>"
definition fd_stopWriting :: "'a fd_scheme \<Rightarrow> 'a fd_scheme" where "fd_stopWriting s = s\<lparr>fd_writing := False\<rparr>"

section \<open>Producers\<close>

definition fd_registerProducer :: "nat \<Rightarrow> bool \<Rightarrow> 'a fd_scheme \<Rightarrow> (fd_error, 'a fd_scheme) outcome" where
  "fd_registerProducer p streaming s =
     (if fd_producer s \<noteq> None then Exc FdRuntimeError s
      else if fd_disconnected s then Ok (fd_event (ProducerStopped p) s)
      else
        let t = s\<lparr>fd_producer := Some p, fd_streamingProducer := streaming\<rparr>
        in Ok (if \<not> streaming then fd_event (ProducerResumed p) t else t))"

definition fd_unregisterProducer :: "'a fd_scheme \<Rightarrow> 'a fd_scheme" where
  "fd_unregisterProducer s =
     (let t = s\<lparr>fd_producer := None\<rparr>
      in if fd_connected t \<and> fd_disconnecting t then fd_startWriting t else t)"

definition fd_isSendBufferFull :: "'a fd_scheme \<Rightarrow> bool" where
  "fd_isSendBufferFull s \<longleftrightarrow> length (fd_dataBuffer s) + fd_tempDataLen s > bufferSize"

definition fd_maybePauseProducer :: "'a fd_scheme \<Rightarrow> 'a fd_scheme" where
  "fd_maybePauseProducer s =
     (case fd_producer s of
        None \<Rightarrow> s
      | Some p \<Rightarrow>
          if fd_streamingProducer s \<and> fd_isSendBufferFull s
          then fd_event (ProducerPaused p) (s\<lparr>fd_producerPaused := True\<rparr>) else s)"

section \<open>Writing\<close>

fun fd_write :: "payload \<Rightarrow> 'a fd_scheme \<Rightarrow> (fd_error, 'a fd_scheme) outcome" where
  "fd_write (Unicode u) s = Exc FdTypeError s"
| "fd_write (Data d) s =
     (if \<not> fd_connected s \<or> fd_writeDisconnected s then Ok s
      else if d \<noteq> [] then
        Ok (fd_startWriting (fd_maybePauseProducer
          (s\<lparr>fd_tempDataBuffer := fd_tempDataBuffer s @ [d],
             fd_tempDataLen := fd_tempDataLen s + length d,
             fd_written := fd_written s @ d\<rparr>)))
      else Ok s)"

fun is_unicode :: "payload \<Rightarrow> bool" where
  "is_unicode (Unicode u) = True"
| "is_unicode (Data d) = False"

fun payload_bytes :: "payload \<Rightarrow> bytes" where
  "payload_bytes (Data d) = d"
| "payload_bytes (Unicode u) = []"

definition fd_writeSequence :: "payload list \<Rightarrow> 'a fd_scheme \<Rightarrow> (fd_error, 'a fd_scheme) outcome" where
  "fd_writeSequence iovec s =
     (if list_ex is_unicode iovec then Exc FdTypeError s
      else if \<not> fd_connected s \<or> iovec = [] \<or> fd_writeDisconnected s then Ok s
      else
        let chunks = map payload_bytes iovec
        in Ok (fd_startWriting (fd_maybePauseProducer
             (s\<lparr>fd_tempDataBuffer := fd_tempDataBuffer s @ chunks,
                fd_tempDataLen := foldl (\<lambda>n d. n + length d) (fd_tempDataLen s) chunks,
                fd_written := fd_written s @ concat chunks\<rparr>))))"

text \<open>
  The result is what \<open>doWrite\<close> returns or raises: \<open>None\<close>, or why the descriptor is to be
  disconnected.
\<close>

definition fd_postLoseConnection :: "'a fd_scheme \<Rightarrow> reason option" where
  "fd_postLoseConnection s = Some ConnectionDone"

definition fd_doWrite ::
    "(bytes \<Rightarrow> 'a fd_scheme \<Rightarrow> (reason + nat) \<times> 'a fd_scheme) \<Rightarrow> ('a fd_scheme \<Rightarrow> reason option \<times> 'a fd_scheme) \<Rightarrow>
     ('a fd_scheme \<Rightarrow> reason option \<times> 'a fd_scheme) \<Rightarrow> 'a fd_scheme \<Rightarrow> reason option \<times> 'a fd_scheme" where
  "fd_doWrite writeSomeData closeWriteConnection resumed s =
     (let s1 = (if int (length (fd_dataBuffer s)) - int (fd_offset s) < int SEND_LIMIT then
                  s\<lparr>fd_dataBuffer := drop (fd_offset s) (fd_dataBuffer s) @ concat (fd_tempDataBuffer s),
                    fd_offset := 0, fd_tempDataBuffer := [], fd_tempDataLen := 0\<rparr>
                else s);
          (l, s2) = (if fd_offset s1 \<noteq> 0 then writeSomeData (drop (fd_offset s1) (fd_dataBuffer s1)) s1
                     else writeSomeData (fd_dataBuffer s1) s1)
      in case l of
           Inl e \<Rightarrow> (Some e, s2)
         | Inr n \<Rightarrow>
             let s3 = s2\<lparr>fd_offset := fd_offset s2 + n\<rparr>
             in if fd_offset s3 = length (fd_dataBuffer s3) \<and> fd_tempDataLen s3 = 0 then
                  let s4 = fd_stopWriting (s3\<lparr>fd_dataBuffer := [], fd_offset := 0\<rparr>)
                  in case (fd_producer s4, \<not> fd_streamingProducer s4 \<or> fd_producerPaused s4) of
                       (Some p, True) \<Rightarrow>
                         resumed (fd_event (ProducerResumed p) (s4\<lparr>fd_producerPaused := False\<rparr>))
                     | _ \<Rightarrow>
                         if fd_disconnecting s4 then (fd_postLoseConnection s4, s4)
                         else if fd_writeDisconnecting s4 then
                           closeWriteConnection (s4\<lparr>fd_writeDisconnected := True\<rparr>)
                         else (None, s4)
                else (None, s3))"

section \<open>Closing\<close>

definition fd_connectionLost :: "'a fd_scheme \<Rightarrow> 'a fd_scheme" where
  "fd_connectionLost s =
     (let s1 = s\<lparr>fd_disconnected := True, fd_connected := False\<rparr>;
          s2 = (case fd_producer s1 of
                  None \<Rightarrow> s1
                | Some p \<Rightarrow> (fd_event (ProducerStopped p) s1)\<lparr>fd_producer := None\<rparr>)
      in fd_stopWriting (fd_stopReading s2))"

definition fd_loseConnection :: "(reason \<Rightarrow> 'a fd_scheme \<Rightarrow> 'a fd_scheme) \<Rightarrow> 'a fd_scheme \<Rightarrow> 'a fd_scheme" where
  "fd_loseConnection connectionLost s =
     (if fd_connected s \<and> \<not> fd_disconnecting s then
        if fd_writeDisconnected s then connectionLost ConnectionDone (fd_stopWriting (fd_stopReading s))
        else (fd_startWriting (fd_stopReading s))\<lparr>fd_disconnecting := True\<rparr>
      else s)"

definition fd_loseWriteConnection :: "'a fd_scheme \<Rightarrow> 'a fd_scheme" where
  "fd_loseWriteConnection s = fd_startWriting (s\<lparr>fd_writeDisconnecting := True\<rparr>)"

definition fd_stopConsuming :: "(reason \<Rightarrow> 'a fd_scheme \<Rightarrow> 'a fd_scheme) \<Rightarrow> 'a fd_scheme \<Rightarrow> 'a fd_scheme" where
  "fd_stopConsuming connectionLost s = fd_loseConnection connectionLost (fd_unregisterProducer s)"

definition fd_resumeProducing :: "'a fd_scheme \<Rightarrow> 'a fd_scheme" where
  "fd_resumeProducing s = (if fd_connected s \<and> \<not> fd_disconnecting s then fd_startReading s else s)"

definition fd_pauseProducing :: "'a fd_scheme \<Rightarrow> 'a fd_scheme" where
  "fd_pauseProducing s = fd_stopReading s"

definition fd_stopProducing :: "(reason \<Rightarrow> 'a fd_scheme \<Rightarrow> 'a fd_scheme) \<Rightarrow> 'a fd_scheme \<Rightarrow> 'a fd_scheme" where
  "fd_stopProducing connectionLost s = fd_loseConnection connectionLost s"

lemmas fd_watch_defs = fd_event_def fd_startReading_def fd_stopReading_def fd_startWriting_def fd_stopWriting_def

end
