(* ===== verification/Connections.thy ===== *)
theory Connections
  imports FileDescriptors Framing
begin

text \<open>
  TCP connections: \<open>Connection\<close>, \<open>_SocketCloser\<close>, \<open>_AbortingMixin\<close> and the constructor of
  \<open>Server\<close> of \<open>twisted/internet/tcp.py\<close> (no TLS started), and what the reactor does for one
  descriptor: \<open>doSelect\<close> and \<open>_doReadOrWrite\<close> of \<open>twisted/internet/selectreactor.py\<close> and
  \<open>_disconnectSelectable\<close> of \<open>twisted/internet/posixbase.py\<close>.

  The operating system is a parameter: what \<open>recv\<close> and \<open>send\<close> answer.  The application is a
  parameter too: a reaction is the calls it makes on its transport while the protocol or the
  producer is called, and what it then returns or raises.

  \<open>tc_socket\<close> says that the attributes \<open>socket\<close>, \<open>protocol\<close> and \<open>fileno\<close> exist, \<open>tc_replaced\<close> that
  \<open>abortConnection\<close> has replaced \<open>doRead\<close> and \<open>doWrite\<close>, \<open>tc_abortCalls\<close> counts the delayed calls
  it made, and \<open>tc_sent\<close> records what the socket took.
\<close>

section \<open>State\<close>

record tconn = fd +
  tc_socket :: bool
  tc_halfCloseable :: bool
  tc_aborting :: bool
  tc_replaced :: bool
  tc_abortCalls :: nat
  tc_sent :: bytes

datatype errno = EWOULDBLOCK | ENOBUFS | OtherErrno

datatype recv_answer = Received bytes | RecvError errno

datatype send_answer = Sent nat | SendError errno

text \<open>\<open>FileDescriptor.__init__\<close>, \<open>Connection.__init__\<close> and \<open>Server.__init__\<close>.\<close>

definition fd_init :: fd where
  "fd_init = \<lparr> fd_connected = False, fd_disconnected = False, fd_disconnecting = False,
     fd_writeDisconnecting = False, fd_writeDisconnected = False, fd_dataBuffer = [], fd_offset = 0,
     fd_tempDataBuffer = [], fd_tempDataLen = 0, fd_producer = None, fd_producerPaused = False,
     fd_streamingProducer = False, fd_reading = False, fd_writing = False, fd_written = [], fd_log = [] \<rparr>"

definition tc_init :: "bool \<Rightarrow> tconn" where
  "tc_init halfCloseable =
     fd.extend fd_init
       \<lparr> tc_socket = True, tc_halfCloseable = halfCloseable, tc_aborting = False, tc_replaced = False,
         tc_abortCalls = 0, tc_sent = [] \<rparr>"

definition tc_server :: "bool \<Rightarrow> tconn" where
  "tc_server halfCloseable = (fd_startReading (tc_init halfCloseable))\<lparr>fd_connected := True\<rparr>"

section \<open>Closing\<close>

definition tc_closeSocket :: "bool \<Rightarrow> tconn \<Rightarrow> tconn" where
  "tc_closeSocket orderly s =
     fd_event SocketClosed (if orderly then fd_event (SocketShutdown 2) s else fd_event SocketLinger s)"

definition tc_connectionLost :: "reason \<Rightarrow> tconn \<Rightarrow> tconn" where
  "tc_connectionLost why s =
     (if \<not> tc_socket s then s
      else
        let t = tc_closeSocket (why \<noteq> ConnectionAborted) (fd_connectionLost s)
        in fd_event (ProtocolConnectionLost why) (t\<lparr>tc_socket := False\<rparr>))"

definition tc_abortConnection :: "tconn \<Rightarrow> tconn" where
  "tc_abortConnection s =
     (if fd_disconnected s \<or> tc_aborting s then s
      else (fd_stopWriting (fd_stopReading (s\<lparr>tc_aborting := True\<rparr>)))
             \<lparr>tc_replaced := True, tc_abortCalls := tc_abortCalls s + 1\<rparr>)"

section \<open>What the application may call\<close>

datatype app_call =
    Write payload | WriteSequence "payload list" | LoseConnection | LoseWriteConnection
  | AbortConnection | RegisterProducer nat bool | UnregisterProducer | PauseReading | ResumeReading
  | StopReadingForGood | StopConsuming

fun tc_call :: "app_call \<Rightarrow> tconn \<Rightarrow> (fd_error, tconn) outcome" where
  "tc_call (Write d) s = fd_write d s"
| "tc_call (WriteSequence ds) s = fd_writeSequence ds s"
| "tc_call LoseConnection s = Ok (fd_loseConnection tc_connectionLost s)"
| "tc_call LoseWriteConnection s = Ok (fd_loseWriteConnection s)"
| "tc_call AbortConnection s = Ok (tc_abortConnection s)"
| "tc_call (RegisterProducer p streaming) s = fd_registerProducer p streaming s"
| "tc_call UnregisterProducer s = Ok (fd_unregisterProducer s)"
| "tc_call PauseReading s = Ok (fd_pauseProducing s)"
| "tc_call ResumeReading s = Ok (fd_resumeProducing s)"
| "tc_call StopReadingForGood s = Ok (fd_stopProducing tc_connectionLost s)"
| "tc_call StopConsuming s = Ok (fd_stopConsuming tc_connectionLost s)"

definition tc_calls :: "app_call list \<Rightarrow> tconn \<Rightarrow> tconn" where
  "tc_calls cs s = fold (\<lambda>c s. state_of (tc_call c s)) cs s"

type_synonym reaction = "app_call list \<times> reason option"

definition tc_react :: "reaction \<Rightarrow> tconn \<Rightarrow> reason option \<times> tconn" where
  "tc_react r s = (snd r, tc_calls (fst r) s)"

section \<open>Reading and writing\<close>

definition tc_dataReceived :: "reaction \<Rightarrow> bytes \<Rightarrow> tconn \<Rightarrow> reason option \<times> tconn" where
  "tc_dataReceived app d s =
     (if d = [] then (Some ConnectionDone, s) else tc_react app (fd_event (DataReceived d) s))"

definition tc_doRead :: "recv_answer \<Rightarrow> reaction \<Rightarrow> tconn \<Rightarrow> reason option \<times> tconn" where
  "tc_doRead recv app s =
     (if tc_replaced s then (None, s)
      else if \<not> tc_socket s then (Some OtherException, s)
      else case recv of
             RecvError e \<Rightarrow> if e = EWOULDBLOCK then (None, s) else (Some ConnectionLost, s)
           | Received d \<Rightarrow> tc_dataReceived app d s)"

text \<open>\<open>send\<close> is the answer of \<open>untilConcludes(socket.send, data)\<close>, which tries again after \<open>EINTR\<close>.\<close>

definition tc_writeSomeData :: "(bytes \<Rightarrow> send_answer) \<Rightarrow> bytes \<Rightarrow> tconn \<Rightarrow> (reason + nat) \<times> tconn" where
  "tc_writeSomeData send d s =
     (let limitedData = take SEND_LIMIT d
      in if \<not> tc_socket s then (Inl OtherException, s)
         else case send limitedData of
                Sent n \<Rightarrow> (Inr n, s\<lparr>tc_sent := tc_sent s @ take n limitedData\<rparr>)
              | SendError e \<Rightarrow> if e = EWOULDBLOCK \<or> e = ENOBUFS then (Inr 0, s) else (Inl ConnectionLost, s))"

definition tc_closeWriteConnection :: "reaction \<Rightarrow> tconn \<Rightarrow> reason option \<times> tconn" where
  "tc_closeWriteConnection app s =
     (let t = fd_event (SocketShutdown 1) s
      in if tc_halfCloseable t then
           case tc_react app (fd_event WriteConnectionLost t) of
             (None, u) \<Rightarrow> (None, u)
           | (Some e, u) \<Rightarrow> (None, tc_connectionLost e u)
         else (None, t))"

definition tc_doWrite :: "(bytes \<Rightarrow> send_answer) \<Rightarrow> reaction \<Rightarrow> tconn \<Rightarrow> reason option \<times> tconn" where
  "tc_doWrite send app s =
     (if tc_replaced s then (None, s)
      else fd_doWrite (tc_writeSomeData send) (tc_closeWriteConnection app) (tc_react app) s)"

definition tc_readConnectionLost :: "reason \<Rightarrow> reaction \<Rightarrow> tconn \<Rightarrow> tconn" where
  "tc_readConnectionLost why app s =
     (if \<not> tc_socket s then s
      else if tc_halfCloseable s then
        case tc_react app (fd_event ReadConnectionLost s) of
          (None, u) \<Rightarrow> u
        | (Some e, u) \<Rightarrow> tc_connectionLost e u
      else tc_connectionLost why s)"

section \<open>The reactor\<close>

definition sr_disconnectSelectable :: "reason \<Rightarrow> bool \<Rightarrow> reaction \<Rightarrow> tconn \<Rightarrow> tconn" where
  "sr_disconnectSelectable why isRead app s =
     (let t = s\<lparr>fd_reading := False\<rparr>
      in if why = ConnectionDone \<or> why = ConnectionLost then
           if isRead \<and> why = ConnectionDone then tc_readConnectionLost why app t
           else tc_connectionLost why (t\<lparr>fd_writing := False\<rparr>)
         else tc_connectionLost why (t\<lparr>fd_writing := False\<rparr>))"

datatype io = DoRead recv_answer reaction reaction | DoWrite "bytes \<Rightarrow> send_answer" reaction

fun sr_doReadOrWrite :: "io \<Rightarrow> tconn \<Rightarrow> tconn" where
  "sr_doReadOrWrite (DoRead recv app lost) s =
     (case tc_doRead recv app s of
        (None, t) \<Rightarrow> t
      | (Some why, t) \<Rightarrow> sr_disconnectSelectable why True lost t)"
| "sr_doReadOrWrite (DoWrite send app) s =
     (case tc_doWrite send app s of
        (None, t) \<Rightarrow> t
      | (Some why, t) \<Rightarrow> sr_disconnectSelectable why False ([], None) t)"

text \<open>
  The part of an iteration that concerns the descriptor: it may have been found readable,
  writable, both or neither, and the calls in between come from other descriptors.
\<close>

definition sr_doSelect :: "(recv_answer \<times> reaction \<times> reaction) option \<Rightarrow> app_call list \<Rightarrow>
    ((bytes \<Rightarrow> send_answer) \<times> reaction) option \<Rightarrow> tconn \<Rightarrow> tconn" where
  "sr_doSelect r between w s =
     (let s1 = (case r of
                  None \<Rightarrow> s
                | Some (recv, app, lost) \<Rightarrow> if \<not> fd_reading s then s else sr_doReadOrWrite (DoRead recv app lost) s);
          s2 = tc_calls between s1
      in case w of
           None \<Rightarrow> s2
         | Some (send, app) \<Rightarrow> if \<not> fd_writing s2 then s2 else sr_doReadOrWrite (DoWrite send app) s2)"

datatype tr_step =
    Calls "app_call list"
  | Select "(recv_answer \<times> reaction \<times> reaction) option" "app_call list" "((bytes \<Rightarrow> send_answer) \<times> reaction) option"
  | AbortCallDue

fun tc_step :: "tr_step \<Rightarrow> tconn \<Rightarrow> tconn" where
  "tc_step (Calls cs) s = tc_calls cs s"
| "tc_step (Select r between w) s = sr_doSelect r between w s"
| "tc_step AbortCallDue s =
     (if tc_abortCalls s = 0 then s
      else tc_connectionLost ConnectionAborted (s\<lparr>tc_abortCalls := tc_abortCalls s - 1\<rparr>))"

definition tc_run :: "tr_step list \<Rightarrow> tconn \<Rightarrow> tconn" where
  "tc_run steps s = fold tc_step steps s"

definition tc_pending :: "'a fd_scheme \<Rightarrow> bytes" where
  "tc_pending s = drop (fd_offset s) (fd_dataBuffer s) @ concat (fd_tempDataBuffer s)"


section \<open>What every step keeps\<close>

text \<open>
  \<open>tc_sound\<close>: the buffer is what was accepted and not yet taken by the socket; the flags agree
  with each other; and the protocol is told that the connection is lost once, last.
  \<open>tc_prompt\<close>: whenever there is something to send, or the connection is only waiting to be
  closed, the reactor has been asked to watch for writability.
\<close>

fun is_protocol_event :: "fd_event \<Rightarrow> bool" where
  "is_protocol_event (DataReceived d) = True"
| "is_protocol_event ReadConnectionLost = True"
| "is_protocol_event WriteConnectionLost = True"
| "is_protocol_event (ProtocolConnectionLost why) = True"
| "is_protocol_event _ = False"

fun is_lost_event :: "fd_event \<Rightarrow> bool" where
  "is_lost_event (ProtocolConnectionLost why) = True"
| "is_lost_event _ = False"

definition tc_protocol_log :: "'a fd_scheme \<Rightarrow> fd_event list" where
  "tc_protocol_log s = filter is_protocol_event (fd_log s)"

definition lost_last :: "bool \<Rightarrow> fd_event list \<Rightarrow> bool" where
  "lost_last open_still log \<longleftrightarrow>
     (if open_still then \<not> list_ex is_lost_event log
      else log \<noteq> [] \<and> is_lost_event (last log) \<and> \<not> list_ex is_lost_event (butlast log))"

definition tc_sound :: "tconn \<Rightarrow> bool" where
  "tc_sound s \<longleftrightarrow>
     fd_offset s \<le> length (fd_dataBuffer s) \<and> fd_tempDataLen s = length (concat (fd_tempDataBuffer s)) \<and>
     fd_written s = tc_sent s @ tc_pending s \<and>
     fd_connected s = tc_socket s \<and> fd_disconnected s = (\<not> tc_socket s) \<and> tc_replaced s = tc_aborting s \<and>
     lost_last (tc_socket s) (tc_protocol_log s)"

definition tc_prompt :: "tconn \<Rightarrow> bool" where
  "tc_prompt s \<longleftrightarrow>
     (fd_connected s \<and> \<not> tc_replaced s \<and> (tc_pending s \<noteq> [] \<or> fd_disconnecting s \<and> fd_producer s = None)
       \<longrightarrow> fd_writing s)"

lemmas tc_inv_defs = tc_sound_def tc_prompt_def tc_pending_def tc_protocol_log_def

lemma tc_init_inv: "tc_sound (tc_server hc)" "tc_prompt (tc_server hc)"
  by (simp_all add: tc_inv_defs tc_server_def tc_init_def fd_init_def fd.defs fd_startReading_def lost_last_def)

text \<open>A call with no effect on the buffer, the flags or the protocol's log keeps \<open>tc_sound\<close>.\<close>

definition tc_kept :: "tconn \<Rightarrow> tconn \<Rightarrow> bool" where
  "tc_kept s t \<longleftrightarrow>
     fd_dataBuffer t = fd_dataBuffer s \<and> fd_offset t = fd_offset s \<and>
     fd_tempDataBuffer t = fd_tempDataBuffer s \<and> fd_tempDataLen t = fd_tempDataLen s \<and>
     tc_sent t = tc_sent s \<and> fd_written t = fd_written s \<and> fd_connected t = fd_connected s \<and>
     fd_disconnected t = fd_disconnected s \<and> tc_socket t = tc_socket s \<and> tc_replaced t = tc_replaced s \<and>
     tc_aborting t = tc_aborting s \<and> tc_protocol_log t = tc_protocol_log s"

lemma tc_kept_sound: "tc_kept s t \<Longrightarrow> tc_sound s \<Longrightarrow> tc_sound t"
  by (simp add: tc_kept_def tc_sound_def tc_pending_def)

lemma tc_protocol_log_simps [simp]:
  "tc_protocol_log (s\<lparr>fd_log := l\<rparr>) = filter is_protocol_event l"
  by (simp add: tc_protocol_log_def)

lemma foldl_length: "foldl (\<lambda>n d. n + length d) k ds = k + length (concat ds)"
  by (induction ds arbitrary: k) simp_all

lemma tc_connectionLost_inv:
  assumes "tc_sound s" "fd_connected s = tc_socket s"
  shows "tc_sound (tc_connectionLost why s)" "\<not> fd_connected (tc_connectionLost why s)"
proof -
  show "\<not> fd_connected (tc_connectionLost why s)"
    using assms(2) by (simp add: tc_connectionLost_def tc_closeSocket_def fd_connectionLost_def fd_watch_defs Let_def
        split: option.splits)
  show "tc_sound (tc_connectionLost why s)"
    using assms(1) by (simp add: tc_connectionLost_def tc_closeSocket_def fd_connectionLost_def fd_watch_defs Let_def
        tc_sound_def tc_pending_def tc_protocol_log_def lost_last_def split: option.splits)
qed

lemma tc_sound_flags: "tc_sound s \<Longrightarrow> fd_connected s = tc_socket s" "tc_sound s \<Longrightarrow> fd_disconnected s = (\<not> tc_socket s)"
  by (simp_all add: tc_sound_def)

lemma tc_prompt_lost: "\<not> fd_connected s \<Longrightarrow> tc_prompt s"
  by (simp add: tc_prompt_def)

lemma fd_maybePause_kept:
  "tc_kept s (fd_maybePauseProducer s)" "fd_writing (fd_maybePauseProducer s) = fd_writing s"
  "fd_disconnecting (fd_maybePauseProducer s) = fd_disconnecting s"
  "fd_producer (fd_maybePauseProducer s) = fd_producer s"
  by (simp_all add: fd_maybePauseProducer_def fd_event_def tc_kept_def tc_protocol_log_def split: option.splits)

lemma fd_startWriting_inv: "tc_sound s \<Longrightarrow> tc_sound (fd_startWriting s)" "tc_prompt (fd_startWriting s)"
  by (simp_all add: tc_inv_defs fd_startWriting_def)

definition fd_accept :: "bytes list \<Rightarrow> tconn \<Rightarrow> tconn" where
  "fd_accept ds s =
     s\<lparr>fd_tempDataBuffer := fd_tempDataBuffer s @ ds,
       fd_tempDataLen := fd_tempDataLen s + length (concat ds), fd_written := fd_written s @ concat ds\<rparr>"

lemma fd_accept_inv:
  assumes "tc_sound s"
  shows "tc_sound (fd_startWriting (fd_maybePauseProducer (fd_accept ds s)))"
proof -
  have "tc_sound (fd_accept ds s)" using assms by (simp add: tc_inv_defs fd_accept_def)
  with fd_maybePause_kept(1) show ?thesis by (intro fd_startWriting_inv(1)) (rule tc_kept_sound)
qed

lemma tc_write_inv:
  assumes "tc_sound s" "tc_prompt s"
  shows "tc_sound (state_of (fd_write d s))" "tc_prompt (state_of (fd_write d s))"
  using assms fd_accept_inv [of s "[payload_bytes d]"]
  by (cases d; simp add: fd_accept_def fd_startWriting_inv(2))+

lemma tc_writeSequence_inv:
  assumes "tc_sound s" "tc_prompt s"
  shows "tc_sound (state_of (fd_writeSequence ds s))" "tc_prompt (state_of (fd_writeSequence ds s))"
  using assms fd_accept_inv [of s "map payload_bytes ds"]
  by (simp_all add: fd_writeSequence_def Let_def foldl_length fd_accept_def fd_startWriting_inv(2))

lemma tc_loseConnection_inv:
  assumes "tc_sound s" "tc_prompt s"
  shows "tc_sound (fd_loseConnection tc_connectionLost s)" "tc_prompt (fd_loseConnection tc_connectionLost s)"
proof -
  let ?s = "fd_stopWriting (fd_stopReading s)"
  have "tc_sound ?s" using assms(1) by (simp add: tc_inv_defs fd_watch_defs)
  note lost = tc_connectionLost_inv [OF this tc_sound_flags(1) [OF this], of ConnectionDone]
  have later: "tc_sound ((fd_startWriting (fd_stopReading s))\<lparr>fd_disconnecting := True\<rparr>)"
    using assms(1) by (simp add: tc_inv_defs fd_watch_defs)
  have prompt: "tc_prompt ((fd_startWriting (fd_stopReading s))\<lparr>fd_disconnecting := True\<rparr>)"
    by (simp add: tc_prompt_def fd_watch_defs)
  show "tc_sound (fd_loseConnection tc_connectionLost s)"
    unfolding fd_loseConnection_def using assms(1) lost(1) later by simp
  show "tc_prompt (fd_loseConnection tc_connectionLost s)"
    unfolding fd_loseConnection_def using assms(2) tc_prompt_lost [OF lost(2)] prompt by simp
qed

lemma tc_unregister_inv:
  assumes "tc_sound s" "tc_prompt s"
  shows "tc_sound (fd_unregisterProducer s)" "tc_prompt (fd_unregisterProducer s)"
proof -
  have t: "tc_sound (s\<lparr>fd_producer := None\<rparr>)" using assms(1) by (simp add: tc_inv_defs)
  have p: "tc_prompt (s\<lparr>fd_producer := None\<rparr>)" if "\<not> (fd_connected s \<and> fd_disconnecting s)"
    using assms(2) that by (auto simp: tc_prompt_def tc_pending_def)
  show "tc_sound (fd_unregisterProducer s)"
    using t fd_startWriting_inv(1) [OF t] by (simp add: fd_unregisterProducer_def Let_def)
  show "tc_prompt (fd_unregisterProducer s)"
    using p fd_startWriting_inv(2) by (cases "fd_connected s \<and> fd_disconnecting s") (simp_all add: fd_unregisterProducer_def Let_def)
qed

lemma tc_call_inv:
  assumes "tc_sound s" "tc_prompt s"
  shows "tc_sound (state_of (tc_call c s)) \<and> tc_prompt (state_of (tc_call c s))"
proof (cases c)
  case LoseWriteConnection
  with assms show ?thesis by (simp add: fd_loseWriteConnection_def tc_inv_defs fd_watch_defs)
next
  case AbortConnection
  with assms show ?thesis by (cases "tc_socket s"; simp add: tc_abortConnection_def tc_inv_defs fd_watch_defs)
next
  case (RegisterProducer p b)
  with assms show ?thesis by (cases "tc_socket s"; simp add: fd_registerProducer_def Let_def tc_inv_defs fd_watch_defs)
next
  case PauseReading
  with assms show ?thesis by (simp add: fd_pauseProducing_def tc_inv_defs fd_watch_defs)
next
  case ResumeReading
  with assms show ?thesis by (cases "tc_socket s"; simp add: fd_resumeProducing_def tc_inv_defs fd_watch_defs)
next
  case StopConsuming
  from tc_unregister_inv [OF assms] StopConsuming show ?thesis
    by (simp add: fd_stopConsuming_def tc_loseConnection_inv)
qed (simp_all add: assms tc_write_inv tc_writeSequence_inv tc_loseConnection_inv tc_unregister_inv fd_stopProducing_def)

lemma tc_calls_inv:
  assumes "tc_sound s" "tc_prompt s"
  shows "tc_sound (tc_calls cs s)" "tc_prompt (tc_calls cs s)"
proof -
  have "tc_sound (tc_calls cs s) \<and> tc_prompt (tc_calls cs s)"
    using assms unfolding tc_calls_def
    by (induction cs arbitrary: s) (simp_all add: tc_call_inv)
  then show "tc_sound (tc_calls cs s)" "tc_prompt (tc_calls cs s)" by simp_all
qed


text \<open>The answers the operating system may give: \<open>send\<close> takes no more than it was offered.\<close>

definition send_valid :: "(bytes \<Rightarrow> send_answer) \<Rightarrow> bool" where
  "send_valid send \<longleftrightarrow> (\<forall>d n. send d = Sent n \<longrightarrow> n \<le> length d)"

fun step_valid :: "tr_step \<Rightarrow> bool" where
  "step_valid (Select r between (Some (send, app))) = send_valid send"
| "step_valid _ = True"

lemma send_validD: "send_valid send \<Longrightarrow> send d = Sent n \<Longrightarrow> n \<le> length d"
  by (simp add: send_valid_def)

lemma tc_event_kept: "\<not> is_protocol_event e \<Longrightarrow> tc_kept s (fd_event e s)"
  by (simp add: tc_kept_def fd_event_def tc_protocol_log_def)

lemma tc_event_inv:
  assumes "tc_sound s" "tc_prompt s" "tc_socket s" "\<not> is_lost_event e"
  shows "tc_sound (fd_event e s)" "tc_prompt (fd_event e s)"
  using assms by (simp_all add: tc_inv_defs fd_event_def lost_last_def)

lemma tc_doRead_inv:
  assumes "tc_sound s" "tc_prompt s"
  shows "tc_sound (snd (tc_doRead recv app s))" "tc_prompt (snd (tc_doRead recv app s))"
  using assms tc_event_inv [OF assms, of "DataReceived d" for d]
  by (simp_all add: tc_doRead_def tc_dataReceived_def tc_react_def tc_calls_inv split: recv_answer.splits)

lemma tc_readConnectionLost_inv:
  assumes "tc_sound s" "tc_prompt s"
  shows "tc_sound (tc_readConnectionLost why app s)" "tc_prompt (tc_readConnectionLost why app s)"
  using assms tc_event_inv [OF assms, of ReadConnectionLost] tc_connectionLost_inv tc_prompt_lost tc_sound_flags(1)
  by (simp_all add: tc_readConnectionLost_def tc_react_def tc_calls_inv split: option.splits)

lemma tc_sound_unwatch: "tc_sound (s\<lparr>fd_reading := b, fd_writing := c\<rparr>) = tc_sound s"
    "tc_sound (s\<lparr>fd_reading := b\<rparr>) = tc_sound s"
  by (simp_all add: tc_inv_defs)

lemma tc_disconnect_inv:
  assumes "tc_sound s" "isRead \<Longrightarrow> tc_prompt s"
  shows "tc_sound (sr_disconnectSelectable why isRead app s)" "tc_prompt (sr_disconnectSelectable why isRead app s)"
proof -
  let ?t = "s\<lparr>fd_reading := False\<rparr>" and ?u = "s\<lparr>fd_reading := False, fd_writing := False\<rparr>"
  have t: "tc_sound ?t" and u: "tc_sound ?u" using assms(1) by (simp_all add: tc_sound_unwatch)
  have p: "isRead \<Longrightarrow> tc_prompt ?t" using assms(2) by (simp add: tc_prompt_def tc_pending_def)
  note lost = tc_connectionLost_inv [OF u tc_sound_flags(1) [OF u]]
  show "tc_sound (sr_disconnectSelectable why isRead app s)"
    using lost(1) tc_readConnectionLost_inv(1) [OF t p] by (simp add: sr_disconnectSelectable_def Let_def)
  show "tc_prompt (sr_disconnectSelectable why isRead app s)"
    using tc_prompt_lost [OF lost(2)] tc_readConnectionLost_inv(2) [OF t p]
    by (simp add: sr_disconnectSelectable_def Let_def)
qed

text \<open>\<open>doWrite\<close>, in three parts: moving the data into one buffer, sending, and what follows when all is sent.\<close>

definition fd_gather :: "tconn \<Rightarrow> tconn" where
  "fd_gather s =
     (if int (length (fd_dataBuffer s)) - int (fd_offset s) < int SEND_LIMIT then
        s\<lparr>fd_dataBuffer := drop (fd_offset s) (fd_dataBuffer s) @ concat (fd_tempDataBuffer s),
          fd_offset := 0, fd_tempDataBuffer := [], fd_tempDataLen := 0\<rparr>
      else s)"

definition fd_drained :: "tconn \<Rightarrow> tconn" where
  "fd_drained s = fd_stopWriting (s\<lparr>fd_dataBuffer := [], fd_offset := 0\<rparr>)"

definition fd_whenDrained :: "reaction \<Rightarrow> tconn \<Rightarrow> reason option \<times> tconn" where
  "fd_whenDrained app s =
     (case (fd_producer s, \<not> fd_streamingProducer s \<or> fd_producerPaused s) of
        (Some p, True) \<Rightarrow> tc_react app (fd_event (ProducerResumed p) (s\<lparr>fd_producerPaused := False\<rparr>))
      | _ \<Rightarrow>
          if fd_disconnecting s then (Some ConnectionDone, s)
          else if fd_writeDisconnecting s then tc_closeWriteConnection app (s\<lparr>fd_writeDisconnected := True\<rparr>)
          else (None, s))"

definition fd_offered :: "'a fd_scheme \<Rightarrow> bytes" where
  "fd_offered s = take SEND_LIMIT (drop (fd_offset s) (fd_dataBuffer s))"

definition fd_afterSend :: "reaction \<Rightarrow> nat \<Rightarrow> tconn \<Rightarrow> reason option \<times> tconn" where
  "fd_afterSend app n s =
     (let t = s\<lparr>fd_offset := fd_offset s + n\<rparr>
      in if fd_offset t = length (fd_dataBuffer t) \<and> fd_tempDataLen t = 0 then fd_whenDrained app (fd_drained t)
         else (None, t))"

lemma fd_doWrite_split:
  "fd_doWrite send (tc_closeWriteConnection app) (tc_react app) s =
     (case send (drop (fd_offset (fd_gather s)) (fd_dataBuffer (fd_gather s))) (fd_gather s) of
        (Inl e, t) \<Rightarrow> (Some e, t)
      | (Inr n, t) \<Rightarrow> fd_afterSend app n t)"
proof -
  have offered: "(if fd_offset t \<noteq> 0 then send (drop (fd_offset t) (fd_dataBuffer t)) t else send (fd_dataBuffer t) t)
      = send (drop (fd_offset t) (fd_dataBuffer t)) t" for t
    by simp
  show ?thesis
    unfolding fd_doWrite_def fd_gather_def [symmetric] Let_def offered fd_postLoseConnection_def
      fd_afterSend_def fd_whenDrained_def fd_drained_def
    by (simp only: prod.case_eq_if)
qed

lemma tc_doWrite_cases:
  assumes "\<not> tc_replaced s"
  shows "tc_doWrite send app s =
    (let t = fd_gather s
     in if \<not> tc_socket t then (Some OtherException, t)
        else case send (fd_offered t) of
          SendError e \<Rightarrow>
            if e = EWOULDBLOCK \<or> e = ENOBUFS then fd_afterSend app 0 t else (Some ConnectionLost, t)
        | Sent n \<Rightarrow> fd_afterSend app n (t\<lparr>tc_sent := tc_sent t @ take n (fd_offered t)\<rparr>))"
  using assms
  by (simp add: tc_doWrite_def fd_doWrite_split tc_writeSomeData_def fd_offered_def Let_def split: send_answer.splits)


lemma fd_gather_simps [simp]:
  "tc_socket (fd_gather s) = tc_socket s" "tc_pending (fd_gather s) = tc_pending s"
  "fd_written (fd_gather s) = fd_written s" "tc_sent (fd_gather s) = tc_sent s"
  "fd_writing (fd_gather s) = fd_writing s" "tc_replaced (fd_gather s) = tc_replaced s"
  "fd_disconnecting (fd_gather s) = fd_disconnecting s" "fd_producer (fd_gather s) = fd_producer s"
  "fd_connected (fd_gather s) = fd_connected s" "fd_log (fd_gather s) = fd_log s"
  by (simp_all add: fd_gather_def tc_pending_def)

lemma fd_gather_inv: "tc_sound s \<Longrightarrow> tc_sound (fd_gather s)" "tc_prompt (fd_gather s) = tc_prompt s"
proof -
  show "tc_sound s \<Longrightarrow> tc_sound (fd_gather s)" by (simp add: fd_gather_def tc_inv_defs)
  show "tc_prompt (fd_gather s) = tc_prompt s" by (simp add: tc_prompt_def)
qed

lemma fd_took_sound:
  assumes "tc_sound s" "n \<le> length (fd_offered s)"
  shows "tc_sound (s\<lparr>tc_sent := tc_sent s @ take n (fd_offered s), fd_offset := fd_offset s + n\<rparr>)"
proof -
  let ?r = "drop (fd_offset s) (fd_dataBuffer s)"
  have le: "n \<le> SEND_LIMIT" "n \<le> length ?r" using assms(2) by (simp_all add: fd_offered_def)
  then have took: "take n (fd_offered s) = take n ?r" by (simp add: fd_offered_def min_absorb1)
  have "drop (fd_offset s + n) (fd_dataBuffer s) = drop n ?r" by (simp add: add.commute)
  then have "take n (fd_offered s) @ drop (fd_offset s + n) (fd_dataBuffer s) = ?r"
    using append_take_drop_id [of n ?r] took by metis
  then have sent: "tc_sent s @ tc_pending s
      = (tc_sent s @ take n (fd_offered s)) @ drop (fd_offset s + n) (fd_dataBuffer s) @ concat (fd_tempDataBuffer s)"
    unfolding tc_pending_def by (metis append_assoc)
  have "fd_offset s \<le> length (fd_dataBuffer s)" using assms(1) by (simp add: tc_sound_def)
  with le(2) have "fd_offset s + n \<le> length (fd_dataBuffer s)" by simp
  with assms(1) sent show ?thesis unfolding tc_sound_def by (simp add: tc_pending_def tc_protocol_log_def)
qed

lemma fd_drained_sound:
  assumes "tc_sound s" "fd_offset s = length (fd_dataBuffer s)" "fd_tempDataLen s = 0"
  shows "tc_sound (fd_drained s)" "tc_pending (fd_drained s) = []"
proof -
  have "concat (fd_tempDataBuffer s) = []" using assms(1,3) by (simp add: tc_sound_def)
  then show "tc_pending (fd_drained s) = []" by (simp add: fd_drained_def tc_pending_def fd_stopWriting_def)
  from \<open>concat (fd_tempDataBuffer s) = []\<close> assms show "tc_sound (fd_drained s)"
    by (simp add: tc_inv_defs fd_drained_def fd_stopWriting_def)
qed

lemma tc_closeWrite_inv:
  assumes "tc_sound s" "tc_prompt s" "tc_socket s"
  shows "tc_sound (snd (tc_closeWriteConnection app s))" "tc_prompt (snd (tc_closeWriteConnection app s))"
proof -
  let ?t = "fd_event (SocketShutdown 1) s"
  have t: "tc_sound ?t" "tc_prompt ?t" "tc_socket ?t"
    using assms tc_event_inv [OF assms, of "SocketShutdown 1"] by (simp_all add: fd_event_def)
  note u = tc_event_inv [OF t, of WriteConnectionLost, simplified]
  show "tc_sound (snd (tc_closeWriteConnection app s))" "tc_prompt (snd (tc_closeWriteConnection app s))"
    using t(1,2) tc_calls_inv [OF u] tc_connectionLost_inv tc_prompt_lost tc_sound_flags(1)
    by (simp_all add: tc_closeWriteConnection_def Let_def tc_react_def split: option.splits)
qed

lemma fd_whenDrained_inv:
  assumes "tc_sound s" "tc_pending s = []" "tc_socket s"
  shows "tc_sound (snd (fd_whenDrained app s))"
    "fst (fd_whenDrained app s) = None \<Longrightarrow> tc_prompt (snd (fd_whenDrained app s))"
proof -
  let ?r = "\<lambda>p. fd_event (ProducerResumed p) (s\<lparr>fd_producerPaused := False\<rparr>)" and ?w = "s\<lparr>fd_writeDisconnected := True\<rparr>"
  have r: "tc_sound (?r p)" for p using assms(1) by (simp add: tc_inv_defs fd_event_def)
  have rp: "tc_prompt (?r p)" if "fd_producer s = Some p" for p
    using assms(2) that by (simp add: tc_prompt_def tc_pending_def fd_event_def)
  have w: "tc_sound ?w" using assms(1) by (simp add: tc_inv_defs)
  have wp: "tc_prompt ?w" if "\<not> fd_disconnecting s" using assms(2) that by (simp add: tc_prompt_def tc_pending_def)
  have p: "tc_prompt s" if "\<not> fd_disconnecting s" using assms(2) that by (simp add: tc_prompt_def)
  note cw = tc_closeWrite_inv [OF w wp, of app]
  show "tc_sound (snd (fd_whenDrained app s))"
    using assms cw(1) tc_calls_inv(1) [OF r rp]
    by (simp add: fd_whenDrained_def tc_react_def split: option.splits bool.splits)
  show "tc_prompt (snd (fd_whenDrained app s))" if "fst (fd_whenDrained app s) = None"
    using assms that cw(2) tc_calls_inv(2) [OF r rp] p
    by (auto simp: fd_whenDrained_def tc_react_def split: option.splits bool.splits if_splits)
qed

lemma fd_afterSend_inv:
  assumes "tc_sound (s\<lparr>fd_offset := fd_offset s + n\<rparr>)" "fd_writing s" "tc_socket s"
  shows "tc_sound (snd (fd_afterSend app n s))"
    "fst (fd_afterSend app n s) = None \<Longrightarrow> tc_prompt (snd (fd_afterSend app n s))"
proof -
  let ?t = "s\<lparr>fd_offset := fd_offset s + n\<rparr>"
  have p: "tc_prompt ?t" using assms(2) by (simp add: tc_prompt_def)
  have sk: "tc_socket (fd_drained ?t)" using assms(3) by (simp add: fd_drained_def fd_stopWriting_def)
  note d = fd_drained_sound [OF assms(1)]
  note w = fd_whenDrained_inv [OF d(1,2) sk, of app]
  show "tc_sound (snd (fd_afterSend app n s))"
    unfolding fd_afterSend_def Let_def using w(1) assms(1) by simp
  show "tc_prompt (snd (fd_afterSend app n s))" if "fst (fd_afterSend app n s) = None"
  proof (cases "fd_offset ?t = length (fd_dataBuffer ?t) \<and> fd_tempDataLen ?t = 0")
    case True
    with that w(2) show ?thesis unfolding fd_afterSend_def Let_def by simp
  next
    case False
    with p show ?thesis unfolding fd_afterSend_def Let_def if_not_P [OF False] by simp
  qed
qed

lemma tc_doWrite_inv:
  assumes "tc_sound s" "tc_prompt s" "fd_writing s" "send_valid send"
  shows "tc_sound (snd (tc_doWrite send app s))"
    "fst (tc_doWrite send app s) = None \<Longrightarrow> tc_prompt (snd (tc_doWrite send app s))"
proof -
  let ?t = "fd_gather s" and ?u = "\<lambda>n. (fd_gather s)\<lparr>tc_sent := tc_sent s @ take n (fd_offered (fd_gather s))\<rparr>"
  note g = fd_gather_inv(1) [OF assms(1)]
  have z: "tc_sound (?t\<lparr>fd_offset := fd_offset ?t + 0\<rparr>)" using g by (simp add: tc_inv_defs)
  have took: "tc_sound ((?u n)\<lparr>fd_offset := fd_offset (?u n) + n\<rparr>)" if "send (fd_offered ?t) = Sent n" for n
    using fd_took_sound [OF g send_validD [OF assms(4) that]] by simp
  note a0 = fd_afterSend_inv [OF z, of app]
  note an = fd_afterSend_inv [OF took, of _ app]
  have "tc_sound (snd (tc_doWrite send app s)) \<and> (fst (tc_doWrite send app s) = None \<longrightarrow> tc_prompt (snd (tc_doWrite send app s)))"
  proof (cases "tc_replaced s")
    case True
    with assms(1,2) show ?thesis by (simp add: tc_doWrite_def)
  next
    case False
    with g a0 an assms(3) show ?thesis
      unfolding tc_doWrite_cases [OF False] Let_def by (simp split: send_answer.splits)
  qed
  then show "tc_sound (snd (tc_doWrite send app s))"
    "fst (tc_doWrite send app s) = None \<Longrightarrow> tc_prompt (snd (tc_doWrite send app s))" by simp_all
qed

lemma sr_doReadOrWrite_inv:
  assumes "tc_sound s" "tc_prompt s"
  shows "tc_sound (sr_doReadOrWrite (DoRead recv app lost) s) \<and> tc_prompt (sr_doReadOrWrite (DoRead recv app lost) s)"
    and "fd_writing s \<Longrightarrow> send_valid send \<Longrightarrow>
      tc_sound (sr_doReadOrWrite (DoWrite send app) s) \<and> tc_prompt (sr_doReadOrWrite (DoWrite send app) s)"
proof -
  note rd = tc_doRead_inv [OF assms, of recv app]
  show "tc_sound (sr_doReadOrWrite (DoRead recv app lost) s) \<and> tc_prompt (sr_doReadOrWrite (DoRead recv app lost) s)"
    using rd tc_disconnect_inv [OF rd] by (simp add: prod.case_eq_if split: option.split)
  show "tc_sound (sr_doReadOrWrite (DoWrite send app) s) \<and> tc_prompt (sr_doReadOrWrite (DoWrite send app) s)"
    if "fd_writing s" "send_valid send"
  proof -
    note wr = tc_doWrite_inv [OF assms that, of app]
    have "tc_sound (sr_disconnectSelectable why False ([], None) (snd (tc_doWrite send app s))) \<and>
        tc_prompt (sr_disconnectSelectable why False ([], None) (snd (tc_doWrite send app s)))" for why
      using tc_disconnect_inv [OF wr(1)] by simp
    with wr show ?thesis by (simp add: prod.case_eq_if split: option.split)
  qed
qed

lemma tc_step_inv:
  assumes "tc_sound s" "tc_prompt s" "step_valid st"
  shows "tc_sound (tc_step st s) \<and> tc_prompt (tc_step st s)"
proof (cases st)
  case (Calls cs)
  with assms show ?thesis by (simp add: tc_calls_inv)
next
  case AbortCallDue
  have "tc_sound (s\<lparr>tc_abortCalls := tc_abortCalls s - 1\<rparr>)" using assms(1) by (simp add: tc_inv_defs)
  from tc_connectionLost_inv [OF this tc_sound_flags(1) [OF this]] AbortCallDue assms show ?thesis
    by (simp add: tc_prompt_lost)
next
  case (Select r between w)
  define s1 where "s1 = (case r of None \<Rightarrow> s | Some (recv, app, lost) \<Rightarrow>
      if \<not> fd_reading s then s else sr_doReadOrWrite (DoRead recv app lost) s)"
  have "tc_sound s1 \<and> tc_prompt s1"
    using assms(1,2) sr_doReadOrWrite_inv(1) [OF assms(1,2)] unfolding s1_def
    by (simp del: sr_doReadOrWrite.simps split: option.splits prod.splits)
  then have s2: "tc_sound (tc_calls between s1)" "tc_prompt (tc_calls between s1)" by (simp_all add: tc_calls_inv)
  have step: "tc_step st s = (case w of None \<Rightarrow> tc_calls between s1 | Some (send, app) \<Rightarrow>
      if \<not> fd_writing (tc_calls between s1) then tc_calls between s1 else sr_doReadOrWrite (DoWrite send app) (tc_calls between s1))"
    by (simp add: Select sr_doSelect_def Let_def s1_def [symmetric] del: sr_doReadOrWrite.simps)
  show ?thesis
  proof (cases w)
    case None
    with s2 show ?thesis by (simp add: step)
  next
    case (Some sa)
    with assms(3) Select have "send_valid (fst sa)" by (cases sa) simp
    with Some s2 sr_doReadOrWrite_inv(2) [OF s2] show ?thesis
      by (simp add: step prod.case_eq_if del: sr_doReadOrWrite.simps)
  qed
qed

lemma tc_run_inv:
  assumes "tc_sound s" "tc_prompt s" "\<And>st. st \<in> set steps \<Longrightarrow> step_valid st"
  shows "tc_sound (tc_run steps s)" "tc_prompt (tc_run steps s)"
proof -
  have "tc_sound (tc_run steps s) \<and> tc_prompt (tc_run steps s)"
    using assms unfolding tc_run_def by (induction steps arbitrary: s) (simp_all add: tc_step_inv)
  then show "tc_sound (tc_run steps s)" "tc_prompt (tc_run steps s)" by simp_all
qed


section \<open>Closing after the last byte\<close>

text \<open>An operating system that takes at least one byte of what it is offered.\<close>

definition send_progress :: "(bytes \<Rightarrow> send_answer) \<Rightarrow> bool" where
  "send_progress send \<longleftrightarrow> (\<forall>d. \<exists>n. send d = Sent n \<and> n \<le> length d \<and> (d \<noteq> [] \<longrightarrow> 0 < n))"

definition write_ready :: "(bytes \<Rightarrow> send_answer) \<Rightarrow> tr_step" where
  "write_ready send = Select None [] (Some (send, ([], None)))"

text \<open>The connection only waits for its buffer to be sent.\<close>

definition tc_closing :: "tconn \<Rightarrow> bool" where
  "tc_closing s \<longleftrightarrow> tc_sound s \<and> tc_prompt s \<and> fd_connected s \<and> \<not> tc_replaced s \<and> fd_disconnecting s \<and> fd_producer s = None"

lemma fd_offered_gather:
  assumes "tc_sound s" "tc_pending s \<noteq> []"
  shows "fd_offered (fd_gather s) \<noteq> []"
  using assms by (auto simp: fd_gather_def fd_offered_def tc_pending_def SEND_LIMIT_def)

lemma write_ready_step:
  assumes "fd_writing s"
  shows "tc_step (write_ready send) s = sr_doReadOrWrite (DoWrite send ([], None)) s"
  using assms by (simp add: write_ready_def sr_doSelect_def tc_calls_def Let_def del: sr_doReadOrWrite.simps)

lemma write_ready_idle: "\<not> fd_writing s \<Longrightarrow> tc_step (write_ready send) s = s"
  by (simp add: write_ready_def sr_doSelect_def tc_calls_def Let_def)

definition tc_finished :: "tconn \<Rightarrow> tconn \<Rightarrow> bool" where
  "tc_finished s t \<longleftrightarrow> \<not> fd_connected t \<and> \<not> fd_writing t \<and> tc_sent t = fd_written s \<and>
     tc_protocol_log t = tc_protocol_log s @ [ProtocolConnectionLost ConnectionDone]"

lemma tc_connectionLost_done:
  assumes "tc_socket s" "fd_producer s = None"
  shows "tc_connectionLost ConnectionDone s = s\<lparr>fd_disconnected := True, fd_connected := False, fd_reading := False,
    fd_writing := False, fd_log := fd_log s @ [SocketShutdown 2, SocketClosed, ProtocolConnectionLost ConnectionDone],
    tc_socket := False\<rparr>"
  using assms by (simp add: tc_connectionLost_def tc_closeSocket_def fd_connectionLost_def fd_watch_defs Let_def)

lemma tc_closing_step:
  assumes "tc_closing s" "send_progress send"
  shows "tc_finished s (tc_step (write_ready send) s) \<or>
    tc_closing (tc_step (write_ready send) s) \<and> fd_written (tc_step (write_ready send) s) = fd_written s \<and>
    length (tc_pending (tc_step (write_ready send) s)) < length (tc_pending s) \<and>
    tc_protocol_log (tc_step (write_ready send) s) = tc_protocol_log s"
proof -
  let ?t = "fd_gather s"
  have sound: "tc_sound s" and prompt: "tc_prompt s"
    and flags: "\<not> tc_replaced s" "fd_disconnecting s" "fd_producer s = None" "fd_connected s"
    using assms(1) by (simp_all add: tc_closing_def)
  have writing: "fd_writing s" using prompt flags by (simp add: tc_prompt_def)
  have open_still: "tc_socket s" using tc_sound_flags(1) [OF sound] flags(4) by simp
  note g = fd_gather_inv(1) [OF sound]
  obtain n where n: "send (fd_offered ?t) = Sent n" "n \<le> length (fd_offered ?t)" "fd_offered ?t \<noteq> [] \<longrightarrow> 0 < n"
    using assms(2) by (auto simp: send_progress_def)
  define u where "u = ?t\<lparr>tc_sent := tc_sent s @ take n (fd_offered ?t), fd_offset := fd_offset ?t + n\<rparr>"
  have u: "tc_sound u" using fd_took_sound [OF g n(2)] by (simp add: u_def)
  have same: "fd_written u = fd_written s" "fd_log u = fd_log s" "tc_socket u" "fd_disconnecting u" "fd_producer u = None"
    "fd_writing u" "fd_connected u" "\<not> tc_replaced u" "tc_sent u = tc_sent s @ take n (fd_offered ?t)"
    using open_still flags writing by (simp_all add: u_def)
  have dw: "tc_doWrite send ([], None) s =
      (if fd_offset u = length (fd_dataBuffer u) \<and> fd_tempDataLen u = 0 then (Some ConnectionDone, fd_drained u) else (None, u))"
    using open_still flags n(1)
    by (simp add: tc_doWrite_cases [OF flags(1)] Let_def fd_afterSend_def u_def fd_whenDrained_def fd_drained_def
        fd_stopWriting_def)
  show ?thesis
  proof (cases "fd_offset u = length (fd_dataBuffer u) \<and> fd_tempDataLen u = 0")
    case True
    then have "tc_pending u = []" using u by (simp add: tc_pending_def tc_sound_def)
    with u same(1) have "tc_sent u = fd_written s" by (simp add: tc_sound_def)
    moreover have "tc_step (write_ready send) s = sr_disconnectSelectable ConnectionDone False ([], None) (fd_drained u)"
      using True by (simp add: write_ready_step [OF writing] dw)
    ultimately show ?thesis using same
      by (simp add: sr_disconnectSelectable_def Let_def tc_connectionLost_done fd_drained_def fd_stopWriting_def
          tc_finished_def tc_protocol_log_def)
  next
    case False
    have "tc_doWrite send ([], None) s = (None, u)" unfolding dw if_not_P [OF False] by simp
    then have step: "tc_step (write_ready send) s = u" by (simp add: write_ready_step [OF writing])
    have "tc_pending u \<noteq> []" using False u by (auto simp: tc_pending_def tc_sound_def)
    have split: "tc_sent s @ tc_pending s = tc_sent s @ take n (fd_offered ?t) @ tc_pending u"
      using sound u same(1,9) by (simp add: tc_sound_def)
    then have split: "tc_pending s = take n (fd_offered ?t) @ tc_pending u" by simp
    with \<open>tc_pending u \<noteq> []\<close> have "tc_pending s \<noteq> []" by auto
    with n have "length (take n (fd_offered ?t)) > 0" using fd_offered_gather [OF sound] by simp
    then have shorter: "length (tc_pending u) < length (tc_pending s)" unfolding split length_append by linarith
    from u same have "tc_closing u" by (simp add: tc_closing_def tc_prompt_def)
    with same(1,2) shorter show ?thesis by (simp add: step tc_protocol_log_def)
  qed
qed

lemma tc_run_Cons [simp]: "tc_run (st # steps) s = tc_run steps (tc_step st s)" "tc_run [] s = s"
  by (simp_all add: tc_run_def)

lemma tc_finished_stays: "tc_finished s t \<Longrightarrow> tc_run (map write_ready sends) t = t"
  by (induction sends) (simp_all add: tc_finished_def write_ready_idle)

lemma tc_closing_run:
  assumes "tc_closing s" "\<And>send. send \<in> set sends \<Longrightarrow> send_progress send"
  shows "if fd_connected (tc_run (map write_ready sends) s) then length sends \<le> length (tc_pending s)
    else tc_finished s (tc_run (map write_ready sends) s)"
  using assms
proof (induction sends arbitrary: s)
  case Nil
  then show ?case by (simp add: tc_closing_def)
next
  case (Cons send sends)
  let ?t = "tc_step (write_ready send) s"
  from tc_closing_step [OF Cons.prems(1), of send] Cons.prems(2)
  consider "tc_finished s ?t"
    | "tc_closing ?t" "fd_written ?t = fd_written s" "length (tc_pending ?t) < length (tc_pending s)"
      "tc_protocol_log ?t = tc_protocol_log s" by auto
  then show ?case
  proof cases
    case 1
    then show ?thesis by (simp add: tc_finished_stays [OF 1]) (simp add: tc_finished_def)
  next
    case 2
    from Cons.IH [OF 2(1)] Cons.prems(2) 2(2-4) show ?thesis
      by (auto simp: tc_finished_def split: if_splits)
  qed
qed


section \<open>A reliable sender\<close>

text \<open>
  What whoever frames messages needs of a transport: whatever is done to it, what was
  written to it is what it has sent followed by what it still holds.
\<close>

locale byte_sender =
  fixes step :: "'op \<Rightarrow> 'c \<Rightarrow> 'c"
    and admissible :: "'op \<Rightarrow> bool"
    and good :: "'c \<Rightarrow> bool"
    and sent :: "'c \<Rightarrow> bytes"
    and pending :: "'c \<Rightarrow> bytes"
    and written :: "'c \<Rightarrow> bytes"
  assumes good_step: "good s \<Longrightarrow> admissible x \<Longrightarrow> good (step x s)"
    and good_written: "good s \<Longrightarrow> written s = sent s @ pending s"
begin

lemma run_good: "good s \<Longrightarrow> \<forall>x \<in> set xs. admissible x \<Longrightarrow> good (fold step xs s)"
  by (induction xs arbitrary: s) (simp_all add: good_step)

lemma run_written: "good s \<Longrightarrow> \<forall>x \<in> set xs. admissible x \<Longrightarrow>
    written (fold step xs s) = sent (fold step xs s) @ pending (fold step xs s)"
  by (simp add: run_good good_written)

end

definition tc_good :: "tconn \<Rightarrow> bool" where
  "tc_good s \<longleftrightarrow> tc_sound s \<and> tc_prompt s"

interpretation tcp: byte_sender tc_step step_valid tc_good tc_sent tc_pending fd_written
  by unfold_locales (simp_all add: tc_good_def tc_step_inv, simp add: tc_sound_def)

lemma tc_server_good: "tc_good (tc_server hc)"
  by (simp add: tc_good_def tc_init_inv)

lemma tc_run_good: "tc_good s \<Longrightarrow> \<forall>st \<in> set steps. step_valid st \<Longrightarrow> tc_good (tc_run steps s)"
  unfolding tc_run_def by (rule tcp.run_good)

section \<open>The properties of a connection\<close>

text \<open>
  C3: whatever the application, the producer, the other descriptors and the operating
  system do, the bytes that the socket took followed by the bytes in the two buffers are
  exactly the bytes that were accepted for writing, in order; while any are left on an open
  connection that was not aborted, the reactor is asked to watch for writability; and the
  protocol is told that the connection is lost exactly once, after everything else it is told.
\<close>

theorem connection_delivery:
  assumes "\<forall>st \<in> set steps. step_valid st"
  shows "let s = tc_run steps (tc_server hc) in
    fd_written s = tc_sent s @ tc_pending s \<and>
    (fd_connected s \<and> \<not> tc_aborting s \<and> tc_pending s \<noteq> [] \<longrightarrow> fd_writing s) \<and>
    lost_last (fd_connected s) (tc_protocol_log s)"
proof -
  let ?s = "tc_run steps (tc_server hc)"
  from tc_run_good [OF tc_server_good assms] have s: "tc_sound ?s" "tc_prompt ?s" by (simp_all add: tc_good_def)
  from s(1) have "fd_written ?s = tc_sent ?s @ tc_pending ?s" "tc_replaced ?s = tc_aborting ?s"
    "lost_last (fd_connected ?s) (tc_protocol_log ?s)" by (simp_all add: tc_sound_def)
  with s(2) show ?thesis by (simp add: Let_def tc_prompt_def)
qed

abbreviation two_bytes :: "bytes \<Rightarrow> send_answer" where
  "two_bytes \<equiv> \<lambda>d. Sent (min 2 (length d))"

theorem connection_delivery_witness:
  "let s = tc_run [Calls [Write (Data ''hello''), LoseConnection], write_ready two_bytes, write_ready two_bytes] (tc_server False)
   in fd_written s = tc_sent s @ tc_pending s \<and> lost_last (fd_connected s) (tc_protocol_log s)"
  using connection_delivery [of "[Calls [Write (Data ''hello''), LoseConnection], write_ready two_bytes, write_ready two_bytes]" False]
  unfolding Let_def by (simp add: write_ready_def send_valid_def del: tc_run_Cons)

text \<open>
  C4: \<open>loseConnection\<close> loses no data.  Once it has been called and no producer is registered,
  every time the socket is writable brings the connection closer to its end; it ends with
  everything that was written sent and then, once, \<open>connectionLost\<close> for \<open>ConnectionDone\<close>; and
  one more readiness than there are bytes left is enough.
\<close>

theorem connection_close_flushes:
  assumes "\<forall>st \<in> set steps. step_valid st" and s: "s = tc_run steps (tc_server hc)"
    and "fd_connected s" "\<not> tc_aborting s" "fd_disconnecting s" "fd_producer s = None"
    and "\<forall>send \<in> set sends. send_progress send"
  shows "let t = tc_run (map write_ready sends) s in
    if fd_connected t then length sends \<le> length (tc_pending s)
    else tc_sent t = fd_written s \<and>
      tc_protocol_log t = tc_protocol_log s @ [ProtocolConnectionLost ConnectionDone]"
proof -
  from tc_run_good [OF tc_server_good assms(1)] s have inv: "tc_sound s" "tc_prompt s" by (simp_all add: tc_good_def)
  then have "tc_replaced s = tc_aborting s" by (simp add: tc_sound_def)
  with inv assms(3-6) have "tc_closing s" by (simp add: tc_closing_def)
  from tc_closing_run [OF this, of sends] assms(7) show ?thesis
    by (auto simp: Let_def tc_finished_def split: if_splits)
qed

lemma two_bytes_progress: "send_progress two_bytes"
  by (simp add: send_progress_def)

theorem connection_close_flushes_witness:
  "let s = tc_run [Calls [Write (Data ''hi''), LoseConnection]] (tc_server False);
       t = tc_run (map write_ready [two_bytes, two_bytes, two_bytes]) s
   in tc_sent t = ''hi'' \<and> tc_protocol_log t = [ProtocolConnectionLost ConnectionDone]"
proof -
  let ?s = "tc_run [Calls [Write (Data ''hi''), LoseConnection]] (tc_server False)"
  have s: "fd_connected ?s" "\<not> tc_aborting ?s" "fd_disconnecting ?s" "fd_producer ?s = None"
    "fd_written ?s = ''hi''" "tc_protocol_log ?s = []" "length (tc_pending ?s) = 2"
    by (simp_all add: tc_server_def tc_init_def fd_init_def fd.defs tc_calls_def fd_watch_defs fd_maybePauseProducer_def
        fd_loseConnection_def tc_protocol_log_def tc_pending_def)
  from connection_close_flushes [OF _ refl s(1-4), of "[two_bytes, two_bytes, two_bytes]"] two_bytes_progress s(5-7)
  show ?thesis by (simp add: Let_def del: tc_run_Cons split: if_splits)
qed

text \<open>
  A streaming producer that has not been paused does not keep the connection open: when its
  last bytes are sent it is stopped, although the documentation of \<open>loseConnection\<close> says that
  the connection is closed only after the producer has been unregistered.
\<close>

lemma streaming_producer_dropped:
  "let s = tc_run [Calls [RegisterProducer 7 True, Write (Data ''x''), LoseConnection], write_ready two_bytes] (tc_server False)
   in \<not> fd_connected s \<and> ProducerStopped 7 \<in> set (fd_log s)"
  by (simp add: tc_server_def tc_init_def fd_init_def fd.defs tc_calls_def fd_watch_defs fd_maybePauseProducer_def
      fd_loseConnection_def fd_registerProducer_def write_ready_def sr_doSelect_def tc_doWrite_def fd_doWrite_def
      tc_writeSomeData_def SEND_LIMIT_def Let_def fd_isSendBufferFull_def bufferSize_def fd_postLoseConnection_def
      sr_disconnectSelectable_def tc_connectionLost_def tc_closeSocket_def fd_connectionLost_def)

text \<open>
  \<open>loseWriteConnection\<close> does not look whether the connection is still there: after it was lost
  it puts the descriptor back among those the reactor watches.
\<close>

lemma lose_write_after_lost:
  "let s = tc_run [Select (Some (Received [], ([], None), ([], None))) [] None, Calls [LoseWriteConnection]] (tc_server False)
   in \<not> fd_connected s \<and> \<not> tc_socket s \<and> fd_writing s"
  by (simp add: tc_server_def tc_init_def fd_init_def fd.defs tc_calls_def fd_watch_defs sr_doSelect_def Let_def
      tc_doRead_def tc_dataReceived_def sr_disconnectSelectable_def tc_readConnectionLost_def tc_connectionLost_def
      tc_closeSocket_def fd_connectionLost_def fd_loseWriteConnection_def)

end
