(* ===== verification/Wire.thy ===== *)
theory Wire
  imports Netstring LineOnly Connections
begin

text \<open>
  Receivers and transports together: messages that are framed and written to a connection on
  one side, and the chunks that a connection on the other side reads, handed to a receiver.
  The locale joins the contract of a receiver with that of a sender; it is interpreted for
  netstrings and for delimited lines over TCP connections.
\<close>

section \<open>Messages over a byte sender\<close>

locale message_channel =
  framed_receiver recv view safe frame accepted boundary delivered +
  byte_sender step admissible good sent pending written
  for recv :: "bytes \<Rightarrow> 's \<Rightarrow> 's" and view :: "'s \<Rightarrow> 'v" and safe :: "bytes \<Rightarrow> 's \<Rightarrow> bool"
    and frame :: "'m \<Rightarrow> bytes" and accepted :: "'m \<Rightarrow> bool" and boundary :: "'s \<Rightarrow> bool"
    and delivered :: "'s \<Rightarrow> 'm list"
    and step :: "'op \<Rightarrow> 'c \<Rightarrow> 'c" and admissible :: "'op \<Rightarrow> bool" and good :: "'c \<Rightarrow> bool"
    and sent :: "'c \<Rightarrow> bytes" and pending :: "'c \<Rightarrow> bytes" and written :: "'c \<Rightarrow> bytes"
begin

text \<open>What was framed, written and flushed is delivered, whatever chunks it arrives in.\<close>

lemma delivered_all:
  assumes "good s" "\<forall>x \<in> set xs. admissible x" "written (fold step xs s) = concat (map frame ms)"
    and "pending (fold step xs s) = []" "concat chunks = sent (fold step xs s)"
    and "boundary r" "\<forall>m \<in> set ms. accepted m" "chunks \<noteq> []" "ms \<noteq> []"
  shows "delivered (feed recv chunks r) = delivered r @ ms"
proof -
  have "concat chunks = concat (map frame ms)"
    using run_written [OF assms(1,2)] assms(3,4,5) by simp
  with assms(6-9) show ?thesis by (intro delivery)
qed

end

interpretation ns_tcp: message_channel ns_dataReceived ns_core "\<lambda>_ _. True" ns_formatNetstring "\<lambda>m. length m \<le> n"
    "ns_boundary n" ns_strings tc_step step_valid tc_good tc_sent tc_pending fd_written for n
  by (intro message_channel.intro ns_frames.framed_receiver_axioms tcp.byte_sender_axioms)

interpretation lo_tcp: message_channel "lo_dataReceived (\<lambda>l a. (app l a, False))" "\<lambda>s. s" lo_safe
    "\<lambda>l. l @ delim" "\<lambda>l. clean_line delim l \<and> line_fits delim n l" "lo_boundary delim n" lo_received
    tc_step step_valid tc_good tc_sent tc_pending fd_written
  for app :: "bytes \<Rightarrow> 'a \<Rightarrow> 'a" and delim n
  by (intro message_channel.intro lo_frames.framed_receiver_axioms tcp.byte_sender_axioms)

section \<open>The chunks a connection hands to its protocol\<close>

definition tc_chunks :: "'a fd_scheme \<Rightarrow> bytes list" where
  "tc_chunks s = List.map_filter (\<lambda>e. case e of DataReceived d \<Rightarrow> Some d | _ \<Rightarrow> None) (fd_log s)"

text \<open>A connection closed after it has been flushed has sent everything.\<close>

lemma tc_closed_sent:
  assumes "tc_good s" "fd_connected s" "\<not> tc_aborting s" "fd_disconnecting s" "fd_producer s = None"
    and "\<forall>send \<in> set sends. send_progress send" "length (tc_pending s) < length sends"
  shows "tc_sent (tc_run (map write_ready sends) s) = fd_written s"
proof -
  from assms(1) have "tc_replaced s = tc_aborting s" by (simp add: tc_good_def tc_sound_def)
  with assms(1-5) have "tc_closing s" by (simp add: tc_closing_def tc_good_def)
  from tc_closing_run [OF this, of sends] assms(6,7) show ?thesis by (auto simp: tc_finished_def split: if_splits)
qed

end
