(* ===== verification/ProducerProxy.thy ===== *)
theory ProducerProxy
  imports Prelude
begin

text \<open>
  \<open>twisted/protocols/pcp.py\<close>: proxies between a producer and a consumer.
  \<open>BasicProducerConsumerProxy\<close> relays, \<open>ProducerConsumerProxy\<close> buffers and pauses its producer.

  The producer and the consumer are any objects; \<open>pc_log\<close> lists the calls made to them.  The
  last thing a method does is the only place where it calls \<open>resumeProducing\<close>, so whatever the
  producer does then is a further operation.  A consumer may call \<open>pauseProducing\<close> while
  it is written to, as \<open>FileDescriptor\<close> does: the argument \<open>full\<close> of the operations.
  A proxy's \<open>producer\<close> and \<open>consumer\<close> are whether they are set.
\<close>

section \<open>State\<close>

datatype pc_event =
    ConsumerWrite bytes | ConsumerFinish | ConsumerRegister bool | ConsumerUnregister
  | ProducerPause | ProducerResume | ProducerStop

datatype pc_error = PcAttributeError | PcAssertionError | PcTypeError

record pcproxy =
  pc_consumer :: bool
  pc_producer :: bool
  pc_producerIsStreaming :: "bool option"
  pc_iAmStreaming :: bool
  pc_outstandingPull :: bool
  pc_paused :: bool
  pc_buffer :: "bytes list"
  pc_log :: "pc_event list"

record pcbuffered = pcproxy +
  pc_bufferSize :: nat
  pc_producerPaused :: bool
  pc_unregistered :: bool

definition pc_call :: "pc_event \<Rightarrow> 'a pcproxy_scheme \<Rightarrow> 'a pcproxy_scheme" where
  "pc_call e s = s\<lparr>pc_log := pc_log s @ [e]\<rparr>"

definition pc_init :: "bool \<Rightarrow> bool \<Rightarrow> pcproxy" where
  "pc_init consumer streaming =
     (let s = \<lparr> pc_consumer = False, pc_producer = False, pc_producerIsStreaming = None, pc_iAmStreaming = streaming,
                pc_outstandingPull = False, pc_paused = False, pc_buffer = [], pc_log = [] \<rparr>
      in if consumer then pc_call (ConsumerRegister streaming) (s\<lparr>pc_consumer := True\<rparr>) else s)"

section \<open>The relaying proxy\<close>

definition bp_pauseProducing :: "'a pcproxy_scheme \<Rightarrow> 'a pcproxy_scheme" where
  "bp_pauseProducing s =
     (let t = s\<lparr>pc_paused := True\<rparr> in if pc_producer t then pc_call ProducerPause t else t)"

text \<open>\<open>self.consumer.write\<close>, in which the consumer may call the proxy's \<open>pauseProducing\<close>.\<close>

definition pc_consumerWrite :: "('a pcproxy_scheme \<Rightarrow> 'a pcproxy_scheme) \<Rightarrow> bool \<Rightarrow> bytes \<Rightarrow> 'a pcproxy_scheme \<Rightarrow> 'a pcproxy_scheme" where
  "pc_consumerWrite pauseProducing full d s =
     (let t = pc_call (ConsumerWrite d) s in if full then pauseProducing t else t)"

definition bp_resumeProducing :: "bool \<Rightarrow> 'a pcproxy_scheme \<Rightarrow> (pc_error, 'a pcproxy_scheme) outcome" where
  "bp_resumeProducing full s =
     (let s1 = s\<lparr>pc_paused := False\<rparr>
      in and_then
           (if pc_buffer s1 \<noteq> [] then
              if \<not> pc_consumer s1 then Exc PcAttributeError s1
              else Ok ((pc_consumerWrite bp_pauseProducing full (concat (pc_buffer s1)) s1)\<lparr>pc_buffer := []\<rparr>)
            else if \<not> pc_iAmStreaming s1 then Ok (s1\<lparr>pc_outstandingPull := True\<rparr>) else Ok s1)
           (\<lambda>t. Ok (if pc_producer t then pc_call ProducerResume t else t)))"

definition bp_stopProducing :: "'a pcproxy_scheme \<Rightarrow> 'a pcproxy_scheme" where
  "bp_stopProducing s =
     (let t = (if pc_producer s then pc_call ProducerStop s else s)
      in if pc_consumer t then t\<lparr>pc_consumer := False\<rparr> else t)"

definition bp_write :: "bool \<Rightarrow> bytes \<Rightarrow> 'a pcproxy_scheme \<Rightarrow> 'a pcproxy_scheme" where
  "bp_write full d s =
     (if pc_paused s \<or> (\<not> pc_iAmStreaming s \<and> \<not> pc_outstandingPull s) then s\<lparr>pc_buffer := pc_buffer s @ [d]\<rparr>
      else if pc_consumer s then (pc_consumerWrite bp_pauseProducing full d s)\<lparr>pc_outstandingPull := False\<rparr>
      else s)"

definition pc_dropProducer :: "'a pcproxy_scheme \<Rightarrow> 'a pcproxy_scheme" where
  "pc_dropProducer s = (if pc_producer s then s\<lparr>pc_producer := False, pc_producerIsStreaming := None\<rparr> else s)"

definition bp_unregisterProducer :: "'a pcproxy_scheme \<Rightarrow> 'a pcproxy_scheme" where
  "bp_unregisterProducer s =
     (let t = pc_dropProducer s in if pc_consumer t then pc_call ConsumerUnregister t else t)"

definition pc_finish :: "('a pcproxy_scheme \<Rightarrow> 'a pcproxy_scheme) \<Rightarrow> 'a pcproxy_scheme \<Rightarrow> 'a pcproxy_scheme" where
  "pc_finish unregisterProducer s =
     unregisterProducer (if pc_consumer s then pc_call ConsumerFinish s else s)"

definition bp_registerProducer :: "bool \<Rightarrow> 'a pcproxy_scheme \<Rightarrow> 'a pcproxy_scheme" where
  "bp_registerProducer streaming s = s\<lparr>pc_producer := True, pc_producerIsStreaming := Some streaming\<rparr>"

section \<open>The buffering proxy\<close>

type_synonym 's writer = "bool \<Rightarrow> bytes \<Rightarrow> 's \<Rightarrow> (pc_error + nat) \<times> 's"

definition pp_init :: "bool \<Rightarrow> bool \<Rightarrow> pcbuffered" where
  "pp_init consumer streaming =
     pcproxy.extend (pc_init consumer streaming)
       \<lparr> pc_bufferSize = 2 ^ 2 ^ 2 ^ 2, pc_producerPaused = False, pc_unregistered = False \<rparr>"

definition pp_pauseProducing :: "'a pcproxy_scheme \<Rightarrow> 'a pcproxy_scheme" where
  "pp_pauseProducing s = s\<lparr>pc_paused := True\<rparr>"

definition pp_writeSomeData :: "'a pcbuffered_scheme writer" where
  "pp_writeSomeData full d s =
     (if \<not> pc_consumer s then (Inr 0, s) else (Inr (length d), pc_consumerWrite pp_pauseProducing full d s))"

definition pc_bytesBuffered :: "'a pcproxy_scheme \<Rightarrow> nat" where
  "pc_bytesBuffered s = sum_list (map length (pc_buffer s))"

text \<open>Both halves of \<open>resumeProducing\<close>: sending the buffer, and what follows.\<close>

definition pp_flush :: "'a pcbuffered_scheme writer \<Rightarrow> bool \<Rightarrow> 'a pcbuffered_scheme \<Rightarrow> (pc_error + nat) \<times> 'a pcbuffered_scheme" where
  "pp_flush writeSomeData full s =
     (if pc_buffer s \<noteq> [] then
        let data = concat (pc_buffer s)
        in case writeSomeData full data s of
             (Inl e, t) \<Rightarrow> (Inl e, t)
           | (Inr bytesSent, t) \<Rightarrow>
               if bytesSent < length data then
                 if pc_iAmStreaming t then (Inl PcAssertionError, t)
                 else (Inr bytesSent, t\<lparr>pc_buffer := [drop bytesSent data]\<rparr>)
               else (Inr bytesSent, t\<lparr>pc_buffer := []\<rparr>)
      else (Inr 0, s))"

definition pp_afterFlush :: "nat \<Rightarrow> 'a pcbuffered_scheme \<Rightarrow> 'a pcbuffered_scheme" where
  "pp_afterFlush bytesSent s =
     (let s1 = (if pc_unregistered s \<and> bytesSent \<noteq> 0 \<and> pc_buffer s = [] \<and> pc_consumer s
                then pc_call ConsumerUnregister s else s);
          s2 = (if \<not> pc_iAmStreaming s1 then s1\<lparr>pc_outstandingPull := (bytesSent = 0)\<rparr> else s1)
      in if pc_producer s2 then
           if pc_producerPaused s2 \<and> pc_bytesBuffered s2 < pc_bufferSize s2
           then pc_call ProducerResume (s2\<lparr>pc_producerPaused := False\<rparr>)
           else if pc_outstandingPull s2 then pc_call ProducerResume s2
           else s2
         else s2)"

definition pp_resumeProducing :: "'a pcbuffered_scheme writer \<Rightarrow> bool \<Rightarrow> 'a pcbuffered_scheme \<Rightarrow> (pc_error, 'a pcbuffered_scheme) outcome" where
  "pp_resumeProducing writeSomeData full s =
     (case pp_flush writeSomeData full (s\<lparr>pc_paused := False\<rparr>) of
        (Inl e, t) \<Rightarrow> Exc e t
      | (Inr bytesSent, t) \<Rightarrow> Ok (pp_afterFlush bytesSent t))"

definition pp_write :: "'a pcbuffered_scheme writer \<Rightarrow> bool \<Rightarrow> bytes \<Rightarrow> 'a pcbuffered_scheme \<Rightarrow> (pc_error, 'a pcbuffered_scheme) outcome" where
  "pp_write writeSomeData full d s =
     and_then
       (if pc_paused s \<or> (\<not> pc_iAmStreaming s \<and> \<not> pc_outstandingPull s) then Ok (s\<lparr>pc_buffer := pc_buffer s @ [d]\<rparr>)
        else if pc_consumer s then
          if pc_buffer s \<noteq> [] then Exc PcAssertionError s
          else case writeSomeData full d s of
                 (Inl e, t) \<Rightarrow> Exc e t
               | (Inr bytesSent, t) \<Rightarrow>
                   let u = t\<lparr>pc_outstandingPull := False\<rparr>
                   in if bytesSent \<noteq> length d then
                        if pc_iAmStreaming u then Exc PcAssertionError u
                        else Ok (u\<lparr>pc_buffer := pc_buffer u @ [drop bytesSent d]\<rparr>)
                      else Ok u
        else Ok s)
       (\<lambda>t. Ok (if pc_producer t \<and> pc_producerIsStreaming t = Some True \<and> pc_bytesBuffered t \<ge> pc_bufferSize t
                then (pc_call ProducerPause t)\<lparr>pc_producerPaused := True\<rparr> else t))"

definition pp_registerProducer :: "bool \<Rightarrow> 'a pcbuffered_scheme \<Rightarrow> 'a pcbuffered_scheme" where
  "pp_registerProducer streaming s =
     (let t = bp_registerProducer streaming (s\<lparr>pc_unregistered := False\<rparr>)
      in if \<not> streaming then pc_call ProducerResume t else t)"

definition pp_unregisterProducer :: "'a pcbuffered_scheme \<Rightarrow> 'a pcbuffered_scheme" where
  "pp_unregisterProducer s =
     (let t = (pc_dropProducer s)\<lparr>pc_unregistered := True\<rparr>
      in if pc_consumer t \<and> pc_buffer t = [] then pc_call ConsumerUnregister t else t)"

section \<open>Operations\<close>

datatype pc_op =
    PcPause | PcResume bool | PcStop | PcWrite bool bytes | PcFinish | PcRegister bool | PcUnregister

fun bp_step :: "pc_op \<Rightarrow> pcproxy \<Rightarrow> (pc_error, pcproxy) outcome" where
  "bp_step PcPause s = Ok (bp_pauseProducing s)"
| "bp_step (PcResume full) s = bp_resumeProducing full s"
| "bp_step PcStop s = Ok (bp_stopProducing s)"
| "bp_step (PcWrite full d) s = Ok (bp_write full d s)"
| "bp_step PcFinish s = Ok (pc_finish bp_unregisterProducer s)"
| "bp_step (PcRegister streaming) s = Ok (bp_registerProducer streaming s)"
| "bp_step PcUnregister s = Ok (bp_unregisterProducer s)"

fun pp_step :: "'a pcbuffered_scheme writer \<Rightarrow> pc_op \<Rightarrow> 'a pcbuffered_scheme \<Rightarrow> (pc_error, 'a pcbuffered_scheme) outcome" where
  "pp_step wsd PcPause s = Ok (pp_pauseProducing s)"
| "pp_step wsd (PcResume full) s = pp_resumeProducing wsd full s"
| "pp_step wsd PcStop s = Ok (bp_stopProducing s)"
| "pp_step wsd (PcWrite full d) s = pp_write wsd full d s"
| "pp_step wsd PcFinish s = Ok (pc_finish pp_unregisterProducer s)"
| "pp_step wsd (PcRegister streaming) s = Ok (pp_registerProducer streaming s)"
| "pp_step wsd PcUnregister s = Ok (pp_unregisterProducer s)"

fun pc_run :: "(pc_op \<Rightarrow> 's \<Rightarrow> (pc_error, 's) outcome) \<Rightarrow> pc_op list \<Rightarrow> 's \<Rightarrow> (pc_error, 's) outcome" where
  "pc_run step [] s = Ok s"
| "pc_run step (x # xs) s = and_then (step x s) (pc_run step xs)"


section \<open>What has been delivered and what is held back\<close>

definition pc_delivered :: "'a pcproxy_scheme \<Rightarrow> bytes" where
  "pc_delivered s = concat (List.map_filter (\<lambda>e. case e of ConsumerWrite d \<Rightarrow> Some d | _ \<Rightarrow> None) (pc_log s))"

definition pc_held :: "'a pcproxy_scheme \<Rightarrow> bytes" where
  "pc_held s = concat (pc_buffer s)"

text \<open>Data is held back only while the proxy is paused, or a pulling consumer has not asked.\<close>

definition pc_flowing :: "'a pcproxy_scheme \<Rightarrow> bool" where
  "pc_flowing s \<longleftrightarrow> pc_consumer s \<and> (pc_buffer s = [] \<or> pc_paused s \<or> (\<not> pc_iAmStreaming s \<and> \<not> pc_outstandingPull s))"

fun op_data :: "pc_op \<Rightarrow> bytes" where
  "op_data (PcWrite full d) = d"
| "op_data _ = []"

lemma pc_delivered_call [simp]:
  "pc_delivered (pc_call e s) = pc_delivered s @ (case e of ConsumerWrite d \<Rightarrow> d | _ \<Rightarrow> [])"
  by (simp add: pc_delivered_def pc_call_def List.map_filter_def split: pc_event.splits)

lemma pc_delivered_upd [simp]:
  "pc_delivered (s\<lparr>pc_consumer := a\<rparr>) = pc_delivered s" "pc_delivered (s\<lparr>pc_producer := a\<rparr>) = pc_delivered s"
  "pc_delivered (s\<lparr>pc_producerIsStreaming := b\<rparr>) = pc_delivered s"
  "pc_delivered (s\<lparr>pc_outstandingPull := a\<rparr>) = pc_delivered s"
  "pc_delivered (s\<lparr>pc_paused := a\<rparr>) = pc_delivered s" "pc_delivered (s\<lparr>pc_buffer := c\<rparr>) = pc_delivered s"
  by (simp_all add: pc_delivered_def)

lemma pc_delivered_upd2 [simp]:
  "pc_delivered (u\<lparr>pc_producerPaused := a\<rparr>) = pc_delivered u" "pc_delivered (u\<lparr>pc_unregistered := a\<rparr>) = pc_delivered u"
  by (simp_all add: pc_delivered_def)

lemma pc_call_sel [simp]:
  "pc_consumer (pc_call e s) = pc_consumer s" "pc_producer (pc_call e s) = pc_producer s"
  "pc_buffer (pc_call e s) = pc_buffer s" "pc_paused (pc_call e s) = pc_paused s"
  "pc_iAmStreaming (pc_call e s) = pc_iAmStreaming s" "pc_outstandingPull (pc_call e s) = pc_outstandingPull s"
  by (simp_all add: pc_call_def)

text \<open>A proxy that loses nothing, whatever is done to it but stopping it.\<close>

locale lossless_relay =
  fixes step :: "pc_op \<Rightarrow> 's \<Rightarrow> (pc_error, 's) outcome"
    and flowing :: "'s \<Rightarrow> bool"
    and delivered :: "'s \<Rightarrow> bytes"
    and held :: "'s \<Rightarrow> bytes"
  assumes step_relays: "flowing s \<Longrightarrow> x \<noteq> PcStop \<Longrightarrow>
    \<exists>t. step x s = Ok t \<and> flowing t \<and> delivered t @ held t = delivered s @ held s @ op_data x"
begin

lemma run_relays:
  assumes "flowing s" "PcStop \<notin> set xs"
  shows "\<exists>t. pc_run step xs s = Ok t \<and> flowing t \<and> delivered t @ held t = delivered s @ held s @ concat (map op_data xs)"
  using assms
proof (induction xs arbitrary: s)
  case (Cons x xs)
  from Cons.prems have x: "x \<noteq> PcStop" and xs: "PcStop \<notin> set xs" by auto
  from step_relays [OF Cons.prems(1) x] obtain t where
    t: "step x s = Ok t" "flowing t" "delivered t @ held t = delivered s @ held s @ op_data x" by blast
  from Cons.IH [OF t(2) xs] obtain u where
    u: "pc_run step xs t = Ok u" "flowing u" "delivered u @ held u = delivered t @ held t @ concat (map op_data xs)" by blast
  from t(3) u(3) have "delivered u @ held u = delivered s @ held s @ concat (map op_data (x # xs))" by simp
  with t(1) u(1,2) show ?case by simp
qed simp

end

interpretation bp: lossless_relay bp_step pc_flowing pc_delivered pc_held
proof
  fix s :: pcproxy and x
  assume "pc_flowing s" "x \<noteq> PcStop"
  then show "\<exists>t. bp_step x s = Ok t \<and> pc_flowing t \<and> pc_delivered t @ pc_held t = pc_delivered s @ pc_held s @ op_data x"
    by (cases x) (auto simp: bp_pauseProducing_def bp_resumeProducing_def bp_write_def pc_finish_def bp_registerProducer_def
        bp_unregisterProducer_def pc_dropProducer_def pc_consumerWrite_def Let_def pc_flowing_def pc_held_def)
qed

text \<open>What the buffering proxy needs of the method that writes to the consumer.\<close>

locale proxy_writer =
  fixes wsd :: "'a pcbuffered_scheme writer"
  assumes wsd_sent: "wsd full d s = (Inr n, t) \<Longrightarrow> n \<le> length d \<and> pc_delivered t = pc_delivered s @ take n d"
    and wsd_failed: "wsd full d s = (Inl e, t) \<Longrightarrow> pc_delivered t = pc_delivered s"
    and wsd_keeps: "wsd full d s = (r, t) \<Longrightarrow> pc_buffer t = pc_buffer s \<and> pc_consumer t = pc_consumer s \<and>
      pc_iAmStreaming t = pc_iAmStreaming s"
begin

lemma flush_conserves:
  assumes "pp_flush wsd full s = (Inr n, t)"
  shows "pc_delivered t @ pc_held t = pc_delivered s @ pc_held s \<and> pc_consumer t = pc_consumer s"
proof (cases "pc_buffer s = []")
  case True
  with assms show ?thesis by (simp add: pp_flush_def)
next
  case False
  obtain r u where u: "wsd full (concat (pc_buffer s)) s = (r, u)" by fastforce
  with assms False obtain k where r: "r = Inr k" by (cases r) (simp_all add: pp_flush_def Let_def)
  note k = wsd_sent [OF u [unfolded r]] and keeps = wsd_keeps [OF u]
  from assms False u r k keeps show ?thesis
    by (auto simp: pp_flush_def Let_def pc_held_def split: if_splits)
qed

lemma afterFlush_conserves [simp]:
  "pc_delivered (pp_afterFlush n s) = pc_delivered s" "pc_buffer (pp_afterFlush n s) = pc_buffer s"
  "pc_consumer (pp_afterFlush n s) = pc_consumer s" "pc_paused (pp_afterFlush n s) = pc_paused s"
  by (simp_all add: pp_afterFlush_def Let_def)

lemma step_conserves:
  assumes "pp_step wsd x s = Ok t" "pc_consumer s" "x \<noteq> PcStop"
  shows "pc_consumer t \<and> pc_delivered t @ pc_held t = pc_delivered s @ pc_held s @ op_data x"
proof (cases x)
  case (PcResume full)
  with assms(1) obtain n u where u: "pp_flush wsd full (s\<lparr>pc_paused := False\<rparr>) = (Inr n, u)" "t = pp_afterFlush n u"
    by (auto simp: pp_resumeProducing_def split: prod.splits sum.splits)
  from flush_conserves [OF u(1)] assms(2) PcResume show ?thesis by (simp add: u(2) pc_held_def)
next
  case (PcWrite full d)
  obtain r u where u: "wsd full d s = (r, u)" by fastforce
  have sent: "n \<le> length d \<and> pc_delivered u = pc_delivered s @ take n d" if "r = Inr n" for n
    using wsd_sent u that by simp
  from assms PcWrite u sent wsd_keeps [OF u] show ?thesis
    by (auto simp: pp_write_def Let_def pc_held_def split: if_splits sum.splits)
qed (use assms in \<open>auto simp: pp_pauseProducing_def pc_finish_def pp_registerProducer_def bp_registerProducer_def
    pp_unregisterProducer_def pc_dropProducer_def Let_def pc_held_def\<close>)

end

locale total_writer = proxy_writer +
  assumes wsd_all: "pc_consumer s \<Longrightarrow> fst (wsd full d s) = Inr (length d)"
begin

lemma step_flows:
  assumes "pc_flowing s" "x \<noteq> PcStop"
  shows "\<exists>t. pp_step wsd x s = Ok t \<and> pc_flowing t"
proof (cases x)
  case (PcResume full)
  have "pc_consumer s" using assms(1) by (simp add: pc_flowing_def)
  obtain u where u: "wsd full (concat (pc_buffer s)) (s\<lparr>pc_paused := False\<rparr>) = (Inr (length (concat (pc_buffer s))), u)"
    using wsd_all [of "s\<lparr>pc_paused := False\<rparr>" full "concat (pc_buffer s)"] \<open>pc_consumer s\<close>
    by (cases "wsd full (concat (pc_buffer s)) (s\<lparr>pc_paused := False\<rparr>)") simp
  from assms PcResume u wsd_keeps [OF u] show ?thesis
    by (auto simp: pp_resumeProducing_def pp_flush_def pc_flowing_def Let_def)
next
  case (PcWrite full d)
  have "pc_consumer s" using assms(1) by (simp add: pc_flowing_def)
  then obtain u where u: "wsd full d s = (Inr (length d), u)" using wsd_all by (metis prod.collapse)
  from assms PcWrite u wsd_keeps [OF u] show ?thesis
    by (auto simp: pp_write_def pc_flowing_def Let_def)
qed (use assms in \<open>auto simp: pp_pauseProducing_def pc_finish_def pp_registerProducer_def bp_registerProducer_def
    pp_unregisterProducer_def pc_dropProducer_def Let_def pc_flowing_def\<close>)

end

sublocale total_writer \<subseteq> lossless_relay "pp_step wsd" pc_flowing pc_delivered pc_held
proof
  fix s :: "'a pcbuffered_scheme" and x
  assume s: "pc_flowing s" "x \<noteq> PcStop"
  from step_flows [OF s] obtain t where t: "pp_step wsd x s = Ok t" "pc_flowing t" by blast
  with step_conserves [OF t(1)] s
  show "\<exists>t. pp_step wsd x s = Ok t \<and> pc_flowing t \<and> pc_delivered t @ pc_held t = pc_delivered s @ pc_held s @ op_data x"
    by (auto simp: pc_flowing_def)
qed

interpretation pp: total_writer pp_writeSomeData
  by unfold_locales (auto simp: pp_writeSomeData_def pc_consumerWrite_def pp_pauseProducing_def Let_def split: if_splits)


section \<open>The properties of the proxies\<close>

lemma pc_flowing_init: "pc_flowing (pc_init True b)" "pc_flowing (pp_init True b)"
  "pc_delivered (pc_init True b) = []" "pc_delivered (pp_init True b) = []"
  "pc_held (pc_init True b) = []" "pc_held (pp_init True b) = []"
  by (simp_all add: pc_init_def pp_init_def pcproxy.defs pc_flowing_def pc_held_def pc_delivered_def pc_call_def
      List.map_filter_def)

text \<open>
  C21: a proxy between a producer and a consumer loses, repeats and reorders nothing.  Unless it
  is stopped, whatever the two do, no method raises, what the consumer was given followed by
  what the proxy holds is what was written, and data is held only while the consumer has
  asked to pause or, if it pulls, has not asked for more.
\<close>

theorem proxy_conservation:
  assumes "PcStop \<notin> set ops"
  shows "(\<exists>s. pc_run bp_step ops (pc_init True streaming) = Ok s \<and> pc_flowing s \<and>
      pc_delivered s @ pc_held s = concat (map op_data ops)) \<and>
    (\<exists>s. pc_run (pp_step pp_writeSomeData) ops (pp_init True streaming) = Ok s \<and> pc_flowing s \<and>
      pc_delivered s @ pc_held s = concat (map op_data ops))"
  using bp.run_relays [OF pc_flowing_init(1) assms, of streaming] pp.run_relays [OF pc_flowing_init(2) assms, of streaming]
  by (simp add: pc_flowing_init)

theorem proxy_conservation_witness:
  "\<exists>s. pc_run (pp_step pp_writeSomeData)
      [PcRegister True, PcWrite True ''ab'', PcWrite False ''c'', PcResume False, PcFinish] (pp_init True True) = Ok s \<and>
    pc_delivered s @ pc_held s = ''abc''"
  using proxy_conservation [of "[PcRegister True, PcWrite True ''ab'', PcWrite False ''c'', PcResume False, PcFinish]" True]
  by auto

text \<open>
  The relaying proxy resumes a producer that the consumer has just paused: when the consumer asks
  for a pause while it is given the buffer, \<open>resumeProducing\<close> resumes the producer afterwards, and
  from then on the proxy is paused and the producer is not.
\<close>

lemma relay_resumes_paused_producer:
  "\<exists>s. pc_run bp_step [PcRegister True, PcPause, PcWrite False ''x'', PcResume True] (pc_init True True) = Ok s \<and>
    pc_paused s \<and> last (pc_log s) = ProducerResume"
  by (simp add: pc_init_def pc_call_def bp_registerProducer_def bp_pauseProducing_def bp_write_def bp_resumeProducing_def
      pc_consumerWrite_def Let_def)

text \<open>\<open>finish\<close> tells the consumer that no more data comes while the proxy still holds some.\<close>

lemma finish_before_flush:
  "\<exists>s. pc_run (pp_step pp_writeSomeData) [PcPause, PcWrite False ''x'', PcFinish, PcResume False] (pp_init True True) = Ok s \<and>
    pc_log s = [ConsumerRegister True, ConsumerFinish, ConsumerWrite ''x'', ConsumerUnregister]"
  by (simp add: pp_init_def pc_init_def pcproxy.defs pc_call_def pp_pauseProducing_def pp_write_def pc_finish_def
      pp_unregisterProducer_def pc_dropProducer_def pp_resumeProducing_def pp_flush_def pp_writeSomeData_def
      pc_consumerWrite_def pp_afterFlush_def Let_def)

end
