(* ===== verification/TokenBucket.thy ===== *)
theory TokenBucket
  imports Prelude Complex_Main
begin

text \<open>
  \<open>twisted/protocols/htb.py\<close>: token buckets that share a parent, and the filters that find the
  bucket of a connection.

  A bucket or filter is a number in a store.  \<open>parentBucket\<close> and \<open>parentFilter\<close> are set by the
  constructor, to an object that exists already, and never again; so a reference is the list of
  an object and its ancestors, the object first.  \<open>time()\<close> is a parameter, a float for every
  reading; \<open>ht_reads\<close> counts the readings.  Floats are exact rationals, but they are kept apart
  from integers, because Python treats them differently as an index.
\<close>

section \<open>Python numbers\<close>

datatype pynum = PInt int | PFloat rat

fun num_val :: "pynum \<Rightarrow> rat" where
  "num_val (PInt i) = of_int i"
| "num_val (PFloat x) = x"

fun py_add :: "pynum \<Rightarrow> pynum \<Rightarrow> pynum" where
  "py_add (PInt i) (PInt j) = PInt (i + j)"
| "py_add x y = PFloat (num_val x + num_val y)"

fun py_sub :: "pynum \<Rightarrow> pynum \<Rightarrow> pynum" where
  "py_sub (PInt i) (PInt j) = PInt (i - j)"
| "py_sub x y = PFloat (num_val x - num_val y)"

text \<open>\<open>min(x, y)\<close> and \<open>max(x, y)\<close> return their first argument when both are equal.\<close>

definition py_min :: "pynum \<Rightarrow> pynum \<Rightarrow> pynum" where
  "py_min x y = (if num_val y < num_val x then y else x)"

definition py_max :: "pynum \<Rightarrow> pynum \<Rightarrow> pynum" where
  "py_max x y = (if num_val y > num_val x then y else x)"

lemma num_val_add [simp]: "num_val (py_add x y) = num_val x + num_val y"
  by (cases x; cases y) simp_all

lemma num_val_sub [simp]: "num_val (py_sub x y) = num_val x - num_val y"
  by (cases x; cases y) simp_all

lemma num_val_min [simp]: "num_val (py_min x y) = min (num_val x) (num_val y)"
  by (simp add: py_min_def)

lemma num_val_max [simp]: "num_val (py_max x y) = max (num_val x) (num_val y)"
  by (simp add: py_max_def)

section \<open>Buckets\<close>

record bucket =
  bk_maxburst :: "int option"
  bk_rate :: "int option"
  bk_refcount :: int
  bk_content :: pynum
  bk_lastDrip :: rat

type_synonym ref = "nat list"

record 'f bucket_store =
  ht_bucket :: "nat \<Rightarrow> bucket"
  ht_made :: nat
  ht_reads :: nat
  ht_filters :: 'f

definition ht_time :: "(nat \<Rightarrow> rat) \<Rightarrow> 'f bucket_store \<Rightarrow> rat \<times> 'f bucket_store" where
  "ht_time clk s = (clk (ht_reads s), s\<lparr>ht_reads := ht_reads s + 1\<rparr>)"

definition ht_upd :: "nat \<Rightarrow> (bucket \<Rightarrow> bucket) \<Rightarrow> 'f bucket_store \<Rightarrow> 'f bucket_store" where
  "ht_upd b f s = s\<lparr>ht_bucket := (ht_bucket s)(b := f (ht_bucket s b))\<rparr>"

text \<open>A new bucket of a class with these \<open>maxburst\<close> and \<open>rate\<close>, below a parent (\<open>[]\<close> for none).\<close>

definition ht_newBucket :: "(nat \<Rightarrow> rat) \<Rightarrow> int option \<Rightarrow> int option \<Rightarrow> ref \<Rightarrow> 'f bucket_store \<Rightarrow> ref \<times> 'f bucket_store" where
  "ht_newBucket clk maxburst rate parent s =
     (let (now, t) = ht_time clk s; b = ht_made t
      in (b # parent,
          t\<lparr>ht_bucket := (ht_bucket t)(b := \<lparr> bk_maxburst = maxburst, bk_rate = rate, bk_refcount = 0,
              bk_content = PInt 0, bk_lastDrip = now \<rparr>), ht_made := b + 1\<rparr>))"

text \<open>Draining one bucket, without its parent.\<close>

definition ht_drain :: "(nat \<Rightarrow> rat) \<Rightarrow> nat \<Rightarrow> 'f bucket_store \<Rightarrow> 'f bucket_store" where
  "ht_drain clk b s =
     (case bk_rate (ht_bucket s b) of
        None \<Rightarrow> ht_upd b (\<lambda>k. k\<lparr>bk_content := PInt 0\<rparr>) s
      | Some rate \<Rightarrow>
          let (now, t) = ht_time clk s;
              deltaTime = now - bk_lastDrip (ht_bucket t b);
              deltaTokens = PFloat (deltaTime * of_int rate)
          in ht_upd b (\<lambda>k. k\<lparr>bk_content := py_max (PInt 0) (py_sub (bk_content k) deltaTokens), bk_lastDrip := now\<rparr>) t)"

fun ht_drip :: "(nat \<Rightarrow> rat) \<Rightarrow> ref \<Rightarrow> 'f bucket_store \<Rightarrow> bool \<times> 'f bucket_store" where
  "ht_drip clk [] s = (True, s)"
| "ht_drip clk (b # parent) s =
     (let t = ht_drain clk b (if parent \<noteq> [] then snd (ht_drip clk parent s) else s)
      in (num_val (bk_content (ht_bucket t b)) = 0, t))"

fun ht_add :: "(nat \<Rightarrow> rat) \<Rightarrow> ref \<Rightarrow> pynum \<Rightarrow> 'f bucket_store \<Rightarrow> pynum \<times> 'f bucket_store" where
  "ht_add clk [] amount s = (amount, s)"
| "ht_add clk (b # parent) amount s =
     (let s1 = snd (ht_drip clk (b # parent) s);
          fits = (case bk_maxburst (ht_bucket s1 b) of
                    None \<Rightarrow> amount
                  | Some maxburst \<Rightarrow> py_min amount (py_sub (PInt maxburst) (bk_content (ht_bucket s1 b))));
          (allowable, s2) = (if parent \<noteq> [] then ht_add clk parent fits s1 else (fits, s1))
      in (allowable, ht_upd b (\<lambda>k. k\<lparr>bk_content := py_add (bk_content k) allowable\<rparr>) s2))"

section \<open>Filters\<close>

text \<open>
  What a transport's \<open>getPeer\<close> and \<open>getHost\<close> return is indexed: that works for a tuple, while
  the address objects of \<open>twisted.internet.address\<close> cannot be indexed.
\<close>

datatype pyval = PyStr string | PyNumber int

datatype address = AddressTuple "pyval list" | AddressObject

record peer_transport =
  tp_getPeer :: address
  tp_getHost :: address

datatype filter_class = HierarchicalBucketFilter | FilterByHost | FilterByServer

datatype filter_arg = TransportArg peer_transport | FilterArg nat

datatype filter_error = FilterTypeError | FilterIndexError | FilterAttributeError

record bucket_filter =
  bf_class :: filter_class
  bf_sweepInterval :: "rat option"
  bf_maxburst :: "int option"
  bf_rate :: "int option"
  bf_buckets :: "(pyval option \<times> ref) list"
  bf_lastSweep :: rat

type_synonym filters = "nat \<Rightarrow> bucket_filter"

definition py_index :: "address \<Rightarrow> nat \<Rightarrow> filter_error + pyval option" where
  "py_index a i =
     (case a of
        AddressTuple vs \<Rightarrow> if i < length vs then Inr (Some (vs ! i)) else Inl FilterIndexError
      | AddressObject \<Rightarrow> Inl FilterTypeError)"

fun bf_getBucketKey :: "filter_class \<Rightarrow> filter_arg list \<Rightarrow> filter_error + pyval option" where
  "bf_getBucketKey HierarchicalBucketFilter a = Inr None"
| "bf_getBucketKey FilterByHost [TransportArg t] = py_index (tp_getPeer t) 1"
| "bf_getBucketKey FilterByServer [TransportArg t] = py_index (tp_getHost t) 2"
| "bf_getBucketKey c [FilterArg f] = Inl FilterAttributeError"
| "bf_getBucketKey c a = Inl FilterTypeError"

text \<open>\<open>sweepInterval\<close> as the classes set it.\<close>

fun class_sweepInterval :: "filter_class \<Rightarrow> rat option" where
  "class_sweepInterval HierarchicalBucketFilter = None"
| "class_sweepInterval FilterByHost = Some (60 * 20)"
| "class_sweepInterval FilterByServer = None"

definition bf_init :: "(nat \<Rightarrow> rat) \<Rightarrow> nat \<Rightarrow> filter_class \<Rightarrow> int option \<Rightarrow> int option \<Rightarrow> filters bucket_store \<Rightarrow> filters bucket_store" where
  "bf_init clk f c maxburst rate s =
     (let (now, t) = ht_time clk s
      in t\<lparr>ht_filters := (ht_filters t)(f := \<lparr> bf_class = c, bf_sweepInterval = class_sweepInterval c,
          bf_maxburst = maxburst, bf_rate = rate, bf_buckets = [], bf_lastSweep = now \<rparr>)\<rparr>)"

text \<open>The loop of \<open>sweep\<close> over \<open>buckets.items()\<close>: it returns the items that are kept.\<close>

fun bf_sweepItems :: "(nat \<Rightarrow> rat) \<Rightarrow> (pyval option \<times> ref) list \<Rightarrow> 'f bucket_store \<Rightarrow>
    (pyval option \<times> ref) list \<times> 'f bucket_store" where
  "bf_sweepItems clk [] s = ([], s)"
| "bf_sweepItems clk ((key, bucket) # items) s =
     (let (bucket_is_empty, s1) = ht_drip clk bucket s;
          (kept, s2) = bf_sweepItems clk items s1
      in (if bk_refcount (ht_bucket s1 (hd bucket)) = 0 \<and> bucket_is_empty then kept else (key, bucket) # kept, s2))"

definition bf_sweep :: "(nat \<Rightarrow> rat) \<Rightarrow> nat \<Rightarrow> filters bucket_store \<Rightarrow> filters bucket_store" where
  "bf_sweep clk f s =
     (let (kept, s1) = bf_sweepItems clk (bf_buckets (ht_filters s f)) s;
          (now, s2) = ht_time clk s1
      in s2\<lparr>ht_filters := (ht_filters s2)(f := (ht_filters s2 f)\<lparr>bf_buckets := kept, bf_lastSweep := now\<rparr>)\<rparr>)"

text \<open>The sweep that \<open>getBucketFor\<close> begins with.\<close>

definition bf_maybeSweep :: "(nat \<Rightarrow> rat) \<Rightarrow> nat \<Rightarrow> filters bucket_store \<Rightarrow> filters bucket_store" where
  "bf_maybeSweep clk f s =
     (case bf_sweepInterval (ht_filters s f) of
        None \<Rightarrow> s
      | Some interval \<Rightarrow>
          let (now, t) = ht_time clk s
          in if now - bf_lastSweep (ht_filters t f) > interval then bf_sweep clk f t else t)"

fun bf_getBucketFor :: "(nat \<Rightarrow> rat) \<Rightarrow> ref \<Rightarrow> filter_arg list \<Rightarrow> filters bucket_store \<Rightarrow>
    (filter_error + ref) \<times> filters bucket_store" where
  "bf_getBucketFor clk [] a s = (Inr [], s)"
| "bf_getBucketFor clk (f # parentFilter) a s =
     (let s1 = bf_maybeSweep clk f s;
          (parentBucket, s2) = (if parentFilter \<noteq> [] then bf_getBucketFor clk parentFilter (FilterArg f # a) s1
                                else (Inr [], s1))
      in case parentBucket of
           Inl e \<Rightarrow> (Inl e, s2)
         | Inr parent \<Rightarrow>
             case bf_getBucketKey (bf_class (ht_filters s2 f)) a of
               Inl e \<Rightarrow> (Inl e, s2)
             | Inr key \<Rightarrow>
                 case map_of (bf_buckets (ht_filters s2 f)) key of
                   Some bucket \<Rightarrow> (Inr bucket, s2)
                 | None \<Rightarrow>
                     let (bucket, s3) = ht_newBucket clk (bf_maxburst (ht_filters s2 f)) (bf_rate (ht_filters s2 f)) parent s2
                     in (Inr bucket,
                         s3\<lparr>ht_filters := (ht_filters s3)(f := (ht_filters s3 f)
                              \<lparr>bf_buckets := bf_buckets (ht_filters s3 f) @ [(key, bucket)]\<rparr>)\<rparr>))"


section \<open>Metering\<close>

text \<open>
  What bounds a flow: a level that stays between \<open>0\<close> and \<open>cap\<close>, that each step raises by what it
  lets pass, and that falls by at most \<open>rate\<close> for each unit of time.
\<close>

fun metered_total :: "('op \<Rightarrow> 's \<Rightarrow> 's) \<Rightarrow> ('op \<Rightarrow> 's \<Rightarrow> rat) \<Rightarrow> 'op list \<Rightarrow> 's \<Rightarrow> rat" where
  "metered_total step passed [] s = 0"
| "metered_total step passed (x # xs) s = passed x s + metered_total step passed xs (step x s)"

locale metered =
  fixes step :: "'op \<Rightarrow> 's \<Rightarrow> 's"
    and admissible :: "'op \<Rightarrow> bool"
    and good :: "'s \<Rightarrow> bool"
    and passed :: "'op \<Rightarrow> 's \<Rightarrow> rat"
    and level :: "'s \<Rightarrow> rat"
    and clock :: "'s \<Rightarrow> rat"
    and cap :: rat
    and rate :: rat
  assumes good_step: "good s \<Longrightarrow> admissible x \<Longrightarrow> good (step x s)"
    and level_bounds: "good s \<Longrightarrow> 0 \<le> level s \<and> level s \<le> cap"
    and level_step: "good s \<Longrightarrow> admissible x \<Longrightarrow>
      level s + passed x s \<le> level (step x s) + rate * (clock (step x s) - clock s)"
begin

lemma run_good: "good s \<Longrightarrow> \<forall>x \<in> set xs. admissible x \<Longrightarrow> good (fold step xs s)"
  by (induction xs arbitrary: s) (simp_all add: good_step)

lemma run_level:
  "good s \<Longrightarrow> \<forall>x \<in> set xs. admissible x \<Longrightarrow>
     level s + metered_total step passed xs s \<le> level (fold step xs s) + rate * (clock (fold step xs s) - clock s)"
proof (induction xs arbitrary: s)
  case (Cons x xs)
  then have x: "admissible x" and t: "good (step x s)" by (simp_all add: good_step)
  note step = level_step [OF Cons.prems(1) x]
  from Cons.IH [OF t] Cons.prems(2) step show ?case by (simp add: algebra_simps)
qed simp

lemma total_bound:
  assumes "good s" "\<forall>x \<in> set xs. admissible x"
  shows "metered_total step passed xs s \<le> cap + rate * (clock (fold step xs s) - clock s)"
  using run_level [OF assms] level_bounds [OF assms(1)] level_bounds [OF run_good [OF assms]] by simp

end

section \<open>What a bucket lets pass\<close>

definition bk_level :: "'f bucket_store \<Rightarrow> nat \<Rightarrow> rat" where
  "bk_level s b = num_val (bk_content (ht_bucket s b))"

text \<open>A store is sound when each bucket holds between nothing and \<open>maxburst\<close> and was emptied in the past.\<close>

definition bucket_sound :: "rat \<Rightarrow> bucket \<Rightarrow> bool" where
  "bucket_sound now k \<longleftrightarrow> 0 \<le> num_val (bk_content k) \<and>
     (\<forall>m. bk_maxburst k = Some m \<longrightarrow> num_val (bk_content k) \<le> of_int m) \<and>
     (\<forall>r. bk_rate k = Some r \<longrightarrow> 0 \<le> r) \<and> bk_lastDrip k \<le> now"

definition ht_sound :: "(nat \<Rightarrow> rat) \<Rightarrow> 'f bucket_store \<Rightarrow> bool" where
  "ht_sound clk s \<longleftrightarrow> mono clk \<and> (\<forall>b. bucket_sound (clk (ht_reads s)) (ht_bucket s b))"

text \<open>\<open>ht_flow passed s t\<close>: from \<open>s\<close> to \<open>t\<close> each bucket took in \<open>passed b\<close> and lost no more than its rate allows.\<close>

definition bucket_flow :: "rat \<Rightarrow> bucket \<Rightarrow> bucket \<Rightarrow> bool" where
  "bucket_flow a k l \<longleftrightarrow> bk_maxburst l = bk_maxburst k \<and> bk_rate l = bk_rate k \<and>
     bk_lastDrip k \<le> bk_lastDrip l \<and>
     (\<forall>r. bk_rate k = Some r \<longrightarrow>
        num_val (bk_content k) + a \<le> num_val (bk_content l) + of_int r * (bk_lastDrip l - bk_lastDrip k))"

definition ht_flow :: "(nat \<Rightarrow> rat) \<Rightarrow> 'f bucket_store \<Rightarrow> 'f bucket_store \<Rightarrow> bool" where
  "ht_flow a s t \<longleftrightarrow> (\<forall>b. bucket_flow (a b) (ht_bucket s b) (ht_bucket t b))"

lemma bucket_flow_refl: "bucket_flow 0 k k"
  by (simp add: bucket_flow_def)

lemma bucket_flow_trans:
  assumes kl: "bucket_flow a k l" and lm: "bucket_flow c l m"
  shows "bucket_flow (a + c) k m"
proof -
  have "num_val (bk_content k) + (a + c) \<le> num_val (bk_content m) + of_int r * (bk_lastDrip m - bk_lastDrip k)"
    if "bk_rate k = Some r" for r
  proof -
    from kl that have "num_val (bk_content k) + a \<le> num_val (bk_content l) + of_int r * (bk_lastDrip l - bk_lastDrip k)"
      by (simp add: bucket_flow_def)
    moreover from kl lm that have "num_val (bk_content l) + c \<le> num_val (bk_content m) + of_int r * (bk_lastDrip m - bk_lastDrip l)"
      by (simp add: bucket_flow_def)
    ultimately show ?thesis by (simp add: algebra_simps)
  qed
  with kl lm show ?thesis by (auto simp: bucket_flow_def)
qed

lemma ht_flow_trans: "ht_flow a s t \<Longrightarrow> ht_flow c t u \<Longrightarrow> ht_flow (\<lambda>b. a b + c b) s u"
  unfolding ht_flow_def using bucket_flow_trans by blast

lemma ht_flow_refl: "ht_flow (\<lambda>b. 0) s s"
  by (simp add: ht_flow_def bucket_flow_refl)


lemma ht_soundD: "ht_sound clk s \<Longrightarrow> mono clk" "ht_sound clk s \<Longrightarrow> bucket_sound (clk (ht_reads s)) (ht_bucket s b)"
  by (simp_all add: ht_sound_def)

lemma bucket_sound_later: "bucket_sound now k \<Longrightarrow> now \<le> later \<Longrightarrow> bucket_sound later k"
  by (auto simp: bucket_sound_def)

lemma ht_sound_later:
  assumes "ht_sound clk s" "ht_bucket t = ht_bucket s" "ht_reads s \<le> ht_reads t"
  shows "ht_sound clk t"
proof -
  have "clk (ht_reads s) \<le> clk (ht_reads t)" using assms(1,3) by (auto simp: ht_sound_def dest: monoD)
  with assms(1,2) bucket_sound_later show ?thesis unfolding ht_sound_def by metis
qed

lemma ht_upd_sound:
  assumes "ht_sound clk s" "bucket_sound (clk (ht_reads s)) (f (ht_bucket s b))"
  shows "ht_sound clk (ht_upd b f s)"
  using assms by (simp add: ht_sound_def ht_upd_def)

lemma ht_upd_flow:
  assumes "bucket_flow a (ht_bucket s b) (f (ht_bucket s b))"
  shows "ht_flow (\<lambda>c. if c = b then a else 0) s (ht_upd b f s)"
  using assms by (simp add: ht_flow_def ht_upd_def bucket_flow_refl)

lemma ht_flow_cong: "ht_bucket t = ht_bucket s \<Longrightarrow> ht_flow a s u = ht_flow a t u"
  by (simp add: ht_flow_def)

definition ht_outside :: "ref \<Rightarrow> 'f bucket_store \<Rightarrow> 'f bucket_store \<Rightarrow> bool" where
  "ht_outside ref s t \<longleftrightarrow> (\<forall>b. b \<notin> set ref \<longrightarrow> ht_bucket t b = ht_bucket s b)"

lemma ht_drain_effect:
  assumes "ht_sound clk s"
  shows "ht_sound clk (ht_drain clk b s)" "ht_flow (\<lambda>c. 0) s (ht_drain clk b s)"
    "ht_outside (b # ref) s (ht_drain clk b s)" "ht_reads s \<le> ht_reads (ht_drain clk b s)"
proof -
  let ?k = "ht_bucket s b" and ?now = "clk (ht_reads s)"
  have k: "bucket_sound ?now ?k" by (rule ht_soundD(2) [OF assms])
  show "ht_outside (b # ref) s (ht_drain clk b s)" "ht_reads s \<le> ht_reads (ht_drain clk b s)"
    by (simp_all add: ht_drain_def ht_time_def ht_upd_def ht_outside_def split: option.splits)
  have "ht_sound clk (ht_drain clk b s) \<and> ht_flow (\<lambda>c. if c = b then 0 else 0) s (ht_drain clk b s)"
  proof (cases "bk_rate ?k")
    case None
    let ?f = "\<lambda>k. k\<lparr>bk_content := PInt 0\<rparr>"
    have f: "bucket_sound ?now (?f ?k)" using k by (auto simp: bucket_sound_def)
    have g: "bucket_flow 0 ?k (?f ?k)" using None by (simp add: bucket_flow_def)
    have eq: "ht_drain clk b s = ht_upd b ?f s" using None by (simp add: ht_drain_def)
    show ?thesis unfolding eq using ht_upd_sound [of clk s ?f b, OF assms f] ht_upd_flow [of 0 s b ?f, OF g] by blast
  next
    case (Some r)
    let ?d = "PFloat ((?now - bk_lastDrip ?k) * of_int r)" and ?t = "s\<lparr>ht_reads := ht_reads s + 1\<rparr>"
    let ?f = "\<lambda>k. k\<lparr>bk_content := py_max (PInt 0) (py_sub (bk_content k) ?d), bk_lastDrip := ?now\<rparr>"
    have r: "0 \<le> r" and past: "bk_lastDrip ?k \<le> ?now" using k Some by (simp_all add: bucket_sound_def)
    then have d: "0 \<le> (?now - bk_lastDrip ?k) * of_int r" by simp
    have later: "?now \<le> clk (Suc (ht_reads s))" using ht_soundD(1) [OF assms] by (simp add: monoD)
    have t: "ht_sound clk ?t" by (rule ht_sound_later [OF assms]) simp_all
    have f: "bucket_sound (clk (ht_reads ?t)) (?f (ht_bucket ?t b))"
      using k d later by (auto simp: bucket_sound_def)
    have g: "bucket_flow 0 (ht_bucket ?t b) (?f (ht_bucket ?t b))"
      using past Some by (simp add: bucket_flow_def mult.commute)
    have eq: "ht_drain clk b s = ht_upd b ?f ?t" using Some by (simp add: ht_drain_def ht_time_def ht_upd_def)
    have "ht_flow a s u = ht_flow a ?t u" for a u by (rule ht_flow_cong) simp
    then show ?thesis unfolding eq using ht_upd_sound [of clk ?t ?f b, OF t f] ht_upd_flow [of 0 ?t b ?f, OF g] by blast
  qed
  then show "ht_sound clk (ht_drain clk b s)" "ht_flow (\<lambda>c. 0) s (ht_drain clk b s)" by simp_all
qed

lemma ht_drip_effect:
  assumes "ht_sound clk s"
  shows "ht_sound clk (snd (ht_drip clk ref s)) \<and> ht_flow (\<lambda>c. 0) s (snd (ht_drip clk ref s)) \<and>
    ht_outside ref s (snd (ht_drip clk ref s)) \<and> ht_reads s \<le> ht_reads (snd (ht_drip clk ref s))"
  using assms
proof (induction ref)
  case Nil
  then show ?case by (simp add: ht_flow_refl ht_outside_def)
next
  case (Cons b parent)
  let ?s = "if parent \<noteq> [] then snd (ht_drip clk parent s) else s"
  have s: "ht_sound clk ?s" "ht_flow (\<lambda>c. 0) s ?s" "ht_outside parent s ?s" "ht_reads s \<le> ht_reads ?s"
    using Cons by (simp_all add: ht_flow_refl ht_outside_def)
  note d = ht_drain_effect [OF s(1), of b]
  have "snd (ht_drip clk (b # parent) s) = ht_drain clk b ?s" by (simp add: Let_def)
  moreover have "ht_flow (\<lambda>c. 0) s (ht_drain clk b ?s)" using ht_flow_trans [OF s(2) d(2)] by simp
  moreover have "ht_outside (b # parent) s (ht_drain clk b ?s)" using s(3) d(3) [of parent] by (simp add: ht_outside_def)
  ultimately show ?case using d(1,4) s(4) by simp
qed


lemma ht_add_effect:
  assumes "ht_sound clk s" "distinct ref" "0 \<le> num_val amount" "ht_add clk ref amount s = (a, t)"
  shows "ht_sound clk t \<and> 0 \<le> num_val a \<and> num_val a \<le> num_val amount \<and>
    ht_flow (\<lambda>b. if b \<in> set ref then num_val a else 0) s t \<and> ht_outside ref s t \<and> ht_reads s \<le> ht_reads t"
  using assms
proof (induction ref arbitrary: s amount a t)
  case Nil
  then show ?case by (simp add: ht_flow_refl ht_outside_def)
next
  case (Cons b parent)
  define s1 where "s1 = snd (ht_drip clk (b # parent) s)"
  have s1: "ht_sound clk s1" "ht_flow (\<lambda>c. 0) s s1" "ht_outside (b # parent) s s1" "ht_reads s \<le> ht_reads s1"
    using ht_drip_effect [OF Cons.prems(1), of "b # parent"] by (simp_all add: s1_def del: ht_drip.simps)
  let ?k = "ht_bucket s1 b"
  define fits where "fits = (case bk_maxburst ?k of None \<Rightarrow> amount | Some m \<Rightarrow> py_min amount (py_sub (PInt m) (bk_content ?k)))"
  have k: "bucket_sound (clk (ht_reads s1)) ?k" by (rule ht_soundD(2) [OF s1(1)])
  have fits: "0 \<le> num_val fits" "num_val fits \<le> num_val amount"
    "bk_maxburst ?k = Some m \<Longrightarrow> num_val (bk_content ?k) + num_val fits \<le> of_int m" for m
    using k Cons.prems(3) by (auto simp: fits_def bucket_sound_def split: option.splits)
  obtain c s2 where add: "ht_add clk parent fits s1 = (c, s2)" by fastforce
  from Cons.prems(2) have b: "b \<notin> set parent" "distinct parent" by simp_all
  note p = Cons.IH [OF s1(1) b(2) fits(1) add]
  have same: "ht_bucket s2 b = ?k" using p b(1) by (simp add: ht_outside_def)
  let ?f = "\<lambda>k. k\<lparr>bk_content := py_add (bk_content k) c\<rparr>"
  have up: "(if parent \<noteq> [] then ht_add clk parent fits s1 else (fits, s1)) = (c, s2)" using add by auto
  have "ht_add clk (b # parent) amount s = (c, ht_upd b ?f s2)"
    unfolding ht_add.simps s1_def [symmetric] Let_def fits_def [symmetric] up by simp
  with Cons.prems(4) have result: "a = c" "t = ht_upd b ?f s2" by simp_all
  have "num_val (bk_content ?k) + num_val c \<le> of_int m" if "bk_maxburst ?k = Some m" for m
    using p fits(3) [OF that] by simp
  moreover have later: "bucket_sound (clk (ht_reads s2)) ?k" using p ht_soundD(2) [of clk s2 b] same by simp
  ultimately have f: "bucket_sound (clk (ht_reads s2)) (?f (ht_bucket s2 b))"
    using p unfolding same by (auto simp: bucket_sound_def)
  have g: "bucket_flow (num_val c) (ht_bucket s2 b) (?f (ht_bucket s2 b))" by (simp add: bucket_flow_def)
  have sound: "ht_sound clk t" unfolding result using p by (intro ht_upd_sound f) simp
  have "ht_flow (\<lambda>d. 0 + (if d \<in> set parent then num_val c else 0) + (if d = b then num_val c else 0)) s t"
    unfolding result using ht_flow_trans [OF ht_flow_trans [OF s1(2)] ht_upd_flow [of _ s2 b ?f, OF g]] p by blast
  moreover have "(\<lambda>d. 0 + (if d \<in> set parent then num_val c else 0) + (if d = b then num_val c else 0)) =
      (\<lambda>d. if d \<in> set (b # parent) then num_val a else 0)" using b(1) by (auto simp: result(1))
  ultimately have flow: "ht_flow (\<lambda>d. if d \<in> set (b # parent) then num_val a else 0) s t" by simp
  have "ht_outside (b # parent) s t" using s1(3) p by (simp add: ht_outside_def result ht_upd_def)
  moreover have "ht_reads s \<le> ht_reads t" using s1(4) p by (simp add: result ht_upd_def)
  ultimately show ?case using sound flow p fits by (simp add: result(1))
qed

datatype bucket_op = BkAdd ref int | BkDrip ref

fun bucket_step :: "(nat \<Rightarrow> rat) \<Rightarrow> bucket_op \<Rightarrow> 'f bucket_store \<Rightarrow> 'f bucket_store" where
  "bucket_step clk (BkAdd ref n) s = snd (ht_add clk ref (PInt n) s)"
| "bucket_step clk (BkDrip ref) s = snd (ht_drip clk ref s)"

text \<open>What an operation adds to bucket \<open>b\<close>, directly or through one of its descendants.\<close>

fun bucket_accepts :: "(nat \<Rightarrow> rat) \<Rightarrow> nat \<Rightarrow> bucket_op \<Rightarrow> 'f bucket_store \<Rightarrow> rat" where
  "bucket_accepts clk b (BkAdd ref n) s = (if b \<in> set ref then num_val (fst (ht_add clk ref (PInt n) s)) else 0)"
| "bucket_accepts clk b (BkDrip ref) s = 0"

fun bucket_op_ok :: "bucket_op \<Rightarrow> bool" where
  "bucket_op_ok (BkAdd ref n) \<longleftrightarrow> distinct ref \<and> 0 \<le> n"
| "bucket_op_ok (BkDrip ref) \<longleftrightarrow> True"

lemma bucket_step_effect:
  assumes "ht_sound clk s" "bucket_op_ok x"
  shows "ht_sound clk (bucket_step clk x s) \<and> ht_flow (\<lambda>b. bucket_accepts clk b x s) s (bucket_step clk x s)"
proof (cases x)
  case (BkAdd ref n)
  obtain a t where add: "ht_add clk ref (PInt n) s = (a, t)" by fastforce
  then have "bucket_step clk x s = t" "(\<lambda>b. bucket_accepts clk b x s) = (\<lambda>b. if b \<in> set ref then num_val a else 0)"
    by (auto simp: BkAdd fun_eq_iff)
  with BkAdd assms ht_add_effect [OF assms(1) _ _ add] show ?thesis by simp
next
  case (BkDrip ref)
  with ht_drip_effect [OF assms(1), of ref] show ?thesis by simp
qed

definition bucket_is :: "(nat \<Rightarrow> rat) \<Rightarrow> nat \<Rightarrow> int \<Rightarrow> int \<Rightarrow> 'f bucket_store \<Rightarrow> bool" where
  "bucket_is clk b maxburst rate s \<longleftrightarrow>
     ht_sound clk s \<and> bk_maxburst (ht_bucket s b) = Some maxburst \<and> bk_rate (ht_bucket s b) = Some rate"

lemma bucket_is_flow:
  assumes "bucket_is clk b m r s" "ht_sound clk t" "ht_flow a s t"
  shows "bucket_is clk b m r t"
    "bk_level s b + a b \<le> bk_level t b + of_int r * (bk_lastDrip (ht_bucket t b) - bk_lastDrip (ht_bucket s b))"
  using assms by (simp_all add: bucket_is_def ht_flow_def bucket_flow_def bk_level_def)

lemma bucket_is_level: "bucket_is clk b m r s \<Longrightarrow> 0 \<le> bk_level s b \<and> bk_level s b \<le> of_int m"
  using ht_soundD(2) [of clk s b] by (simp add: bucket_is_def bucket_sound_def bk_level_def)

interpretation bucket: metered "bucket_step clk" bucket_op_ok "bucket_is clk b m r" "bucket_accepts clk b"
    "\<lambda>s. bk_level s b" "\<lambda>s. bk_lastDrip (ht_bucket s b)" "of_int m" "of_int r" for clk b m r
proof
  fix s :: "'a bucket_store" and x
  assume s: "bucket_is clk b m r s" and x: "bucket_op_ok x"
  then have "ht_sound clk s" by (simp add: bucket_is_def)
  from bucket_step_effect [OF this x] have t: "ht_sound clk (bucket_step clk x s)"
    "ht_flow (\<lambda>b. bucket_accepts clk b x s) s (bucket_step clk x s)" by simp_all
  show "bucket_is clk b m r (bucket_step clk x s)" by (rule bucket_is_flow(1) [OF s t])
  show "bk_level s b + bucket_accepts clk b x s \<le> bk_level (bucket_step clk x s) b +
      of_int r * (bk_lastDrip (ht_bucket (bucket_step clk x s) b) - bk_lastDrip (ht_bucket s b))"
    by (rule bucket_is_flow(2) [OF s t])
qed (rule bucket_is_level)

text \<open>
  A token bucket limits the rate.  Over any sequence of \<open>add\<close> and \<open>drip\<close> on any buckets,
  what is added to a bucket, by itself or through the buckets below it, is at most \<open>maxburst\<close> plus
  \<open>rate\<close> for each second since the bucket was last drained before.
\<close>

theorem bucket_rate_limit:
  assumes "ht_sound clk s" "\<forall>x \<in> set xs. bucket_op_ok x"
    and "bk_maxburst (ht_bucket s b) = Some maxburst" "bk_rate (ht_bucket s b) = Some rate"
  shows "metered_total (bucket_step clk) (bucket_accepts clk b) xs s \<le>
    of_int maxburst + of_int rate * (bk_lastDrip (ht_bucket (fold (bucket_step clk) xs s) b) - bk_lastDrip (ht_bucket s b))"
  using assms by (intro bucket.total_bound) (simp_all add: bucket_is_def)

definition two_buckets :: "unit bucket_store" where
  "two_buckets = \<lparr> ht_bucket = (\<lambda>b. \<lparr> bk_maxburst = Some 100, bk_rate = Some 2, bk_refcount = 0,
     bk_content = PInt 0, bk_lastDrip = 0 \<rparr>), ht_made = 3, ht_reads = 0, ht_filters = () \<rparr>"

theorem bucket_rate_limit_witness:
  "metered_total (bucket_step of_nat) (bucket_accepts of_nat 0) [BkAdd [1, 0] 90, BkAdd [2, 0] 90] two_buckets \<le>
    100 + 2 * (bk_lastDrip (ht_bucket (fold (bucket_step of_nat) [BkAdd [1, 0] 90, BkAdd [2, 0] 90] two_buckets) 0) - 0)"
proof -
  have "ht_sound of_nat two_buckets"
    by (simp add: ht_sound_def bucket_sound_def two_buckets_def mono_def)
  from bucket_rate_limit [OF this, of "[BkAdd [1, 0] 90, BkAdd [2, 0] 90]" 0 100 2] show ?thesis
    by (simp add: two_buckets_def del: fold.simps metered_total.simps)
qed


section \<open>The buckets that filters hand out\<close>

text \<open>A reference that a filter keeps names distinct buckets that exist.\<close>

definition ref_ok :: "nat \<Rightarrow> ref \<Rightarrow> bool" where
  "ref_ok n ref \<longleftrightarrow> distinct ref \<and> (\<forall>b \<in> set ref. b < n)"

definition filter_ok :: "nat \<Rightarrow> bucket_filter \<Rightarrow> bool" where
  "filter_ok n fl \<longleftrightarrow> (\<forall>(key, ref) \<in> set (bf_buckets fl). ref \<noteq> [] \<and> ref_ok n ref) \<and>
     (\<forall>m. bf_maxburst fl = Some m \<longrightarrow> 0 \<le> m) \<and> (\<forall>r. bf_rate fl = Some r \<longrightarrow> 0 \<le> r)"

definition filters_sound :: "(nat \<Rightarrow> rat) \<Rightarrow> filters bucket_store \<Rightarrow> bool" where
  "filters_sound clk s \<longleftrightarrow> ht_sound clk s \<and> (\<forall>f. filter_ok (ht_made s) (ht_filters s f))"

lemma filters_soundD: "filters_sound clk s \<Longrightarrow> ht_sound clk s" "filters_sound clk s \<Longrightarrow> filter_ok (ht_made s) (ht_filters s f)"
  by (simp_all add: filters_sound_def)

lemma filter_ok_more: "filter_ok n fl \<Longrightarrow> n \<le> k \<Longrightarrow> filter_ok k fl"
  by (fastforce simp: filter_ok_def ref_ok_def)

lemma filter_ok_ref: "filter_ok n fl \<Longrightarrow> map_of (bf_buckets fl) key = Some ref \<Longrightarrow> ref \<noteq> [] \<and> ref_ok n ref"
  by (auto simp: filter_ok_def dest: map_of_SomeD)

lemma ht_drain_rest [simp]:
  "ht_made (ht_drain clk b s) = ht_made s" "ht_filters (ht_drain clk b s) = ht_filters s"
  "bk_refcount (ht_bucket (ht_drain clk b s) c) = bk_refcount (ht_bucket s c)"
  by (simp_all add: ht_drain_def ht_time_def ht_upd_def split: option.splits)

lemma ht_drip_rest [simp]:
  "ht_made (snd (ht_drip clk ref s)) = ht_made s \<and> ht_filters (snd (ht_drip clk ref s)) = ht_filters s \<and>
   bk_refcount (ht_bucket (snd (ht_drip clk ref s)) c) = bk_refcount (ht_bucket s c)"
  by (induction ref) (simp_all add: Let_def)

text \<open>A sweep drops only buckets that nobody uses, and drains the others.\<close>

lemma bf_sweepItems_effect:
  assumes "ht_sound clk s" "bf_sweepItems clk items s = (kept, t)"
  shows "ht_sound clk t \<and> ht_made t = ht_made s \<and> ht_filters t = ht_filters s \<and> set kept \<subseteq> set items \<and>
    (\<forall>c. bk_refcount (ht_bucket t c) = bk_refcount (ht_bucket s c)) \<and>
    (\<forall>(key, ref) \<in> set items. bk_refcount (ht_bucket s (hd ref)) \<noteq> 0 \<longrightarrow> (key, ref) \<in> set kept)"
  using assms
proof (induction items arbitrary: s kept t)
  case (Cons item items)
  obtain key ref where item: "item = (key, ref)" by fastforce
  obtain empty s1 where s1: "ht_drip clk ref s = (empty, s1)" by fastforce
  obtain kept' t' where t': "bf_sweepItems clk items s1 = (kept', t')" by fastforce
  have d: "ht_sound clk s1" "ht_made s1 = ht_made s" "ht_filters s1 = ht_filters s"
    "\<And>c. bk_refcount (ht_bucket s1 c) = bk_refcount (ht_bucket s c)"
    using ht_drip_effect [OF Cons.prems(1), of ref] ht_drip_rest [of clk ref s] by (simp_all add: s1)
  have t: "t = t'" "kept = (if bk_refcount (ht_bucket s (hd ref)) = 0 \<and> empty then kept' else (key, ref) # kept')"
    using Cons.prems(2) by (simp_all add: item s1 t' d(4))
  note IH = Cons.IH [OF d(1) t', unfolded d(2-4)]
  then have "set kept \<subseteq> set (item # items)" by (auto simp: t(2) item)
  moreover have "\<forall>(key, ref) \<in> set (item # items). bk_refcount (ht_bucket s (hd ref)) \<noteq> 0 \<longrightarrow> (key, ref) \<in> set kept"
    using IH by (auto simp: t(2) item)
  ultimately show ?case using IH by (simp add: t(1))
qed simp

lemma bf_sweep_sound:
  assumes "filters_sound clk s"
  shows "filters_sound clk (bf_sweep clk f s)" "ht_made (bf_sweep clk f s) = ht_made s"
proof -
  obtain kept t where t: "bf_sweepItems clk (bf_buckets (ht_filters s f)) s = (kept, t)" by fastforce
  note e = bf_sweepItems_effect [OF filters_soundD(1) [OF assms] t]
  have t_sound: "ht_sound clk t" and tf: "ht_filters t = ht_filters s" and tm: "ht_made t = ht_made s" and kept: "set kept \<subseteq> set (bf_buckets (ht_filters s f))"
    using e by blast+
  let ?fl = "(ht_filters s f)\<lparr>bf_buckets := kept, bf_lastSweep := clk (ht_reads t)\<rparr>"
  have fl: "filter_ok (ht_made s) ?fl" using kept filters_soundD(2) [OF assms, of f] by (auto simp: filter_ok_def)
  have eq: "bf_sweep clk f s = t\<lparr>ht_reads := ht_reads t + 1, ht_filters := (ht_filters s)(f := ?fl)\<rparr>"
    by (simp add: bf_sweep_def t ht_time_def tf)
  have "ht_sound clk (bf_sweep clk f s)" unfolding eq by (rule ht_sound_later [OF t_sound]) simp_all
  moreover have "filter_ok (ht_made s) (((ht_filters s)(f := ?fl)) g)" for g
    using fl filters_soundD(2) [OF assms] by simp
  ultimately show "filters_sound clk (bf_sweep clk f s)" by (simp add: filters_sound_def) (simp add: eq tm)
  show "ht_made (bf_sweep clk f s) = ht_made s" by (simp add: eq tm)
qed

lemma ht_newBucket_sound:
  assumes "filters_sound clk s" "ref_ok (ht_made s) parent" "ht_newBucket clk m r parent s = (ref, t)"
    and "\<And>x. m = Some x \<Longrightarrow> 0 \<le> x" "\<And>x. r = Some x \<Longrightarrow> 0 \<le> x"
  shows "filters_sound clk t \<and> ref \<noteq> [] \<and> ref_ok (ht_made t) ref \<and> ht_made t = ht_made s + 1 \<and> ht_filters t = ht_filters s"
proof -
  let ?now = "clk (ht_reads s)" and ?b = "ht_made s"
  let ?k = "\<lparr> bk_maxburst = m, bk_rate = r, bk_refcount = 0, bk_content = PInt 0, bk_lastDrip = ?now \<rparr>"
  have ref: "ref = ?b # parent"
    and t: "t = s\<lparr>ht_reads := ht_reads s + 1, ht_bucket := (ht_bucket s)(?b := ?k), ht_made := ?b + 1\<rparr>"
    using assms(3) by (auto simp: ht_newBucket_def ht_time_def Let_def)
  have clk: "mono clk" using assms(1) by (simp add: filters_sound_def ht_sound_def)
  then have later: "?now \<le> clk (Suc (ht_reads s))" by (simp add: monoD)
  have "bucket_sound (clk (Suc (ht_reads s))) ?k" using assms(4,5) later by (simp add: bucket_sound_def)
  moreover have "bucket_sound (clk (Suc (ht_reads s))) (ht_bucket s b)" for b
    using bucket_sound_later [OF ht_soundD(2) [OF filters_soundD(1) [OF assms(1)]] later] .
  ultimately have "ht_sound clk t" using clk by (simp add: ht_sound_def t)
  moreover have "filter_ok (ht_made t) (ht_filters t f)" for f
    using filter_ok_more [OF filters_soundD(2) [OF assms(1), of f]] by (simp add: t)
  moreover have "ref_ok (ht_made t) ref" using assms(2) by (auto simp: ref_ok_def ref t)
  ultimately show ?thesis by (simp add: filters_sound_def t ref)
qed


lemma bf_maybeSweep_sound:
  assumes "filters_sound clk s"
  shows "filters_sound clk (bf_maybeSweep clk f s)"
proof -
  let ?t = "s\<lparr>ht_reads := ht_reads s + 1\<rparr>"
  have "ht_sound clk ?t" by (rule ht_sound_later [OF filters_soundD(1) [OF assms]]) simp_all
  then have "filters_sound clk ?t" using filters_soundD(2) [OF assms] by (simp add: filters_sound_def)
  with bf_sweep_sound(1) [OF this, of f] assms show ?thesis
    by (simp add: bf_maybeSweep_def ht_time_def split: option.split)
qed

lemma bf_keep_sound:
  assumes "filters_sound clk s" "ref \<noteq> []" "ref_ok (ht_made s) ref"
  shows "filters_sound clk (s\<lparr>ht_filters := (ht_filters s)(f := (ht_filters s f)\<lparr>bf_buckets := bf_buckets (ht_filters s f) @ [(key, ref)]\<rparr>)\<rparr>)"
    (is "filters_sound clk ?t")
proof -
  have "ht_sound clk ?t" by (rule ht_sound_later [OF filters_soundD(1) [OF assms(1)]]) simp_all
  moreover have "filter_ok (ht_made ?t) (ht_filters ?t g)" for g
    using filters_soundD(2) [OF assms(1)] assms(2,3) by (auto simp: filter_ok_def)
  ultimately show ?thesis by (simp add: filters_sound_def)
qed

lemma bf_getBucketFor_sound:
  assumes "filters_sound clk s" "bf_getBucketFor clk fs a s = (result, t)"
  shows "filters_sound clk t \<and> (\<forall>ref. result = Inr ref \<longrightarrow> ref_ok (ht_made t) ref \<and> (ref = [] \<longleftrightarrow> fs = []))"
  using assms
proof (induction fs arbitrary: a s result t)
  case Nil
  then show ?case by (auto simp: ref_ok_def)
next
  case (Cons f fs)
  let ?s1 = "bf_maybeSweep clk f s"
  have s1: "filters_sound clk ?s1" by (rule bf_maybeSweep_sound [OF Cons.prems(1)])
  obtain p s2 where p: "bf_getBucketFor clk fs (FilterArg f # a) ?s1 = (p, s2)" by fastforce
  have parent: "(if fs \<noteq> [] then bf_getBucketFor clk fs (FilterArg f # a) ?s1 else (Inr [], ?s1)) = (p, s2)"
    using p by auto
  have get: "bf_getBucketFor clk (f # fs) a s = (case p of
      Inl e \<Rightarrow> (Inl e, s2)
    | Inr parent \<Rightarrow>
        case bf_getBucketKey (bf_class (ht_filters s2 f)) a of
          Inl e \<Rightarrow> (Inl e, s2)
        | Inr key \<Rightarrow>
            case map_of (bf_buckets (ht_filters s2 f)) key of
              Some bucket \<Rightarrow> (Inr bucket, s2)
            | None \<Rightarrow>
                let (bucket, s3) = ht_newBucket clk (bf_maxburst (ht_filters s2 f)) (bf_rate (ht_filters s2 f)) parent s2
                in (Inr bucket,
                    s3\<lparr>ht_filters := (ht_filters s3)(f := (ht_filters s3 f)
                         \<lparr>bf_buckets := bf_buckets (ht_filters s3 f) @ [(key, bucket)]\<rparr>)\<rparr>))"
    unfolding bf_getBucketFor.simps Let_def parent by simp
  note IH = Cons.IH [OF s1 p]
  then have s2: "filters_sound clk s2" by blast
  note fl = filters_soundD(2) [OF s2, of f]
  show ?case
  proof (cases p)
    case (Inl e)
    with Cons.prems(2) get s2 show ?thesis by auto
  next
    case (Inr parent)
    with IH have parent: "ref_ok (ht_made s2) parent" by blast
    show ?thesis
    proof (cases "bf_getBucketKey (bf_class (ht_filters s2 f)) a")
      case (Inl e)
      with Inr Cons.prems(2) get s2 show ?thesis by auto
    next
      case key: (Inr key)
      show ?thesis
      proof (cases "map_of (bf_buckets (ht_filters s2 f)) key")
        case (Some ref)
        with Inr key Cons.prems(2) get s2 filter_ok_ref [OF fl Some] show ?thesis by auto
      next
        case None
        obtain ref s3 where new: "ht_newBucket clk (bf_maxburst (ht_filters s2 f)) (bf_rate (ht_filters s2 f)) parent s2 = (ref, s3)"
          by fastforce
        have n: "filters_sound clk s3" "ref \<noteq> []" "ref_ok (ht_made s3) ref"
          using ht_newBucket_sound [OF s2 parent new] fl by (auto simp: filter_ok_def)
        from Inr key None new Cons.prems(2) get have r: "result = Inr ref"
          "t = s3\<lparr>ht_filters := (ht_filters s3)(f := (ht_filters s3 f)\<lparr>bf_buckets := bf_buckets (ht_filters s3 f) @ [(key, ref)]\<rparr>)\<rparr>"
          by simp_all
        from bf_keep_sound [OF n] n show ?thesis by (simp add: r)
      qed
    qed
  qed
qed

section \<open>Which bucket a filter hands out\<close>

text \<open>
  The caches are keyed: each filter has one bucket for a key, and no bucket is cached twice, by
  one filter or by two.
\<close>

definition filters_keyed :: "filters bucket_store \<Rightarrow> bool" where
  "filters_keyed s \<longleftrightarrow>
     (\<forall>f. distinct (map fst (bf_buckets (ht_filters s f)))) \<and>
     (\<forall>f. \<forall>(k, r) \<in> set (bf_buckets (ht_filters s f)). hd r < ht_made s) \<and>
     (\<forall>f g. \<forall>(k, r) \<in> set (bf_buckets (ht_filters s f)). \<forall>(l, q) \<in> set (bf_buckets (ht_filters s g)). hd r = hd q \<longrightarrow> f = g \<and> k = l)"

text \<open>What happens to the caches: only unused buckets are dropped, and what is added is new.\<close>

definition filters_step :: "filters bucket_store \<Rightarrow> filters bucket_store \<Rightarrow> bool" where
  "filters_step s t \<longleftrightarrow> filters_keyed t \<and> ht_made s \<le> ht_made t \<and>
     (\<forall>f. bf_class (ht_filters t f) = bf_class (ht_filters s f)) \<and>
     (\<forall>b < ht_made s. bk_refcount (ht_bucket t b) = bk_refcount (ht_bucket s b)) \<and>
     (\<forall>f. \<forall>(k, r) \<in> set (bf_buckets (ht_filters s f)).
        bk_refcount (ht_bucket s (hd r)) \<noteq> 0 \<longrightarrow> (k, r) \<in> set (bf_buckets (ht_filters t f)))"

lemma filters_keyedD:
  assumes "filters_keyed s"
  shows "distinct (map fst (bf_buckets (ht_filters s f)))"
    and "(k, r) \<in> set (bf_buckets (ht_filters s f)) \<Longrightarrow> hd r < ht_made s"
    and "(k, r) \<in> set (bf_buckets (ht_filters s f)) \<Longrightarrow> (l, q) \<in> set (bf_buckets (ht_filters s g)) \<Longrightarrow> hd r = hd q \<Longrightarrow> f = g \<and> k = l"
  using assms unfolding filters_keyed_def by blast+

lemma filters_keyedI:
  assumes "\<And>f. distinct (map fst (bf_buckets (ht_filters s f)))"
    and "\<And>f k r. (k, r) \<in> set (bf_buckets (ht_filters s f)) \<Longrightarrow> hd r < ht_made s"
    and "\<And>f g k l r q. (k, r) \<in> set (bf_buckets (ht_filters s f)) \<Longrightarrow> (l, q) \<in> set (bf_buckets (ht_filters s g)) \<Longrightarrow> hd r = hd q \<Longrightarrow> f = g \<and> k = l"
  shows "filters_keyed s"
  using assms unfolding filters_keyed_def by blast

lemma filters_stepD:
  assumes "filters_step s t"
  shows "filters_keyed t" "ht_made s \<le> ht_made t" "bf_class (ht_filters t f) = bf_class (ht_filters s f)"
    and "b < ht_made s \<Longrightarrow> bk_refcount (ht_bucket t b) = bk_refcount (ht_bucket s b)"
    and "(k, r) \<in> set (bf_buckets (ht_filters s f)) \<Longrightarrow> bk_refcount (ht_bucket s (hd r)) \<noteq> 0 \<Longrightarrow>
      (k, r) \<in> set (bf_buckets (ht_filters t f))"
  using assms unfolding filters_step_def by blast+

lemma filters_step_refl: "filters_keyed s \<Longrightarrow> filters_step s s"
  unfolding filters_step_def by blast

lemma filters_step_trans:
  assumes "filters_keyed s" "filters_step s t" "filters_step t u"
  shows "filters_step s u"
proof -
  note st = filters_stepD [OF assms(2)] and tu = filters_stepD [OF assms(3)]
  have "(k, r) \<in> set (bf_buckets (ht_filters u f))"
    if "(k, r) \<in> set (bf_buckets (ht_filters s f))" "bk_refcount (ht_bucket s (hd r)) \<noteq> 0" for f k r
    using tu(5) [OF st(5) [OF that]] st(4) [OF filters_keyedD(2) [OF assms(1) that(1)]] that(2) by simp
  moreover have "bk_refcount (ht_bucket u b) = bk_refcount (ht_bucket s b)" if "b < ht_made s" for b
    using st(4) [OF that] tu(4) [of b] st(2) that by simp
  ultimately show ?thesis
    unfolding filters_step_def using tu(1) order_trans [OF st(2) tu(2)] st(3) tu(3) by auto
qed

lemma bf_sweepItems_kept:
  "bf_sweepItems clk items s = (kept, t) \<Longrightarrow>
    ht_made t = ht_made s \<and> ht_filters t = ht_filters s \<and> (\<forall>c. bk_refcount (ht_bucket t c) = bk_refcount (ht_bucket s c)) \<and>
    set kept \<subseteq> set items \<and> (distinct (map fst items) \<longrightarrow> distinct (map fst kept)) \<and>
    (\<forall>(key, ref) \<in> set items. bk_refcount (ht_bucket s (hd ref)) \<noteq> 0 \<longrightarrow> (key, ref) \<in> set kept)"
proof (induction items arbitrary: s kept t)
  case (Cons item items)
  obtain key ref where item: "item = (key, ref)" by fastforce
  obtain empty s1 where s1: "ht_drip clk ref s = (empty, s1)" by fastforce
  obtain kept' t' where t': "bf_sweepItems clk items s1 = (kept', t')" by fastforce
  have d: "ht_made s1 = ht_made s" "ht_filters s1 = ht_filters s" "\<And>c. bk_refcount (ht_bucket s1 c) = bk_refcount (ht_bucket s c)"
    using ht_drip_rest [of clk ref s] by (simp_all add: s1)
  have t: "t = t'" "kept = (if bk_refcount (ht_bucket s (hd ref)) = 0 \<and> empty then kept' else (key, ref) # kept')"
    using Cons.prems by (simp_all add: item s1 t' d(3))
  note IH = Cons.IH [OF t', unfolded d]
  then have "distinct (map fst (item # items)) \<longrightarrow> distinct (map fst kept)" by (auto simp: t(2) item)
  moreover have "set kept \<subseteq> set (item # items)" using IH by (auto simp: t(2) item)
  moreover have "\<forall>(key, ref) \<in> set (item # items). bk_refcount (ht_bucket s (hd ref)) \<noteq> 0 \<longrightarrow> (key, ref) \<in> set kept"
    using IH by (auto simp: t(2) item)
  ultimately show ?case using IH by (simp add: t(1))
qed simp

lemma bf_sweep_step:
  assumes "filters_keyed s"
  shows "filters_step s (bf_sweep clk f s)"
proof -
  obtain kept t where t: "bf_sweepItems clk (bf_buckets (ht_filters s f)) s = (kept, t)" by fastforce
  note e = bf_sweepItems_kept [OF t]
  define u where "u = bf_sweep clk f s"
  have u: "ht_made u = ht_made s" "bk_refcount (ht_bucket u b) = bk_refcount (ht_bucket s b)"
    "bf_buckets (ht_filters u g) = (if g = f then kept else bf_buckets (ht_filters s g))" "bf_class (ht_filters u g) = bf_class (ht_filters s g)" for b g
    using e by (simp_all add: u_def bf_sweep_def t ht_time_def)
  have kept: "set (bf_buckets (ht_filters u g)) \<subseteq> set (bf_buckets (ht_filters s g))" for g using e by (simp add: u(3))
  have "distinct (map fst (bf_buckets (ht_filters u g)))" for g using e filters_keyedD(1) [OF assms] by (simp add: u(3))
  then have "filters_keyed u"
  proof (rule filters_keyedI)
    fix g h k l r q
    assume g: "(k, r) \<in> set (bf_buckets (ht_filters u g))"
    with kept show "hd r < ht_made u" using filters_keyedD(2) [OF assms] unfolding u(1) by blast
    assume h: "(l, q) \<in> set (bf_buckets (ht_filters u h))" and "hd r = hd q"
    with g kept show "g = h \<and> k = l" using filters_keyedD(3) [OF assms] by blast
  qed
  moreover have "(k, r) \<in> set (bf_buckets (ht_filters u g))"
    if "(k, r) \<in> set (bf_buckets (ht_filters s g))" "bk_refcount (ht_bucket s (hd r)) \<noteq> 0" for g k r
    using that e by (auto simp: u(3))
  ultimately show ?thesis unfolding u_def [symmetric] filters_step_def using u(1,2,4) by auto
qed

lemma bf_maybeSweep_step:
  assumes "filters_keyed s"
  shows "filters_step s (bf_maybeSweep clk f s)"
proof -
  let ?t = "s\<lparr>ht_reads := ht_reads s + 1\<rparr>"
  have "filters_keyed ?t" using assms by (simp add: filters_keyed_def)
  moreover from this have "filters_step s ?t" by (auto simp: filters_step_def)
  ultimately have "filters_step s (bf_sweep clk f ?t)" by (intro filters_step_trans [OF assms _ bf_sweep_step])
  with \<open>filters_step s ?t\<close> filters_step_refl [OF assms] show ?thesis
    by (simp add: bf_maybeSweep_def ht_time_def split: option.split)
qed

lemma ht_newBucket_step:
  assumes "filters_keyed s" "map_of (bf_buckets (ht_filters s f)) key = None" "ht_newBucket clk m r parent s = (ref, t)"
  defines "u \<equiv> t\<lparr>ht_filters := (ht_filters t)(f := (ht_filters t f)\<lparr>bf_buckets := bf_buckets (ht_filters t f) @ [(key, ref)]\<rparr>)\<rparr>"
  shows "filters_step s u" "(key, ref) \<in> set (bf_buckets (ht_filters u f))"
proof -
  have ref: "hd ref = ht_made s" and t: "ht_made t = ht_made s + 1" "ht_filters t = ht_filters s"
    "\<And>b. b < ht_made s \<Longrightarrow> bk_refcount (ht_bucket t b) = bk_refcount (ht_bucket s b)"
    using assms(3) by (auto simp: ht_newBucket_def ht_time_def Let_def)
  have u: "ht_made u = ht_made s + 1" "bf_class (ht_filters u g) = bf_class (ht_filters s g)"
    "bf_buckets (ht_filters u g) = (if g = f then bf_buckets (ht_filters s f) @ [(key, ref)] else bf_buckets (ht_filters s g))" for g
    using t by (simp_all add: u_def)
  have "key \<notin> fst ` set (bf_buckets (ht_filters s f))" using assms(2) by (simp add: map_of_eq_None_iff)
  have old: "hd r < ht_made s" if "(k, r) \<in> set (bf_buckets (ht_filters s g))" for g k r
    using filters_keyedD(2) [OF assms(1) that] .
  have in_u: "(k, r) \<in> set (bf_buckets (ht_filters u g)) \<longleftrightarrow> (k, r) \<in> set (bf_buckets (ht_filters s g)) \<or> g = f \<and> k = key \<and> r = ref" for g k r
    by (auto simp: u(3))
  have "g = h \<and> k = l" if g: "(k, r) \<in> set (bf_buckets (ht_filters u g))" and h: "(l, q) \<in> set (bf_buckets (ht_filters u h))" and eq: "hd r = hd q"
    for g h k l r q
    using g h unfolding in_u
    by (elim disjE conjE) (use eq ref old [of k r g] old [of l q h] filters_keyedD(3) [OF assms(1) _ _ eq] in \<open>auto\<close>)
  moreover have "distinct (map fst (bf_buckets (ht_filters u g)))" for g
    using filters_keyedD(1) [OF assms(1)] \<open>key \<notin> _\<close> by (simp add: u(3))
  moreover have "hd r < ht_made u" if "(k, r) \<in> set (bf_buckets (ht_filters u g))" for g k r
    using that old ref unfolding in_u u(1) by (auto intro: less_SucI)
  ultimately have "filters_keyed u" by (blast intro: filters_keyedI)
  moreover have "bk_refcount (ht_bucket u b) = bk_refcount (ht_bucket s b)" if "b < ht_made s" for b using t(3) [OF that] by (simp add: u_def)
  ultimately show "filters_step s u" unfolding filters_step_def using u(1,2) in_u by auto
  show "(key, ref) \<in> set (bf_buckets (ht_filters u f))" by (simp add: in_u)
qed

text \<open>An answer is the bucket that the first filter keeps for the key of the arguments.\<close>

lemma bf_getBucketFor_step:
  assumes "filters_keyed s" "bf_getBucketFor clk fs a s = (result, t)"
  shows "filters_step s t \<and> (\<forall>ref f gs. result = Inr ref \<longrightarrow> fs = f # gs \<longrightarrow>
    (\<exists>key. bf_getBucketKey (bf_class (ht_filters s f)) a = Inr key \<and> (key, ref) \<in> set (bf_buckets (ht_filters t f))))"
  using assms
proof (induction fs arbitrary: a s result t)
  case Nil
  then show ?case by (simp add: filters_step_refl)
next
  case (Cons f fs)
  let ?s1 = "bf_maybeSweep clk f s"
  note s1 = bf_maybeSweep_step [OF Cons.prems(1), of clk f]
  obtain p s2 where p: "bf_getBucketFor clk fs (FilterArg f # a) ?s1 = (p, s2)" by fastforce
  then have parent: "(if fs \<noteq> [] then bf_getBucketFor clk fs (FilterArg f # a) ?s1 else (Inr [], ?s1)) = (p, s2)" by auto
  note get = Cons.prems(2) [unfolded bf_getBucketFor.simps Let_def parent]
  from Cons.IH [OF filters_stepD(1) [OF s1] p] have "filters_step ?s1 s2" by blast
  with filters_step_trans [OF Cons.prems(1) s1] have s2: "filters_step s s2" by blast
  note keyed = filters_stepD(1) [OF s2] and cls = filters_stepD(3) [OF s2, of f]
  show ?case
  proof (cases p)
    case (Inl e)
    with get s2 show ?thesis by auto
  next
    case (Inr parent)
    show ?thesis
    proof (cases "bf_getBucketKey (bf_class (ht_filters s2 f)) a")
      case (Inl e)
      with Inr get s2 show ?thesis by auto
    next
      case key: (Inr key)
      show ?thesis
      proof (cases "map_of (bf_buckets (ht_filters s2 f)) key")
        case (Some ref)
        with Inr key get s2 cls map_of_SomeD [OF Some] show ?thesis by auto
      next
        case None
        obtain ref s3 where new: "ht_newBucket clk (bf_maxburst (ht_filters s2 f)) (bf_rate (ht_filters s2 f)) parent s2 = (ref, s3)"
          by fastforce
        note n = ht_newBucket_step [OF keyed None new]
        from Inr key None new get have r: "result = Inr ref"
          "t = s3\<lparr>ht_filters := (ht_filters s3)(f := (ht_filters s3 f)\<lparr>bf_buckets := bf_buckets (ht_filters s3 f) @ [(key, ref)]\<rparr>)\<rparr>"
          by simp_all
        from filters_step_trans [OF Cons.prems(1) s2 n(1)] n(2) key cls show ?thesis unfolding r(2) [symmetric] by (auto simp: r(1))
      qed
    qed
  qed
qed

lemma ht_add_rest: "ht_made (snd (ht_add clk ref n s)) = ht_made s \<and> ht_filters (snd (ht_add clk ref n s)) = ht_filters s \<and>
    bk_refcount (ht_bucket (snd (ht_add clk ref n s)) c) = bk_refcount (ht_bucket s c)"
proof (induction ref arbitrary: s n)
  case (Cons b parent)
  then show ?case
    using ht_drip_rest [of clk "b # parent" s c]
    by (auto simp: Let_def case_prod_beta ht_upd_def simp del: ht_drip.simps)
qed simp

lemma bucket_step_rest: "ht_made (bucket_step clk x s) = ht_made s" "ht_filters (bucket_step clk x s) = ht_filters s"
    "bk_refcount (ht_bucket (bucket_step clk x s) c) = bk_refcount (ht_bucket s c)"
  by (cases x; simp add: ht_add_rest)+

definition two_filters :: "filters bucket_store" where
  "two_filters = \<lparr> ht_bucket = (\<lambda>b. \<lparr> bk_maxburst = None, bk_rate = None, bk_refcount = 0,
     bk_content = PInt 0, bk_lastDrip = 0 \<rparr>), ht_made = 0, ht_reads = 0,
     ht_filters = (\<lambda>f. \<lparr> bf_class = (if f = 0 then HierarchicalBucketFilter else FilterByHost), bf_sweepInterval = None,
       bf_maxburst = Some 100, bf_rate = Some 2, bf_buckets = [], bf_lastSweep = 0 \<rparr>) \<rparr>"

lemma two_filters_sound: "filters_sound of_nat two_filters"
  by (simp add: filters_sound_def ht_sound_def bucket_sound_def two_filters_def mono_def filter_ok_def)

abbreviation local_peer :: peer_transport where
  "local_peer \<equiv> \<lparr> tp_getPeer = AddressTuple [PyStr ''INET'', PyStr ''127.0.0.1'', PyNumber 80], tp_getHost = AddressObject \<rparr>"

text \<open>The address objects of the program cannot be indexed, so no filter by host or server ever finds a bucket for them.\<close>

lemma filter_by_address_object:
  assumes "bf_class (ht_filters (bf_maybeSweep clk f s) f) \<noteq> HierarchicalBucketFilter"
    "tp_getPeer p = AddressObject" "tp_getHost p = AddressObject"
  shows "fst (bf_getBucketFor clk [f] [TransportArg p] s) = Inl FilterTypeError"
  using assms unfolding bf_getBucketFor.simps Let_def
  by (cases "bf_class (ht_filters (bf_maybeSweep clk f s) f)") (simp_all add: py_index_def)

text \<open>A parent filter is given the child filter as an extra argument, which a filter by host or server does not take.\<close>

lemma filter_as_parent:
  assumes "bf_class (ht_filters (bf_maybeSweep clk g (bf_maybeSweep clk f s)) g) \<noteq> HierarchicalBucketFilter"
  shows "fst (bf_getBucketFor clk [f, g] [TransportArg p] s) = Inl FilterTypeError"
  using assms unfolding bf_getBucketFor.simps Let_def
  by (cases "bf_class (ht_filters (bf_maybeSweep clk g (bf_maybeSweep clk f s)) g)") simp_all

end
