(* ===== verification/Shaping.thy ===== *)
theory Shaping
  imports ProducerProxy TokenBucket
begin

text \<open>
  \<open>ShapedConsumer\<close>, \<open>ShapedTransport\<close> and \<open>ShapedProtocolFactory\<close> of \<open>twisted/protocols/htb.py\<close>: a
  buffering proxy that sends only as much as its bucket takes.  The store of all buckets
  is part of the state, since other consumers use the same buckets between two operations.
\<close>

section \<open>The shaped consumer\<close>

record shaped = pcbuffered +
  sc_bucket :: ref
  sc_store :: "filters bucket_store"

definition bk_retain :: "int \<Rightarrow> ref \<Rightarrow> filters bucket_store \<Rightarrow> filters bucket_store" where
  "bk_retain n bucket st = ht_upd (hd bucket) (\<lambda>k. k\<lparr>bk_refcount := bk_refcount k + n\<rparr>) st"

definition sc_init :: "ref \<Rightarrow> filters bucket_store \<Rightarrow> shaped" where
  "sc_init bucket st = pcbuffered.extend (pp_init True False) \<lparr> sc_bucket = bucket, sc_store = bk_retain 1 bucket st \<rparr>"

text \<open>\<open>data[:amount]\<close>: a float is not an index.\<close>

fun py_slice_to :: "pynum \<Rightarrow> bytes \<Rightarrow> bytes option" where
  "py_slice_to (PInt i) d = Some (take (nat (if i < 0 then int (length d) + i else i)) d)"
| "py_slice_to (PFloat x) d = None"

definition sc_writeSomeData :: "(nat \<Rightarrow> rat) \<Rightarrow> shaped writer" where
  "sc_writeSomeData clk full d s =
     (let (amount, st) = ht_add clk (sc_bucket s) (PInt (int (length d))) (sc_store s);
          t = s\<lparr>sc_store := st\<rparr>
      in case py_slice_to amount d of
           None \<Rightarrow> (Inl PcTypeError, t)
         | Some part \<Rightarrow> pp_writeSomeData full part t)"

definition sc_stopProducing :: "shaped \<Rightarrow> shaped" where
  "sc_stopProducing s = (let t = bp_stopProducing s in t\<lparr>sc_store := bk_retain (- 1) (sc_bucket t) (sc_store t)\<rparr>)"

text \<open>An operation of the consumer or one on the buckets.  An exception leaves the state it was raised in.\<close>

datatype shaped_op = Shaped pc_op | Buckets bucket_op

definition sc_op :: "(nat \<Rightarrow> rat) \<Rightarrow> pc_op \<Rightarrow> shaped \<Rightarrow> (pc_error, shaped) outcome" where
  "sc_op clk x s = (if x = PcStop then Ok (sc_stopProducing s) else pp_step (sc_writeSomeData clk) x s)"

fun sc_step :: "(nat \<Rightarrow> rat) \<Rightarrow> shaped_op \<Rightarrow> shaped \<Rightarrow> shaped" where
  "sc_step clk (Shaped x) s = state_of (sc_op clk x s)"
| "sc_step clk (Buckets x) s = s\<lparr>sc_store := bucket_step clk x (sc_store s)\<rparr>"

section \<open>The factory\<close>

text \<open>
  The \<open>makeConnection\<close> that the factory puts into a protocol: the transport that the protocol gets
  is the shaped one.  \<open>peer\<close> is what the transport answers to \<open>getPeer\<close> and \<open>getHost\<close>.
\<close>

definition sf_makeConnection :: "(nat \<Rightarrow> rat) \<Rightarrow> ref \<Rightarrow> peer_transport \<Rightarrow> filters bucket_store \<Rightarrow>
    (filter_error + shaped) \<times> filters bucket_store" where
  "sf_makeConnection clk bucketFilter peer st =
     (case bf_getBucketFor clk bucketFilter [TransportArg peer] st of
        (Inl e, st1) \<Rightarrow> (Inl e, st1)
      | (Inr bucket, st1) \<Rightarrow> (Inr (sc_init bucket st1), bk_retain 1 bucket st1))"

section \<open>Nothing is lost\<close>

lemma pc_delivered_sc [simp]: "pc_delivered (s\<lparr>sc_store := st\<rparr>) = pc_delivered s"
  by (simp add: pc_delivered_def)

lemma take_part: "take (min (length d) k) d = take k d"
  by (cases "k \<le> length d") simp_all

lemma pp_write_part:
  assumes "pp_writeSomeData full (take k d) s = (r, t)"
  shows "r = Inr n \<Longrightarrow> n \<le> length d \<and> pc_delivered t = pc_delivered s @ take n d"
    and "r \<noteq> Inl e"
    and "pc_buffer t = pc_buffer s \<and> pc_consumer t = pc_consumer s \<and> pc_iAmStreaming t = pc_iAmStreaming s"
  using assms
  by (auto simp: pp_writeSomeData_def pc_consumerWrite_def pp_pauseProducing_def Let_def take_part split: if_splits)

text \<open>One call of \<open>_writeSomeData\<close>: the bucket is charged, then the data is sent or \<open>TypeError\<close> is raised.\<close>

lemma sc_write_cases:
  obtains (failed) x st where "ht_add clk (sc_bucket s) (PInt (int (length d))) (sc_store s) = (PFloat x, st)"
      "sc_writeSomeData clk full d s = (Inl PcTypeError, s\<lparr>sc_store := st\<rparr>)"
  | (sent) i st k where "ht_add clk (sc_bucket s) (PInt (int (length d))) (sc_store s) = (PInt i, st)"
      "k = nat (if i < 0 then int (length d) + i else i)"
      "sc_writeSomeData clk full d s = pp_writeSomeData full (take k d) (s\<lparr>sc_store := st\<rparr>)"
proof -
  obtain a st where add: "ht_add clk (sc_bucket s) (PInt (int (length d))) (sc_store s) = (a, st)" by fastforce
  show ?thesis
  proof (cases a)
    case (PInt i)
    show ?thesis by (rule sent [OF add [unfolded PInt] refl]) (simp add: sc_writeSomeData_def add PInt)
  next
    case (PFloat x)
    show ?thesis by (rule failed [OF add [unfolded PFloat]]) (simp add: sc_writeSomeData_def add PFloat)
  qed
qed

interpretation shaped: proxy_writer "sc_writeSomeData clk" for clk
proof
  fix full d n e and s t :: shaped and r
  show "n \<le> length d \<and> pc_delivered t = pc_delivered s @ take n d" if "sc_writeSomeData clk full d s = (Inr n, t)"
    using that by (cases rule: sc_write_cases [of clk s d full]) (use pp_write_part(1) [of full _ d _ "Inr n" t n] in auto)
  show "pc_delivered t = pc_delivered s" if "sc_writeSomeData clk full d s = (Inl e, t)"
    using that by (cases rule: sc_write_cases [of clk s d full]) (use pp_write_part(2) [of full _ d _ "Inl e" t e] in auto)
  show "pc_buffer t = pc_buffer s \<and> pc_consumer t = pc_consumer s \<and> pc_iAmStreaming t = pc_iAmStreaming s"
    if "sc_writeSomeData clk full d s = (r, t)"
    using that by (cases rule: sc_write_cases [of clk s d full]) (use pp_write_part(3) [of full _ d _ r t] in auto)
qed


section \<open>The rate at which a consumer receives\<close>

text \<open>States that agree on what has been delivered and on the buckets.\<close>

definition sc_same :: "shaped \<Rightarrow> shaped \<Rightarrow> bool" where
  "sc_same s t \<longleftrightarrow> sc_bucket t = sc_bucket s \<and> sc_store t = sc_store s \<and> pc_delivered t = pc_delivered s"

lemma pc_call_sc [simp]: "sc_bucket (pc_call e s) = sc_bucket s" "sc_store (pc_call e s) = sc_store s"
  by (simp_all add: pc_call_def)

lemma sc_same_afterFlush [simp]: "sc_same s (pp_afterFlush n t) = sc_same s t"
  by (simp add: pp_afterFlush_def sc_same_def Let_def)

lemma sc_same_buffer [simp]: "sc_same s (t\<lparr>pc_buffer := b\<rparr>) = sc_same s t"
  by (simp add: sc_same_def)

lemma sc_same_refl: "sc_same s s"
  by (simp add: sc_same_def)

lemma sc_same_trans: "sc_same s t \<Longrightarrow> sc_same t u \<Longrightarrow> sc_same s u"
  by (simp add: sc_same_def)

text \<open>Every operation calls \<open>_writeSomeData\<close> at most once, and does nothing else that matters here.\<close>

lemma pp_step_writes_once:
  "\<exists>u v. sc_same s u \<and> (v = u \<or> (\<exists>full d. v = snd (wsd full d u))) \<and> sc_same v (state_of (pp_step wsd x s))"
proof (cases x)
  case (PcResume full)
  let ?s = "s\<lparr>pc_paused := False\<rparr>"
  have s: "sc_same s ?s" by (simp add: sc_same_def)
  obtain r v where w: "wsd full (concat (pc_buffer s)) ?s = (r, v)" by fastforce
  have "sc_same v (state_of (pp_step wsd x s))" if "pc_buffer s \<noteq> []"
    using w that by (cases r) (simp_all add: PcResume pp_resumeProducing_def pp_flush_def Let_def sc_same_refl)
  moreover have "sc_same ?s (state_of (pp_step wsd x s))" if "pc_buffer s = []"
    using that by (simp add: PcResume pp_resumeProducing_def pp_flush_def sc_same_refl)
  ultimately show ?thesis using s w by (metis snd_conv)
next
  case (PcWrite full d)
  obtain r v where w: "wsd full d s = (r, v)" by fastforce
  have "sc_same s (state_of (pp_step wsd x s)) \<or> sc_same v (state_of (pp_step wsd x s))"
    using w PcWrite by (cases r) (auto simp: pp_write_def Let_def sc_same_def)
  with w show ?thesis by (metis sc_same_refl snd_conv)
qed (auto simp: sc_same_def pp_pauseProducing_def bp_stopProducing_def pc_finish_def pp_registerProducer_def
    bp_registerProducer_def pp_unregisterProducer_def pc_dropProducer_def Let_def)

text \<open>What is delivered is taken from the bucket.\<close>

definition sc_flow :: "(nat \<Rightarrow> rat) \<Rightarrow> shaped \<Rightarrow> shaped \<Rightarrow> bool" where
  "sc_flow clk s t \<longleftrightarrow> sc_bucket t = sc_bucket s \<and> ht_sound clk (sc_store t) \<and>
     (\<exists>a. ht_flow a (sc_store s) (sc_store t) \<and>
        (\<forall>b \<in> set (sc_bucket s). of_nat (length (pc_delivered t)) \<le> of_nat (length (pc_delivered s)) + a b))"

lemma sc_same_flow: "sc_same s t \<Longrightarrow> ht_sound clk (sc_store s) \<Longrightarrow> sc_flow clk s t"
  using ht_flow_refl by (auto simp: sc_flow_def sc_same_def)

lemma sc_flow_cong: "sc_same s u \<Longrightarrow> sc_same v t \<Longrightarrow> sc_flow clk u v \<Longrightarrow> sc_flow clk s t"
  by (simp add: sc_flow_def sc_same_def)

lemma sc_write_flow:
  assumes "ht_sound clk (sc_store s)" "distinct (sc_bucket s)"
  shows "sc_flow clk s (snd (sc_writeSomeData clk full d s))"
proof (cases rule: sc_write_cases [of clk s d full])
  case (failed x st)
  from ht_add_effect [OF assms _ failed(1)] show ?thesis by (auto simp: failed(2) sc_flow_def)
next
  case (sent i st k)
  from ht_add_effect [OF assms _ sent(1)]
  have st: "ht_sound clk st" "0 \<le> i" "ht_flow (\<lambda>b. if b \<in> set (sc_bucket s) then num_val (PInt i) else 0) (sc_store s) st" by simp_all
  let ?t = "s\<lparr>sc_store := st\<rparr>"
  obtain r t where t: "pp_writeSomeData full (take k d) ?t = (r, t)" by fastforce
  then have keeps: "sc_bucket t = sc_bucket s" "sc_store t = st"
    by (auto simp: pp_writeSomeData_def pc_consumerWrite_def pp_pauseProducing_def Let_def split: if_splits)
  have "length (pc_delivered t) \<le> length (pc_delivered s) + k"
    using t by (auto simp: pp_writeSomeData_def pc_consumerWrite_def pp_pauseProducing_def Let_def split: if_splits)
  moreover have "k = nat i" using sent(2) st(2) by simp
  ultimately have "int (length (pc_delivered t)) \<le> int (length (pc_delivered s)) + i" using st(2) by linarith
  then have "rat_of_int (int (length (pc_delivered t))) \<le> rat_of_int (int (length (pc_delivered s)) + i)"
    by (simp only: of_int_le_iff)
  with st keeps show ?thesis by (auto simp: sent(3) t sc_flow_def)
qed

lemma sc_step_flow:
  assumes "ht_sound clk (sc_store s)" "distinct (sc_bucket s)"
  shows "sc_flow clk s (sc_step clk (Shaped x) s)"
proof (cases "x = PcStop")
  case True
  let ?st = "bk_retain (- 1) (sc_bucket s) (sc_store s)"
  have "sc_store (sc_stopProducing s) = ?st" "sc_bucket (sc_stopProducing s) = sc_bucket s"
    "pc_delivered (sc_stopProducing s) = pc_delivered s"
    by (simp_all add: sc_stopProducing_def bp_stopProducing_def Let_def)
  moreover have "ht_sound clk ?st"
    using assms(1) by (simp add: bk_retain_def ht_sound_def ht_upd_def bucket_sound_def)
  moreover have "ht_flow (\<lambda>b. 0) (sc_store s) ?st"
    by (simp add: bk_retain_def ht_flow_def ht_upd_def bucket_flow_def)
  ultimately show ?thesis using True by (auto simp: sc_flow_def sc_op_def)
next
  case False
  obtain u v where uv: "sc_same s u" "v = u \<or> (\<exists>full d. v = snd (sc_writeSomeData clk full d u))"
    "sc_same v (state_of (pp_step (sc_writeSomeData clk) x s))"
    using pp_step_writes_once [of s "sc_writeSomeData clk" x] by blast
  have "ht_sound clk (sc_store u)" "distinct (sc_bucket u)" using assms uv(1) by (simp_all add: sc_same_def)
  with uv(2) have "sc_flow clk u v" using sc_write_flow sc_same_flow sc_same_refl by blast
  from sc_flow_cong [OF uv(1,3) this] False show ?thesis by (simp add: sc_op_def)
qed


fun sc_op_ok :: "shaped_op \<Rightarrow> bool" where
  "sc_op_ok (Shaped x) \<longleftrightarrow> True"
| "sc_op_ok (Buckets x) \<longleftrightarrow> bucket_op_ok x"

definition sc_good :: "(nat \<Rightarrow> rat) \<Rightarrow> nat \<Rightarrow> int \<Rightarrow> int \<Rightarrow> shaped \<Rightarrow> bool" where
  "sc_good clk b m r s \<longleftrightarrow> bucket_is clk b m r (sc_store s) \<and> b \<in> set (sc_bucket s) \<and> distinct (sc_bucket s)"

definition sc_received :: "shaped \<Rightarrow> rat" where
  "sc_received s = of_nat (length (pc_delivered s))"

definition sc_passes :: "(nat \<Rightarrow> rat) \<Rightarrow> shaped_op \<Rightarrow> shaped \<Rightarrow> rat" where
  "sc_passes clk x s = sc_received (sc_step clk x s) - sc_received s"

lemma sc_buckets_flow:
  assumes "ht_sound clk (sc_store s)" "bucket_op_ok x"
  shows "\<exists>a. ht_flow a (sc_store s) (sc_store (sc_step clk (Buckets x) s)) \<and> (\<forall>b. 0 \<le> a b) \<and>
    ht_sound clk (sc_store (sc_step clk (Buckets x) s))"
proof (cases x)
  case (BkAdd ref n)
  obtain c t where add: "ht_add clk ref (PInt n) (sc_store s) = (c, t)" by fastforce
  with BkAdd assms ht_add_effect [OF assms(1) _ _ add] show ?thesis
    by (intro exI [of _ "\<lambda>b. if b \<in> set ref then num_val c else 0"]) simp
next
  case (BkDrip ref)
  with ht_drip_effect [OF assms(1), of ref] show ?thesis by (intro exI [of _ "\<lambda>b. 0"]) simp
qed

lemma sc_step_metered:
  assumes "sc_good clk b m r s" "sc_op_ok x"
  shows "sc_good clk b m r (sc_step clk x s) \<and>
    bk_level (sc_store s) b + sc_passes clk x s \<le> bk_level (sc_store (sc_step clk x s)) b +
      of_int r * (bk_lastDrip (ht_bucket (sc_store (sc_step clk x s)) b) - bk_lastDrip (ht_bucket (sc_store s) b))"
proof -
  let ?t = "sc_step clk x s"
  have s: "bucket_is clk b m r (sc_store s)" "ht_sound clk (sc_store s)" "b \<in> set (sc_bucket s)" "distinct (sc_bucket s)"
    using assms(1) by (simp_all add: sc_good_def bucket_is_def)
  have "\<exists>a. ht_flow a (sc_store s) (sc_store ?t) \<and> sc_passes clk x s \<le> a b \<and> ht_sound clk (sc_store ?t) \<and> sc_bucket ?t = sc_bucket s"
  proof (cases x)
    case (Shaped y)
    with sc_step_flow [OF s(2,4), of y] s(3) show ?thesis
      unfolding sc_flow_def sc_passes_def sc_received_def by (auto simp: algebra_simps)
  next
    case (Buckets y)
    with sc_buckets_flow [OF s(2), of y] assms(2) show ?thesis by (auto simp: sc_passes_def sc_received_def)
  qed
  then obtain a where a: "ht_flow a (sc_store s) (sc_store ?t)" "sc_passes clk x s \<le> a b"
    "ht_sound clk (sc_store ?t)" "sc_bucket ?t = sc_bucket s" by blast
  from bucket_is_flow [OF s(1) a(3,1)] a(2,4) s(3,4) show ?thesis by (simp add: sc_good_def)
qed

interpretation consumer: metered "sc_step clk" sc_op_ok "sc_good clk b m r" "sc_passes clk"
    "\<lambda>s. bk_level (sc_store s) b" "\<lambda>s. bk_lastDrip (ht_bucket (sc_store s) b)" "of_int m" "of_int r" for clk b m r
proof unfold_locales
  fix s assume "sc_good clk b m r s"
  then have "bucket_is clk b m r (sc_store s)" by (simp add: sc_good_def)
  then show "0 \<le> bk_level (sc_store s) b \<and> bk_level (sc_store s) b \<le> of_int m" by (rule bucket_is_level)
qed (simp_all add: sc_step_metered)

lemma sc_passes_total: "metered_total (sc_step clk) (sc_passes clk) xs s = sc_received (fold (sc_step clk) xs s) - sc_received s"
  by (induction xs arbitrary: s) (simp_all add: sc_passes_def)

lemma sc_init_store: "sc_store (sc_init bucket st) = bk_retain 1 bucket st" "sc_bucket (sc_init bucket st) = bucket"
    "sc_received (sc_init bucket st) = 0"
  by (simp_all add: sc_init_def pcbuffered.defs sc_received_def pp_init_def pc_init_def pcproxy.defs pc_delivered_def
      pc_call_def List.map_filter_def)

lemma bk_retain_simps:
  "bk_maxburst (ht_bucket (bk_retain n ref st) b) = bk_maxburst (ht_bucket st b)"
  "bk_rate (ht_bucket (bk_retain n ref st) b) = bk_rate (ht_bucket st b)"
  "bk_lastDrip (ht_bucket (bk_retain n ref st) b) = bk_lastDrip (ht_bucket st b)"
  by (simp_all add: bk_retain_def ht_upd_def)

lemma bk_retain_sound [simp]: "ht_sound clk (bk_retain n ref st) = ht_sound clk st"
proof -
  have "bucket_sound now (ht_bucket (bk_retain n ref st) b) = bucket_sound now (ht_bucket st b)" for now b
    by (simp add: bucket_sound_def bk_retain_def ht_upd_def)
  moreover have "ht_reads (bk_retain n ref st) = ht_reads st" by (simp add: bk_retain_def ht_upd_def)
  ultimately show ?thesis by (simp add: ht_sound_def)
qed

lemma sc_rate_limit:
  assumes "ht_sound clk st" "distinct bucket" "b \<in> set bucket" "\<forall>x \<in> set xs. sc_op_ok x"
    and "bk_maxburst (ht_bucket st b) = Some maxburst" "bk_rate (ht_bucket st b) = Some rate"
    and t: "t = fold (sc_step clk) xs (sc_init bucket st)"
  shows "of_nat (length (pc_delivered t)) \<le>
    of_int maxburst + of_int rate * (bk_lastDrip (ht_bucket (sc_store t) b) - bk_lastDrip (ht_bucket st b))"
proof -
  have "sc_good clk b maxburst rate (sc_init bucket st)"
    using assms by (simp add: sc_good_def sc_init_store bucket_is_def bk_retain_simps)
  from consumer.total_bound [OF this assms(4)] show ?thesis
    by (simp add: sc_passes_total sc_init_store bk_retain_simps t sc_received_def [symmetric])
qed

text \<open>
  C20: shaping limits the rate.  Let a factory's \<open>makeConnection\<close> take a bucket from filters
  for a connection.  However the shaped transport is then written to, paused and resumed, and
  whatever else is done to the buckets, the connection receives, for the bucket and for each
  bucket above it, at most \<open>maxburst\<close> bytes plus \<open>rate\<close> bytes for each second.
\<close>

theorem shaped_rate_limit:
  assumes "filters_sound clk st" and made: "sf_makeConnection clk (f # parents) peer st = (Inr c, st')"
    and "b \<in> set (sc_bucket c)" "\<forall>x \<in> set xs. sc_op_ok x"
    and "bk_maxburst (ht_bucket st' b) = Some maxburst" "bk_rate (ht_bucket st' b) = Some rate"
    and t: "t = fold (sc_step clk) xs c"
  shows "of_nat (length (pc_delivered t)) \<le>
    of_int maxburst + of_int rate * (bk_lastDrip (ht_bucket (sc_store t) b) - bk_lastDrip (ht_bucket st' b))"
proof -
  obtain ref st1 where get: "bf_getBucketFor clk (f # parents) [TransportArg peer] st = (Inr ref, st1)"
    and c: "c = sc_init ref st1" "st' = bk_retain 1 ref st1"
    using made by (auto simp: sf_makeConnection_def simp del: bf_getBucketFor.simps split: prod.splits sum.splits)
  from bf_getBucketFor_sound [OF assms(1) get] have "ht_sound clk st1" "distinct ref"
    by (auto simp: filters_sound_def ref_ok_def)
  from sc_rate_limit [OF this _ assms(4) _ _ t [unfolded c]] assms(3,5,6) show ?thesis
    by (simp add: c sc_init_store bk_retain_simps)
qed

theorem shaped_rate_limit_witness:
  "\<exists>c st' t. sf_makeConnection of_nat [1, 0] local_peer two_filters = (Inr c, st') \<and> sc_bucket c = [1, 0] \<and>
    t = fold (sc_step of_nat) [Shaped (PcResume False), Shaped (PcWrite False ''hello'')] c \<and>
    of_nat (length (pc_delivered t)) \<le> (100 :: rat) + 2 * (bk_lastDrip (ht_bucket (sc_store t) 0) - bk_lastDrip (ht_bucket st' 0))"
proof -
  let ?xs = "[Shaped (PcResume False), Shaped (PcWrite False ''hello'')]"
  obtain st where get: "bf_getBucketFor of_nat [1, 0] [TransportArg local_peer] two_filters = (Inr [1, 0], st)"
    and b: "bk_maxburst (ht_bucket st 0) = Some 100" "bk_rate (ht_bucket st 0) = Some 2"
    by (simp add: two_filters_def bf_maybeSweep_def py_index_def ht_newBucket_def ht_time_def Let_def)
  let ?c = "sc_init [1, 0] st"
  have made: "sf_makeConnection of_nat [1, 0] local_peer two_filters = (Inr ?c, bk_retain 1 [1, 0] st)"
    by (simp only: sf_makeConnection_def get prod.case sum.case)
  from shaped_rate_limit [OF two_filters_sound made, of 0 ?xs 100 2] b made show ?thesis
    by (simp add: sc_init_store bk_retain_simps del: fold.simps)
qed

section \<open>Who shares a bucket\<close>

text \<open>
  What happens to the buckets and filters: connections are made, consumers take and give back
  buckets (\<open>stopProducing\<close>), and buckets are drained and filled.
\<close>

datatype shaping_event = MakeConnection ref peer_transport | Retain int ref | Meter bucket_op

fun shaping_step :: "(nat \<Rightarrow> rat) \<Rightarrow> shaping_event \<Rightarrow> filters bucket_store \<Rightarrow> filters bucket_store" where
  "shaping_step clk (MakeConnection fs peer) st = snd (sf_makeConnection clk fs peer st)"
| "shaping_step clk (Retain n bucket) st = bk_retain n bucket st"
| "shaping_step clk (Meter x) st = bucket_step clk x st"

text \<open>Bucket \<open>b\<close> has a consumer all the time.\<close>

fun stays_used :: "(nat \<Rightarrow> rat) \<Rightarrow> nat \<Rightarrow> shaping_event list \<Rightarrow> filters bucket_store \<Rightarrow> bool" where
  "stays_used clk b [] st \<longleftrightarrow> bk_refcount (ht_bucket st b) \<noteq> 0"
| "stays_used clk b (x # xs) st \<longleftrightarrow> bk_refcount (ht_bucket st b) \<noteq> 0 \<and> stays_used clk b xs (shaping_step clk x st)"

lemma bk_retain_rest [simp]: "ht_made (bk_retain n ref st) = ht_made st" "ht_filters (bk_retain n ref st) = ht_filters st"
  by (simp_all add: bk_retain_def ht_upd_def)

lemma filters_keyed_cong: "ht_made t = ht_made s \<Longrightarrow> ht_filters t = ht_filters s \<Longrightarrow> filters_keyed t = filters_keyed s"
  by (simp add: filters_keyed_def)

lemma sf_makeConnection_step:
  assumes "filters_keyed st"
  shows "\<exists>st1. filters_step st st1 \<and> ht_made (snd (sf_makeConnection clk fs peer st)) = ht_made st1 \<and>
    ht_filters (snd (sf_makeConnection clk fs peer st)) = ht_filters st1"
proof -
  obtain r st1 where get: "bf_getBucketFor clk fs [TransportArg peer] st = (r, st1)" by fastforce
  with bf_getBucketFor_step [OF assms this] show ?thesis
    by (intro exI [of _ st1]) (simp add: sf_makeConnection_def split: sum.split)
qed

lemma sf_makeConnection_made:
  assumes "filters_keyed st" "sf_makeConnection clk (f # fs) peer st = (Inr c, st')"
  obtains key st1 where "filters_step st st1" "ht_made st' = ht_made st1" "ht_filters st' = ht_filters st1"
    "bf_getBucketKey (bf_class (ht_filters st f)) [TransportArg peer] = Inr key" "(key, sc_bucket c) \<in> set (bf_buckets (ht_filters st1 f))"
proof -
  obtain bucket st1 where get: "bf_getBucketFor clk (f # fs) [TransportArg peer] st = (Inr bucket, st1)"
    and c: "c = sc_init bucket st1" "st' = bk_retain 1 bucket st1"
    using assms(2) by (auto simp: sf_makeConnection_def simp del: bf_getBucketFor.simps split: prod.splits sum.splits)
  from bf_getBucketFor_step [OF assms(1) get] c that [of st1] show thesis by (auto simp: sc_init_store)
qed

text \<open>A cached bucket stays cached under its key while it is used, and the classes of the filters stay.\<close>

definition keeps_cached :: "nat \<Rightarrow> pyval option \<Rightarrow> ref \<Rightarrow> filters bucket_store \<Rightarrow> filters bucket_store \<Rightarrow> bool" where
  "keeps_cached f key bucket st u \<longleftrightarrow> filters_keyed u \<and> (key, bucket) \<in> set (bf_buckets (ht_filters u f)) \<and>
     (\<forall>g. bf_class (ht_filters u g) = bf_class (ht_filters st g))"

lemma keeps_cached_cong: "ht_made v = ht_made u \<Longrightarrow> ht_filters v = ht_filters u \<Longrightarrow> keeps_cached f key bucket st v = keeps_cached f key bucket st u"
  by (simp add: keeps_cached_def filters_keyed_def)

lemma shaping_step_keeps:
  assumes "keeps_cached f key bucket st u" "bk_refcount (ht_bucket u (hd bucket)) \<noteq> 0"
  shows "keeps_cached f key bucket st (shaping_step clk x u)"
proof (cases x)
  case (MakeConnection fs peer)
  have "filters_keyed u" using assms(1) by (simp add: keeps_cached_def)
  from sf_makeConnection_step [OF this, of clk fs peer] obtain w where w: "filters_step u w"
    "ht_made (shaping_step clk x u) = ht_made w" "ht_filters (shaping_step clk x u) = ht_filters w" by (auto simp: MakeConnection)
  have "keeps_cached f key bucket st w" using filters_stepD [OF w(1)] assms by (simp add: keeps_cached_def)
  with keeps_cached_cong [OF w(2,3)] show ?thesis by simp
next
  case (Retain n r)
  with assms(1) keeps_cached_cong [of "shaping_step clk x u" u] show ?thesis by simp
next
  case (Meter y)
  with assms(1) keeps_cached_cong [of "shaping_step clk x u" u] show ?thesis by (simp add: bucket_step_rest)
qed

lemma shaping_steps_keep:
  "keeps_cached f key bucket st u \<Longrightarrow> stays_used clk (hd bucket) xs u \<Longrightarrow>
    keeps_cached f key bucket st (fold (shaping_step clk) xs u) \<and> bk_refcount (ht_bucket (fold (shaping_step clk) xs u) (hd bucket)) \<noteq> 0"
  by (induction xs arbitrary: u) (auto intro: shaping_step_keeps)

text \<open>
  C22: connections share a bucket exactly when they belong together.  Let a connection be made
  with a filter, and another one later, with the same or another filter, whatever happened to
  the buckets in between, as long as the first bucket had a consumer all the time.  Then both
  connections have the same bucket exactly when they came to the same filter with the same
  key; otherwise the buckets are different ones, so that neither uses up the share of the
  other.  The same bucket has the same buckets above it.
\<close>

theorem shaped_buckets_shared:
  assumes "filters_keyed st" and first: "sf_makeConnection clk (f # fs) p st = (Inr c, st1)"
    and used: "stays_used clk (hd (sc_bucket c)) xs st1"
    and second: "sf_makeConnection clk (g # gs) q (fold (shaping_step clk) xs st1) = (Inr d, st2)"
  shows "(hd (sc_bucket c) = hd (sc_bucket d) \<longleftrightarrow>
      f = g \<and> bf_getBucketKey (bf_class (ht_filters st f)) [TransportArg p] = bf_getBucketKey (bf_class (ht_filters st g)) [TransportArg q]) \<and>
    (hd (sc_bucket c) = hd (sc_bucket d) \<longrightarrow> sc_bucket c = sc_bucket d) \<and> filters_keyed st2"
proof -
  let ?c = "sc_bucket c" and ?d = "sc_bucket d" and ?u = "fold (shaping_step clk) xs st1"
  obtain key s1 where s1: "filters_step st s1" "ht_made st1 = ht_made s1" "ht_filters st1 = ht_filters s1"
    "bf_getBucketKey (bf_class (ht_filters st f)) [TransportArg p] = Inr key" "(key, ?c) \<in> set (bf_buckets (ht_filters s1 f))"
    by (rule sf_makeConnection_made [OF assms(1) first])
  have "keeps_cached f key ?c st s1" using filters_stepD(1,3) [OF s1(1)] s1(5) by (simp add: keeps_cached_def)
  then have "keeps_cached f key ?c st st1" by (simp only: keeps_cached_cong [OF s1(2,3)])
  from shaping_steps_keep [OF this used]
  have u: "filters_keyed ?u" "(key, ?c) \<in> set (bf_buckets (ht_filters ?u f))" "bk_refcount (ht_bucket ?u (hd ?c)) \<noteq> 0"
    and cls: "bf_class (ht_filters ?u h) = bf_class (ht_filters st h)" for h
    by (simp_all add: keeps_cached_def)
  obtain key' s2 where s2: "filters_step ?u s2" "ht_made st2 = ht_made s2" "ht_filters st2 = ht_filters s2"
    "bf_getBucketKey (bf_class (ht_filters st g)) [TransportArg q] = Inr key'" "(key', ?d) \<in> set (bf_buckets (ht_filters s2 g))"
    by (rule sf_makeConnection_made [OF u(1) second, unfolded cls])
  note keyed = filters_stepD(1) [OF s2(1)]
  have kept: "(key, ?c) \<in> set (bf_buckets (ht_filters s2 f))" by (rule filters_stepD(5) [OF s2(1) u(2,3)])
  have "?c = ?d" if "f = g" "key = key'"
    using eq_key_imp_eq_value [OF filters_keyedD(1) [OF keyed, of f] kept] s2(5) that by simp
  moreover have "f = g \<and> key = key'" if "hd ?c = hd ?d" by (rule filters_keyedD(3) [OF keyed kept s2(5) that])
  ultimately have "hd ?c = hd ?d \<longleftrightarrow> f = g \<and> key = key'" "hd ?c = hd ?d \<longrightarrow> ?c = ?d" by metis+
  moreover have "filters_keyed st2" using filters_keyed_cong [OF s2(2,3)] keyed by simp
  ultimately show ?thesis by (simp only: s1(4) s2(4) sum.inject simp_thms)
qed

text \<open>Two connections from one host, and one from another in between, with a filter by host below a common one.\<close>

abbreviation other_peer :: peer_transport where
  "other_peer \<equiv> \<lparr> tp_getPeer = AddressTuple [PyStr ''INET'', PyStr ''10.0.0.1'', PyNumber 80], tp_getHost = AddressObject \<rparr>"

lemma two_filters_keyed: "filters_keyed two_filters"
  by (simp add: filters_keyed_def two_filters_def)

theorem shaped_buckets_shared_witness:
  "\<exists>c st1 d st2. sf_makeConnection of_nat [1, 0] local_peer two_filters = (Inr c, st1) \<and>
    sf_makeConnection of_nat [1, 0] local_peer (fold (shaping_step of_nat) [MakeConnection [1, 0] other_peer] st1) = (Inr d, st2) \<and>
    sc_bucket c = sc_bucket d \<and> filters_keyed st2"
proof -
  note defs = two_filters_def bf_maybeSweep_def py_index_def ht_newBucket_def ht_time_def Let_def sf_makeConnection_def bk_retain_def ht_upd_def
  obtain c st1 where c: "sf_makeConnection of_nat [1, 0] local_peer two_filters = (Inr c, st1)" "sc_bucket c = [1, 0]"
    and used: "stays_used of_nat 1 [MakeConnection [1, 0] other_peer] st1"
    and second: "\<exists>d st2. sf_makeConnection of_nat [1, 0] local_peer (fold (shaping_step of_nat) [MakeConnection [1, 0] other_peer] st1) = (Inr d, st2)"
    by (simp add: defs sc_init_store)
  from second obtain d st2 where
    d: "sf_makeConnection of_nat [1, 0] local_peer (fold (shaping_step of_nat) [MakeConnection [1, 0] other_peer] st1) = (Inr d, st2)" by blast
  from used c(2) have "stays_used of_nat (hd (sc_bucket c)) [MakeConnection [1, 0] other_peer] st1" by simp
  from shaped_buckets_shared [OF two_filters_keyed c(1) this d] have "sc_bucket c = sc_bucket d" "filters_keyed st2" by simp_all
  with c(1) d show ?thesis by blast
qed

definition one_bucket :: "filters bucket_store" where
  "one_bucket = \<lparr> ht_bucket = (\<lambda>b. \<lparr> bk_maxburst = Some 3, bk_rate = Some 1, bk_refcount = 0,
     bk_content = PInt 0, bk_lastDrip = 0 \<rparr>), ht_made = 1, ht_reads = 0,
     ht_filters = (\<lambda>f. \<lparr> bf_class = HierarchicalBucketFilter, bf_sweepInterval = None, bf_maxburst = None,
       bf_rate = None, bf_buckets = [], bf_lastSweep = 0 \<rparr>) \<rparr>"

lemma one_bucket_sound: "ht_sound of_nat one_bucket"
  by (simp add: ht_sound_def bucket_sound_def one_bucket_def mono_def)


text \<open>
  A \<open>ShapedConsumer\<close> sends a part of its data only if its bucket is empty.  \<open>time()\<close> is a float, so
  what is left of the room in a bucket that holds something is a float; when the data does not
  fit, \<open>data[:amount]\<close> raises \<open>TypeError\<close>, nothing is sent, and the bucket is full although it
  let nothing pass.  Data that fits is sent whole, and an empty bucket lets \<open>maxburst\<close> bytes pass.
\<close>

theorem shaped_partial_write:
  assumes "sc_bucket s = [b]" "pc_consumer s"
    and "bk_maxburst (ht_bucket (sc_store s) b) = Some m" "bk_rate (ht_bucket (sc_store s) b) = Some r" "0 \<le> m"
    and left: "left = bk_level (ht_drain clk b (sc_store s)) b"
    and t: "sc_writeSomeData clk full d s = (result, t)"
  shows "if of_nat (length d) \<le> of_int m - left then result = Inr (length d) \<and> pc_delivered t = pc_delivered s @ d
    else if left = 0 then result = Inr (nat m) \<and> pc_delivered t = pc_delivered s @ take (nat m) d
    else result = Inl PcTypeError \<and> pc_delivered t = pc_delivered s \<and> bk_level (sc_store t) b = of_int m"
proof -
  let ?u = "ht_drain clk b (sc_store s)"
  let ?c = "bk_content (ht_bucket ?u b)" and ?n = "PInt (int (length d))"
  have c: "num_val ?c = left" by (simp add: left bk_level_def)
  have kind: "?c = PInt 0 \<and> left = 0 \<or> (\<exists>x. ?c = PFloat x \<and> 0 < x)"
  proof -
    define y where "y = py_sub (bk_content (ht_bucket (sc_store s) b))
        (PFloat ((clk (ht_reads (sc_store s)) - bk_lastDrip (ht_bucket (sc_store s) b)) * of_int r))"
    have "?c = py_max (PInt 0) y" using assms(4) by (simp add: ht_drain_def ht_time_def ht_upd_def y_def)
    moreover obtain x where "y = PFloat x" by (cases "bk_content (ht_bucket (sc_store s) b)") (simp_all add: y_def)
    ultimately show ?thesis using c by (auto simp: py_max_def)
  qed
  have max: "bk_maxburst (ht_bucket ?u b) = Some m"
    using assms(3,4) by (simp add: ht_drain_def ht_time_def ht_upd_def)
  define a where "a = py_min ?n (py_sub (PInt m) ?c)"
  define st where "st = ht_upd b (\<lambda>k. k\<lparr>bk_content := py_add (bk_content k) a\<rparr>) ?u"
  have add: "ht_add clk (sc_bucket s) ?n (sc_store s) = (a, st)" by (simp add: assms(1) max a_def st_def Let_def)
  have level: "bk_level st b = left + num_val a" by (simp add: st_def bk_level_def ht_upd_def c)
  have wr: "sc_writeSomeData clk full d s = (case py_slice_to a d of None \<Rightarrow> (Inl PcTypeError, s\<lparr>sc_store := st\<rparr>)
      | Some part \<Rightarrow> pp_writeSomeData full part (s\<lparr>sc_store := st\<rparr>))"
    by (simp add: sc_writeSomeData_def add Let_def)
  have sent: "result = Inr (length part) \<and> pc_delivered t = pc_delivered s @ part" if "py_slice_to a d = Some part" for part
    using that t assms(2) unfolding wr
    by (auto simp: pp_writeSomeData_def pc_consumerWrite_def pp_pauseProducing_def Let_def split: if_splits)
  show ?thesis
  proof (cases "of_nat (length d) \<le> of_int m - left")
    case True
    then have "a = ?n" using c by (simp add: a_def py_min_def)
    then have "py_slice_to a d = Some d" by simp
    from sent [OF this] True show ?thesis by simp
  next
    case False
    note big = False
    then have a: "a = py_sub (PInt m) ?c" using c by (simp add: a_def py_min_def)
    show ?thesis
    proof (cases "left = 0")
      case True
      with kind c have "?c = PInt 0" by auto
      then have slice: "py_slice_to a d = Some (take (nat m) d)" using assms(5) by (simp add: a)
      have "nat m \<le> length d"
      proof -
        have "rat_of_int m < of_nat (length d)" using big True by simp
        then have "rat_of_int m < rat_of_int (int (length d))" by simp
        then have "m < int (length d)" by (simp only: of_int_less_iff)
        then show ?thesis by simp
      qed
      with sent [OF slice] big True show ?thesis by simp
    next
      case False
      with kind obtain x where x: "?c = PFloat x" by auto
      then have "py_slice_to a d = None" by (simp add: a)
      with wr t have "result = Inl PcTypeError" "t = s\<lparr>sc_store := st\<rparr>" by simp_all
      moreover have "bk_level st b = of_int m" using level x c by (simp add: a)
      ultimately show ?thesis using big False by simp
    qed
  qed
qed

theorem shaped_partial_write_witness:
  "let s = sc_init [0] (ht_upd 0 (\<lambda>k. k\<lparr>bk_content := PInt 2\<rparr>) one_bucket)
   in fst (sc_writeSomeData (\<lambda>i. 1 / 2) False ''hello'' s) = Inl PcTypeError"
proof -
  let ?st = "ht_upd 0 (\<lambda>k. k\<lparr>bk_content := PInt 2\<rparr>) one_bucket"
  let ?s = "sc_init [0] ?st" and ?clk = "\<lambda>i::nat. 1 / 2 :: rat"
  have s: "sc_bucket ?s = [0]" "pc_consumer ?s" "bk_maxburst (ht_bucket (sc_store ?s) 0) = Some 3"
    "bk_rate (ht_bucket (sc_store ?s) 0) = Some 1" "bk_level (ht_drain ?clk 0 (sc_store ?s)) 0 = 3 / 2"
    by (simp_all add: sc_init_store bk_retain_simps sc_init_def pcbuffered.defs pp_init_def pc_init_def pcproxy.defs
        pc_call_def ht_upd_def one_bucket_def bk_level_def ht_drain_def ht_time_def bk_retain_def)
  obtain result t where t: "sc_writeSomeData ?clk False ''hello'' ?s = (result, t)" by fastforce
  from shaped_partial_write [OF s(1-4) _ s(5) [symmetric] t] show ?thesis by (simp add: Let_def t split: if_splits)
qed

text \<open>
  A bucket that takes nothing makes the proxy raise \<open>AssertionError\<close>: the pull that could not be
  answered stays outstanding while the unsent data stays in the buffer, so the producer is
  asked for data that \<open>write\<close> then refuses.
\<close>

lemma refused_pull_asserts:
  "\<exists>t. pc_run (sc_op clk) [PcRegister False, PcWrite False ''x'', PcResume False, PcWrite False ''y'']
     (sc_init [0] (ht_upd 0 (\<lambda>k. k\<lparr>bk_maxburst := Some 0, bk_rate := None\<rparr>) one_bucket)) = Exc PcAssertionError t
     \<and> last (pc_log t) = ProducerResume"
  by (simp add: sc_op_def sc_init_def pcbuffered.defs pp_init_def pc_init_def pcproxy.defs pc_call_def pp_registerProducer_def
      bp_registerProducer_def pp_write_def pp_resumeProducing_def pp_flush_def sc_writeSomeData_def Let_def ht_upd_def
      one_bucket_def bk_retain_def ht_drain_def py_min_def pp_writeSomeData_def pc_consumerWrite_def pp_afterFlush_def
      pc_bytesBuffered_def)

end
