(* ===== verification/DnsNames.thy ===== *)
theory DnsNames
  imports Prelude "HOL-Library.Word"
begin

unbundle bit_operations_syntax

text \<open>
  Domain names of \<open>twisted/names/dns.py\<close>: reading from a file of bytes, and \<open>Name.encode\<close> and
  \<open>Name.decode\<close> with the compression of names by references to earlier ones.
\<close>

section \<open>Reading\<close>

datatype dns_error = EOFError | CompressionLoop | StructError | OrdError

text \<open>
  A file is its bytes \<open>d\<close> and a position.  A reader gets a value and leaves a position, or fails and
  leaves one.  \<open>file.read(l)\<close> reads everything when \<open>l\<close> is negative.
\<close>

datatype 'a dns_read = Got 'a nat | Failed dns_error nat

fun rd_bind :: "'a dns_read \<Rightarrow> ('a \<Rightarrow> nat \<Rightarrow> 'b dns_read) \<Rightarrow> 'b dns_read" where
  "rd_bind (Got x p) k = k x p"
| "rd_bind (Failed e p) k = Failed e p"

definition readPrecisely :: "int \<Rightarrow> bytes \<Rightarrow> nat \<Rightarrow> bytes dns_read" where
  "readPrecisely l d p =
     (let buff = (if l < 0 then drop p d else take (nat l) (drop p d))
      in if int (length buff) < l then Failed EOFError (p + length buff) else Got buff (p + length buff))"

lemma readPrecisely_length: "readPrecisely l d p = Got buff q \<Longrightarrow> 0 \<le> l \<Longrightarrow> length buff = nat l \<and> q = p + nat l \<and> (0 < l \<longrightarrow> q \<le> length d)"
  by (auto simp: readPrecisely_def Let_def split: if_splits)

lemma readPrecisely_at:
  "d = x @ buff @ y \<Longrightarrow> p = length x \<Longrightarrow> l = int (length buff) \<Longrightarrow> readPrecisely l d p = Got buff (p + length buff)"
  by (simp add: readPrecisely_def)

section \<open>\<open>Name.decode\<close>\<close>

definition nm_pointer :: "nat \<Rightarrow> nat \<Rightarrow> nat" where
  "nm_pointer l c = push_bit 8 (l AND 63) OR c"

lemma nm_pointer_bound: "c < 256 \<Longrightarrow> nm_pointer l c < 16384"
proof -
  assume "c < 256"
  then have "take_bit 14 c = c" by (simp add: take_bit_nat_eq_self)
  moreover have "take_bit 14 (push_bit 8 (l AND 63)) = push_bit 8 (l AND 63)"
  proof -
    have "l AND 63 = take_bit 6 l" using take_bit_eq_mask [of 6 l] by (simp add: mask_eq_exp_minus_1)
    then show ?thesis by (simp add: take_bit_push_bit)
  qed
  ultimately have "take_bit 14 (nm_pointer l c) = nm_pointer l c" by (simp add: nm_pointer_def)
  then show ?thesis using take_bit_nat_less_exp [of 14 "nm_pointer l c"] by simp
qed

function nm_loop :: "bytes \<Rightarrow> nat set \<Rightarrow> bytes \<Rightarrow> nat \<Rightarrow> nat \<Rightarrow> bytes dns_read" where
  "nm_loop d visited name off p =
     (case readPrecisely 1 d p of
        Failed e p \<Rightarrow> Failed e p
      | Got b p \<Rightarrow>
          let l = of_char (hd b) :: nat
          in if l = 0 then Got name (if off > 0 then off else p)
             else if drop_bit 6 l = 3 then
               (case readPrecisely 1 d p of
                  Failed e p \<Rightarrow> Failed e p
                | Got b p \<Rightarrow>
                    let new_off = nm_pointer l (of_char (hd b))
                    in if new_off \<in> visited then Failed CompressionLoop p
                       else nm_loop d (insert new_off visited) name (if off = 0 then p else off) new_off)
             else
               (case readPrecisely (int l) d p of
                  Failed e p \<Rightarrow> Failed e p
                | Got label p \<Rightarrow>
                    nm_loop d visited (if name = [] then label else name @ ''.'' @ label) off p))"
  by pat_completeness auto

termination
proof (relation "measures [\<lambda>(d, visited, name, off, p). card ({..<16384} - visited), \<lambda>(d, visited, name, off, p). length d - p]")
  fix d :: bytes and visited :: "nat set" and name :: bytes and off p b q c r n l
  assume n: "n = nm_pointer l (of_char (hd c))" "n \<notin> visited"
  then have "n < 16384" using nm_pointer_bound by simp
  with n(2) have "card ({..<16384} - insert n visited) < card ({..<16384} - visited)" by (intro psubset_card_mono) auto
  then show "((d, insert n visited, name, if off = 0 then r else off, n), d, visited, name, off, p) \<in>
      measures [\<lambda>(d, visited, name, off, p). card ({..<16384} - visited), \<lambda>(d, visited, name, off, p). length d - p]" by simp
next
  fix d :: bytes and visited :: "nat set" and name :: bytes and off p b q l label r
  assume "readPrecisely 1 d p = Got b q" "readPrecisely (int l) d q = Got label r"
  then have "q = p + 1" "q \<le> length d" "q \<le> r" by (auto dest: readPrecisely_length)
  then show "((d, visited, if name = [] then label else name @ ''.'' @ label, off, r), d, visited, name, off, p) \<in>
      measures [\<lambda>(d, visited, name, off, p). card ({..<16384} - visited), \<lambda>(d, visited, name, off, p). length d - p]" by auto
qed simp

declare nm_loop.simps [simp del]

definition nm_decode :: "bytes \<Rightarrow> nat \<Rightarrow> bytes dns_read" where
  "nm_decode d p = nm_loop d {} [] 0 p"

section \<open>\<open>Name.encode\<close>\<close>

text \<open>\<open>Message.headerSize\<close>; the body of a message is written to a file of its own.\<close>

definition headerSize :: nat where "headerSize = 12"

record dns_out =
  do_written :: bytes
  do_compDict :: "bytes \<rightharpoonup> nat"

definition do_write :: "bytes \<Rightarrow> dns_out \<Rightarrow> dns_out" where
  "do_write b e = e\<lparr>do_written := do_written e @ b\<rparr>"

text \<open>The first label and the rest; the rest of the last label is empty, as \<open>while name\<close> ends for \<open>None\<close> too.\<close>

definition nm_cut :: "bytes \<Rightarrow> bytes \<times> bytes" where
  "nm_cut name =
     (let label = takeWhile (\<lambda>c. c \<noteq> CHR ''.'') name
      in if label \<noteq> [] \<and> label \<noteq> name then (label, drop (length label + 1) name) else (name, []))"

lemma nm_cut_shorter: "nm_cut name = (label, rest) \<Longrightarrow> name \<noteq> [] \<Longrightarrow> length rest < length name"
  by (auto simp: nm_cut_def Let_def split: if_splits)

text \<open>\<open>compressed\<close> says that a \<open>compDict\<close> was passed.\<close>

function nm_encode :: "bool \<Rightarrow> bytes \<Rightarrow> dns_out \<Rightarrow> (dns_error, dns_out) outcome" where
  "nm_encode compressed name e =
     (if name = [] then Ok (do_write [CHR 0x00] e)
      else case (if compressed then do_compDict e name else None) of
             Some off \<Rightarrow> (if 0xC000 OR off < 2 ^ 16 then Ok (do_write (be_bytes 2 (0xC000 OR off)) e) else Exc StructError e)
           | None \<Rightarrow>
               let e = (if compressed then e\<lparr>do_compDict := (do_compDict e)(name \<mapsto> length (do_written e) + headerSize)\<rparr> else e);
                   (label, rest) = nm_cut name
               in if length label > 255 then Exc OrdError e
                  else nm_encode compressed rest (do_write (char_of (length label) # label) e))"
  by pat_completeness auto
termination
  by (relation "measure (\<lambda>(c, name, e). length name)") (auto dest: nm_cut_shorter [OF sym])

declare nm_encode.simps [simp del]

section \<open>Encoded names\<close>

definition nm_join :: "bytes \<Rightarrow> bytes \<Rightarrow> bytes" where
  "nm_join label rest = (if label = [] then rest else if rest = [] then label else label @ ''.'' @ rest)"

lemma nm_join_assoc: "label \<noteq> [] \<Longrightarrow> nm_join (nm_join name label) rest = nm_join name (nm_join label rest)"
  by (simp add: nm_join_def)

lemma nm_join_Nil [simp]: "nm_join name [] = name" "nm_join [] name = name"
  by (simp_all add: nm_join_def)

text \<open>
  A name is encoded in \<open>d\<close> from \<open>p\<close> to \<open>q\<close>: labels, and then a zero or a reference to a place below \<open>b\<close>
  where a name is encoded, ending below \<open>b\<close> too, with references below that place only.
\<close>

inductive nm_at :: "bytes \<Rightarrow> nat \<Rightarrow> nat \<Rightarrow> bytes \<Rightarrow> nat \<Rightarrow> bool" for d where
  root: "readPrecisely 1 d p = Got [CHR 0x00] q \<Longrightarrow> nm_at d b p [] q"
| label: "readPrecisely 1 d p = Got [char_of (length label)] p' \<Longrightarrow> 0 < length label \<Longrightarrow> length label < 192 \<Longrightarrow>
    readPrecisely (int (length label)) d p' = Got label p'' \<Longrightarrow> nm_at d b p'' rest q \<Longrightarrow> nm_at d b p (nm_join label rest) q"
| reference: "readPrecisely 1 d p = Got [c] p' \<Longrightarrow> readPrecisely 1 d p' = Got [c'] q \<Longrightarrow>
    drop_bit 6 (of_char c :: nat) = 3 \<Longrightarrow> nm_pointer (of_char c) (of_char c') = off \<Longrightarrow> off < b \<Longrightarrow> q' \<le> b \<Longrightarrow>
    nm_at d off off name q' \<Longrightarrow>
    nm_at d b p name q"

lemma nm_at_mono: "nm_at d b p name q \<Longrightarrow> b \<le> b' \<Longrightarrow> nm_at d b' p name q"
proof (induction rule: nm_at.induct)
  case (label p label p' p'' b rest q)
  then show ?case by (intro nm_at.label) auto
next
  case (reference p c p' c' q off b q' name)
  then show ?case by (intro nm_at.reference [of d p c p' c' q off b' q' name]) auto
qed (rule nm_at.root)

lemma readPrecisely_1: "readPrecisely 1 d p = Got buff q \<Longrightarrow> 0 < q"
  by (auto dest: readPrecisely_length)

lemma nm_loop_at:
  "nm_at d b p name q \<Longrightarrow> \<forall>v \<in> visited. b \<le> v \<Longrightarrow> nm_loop d visited acc off p = Got (nm_join acc name) (if off > 0 then off else q)"
proof (induction arbitrary: visited acc off rule: nm_at.induct)
  case (root p q b)
  then show ?case by (subst nm_loop.simps) (simp add: nm_join_def)
next
  case (label p label p' p'' b rest q)
  have l: "of_char (char_of (length label) :: char) = length label" using label.hyps(3) by simp
  have "drop_bit 6 (length label) \<noteq> 3" using label.hyps(3) by (simp add: drop_bit_eq_div)
  with label.hyps l have "nm_loop d visited acc off p = nm_loop d visited (nm_join acc label) off p''"
    by (subst nm_loop.simps) (auto simp: nm_join_def Let_def)
  moreover have "label \<noteq> []" using label.hyps(2) by auto
  ultimately show ?case using label.IH [OF label.prems] by (simp add: nm_join_assoc)
next
  case (reference p c p' c' q off' b q' name)
  then have new: "off' \<notin> visited" by auto
  have "0 < q" using reference.hyps(2) by (rule readPrecisely_1)
  moreover have "(of_char c :: nat) \<noteq> 0" using reference.hyps(3) by (metis drop_bit_of_0 zero_neq_numeral)
  with reference.hyps(1-4) new have "nm_loop d visited acc off p = nm_loop d (insert off' visited) acc (if off = 0 then q else off) off'"
    by (subst nm_loop.simps) (simp add: Let_def)
  moreover have "\<forall>v \<in> insert off' visited. off' \<le> v" using reference.prems reference.hyps(5) by auto
  ultimately show ?case using reference.IH [of "insert off' visited" acc "if off = 0 then q else off"] by simp
qed

lemma nm_decode_at: "nm_at d b p name q \<Longrightarrow> nm_decode d p = Got name q"
  using nm_loop_at [of d b p name q "{}" "[]" 0] by (simp add: nm_decode_def)

text \<open>Names that can be encoded: labels of 1 to 191 bytes, separated by single dots.\<close>

function nm_ok :: "bytes \<Rightarrow> bool" where
  "nm_ok name \<longleftrightarrow>
     (if name = [] then True
      else let (label, rest) = nm_cut name in length label < 192 \<and> nm_join label rest = name \<and> CHR ''.'' \<notin> set label \<and> nm_ok rest)"
  by pat_completeness auto
termination
  by (relation "measure length") (auto dest: nm_cut_shorter [OF sym])

declare nm_ok.simps [simp del]

lemma nm_ok_Nil [simp]: "nm_ok []"
  by (simp add: nm_ok.simps)

lemma nm_cut_join:
  assumes "label \<noteq> []" "CHR ''.'' \<notin> set label"
  shows "nm_cut (label @ CHR ''.'' # rest) = (label, rest)" "nm_cut label = (label, [])"
proof -
  have t: "takeWhile (\<lambda>c. c \<noteq> CHR ''.'') label = label" using assms(2) by (auto simp: takeWhile_eq_all_conv)
  have "takeWhile (\<lambda>c. c \<noteq> CHR ''.'') (label @ CHR ''.'' # rest) = label" using assms(2) by (subst takeWhile_append2) auto
  then show "nm_cut (label @ CHR ''.'' # rest) = (label, rest)" using assms(1) by (simp add: nm_cut_def)
  show "nm_cut label = (label, [])" by (simp add: nm_cut_def t)
qed

lemma nm_ok_join: "\<forall>l \<in> set labels. l \<noteq> [] \<and> length l < 192 \<and> CHR ''.'' \<notin> set l \<Longrightarrow> nm_ok (join ''.'' labels)"
proof (induction labels rule: induct_list012)
  case (2 x)
  then show ?case by (subst nm_ok.simps) (simp add: nm_cut_join)
next
  case (3 x y zs)
  have "join ''.'' (y # zs) \<noteq> []" using "3.prems" by (cases zs) auto
  with 3 show ?case by (subst nm_ok.simps) (simp add: nm_cut_join nm_join_def)
qed simp

section \<open>The compression dictionary\<close>

text \<open>Every name in the dictionary is encoded where the dictionary says, below \<open>b\<close>, in the finished message \<open>d\<close>.\<close>

definition nm_entry :: "bytes \<Rightarrow> nat \<Rightarrow> bytes \<Rightarrow> nat \<Rightarrow> bool" where
  "nm_entry d b name off \<longleftrightarrow> off < b \<and> (\<exists>q \<le> b. nm_at d off off name q)"

lemma nm_entry_mono: "nm_entry d b name off \<Longrightarrow> b \<le> b' \<Longrightarrow> nm_entry d b' name off"
  unfolding nm_entry_def by (meson le_trans less_le_trans)

definition do_sane :: "bytes \<Rightarrow> dns_out \<Rightarrow> bool" where
  "do_sane d e \<longleftrightarrow> (\<forall>name off. do_compDict e name = Some off \<longrightarrow> nm_entry d (headerSize + length (do_written e)) name off)"

text \<open>The message has a header, then what was written, then what will be written.\<close>

definition do_within :: "bytes \<Rightarrow> dns_out \<Rightarrow> bool" where
  "do_within d e \<longleftrightarrow> (\<exists>header later. length header = headerSize \<and> d = header @ do_written e @ later)"

definition do_pos :: "dns_out \<Rightarrow> nat" where
  "do_pos e = headerSize + length (do_written e)"

lemma do_write_simps [simp]:
  "do_written (do_write b e) = do_written e @ b" "do_compDict (do_write b e) = do_compDict e" "do_pos (do_write b e) = do_pos e + length b"
  by (simp_all add: do_write_def do_pos_def)

lemma do_within_read:
  assumes "do_within d e" "do_written e = out @ b @ tail" "l = int (length b)" "p = headerSize + length out"
  shows "readPrecisely l d p = Got b (p + length b)"
proof -
  from assms(1,2) obtain header later where h: "length header = headerSize" and d: "d = (header @ out) @ b @ (tail @ later)"
    by (auto simp: do_within_def)
  show ?thesis by (rule readPrecisely_at [OF d]) (use h assms(3,4) in simp_all)
qed

lemma do_within_le: "do_within d e \<Longrightarrow> do_pos e \<le> length d"
  by (auto simp: do_within_def do_pos_def)

lemma nm_reference:
  assumes "off < 16384"
  shows "0xC000 OR off = 0xC000 + off" "be_bytes 2 (0xC000 + off) = [char_of (192 + off div 256), char_of (off mod 256)]"
    "drop_bit 6 (192 + off div 256) = 3" "nm_pointer (192 + off div 256) (off mod 256) = off" "192 + off div 256 < 256"
proof -
  show hi: "192 + off div 256 < 256" using assms by (simp add: less_mult_imp_div_less)
  have "0xC000 AND off = 0"
  proof -
    have "push_bit 14 a AND take_bit 14 off = 0" for a :: nat by (rule bit_eqI) (simp add: bit_simps)
    from this [of 3] show ?thesis using assms by (simp add: take_bit_nat_eq_self push_bit_eq_mult)
  qed
  then show "0xC000 OR off = 0xC000 + off" using disjunctive_add_eq_or [of "0xC000" off] by simp
  have "(off + 192 * 256) div 256 = 192 + off div 256" "(off + 192 * 256) mod 256 = off mod 256"
    by (rule div_mult_self1, simp) (rule mod_mult_self1)
  then have "(0xC000 + off) div 256 = 192 + off div 256" "(0xC000 + off) mod 256 = off mod 256" by (simp_all add: add.commute)
  then show "be_bytes 2 (0xC000 + off) = [char_of (192 + off div 256), char_of (off mod 256)]" using hi by (simp add: numeral_2_eq_2)
  have small: "off div 256 < 64" using assms by (simp add: less_mult_imp_div_less)
  then show "drop_bit 6 (192 + off div 256) = 3" by (simp add: drop_bit_eq_div)
  have "(off div 256 + 3 * 64) mod 64 = off div 256 mod 64" by (rule mod_mult_self1)
  with small have "(192 + off div 256) mod 64 = off div 256" by (simp add: add.commute)
  then have "(192 + off div 256) AND 63 = off div 256"
    using take_bit_eq_mask [of 6 "192 + off div 256"] small by (simp add: mask_eq_exp_minus_1 take_bit_eq_mod)
  moreover have "push_bit 8 (off div 256) OR off mod 256 = off"
  proof -
    have "push_bit 8 (drop_bit 8 off) OR take_bit 8 off = off" by (rule bit_eqI) (auto simp: bit_simps)
    then show ?thesis by (simp add: drop_bit_eq_div take_bit_eq_mod)
  qed
  ultimately show "nm_pointer (192 + off div 256) (off mod 256) = off" by (simp add: nm_pointer_def)
qed

text \<open>A place beyond 16383 does not fit into a reference: the one to 16384 is written as the one to 0.\<close>

lemma nm_far_reference: "0xC000 OR 16384 = (0xC000 OR 0 :: nat)"
  by simp

section \<open>Encoding and decoding names\<close>

lemma nm_cut_nonempty: "nm_cut name = (label, rest) \<Longrightarrow> name \<noteq> [] \<Longrightarrow> label \<noteq> []"
  by (auto simp: nm_cut_def Let_def split: if_splits)

lemma nm_encode_at:
  assumes d: "length d \<le> 16384"
  shows "nm_encode compressed name e = Ok e' \<Longrightarrow> nm_ok name \<Longrightarrow> do_within d e' \<Longrightarrow> b \<le> do_pos e \<Longrightarrow>
    (compressed \<Longrightarrow> \<forall>n off. do_compDict e n = Some off \<longrightarrow> length name < length n \<or> nm_entry d b n off) \<Longrightarrow>
    nm_at d b (do_pos e) name (do_pos e') \<and> (\<exists>bs. do_written e' = do_written e @ bs) \<and>
    (\<forall>n off. do_compDict e' n = Some off \<longrightarrow> do_compDict e n = Some off \<or> (b \<le> off \<and> off < do_pos e' \<and> nm_at d b off n (do_pos e')))"
proof (induction compressed name e arbitrary: e' rule: nm_encode.induct)
  case (1 compressed name e)
  note within = "1.prems"(3)
  show ?case
  proof (cases "name = []")
    case True
    with "1.prems"(1) have e': "e' = do_write [CHR 0x00] e" by (simp add: nm_encode.simps)
    then have "readPrecisely 1 d (do_pos e) = Got [CHR 0x00] (do_pos e')"
      using do_within_read [OF within, of "do_written e" "[CHR 0x00]" "[]"] by (simp add: do_pos_def)
    with True e' show ?thesis by (simp add: nm_at.root)
  next
    case False
    show ?thesis
    proof (cases "if compressed then do_compDict e name else None")
      case (Some off)
      then have compressed and dict: "do_compDict e name = Some off" by (simp_all split: if_splits)
      from "1.prems"(5) [OF this(1)] dict obtain q' where off: "off < b" "q' \<le> b" "nm_at d off off name q'" unfolding nm_entry_def by blast
      from "1.prems"(1) False Some have e': "e' = do_write (be_bytes 2 (0xC000 OR off)) e" by (simp add: nm_encode.simps split: if_splits)
      from do_within_le [OF within] "1.prems"(4) d off(1) e' have "off < 16384" by simp
      note ref = nm_reference [OF this]
      let ?c = "char_of (192 + off div 256) :: char" and ?c' = "char_of (off mod 256) :: char"
      have w: "do_written e' = do_written e @ [?c, ?c']" by (simp add: e' ref)
      have "readPrecisely 1 d (do_pos e) = Got [?c] (do_pos e + 1)"
        using do_within_read [OF within, of "do_written e" "[?c]" "[?c']"] w by (simp add: do_pos_def)
      moreover have "readPrecisely 1 d (do_pos e + 1) = Got [?c'] (do_pos e')"
        using do_within_read [OF within, of "do_written e @ [?c]" "[?c']" "[]"] w by (simp add: do_pos_def)
      moreover have "of_char ?c = 192 + off div 256" "of_char ?c' = off mod 256" using ref(5) by simp_all
      ultimately have "nm_at d b (do_pos e) name (do_pos e')"
        using ref off by (intro nm_at.reference [of d "do_pos e" ?c "do_pos e + 1" ?c' "do_pos e'" off b q' name]) simp_all
      with w e' show ?thesis by simp
    next
      case None
      obtain label rest where cut: "nm_cut name = (label, rest)" by fastforce
      define e1 where "e1 = (if compressed then e\<lparr>do_compDict := (do_compDict e)(name \<mapsto> length (do_written e) + headerSize)\<rparr> else e)"
      define e2 where "e2 = do_write (char_of (length label) # label) e1"
      have w: "do_written e1 = do_written e" "do_pos e1 = do_pos e" "do_written e2 = do_written e @ char_of (length label) # label"
        by (simp_all add: e1_def e2_def do_pos_def)
      have "nm_ok name \<longleftrightarrow> length label < 192 \<and> nm_join label rest = name \<and> CHR ''.'' \<notin> set label \<and> nm_ok rest"
        using False cut by (subst nm_ok.simps) simp
      with "1.prems"(2) have ok: "length label < 192" "nm_join label rest = name" "nm_ok rest" by simp_all
      note nonempty = nm_cut_nonempty [OF cut False] and shorter = nm_cut_shorter [OF cut False]
      from "1.prems"(1) False None cut ok(1) have rec: "nm_encode compressed rest e2 = Ok e'"
        by (simp add: nm_encode.simps [of compressed name] e2_def e1_def Let_def)
      have pos: "b \<le> do_pos e2" using "1.prems"(4) w by (simp add: do_pos_def)
      have dict: "\<forall>n off. do_compDict e2 n = Some off \<longrightarrow> length rest < length n \<or> nm_entry d b n off" if compressed
      proof (intro allI impI)
        fix n off assume n: "do_compDict e2 n = Some off"
        show "length rest < length n \<or> nm_entry d b n off"
        proof (cases "n = name")
          case True
          with shorter show ?thesis by simp
        next
          case False
          with n that have "do_compDict e n = Some off" by (simp add: e2_def e1_def)
          with "1.prems"(5) [OF that] shorter show ?thesis by (meson less_trans)
        qed
      qed
      have "nm_at d b (do_pos e2) rest (do_pos e') \<and> (\<exists>bs. do_written e' = do_written e2 @ bs) \<and>
          (\<forall>n off. do_compDict e' n = Some off \<longrightarrow> do_compDict e2 n = Some off \<or> (b \<le> off \<and> off < do_pos e' \<and> nm_at d b off n (do_pos e')))"
        using "1.IH" [OF False None e1_def cut [symmetric] refl _ rec [unfolded e2_def] ok(3) within pos [unfolded e2_def] dict [unfolded e2_def]] ok(1)
        by (simp add: e2_def)
      then obtain bs where at: "nm_at d b (do_pos e2) rest (do_pos e')" and bs: "do_written e' = do_written e2 @ bs"
        and new: "\<forall>n off. do_compDict e' n = Some off \<longrightarrow> do_compDict e2 n = Some off \<or> (b \<le> off \<and> off < do_pos e' \<and> nm_at d b off n (do_pos e'))"
        by blast
      have one: "readPrecisely 1 d (do_pos e) = Got [char_of (length label)] (do_pos e + 1)"
        using do_within_read [OF within, of "do_written e" "[char_of (length label)]" "label @ bs"] bs w by (simp add: do_pos_def)
      have two: "readPrecisely (int (length label)) d (do_pos e + 1) = Got label (do_pos e2)"
        using do_within_read [OF within, of "do_written e @ [char_of (length label)]" label bs] bs w by (simp add: do_pos_def)
      have here: "nm_at d b (do_pos e) name (do_pos e')"
        using nm_at.label [OF one _ ok(1) two at] nonempty ok(2) by simp
      have less: "do_pos e < do_pos e'" using bs w by (simp add: do_pos_def)
      have "do_compDict e n = Some off \<or> (b \<le> off \<and> off < do_pos e' \<and> nm_at d b off n (do_pos e'))" if n: "do_compDict e' n = Some off" for n off
      proof (cases "do_compDict e2 n = Some off \<and> do_compDict e n \<noteq> Some off")
        case True
        then have "n = name" "off = do_pos e" by (auto simp: e2_def e1_def do_pos_def split: if_splits)
        with here less "1.prems"(4) show ?thesis by blast
      qed (use new n in blast)
      with here bs w show ?thesis by auto
    qed
  qed
qed

text \<open>What was encoded is there, and the dictionary stays right.\<close>

lemma nm_encode_places:
  assumes "nm_encode compressed name e = Ok e'" "nm_ok name" "length d \<le> 16384" "do_within d e'" "do_sane d e"
  shows "nm_at d (do_pos e) (do_pos e) name (do_pos e')" "do_sane d e'" "\<exists>bs. do_written e' = do_written e @ bs"
proof -
  have old: "\<forall>n off. do_compDict e n = Some off \<longrightarrow> length name < length n \<or> nm_entry d (do_pos e) n off"
    using assms(5) by (auto simp: do_sane_def do_pos_def)
  note enc = nm_encode_at [OF assms(3,1,2,4) order_refl old]
  from enc show "nm_at d (do_pos e) (do_pos e) name (do_pos e')" by blast
  from enc obtain bs where bs: "do_written e' = do_written e @ bs" by blast
  then show "\<exists>bs. do_written e' = do_written e @ bs" by blast
  have le: "do_pos e \<le> do_pos e'" using bs by (simp add: do_pos_def)
  have "nm_entry d (do_pos e') n off" if n: "do_compDict e' n = Some off" for n off
  proof (cases "do_compDict e n = Some off")
    case True
    with assms(5) have "nm_entry d (do_pos e) n off" by (simp add: do_sane_def do_pos_def)
    then show ?thesis using le by (rule nm_entry_mono)
  next
    case False
    with enc n have "do_pos e \<le> off" "off < do_pos e'" "nm_at d (do_pos e) off n (do_pos e')" by blast+
    then show ?thesis by (auto simp: nm_entry_def intro: nm_at_mono)
  qed
  then show "do_sane d e'" by (auto simp: do_sane_def do_pos_def)
qed

lemma nm_encode_returns:
  "nm_ok name \<Longrightarrow> \<forall>n off. do_compDict e n = Some off \<longrightarrow> off < 16384 \<Longrightarrow> do_pos e + length name < 16384 \<Longrightarrow> \<exists>e'. nm_encode compressed name e = Ok e'"
proof (induction compressed name e rule: nm_encode.induct)
  case (1 compressed name e)
  show ?case
  proof (cases "name = []")
    case True
    then show ?thesis by (simp add: nm_encode.simps)
  next
    case False
    show ?thesis
    proof (cases "if compressed then do_compDict e name else None")
      case (Some off)
      then have "off < 16384" using "1.prems"(2) by (auto split: if_splits)
      from nm_reference(1) [OF this] this Some False show ?thesis by (simp add: nm_encode.simps)
    next
      case None
      obtain label rest where cut: "nm_cut name = (label, rest)" by fastforce
      have "nm_ok name \<longleftrightarrow> length label < 192 \<and> nm_join label rest = name \<and> CHR ''.'' \<notin> set label \<and> nm_ok rest"
        using False cut by (subst nm_ok.simps) simp
      with "1.prems"(1) have ok: "length label < 192" "nm_join label rest = name" "nm_ok rest" by simp_all
      let ?e1 = "if compressed then e\<lparr>do_compDict := (do_compDict e)(name \<mapsto> length (do_written e) + headerSize)\<rparr> else e"
      let ?e2 = "do_write (char_of (length label) # label) ?e1"
      have "do_pos ?e2 + length rest < 16384 \<or> rest = []"
        using "1.prems"(3) arg_cong [OF ok(2), of length] nm_cut_nonempty [OF cut False] by (simp add: do_pos_def nm_join_def split: if_splits)
      then have "\<exists>e'. nm_encode compressed rest ?e2 = Ok e'"
      proof
        assume "do_pos ?e2 + length rest < 16384"
        then show ?thesis
          by (intro "1.IH" [OF False None refl cut [symmetric] refl]) (use ok "1.prems"(2,3) in \<open>auto simp: do_pos_def\<close>)
      next
        assume "rest = []"
        then show ?thesis by (simp add: nm_encode.simps)
      qed
      with False None cut ok(1) show ?thesis by (subst nm_encode.simps) (simp add: Let_def)
    qed
  qed
qed


section \<open>Files that end early\<close>

lemma readPrecisely_cut:
  assumes "readPrecisely l d p = Got x q" "0 \<le> l" "p \<le> k" "k \<le> length d"
  shows "readPrecisely l (take k d) p = (if q \<le> k then Got x q else Failed EOFError k)"
proof -
  have q: "q = p + nat l" "length x = nat l" using readPrecisely_length [OF assms(1,2)] by simp_all
  have x: "x = take (nat l) (drop p d)" using assms(1,2) by (simp add: readPrecisely_def Let_def split: if_splits)
  have b: "take (nat l) (drop p (take k d)) = take (min (nat l) (k - p)) (drop p d)" by (simp add: drop_take)
  show ?thesis
  proof (cases "q \<le> k")
    case True
    with q have "min (nat l) (k - p) = nat l" by simp
    with b x have "take (nat l) (drop p (take k d)) = x" by simp
    with True q assms(2) show ?thesis by (simp add: readPrecisely_def)
  next
    case False
    with q assms(3) have "min (nat l) (k - p) = k - p" by simp
    with b have "take (nat l) (drop p (take k d)) = take (k - p) (drop p d)" by simp
    moreover from assms(4) have "length (take (k - p) (drop p d)) = k - p" by simp
    moreover from False q assms(2,3) have "int (k - p) < l" by linarith
    ultimately show ?thesis using assms(2,3) False by (simp add: readPrecisely_def Let_def)
  qed
qed

lemma nm_at_grows: "nm_at d b p name q \<Longrightarrow> p < q"
  by (induction rule: nm_at.induct) (auto dest!: readPrecisely_length)

lemma nm_at_cut: "nm_at d b p name q \<Longrightarrow> b \<le> p \<Longrightarrow> q \<le> k \<Longrightarrow> k \<le> length d \<Longrightarrow> nm_at (take k d) b p name q"
proof (induction rule: nm_at.induct)
  case (root p q b)
  then have "p < q" by (auto dest!: readPrecisely_length)
  with root show ?case using readPrecisely_cut [OF root.hyps, of k] by (intro nm_at.root) simp
next
  case (label p label p' p'' b rest q)
  have "p < p'" "p' \<le> p''" "p'' < q"
    using label.hyps(1,4,5) by (auto dest!: readPrecisely_length nm_at_grows)
  with label show ?case
    using readPrecisely_cut [OF label.hyps(1), of k] readPrecisely_cut [OF label.hyps(4), of k] by (intro nm_at.label) simp_all
next
  case (reference p c p' c' q off b q' name)
  have "p < p'" "p' < q" using reference.hyps(1,2) by (auto dest!: readPrecisely_length)
  with reference show ?case
    using readPrecisely_cut [OF reference.hyps(1), of k] readPrecisely_cut [OF reference.hyps(2), of k]
    by (intro nm_at.reference [of "take k d" p c p' c' q off b q' name]) simp_all
qed

lemma nm_loop_cut: "nm_at d b p name q \<Longrightarrow> p \<le> k \<Longrightarrow> k < q \<Longrightarrow> k \<le> length d \<Longrightarrow> nm_loop (take k d) visited acc off p = Failed EOFError k"
proof (induction arbitrary: acc rule: nm_at.induct)
  case (root p q b)
  then show ?case using readPrecisely_cut [OF root.hyps, of k] by (subst nm_loop.simps) simp
next
  case (label p label p' p'' b rest q)
  have l: "of_char (char_of (length label) :: char) = length label" using label.hyps(3) by simp
  have six: "drop_bit 6 (length label) \<noteq> 3" using label.hyps(3) by (simp add: drop_bit_eq_div)
  note one = readPrecisely_cut [OF label.hyps(1) _ label.prems(1,3)]
  show ?case
  proof (cases "p' \<le> k")
    case True
    note two = readPrecisely_cut [OF label.hyps(4) _ True label.prems(3)]
    from True one two label.hyps(2) l six label.IH [OF _ label.prems(2,3)] show ?thesis
      by (subst nm_loop.simps) (auto simp: Let_def)
  next
    case False
    with one show ?thesis by (subst nm_loop.simps) simp
  qed
next
  case (reference p c p' c' q off' b q' name)
  have c: "(of_char c :: nat) \<noteq> 0" using reference.hyps(3) by (metis drop_bit_of_0 zero_neq_numeral)
  note one = readPrecisely_cut [OF reference.hyps(1) _ reference.prems(1,3)]
  show ?case
  proof (cases "p' \<le> k")
    case True
    note two = readPrecisely_cut [OF reference.hyps(2) _ True reference.prems(3)]
    with True one reference.hyps(3) reference.prems(2) c show ?thesis by (subst nm_loop.simps) (simp add: Let_def)
  next
    case False
    with one show ?thesis by (subst nm_loop.simps) simp
  qed
qed

lemma nm_decode_cut: "nm_at d b p name q \<Longrightarrow> p \<le> k \<Longrightarrow> k < q \<Longrightarrow> k \<le> length d \<Longrightarrow> nm_decode (take k d) p = Failed EOFError k"
  by (simp add: nm_decode_def nm_loop_cut)

lemma nm_decode_end: "nm_decode d (length d) = Failed EOFError (length d)"
  by (simp add: nm_decode_def nm_loop.simps readPrecisely_def)

section \<open>The size of an encoded name\<close>

lemma nm_encode_size:
  "nm_encode compressed name e = Ok e' \<Longrightarrow> \<forall>n off. do_compDict e n = Some off \<longrightarrow> off < do_pos e \<Longrightarrow>
    do_pos e' \<le> do_pos e + (if name = [] then 1 else length name + 2) \<and> (\<forall>n off. do_compDict e' n = Some off \<longrightarrow> off < do_pos e')"
proof (induction compressed name e arbitrary: e' rule: nm_encode.induct)
  case (1 compressed name e)
  show ?case
  proof (cases "name \<noteq> [] \<and> (if compressed then do_compDict e name else None) = None")
    case True
    obtain label rest where cut: "nm_cut name = (label, rest)" by fastforce
    define e1 where "e1 = (if compressed then e\<lparr>do_compDict := (do_compDict e)(name \<mapsto> length (do_written e) + headerSize)\<rparr> else e)"
    define e2 where "e2 = do_write (char_of (length label) # label) e1"
    have le: "length label \<le> 255" and rec: "nm_encode compressed rest e2 = Ok e'"
      using True "1.prems"(1) cut by (simp_all add: nm_encode.simps [of compressed name] e1_def e2_def Let_def split: if_splits)
    have pos: "do_pos e2 = do_pos e + 1 + length label" by (simp add: e2_def e1_def do_pos_def)
    have "\<forall>n off. do_compDict e2 n = Some off \<longrightarrow> off < do_pos e2"
    proof (intro allI impI)
      fix n off assume "do_compDict e2 n = Some off"
      then have "off = do_pos e \<or> do_compDict e n = Some off" by (auto simp: e2_def e1_def do_pos_def split: if_splits)
      with "1.prems"(2) pos show "off < do_pos e2" by fastforce
    qed
    with "1.IH" [OF _ _ e1_def cut [symmetric] refl _ rec [unfolded e2_def]] True le
    have "do_pos e' \<le> do_pos e2 + (if rest = [] then 1 else length rest + 2)" "\<forall>n off. do_compDict e' n = Some off \<longrightarrow> off < do_pos e'"
      by (simp_all add: e2_def)
    moreover have "length label \<le> length name" "rest \<noteq> [] \<Longrightarrow> length name = length label + 1 + length rest"
      using cut True by (auto simp: nm_cut_def Let_def length_takeWhile_le split: if_splits)
    ultimately show ?thesis using pos True by (auto split: if_splits)
  next
    case False
    with "1.prems"(1) consider "e' = do_write [CHR 0x00] e" | off where "name \<noteq> []" "e' = do_write (be_bytes 2 (0xC000 OR off)) e"
      by (auto simp: nm_encode.simps [of compressed name] split: if_splits)
    moreover have "\<forall>n off. do_compDict e n = Some off \<longrightarrow> off < do_pos e + j" for j using "1.prems"(2) by (meson trans_less_add1)
    from this [of 1] this [of 2] have "\<forall>n off. do_compDict e n = Some off \<longrightarrow> off < Suc (do_pos e)"
      "\<forall>n off. do_compDict e n = Some off \<longrightarrow> off < Suc (Suc (do_pos e))" by simp_all
    ultimately show ?thesis by cases simp_all
  qed
qed

end
