(* ===== verification/DnsRecords.thy ===== *)
theory DnsRecords
  imports DnsNames
begin

text \<open>
  The resource records of \<open>twisted/names/dns.py\<close>, as sequences of fields.  The time to live of a
  record is not part of its encoding; the header of the record carries it.
\<close>

section \<open>Fields\<close>

text \<open>
  A name that may be compressed, a name for which \<open>None\<close> is passed as the dictionary, an unsigned
  number of \<open>k\<close> bytes, \<open>'!l'\<close>, bytes as they are, a \<open>Charstr\<close>, and bytes after their number as \<open>'!B'\<close>.
\<close>

datatype dns_field =
  FName bytes | FPlain bytes | FNum nat nat | FLong int | FBytes bytes | FCharstr bytes | FCounted bytes

definition do_pack :: "nat \<Rightarrow> nat \<Rightarrow> dns_out \<Rightarrow> (dns_error, dns_out) outcome" where
  "do_pack k n e = (if n < 256 ^ k then Ok (do_write (be_bytes k n) e) else Exc StructError e)"

fun fld_encode :: "dns_field \<Rightarrow> dns_out \<Rightarrow> (dns_error, dns_out) outcome" where
  "fld_encode (FName name) e = nm_encode True name e"
| "fld_encode (FPlain name) e = nm_encode False name e"
| "fld_encode (FNum k n) e = do_pack k n e"
| "fld_encode (FLong n) e =
     (if - (2 ^ 31) \<le> n \<and> n < 2 ^ 31 then Ok (do_write (be_bytes 4 (nat (n mod 2 ^ 32))) e) else Exc StructError e)"
| "fld_encode (FBytes b) e = Ok (do_write b e)"
| "fld_encode (FCharstr b) e = (if length b > 255 then Exc OrdError e else Ok (do_write (char_of (length b) # b) e))"
| "fld_encode (FCounted b) e = (if length b > 255 then Exc StructError e else Ok (do_write (char_of (length b) # b) e))"

fun fld_encode_all :: "dns_field list \<Rightarrow> dns_out \<Rightarrow> (dns_error, dns_out) outcome" where
  "fld_encode_all [] e = Ok e"
| "fld_encode_all (f # fs) e = and_then (fld_encode f e) (fld_encode_all fs)"

text \<open>Several numbers that the source unpacks from one read are read one after the other, which ends in the same place.\<close>

definition rd_num :: "nat \<Rightarrow> bytes \<Rightarrow> nat \<Rightarrow> nat dns_read" where
  "rd_num k d p = rd_bind (readPrecisely (int k) d p) (\<lambda>b q. Got (be_nat b) q)"

definition rd_long :: "bytes \<Rightarrow> nat \<Rightarrow> int dns_read" where
  "rd_long d p = rd_bind (rd_num 4 d p) (\<lambda>n q. Got (if n < 2 ^ 31 then int n else int n - 2 ^ 32) q)"

definition rd_counted :: "bytes \<Rightarrow> nat \<Rightarrow> bytes dns_read" where
  "rd_counted d p = rd_bind (rd_num 1 d p) (\<lambda>l q. readPrecisely (int l) d q)"

section \<open>Records\<close>

abbreviation (input) "T_A \<equiv> 1 :: nat"
abbreviation (input) "T_NS \<equiv> 2 :: nat"
abbreviation (input) "T_MD \<equiv> 3 :: nat"
abbreviation (input) "T_MF \<equiv> 4 :: nat"
abbreviation (input) "T_CNAME \<equiv> 5 :: nat"
abbreviation (input) "T_SOA \<equiv> 6 :: nat"
abbreviation (input) "T_MB \<equiv> 7 :: nat"
abbreviation (input) "T_MG \<equiv> 8 :: nat"
abbreviation (input) "T_MR \<equiv> 9 :: nat"
abbreviation (input) "T_NULL \<equiv> 10 :: nat"
abbreviation (input) "T_WKS \<equiv> 11 :: nat"
abbreviation (input) "T_PTR \<equiv> 12 :: nat"
abbreviation (input) "T_HINFO \<equiv> 13 :: nat"
abbreviation (input) "T_MINFO \<equiv> 14 :: nat"
abbreviation (input) "T_MX \<equiv> 15 :: nat"
abbreviation (input) "T_TXT \<equiv> 16 :: nat"
abbreviation (input) "T_RP \<equiv> 17 :: nat"
abbreviation (input) "T_AFSDB \<equiv> 18 :: nat"
abbreviation (input) "T_AAAA \<equiv> 28 :: nat"
abbreviation (input) "T_SRV \<equiv> 33 :: nat"
abbreviation (input) "T_NAPTR \<equiv> 35 :: nat"
abbreviation (input) "T_A6 \<equiv> 38 :: nat"
abbreviation (input) "T_DNAME \<equiv> 39 :: nat"
abbreviation (input) "T_SPF \<equiv> 99 :: nat"

text \<open>The subclasses of \<open>SimpleRecord\<close>, and \<open>Record_TXT\<close> and its subclass \<open>Record_SPF\<close>, differ in their type only.\<close>

datatype dns_record =
    SimpleRecord nat bytes
  | Record_A bytes
  | Record_SOA bytes bytes nat int int int nat
  | Record_NULL bytes
  | Record_WKS bytes nat bytes
  | Record_AAAA bytes
  | Record_A6 nat bytes bytes
  | Record_SRV nat nat nat bytes
  | Record_NAPTR nat nat bytes bytes bytes bytes
  | Record_AFSDB nat bytes
  | Record_RP bytes bytes
  | Record_HINFO bytes bytes
  | Record_MINFO bytes bytes
  | Record_MX nat bytes
  | Record_TXT nat "bytes list"
  | UnknownRecord bytes

definition simple_types :: "nat list" where
  "simple_types = [T_NS, T_MD, T_MF, T_CNAME, T_MB, T_MG, T_MR, T_PTR, T_DNAME]"

text \<open>\<open>TYPE\<close>, which \<open>UnknownRecord\<close> does not have.\<close>

fun rec_TYPE :: "dns_record \<Rightarrow> nat option" where
  "rec_TYPE (SimpleRecord t name) = Some t"
| "rec_TYPE (Record_A address) = Some T_A"
| "rec_TYPE (Record_SOA mname rname serial refresh retry expire minimum) = Some T_SOA"
| "rec_TYPE (Record_NULL payload) = Some T_NULL"
| "rec_TYPE (Record_WKS address protocol services) = Some T_WKS"
| "rec_TYPE (Record_AAAA address) = Some T_AAAA"
| "rec_TYPE (Record_A6 prefixLen suffix prefix) = Some T_A6"
| "rec_TYPE (Record_SRV priority weight port target) = Some T_SRV"
| "rec_TYPE (Record_NAPTR order preference flags service regexp replacement) = Some T_NAPTR"
| "rec_TYPE (Record_AFSDB subtype hostname) = Some T_AFSDB"
| "rec_TYPE (Record_RP mbox txt) = Some T_RP"
| "rec_TYPE (Record_HINFO cpu os) = Some T_HINFO"
| "rec_TYPE (Record_MINFO rmailbx emailbx) = Some T_MINFO"
| "rec_TYPE (Record_MX preference name) = Some T_MX"
| "rec_TYPE (Record_TXT t texts) = Some t"
| "rec_TYPE (UnknownRecord octets) = None"

text \<open>\<open>int((128 - self.prefixLen) / 8.0)\<close>, which rounds towards zero, and \<open>suffix[-bytes:]\<close>.\<close>

definition a6_bytes :: "nat \<Rightarrow> int" where
  "a6_bytes prefixLen = (if prefixLen \<le> 128 then int ((128 - prefixLen) div 8) else - int ((prefixLen - 128) div 8))"

definition slice_last :: "int \<Rightarrow> bytes \<Rightarrow> bytes" where
  "slice_last n b = (if n > 0 then drop (length b - nat n) b else drop (nat (- n)) b)"

definition Simple_fields :: "bytes \<Rightarrow> dns_field list" where
  "Simple_fields name = [FName name]"

definition A_fields :: "bytes \<Rightarrow> dns_field list" where
  "A_fields address = [FBytes address]"

definition SOA_fields :: "bytes \<Rightarrow> bytes \<Rightarrow> nat \<Rightarrow> int \<Rightarrow> int \<Rightarrow> int \<Rightarrow> nat \<Rightarrow> dns_field list" where
  "SOA_fields mname rname serial refresh retry expire minimum =
     [FName mname, FName rname, FNum 4 serial, FLong refresh, FLong retry, FLong expire, FNum 4 minimum]"

definition NULL_fields :: "bytes \<Rightarrow> dns_field list" where
  "NULL_fields payload = [FBytes payload]"

definition WKS_fields :: "bytes \<Rightarrow> nat \<Rightarrow> bytes \<Rightarrow> dns_field list" where
  "WKS_fields address protocol services = [FBytes address, FNum 1 protocol, FBytes services]"

definition AAAA_fields :: "bytes \<Rightarrow> dns_field list" where
  "AAAA_fields address = [FBytes address]"

definition A6_fields :: "nat \<Rightarrow> bytes \<Rightarrow> bytes \<Rightarrow> dns_field list" where
  "A6_fields prefixLen suffix prefix =
     [FNum 1 prefixLen] @ (if a6_bytes prefixLen \<noteq> 0 then [FBytes (slice_last (a6_bytes prefixLen) suffix)] else []) @
     (if prefixLen \<noteq> 0 then [FPlain prefix] else [])"

definition SRV_fields :: "nat \<Rightarrow> nat \<Rightarrow> nat \<Rightarrow> bytes \<Rightarrow> dns_field list" where
  "SRV_fields priority weight port target = [FNum 2 priority, FNum 2 weight, FNum 2 port, FPlain target]"

definition NAPTR_fields :: "nat \<Rightarrow> nat \<Rightarrow> bytes \<Rightarrow> bytes \<Rightarrow> bytes \<Rightarrow> bytes \<Rightarrow> dns_field list" where
  "NAPTR_fields order preference flags service regexp replacement =
     [FNum 2 order, FNum 2 preference, FCharstr flags, FCharstr service, FCharstr regexp, FPlain replacement]"

definition AFSDB_fields :: "nat \<Rightarrow> bytes \<Rightarrow> dns_field list" where
  "AFSDB_fields subtype hostname = [FNum 2 subtype, FName hostname]"

definition RP_fields :: "bytes \<Rightarrow> bytes \<Rightarrow> dns_field list" where
  "RP_fields mbox txt = [FName mbox, FName txt]"

definition HINFO_fields :: "bytes \<Rightarrow> bytes \<Rightarrow> dns_field list" where
  "HINFO_fields cpu os = [FCounted cpu, FCounted os]"

definition MINFO_fields :: "bytes \<Rightarrow> bytes \<Rightarrow> dns_field list" where
  "MINFO_fields rmailbx emailbx = [FName rmailbx, FName emailbx]"

definition MX_fields :: "nat \<Rightarrow> bytes \<Rightarrow> dns_field list" where
  "MX_fields preference name = [FNum 2 preference, FName name]"

definition TXT_fields :: "bytes list \<Rightarrow> dns_field list" where
  "TXT_fields texts = map FCounted texts"

definition Unknown_fields :: "bytes \<Rightarrow> dns_field list" where
  "Unknown_fields octets = [FBytes octets]"

fun rec_fields :: "dns_record \<Rightarrow> dns_field list" where
  "rec_fields (SimpleRecord t name) = Simple_fields name"
| "rec_fields (Record_A address) = A_fields address"
| "rec_fields (Record_SOA mname rname serial refresh retry expire minimum) = SOA_fields mname rname serial refresh retry expire minimum"
| "rec_fields (Record_NULL payload) = NULL_fields payload"
| "rec_fields (Record_WKS address protocol services) = WKS_fields address protocol services"
| "rec_fields (Record_AAAA address) = AAAA_fields address"
| "rec_fields (Record_A6 prefixLen suffix prefix) = A6_fields prefixLen suffix prefix"
| "rec_fields (Record_SRV priority weight port target) = SRV_fields priority weight port target"
| "rec_fields (Record_NAPTR order preference flags service regexp replacement) = NAPTR_fields order preference flags service regexp replacement"
| "rec_fields (Record_AFSDB subtype hostname) = AFSDB_fields subtype hostname"
| "rec_fields (Record_RP mbox txt) = RP_fields mbox txt"
| "rec_fields (Record_HINFO cpu os) = HINFO_fields cpu os"
| "rec_fields (Record_MINFO rmailbx emailbx) = MINFO_fields rmailbx emailbx"
| "rec_fields (Record_MX preference name) = MX_fields preference name"
| "rec_fields (Record_TXT t texts) = TXT_fields texts"
| "rec_fields (UnknownRecord octets) = Unknown_fields octets"

lemmas rec_fields_defs [simp] =
  Simple_fields_def A_fields_def SOA_fields_def NULL_fields_def WKS_fields_def AAAA_fields_def A6_fields_def SRV_fields_def
  NAPTR_fields_def AFSDB_fields_def RP_fields_def HINFO_fields_def MINFO_fields_def MX_fields_def TXT_fields_def Unknown_fields_def

definition rec_encode :: "dns_record \<Rightarrow> dns_out \<Rightarrow> (dns_error, dns_out) outcome" where
  "rec_encode r = fld_encode_all (rec_fields r)"

text \<open>The loop of \<open>Record_TXT.decode\<close>.\<close>

function txt_loop :: "bytes \<Rightarrow> nat \<Rightarrow> nat \<Rightarrow> bytes list \<Rightarrow> nat \<Rightarrow> bytes list dns_read" where
  "txt_loop d rdlength soFar texts p =
     (if soFar < rdlength then
        (case rd_counted d p of
           Failed e p \<Rightarrow> Failed e p
         | Got text p \<Rightarrow> txt_loop d rdlength (soFar + length text + 1) (texts @ [text]) p)
      else Got texts p)"
  by pat_completeness auto
termination
  by (relation "measure (\<lambda>(d, rdlength, soFar, texts, p). rdlength - soFar)") auto

declare txt_loop.simps [simp del]

definition Simple_decode :: "nat \<Rightarrow> bytes \<Rightarrow> nat \<Rightarrow> dns_record dns_read" where
  "Simple_decode t d p = rd_bind (nm_decode d p) (\<lambda>name. Got (SimpleRecord t name))"

definition A_decode :: "bytes \<Rightarrow> nat \<Rightarrow> dns_record dns_read" where
  "A_decode d p = rd_bind (readPrecisely 4 d p) (\<lambda>address. Got (Record_A address))"

definition SOA_decode :: "bytes \<Rightarrow> nat \<Rightarrow> dns_record dns_read" where
  "SOA_decode d p =
     rd_bind (nm_decode d p) (\<lambda>mname p. rd_bind (nm_decode d p) (\<lambda>rname p. rd_bind (rd_num 4 d p) (\<lambda>serial p.
     rd_bind (rd_long d p) (\<lambda>refresh p. rd_bind (rd_long d p) (\<lambda>retry p. rd_bind (rd_long d p) (\<lambda>expire p.
     rd_bind (rd_num 4 d p) (\<lambda>minimum. Got (Record_SOA mname rname serial refresh retry expire minimum))))))))"

definition NULL_decode :: "nat \<Rightarrow> bytes \<Rightarrow> nat \<Rightarrow> dns_record dns_read" where
  "NULL_decode rdlength d p = rd_bind (readPrecisely (int rdlength) d p) (\<lambda>payload. Got (Record_NULL payload))"

definition WKS_decode :: "nat \<Rightarrow> bytes \<Rightarrow> nat \<Rightarrow> dns_record dns_read" where
  "WKS_decode rdlength d p =
     rd_bind (readPrecisely 4 d p) (\<lambda>address p. rd_bind (rd_num 1 d p) (\<lambda>protocol p.
     rd_bind (readPrecisely (int rdlength - 5) d p) (\<lambda>services. Got (Record_WKS address protocol services))))"

definition AAAA_decode :: "bytes \<Rightarrow> nat \<Rightarrow> dns_record dns_read" where
  "AAAA_decode d p = rd_bind (readPrecisely 16 d p) (\<lambda>address. Got (Record_AAAA address))"

definition A6_decode :: "bytes \<Rightarrow> nat \<Rightarrow> dns_record dns_read" where
  "A6_decode d p =
     rd_bind (rd_num 1 d p) (\<lambda>prefixLen p.
     rd_bind (if a6_bytes prefixLen \<noteq> 0
              then rd_bind (readPrecisely (a6_bytes prefixLen) d p) (\<lambda>b. Got (replicate (nat (16 - a6_bytes prefixLen)) (CHR 0x00) @ b))
              else Got (replicate 16 (CHR 0x00)) p) (\<lambda>suffix p.
     rd_bind (if prefixLen \<noteq> 0 then nm_decode d p else Got [] p) (\<lambda>prefix. Got (Record_A6 prefixLen suffix prefix))))"

definition SRV_decode :: "bytes \<Rightarrow> nat \<Rightarrow> dns_record dns_read" where
  "SRV_decode d p =
     rd_bind (rd_num 2 d p) (\<lambda>priority p. rd_bind (rd_num 2 d p) (\<lambda>weight p. rd_bind (rd_num 2 d p) (\<lambda>port p.
     rd_bind (nm_decode d p) (\<lambda>target. Got (Record_SRV priority weight port target)))))"

definition NAPTR_decode :: "bytes \<Rightarrow> nat \<Rightarrow> dns_record dns_read" where
  "NAPTR_decode d p =
     rd_bind (rd_num 2 d p) (\<lambda>order p. rd_bind (rd_num 2 d p) (\<lambda>preference p. rd_bind (rd_counted d p) (\<lambda>flags p.
     rd_bind (rd_counted d p) (\<lambda>service p. rd_bind (rd_counted d p) (\<lambda>regexp p.
     rd_bind (nm_decode d p) (\<lambda>replacement. Got (Record_NAPTR order preference flags service regexp replacement)))))))"

definition AFSDB_decode :: "bytes \<Rightarrow> nat \<Rightarrow> dns_record dns_read" where
  "AFSDB_decode d p =
     rd_bind (rd_num 2 d p) (\<lambda>subtype p. rd_bind (nm_decode d p) (\<lambda>hostname. Got (Record_AFSDB subtype hostname)))"

definition RP_decode :: "bytes \<Rightarrow> nat \<Rightarrow> dns_record dns_read" where
  "RP_decode d p = rd_bind (nm_decode d p) (\<lambda>mbox p. rd_bind (nm_decode d p) (\<lambda>txt. Got (Record_RP mbox txt)))"

definition HINFO_decode :: "bytes \<Rightarrow> nat \<Rightarrow> dns_record dns_read" where
  "HINFO_decode d p = rd_bind (rd_counted d p) (\<lambda>cpu p. rd_bind (rd_counted d p) (\<lambda>os. Got (Record_HINFO cpu os)))"

definition MINFO_decode :: "bytes \<Rightarrow> nat \<Rightarrow> dns_record dns_read" where
  "MINFO_decode d p =
     rd_bind (nm_decode d p) (\<lambda>rmailbx p. rd_bind (nm_decode d p) (\<lambda>emailbx. Got (Record_MINFO rmailbx emailbx)))"

definition MX_decode :: "bytes \<Rightarrow> nat \<Rightarrow> dns_record dns_read" where
  "MX_decode d p =
     rd_bind (rd_num 2 d p) (\<lambda>preference p. rd_bind (nm_decode d p) (\<lambda>name. Got (Record_MX preference name)))"

definition TXT_decode :: "nat \<Rightarrow> nat \<Rightarrow> bytes \<Rightarrow> nat \<Rightarrow> dns_record dns_read" where
  "TXT_decode t rdlength d p = rd_bind (txt_loop d rdlength 0 [] p) (\<lambda>texts. Got (Record_TXT t texts))"

definition Unknown_decode :: "nat \<Rightarrow> bytes \<Rightarrow> nat \<Rightarrow> dns_record dns_read" where
  "Unknown_decode rdlength d p = rd_bind (readPrecisely (int rdlength) d p) (\<lambda>octets. Got (UnknownRecord octets))"

definition rec_decode :: "nat \<Rightarrow> nat \<Rightarrow> bytes \<Rightarrow> nat \<Rightarrow> dns_record dns_read" where
  "rec_decode t rdlength d p =
     (if t \<in> set simple_types then Simple_decode t d p
      else if t = T_A then A_decode d p
      else if t = T_SOA then SOA_decode d p
      else if t = T_NULL then NULL_decode rdlength d p
      else if t = T_WKS then WKS_decode rdlength d p
      else if t = T_AAAA then AAAA_decode d p
      else if t = T_A6 then A6_decode d p
      else if t = T_SRV then SRV_decode d p
      else if t = T_NAPTR then NAPTR_decode d p
      else if t = T_AFSDB then AFSDB_decode d p
      else if t = T_RP then RP_decode d p
      else if t = T_HINFO then HINFO_decode d p
      else if t = T_MINFO then MINFO_decode d p
      else if t = T_MX then MX_decode d p
      else if t = T_TXT \<or> t = T_SPF then TXT_decode t rdlength d p
      else Unknown_decode rdlength d p)"

lemmas rec_decode_defs [simp] =
  Simple_decode_def A_decode_def SOA_decode_def NULL_decode_def WKS_decode_def AAAA_decode_def A6_decode_def SRV_decode_def
  NAPTR_decode_def AFSDB_decode_def RP_decode_def HINFO_decode_def MINFO_decode_def MX_decode_def TXT_decode_def Unknown_decode_def
section \<open>Fields that were encoded are read\<close>

lemma nm_encode_appends: "nm_encode compressed name e = Ok e' \<Longrightarrow> \<exists>bs. do_written e' = do_written e @ bs"
proof (induction compressed name e arbitrary: e' rule: nm_encode.induct)
  case (1 compressed name e)
  obtain label rest where cut: "nm_cut name = (label, rest)" by fastforce
  show ?case
  proof (cases "name \<noteq> [] \<and> (if compressed then do_compDict e name else None) = None \<and> \<not> length label > 255")
    case True
    define e1 where "e1 = (if compressed then e\<lparr>do_compDict := (do_compDict e)(name \<mapsto> length (do_written e) + headerSize)\<rparr> else e)"
    from True "1.prems" cut have "nm_encode compressed rest (do_write (char_of (length label) # label) e1) = Ok e'"
      by (simp add: nm_encode.simps [of compressed name] e1_def Let_def)
    from "1.IH" [OF _ _ e1_def cut [symmetric] refl _ this] True show ?thesis by (auto simp: e1_def)
  next
    case False
    with "1.prems" cut show ?thesis by (auto simp: nm_encode.simps [of compressed name] Let_def split: option.splits if_splits)
  qed
qed

lemma fld_encode_appends: "fld_encode f e = Ok e' \<Longrightarrow> \<exists>bs. do_written e' = do_written e @ bs"
  by (cases f) (auto simp: do_pack_def nm_encode_appends split: if_splits)

lemma fld_encode_all_appends: "fld_encode_all fs e = Ok e' \<Longrightarrow> \<exists>bs. do_written e' = do_written e @ bs"
proof (induction fs arbitrary: e)
  case (Cons f fs)
  then obtain u where "fld_encode f e = Ok u" "fld_encode_all fs u = Ok e'" by (auto simp: and_then_Ok_iff)
  with fld_encode_appends [of f e u] Cons.IH [of u] show ?case by fastforce
qed simp

lemma do_within_before: "do_within d e' \<Longrightarrow> \<exists>bs. do_written e' = do_written e @ bs \<Longrightarrow> do_within d e"
  by (auto simp: do_within_def)

fun fld_ok :: "dns_field \<Rightarrow> bool" where
  "fld_ok (FName name) = nm_ok name"
| "fld_ok (FPlain name) = nm_ok name"
| "fld_ok (FNum k n) \<longleftrightarrow> n < 256 ^ k"
| "fld_ok (FLong n) \<longleftrightarrow> - (2 ^ 31) \<le> n \<and> n < 2 ^ 31"
| "fld_ok (FBytes b) = True"
| "fld_ok (FCharstr b) \<longleftrightarrow> length b \<le> 255"
| "fld_ok (FCounted b) \<longleftrightarrow> length b \<le> 255"

fun fld_at :: "bytes \<Rightarrow> dns_field \<Rightarrow> nat \<Rightarrow> nat \<Rightarrow> bool" where
  "fld_at d (FName name) p q \<longleftrightarrow> nm_decode d p = Got name q"
| "fld_at d (FPlain name) p q \<longleftrightarrow> nm_decode d p = Got name q"
| "fld_at d (FNum k n) p q \<longleftrightarrow> rd_num k d p = Got n q"
| "fld_at d (FLong n) p q \<longleftrightarrow> rd_long d p = Got n q"
| "fld_at d (FBytes b) p q \<longleftrightarrow> readPrecisely (int (length b)) d p = Got b q"
| "fld_at d (FCharstr b) p q \<longleftrightarrow> rd_counted d p = Got b q"
| "fld_at d (FCounted b) p q \<longleftrightarrow> rd_counted d p = Got b q"

fun fld_all_at :: "bytes \<Rightarrow> dns_field list \<Rightarrow> nat \<Rightarrow> nat \<Rightarrow> bool" where
  "fld_all_at d [] p q \<longleftrightarrow> p = q"
| "fld_all_at d (f # fs) p q \<longleftrightarrow> (\<exists>m. fld_at d f p m \<and> fld_all_at d fs m q)"

text \<open>A field that cannot be read because the file ends at \<open>q\<close>, and fields of which one cannot.\<close>

fun fld_fails :: "bytes \<Rightarrow> dns_field \<Rightarrow> nat \<Rightarrow> nat \<Rightarrow> bool" where
  "fld_fails d (FName name) p q \<longleftrightarrow> nm_decode d p = Failed EOFError q"
| "fld_fails d (FPlain name) p q \<longleftrightarrow> nm_decode d p = Failed EOFError q"
| "fld_fails d (FNum k n) p q \<longleftrightarrow> rd_num k d p = Failed EOFError q"
| "fld_fails d (FLong n) p q \<longleftrightarrow> rd_long d p = Failed EOFError q"
| "fld_fails d (FBytes b) p q \<longleftrightarrow> readPrecisely (int (length b)) d p = Failed EOFError q"
| "fld_fails d (FCharstr b) p q \<longleftrightarrow> rd_counted d p = Failed EOFError q"
| "fld_fails d (FCounted b) p q \<longleftrightarrow> rd_counted d p = Failed EOFError q"

fun fld_all_fails :: "bytes \<Rightarrow> dns_field list \<Rightarrow> nat \<Rightarrow> nat \<Rightarrow> bool" where
  "fld_all_fails d [] p q \<longleftrightarrow> False"
| "fld_all_fails d (f # fs) p q \<longleftrightarrow> fld_fails d f p q \<or> (\<exists>m. fld_at d f p m \<and> fld_all_fails d fs m q)"

text \<open>A field that was put into a file: its names refer to earlier places only.\<close>

fun fld_placed :: "bytes \<Rightarrow> dns_field \<Rightarrow> nat \<Rightarrow> nat \<Rightarrow> bool" where
  "fld_placed d (FName name) p q \<longleftrightarrow> (\<exists>b \<le> p. nm_at d b p name q)"
| "fld_placed d (FPlain name) p q \<longleftrightarrow> (\<exists>b \<le> p. nm_at d b p name q)"
| "fld_placed d f p q \<longleftrightarrow> fld_at d f p q"

fun fld_all_placed :: "bytes \<Rightarrow> dns_field list \<Rightarrow> nat \<Rightarrow> nat \<Rightarrow> bool" where
  "fld_all_placed d [] p q \<longleftrightarrow> p = q"
| "fld_all_placed d (f # fs) p q \<longleftrightarrow> (\<exists>m. fld_placed d f p m \<and> fld_all_placed d fs m q)"

lemma fld_all_placed_append: "fld_all_placed d (fs @ gs) p q \<longleftrightarrow> (\<exists>m. fld_all_placed d fs p m \<and> fld_all_placed d gs m q)"
  by (induction fs arbitrary: p) auto

lemma rd_num_cut:
  assumes "rd_num n d p = Got x q" "p \<le> k" "k \<le> length d"
  shows "p \<le> q \<and> rd_num n (take k d) p = (if q \<le> k then Got x q else Failed EOFError k)"
proof -
  from assms(1) obtain b where b: "readPrecisely (int n) d p = Got b q" "x = be_nat b"
    by (auto simp: rd_num_def elim: rd_bind.elims)
  with readPrecisely_cut [OF b(1) _ assms(2,3)] readPrecisely_length [OF b(1)] show ?thesis by (simp add: rd_num_def)
qed

lemma rd_long_cut:
  assumes "rd_long d p = Got x q" "p \<le> k" "k \<le> length d"
  shows "p \<le> q \<and> rd_long (take k d) p = (if q \<le> k then Got x q else Failed EOFError k)"
proof -
  from assms(1) obtain n where n: "rd_num 4 d p = Got n q" "x = (if n < 2 ^ 31 then int n else int n - 2 ^ 32)"
    by (auto simp: rd_long_def elim: rd_bind.elims)
  with rd_num_cut [OF n(1) assms(2,3)] show ?thesis by (simp add: rd_long_def)
qed

lemma rd_counted_cut:
  assumes "rd_counted d p = Got x q" "p \<le> k" "k \<le> length d"
  shows "p \<le> q \<and> rd_counted (take k d) p = (if q \<le> k then Got x q else Failed EOFError k)"
proof -
  from assms(1) obtain l m where l: "rd_num 1 d p = Got l m" "readPrecisely (int l) d m = Got x q"
    by (auto simp: rd_counted_def elim: rd_bind.elims)
  from readPrecisely_length [OF l(2)] have "m \<le> q" by simp
  with rd_num_cut [OF l(1) assms(2,3)] readPrecisely_cut [OF l(2) _ _ assms(3)] show ?thesis by (simp add: rd_counted_def)
qed

lemma fld_placed_cut:
  assumes "fld_placed d f p q" "p \<le> k" "k \<le> length d"
  shows "p \<le> q \<and> (if q \<le> k then fld_at (take k d) f p q else fld_fails (take k d) f p k)"
proof -
  have name: "p \<le> q \<and> (if q \<le> k then nm_decode (take k d) p = Got name q else nm_decode (take k d) p = Failed EOFError k)"
    if "b \<le> p" "nm_at d b p name q" for b name
    using nm_at_grows [OF that(2)] nm_at_cut [OF that(2,1) _ assms(3), THEN nm_decode_at] nm_decode_cut [OF that(2) assms(2) _ assms(3)]
    by simp
  show ?thesis
  proof (cases f)
    case (FNum n x)
    with assms rd_num_cut [OF _ assms(2,3), of n x q] show ?thesis by simp
  next
    case (FLong n)
    with assms rd_long_cut [OF _ assms(2,3), of n q] show ?thesis by simp
  next
    case (FBytes b)
    with assms(1) have r: "readPrecisely (int (length b)) d p = Got b q" by simp
    from readPrecisely_cut [OF r _ assms(2,3)] readPrecisely_length [OF r] FBytes show ?thesis by simp
  qed (use assms name rd_counted_cut [OF _ assms(2,3)] in auto)
qed

lemma readPrecisely_le: "readPrecisely l d p = Got x q \<Longrightarrow> p \<le> q"
  by (auto simp: readPrecisely_def Let_def split: if_splits)

lemma rd_num_le: "rd_num k d p = Got x q \<Longrightarrow> p \<le> q"
  by (auto simp: rd_num_def dest: readPrecisely_le elim!: rd_bind.elims)

lemma rd_counted_le: "rd_counted d p = Got x q \<Longrightarrow> p \<le> q"
  by (auto simp: rd_counted_def dest!: sym [THEN readPrecisely_le] rd_num_le elim!: rd_bind.elims)

lemma fld_placed_le: "fld_placed d f p q \<Longrightarrow> p \<le> q"
  by (cases f) (fastforce simp: rd_long_def dest: readPrecisely_le nm_at_grows rd_num_le rd_counted_le elim!: rd_bind.elims)+

lemma fld_all_placed_le: "fld_all_placed d fs p q \<Longrightarrow> p \<le> q"
  by (induction fs arbitrary: p) (auto dest!: fld_placed_le intro: le_trans)

lemma fld_all_placed_cut:
  assumes "k \<le> length d"
  shows "fld_all_placed d fs p q \<Longrightarrow> p \<le> k \<Longrightarrow> (if q \<le> k then fld_all_at (take k d) fs p q else fld_all_fails (take k d) fs p k)"
proof (induction fs arbitrary: p)
  case (Cons f fs)
  then obtain m where m: "fld_placed d f p m" "fld_all_placed d fs m q" by auto
  from fld_all_placed_le [OF m(2)] have "m \<le> q" .
  with fld_placed_cut [OF m(1) Cons.prems(2) assms] Cons.IH [OF m(2)] show ?case by (auto split: if_splits)
qed simp

lemma do_pack_reads:
  assumes "do_pack k n e = Ok e'" "do_within d e'"
  shows "rd_num k d (do_pos e) = Got n (do_pos e')"
proof -
  from assms(1) have e': "n < 256 ^ k" "e' = do_write (be_bytes k n) e" by (simp_all add: do_pack_def split: if_splits)
  then have "readPrecisely (int k) d (do_pos e) = Got (be_bytes k n) (do_pos e')"
    using do_within_read [OF assms(2), of "do_written e" "be_bytes k n" "[]"] by (simp add: do_pos_def)
  with e'(1) show ?thesis by (simp add: rd_num_def be_nat_be_bytes)
qed

lemma do_write_counted_reads:
  assumes "length b \<le> 255" "do_within d (do_write (char_of (length b) # b) e)"
  shows "rd_counted d (do_pos e) = Got b (do_pos e + 1 + length b)"
proof -
  have "readPrecisely 1 d (do_pos e) = Got [char_of (length b)] (do_pos e + 1)"
    using do_within_read [OF assms(2), of "do_written e" "[char_of (length b)]" b] by (simp add: do_pos_def)
  moreover have "readPrecisely (int (length b)) d (do_pos e + 1) = Got b (do_pos e + 1 + length b)"
    using do_within_read [OF assms(2), of "do_written e @ [char_of (length b)]" b "[]"] by (simp add: do_pos_def)
  moreover have "be_nat [char_of (length b)] = length b" using assms(1) by (simp add: be_nat_def)
  ultimately show ?thesis by (simp add: rd_counted_def rd_num_def)
qed

lemma do_sane_write [simp]: "do_sane d e \<Longrightarrow> do_sane d (do_write b e)"
  unfolding do_sane_def by (metis do_write_simps(1,2) nm_entry_mono length_append add_le_mono le_add1 order_refl)

lemma fld_encode_places:
  assumes "fld_encode f e = Ok e'" "fld_ok f" "length d \<le> 16384" "do_within d e'" "do_sane d e"
  shows "fld_placed d f (do_pos e) (do_pos e') \<and> do_sane d e'"
proof (cases f)
  case (FName name)
  with assms nm_encode_places [of True name e e' d] show ?thesis by auto
next
  case (FPlain name)
  with assms nm_encode_places [of False name e e' d] show ?thesis by auto
next
  case (FNum k n)
  with assms do_pack_reads [of k n e e' d] show ?thesis by (auto simp: do_pack_def split: if_splits)
next
  case (FLong n)
  from assms(1) FLong have n: "- (2 ^ 31) \<le> n" "n < 2 ^ 31" and e': "e' = do_write (be_bytes 4 (nat (n mod 2 ^ 32))) e"
    by (simp_all split: if_splits)
  define v where "v = nat (n mod 2 ^ 32)"
  have "v < 256 ^ 4" by (simp add: v_def nat_less_iff)
  then have "rd_num 4 d (do_pos e) = Got v (do_pos e')"
    using do_pack_reads [OF _ assms(4), of 4 v e] by (simp add: do_pack_def e' v_def)
  moreover have "(if v < 2 ^ 31 then int v else int v - 2 ^ 32) = n"
  proof (cases "0 \<le> n")
    case True
    with n have "n mod 2 ^ 32 = n" by simp
    with True n show ?thesis by (simp add: v_def)
  next
    case False
    with n have "(n + 2 ^ 32) mod 2 ^ 32 = n + 2 ^ 32" by (intro mod_pos_pos_trivial) simp_all
    then have "n mod 2 ^ 32 = n + 2 ^ 32" by simp
    with False n show ?thesis by (simp add: v_def)
  qed
  ultimately have "rd_long d (do_pos e) = Got n (do_pos e')" by (simp add: rd_long_def)
  then show ?thesis using FLong e' assms(5) by simp
next
  case (FBytes b)
  with assms(1) have e': "e' = do_write b e" by simp
  with FBytes assms(5) do_within_read [OF assms(4), of "do_written e" b "[]"] show ?thesis by (simp add: do_pos_def)
next
  case (FCharstr b)
  with assms do_write_counted_reads [of b d e] show ?thesis by (auto split: if_splits)
next
  case (FCounted b)
  with assms do_write_counted_reads [of b d e] show ?thesis by (auto split: if_splits)
qed

lemma fld_encode_all_places:
  assumes "length d \<le> 16384"
  shows "fld_encode_all fs e = Ok e' \<Longrightarrow> \<forall>f \<in> set fs. fld_ok f \<Longrightarrow> do_within d e' \<Longrightarrow> do_sane d e \<Longrightarrow>
    fld_all_placed d fs (do_pos e) (do_pos e') \<and> do_sane d e'"
proof (induction fs arbitrary: e)
  case (Cons f fs)
  from Cons.prems(1) obtain u where u: "fld_encode f e = Ok u" "fld_encode_all fs u = Ok e'" by (auto simp: and_then_Ok_iff)
  have "do_within d u" using do_within_before [OF Cons.prems(3) fld_encode_all_appends [OF u(2)]] .
  from fld_encode_places [OF u(1) _ assms this Cons.prems(4)] Cons.prems(2) have f: "fld_placed d f (do_pos e) (do_pos u)" "do_sane d u" by simp_all
  from Cons.IH [OF u(2) _ Cons.prems(3) f(2)] Cons.prems(2) f(1) show ?case by auto
qed simp

section \<open>Records that were encoded are decoded\<close>

definition known_types :: "nat list" where
  "known_types = simple_types @ [T_A, T_SOA, T_NULL, T_WKS, T_AAAA, T_A6, T_SRV, T_NAPTR, T_AFSDB, T_RP, T_HINFO, T_MINFO, T_MX, T_TXT, T_SPF]"

text \<open>Records whose attributes have the form that decoding gives them.\<close>

fun rec_form :: "dns_record \<Rightarrow> bool" where
  "rec_form (SimpleRecord t name) \<longleftrightarrow> t \<in> set simple_types"
| "rec_form (Record_A address) \<longleftrightarrow> length address = 4"
| "rec_form (Record_WKS address protocol services) \<longleftrightarrow> length address = 4"
| "rec_form (Record_AAAA address) \<longleftrightarrow> length address = 16"
| "rec_form (Record_A6 prefixLen suffix prefix) \<longleftrightarrow> prefixLen \<le> 128 \<and> (prefixLen = 0 \<longrightarrow> prefix = []) \<and>
     length suffix = 16 \<and> take (16 - (128 - prefixLen) div 8) suffix = replicate (16 - (128 - prefixLen) div 8) (CHR 0x00)"
| "rec_form (Record_TXT t texts) \<longleftrightarrow> t = T_TXT \<or> t = T_SPF"
| "rec_form _ \<longleftrightarrow> True"

definition rec_ok :: "dns_record \<Rightarrow> bool" where
  "rec_ok r \<longleftrightarrow> rec_form r \<and> list_all fld_ok (rec_fields r)"

text \<open>The type in the header of a record: its own, or one that is not known.\<close>

definition rec_typed :: "nat \<Rightarrow> dns_record \<Rightarrow> bool" where
  "rec_typed t r \<longleftrightarrow> (case rec_TYPE r of Some u \<Rightarrow> t = u | None \<Rightarrow> t \<notin> set known_types)"

lemma rd_counted_length: "rd_counted d p = Got b q \<Longrightarrow> q = p + 1 + length b"
  by (auto simp: rd_counted_def rd_num_def readPrecisely_def Let_def split: if_splits)

lemma fld_counted_all_le: "fld_all_at d (map FCounted texts) p q \<Longrightarrow> q = p + (\<Sum>t \<leftarrow> texts. 1 + length t)"
proof (induction texts arbitrary: p)
  case (Cons t ts)
  then obtain m where m: "rd_counted d p = Got t m" "fld_all_at d (map FCounted ts) m q" by auto
  from rd_counted_length [OF m(1)] Cons.IH [OF m(2)] show ?case by simp
qed simp

lemma txt_loop_reads:
  "fld_all_at d (map FCounted texts) p q \<Longrightarrow> txt_loop d (soFar + (q - p)) soFar acc p = Got (acc @ texts) q"
proof (induction texts arbitrary: soFar acc p)
  case Nil
  then show ?case by (simp add: txt_loop.simps)
next
  case (Cons t ts)
  then obtain m where m: "rd_counted d p = Got t m" "fld_all_at d (map FCounted ts) m q" by auto
  from rd_counted_length [OF m(1)] fld_counted_all_le [OF m(2)] have "m = p + 1 + length t" "q \<ge> m" by simp_all
  moreover from this have "soFar + (q - p) = (soFar + length t + 1) + (q - m)" "soFar < soFar + (q - p)" by simp_all
  ultimately show ?case using m(1) Cons.IH [OF m(2), of "soFar + length t + 1" "acc @ [t]"]
    by (subst txt_loop.simps) simp
qed

lemma rec_decodes:
  assumes "fld_all_at d (rec_fields r) p q" "rec_form r" "rec_typed t r"
  shows "rec_decode t (q - p) d p = Got r q"
proof (cases r)
  case (SimpleRecord u name)
  with assms show ?thesis by (auto simp: rec_typed_def rec_decode_def)
next
  case (Record_NULL payload)
  with assms readPrecisely_length [of "int (length payload)" d p payload q] show ?thesis
    by (auto simp: rec_typed_def rec_decode_def simple_types_def)
next
  case (Record_WKS address protocol services)
  with assms obtain m n where m: "readPrecisely 4 d p = Got address m" "rd_num 1 d m = Got protocol n"
    "readPrecisely (int (length services)) d n = Got services q" by auto
  then have "m = p + 4" "n = m + 1" "q = n + length services"
    by (auto simp: rd_num_def readPrecisely_def Let_def split: if_splits)
  then have "int (q - p) - 5 = int (length services)" "int q - int p - 5 = int (length services)" by simp_all
  with m Record_WKS assms(3) show ?thesis by (simp add: rec_typed_def rec_decode_def simple_types_def)
next
  case (Record_A6 prefixLen suffix prefix)
  let ?n = "(128 - prefixLen) div 8"
  from Record_A6 assms(2) have ok: "prefixLen \<le> 128" "length suffix = 16" "take (16 - ?n) suffix = replicate (16 - ?n) (CHR 0x00)"
    "prefixLen = 0 \<longrightarrow> prefix = []" by simp_all
  have "?n \<le> 16" using div_le_mono [of "128 - prefixLen" 128 8] by simp
  have b: "a6_bytes prefixLen = int ?n" using ok(1) by (simp add: a6_bytes_def)
  have suffix: "replicate (16 - ?n) (CHR 0x00) @ drop (16 - ?n) suffix = suffix" using ok(3) by (metis append_take_drop_id)
  have last: "slice_last (int ?n) suffix = drop (16 - ?n) suffix" if "?n \<noteq> 0" using that ok(2) by (simp add: slice_last_def)
  show ?thesis
  proof (cases "?n = 0")
    case True
    then have "suffix = replicate 16 (CHR 0x00)" using suffix ok(2) by simp
    with True b assms(1,3) Record_A6 ok(4) show ?thesis by (auto simp: rec_typed_def rec_decode_def simple_types_def)
  next
    case False
    then have "int ?n \<noteq> 0" by simp
    from assms(1) Record_A6 obtain m where m: "rd_num 1 d p = Got prefixLen m" and
      rest: "fld_all_at d ((if a6_bytes prefixLen \<noteq> 0 then [FBytes (slice_last (a6_bytes prefixLen) suffix)] else []) @
        (if prefixLen \<noteq> 0 then [FPlain prefix] else [])) m q" by auto
    from rest obtain k where k: "readPrecisely (int ?n) d m = Got (drop (16 - ?n) suffix) k"
      "if prefixLen \<noteq> 0 then nm_decode d k = Got prefix q else k = q"
      using \<open>?n \<le> 16\<close> ok(2) unfolding b last [OF False] if_P [OF \<open>int ?n \<noteq> 0\<close>] by (auto split: if_splits)
    have "nat (16 - int ?n) = 16 - ?n" using \<open>?n \<le> 16\<close> by simp
    then have suf: "replicate (nat (16 - int ?n)) (CHR 0x00) @ drop (16 - ?n) suffix = suffix" using suffix by simp
    have prefix: "rd_bind (if prefixLen \<noteq> 0 then nm_decode d k else Got [] k) (\<lambda>prefix. Got (Record_A6 prefixLen suffix prefix)) = Got r q"
      using k(2) ok(4) Record_A6 by (auto split: if_splits)
    have "rec_decode t (q - p) d p = rd_bind (rd_num 1 d p) (\<lambda>prefixLen p.
        rd_bind (if a6_bytes prefixLen \<noteq> 0
                 then rd_bind (readPrecisely (a6_bytes prefixLen) d p) (\<lambda>b. Got (replicate (nat (16 - a6_bytes prefixLen)) (CHR 0x00) @ b))
                 else Got (replicate 16 (CHR 0x00)) p) (\<lambda>suffix p.
        rd_bind (if prefixLen \<noteq> 0 then nm_decode d p else Got [] p) (\<lambda>prefix. Got (Record_A6 prefixLen suffix prefix))))"
      using Record_A6 assms(3) by (simp add: rec_typed_def rec_decode_def simple_types_def)
    also have "\<dots> = Got r q" unfolding m rd_bind.simps b if_P [OF \<open>int ?n \<noteq> 0\<close>] k(1) suf by (rule prefix)
    finally show ?thesis .
  qed
next
  case (Record_TXT u texts)
  with assms txt_loop_reads [of d texts p q 0 "[]"] show ?thesis by (auto simp: rec_typed_def rec_decode_def simple_types_def)
next
  case (UnknownRecord octets)
  with assms readPrecisely_length [of "int (length octets)" d p octets q] show ?thesis
    by (auto simp: rec_typed_def rec_decode_def known_types_def)
qed (use assms in \<open>auto simp: rec_typed_def rec_decode_def simple_types_def\<close>)


section \<open>Records of which the end is missing\<close>

lemma txt_loop_fails:
  "fld_all_fails d (map FCounted texts) p q \<Longrightarrow> soFar + (\<Sum>t \<leftarrow> texts. 1 + length t) \<le> rdlength \<Longrightarrow>
    txt_loop d rdlength soFar acc p = Failed EOFError q"
proof (induction texts arbitrary: soFar acc p)
  case (Cons t ts)
  then have less: "soFar < rdlength" by simp
  show ?case
  proof (cases "rd_counted d p = Failed EOFError q")
    case True
    with less show ?thesis by (simp add: txt_loop.simps)
  next
    case False
    with Cons.prems(1) obtain m where m: "rd_counted d p = Got t m" "fld_all_fails d (map FCounted ts) m q" by auto
    with less Cons.IH [OF m(2), of "soFar + length t + 1"] Cons.prems(2) show ?thesis by (subst txt_loop.simps) simp
  qed
qed simp

lemma rec_fails:
  assumes "fld_all_fails d (rec_fields r) p k" "fld_all_at d' (rec_fields r) p q" "rec_form r" "rec_typed t r"
  shows "rec_decode t (q - p) d p = Failed EOFError k"
proof (cases r)
  case (SimpleRecord u name)
  with assms show ?thesis by (auto simp: rec_typed_def rec_decode_def)
next
  case (Record_NULL payload)
  with assms readPrecisely_length [of "int (length payload)" d' p payload q] show ?thesis
    by (auto simp: rec_typed_def rec_decode_def simple_types_def)
next
  case (Record_WKS address protocol services)
  with assms obtain m n where m: "readPrecisely 4 d' p = Got address m" "rd_num 1 d' m = Got protocol n"
    "readPrecisely (int (length services)) d' n = Got services q" by auto
  then have "m = p + 4" "n = m + 1" "q = n + length services"
    by (auto simp: rd_num_def readPrecisely_def Let_def split: if_splits)
  then have "int (q - p) - 5 = int (length services)" "int q - int p - 5 = int (length services)" by simp_all
  with Record_WKS assms(1,3,4) show ?thesis by (auto simp: rec_typed_def rec_decode_def simple_types_def)
next
  case (Record_A6 prefixLen suffix prefix)
  let ?n = "(128 - prefixLen) div 8"
  from Record_A6 assms(3) have ok: "prefixLen \<le> 128" "length suffix = 16" by simp_all
  have "?n \<le> 16" using div_le_mono [of "128 - prefixLen" 128 8] by simp
  have b: "a6_bytes prefixLen = int ?n" using ok(1) by (simp add: a6_bytes_def)
  show ?thesis
  proof (cases "?n = 0")
    case True
    with b assms(1,4) Record_A6 show ?thesis by (auto simp: rec_typed_def rec_decode_def simple_types_def)
  next
    case False
    then have last: "slice_last (int ?n) suffix = drop (16 - ?n) suffix" using ok(2) by (simp add: slice_last_def)
    have len: "length (drop (16 - ?n) suffix) = ?n" using ok(2) \<open>?n \<le> 16\<close> by simp
    define bs where "bs = drop (16 - ?n) suffix"
    from False have n: "int ?n \<noteq> 0" by simp
    have fields: "rec_fields r = [FNum 1 prefixLen, FBytes bs] @ (if prefixLen \<noteq> 0 then [FPlain prefix] else [])"
      using Record_A6 n by (simp only: rec_fields.simps A6_fields_def b last bs_def if_P) simp
    have dec: "rec_decode t (q - p) d p = rd_bind (rd_num 1 d p) (\<lambda>prefixLen p.
        rd_bind (if a6_bytes prefixLen \<noteq> 0
                 then rd_bind (readPrecisely (a6_bytes prefixLen) d p) (\<lambda>b. Got (replicate (nat (16 - a6_bytes prefixLen)) (CHR 0x00) @ b))
                 else Got (replicate 16 (CHR 0x00)) p) (\<lambda>suffix p.
        rd_bind (if prefixLen \<noteq> 0 then nm_decode d p else Got [] p) (\<lambda>prefix. Got (Record_A6 prefixLen suffix prefix))))"
      using Record_A6 assms(4) by (simp add: rec_typed_def rec_decode_def simple_types_def)
    from assms(1) len consider "rd_num 1 d p = Failed EOFError k"
      | m where "rd_num 1 d p = Got prefixLen m" "readPrecisely (int ?n) d m = Failed EOFError k"
      | m l where "rd_num 1 d p = Got prefixLen m" "readPrecisely (int ?n) d m = Got bs l" "prefixLen \<noteq> 0" "nm_decode d l = Failed EOFError k"
      unfolding fields by (auto simp: bs_def split: if_splits)
    then show ?thesis by cases (simp_all add: dec b n False)
  qed
next
  case (Record_TXT u texts)
  with assms txt_loop_fails [of d texts p k 0] fld_counted_all_le [of d' texts p q] show ?thesis
    by (auto simp: rec_typed_def rec_decode_def simple_types_def)
next
  case (UnknownRecord octets)
  with assms readPrecisely_length [of "int (length octets)" d' p octets q] show ?thesis
    by (auto simp: rec_typed_def rec_decode_def known_types_def)
qed (use assms in \<open>auto simp: rec_typed_def rec_decode_def simple_types_def\<close>)

section \<open>Encoding returns\<close>

fun fld_size :: "dns_field \<Rightarrow> nat" where
  "fld_size (FName name) = length name + 2"
| "fld_size (FPlain name) = length name + 2"
| "fld_size (FNum k n) = k"
| "fld_size (FLong n) = 4"
| "fld_size (FBytes b) = length b"
| "fld_size (FCharstr b) = 1 + length b"
| "fld_size (FCounted b) = 1 + length b"

definition do_below :: "dns_out \<Rightarrow> bool" where
  "do_below e \<longleftrightarrow> (\<forall>n off. do_compDict e n = Some off \<longrightarrow> off < do_pos e)"

lemma do_below_write [simp]: "do_below e \<Longrightarrow> do_below (do_write b e)"
  unfolding do_below_def by (metis do_write_simps(2,3) trans_less_add1)

lemma nm_encode_total:
  assumes "nm_ok name" "do_below e" "do_pos e + length name + 2 \<le> 16384"
  shows "\<exists>e'. nm_encode compressed name e = Ok e' \<and> do_pos e' \<le> do_pos e + length name + 2 \<and> do_below e'"
proof -
  have "\<forall>n off. do_compDict e n = Some off \<longrightarrow> off < 16384" using assms(2,3) unfolding do_below_def by (meson add_lessD1 le_add1 less_le_trans)
  from nm_encode_returns [OF assms(1) this] assms(3) obtain e' where e': "nm_encode compressed name e = Ok e'" by fastforce
  from nm_encode_size [OF this] assms(2) e' show ?thesis by (auto simp: do_below_def split: if_splits)
qed

lemma fld_encode_total:
  "fld_ok f \<Longrightarrow> do_below e \<Longrightarrow> do_pos e + fld_size f \<le> 16384 \<Longrightarrow>
    \<exists>e'. fld_encode f e = Ok e' \<and> do_pos e' \<le> do_pos e + fld_size f \<and> do_below e'"
  using nm_encode_total by (cases f) (auto simp: do_pack_def)

lemma fld_encode_all_total:
  "list_all fld_ok fs \<Longrightarrow> do_below e \<Longrightarrow> do_pos e + (\<Sum>f \<leftarrow> fs. fld_size f) \<le> 16384 \<Longrightarrow>
    \<exists>e'. fld_encode_all fs e = Ok e' \<and> do_pos e' \<le> do_pos e + (\<Sum>f \<leftarrow> fs. fld_size f) \<and> do_below e'"
proof (induction fs arbitrary: e)
  case (Cons f fs)
  then obtain u where u: "fld_encode f e = Ok u" "do_pos u \<le> do_pos e + fld_size f" "do_below u"
    using fld_encode_total [of f e] by fastforce
  with Cons.IH [of u] Cons.prems show ?case by fastforce
qed simp

end
