(* ===== verification/DnsMessages.thy ===== *)
theory DnsMessages
  imports DnsRecords "HOL-Library.Sublist"
begin

unbundle bit_operations_syntax

text \<open>
  \<open>Query\<close>, \<open>RRHeader\<close> and \<open>Message\<close> of \<open>twisted/names/dns.py\<close>: whole messages, and messages that were cut to
  the size that the transport takes.
\<close>

section \<open>Queries and headers of records\<close>

record dns_query =
  qr_name :: bytes
  qr_type :: nat
  qr_cls :: nat

definition qr_encode :: "dns_query \<Rightarrow> dns_out \<Rightarrow> (dns_error, dns_out) outcome" where
  "qr_encode q = fld_encode_all [FName (qr_name q), FNum 2 (qr_type q), FNum 2 (qr_cls q)]"

definition qr_decode :: "bytes \<Rightarrow> nat \<Rightarrow> dns_query dns_read" where
  "qr_decode d p =
     rd_bind (nm_decode d p) (\<lambda>name p. rd_bind (rd_num 2 d p) (\<lambda>t p. rd_bind (rd_num 2 d p) (\<lambda>c.
     Got \<lparr> qr_name = name, qr_type = t, qr_cls = c \<rparr>)))"

record dns_rr =
  rr_name :: bytes
  rr_type :: nat
  rr_cls :: nat
  rr_ttl :: nat
  rr_payload :: "dns_record option"
  rr_auth :: nat

text \<open>The length of the payload is written as zero and filled in afterwards.\<close>

definition do_patch :: "nat \<Rightarrow> bytes \<Rightarrow> dns_out \<Rightarrow> dns_out" where
  "do_patch p b e = e\<lparr>do_written := take p (do_written e) @ b @ drop (p + length b) (do_written e)\<rparr>"

definition rr_encode :: "dns_rr \<Rightarrow> dns_out \<Rightarrow> (dns_error, dns_out) outcome" where
  "rr_encode h e =
     and_then (fld_encode_all [FName (rr_name h), FNum 2 (rr_type h), FNum 2 (rr_cls h), FNum 4 (rr_ttl h), FNum 2 0] e) (\<lambda>e.
       case rr_payload h of
         None \<Rightarrow> Ok e
       | Some payload \<Rightarrow>
           let prefix = length (do_written e)
           in and_then (rec_encode payload e) (\<lambda>e.
                let aft = length (do_written e)
                in if aft - prefix < 256 ^ 2 then Ok (do_patch (prefix - 2) (be_bytes 2 (aft - prefix)) e) else Exc StructError e))"

text \<open>A header and then its payload, as \<open>parseRecords\<close> reads them; the payload gets the header's time to live.\<close>

definition rr_decode :: "nat \<Rightarrow> bytes \<Rightarrow> nat \<Rightarrow> dns_rr dns_read" where
  "rr_decode auth d p =
     rd_bind (nm_decode d p) (\<lambda>name p. rd_bind (rd_num 2 d p) (\<lambda>t p. rd_bind (rd_num 2 d p) (\<lambda>c p.
     rd_bind (rd_num 4 d p) (\<lambda>ttl p. rd_bind (rd_num 2 d p) (\<lambda>rdlength p. rd_bind (rec_decode t rdlength d p) (\<lambda>payload.
     Got \<lparr> rr_name = name, rr_type = t, rr_cls = c, rr_ttl = ttl, rr_payload = Some payload, rr_auth = auth \<rparr>))))))"

section \<open>Messages\<close>

record dns_message =
  ms_id :: nat
  ms_answer :: nat
  ms_opCode :: nat
  ms_recDes :: nat
  ms_recAv :: nat
  ms_auth :: nat
  ms_rCode :: nat
  ms_trunc :: nat
  ms_maxSize :: nat
  ms_authenticData :: nat
  ms_checkingDisabled :: nat
  ms_queries :: "dns_query list"
  ms_answers :: "dns_rr list"
  ms_authority :: "dns_rr list"
  ms_additional :: "dns_rr list"

definition ms_new :: dns_message where
  "ms_new = \<lparr> ms_id = 0, ms_answer = 0, ms_opCode = 0, ms_recDes = 0, ms_recAv = 0, ms_auth = 0, ms_rCode = 0, ms_trunc = 0,
     ms_maxSize = 512, ms_authenticData = 0, ms_checkingDisabled = 0,
     ms_queries = [], ms_answers = [], ms_authority = [], ms_additional = [] \<rparr>"

fun enc_all :: "('a \<Rightarrow> dns_out \<Rightarrow> (dns_error, dns_out) outcome) \<Rightarrow> 'a list \<Rightarrow> dns_out \<Rightarrow> (dns_error, dns_out) outcome" where
  "enc_all enc [] e = Ok e"
| "enc_all enc (x # xs) e = and_then (enc x e) (enc_all enc xs)"

text \<open>Where each item ends in the message, and how many end within the first \<open>k\<close> bytes.\<close>

fun enc_ends :: "('a \<Rightarrow> dns_out \<Rightarrow> (dns_error, dns_out) outcome) \<Rightarrow> 'a list \<Rightarrow> dns_out \<Rightarrow> nat list" where
  "enc_ends enc [] e = []"
| "enc_ends enc (x # xs) e = (case enc x e of Ok u \<Rightarrow> do_pos u # enc_ends enc xs u | Exc err u \<Rightarrow> [])"

definition fit_within :: "nat \<Rightarrow> nat list \<Rightarrow> nat" where
  "fit_within k ps = length (filter (\<lambda>p. p \<le> k) ps)"

definition do_empty :: dns_out where
  "do_empty = \<lparr> do_written = [], do_compDict = Map.empty \<rparr>"

definition ms_body :: "dns_message \<Rightarrow> (dns_error, dns_out) outcome" where
  "ms_body m =
     and_then (enc_all qr_encode (ms_queries m) do_empty) (\<lambda>e.
     and_then (enc_all rr_encode (ms_answers m) e) (\<lambda>e.
     and_then (enc_all rr_encode (ms_authority m) e) (\<lambda>e.
     enc_all rr_encode (ms_additional m) e)))"

definition ms_byte3 :: "dns_message \<Rightarrow> nat" where
  "ms_byte3 m = push_bit 7 (ms_answer m AND 1) OR push_bit 3 (ms_opCode m AND 0xf) OR push_bit 2 (ms_auth m AND 1)
     OR push_bit 1 (ms_trunc m AND 1) OR (ms_recDes m AND 1)"

definition ms_byte4 :: "dns_message \<Rightarrow> nat" where
  "ms_byte4 m = push_bit 7 (ms_recAv m AND 1) OR push_bit 5 (ms_authenticData m AND 1) OR push_bit 4 (ms_checkingDisabled m AND 1)
     OR (ms_rCode m AND 0xf)"

definition ms_header :: "dns_message \<Rightarrow> (dns_error, dns_out) outcome" where
  "ms_header m = fld_encode_all [FNum 2 (ms_id m), FNum 1 (ms_byte3 m), FNum 1 (ms_byte4 m), FNum 2 (length (ms_queries m)),
     FNum 2 (length (ms_answers m)), FNum 2 (length (ms_authority m)), FNum 2 (length (ms_additional m))] do_empty"

text \<open>\<open>toStr\<close>; a body that is too long is cut, and the message keeps the mark.  \<open>body[:n]\<close> drops from the end for a negative n.\<close>

definition ms_toStr :: "dns_message \<Rightarrow> dns_error + bytes \<times> dns_message" where
  "ms_toStr m =
     (case ms_body m of
        Exc err e \<Rightarrow> Inl err
      | Ok e \<Rightarrow>
          let body = do_written e;
              size = length body + headerSize;
              (body, m) =
                (if ms_maxSize m \<noteq> 0 \<and> size > ms_maxSize m
                 then (if ms_maxSize m \<ge> headerSize then take (ms_maxSize m - headerSize) body
                       else take (length body - (headerSize - ms_maxSize m)) body, m\<lparr>ms_trunc := 1\<rparr>)
                 else (body, m))
          in case ms_header m of
               Exc err e \<Rightarrow> Inl err
             | Ok e \<Rightarrow> Inr (do_written e @ body, m))"

text \<open>
  A loop over \<open>n\<close> items, which a clean end of the file leaves early: it gets them all, or those before
  the end, or raises another error.
\<close>

datatype 'a rd_items = Items "'a list" nat | EndOfFile "'a list" nat | Bad dns_error "'a list"

fun rd_loop :: "(nat \<Rightarrow> 'a dns_read) \<Rightarrow> nat \<Rightarrow> nat \<Rightarrow> 'a list \<Rightarrow> 'a rd_items" where
  "rd_loop R 0 p acc = Items acc p"
| "rd_loop R (Suc n) p acc =
     (case R p of
        Got x q \<Rightarrow> rd_loop R n q (acc @ [x])
      | Failed e q \<Rightarrow> if e = EOFError then EndOfFile acc q else Bad e acc)"

text \<open>
  \<open>parseRecords\<close> for the three lists, which it extends: the end of the file ends one of them only.
\<close>

definition ms_section ::
    "bytes \<Rightarrow> nat \<Rightarrow> nat \<Rightarrow> (dns_rr list \<Rightarrow> dns_message) \<Rightarrow> dns_rr list \<Rightarrow> nat \<Rightarrow>
     (dns_message \<Rightarrow> nat \<Rightarrow> (dns_error, dns_message) outcome) \<Rightarrow> (dns_error, dns_message) outcome" where
  "ms_section d auth n store rrs p k =
     (case rd_loop (rr_decode auth d) n p rrs of
        Items rrs p \<Rightarrow> k (store rrs) p
      | EndOfFile rrs p \<Rightarrow> k (store rrs) p
      | Bad e rrs \<Rightarrow> Exc e (store rrs))"

definition ms_records :: "bytes \<Rightarrow> nat \<Rightarrow> nat \<Rightarrow> nat \<Rightarrow> dns_message \<Rightarrow> nat \<Rightarrow> (dns_error, dns_message) outcome" where
  "ms_records d nans nns nadd m p =
     ms_section d (ms_auth m) nans (\<lambda>rrs. m\<lparr>ms_answers := rrs\<rparr>) (ms_answers m) p (\<lambda>m p.
     ms_section d (ms_auth m) nns (\<lambda>rrs. m\<lparr>ms_authority := rrs\<rparr>) (ms_authority m) p (\<lambda>m p.
     ms_section d (ms_auth m) nadd (\<lambda>rrs. m\<lparr>ms_additional := rrs\<rparr>) (ms_additional m) p (\<lambda>m p. Ok m)))"

definition ms_fields :: "nat \<Rightarrow> nat \<Rightarrow> nat \<Rightarrow> dns_message \<Rightarrow> dns_message" where
  "ms_fields i byte3 byte4 m =
     m\<lparr>ms_id := i,
       ms_answer := drop_bit 7 byte3 AND 1, ms_opCode := drop_bit 3 byte3 AND 0xf, ms_auth := drop_bit 2 byte3 AND 1,
       ms_trunc := drop_bit 1 byte3 AND 1, ms_recDes := byte3 AND 1,
       ms_recAv := drop_bit 7 byte4 AND 1, ms_authenticData := drop_bit 5 byte4 AND 1,
       ms_checkingDisabled := drop_bit 4 byte4 AND 1, ms_rCode := byte4 AND 0xf,
       ms_queries := []\<rparr>"

definition ms_decode :: "dns_message \<Rightarrow> bytes \<Rightarrow> (dns_error, dns_message) outcome" where
  "ms_decode m d =
     (let m = m\<lparr>ms_maxSize := 0\<rparr>
      in case rd_bind (rd_num 2 d 0) (\<lambda>i p. rd_bind (rd_num 1 d p) (\<lambda>b3 p. rd_bind (rd_num 1 d p) (\<lambda>b4 p.
           rd_bind (rd_num 2 d p) (\<lambda>nq p. rd_bind (rd_num 2 d p) (\<lambda>nans p. rd_bind (rd_num 2 d p) (\<lambda>nns p.
           rd_bind (rd_num 2 d p) (\<lambda>nadd. Got (i, b3, b4, nq, nans, nns, nadd))))))))
         of
           Failed e p \<Rightarrow> Exc e m
         | Got (i, b3, b4, nq, nans, nns, nadd) p \<Rightarrow>
             let m = ms_fields i b3 b4 m
             in case rd_loop (qr_decode d) nq p [] of
                  EndOfFile qs p \<Rightarrow> Ok (m\<lparr>ms_queries := qs\<rparr>)
                | Bad e qs \<Rightarrow> Exc e (m\<lparr>ms_queries := qs\<rparr>)
                | Items qs p \<Rightarrow> ms_records d nans nns nadd (m\<lparr>ms_queries := qs\<rparr>) p)"

definition ms_fromStr :: "bytes \<Rightarrow> dns_message \<Rightarrow> (dns_error, dns_message) outcome" where
  "ms_fromStr str m = ms_decode m str"

section \<open>The payload's length\<close>

text \<open>Encoding looks at what was written only for its length, so that the length filled in later could as well have been there.\<close>

lemma nm_encode_same:
  "nm_encode compressed name e = Ok e' \<Longrightarrow> length w = length (do_written e) \<Longrightarrow>
    \<exists>bs. do_written e' = do_written e @ bs \<and> nm_encode compressed name (e\<lparr>do_written := w\<rparr>) = Ok (e'\<lparr>do_written := w @ bs\<rparr>)"
proof (induction compressed name e arbitrary: w e' rule: nm_encode.induct)
  case (1 compressed name e)
  show ?case
  proof (cases "name \<noteq> [] \<and> (if compressed then do_compDict e name else None) = None")
    case True
    obtain label rest where cut: "nm_cut name = (label, rest)" by fastforce
    let ?set = "\<lambda>e. if compressed then e\<lparr>do_compDict := (do_compDict e)(name \<mapsto> length (do_written e) + headerSize)\<rparr> else e"
    let ?b = "char_of (length label) # label"
    define e1 where "e1 = ?set e"
    have le: "length label \<le> 255" and rec: "nm_encode compressed rest (do_write ?b e1) = Ok e'"
      using True "1.prems"(1) cut by (simp_all add: nm_encode.simps [of compressed name] e1_def Let_def split: if_splits)
    have "length (w @ ?b) = length (do_written (do_write ?b e1))" using "1.prems"(2) by (simp add: e1_def)
    with "1.IH" [OF _ _ e1_def cut [symmetric] refl _ rec, of "w @ ?b"] True le obtain bs where
      bs: "do_written e' = do_written (do_write ?b e1) @ bs" and
      e2: "nm_encode compressed rest ((do_write ?b e1)\<lparr>do_written := w @ ?b\<rparr>) = Ok (e'\<lparr>do_written := (w @ ?b) @ bs\<rparr>)" by auto
    have "(do_write ?b e1)\<lparr>do_written := w @ ?b\<rparr> = do_write ?b (?set (e\<lparr>do_written := w\<rparr>))"
      using "1.prems"(2) by (simp add: e1_def do_write_def)
    moreover have "nm_encode compressed name (e\<lparr>do_written := w\<rparr>) = nm_encode compressed rest (do_write ?b (?set (e\<lparr>do_written := w\<rparr>)))"
      using True cut le by (subst nm_encode.simps) (cases compressed; simp add: Let_def)
    ultimately have "nm_encode compressed name (e\<lparr>do_written := w\<rparr>) = Ok (e'\<lparr>do_written := w @ (?b @ bs)\<rparr>)" using e2 by simp
    moreover have "do_written e' = do_written e @ (?b @ bs)" using bs by (simp add: e1_def)
    ultimately show ?thesis by blast
  next
    case False
    with "1.prems"(1) show ?thesis
      by (auto simp: nm_encode.simps [of compressed name] do_write_def split: if_splits)
  qed
qed

lemma fld_encode_same:
  "fld_encode f e = Ok e' \<Longrightarrow> length w = length (do_written e) \<Longrightarrow>
    \<exists>bs. do_written e' = do_written e @ bs \<and> fld_encode f (e\<lparr>do_written := w\<rparr>) = Ok (e'\<lparr>do_written := w @ bs\<rparr>)"
  by (cases f) (auto simp: do_pack_def do_write_def nm_encode_same split: if_splits)

lemma fld_encode_all_same:
  "fld_encode_all fs e = Ok e' \<Longrightarrow> length w = length (do_written e) \<Longrightarrow>
    \<exists>bs. do_written e' = do_written e @ bs \<and> fld_encode_all fs (e\<lparr>do_written := w\<rparr>) = Ok (e'\<lparr>do_written := w @ bs\<rparr>)"
proof (induction fs arbitrary: e w)
  case (Cons f fs)
  then obtain u where u: "fld_encode f e = Ok u" "fld_encode_all fs u = Ok e'" by (auto simp: and_then_Ok_iff)
  from fld_encode_same [OF u(1) Cons.prems(2)] obtain bs where
    bs: "do_written u = do_written e @ bs" "fld_encode f (e\<lparr>do_written := w\<rparr>) = Ok (u\<lparr>do_written := w @ bs\<rparr>)" by blast
  from Cons.IH [OF u(2), of "w @ bs"] bs Cons.prems(2) show ?case by auto
qed auto

definition rr_fields :: "dns_rr \<Rightarrow> nat \<Rightarrow> dns_field list" where
  "rr_fields h rdlength = [FName (rr_name h), FNum 2 (rr_type h), FNum 2 (rr_cls h), FNum 4 (rr_ttl h), FNum 2 rdlength]"

lemma fld_encode_all_append: "fld_encode_all (fs @ gs) e = and_then (fld_encode_all fs e) (fld_encode_all gs)"
proof (induction fs arbitrary: e)
  case (Cons f fs)
  then show ?case by (cases "fld_encode f e") simp_all
qed simp

lemma rr_encode_fields:
  assumes "rr_encode h e = Ok e'" "rr_payload h = Some r"
  shows "\<exists>e1. fld_encode_all (rr_fields h (do_pos e' - do_pos e1)) e = Ok e1 \<and> rec_encode r e1 = Ok e'"
proof -
  let ?fs = "[FName (rr_name h), FNum 2 (rr_type h), FNum 2 (rr_cls h), FNum 4 (rr_ttl h)]"
  have split: "rr_fields h l = ?fs @ [FNum 2 l]" for l by (simp add: rr_fields_def)
  from assms obtain e0 e2 where e0: "fld_encode_all (?fs @ [FNum 2 0]) e = Ok e0" and e2: "rec_encode r e0 = Ok e2"
    and l: "length (do_written e2) - length (do_written e0) < 256 ^ 2"
    and e': "e' = do_patch (length (do_written e0) - 2) (be_bytes 2 (length (do_written e2) - length (do_written e0))) e2"
    by (auto simp: rr_encode_def and_then_Ok_iff Let_def split: if_splits)
  define l where "l = length (do_written e2) - length (do_written e0)"
  from e0 obtain u where u: "fld_encode_all ?fs e = Ok u" "e0 = do_write (be_bytes 2 0) u"
    unfolding fld_encode_all_append and_then_Ok_iff by (auto simp: do_pack_def simp del: fld_encode_all.simps(2)) (simp add: do_pack_def)
  define e1 where "e1 = do_write (be_bytes 2 l) u"
  from e2 fld_encode_all_same [of "rec_fields r" e0 e2 "do_written e1"] u(2) obtain bs where
    bs: "do_written e2 = do_written e0 @ bs" "rec_encode r (e0\<lparr>do_written := do_written e1\<rparr>) = Ok (e2\<lparr>do_written := do_written e1 @ bs\<rparr>)"
    by (auto simp: rec_encode_def e1_def)
  have "e0\<lparr>do_written := do_written e1\<rparr> = e1" by (simp add: e1_def u(2) do_write_def)
  moreover have "e2\<lparr>do_written := do_written e1 @ bs\<rparr> = e'"
    using bs(1) u(2) by (simp add: e' do_patch_def e1_def l_def)
  ultimately have r: "rec_encode r e1 = Ok e'" using bs(2) by simp
  moreover have "do_pos e' - do_pos e1 = l" using bs(1) u(2) by (simp add: e' do_patch_def e1_def do_pos_def l_def)
  moreover have "fld_encode_all (rr_fields h l) e = Ok e1"
    using u(1) l unfolding split fld_encode_all_append by (simp add: do_pack_def e1_def l_def)
  ultimately show ?thesis by blast
qed

section \<open>Items of a message\<close>

text \<open>
  What a message promises of its queries and of its records: an item that is \<open>ok\<close> can be encoded within
  its size, and is decoded to \<open>fin\<close> of it from a file that ends at \<open>k\<close>, unless it does not end before.
\<close>

definition do_keeps :: "dns_out \<Rightarrow> dns_out \<Rightarrow> bool" where
  "do_keeps e e' \<longleftrightarrow> (\<exists>bs. do_written e' = do_written e @ bs)"

lemma do_keeps_refl [simp]: "do_keeps e e"
  by (simp add: do_keeps_def)

lemma do_keeps_trans: "do_keeps e u \<Longrightarrow> do_keeps u e' \<Longrightarrow> do_keeps e e'"
  by (auto simp: do_keeps_def)

lemma do_keeps_le: "do_keeps e e' \<Longrightarrow> do_pos e \<le> do_pos e'"
  by (auto simp: do_keeps_def do_pos_def)

lemma do_keeps_within: "do_keeps e e' \<Longrightarrow> do_within d e' \<Longrightarrow> do_within d e"
  unfolding do_keeps_def by (rule do_within_before)

lemma do_keeps_fields: "fld_encode_all fs e = Ok e' \<Longrightarrow> do_keeps e e'"
  unfolding do_keeps_def by (rule fld_encode_all_appends)

definition do_ready :: "bytes \<Rightarrow> dns_out \<Rightarrow> dns_out \<Rightarrow> bool" where
  "do_ready d e e' \<longleftrightarrow> length d \<le> 16384 \<and> do_within d e' \<and> do_sane d e"

locale dns_item =
  fixes enc :: "'a \<Rightarrow> dns_out \<Rightarrow> (dns_error, dns_out) outcome"
    and dec :: "bytes \<Rightarrow> nat \<Rightarrow> 'a dns_read"
    and ok :: "'a \<Rightarrow> bool"
    and sz :: "'a \<Rightarrow> nat"
    and fin :: "'a \<Rightarrow> 'a"
  assumes total: "ok x \<Longrightarrow> do_below e \<Longrightarrow> do_pos e + sz x \<le> 16384 \<Longrightarrow>
      \<exists>e'. enc x e = Ok e' \<and> do_pos e' \<le> do_pos e + sz x \<and> do_below e'"
    and keeps: "ok x \<Longrightarrow> enc x e = Ok e' \<Longrightarrow> do_keeps e e'"
    and sane: "ok x \<Longrightarrow> enc x e = Ok e' \<Longrightarrow> do_ready d e e' \<Longrightarrow> do_sane d e'"
    and reads: "ok x \<Longrightarrow> enc x e = Ok e' \<Longrightarrow> do_ready d e e' \<Longrightarrow> do_pos e \<le> k \<Longrightarrow> k \<le> length d \<Longrightarrow>
      dec (take k d) (do_pos e) = (if do_pos e' \<le> k then Got (fin x) (do_pos e') else Failed EOFError k)"
    and ends: "dec d (length d) = Failed EOFError (length d)"
begin

lemma all_total:
  "list_all ok xs \<Longrightarrow> do_below e \<Longrightarrow> do_pos e + (\<Sum>x \<leftarrow> xs. sz x) \<le> 16384 \<Longrightarrow>
    \<exists>e'. enc_all enc xs e = Ok e' \<and> do_pos e' \<le> do_pos e + (\<Sum>x \<leftarrow> xs. sz x) \<and> do_below e'"
proof (induction xs arbitrary: e)
  case (Cons x xs)
  then obtain u where u: "enc x e = Ok u" "do_pos u \<le> do_pos e + sz x" "do_below u"
    using total [of x e] by fastforce
  with Cons.IH [of u] Cons.prems show ?case by fastforce
qed simp

lemma all_keeps: "list_all ok xs \<Longrightarrow> enc_all enc xs e = Ok e' \<Longrightarrow> do_keeps e e'"
  by (induction xs arbitrary: e) (auto simp: and_then_Ok_iff intro: do_keeps_trans keeps)

lemma all_step:
  assumes "list_all ok (x # xs)" "enc_all enc (x # xs) e = Ok e'" "do_ready d e e'"
  obtains u where "enc x e = Ok u" "do_ready d e u" "enc_all enc xs u = Ok e'" "do_ready d u e'" "do_pos u \<le> do_pos e'"
proof -
  from assms(2) obtain u where u: "enc x e = Ok u" "enc_all enc xs u = Ok e'" by (auto simp: and_then_Ok_iff)
  from all_keeps [OF _ u(2)] assms(1) have k: "do_keeps u e'" by simp
  from do_keeps_within [OF this] assms(3) have ready: "do_ready d e u" by (simp add: do_ready_def)
  with sane [OF _ u(1) this] assms(1,3) have "do_ready d u e'" by (simp add: do_ready_def)
  with u ready do_keeps_le [OF k] that show thesis by blast
qed

lemma all_sane: "list_all ok xs \<Longrightarrow> enc_all enc xs e = Ok e' \<Longrightarrow> do_ready d e e' \<Longrightarrow> do_sane d e'"
proof (induction xs arbitrary: e)
  case (Cons x xs)
  from all_step [OF Cons.prems] obtain u where "enc_all enc xs u = Ok e'" "do_ready d u e'" by blast
  with Cons.IH Cons.prems(1) show ?case by simp
qed (simp add: do_ready_def)

text \<open>All items are read, or those that end before the end of the file.\<close>

lemma ends_from: "list_all ok xs \<Longrightarrow> enc_all enc xs e = Ok e' \<Longrightarrow> p \<in> set (enc_ends enc xs e) \<Longrightarrow> do_pos e \<le> p \<and> p \<le> do_pos e'"
proof (induction xs arbitrary: e)
  case (Cons x xs)
  then obtain u where u: "enc x e = Ok u" "enc_all enc xs u = Ok e'" by (auto simp: and_then_Ok_iff)
  with Cons.prems keeps all_keeps [OF _ u(2)] have "do_pos e \<le> do_pos u" "do_pos u \<le> do_pos e'" by (auto intro: do_keeps_le)
  with Cons.IH [OF _ u(2)] Cons.prems(1,3) u(1) show ?case by (auto intro: order_trans)
qed simp

lemma ends_length: "enc_all enc xs e = Ok e' \<Longrightarrow> length (enc_ends enc xs e) = length xs"
  by (induction xs arbitrary: e) (auto simp: and_then_Ok_iff)

lemma ends_last: "list_all ok xs \<Longrightarrow> enc_all enc xs e = Ok e' \<Longrightarrow> last (do_pos e # enc_ends enc xs e) = do_pos e'"
  by (induction xs arbitrary: e) (auto simp: and_then_Ok_iff)

lemma fit_none: "list_all ok xs \<Longrightarrow> enc_all enc xs e = Ok e' \<Longrightarrow> k < do_pos e \<Longrightarrow> fit_within k (enc_ends enc xs e) = 0"
  by (auto simp: fit_within_def filter_empty_conv dest!: ends_from)

lemma fit_all: "list_all ok xs \<Longrightarrow> enc_all enc xs e = Ok e' \<Longrightarrow> do_pos e' \<le> k \<Longrightarrow> fit_within k (enc_ends enc xs e) = length xs"
proof -
  assume "list_all ok xs" "enc_all enc xs e = Ok e'" "do_pos e' \<le> k"
  with ends_from have "filter (\<lambda>p. p \<le> k) (enc_ends enc xs e) = enc_ends enc xs e"
    by (fastforce simp: filter_id_conv)
  with ends_length \<open>enc_all enc xs e = Ok e'\<close> show ?thesis by (simp add: fit_within_def)
qed

lemma all_read:
  "list_all ok xs \<Longrightarrow> enc_all enc xs e = Ok e' \<Longrightarrow> do_ready d e e' \<Longrightarrow> do_pos e \<le> k \<Longrightarrow> k \<le> length d \<Longrightarrow>
    (if do_pos e' \<le> k then rd_loop (dec (take k d)) (length xs) (do_pos e) acc = Items (acc @ map fin xs) (do_pos e')
     else fit_within k (enc_ends enc xs e) < length xs \<and>
       rd_loop (dec (take k d)) (length xs) (do_pos e) acc = EndOfFile (acc @ map fin (take (fit_within k (enc_ends enc xs e)) xs)) k)"
proof (induction xs arbitrary: e acc)
  case (Cons x xs)
  from all_step [OF Cons.prems(1-3)] obtain u where
    u: "enc x e = Ok u" "do_ready d e u" "enc_all enc xs u = Ok e'" "do_ready d u e'" "do_pos u \<le> do_pos e'" by blast
  from reads [OF _ u(1,2) Cons.prems(4,5)] Cons.prems(1) have
    x: "dec (take k d) (do_pos e) = (if do_pos u \<le> k then Got (fin x) (do_pos u) else Failed EOFError k)" by simp
  from Cons.prems(1) have ok: "list_all ok xs" by simp
  have fit: "fit_within k (enc_ends enc (x # xs) e) =
      (if do_pos u \<le> k then Suc (fit_within k (enc_ends enc xs u)) else fit_within k (enc_ends enc xs u))"
    using u(1) by (simp add: fit_within_def)
  show ?case
  proof (cases "do_pos u \<le> k")
    case True
    note rest = Cons.IH [OF ok u(3,4) True Cons.prems(5), of "acc @ [fin x]"]
    with x True fit show ?thesis by simp
  next
    case False
    with fit_none [OF ok u(3)] fit x u(5) show ?thesis by simp
  qed
qed simp

lemma none_read: "k \<le> length d \<Longrightarrow> rd_loop (dec (take k d)) n k acc = (if n = 0 then Items acc k else EndOfFile acc k)"
  using ends [of "take k d"] by (cases n) simp_all

text \<open>The same from a place that is behind the end of the file when an earlier section was cut.\<close>

lemma section_read:
  assumes "list_all ok xs" "enc_all enc xs e = Ok e'" "do_ready d e e'" "k \<le> length d"
  defines "j \<equiv> fit_within k (enc_ends enc xs e)"
  shows "rd_loop (dec (take k d)) (length xs) (min k (do_pos e)) acc \<in>
      {Items (acc @ map fin (take j xs)) (min k (do_pos e')), EndOfFile (acc @ map fin (take j xs)) (min k (do_pos e'))}"
    "j \<le> length xs" "do_pos e' \<le> k \<longrightarrow> j = length xs" "k < do_pos e' \<longrightarrow> (if k < do_pos e then j = 0 else j < length xs)"
proof -
  note le = do_keeps_le [OF all_keeps [OF assms(1,2)]]
  have len: "j \<le> length xs" using ends_length [OF assms(2)] by (metis fit_within_def j_def length_filter_le)
  note read = all_read [OF assms(1-3) _ assms(4), of acc, folded j_def]
    and none = fit_none [OF assms(1,2), of k, folded j_def] and every = fit_all [OF assms(1,2), of k, folded j_def]
  show "rd_loop (dec (take k d)) (length xs) (min k (do_pos e)) acc \<in>
      {Items (acc @ map fin (take j xs)) (min k (do_pos e')), EndOfFile (acc @ map fin (take j xs)) (min k (do_pos e'))}"
  proof (cases "do_pos e \<le> k")
    case True
    with read every show ?thesis by (cases "do_pos e' \<le> k") (auto simp: min_def)
  next
    case False
    with none none_read [OF assms(4), of "length xs" acc] le show ?thesis by (auto simp: min_def)
  qed
  show "j \<le> length xs" by (rule len)
  show "do_pos e' \<le> k \<longrightarrow> j = length xs" using every by simp
  show "k < do_pos e' \<longrightarrow> (if k < do_pos e then j = 0 else j < length xs)" using none read by (simp add: not_le)
qed

end

section \<open>Queries and records as items\<close>

definition qr_fields :: "dns_query \<Rightarrow> dns_field list" where
  "qr_fields q = [FName (qr_name q), FNum 2 (qr_type q), FNum 2 (qr_cls q)]"

definition qr_ok :: "dns_query \<Rightarrow> bool" where
  "qr_ok q \<longleftrightarrow> list_all fld_ok (qr_fields q)"

definition qr_size :: "dns_query \<Rightarrow> nat" where
  "qr_size q = (\<Sum>f \<leftarrow> qr_fields q. fld_size f)"

lemma qr_encode_eq: "qr_encode q = fld_encode_all (qr_fields q)"
  by (simp add: qr_encode_def qr_fields_def)

lemma fields_ready:
  assumes "fld_encode_all fs e = Ok e'" "list_all fld_ok fs" "do_ready d e e'"
  shows "fld_all_placed d fs (do_pos e) (do_pos e')" "do_sane d e'"
  using fld_encode_all_places [OF _ assms(1)] assms(2,3) by (auto simp: do_ready_def list_all_iff)

lemma qr_reads:
  assumes "qr_ok q" "qr_encode q e = Ok e'" "do_ready d e e'" "do_pos e \<le> k" "k \<le> length d"
  shows "qr_decode (take k d) (do_pos e) = (if do_pos e' \<le> k then Got q (do_pos e') else Failed EOFError k)"
proof -
  note placed = fields_ready(1) [OF assms(2) [unfolded qr_encode_eq] assms(1) [unfolded qr_ok_def] assms(3)]
  from fld_all_placed_cut [OF assms(5) placed assms(4)] show ?thesis
    by (auto simp: qr_fields_def qr_decode_def split: if_splits)
qed

interpretation query: dns_item qr_encode qr_decode qr_ok qr_size "\<lambda>q. q"
proof unfold_locales
  show "\<exists>e'. qr_encode q e = Ok e' \<and> do_pos e' \<le> do_pos e + qr_size q \<and> do_below e'"
    if "qr_ok q" "do_below e" "do_pos e + qr_size q \<le> 16384" for q e
    using that fld_encode_all_total by (simp add: qr_encode_eq qr_ok_def qr_size_def)
  show "qr_decode d (length d) = Failed EOFError (length d)" for d
    by (simp add: qr_decode_def nm_decode_end)
qed (use fields_ready(2) qr_reads in \<open>auto simp: qr_encode_eq qr_ok_def intro: do_keeps_fields\<close>)

definition rr_ok :: "dns_rr \<Rightarrow> bool" where
  "rr_ok h \<longleftrightarrow>
     (case rr_payload h of None \<Rightarrow> False | Some r \<Rightarrow> list_all fld_ok (rr_fields h 0) \<and> rec_ok r \<and> rec_typed (rr_type h) r)"

definition rr_size :: "dns_rr \<Rightarrow> nat" where
  "rr_size h = (\<Sum>f \<leftarrow> rr_fields h 0. fld_size f) + (case rr_payload h of None \<Rightarrow> 0 | Some r \<Rightarrow> \<Sum>f \<leftarrow> rec_fields r. fld_size f)"

lemma rr_encoded:
  assumes "rr_ok h" "rr_encode h e = Ok e'" "do_ready d e e'"
  shows "\<exists>r m. rr_payload h = Some r \<and> fld_all_placed d (rr_fields h (do_pos e' - m)) (do_pos e) m \<and>
    fld_all_placed d (rec_fields r) m (do_pos e') \<and> do_sane d e'"
proof -
  from assms(1) obtain r where r: "rr_payload h = Some r" "list_all fld_ok (rr_fields h 0)" "rec_ok r"
    by (auto simp: rr_ok_def split: option.splits)
  from rr_encode_fields [OF assms(2) r(1)] obtain e1 where
    e1: "fld_encode_all (rr_fields h (do_pos e' - do_pos e1)) e = Ok e1" "rec_encode r e1 = Ok e'" by blast
  have "do_keeps e1 e'" using e1(2) by (simp add: rec_encode_def do_keeps_fields)
  with assms(3) have ready: "do_ready d e e1" by (auto simp: do_ready_def intro: do_keeps_within)
  have "do_pos e' \<le> 16384" using assms(3) by (auto simp: do_ready_def dest: do_within_le)
  then have "list_all fld_ok (rr_fields h (do_pos e' - do_pos e1))" using r(2) by (simp add: rr_fields_def)
  note h = fields_ready [OF e1(1) this ready]
  from h(2) assms(3) have "do_ready d e1 e'" by (simp add: do_ready_def)
  from fields_ready [OF e1(2) [unfolded rec_encode_def] _ this] r(3) have "fld_all_placed d (rec_fields r) (do_pos e1) (do_pos e')" "do_sane d e'"
    by (simp_all add: rec_ok_def)
  with r(1) h(1) show ?thesis by blast
qed

definition rr_from :: "nat \<Rightarrow> dns_rr \<Rightarrow> dns_rr" where
  "rr_from auth h = h\<lparr>rr_auth := auth\<rparr>"

lemma rr_reads:
  assumes "rr_ok h" "rr_encode h e = Ok e'" "do_ready d e e'" "do_pos e \<le> k" "k \<le> length d"
  shows "rr_decode auth (take k d) (do_pos e) = (if do_pos e' \<le> k then Got (rr_from auth h) (do_pos e') else Failed EOFError k)"
proof -
  from rr_encoded [OF assms(1-3)] obtain r m where r: "rr_payload h = Some r"
    and placed: "fld_all_placed d (rr_fields h (do_pos e' - m)) (do_pos e) m" "fld_all_placed d (rec_fields r) m (do_pos e')" by blast
  from assms(1) r have form: "rec_form r" "rec_typed (rr_type h) r" by (simp_all add: rr_ok_def rec_ok_def)
  have le: "m \<le> do_pos e'" by (rule fld_all_placed_le [OF placed(2)])
  have within: "do_pos e' \<le> length d" using assms(3) by (auto simp: do_ready_def dest: do_within_le)
  with fld_all_placed_cut [OF order_refl placed(2)] le have whole: "fld_all_at d (rec_fields r) m (do_pos e')" by simp
  show ?thesis
  proof (cases "m \<le> k")
    case True
    with fld_all_placed_cut [OF assms(5) placed(1) assms(4)] have "fld_all_at (take k d) (rr_fields h (do_pos e' - m)) (do_pos e) m" by simp
    then have "rr_decode auth (take k d) (do_pos e) = rd_bind (rec_decode (rr_type h) (do_pos e' - m) (take k d) m) (\<lambda>payload.
        Got \<lparr> rr_name = rr_name h, rr_type = rr_type h, rr_cls = rr_cls h, rr_ttl = rr_ttl h, rr_payload = Some payload, rr_auth = auth \<rparr>)"
      by (auto simp: rr_decode_def rr_fields_def)
    moreover have "rec_decode (rr_type h) (do_pos e' - m) (take k d) m = (if do_pos e' \<le> k then Got r (do_pos e') else Failed EOFError k)"
      using fld_all_placed_cut [OF assms(5) placed(2) True] rec_decodes [OF _ form] rec_fails [OF _ whole form] by (auto split: if_splits)
    ultimately show ?thesis using r by (cases h) (simp add: rr_from_def)
  next
    case False
    with fld_all_placed_cut [OF assms(5) placed(1) assms(4)] have "fld_all_fails (take k d) (rr_fields h (do_pos e' - m)) (do_pos e) k" by simp
    then have "rr_decode auth (take k d) (do_pos e) = Failed EOFError k" by (auto simp: rr_decode_def rr_fields_def)
    with False le show ?thesis by simp
  qed
qed

lemma rr_total:
  assumes "rr_ok h" "do_below e" "do_pos e + rr_size h \<le> 16384"
  shows "\<exists>e'. rr_encode h e = Ok e' \<and> do_pos e' \<le> do_pos e + rr_size h \<and> do_below e'"
proof -
  from assms(1) obtain r where r: "rr_payload h = Some r" "list_all fld_ok (rr_fields h 0)" "list_all fld_ok (rec_fields r)"
    by (auto simp: rr_ok_def rec_ok_def split: option.splits)
  let ?n = "\<Sum>f \<leftarrow> rr_fields h 0. fld_size f" and ?m = "\<Sum>f \<leftarrow> rec_fields r. fld_size f"
  from assms(3) r(1) have size: "do_pos e + ?n + ?m \<le> 16384" by (simp add: rr_size_def)
  from fld_encode_all_total [OF r(2) assms(2)] size obtain e0 where
    e0: "fld_encode_all (rr_fields h 0) e = Ok e0" "do_pos e0 \<le> do_pos e + ?n" "do_below e0" by auto
  from fld_encode_all_total [OF r(3) e0(3)] size e0(2) obtain e2 where
    e2: "fld_encode_all (rec_fields r) e0 = Ok e2" "do_pos e2 \<le> do_pos e0 + ?m" "do_below e2" by auto
  have keeps: "length (do_written e0) \<le> length (do_written e2)" using do_keeps_le [OF do_keeps_fields [OF e2(1)]] by (simp add: do_pos_def)
  have two: "2 \<le> length (do_written e0)"
    using e0(1) by (auto simp: rr_fields_def and_then_Ok_iff do_pack_def split: if_splits)
  have "length (do_written e2) - length (do_written e0) < 65536" using e2(2) e0(2) size by (simp add: do_pos_def)
  with e0(1) e2(1) r(1) have "rr_encode h e = Ok (do_patch (length (do_written e0) - 2) (be_bytes 2 (length (do_written e2) - length (do_written e0))) e2)"
    by (simp add: rr_encode_def rr_fields_def rec_encode_def Let_def del: fld_encode_all.simps(2))
  moreover have "do_pos (do_patch (length (do_written e0) - 2) (be_bytes 2 l) e2) = do_pos e2" for l
    using keeps two by (simp add: do_patch_def do_pos_def)
  moreover have "do_compDict (do_patch p b e2) = do_compDict e2" for p b by (simp add: do_patch_def)
  ultimately show ?thesis using e2(2,3) e0(2) r(1) by (simp add: do_below_def rr_size_def)
qed

lemma rr_keeps:
  assumes "rr_ok h" "rr_encode h e = Ok e'"
  shows "do_keeps e e'"
proof -
  from assms(1) obtain r where "rr_payload h = Some r" by (auto simp: rr_ok_def split: option.splits)
  from rr_encode_fields [OF assms(2) this] show ?thesis by (auto simp: rec_encode_def intro: do_keeps_trans dest!: do_keeps_fields)
qed

interpretation answer: dns_item rr_encode "rr_decode auth" rr_ok rr_size "rr_from auth" for auth
proof unfold_locales
  show "rr_decode auth d (length d) = Failed EOFError (length d)" for d
    by (simp add: rr_decode_def nm_decode_end)
  show "do_sane d e'" if "rr_ok h" "rr_encode h e = Ok e'" "do_ready d e e'" for h e e' d
    using rr_encoded [OF that] by blast
qed (rule rr_total rr_keeps rr_reads; assumption)+

section \<open>The header\<close>

lemma low_bits: "(n :: nat) < 2 ^ k \<Longrightarrow> take_bit k n = n"
  by (simp add: take_bit_nat_eq_self)

lemma and_masks: "(n :: nat) AND 1 = take_bit 1 n" "(n :: nat) AND 15 = take_bit 4 n"
  by (simp_all add: take_bit_eq_mask mask_eq_exp_minus_1)

lemmas byte_bits = bit_or_iff bit_push_bit_iff_nat bit_take_bit_iff bit_drop_bit_eq comp_def

lemma ms_byte3_bits:
  "drop_bit 7 (ms_byte3 m) AND 1 = ms_answer m AND 1" "drop_bit 3 (ms_byte3 m) AND 15 = ms_opCode m AND 15"
  "drop_bit 2 (ms_byte3 m) AND 1 = ms_auth m AND 1" "drop_bit 1 (ms_byte3 m) AND 1 = ms_trunc m AND 1"
  "ms_byte3 m AND 1 = ms_recDes m AND 1"
  unfolding ms_byte3_def and_masks by (rule bit_eqI; simp only: byte_bits; auto)+

lemma ms_byte4_bits:
  "drop_bit 7 (ms_byte4 m) AND 1 = ms_recAv m AND 1" "drop_bit 5 (ms_byte4 m) AND 1 = ms_authenticData m AND 1"
  "drop_bit 4 (ms_byte4 m) AND 1 = ms_checkingDisabled m AND 1" "ms_byte4 m AND 15 = ms_rCode m AND 15"
  unfolding ms_byte4_def and_masks by (rule bit_eqI; simp only: byte_bits; auto)+

lemma ms_bytes_bound: "ms_byte3 m < 256" "ms_byte4 m < 256"
proof -
  have "take_bit 8 (ms_byte3 m) = ms_byte3 m" "take_bit 8 (ms_byte4 m) = ms_byte4 m"
    unfolding ms_byte3_def ms_byte4_def and_masks by (rule bit_eqI; simp only: byte_bits; auto)+
  then show "ms_byte3 m < 256" "ms_byte4 m < 256"
    using take_bit_nat_less_exp [of 8 "ms_byte3 m"] take_bit_nat_less_exp [of 8 "ms_byte4 m"] by simp_all
qed

definition ms_flags_ok :: "dns_message \<Rightarrow> bool" where
  "ms_flags_ok m \<longleftrightarrow> ms_id m < 65536 \<and> ms_answer m < 2 \<and> ms_opCode m < 16 \<and> ms_auth m < 2 \<and> ms_trunc m < 2 \<and> ms_recDes m < 2 \<and>
     ms_recAv m < 2 \<and> ms_authenticData m < 2 \<and> ms_checkingDisabled m < 2 \<and> ms_rCode m < 16"

lemma ms_fields_bytes:
  assumes "ms_flags_ok m"
  shows "ms_fields (ms_id m) (ms_byte3 m) (ms_byte4 m) (ms_new\<lparr>ms_maxSize := 0\<rparr>) =
    m\<lparr>ms_maxSize := 0, ms_queries := [], ms_answers := [], ms_authority := [], ms_additional := []\<rparr>"
proof -
  have "n AND 1 = n" if "n < 2" for n :: nat using that low_bits [of n 1] and_masks(1) [of n] by simp
  moreover have "n AND 15 = n" if "n < 16" for n :: nat using that low_bits [of n 4] and_masks(2) [of n] by simp
  ultimately show ?thesis
    using assms ms_byte3_bits [of m] ms_byte4_bits [of m] by (simp add: ms_fields_def ms_new_def ms_flags_ok_def)
qed

lemma rd_num_at: "n < 256 ^ k \<Longrightarrow> d = x @ be_bytes k n @ y \<Longrightarrow> p = length x \<Longrightarrow> rd_num k d p = Got n (p + k)"
  using readPrecisely_at [of d x "be_bytes k n" y p "int k"] by (simp add: rd_num_def be_nat_be_bytes)

definition ms_header_bytes :: "dns_message \<Rightarrow> bytes" where
  "ms_header_bytes m = be_bytes 2 (ms_id m) @ be_bytes 1 (ms_byte3 m) @ be_bytes 1 (ms_byte4 m) @ be_bytes 2 (length (ms_queries m)) @
     be_bytes 2 (length (ms_answers m)) @ be_bytes 2 (length (ms_authority m)) @ be_bytes 2 (length (ms_additional m))"

lemma length_ms_header [simp]: "length (ms_header_bytes m) = headerSize"
  by (simp add: ms_header_bytes_def headerSize_def)

definition ms_counts_ok :: "dns_message \<Rightarrow> bool" where
  "ms_counts_ok m \<longleftrightarrow> length (ms_queries m) < 65536 \<and> length (ms_answers m) < 65536 \<and> length (ms_authority m) < 65536 \<and>
     length (ms_additional m) < 65536"

lemma ms_header_Ok:
  "ms_flags_ok m \<Longrightarrow> ms_counts_ok m \<Longrightarrow> ms_header m = Ok (do_write (ms_header_bytes m) do_empty)"
  using ms_bytes_bound [of m]
  by (simp add: ms_header_def ms_header_bytes_def do_pack_def ms_flags_ok_def ms_counts_ok_def do_write_def)

lemma ms_header_read:
  assumes "ms_flags_ok m" "ms_counts_ok m" "d = ms_header_bytes m @ rest"
  shows "ms_decode ms_new d =
    (let m0 = m\<lparr>ms_maxSize := 0, ms_queries := [], ms_answers := [], ms_authority := [], ms_additional := []\<rparr>
     in case rd_loop (qr_decode d) (length (ms_queries m)) headerSize [] of
          EndOfFile qs p \<Rightarrow> Ok (m0\<lparr>ms_queries := qs\<rparr>)
        | Bad e qs \<Rightarrow> Exc e (m0\<lparr>ms_queries := qs\<rparr>)
        | Items qs p \<Rightarrow> ms_records d (length (ms_answers m)) (length (ms_authority m)) (length (ms_additional m)) (m0\<lparr>ms_queries := qs\<rparr>) p)"
proof -
  let ?i = "be_bytes 2 (ms_id m)" and ?a = "be_bytes 1 (ms_byte3 m)" and ?b = "be_bytes 1 (ms_byte4 m)"
    and ?q = "be_bytes 2 (length (ms_queries m))" and ?n = "be_bytes 2 (length (ms_answers m))"
    and ?u = "be_bytes 2 (length (ms_authority m))" and ?v = "be_bytes 2 (length (ms_additional m))"
  have b: "ms_byte3 m < 256 ^ 1" "ms_byte4 m < 256 ^ 1" using ms_bytes_bound [of m] by simp_all
  have c: "ms_id m < 256 ^ 2" "length (ms_queries m) < 256 ^ 2" "length (ms_answers m) < 256 ^ 2" "length (ms_authority m) < 256 ^ 2"
    "length (ms_additional m) < 256 ^ 2" using assms(1,2) by (simp_all add: ms_flags_ok_def ms_counts_ok_def)
  have "rd_num 2 d 0 = Got (ms_id m) 2" 
    using rd_num_at [OF c(1), of d "[]" _ 0] by (simp add: assms(3) ms_header_bytes_def)
  moreover have "rd_num 1 d 2 = Got (ms_byte3 m) 3"
    using rd_num_at [OF b(1), of d ?i _ 2] by (simp add: assms(3) ms_header_bytes_def)
  moreover have "rd_num 1 d 3 = Got (ms_byte4 m) 4"
    using rd_num_at [OF b(2), of d "?i @ ?a" _ 3] by (simp add: assms(3) ms_header_bytes_def)
  moreover have "rd_num 2 d 4 = Got (length (ms_queries m)) 6"
    using rd_num_at [OF c(2), of d "?i @ ?a @ ?b" _ 4] by (simp add: assms(3) ms_header_bytes_def)
  moreover have "rd_num 2 d 6 = Got (length (ms_answers m)) 8"
    using rd_num_at [OF c(3), of d "?i @ ?a @ ?b @ ?q" _ 6] by (simp add: assms(3) ms_header_bytes_def)
  moreover have "rd_num 2 d 8 = Got (length (ms_authority m)) 10"
    using rd_num_at [OF c(4), of d "?i @ ?a @ ?b @ ?q @ ?n" _ 8] by (simp add: assms(3) ms_header_bytes_def)
  moreover have "rd_num 2 d 10 = Got (length (ms_additional m)) 12"
    using rd_num_at [OF c(5), of d "?i @ ?a @ ?b @ ?q @ ?n @ ?u" rest 10] by (simp add: assms(3) ms_header_bytes_def)
  ultimately show ?thesis
    by (simp add: ms_decode_def Let_def ms_fields_bytes [OF assms(1)] headerSize_def split: rd_items.split)
qed

section \<open>Messages that were encoded are decoded\<close>

text \<open>
  Messages that can be encoded.  \<open>ms_size\<close> is what a message takes when no name is compressed; references
  reach the first 16384 bytes only.
\<close>

definition ms_ok :: "dns_message \<Rightarrow> bool" where
  "ms_ok m \<longleftrightarrow> ms_flags_ok m \<and> list_all qr_ok (ms_queries m) \<and> list_all rr_ok (ms_answers m) \<and>
     list_all rr_ok (ms_authority m) \<and> list_all rr_ok (ms_additional m)"

definition ms_size :: "dns_message \<Rightarrow> nat" where
  "ms_size m = headerSize + (\<Sum>q \<leftarrow> ms_queries m. qr_size q) + (\<Sum>h \<leftarrow> ms_answers m. rr_size h) +
     (\<Sum>h \<leftarrow> ms_authority m. rr_size h) + (\<Sum>h \<leftarrow> ms_additional m. rr_size h)"

definition ms_count :: "dns_message \<Rightarrow> nat" where
  "ms_count m = length (ms_queries m) + length (ms_answers m) + length (ms_authority m) + length (ms_additional m)"

text \<open>Where the items of the encoded message end, and where it ends itself.\<close>

definition ms_ends :: "dns_message \<Rightarrow> nat list" where
  "ms_ends m =
     (let e1 = state_of (enc_all qr_encode (ms_queries m) do_empty);
          e2 = state_of (enc_all rr_encode (ms_answers m) e1);
          e3 = state_of (enc_all rr_encode (ms_authority m) e2)
      in enc_ends qr_encode (ms_queries m) do_empty @ enc_ends rr_encode (ms_answers m) e1 @
         enc_ends rr_encode (ms_authority m) e2 @ enc_ends rr_encode (ms_additional m) e3)"

definition ms_length :: "dns_message \<Rightarrow> nat" where
  "ms_length m = last (headerSize # ms_ends m)"

text \<open>The message with its first \<open>j\<close> items, as it arrives.\<close>

definition ms_got :: "nat \<Rightarrow> dns_message \<Rightarrow> dns_message" where
  "ms_got j m =
     (let a = ms_auth m; i = length (ms_queries m); k = i + length (ms_answers m); l = k + length (ms_authority m)
      in m\<lparr>ms_maxSize := 0, ms_queries := take j (ms_queries m),
           ms_answers := map (rr_from a) (take (j - i) (ms_answers m)),
           ms_authority := map (rr_from a) (take (j - k) (ms_authority m)),
           ms_additional := map (rr_from a) (take (j - l) (ms_additional m))\<rparr>)"

lemma sum_list_length: "\<forall>x \<in> set xs. 0 < f x \<Longrightarrow> length xs \<le> (\<Sum>x \<leftarrow> xs. f x :: nat)"
  by (induction xs) (auto simp: Suc_le_eq)

lemma item_sizes: "length qs \<le> (\<Sum>q \<leftarrow> qs. qr_size q)" "length rrs \<le> (\<Sum>h \<leftarrow> rrs. rr_size h)"
  by (rule sum_list_length; simp add: qr_size_def qr_fields_def rr_size_def rr_fields_def)+

lemma ms_counts: "ms_size m \<le> 16384 \<Longrightarrow> ms_counts_ok m"
  using item_sizes(1) [of "ms_queries m"] item_sizes(2) [of "ms_answers m"] item_sizes(2) [of "ms_authority m"] item_sizes(2) [of "ms_additional m"]
  by (simp add: ms_counts_ok_def ms_size_def)

lemma ms_body_Ok:
  assumes "ms_ok m" "ms_size m \<le> 16384"
  obtains e1 e2 e3 e4 where "ms_body m = Ok e4" "do_pos e4 \<le> ms_size m" "enc_all qr_encode (ms_queries m) do_empty = Ok e1"
    "enc_all rr_encode (ms_answers m) e1 = Ok e2" "enc_all rr_encode (ms_authority m) e2 = Ok e3" "enc_all rr_encode (ms_additional m) e3 = Ok e4"
proof -
  from assms(1) have ok: "list_all qr_ok (ms_queries m)" "list_all rr_ok (ms_answers m)" "list_all rr_ok (ms_authority m)"
    "list_all rr_ok (ms_additional m)" by (simp_all add: ms_ok_def)
  have z: "do_below do_empty" "do_pos do_empty = headerSize" by (simp_all add: do_below_def do_empty_def do_pos_def)
  from query.all_total [OF ok(1) z(1)] assms(2) z(2) obtain e1 where
    e1: "enc_all qr_encode (ms_queries m) do_empty = Ok e1" "do_pos e1 \<le> headerSize + (\<Sum>q \<leftarrow> ms_queries m. qr_size q)" "do_below e1"
    by (auto simp: ms_size_def)
  from answer.all_total [OF ok(2) e1(3)] assms(2) e1(2) obtain e2 where
    e2: "enc_all rr_encode (ms_answers m) e1 = Ok e2" "do_pos e2 \<le> do_pos e1 + (\<Sum>h \<leftarrow> ms_answers m. rr_size h)" "do_below e2"
    by (auto simp: ms_size_def)
  from answer.all_total [OF ok(3) e2(3)] assms(2) e1(2) e2(2) obtain e3 where
    e3: "enc_all rr_encode (ms_authority m) e2 = Ok e3" "do_pos e3 \<le> do_pos e2 + (\<Sum>h \<leftarrow> ms_authority m. rr_size h)" "do_below e3"
    by (auto simp: ms_size_def)
  from answer.all_total [OF ok(4) e3(3)] assms(2) e1(2) e2(2) e3(2) obtain e4 where
    e4: "enc_all rr_encode (ms_additional m) e3 = Ok e4" "do_pos e4 \<le> do_pos e3 + (\<Sum>h \<leftarrow> ms_additional m. rr_size h)" "do_below e4"
    by (auto simp: ms_size_def)
  show thesis
    by (rule that [OF _ _ e1(1) e2(1) e3(1) e4(1)]) (use e1 e2 e3 e4 in \<open>simp_all add: ms_body_def ms_size_def\<close>)
qed

lemma ms_section_read:
  "rd_loop (rr_decode a d) n p rrs \<in> {Items xs q, EndOfFile xs q} \<Longrightarrow> ms_section d a n store rrs p f = f (store xs) q"
  by (auto simp: ms_section_def)

lemma ms_whole_read:
  assumes ok: "ms_ok m" and body: "enc_all qr_encode (ms_queries m) do_empty = Ok e1"
    "enc_all rr_encode (ms_answers m) e1 = Ok e2" "enc_all rr_encode (ms_authority m) e2 = Ok e3" "enc_all rr_encode (ms_additional m) e3 = Ok e4"
    and size: "do_pos e4 \<le> 16384" and counts: "ms_counts_ok m"
    and d: "d = ms_header_bytes m @ do_written e4" and k: "headerSize \<le> k" "k \<le> length d"
  shows "ms_decode ms_new (take k d) = Ok (ms_got (fit_within k (ms_ends m)) m) \<and>
    (if k = length d then fit_within k (ms_ends m) = ms_count m else fit_within k (ms_ends m) < ms_count m)"
proof -
  from ok have oks: "list_all qr_ok (ms_queries m)" "list_all rr_ok (ms_answers m)" "list_all rr_ok (ms_authority m)"
    "list_all rr_ok (ms_additional m)" and flags: "ms_flags_ok m" by (simp_all add: ms_ok_def)
  have pos0: "do_pos do_empty = headerSize" by (simp add: do_empty_def do_pos_def)
  have len: "length d = do_pos e4" by (simp add: d do_pos_def)
  have w4: "do_within d e4" unfolding do_within_def d by (intro exI [of _ "ms_header_bytes m"] exI [of _ "[]"]) simp
  note keeps2 = answer.all_keeps [OF oks(2) body(2)] and keeps3 = answer.all_keeps [OF oks(3) body(3)]
    and keeps4 = answer.all_keeps [OF oks(4) body(4)]
  note w3 = do_keeps_within [OF keeps4 w4]
  note w2 = do_keeps_within [OF keeps3 w3]
  note w1 = do_keeps_within [OF keeps2 w2]
  have "do_sane d do_empty" by (simp add: do_sane_def do_empty_def)
  with w1 size len have r1: "do_ready d do_empty e1" by (simp add: do_ready_def)
  with query.all_sane [OF oks(1) body(1) this] w2 have r2: "do_ready d e1 e2" by (simp add: do_ready_def)
  with answer.all_sane [OF oks(2) body(2) this] w3 have r3: "do_ready d e2 e3" by (simp add: do_ready_def)
  with answer.all_sane [OF oks(3) body(3) this] w4 have r4: "do_ready d e3 e4" by (simp add: do_ready_def)
  note le2 = do_keeps_le [OF keeps2] and le3 = do_keeps_le [OF keeps3] and le4 = do_keeps_le [OF keeps4]
  let ?d = "take k d" and ?a = "ms_auth m"
  let ?j1 = "fit_within k (enc_ends qr_encode (ms_queries m) do_empty)" and ?j2 = "fit_within k (enc_ends rr_encode (ms_answers m) e1)"
    and ?j3 = "fit_within k (enc_ends rr_encode (ms_authority m) e2)" and ?j4 = "fit_within k (enc_ends rr_encode (ms_additional m) e3)"
  have fit: "fit_within k (ms_ends m) = ?j1 + ?j2 + ?j3 + ?j4"
    using body by (simp add: ms_ends_def Let_def fit_within_def)
  let ?m0 = "m\<lparr>ms_maxSize := 0, ms_queries := [], ms_answers := [], ms_authority := [], ms_additional := []\<rparr>"
  have "?d = ms_header_bytes m @ take (k - headerSize) (do_written e4)" using k(1) by (simp add: d)
  note dec = ms_header_read [OF flags counts this]
  note queries = query.all_read [OF oks(1) body(1) r1 _ k(2), unfolded pos0, OF k(1), of "[]"]
  show ?thesis
  proof (cases "do_pos e1 \<le> k")
    case True
    with queries have q: "rd_loop (qr_decode ?d) (length (ms_queries m)) headerSize [] = Items (ms_queries m) (do_pos e1)" by simp
    from True have p1: "do_pos e1 = min k (do_pos e1)" by simp
    note s2 = answer.section_read [OF oks(2) body(2) r2 k(2)]
      and s3 = answer.section_read [OF oks(3) body(3) r3 k(2)] and s4 = answer.section_read [OF oks(4) body(4) r4 k(2)]
    have j1: "?j1 = length (ms_queries m)" by (rule query.fit_all [OF oks(1) body(1) True])
    note l2 = s2(2-4) and l3 = s3(2-4) and l4 = s4(2-4)
    let ?got = "?m0\<lparr>ms_queries := ms_queries m, ms_answers := map (rr_from ?a) (take ?j2 (ms_answers m)),
      ms_authority := map (rr_from ?a) (take ?j3 (ms_authority m)), ms_additional := map (rr_from ?a) (take ?j4 (ms_additional m))\<rparr>"
    have "ms_records ?d (length (ms_answers m)) (length (ms_authority m)) (length (ms_additional m)) (?m0\<lparr>ms_queries := ms_queries m\<rparr>)
        (min k (do_pos e1)) = Ok ?got"
      using s2(1) [of ?a "[]"] s3(1) [of ?a "[]"] s4(1) [of ?a "[]"] by (simp add: ms_records_def ms_section_read)
    with dec q p1 have "ms_decode ms_new ?d = Ok ?got" by (simp add: Let_def)
    moreover define j where "j = length (ms_queries m) + ?j2 + ?j3 + ?j4"
    moreover have "ms_got j m = ?got"
    proof -
      have "k < do_pos e2 \<Longrightarrow> ?j3 = 0 \<and> ?j4 = 0" "k < do_pos e3 \<Longrightarrow> ?j4 = 0" using l3(3) l4(3) le3 le4 by (auto split: if_splits)
      then have "take (j - length (ms_queries m)) (ms_answers m) = take ?j2 (ms_answers m)"
        "take (j - (length (ms_queries m) + length (ms_answers m))) (ms_authority m) = take ?j3 (ms_authority m)"
        "take (j - (length (ms_queries m) + length (ms_answers m) + length (ms_authority m))) (ms_additional m) = take ?j4 (ms_additional m)"
        using l2 l3 l4 by (auto simp: j_def not_le intro: ccontr)
      moreover have "take j (ms_queries m) = ms_queries m" by (simp add: j_def)
      ultimately show ?thesis by (simp add: ms_got_def Let_def)
    qed
    moreover have "if k = length d then j = ms_count m else j < ms_count m"
      using l2 l3 l4 True le2 le3 le4 k(2) len by (auto simp: j_def ms_count_def split: if_splits)
    moreover have "fit_within k (ms_ends m) = j" by (simp only: fit j1 j_def)
    ultimately show ?thesis by (simp only: simp_thms)
  next
    case False
    then have zero: "?j2 = 0" "?j3 = 0" "?j4 = 0"
      using answer.fit_none [OF oks(2) body(2)] answer.fit_none [OF oks(3) body(3)] answer.fit_none [OF oks(4) body(4)] le2 le3 by simp_all
    from queries False have j: "?j1 < length (ms_queries m)"
      "rd_loop (qr_decode ?d) (length (ms_queries m)) headerSize [] = EndOfFile (take ?j1 (ms_queries m)) k" by auto
    with dec have "ms_decode ms_new ?d = Ok (ms_got ?j1 m)" by (simp add: ms_got_def Let_def)
    moreover have "k \<noteq> length d" "?j1 < ms_count m" using False j(1) le2 le3 le4 len by (simp_all add: ms_count_def)
    ultimately show ?thesis by (simp add: fit zero)
  qed
qed

lemma ms_length_body:
  assumes "ms_ok m" "enc_all qr_encode (ms_queries m) do_empty = Ok e1" "enc_all rr_encode (ms_answers m) e1 = Ok e2"
    "enc_all rr_encode (ms_authority m) e2 = Ok e3" "enc_all rr_encode (ms_additional m) e3 = Ok e4"
  shows "ms_length m = do_pos e4"
proof -
  have "last (h # xs @ ys) = last (last (h # xs) # ys)" for h :: nat and xs ys by simp
  moreover have "do_pos do_empty = headerSize" by (simp add: do_empty_def do_pos_def)
  ultimately show ?thesis
    using query.ends_last [OF _ assms(2)] answer.ends_last [OF _ assms(3)] answer.ends_last [OF _ assms(4)] answer.ends_last [OF _ assms(5)] assms
    by (simp only: ms_length_def ms_ends_def ms_ok_def Let_def state_of.simps)
qed

lemma ms_toStr_cut:
  assumes "ms_ok m" "ms_size m \<le> 16384" "ms_body m = Ok e"
  shows "ms_toStr m =
    (if ms_maxSize m \<noteq> 0 \<and> do_pos e > ms_maxSize m
     then Inr (ms_header_bytes (m\<lparr>ms_trunc := 1\<rparr>) @
       take (if ms_maxSize m \<ge> headerSize then ms_maxSize m - headerSize else length (do_written e) - (headerSize - ms_maxSize m)) (do_written e),
       m\<lparr>ms_trunc := 1\<rparr>)
     else Inr (ms_header_bytes m @ do_written e, m))"
proof -
  note counts = ms_counts [OF assms(2)]
  have flags: "ms_flags_ok m" "ms_flags_ok (m\<lparr>ms_trunc := 1\<rparr>)" "ms_counts_ok (m\<lparr>ms_trunc := 1\<rparr>)"
    using assms(1) counts by (simp_all add: ms_ok_def ms_flags_ok_def ms_counts_ok_def)
  have "do_written (do_write b do_empty) = b" for b by (simp add: do_empty_def)
  then show ?thesis
    by (simp add: ms_toStr_def assms(3) Let_def do_pos_def add.commute ms_header_Ok [OF flags(1) counts] ms_header_Ok [OF flags(2,3), unfolded One_nat_def])
qed

lemma dns_message_decodes_exactly:
  assumes "ms_ok m" "ms_size m \<le> 16384"
  shows "\<exists>str m'. ms_toStr m = Inr (str, m') \<and> ms_fromStr str ms_new = Ok (ms_got (fit_within (length str) (ms_ends m)) m') \<and>
    ms_length m \<le> ms_size m \<and>
    (if ms_maxSize m = 0 \<or> ms_length m \<le> ms_maxSize m
     then m' = m \<and> length str = ms_length m \<and> fit_within (length str) (ms_ends m) = ms_count m
     else m' = m\<lparr>ms_trunc := 1\<rparr> \<and>
       (headerSize \<le> ms_maxSize m \<longrightarrow> length str = ms_maxSize m \<and> fit_within (length str) (ms_ends m) < ms_count m))"
proof -
  obtain e1 e2 e3 e where body: "ms_body m = Ok e" and size: "do_pos e \<le> ms_size m" and parts: "enc_all qr_encode (ms_queries m) do_empty = Ok e1"
    "enc_all rr_encode (ms_answers m) e1 = Ok e2" "enc_all rr_encode (ms_authority m) e2 = Ok e3" "enc_all rr_encode (ms_additional m) e3 = Ok e"
    by (rule ms_body_Ok [OF assms])
  note toStr = ms_toStr_cut [OF assms body] and counts = ms_counts [OF assms(2)] and len = ms_length_body [OF assms(1) parts]
  have pos: "do_pos e \<le> 16384" using size assms(2) by simp
  show ?thesis
  proof (cases "ms_maxSize m \<noteq> 0 \<and> do_pos e > ms_maxSize m")
    case True
    define n where "n = (if ms_maxSize m \<ge> headerSize then ms_maxSize m - headerSize else length (do_written e) - (headerSize - ms_maxSize m))"
    let ?m = "m\<lparr>ms_trunc := 1\<rparr>"
    let ?d = "ms_header_bytes ?m @ do_written e"
    have n: "n \<le> length (do_written e)" using True by (auto simp: n_def do_pos_def)
    have whole: "ms_ok ?m" "ms_counts_ok ?m" using assms(1) counts by (simp_all add: ms_ok_def ms_flags_ok_def ms_counts_ok_def)
    have same: "ms_ends (m\<lparr>ms_trunc := x\<rparr>) = ms_ends m" "ms_count (m\<lparr>ms_trunc := x\<rparr>) = ms_count m" for x
      by (simp_all add: ms_ends_def ms_count_def)
    from ms_whole_read [of ?m e1 e2 e3 e ?d "headerSize + n"] whole parts pos n
    have j: "ms_decode ms_new (take (headerSize + n) ?d) = Ok (ms_got (fit_within (headerSize + n) (ms_ends m)) ?m)"
      "if headerSize + n = length ?d then fit_within (headerSize + n) (ms_ends m) = ms_count m else fit_within (headerSize + n) (ms_ends m) < ms_count m"
      by (auto simp: same)
    have str: "take (headerSize + n) ?d = ms_header_bytes ?m @ take n (do_written e)" "length (take (headerSize + n) ?d) = headerSize + n"
      using n by simp_all
    from True toStr have "ms_toStr m = Inr (take (headerSize + n) ?d, ?m)" unfolding str(1) by (simp add: n_def)
    moreover have "headerSize \<le> ms_maxSize m \<longrightarrow> headerSize + n = ms_maxSize m \<and> fit_within (headerSize + n) (ms_ends m) < ms_count m"
      using True j(2) by (auto simp: n_def do_pos_def split: if_splits)
    moreover have "\<not> (ms_maxSize m = 0 \<or> ms_length m \<le> ms_maxSize m)" "ms_length m \<le> ms_size m" using True size len by auto
    moreover define out where "out = take (headerSize + n) ?d"
    then have "length out = headerSize + n" "ms_fromStr out ms_new = Ok (ms_got (fit_within (headerSize + n) (ms_ends m)) ?m)"
      using j(1) str(2) by (simp_all add: ms_fromStr_def)
    ultimately show ?thesis by (intro exI [of _ out] exI [of _ ?m]) (simp only: out_def [symmetric] if_False simp_thms)
  next
    case False
    let ?d = "ms_header_bytes m @ do_written e"
    have d: "length ?d = do_pos e" by (simp add: do_pos_def)
    from ms_whole_read [OF assms(1) parts pos counts refl, of "length ?d"]
    have "ms_decode ms_new ?d = Ok (ms_got (fit_within (length ?d) (ms_ends m)) m)" "fit_within (length ?d) (ms_ends m) = ms_count m" by simp_all
    moreover have "ms_toStr m = Inr (?d, m)" "ms_maxSize m = 0 \<or> ms_length m \<le> ms_maxSize m" "ms_length m \<le> ms_size m"
      using False toStr size len by auto
    ultimately show ?thesis using d len unfolding ms_fromStr_def by (intro exI [of _ ?d] exI [of _ m]) (simp only: if_True simp_thms)
  qed
qed

lemma dns_message_decodes:
  assumes "ms_ok m" "ms_size m \<le> 16384"
  shows "\<exists>str m' j. ms_toStr m = Inr (str, m') \<and> ms_fromStr str ms_new = Ok (ms_got j m') \<and>
    (m' = m \<and> j = ms_count m \<or> m' = m\<lparr>ms_trunc := 1\<rparr>)"
  using dns_message_decodes_exactly [OF assms] by (metis (no_types))

text \<open>
  C23: a message is encoded whenever its parts are well formed and it fits into 16384 bytes without compression,
  and decoding the result gives the message back: identifier, flags and codes, queries, and the records of the
  three sections, whatever names were replaced by references to earlier ones.  The message is encoded as a whole
  exactly when the transport has no limit or the encoding, with its compressed names, keeps it.  Otherwise it is
  marked as truncated and the encoding has just the size of the limit (for a limit that leaves room for the
  header).  In each case the receiver gets, without an error, the items that end within the bytes sent, no
  fewer and no more: all of a whole message, not all of a cut one.
\<close>

theorem dns_message_roundtrip:
  assumes "ms_ok m" "ms_size m \<le> 16384"
  shows "\<exists>str m'. ms_toStr m = Inr (str, m') \<and> ms_fromStr str ms_new = Ok (ms_got (fit_within (length str) (ms_ends m)) m') \<and>
    ms_length m \<le> ms_size m \<and>
    (if ms_maxSize m = 0 \<or> ms_length m \<le> ms_maxSize m
     then m' = m \<and> length str = ms_length m \<and> fit_within (length str) (ms_ends m) = ms_count m
     else m' = m\<lparr>ms_trunc := 1\<rparr> \<and>
       (headerSize \<le> ms_maxSize m \<longrightarrow> length str = ms_maxSize m \<and> fit_within (length str) (ms_ends m) < ms_count m))"
  using assms by (rule dns_message_decodes_exactly)

definition ms_example :: dns_message where
  "ms_example = ms_new\<lparr>ms_id := 7, ms_answer := 1, ms_maxSize := 50,
     ms_queries := [\<lparr> qr_name = ''a.bc'', qr_type = T_MX, qr_cls = 1 \<rparr>],
     ms_answers := [\<lparr> rr_name = ''a.bc'', rr_type = T_MX, rr_cls = 1, rr_ttl = 60, rr_payload = Some (Record_MX 10 ''d.a.bc''), rr_auth = 0 \<rparr>,
       \<lparr> rr_name = ''d.a.bc'', rr_type = T_A, rr_cls = 1, rr_ttl = 60, rr_payload = Some (Record_A ''wxyz''), rr_auth = 0 \<rparr>]\<rparr>"

lemma nm_ok_examples: "nm_ok ''a.bc''" "nm_ok ''d.a.bc''"
  using nm_ok_join [of "[''a'', ''bc'']"] nm_ok_join [of "[''d'', ''a'', ''bc'']"] by simp_all

lemma ms_example_ok: "ms_ok ms_example" "ms_size ms_example \<le> 16384"
  by (simp_all add: ms_example_def ms_new_def ms_ok_def ms_flags_ok_def qr_ok_def qr_fields_def rr_ok_def rr_fields_def rec_ok_def rec_typed_def
      nm_ok_examples ms_size_def qr_size_def rr_size_def headerSize_def)

lemma dns_message_roundtrip_witness:
  "\<exists>str. ms_toStr ms_example = Inr (str, ms_example\<lparr>ms_trunc := 1\<rparr>) \<and> length str = 50 \<and> ms_length ms_example = 56 \<and>
     ms_ends ms_example = [22, 40, 56] \<and> ms_fromStr str ms_new = Ok (ms_got 2 (ms_example\<lparr>ms_trunc := 1\<rparr>))"
proof -
  have ends: "ms_ends ms_example = [22, 40, 56]"
    by (simp add: ms_ends_def ms_example_def ms_new_def Let_def qr_encode_def rr_encode_def do_pos_def rec_encode_def
        nm_encode.simps nm_cut_def do_pack_def do_write_def do_empty_def do_patch_def headerSize_def)
  then have "ms_length ms_example = 56" "fit_within 50 (ms_ends ms_example) = 2" "ms_maxSize ms_example = 50" "headerSize \<le> 50"
    by (simp_all add: ms_length_def fit_within_def ms_example_def headerSize_def)
  with dns_message_roundtrip [OF ms_example_ok] ends show ?thesis by auto
qed

end
