(* ===== verification/DnsQueries.thy ===== *)
theory DnsQueries
  imports DnsMessages
begin

text \<open>
  The clients of \<open>twisted/names/dns.py\<close>: \<open>DNSMixin\<close>, which keeps the queries that wait for an answer, and
  the protocols that carry messages, \<open>DNSDatagramProtocol\<close> and \<open>DNSProtocol\<close>.
\<close>

section \<open>\<open>DNSMixin\<close>\<close>

text \<open>
  The query with number \<open>n\<close> has the \<open>Deferred\<close> and the \<open>DelayedCall\<close> with that number; \<open>mx_live\<close> gives the
  number for an identifier, \<open>mx_calls\<close> has the calls that are still to come, with their identifiers, and
  \<open>mx_fired\<close> the results that the \<open>Deferred\<close>s got, in order.  What a callback does in return, a query for
  instance, is a later event: nothing of a handler that matters for it comes after the callback.
\<close>

datatype dns_result = Answer dns_message | DNSQueryTimeoutError nat | WriteFailed

datatype dns_raise = Decoding dns_error | AlreadyCalled

record dns_mixin =
  mx_live :: "nat \<rightharpoonup> nat"
  mx_calls :: "(nat \<times> nat) list"
  mx_asked :: "dns_message list"
  mx_fired :: "(nat \<times> dns_result) list"

text \<open>\<open>pickID\<close> with the numbers that are drawn; \<open>None\<close> when it has drawn them all and goes on.\<close>

fun mx_pickID :: "'a dns_mixin_scheme \<Rightarrow> nat list \<Rightarrow> nat option" where
  "mx_pickID s [] = None"
| "mx_pickID s (i # draws) = (if mx_live s i = None then Some i else mx_pickID s draws)"

definition mx_query ::
    "dns_query list \<Rightarrow> nat \<Rightarrow> (dns_message \<Rightarrow> 'a dns_mixin_scheme \<Rightarrow> (unit, 'a dns_mixin_scheme) outcome) \<Rightarrow>
     'a dns_mixin_scheme \<Rightarrow> 'a dns_mixin_scheme" where
  "mx_query queries i writeMessage s =
     (let m = ms_new\<lparr>ms_id := i, ms_recDes := 1, ms_queries := queries\<rparr>;
          n = length (mx_asked s);
          s = s\<lparr>mx_asked := mx_asked s @ [m]\<rparr>
      in case writeMessage m s of
           Exc e s \<Rightarrow> s\<lparr>mx_fired := mx_fired s @ [(n, WriteFailed)]\<rparr>
         | Ok s \<Rightarrow> s\<lparr>mx_calls := mx_calls s @ [(n, i)], mx_live := (mx_live s)(i \<mapsto> n)\<rparr>)"

definition mx_has_fired :: "nat \<Rightarrow> 'a dns_mixin_scheme \<Rightarrow> bool" where
  "mx_has_fired n s \<longleftrightarrow> n \<in> fst ` set (mx_fired s)"

definition mx_clearFailed :: "nat \<Rightarrow> nat \<Rightarrow> 'a dns_mixin_scheme \<Rightarrow> (dns_raise, 'a dns_mixin_scheme) outcome" where
  "mx_clearFailed n i s =
     (let s = s\<lparr>mx_live := (mx_live s)(i := None)\<rparr>
      in if mx_has_fired n s then Exc AlreadyCalled s
         else Ok (s\<lparr>mx_fired := mx_fired s @ [(n, DNSQueryTimeoutError i)]\<rparr>))"

definition mx_forget :: "nat \<Rightarrow> 'a dns_mixin_scheme \<Rightarrow> 'a dns_mixin_scheme" where
  "mx_forget n s = s\<lparr>mx_calls := filter (\<lambda>c. fst c \<noteq> n) (mx_calls s)\<rparr>"

text \<open>The reactor makes the call of query \<open>n\<close>, when it is still to come.\<close>

definition mx_timeout :: "nat \<Rightarrow> 'a dns_mixin_scheme \<Rightarrow> (dns_raise, 'a dns_mixin_scheme) outcome" where
  "mx_timeout n s =
     (case map_of (mx_calls s) n of None \<Rightarrow> Ok s | Some i \<Rightarrow> mx_clearFailed n i (mx_forget n s))"

text \<open>What both protocols do with a message for a query that waits; an error of the callback is logged.\<close>

definition mx_answer :: "nat \<Rightarrow> dns_message \<Rightarrow> 'a dns_mixin_scheme \<Rightarrow> (dns_raise, 'a dns_mixin_scheme) outcome" where
  "mx_answer n m s =
     (let s = s\<lparr>mx_live := (mx_live s)(ms_id m := None)\<rparr>
      in if n \<notin> fst ` set (mx_calls s) then Exc AlreadyCalled s
         else let s = mx_forget n s
              in Ok (if mx_has_fired n s then s else s\<lparr>mx_fired := mx_fired s @ [(n, Answer m)]\<rparr>))"

section \<open>\<open>DNSDatagramProtocol\<close>\<close>

record dns_udp = dns_mixin +
  du_transport :: bool
  du_resends :: "nat set"
  du_sent :: "(bytes \<times> nat) list"
  du_received :: "(dns_message \<times> nat) list"
  du_logged :: "dns_error list"

definition du_init :: dns_udp where
  "du_init = \<lparr> mx_live = Map.empty, mx_calls = [], mx_asked = [], mx_fired = [], du_transport = False, du_resends = {},
     du_sent = [], du_received = [], du_logged = [] \<rparr>"

definition du_stopProtocol :: "dns_udp \<Rightarrow> dns_udp" where
  "du_stopProtocol s = s\<lparr>mx_live := Map.empty, du_resends := {}, du_transport := False\<rparr>"

definition du_startProtocol :: "dns_udp \<Rightarrow> dns_udp" where
  "du_startProtocol s = s\<lparr>mx_live := Map.empty, du_resends := {}\<rparr>"

text \<open>\<open>writes\<close> says that \<open>transport.write\<close> returns.\<close>

definition du_writeMessage :: "bool \<Rightarrow> nat \<Rightarrow> dns_message \<Rightarrow> dns_udp \<Rightarrow> (unit, dns_udp) outcome" where
  "du_writeMessage writes address m s =
     (case ms_toStr m of
        Inl err \<Rightarrow> Exc () s
      | Inr (str, m) \<Rightarrow> if writes then Ok (s\<lparr>du_sent := du_sent s @ [(str, address)]\<rparr>) else Exc () s)"

text \<open>\<open>startListening\<close>: \<open>listenUDP\<close> makes a transport and starts the protocol, or it raises and the query fails at once.\<close>

definition du_startListening :: "bool \<Rightarrow> dns_udp \<Rightarrow> dns_udp option" where
  "du_startListening listens s =
     (if du_transport s then Some s else if listens then Some (du_startProtocol (s\<lparr>du_transport := True\<rparr>)) else None)"

definition du_query :: "bool \<Rightarrow> bool \<Rightarrow> nat list \<Rightarrow> nat \<Rightarrow> dns_query list \<Rightarrow> nat option \<Rightarrow> dns_udp \<Rightarrow> dns_udp" where
  "du_query listens writes draws address queries i s =
     (case du_startListening listens s of
        None \<Rightarrow> s
      | Some s \<Rightarrow>
          (case i of
             None \<Rightarrow> (case mx_pickID s draws of None \<Rightarrow> s | Some i \<Rightarrow> mx_query queries i (du_writeMessage writes address) s)
           | Some i \<Rightarrow> mx_query queries i (du_writeMessage writes address) (s\<lparr>du_resends := insert i (du_resends s)\<rparr>)))"

definition du_datagramReceived :: "bytes \<Rightarrow> nat \<Rightarrow> dns_udp \<Rightarrow> (dns_raise, dns_udp) outcome" where
  "du_datagramReceived data addr s =
     (case ms_fromStr data ms_new of
        Exc err m \<Rightarrow> Ok (s\<lparr>du_logged := du_logged s @ [err]\<rparr>)
      | Ok m \<Rightarrow>
          (case mx_live s (ms_id m) of
             Some n \<Rightarrow> mx_answer n m s
           | None \<Rightarrow> Ok (if ms_id m \<notin> du_resends s then s\<lparr>du_received := du_received s @ [(m, addr)]\<rparr> else s)))"

definition du_removeResend :: "nat \<Rightarrow> dns_udp \<Rightarrow> dns_udp" where
  "du_removeResend i s = s\<lparr>du_resends := du_resends s - {i}\<rparr>"

datatype dns_event =
  Query bool bool "nat list" nat "dns_query list" "nat option" | Datagram bytes nat | Timeout nat | RemoveResend nat | StopProtocol

fun du_step :: "dns_event \<Rightarrow> dns_udp \<Rightarrow> (dns_raise, dns_udp) outcome" where
  "du_step (Query listens writes draws address queries i) s = Ok (du_query listens writes draws address queries i s)"
| "du_step (Datagram data addr) s = du_datagramReceived data addr s"
| "du_step (Timeout n) s = mx_timeout n s"
| "du_step (RemoveResend i) s = Ok (du_removeResend i s)"
| "du_step StopProtocol s = Ok (du_stopProtocol s)"

fun du_run :: "dns_event list \<Rightarrow> dns_udp \<Rightarrow> (dns_raise, dns_udp) outcome" where
  "du_run [] s = Ok s"
| "du_run (e # es) s = and_then (du_step e s) (du_run es)"

section \<open>Every query is settled once\<close>

definition mx_inv :: "'a dns_mixin_scheme \<Rightarrow> bool" where
  "mx_inv s \<longleftrightarrow>
     distinct (map fst (mx_calls s) @ map fst (mx_fired s)) \<and>
     fst ` set (mx_calls s) \<union> fst ` set (mx_fired s) = {..<length (mx_asked s)} \<and>
     (\<forall>i n. mx_live s i = Some n \<longrightarrow> (n, i) \<in> set (mx_calls s)) \<and>
     (\<forall>n i. (n, i) \<in> set (mx_calls s) \<longrightarrow> ms_id (mx_asked s ! n) = i) \<and>
     (\<forall>n m. (n, Answer m) \<in> set (mx_fired s) \<longrightarrow> ms_id (mx_asked s ! n) = ms_id m)"

lemma mx_invI:
  assumes "distinct (map fst (mx_calls s) @ map fst (mx_fired s))"
    "fst ` set (mx_calls s) \<union> fst ` set (mx_fired s) = {..<length (mx_asked s)}"
    "\<And>i n. mx_live s i = Some n \<Longrightarrow> (n, i) \<in> set (mx_calls s)"
    "\<And>n i. (n, i) \<in> set (mx_calls s) \<Longrightarrow> ms_id (mx_asked s ! n) = i"
    "\<And>n m. (n, Answer m) \<in> set (mx_fired s) \<Longrightarrow> ms_id (mx_asked s ! n) = ms_id m"
  shows "mx_inv s"
  using assms unfolding mx_inv_def by blast

lemma mx_invD:
  assumes "mx_inv s"
  shows "distinct (map fst (mx_calls s) @ map fst (mx_fired s))"
    "fst ` set (mx_calls s) \<union> fst ` set (mx_fired s) = {..<length (mx_asked s)}"
    "mx_live s i = Some n \<Longrightarrow> (n, i) \<in> set (mx_calls s)"
    "(n, i) \<in> set (mx_calls s) \<Longrightarrow> ms_id (mx_asked s ! n) = i"
    "(n, Answer m) \<in> set (mx_fired s) \<Longrightarrow> ms_id (mx_asked s ! n) = ms_id m"
  using assms unfolding mx_inv_def by blast+

text \<open>The fields of the mixin in the state of a protocol.\<close>

lemma mx_inv_truncate: "dns_mixin.truncate u = dns_mixin.truncate s \<Longrightarrow> mx_inv s \<Longrightarrow> mx_inv u"
  by (simp add: mx_inv_def dns_mixin.truncate_def)

lemma mx_pending:
  assumes "mx_inv s" "(n, i) \<in> set (mx_calls s)"
  shows "\<not> mx_has_fired n s" "map_of (mx_calls s) n = Some i" "n < length (mx_asked s)"
proof -
  note d = mx_invD(1) [OF assms(1)]
  from assms(2) have n: "n \<in> fst ` set (mx_calls s)" by force
  with d show "\<not> mx_has_fired n s" by (auto simp: mx_has_fired_def)
  from d assms(2) show "map_of (mx_calls s) n = Some i" by simp
  from n mx_invD(2) [OF assms(1)] show "n < length (mx_asked s)" by blast
qed

lemma mx_inv_settle:
  assumes "mx_inv s" "(n, i) \<in> set (mx_calls s)" "\<And>m. r = Answer m \<Longrightarrow> ms_id m = i"
    "u = (mx_forget n s)\<lparr>mx_live := (mx_live s)(i := None), mx_fired := mx_fired s @ [(n, r)]\<rparr>"
  shows "mx_inv u"
proof -
  have calls: "mx_calls u = filter (\<lambda>c. fst c \<noteq> n) (mx_calls s)" and fired: "mx_fired u = mx_fired s @ [(n, r)]"
    and asked: "mx_asked u = mx_asked s" and live: "mx_live u = (mx_live s)(i := None)"
    by (simp_all add: assms(4) mx_forget_def)
  note inv = mx_invD [OF assms(1)] and pending = mx_pending [OF assms(1,2)]
  show ?thesis
  proof (rule mx_invI)
    show "distinct (map fst (mx_calls u) @ map fst (mx_fired u))"
      using inv(1) pending(1) unfolding calls fired by (auto simp: mx_has_fired_def distinct_map_filter)
    show "fst ` set (mx_calls u) \<union> fst ` set (mx_fired u) = {..<length (mx_asked u)}"
    proof -
      have "fst ` set (filter (\<lambda>c. fst c \<noteq> n) (mx_calls s)) = fst ` set (mx_calls s) - {n}" by auto
      moreover have "n \<in> fst ` set (mx_calls s)" using assms(2) by force
      ultimately show ?thesis unfolding calls fired asked by (simp add: inv(2) [symmetric]) blast
    qed
    show "(k, j) \<in> set (mx_calls u)" if "mx_live u j = Some k" for j k
    proof -
      from that have "j \<noteq> i" "mx_live s j = Some k" by (auto simp: live split: if_splits)
      with inv(3) have k: "(k, j) \<in> set (mx_calls s)" by blast
      with inv(4) [OF this] inv(4) [OF assms(2)] \<open>j \<noteq> i\<close> show ?thesis by (auto simp: calls)
    qed
    show "ms_id (mx_asked u ! k) = j" if "(k, j) \<in> set (mx_calls u)" for k j using that inv(4) by (auto simp: calls asked)
    show "ms_id (mx_asked u ! k) = ms_id m" if "(k, Answer m) \<in> set (mx_fired u)" for k m
    proof -
      from that consider "k = n" "r = Answer m" | "(k, Answer m) \<in> set (mx_fired s)" by (auto simp: fired)
      then show ?thesis
      proof cases
        case 1
        from assms(3) [OF 1(2)] inv(4) [OF assms(2)] 1(1) show ?thesis by (simp add: asked)
      next
        case 2
        from inv(5) [OF 2] show ?thesis by (simp add: asked)
      qed
    qed
  qed
qed

text \<open>A call of the timer and an answer never raise, and settle one query.\<close>

lemma mx_timeout_inv:
  assumes "mx_inv s"
  shows "\<exists>u. mx_timeout n s = Ok u \<and> mx_inv u"
proof (cases "map_of (mx_calls s) n")
  case (Some i)
  then have n: "(n, i) \<in> set (mx_calls s)" by (rule map_of_SomeD)
  with mx_pending(1) [OF assms this] have "mx_timeout n s =
      Ok ((mx_forget n s)\<lparr>mx_live := (mx_live s)(i := None), mx_fired := mx_fired s @ [(n, DNSQueryTimeoutError i)]\<rparr>)"
    using Some by (simp add: mx_timeout_def mx_clearFailed_def mx_forget_def mx_has_fired_def)
  with mx_inv_settle [OF assms n _ refl, of "DNSQueryTimeoutError i"] show ?thesis by simp
qed (simp add: mx_timeout_def assms)

lemma mx_answer_settles:
  assumes "mx_inv s" "mx_live s (ms_id m) = Some n"
  shows "mx_answer n m s = Ok ((mx_forget n s)\<lparr>mx_live := (mx_live s)(ms_id m := None), mx_fired := mx_fired s @ [(n, Answer m)]\<rparr>)"
      (is "_ = Ok ?u")
    and "mx_inv (state_of (mx_answer n m s))"
proof -
  from mx_invD(3) [OF assms] have n: "(n, ms_id m) \<in> set (mx_calls s)" .
  moreover from this have "n \<in> fst ` set (mx_calls s)" by force
  ultimately show settled: "mx_answer n m s = Ok ?u"
    using mx_pending(1) [OF assms(1) n] by (simp add: mx_answer_def mx_forget_def mx_has_fired_def Let_def)
  have "mx_inv ?u" by (rule mx_inv_settle [OF assms(1) n _ refl]) simp
  with settled show "mx_inv (state_of (mx_answer n m s))" by simp
qed

lemma mx_query_inv:
  assumes "mx_inv s" "\<And>m u. dns_mixin.truncate (state_of (writeMessage m u)) = dns_mixin.truncate u"
  shows "mx_inv (mx_query queries i writeMessage s)"
proof -
  let ?m = "ms_new\<lparr>ms_id := i, ms_recDes := 1, ms_queries := queries\<rparr>" and ?n = "length (mx_asked s)"
  let ?s = "s\<lparr>mx_asked := mx_asked s @ [?m]\<rparr>"
  note inv = mx_invD [OF assms(1)]
  have fresh: "?n \<notin> fst ` set (mx_calls s)" "?n \<notin> fst ` set (mx_fired s)" using inv(2) by blast+
  have old: "(mx_asked s @ [?m]) ! k = mx_asked s ! k" if "k \<in> fst ` set (mx_calls s) \<union> fst ` set (mx_fired s)" for k
    using that inv(2) by (simp add: nth_append)
  show ?thesis
  proof (cases "writeMessage ?m ?s")
    case (Ok u)
    with assms(2) [of ?m ?s] have u: "mx_live u = mx_live s" "mx_calls u = mx_calls s" "mx_asked u = mx_asked s @ [?m]" "mx_fired u = mx_fired s"
      by (simp_all add: dns_mixin.truncate_def)
    from Ok have q: "mx_query queries i writeMessage s = u\<lparr>mx_calls := mx_calls s @ [(?n, i)], mx_live := (mx_live s)(i \<mapsto> ?n)\<rparr>" (is "_ = ?q")
      by (simp add: mx_query_def Let_def u)
    have "mx_inv ?q"
    proof (rule mx_invI)
      show "distinct (map fst (mx_calls ?q) @ map fst (mx_fired ?q))" using inv(1) fresh by (auto simp: u)
      show "fst ` set (mx_calls ?q) \<union> fst ` set (mx_fired ?q) = {..<length (mx_asked ?q)}" using inv(2) by (auto simp: u)
      show "(k, j) \<in> set (mx_calls ?q)" if "mx_live ?q j = Some k" for j k using that inv(3) by (auto simp: u split: if_splits)
      show "ms_id (mx_asked ?q ! k) = j" if "(k, j) \<in> set (mx_calls ?q)" for k j
      proof -
        from that consider "k = ?n" "j = i" | "(k, j) \<in> set (mx_calls s)" "k \<in> fst ` set (mx_calls s)" by (force simp: u)
        then show ?thesis using inv(4) old by cases (simp_all add: u)
      qed
      show "ms_id (mx_asked ?q ! k) = ms_id m" if "(k, Answer m) \<in> set (mx_fired ?q)" for k m
      proof -
        from that have "(k, Answer m) \<in> set (mx_fired s)" by (simp add: u)
        moreover from this have "k \<in> fst ` set (mx_fired s)" by force
        ultimately show ?thesis using inv(5) old by (simp add: u)
      qed
    qed
    with q show ?thesis by simp
  next
    case (Exc e u)
    with assms(2) [of ?m ?s] have u: "mx_live u = mx_live s" "mx_calls u = mx_calls s" "mx_asked u = mx_asked s @ [?m]" "mx_fired u = mx_fired s"
      by (simp_all add: dns_mixin.truncate_def)
    from Exc have q: "mx_query queries i writeMessage s = u\<lparr>mx_fired := mx_fired s @ [(?n, WriteFailed)]\<rparr>" (is "_ = ?q")
      by (simp add: mx_query_def Let_def u)
    have "mx_inv ?q"
    proof (rule mx_invI)
      show "distinct (map fst (mx_calls ?q) @ map fst (mx_fired ?q))" using inv(1) fresh by (auto simp: u)
      show "fst ` set (mx_calls ?q) \<union> fst ` set (mx_fired ?q) = {..<length (mx_asked ?q)}" using inv(2) by (auto simp: u)
      show "(k, j) \<in> set (mx_calls ?q)" if "mx_live ?q j = Some k" for j k using that inv(3) by (auto simp: u)
      show "ms_id (mx_asked ?q ! k) = j" if "(k, j) \<in> set (mx_calls ?q)" for k j
      proof -
        from that consider "k = ?n" "j = i" | "(k, j) \<in> set (mx_calls s)" "k \<in> fst ` set (mx_calls s)" by (force simp: u)
        then show ?thesis using inv(4) old by cases (simp_all add: u)
      qed
      show "ms_id (mx_asked ?q ! k) = ms_id m" if "(k, Answer m) \<in> set (mx_fired ?q)" for k m
      proof -
        from that have "(k, Answer m) \<in> set (mx_fired s)" by (simp add: u)
        moreover from this have "k \<in> fst ` set (mx_fired s)" by force
        ultimately show ?thesis using inv(5) old by (simp add: u)
      qed
    qed
    with q show ?thesis by simp
  qed
qed

lemma du_writeMessage_mixin: "dns_mixin.truncate (state_of (du_writeMessage writes address m s)) = dns_mixin.truncate s"
  by (simp add: du_writeMessage_def dns_mixin.truncate_def split: sum.splits prod.splits)

lemma mx_inv_live: "mx_inv s \<Longrightarrow> mx_inv (s\<lparr>mx_live := Map.empty\<rparr>)"
  by (simp add: mx_inv_def)

lemma mx_inv_fields [simp]:
  "mx_inv (s\<lparr>du_transport := b\<rparr>) = mx_inv s" "mx_inv (s\<lparr>du_resends := r\<rparr>) = mx_inv s" "mx_inv (s\<lparr>du_logged := l\<rparr>) = mx_inv s"
  "mx_inv (s\<lparr>du_received := ms\<rparr>) = mx_inv s"
  by (simp_all add: mx_inv_def)

lemma du_query_inv: "mx_inv s \<Longrightarrow> mx_inv (du_query listens writes draws address queries i s)"
  by (auto simp: du_query_def du_startListening_def du_startProtocol_def mx_query_inv du_writeMessage_mixin mx_inv_live split: option.splits)

lemma du_step_inv: "mx_inv s \<Longrightarrow> \<exists>u. du_step e s = Ok u \<and> mx_inv u"
proof (induction e s rule: du_step.induct)
  case (2 data addr s)
  show ?case
  proof (cases "ms_fromStr data ms_new")
    case (Ok m)
    show ?thesis
    proof (cases "mx_live s (ms_id m)")
      case (Some n)
      with Ok mx_answer_settles [OF 2 Some] show ?thesis by (simp add: du_datagramReceived_def)
    qed (use Ok 2 in \<open>simp add: du_datagramReceived_def\<close>)
  qed (use 2 in \<open>simp add: du_datagramReceived_def\<close>)
qed (use mx_timeout_inv in \<open>auto simp: du_query_inv du_removeResend_def du_stopProtocol_def mx_inv_live\<close>)

lemma du_run_inv: "mx_inv s \<Longrightarrow> \<exists>u. du_run es s = Ok u \<and> mx_inv u"
proof (induction es arbitrary: s)
  case (Cons e es)
  from du_step_inv [OF Cons.prems] obtain u where "du_step e s = Ok u" "mx_inv u" by blast
  with Cons.IH [of u] show ?case by simp
qed simp

lemma du_init_inv: "mx_inv du_init"
  by (simp add: mx_inv_def du_init_def)

fun mx_matches :: "dns_message list \<Rightarrow> nat \<times> dns_result \<Rightarrow> bool" where
  "mx_matches asked (n, Answer m) \<longleftrightarrow> ms_id (asked ! n) = ms_id m"
| "mx_matches asked (n, r) \<longleftrightarrow> True"

text \<open>
  C24: whatever the users, the network and the clock do, also with identifiers that are used twice and with a
  protocol that is stopped and started again, no handler raises; every query that was made either has its one
  call of the timer still to come and no result, or has no such call and one result, and an answer carries the
  identifier of the query.  In particular no query waits for ever.  That a user cancels the Deferred of a query is
  not among the events.
\<close>

theorem dns_queries_settled:
  "\<exists>s. du_run events du_init = Ok s \<and> distinct (map fst (mx_calls s) @ map fst (mx_fired s)) \<and>
     fst ` set (mx_calls s) \<union> fst ` set (mx_fired s) = {..<length (mx_asked s)} \<and>
     list_all (mx_matches (mx_asked s)) (mx_fired s)"
proof -
  from du_run_inv [OF du_init_inv] obtain s where s: "du_run events du_init = Ok s" "mx_inv s" by blast
  have "mx_matches (mx_asked s) (n, r)" if "(n, r) \<in> set (mx_fired s)" for n r
    using mx_invD(5) [OF s(2)] that by (cases r) simp_all
  with s mx_invD(1,2) [OF s(2)] show ?thesis by (auto simp: list_all_iff)
qed

text \<open>
  C25: a datagram that a server made of a well-formed message settles the query with its identifier with that
  message, all of it or its first items when it was truncated; the call of the timer is cancelled, and nothing
  else changes.
\<close>

theorem dns_query_answered:
  assumes "du_run events du_init = Ok s" "mx_live s (ms_id m) = Some n" "ms_ok m" "ms_size m \<le> 16384"
  shows "\<exists>data m' j. ms_toStr m = Inr (data, m') \<and> (m' = m \<and> j = ms_count m \<or> m' = m\<lparr>ms_trunc := 1\<rparr>) \<and>
    du_datagramReceived data addr s =
      Ok (s\<lparr>mx_live := (mx_live s)(ms_id m := None), mx_calls := filter (\<lambda>c. fst c \<noteq> n) (mx_calls s),
            mx_fired := mx_fired s @ [(n, Answer (ms_got j m'))]\<rparr>)"
proof -
  from dns_message_decodes [OF assms(3,4)] obtain data m' j where
    m: "ms_toStr m = Inr (data, m')" "ms_fromStr data ms_new = Ok (ms_got j m')" "m' = m \<and> j = ms_count m \<or> m' = m\<lparr>ms_trunc := 1\<rparr>" by blast
  then have i: "ms_id (ms_got j m') = ms_id m" by (auto simp: ms_got_def Let_def)
  from du_run_inv [OF du_init_inv, of events] assms(1) have "mx_inv s" by auto
  from mx_answer_settles(1) [OF this, of "ms_got j m'" n] i assms(2) m(2) have "du_datagramReceived data addr s =
      Ok (s\<lparr>mx_live := (mx_live s)(ms_id m := None), mx_calls := filter (\<lambda>c. fst c \<noteq> n) (mx_calls s),
            mx_fired := mx_fired s @ [(n, Answer (ms_got j m'))]\<rparr>)"
    by (simp add: du_datagramReceived_def mx_forget_def)
  with m(1,3) show ?thesis by blast
qed

lemma dns_query_answered_witness:
  "\<exists>s. du_run [Query True True [7] 0 [] None] du_init = Ok s \<and> mx_live s 7 = Some 0 \<and>
     (\<exists>data m' j. ms_toStr ms_example = Inr (data, m') \<and> (m' = ms_example \<and> j = ms_count ms_example \<or> m' = ms_example\<lparr>ms_trunc := 1\<rparr>) \<and>
       du_datagramReceived data 1 s =
         Ok (s\<lparr>mx_live := (mx_live s)(7 := None), mx_calls := [], mx_fired := [(0, Answer (ms_got j m'))]\<rparr>))"
proof -
  have ok: "ms_ok (ms_new\<lparr>ms_id := 7, ms_recDes := 1, ms_queries := []\<rparr>)" (is "ms_ok ?m")
    by (simp add: ms_ok_def ms_flags_ok_def ms_new_def)
  have "ms_size ?m \<le> 16384" by (simp add: ms_size_def ms_new_def headerSize_def)
  from dns_message_decodes [OF ok this] obtain str m' where str: "ms_toStr ?m = Inr (str, m')" by blast
  define s where "s = du_init\<lparr>mx_asked := [?m], mx_calls := [(0, 7)], mx_live := Map.empty(7 \<mapsto> 0), du_transport := True, du_sent := [(str, 0)]\<rparr>"
  have run: "du_run [Query True True [7] 0 [] None] du_init = Ok s"
    by (simp add: s_def du_query_def du_startListening_def du_startProtocol_def du_init_def mx_query_def Let_def du_writeMessage_def str [unfolded One_nat_def])
  have live: "mx_live s (ms_id ms_example) = Some 0" by (simp add: s_def ms_example_def)
  have i: "ms_id ms_example = 7" by (simp add: ms_example_def)
  have s: "mx_calls s = [(0, 7)]" "mx_fired s = []" by (simp_all add: s_def du_init_def)
  note answered = dns_query_answered [OF run live ms_example_ok, of 1, unfolded i s]
  have "filter (\<lambda>c. fst c \<noteq> (0 :: nat)) [(0, 7 :: nat)] = []" by simp
  with answered have "\<exists>data m' j. ms_toStr ms_example = Inr (data, m') \<and> (m' = ms_example \<and> j = ms_count ms_example \<or> m' = ms_example\<lparr>ms_trunc := 1\<rparr>) \<and>
       du_datagramReceived data 1 s =
         Ok (s\<lparr>mx_live := (mx_live s)(7 := None), mx_calls := [], mx_fired := [(0, Answer (ms_got j m'))]\<rparr>)"
    by (simp only: append_Nil)
  with run live i show ?thesis by auto
qed

end
