(* ===== verification/DnsStreams.thy ===== *)
theory DnsStreams
  imports DnsQueries
begin

text \<open>
  \<open>DNSProtocol\<close> of \<open>twisted/names/dns.py\<close>: messages over TCP, each after its length in two bytes.
\<close>

section \<open>\<open>DNSProtocol\<close>\<close>

record dns_tcp = dns_mixin +
  dt_length :: "nat option"
  dt_buffer :: bytes
  dt_received :: "dns_message list"
  dt_written :: bytes
  dt_told :: "bool list"

text \<open>\<open>dt_told\<close>: what the controller heard of the connection, made and lost.\<close>

definition dt_init :: dns_tcp where
  "dt_init = \<lparr> mx_live = Map.empty, mx_calls = [], mx_asked = [], mx_fired = [], dt_length = None, dt_buffer = [],
     dt_received = [], dt_written = [], dt_told = [] \<rparr>"

definition dt_connectionMade :: "dns_tcp \<Rightarrow> dns_tcp" where
  "dt_connectionMade s = s\<lparr>mx_live := Map.empty, dt_told := dt_told s @ [True]\<rparr>"

definition dt_connectionLost :: "dns_tcp \<Rightarrow> dns_tcp" where
  "dt_connectionLost s = s\<lparr>dt_told := dt_told s @ [False]\<rparr>"

definition dt_frame :: "bytes \<Rightarrow> bytes" where
  "dt_frame str = be_bytes 2 (length str) @ str"

definition dt_writeMessage :: "dns_message \<Rightarrow> dns_tcp \<Rightarrow> (unit, dns_tcp) outcome" where
  "dt_writeMessage m s =
     (case ms_toStr m of
        Inl err \<Rightarrow> Exc () s
      | Inr (str, m) \<Rightarrow> if length str < 65536 then Ok (s\<lparr>dt_written := dt_written s @ dt_frame str\<rparr>) else Exc () s)"

definition dt_query :: "nat list \<Rightarrow> dns_query list \<Rightarrow> dns_tcp \<Rightarrow> dns_tcp" where
  "dt_query draws queries s = (case mx_pickID s draws of None \<Rightarrow> s | Some i \<Rightarrow> mx_query queries i dt_writeMessage s)"

definition dt_message :: "dns_message \<Rightarrow> dns_tcp \<Rightarrow> (dns_raise, dns_tcp) outcome" where
  "dt_message m s =
     (case mx_live s (ms_id m) of None \<Rightarrow> Ok (s\<lparr>dt_received := dt_received s @ [m]\<rparr>) | Some n \<Rightarrow> mx_answer n m s)"

definition dt_take_length :: "dns_tcp \<Rightarrow> dns_tcp" where
  "dt_take_length s =
     (if dt_length s = None \<and> length (dt_buffer s) \<ge> 2
      then s\<lparr>dt_length := Some (be_nat (take 2 (dt_buffer s))), dt_buffer := drop 2 (dt_buffer s)\<rparr> else s)"

text \<open>
  Without a length the comparison \<open>len(self.buffer) >= self.length\<close> holds, as \<open>None\<close> is less than every number in
  the Python that this release is for, and \<open>self.buffer[:None]\<close> is all of it; likewise for the slice that is kept.
\<close>

definition dt_has_chunk :: "dns_tcp \<Rightarrow> bool" where
  "dt_has_chunk s = (case dt_length s of None \<Rightarrow> True | Some l \<Rightarrow> length (dt_buffer s) \<ge> l)"

definition dt_chunk :: "dns_tcp \<Rightarrow> bytes" where
  "dt_chunk s = (case dt_length s of None \<Rightarrow> dt_buffer s | Some l \<Rightarrow> take l (dt_buffer s))"

definition dt_next :: "dns_tcp \<Rightarrow> dns_tcp" where
  "dt_next s = s\<lparr>dt_buffer := (case dt_length s of None \<Rightarrow> dt_buffer s | Some l \<Rightarrow> drop l (dt_buffer s)), dt_length := None\<rparr>"

lemma rd_num_length: "rd_num k d p = Got n q \<Longrightarrow> 0 < k \<Longrightarrow> q = p + k \<and> q \<le> length d"
  by (auto simp: rd_num_def dest!: readPrecisely_length elim!: rd_bind.elims)

lemma rd_bind_Got_iff: "rd_bind r k = Got x q \<longleftrightarrow> (\<exists>y m. r = Got y m \<and> k y m = Got x q)"
  by (cases r) simp_all

lemma ms_fromStr_length: "ms_fromStr d m0 = Ok m \<Longrightarrow> headerSize \<le> length d"
  by (auto simp: ms_fromStr_def ms_decode_def Let_def rd_bind_Got_iff headerSize_def dest!: rd_num_length split: dns_read.splits)

lemma mx_answer_fields:
  "mx_answer n m s = Ok u \<Longrightarrow> dt_length u = dt_length s \<and> dt_buffer u = dt_buffer s"
  by (auto simp: mx_answer_def mx_forget_def Let_def split: if_splits)

lemma dt_message_fields: "dt_message m s = Ok u \<Longrightarrow> dt_length u = dt_length s \<and> dt_buffer u = dt_buffer s"
  by (auto simp: dt_message_def mx_answer_fields split: option.splits)

function dt_loop :: "dns_tcp \<Rightarrow> (dns_raise, dns_tcp) outcome" where
  "dt_loop s =
     (if dt_buffer s = [] then Ok s
      else let s = dt_take_length s
           in if dt_has_chunk s then
                (case ms_fromStr (dt_chunk s) ms_new of
                   Exc e m \<Rightarrow> Exc (Decoding e) s
                 | Ok m \<Rightarrow> (case dt_message m s of Exc e s \<Rightarrow> Exc e s | Ok s \<Rightarrow> dt_loop (dt_next s)))
              else Ok s)"
  by pat_completeness auto
termination
proof (relation "measure (\<lambda>s. length (dt_buffer s))")
  fix s t u :: dns_tcp and m
  assume t: "t = dt_take_length s" "dt_has_chunk t" "ms_fromStr (dt_chunk t) ms_new = Ok m" "dt_message m t = Ok u"
  from ms_fromStr_length [OF t(3)] have "12 \<le> length (dt_chunk t)" by (simp add: headerSize_def)
  with t(1,2) dt_message_fields [OF t(4)] show "(dt_next u, s) \<in> measure (\<lambda>s. length (dt_buffer s))"
    by (auto simp: dt_next_def dt_chunk_def dt_take_length_def dt_has_chunk_def split: if_splits option.splits)
qed simp

declare dt_loop.simps [simp del]

definition dt_dataReceived :: "bytes \<Rightarrow> dns_tcp \<Rightarrow> (dns_raise, dns_tcp) outcome" where
  "dt_dataReceived data s = dt_loop (s\<lparr>dt_buffer := dt_buffer s @ data\<rparr>)"

section \<open>Boundaries of chunks\<close>

definition dt_more :: "bytes \<Rightarrow> dns_tcp \<Rightarrow> dns_tcp" where
  "dt_more b s = s\<lparr>dt_buffer := dt_buffer s @ b\<rparr>"

lemma dt_more_fields [simp]:
  "dt_buffer (dt_more b s) = dt_buffer s @ b" "dt_length (dt_more b s) = dt_length s" "mx_live (dt_more b s) = mx_live s"
  by (simp_all add: dt_more_def)

lemma dt_dataReceived_more: "dt_dataReceived b s = dt_loop (dt_more b s)"
  by (simp add: dt_dataReceived_def dt_more_def)

lemma dt_message_more: "dt_message m (dt_more b s) = map_state (dt_more b) (dt_message m s)"
  by (simp add: dt_message_def mx_answer_def mx_forget_def mx_has_fired_def dt_more_def Let_def split: option.splits)

lemma dt_message_set:
  "dt_message m (s\<lparr>dt_buffer := b, dt_length := l\<rparr>) = map_state (\<lambda>u. u\<lparr>dt_buffer := b, dt_length := l\<rparr>) (dt_message m s)"
  by (simp add: dt_message_def mx_answer_def mx_forget_def mx_has_fired_def Let_def split: option.splits)

text \<open>The round of the loop after the length was taken.\<close>

definition dt_round :: "dns_tcp \<Rightarrow> (dns_raise, dns_tcp) outcome" where
  "dt_round s =
     (if dt_has_chunk s then
        (case ms_fromStr (dt_chunk s) ms_new of
           Exc e m \<Rightarrow> Exc (Decoding e) s
         | Ok m \<Rightarrow> and_then (dt_message m s) (\<lambda>s. dt_loop (dt_next s)))
      else Ok s)"

lemma dt_loop_Nil: "dt_buffer s = [] \<Longrightarrow> dt_loop s = Ok s"
  by (simp add: dt_loop.simps)

lemma dt_loop_round: "dt_buffer s \<noteq> [] \<Longrightarrow> dt_loop s = dt_round (dt_take_length s)"
proof -
  have "(case dt_message m t of Exc e s \<Rightarrow> Exc e s | Ok s \<Rightarrow> dt_loop (dt_next s)) = and_then (dt_message m t) (\<lambda>s. dt_loop (dt_next s))" for m t
    by (cases "dt_message m t") simp_all
  then show "dt_loop s = dt_round (dt_take_length s)" if "dt_buffer s \<noteq> []"
    using that by (subst dt_loop.simps) (simp add: dt_round_def Let_def split: outcome.splits)
qed

lemma rd_num_eof: "rd_num k d p = Failed e q \<Longrightarrow> e = EOFError"
  by (auto simp: rd_num_def readPrecisely_def Let_def split: if_splits)

lemma rd_bind_Failed_iff: "rd_bind r k = Failed e q \<longleftrightarrow> r = Failed e q \<or> (\<exists>y m. r = Got y m \<and> k y m = Failed e q)"
  by (cases r) simp_all

lemma short_message:
  assumes "length d < headerSize"
  shows "\<exists>m. ms_fromStr d ms_new = Exc EOFError m"
proof (cases "rd_bind (rd_num 2 d 0) (\<lambda>i p. rd_bind (rd_num 1 d p) (\<lambda>b3 p. rd_bind (rd_num 1 d p) (\<lambda>b4 p.
    rd_bind (rd_num 2 d p) (\<lambda>nq p. rd_bind (rd_num 2 d p) (\<lambda>nans p. rd_bind (rd_num 2 d p) (\<lambda>nns p.
    rd_bind (rd_num 2 d p) (\<lambda>nadd. Got (i, b3, b4, nq, nans, nns, nadd))))))))")
  case (Got h q)
  then have "12 \<le> length d" by (auto simp: rd_bind_Got_iff dest!: rd_num_length)
  with assms show ?thesis by (simp add: headerSize_def)
next
  case (Failed e q)
  then have "e = EOFError" by (auto simp: rd_bind_Failed_iff dest!: rd_num_eof)
  with Failed show ?thesis by (simp add: ms_fromStr_def ms_decode_def Let_def)
qed

lemma dt_append: "dt_loop s = Ok u \<Longrightarrow> dt_loop (dt_more b s) = dt_loop (dt_more b u)"
proof (induction s arbitrary: u rule: dt_loop.induct)
  case (1 s)
  show ?case
  proof (cases "dt_buffer s = []")
    case True
    with "1.prems" show ?thesis by (simp add: dt_loop_Nil)
  next
    case False
    define t where "t = dt_take_length s"
    from False "1.prems" have round: "dt_round t = Ok u" by (simp add: dt_loop_round t_def)
    have some: "dt_length t \<noteq> None"
    proof
      assume none: "dt_length t = None"
      then have "length (dt_buffer t) < 2" by (auto simp: t_def dt_take_length_def split: if_splits)
      with none have "length (dt_chunk t) < headerSize" by (simp add: dt_chunk_def headerSize_def)
      from short_message [OF this] none round show False by (auto simp: dt_round_def dt_has_chunk_def)
    qed
    then have more: "dt_take_length (dt_more b s) = dt_more b t"
      by (auto simp: t_def dt_take_length_def dt_more_def split: if_splits)
    from False more have left: "dt_loop (dt_more b s) = dt_round (dt_more b t)" by (simp add: dt_loop_round)
    from some obtain l where l: "dt_length t = Some l" by blast
    show ?thesis
    proof (cases "dt_has_chunk t")
      case True
      then have le: "l \<le> length (dt_buffer t)" by (simp add: dt_has_chunk_def l)
      from True round obtain m v where m: "ms_fromStr (dt_chunk t) ms_new = Ok m" "dt_message m t = Ok v" "dt_loop (dt_next v) = Ok u"
        by (auto simp: dt_round_def and_then_Ok_iff split: outcome.splits)
      have v: "dt_length v = Some l" "dt_buffer v = dt_buffer t" using dt_message_fields [OF m(2)] l by simp_all
      have chunk: "dt_has_chunk (dt_more b t)" "dt_chunk (dt_more b t) = dt_chunk t" using le by (simp_all add: dt_has_chunk_def dt_chunk_def l)
      have "dt_next (dt_more b v) = dt_more b (dt_next v)" using le by (simp add: dt_next_def dt_more_def v)
      with m chunk have "dt_round (dt_more b t) = dt_loop (dt_more b (dt_next v))" by (simp add: dt_round_def dt_message_more)
      with "1.IH" [OF False t_def True m(1,2,3)] left show ?thesis by simp
    next
      case no: False
      with round have u: "u = t" by (simp add: dt_round_def)
      have same: "dt_take_length (dt_more b t) = dt_more b t" by (simp add: dt_take_length_def l)
      show ?thesis
      proof (cases "dt_buffer (dt_more b t) = []")
        case True
        then have "dt_more b t = t" by (simp add: dt_more_def)
        with no True left u show ?thesis by (simp add: dt_round_def dt_loop_Nil)
      next
        case False
        with same left u show ?thesis by (simp add: dt_loop_round)
      qed
    qed
  qed
qed

section \<open>Streams of messages\<close>

definition dt_stream :: "bytes list \<Rightarrow> bytes" where
  "dt_stream strs = concat (map dt_frame strs)"

text \<open>A boundary at \<open>p\<close> tears the length of one of the messages, whose sizes are given.\<close>

fun dt_torn :: "nat list \<Rightarrow> nat \<Rightarrow> bool" where
  "dt_torn [] p \<longleftrightarrow> False"
| "dt_torn (n # ns) p \<longleftrightarrow> p = 1 \<or> (n + 2 \<le> p \<and> dt_torn ns (p - (n + 2)))"

fun dt_messages :: "dns_message list \<Rightarrow> dns_tcp \<Rightarrow> (dns_raise, dns_tcp) outcome" where
  "dt_messages [] s = Ok s"
| "dt_messages (m # ms) s = and_then (dt_message m s) (dt_messages ms)"

definition dt_idle :: "dns_tcp \<Rightarrow> bool" where
  "dt_idle s \<longleftrightarrow> mx_inv s \<and> dt_length s = None \<and> dt_buffer s = []"

definition dt_carries :: "bytes \<Rightarrow> dns_message \<Rightarrow> bool" where
  "dt_carries str m \<longleftrightarrow> ms_fromStr str ms_new = Ok m \<and> length str < 65536"

lemma mx_inv_received [simp]: "mx_inv (s\<lparr>dt_received := ms\<rparr>) = mx_inv s"
  by (simp add: mx_inv_def)

lemma dt_message_idle: "dt_idle s \<Longrightarrow> \<exists>u. dt_message m s = Ok u \<and> dt_idle u"
proof (cases "mx_live s (ms_id m)")
  case (Some n)
  assume "dt_idle s"
  with mx_answer_settles [OF _ Some] obtain u where "dt_message m s = Ok u" "mx_inv u" by (simp add: dt_message_def Some dt_idle_def)
  with dt_message_fields [OF this(1)] \<open>dt_idle s\<close> show ?thesis by (simp add: dt_idle_def)
qed (simp add: dt_message_def dt_idle_def)

lemma dt_messages_idle: "dt_idle s \<Longrightarrow> \<exists>u. dt_messages ms s = Ok u \<and> dt_idle u"
proof (induction ms arbitrary: s)
  case (Cons m ms)
  from dt_message_idle [OF Cons.prems] obtain u where "dt_message m s = Ok u" "dt_idle u" by blast
  with Cons.IH [of u] show ?case by simp
qed simp

lemma dt_stream_prefix:
  "list_all2 dt_carries strs ms \<Longrightarrow> dt_idle s \<Longrightarrow> p \<le> length (dt_stream strs) \<Longrightarrow>
    (if dt_torn (map length strs) p then \<exists>u. dt_dataReceived (take p (dt_stream strs)) s = Exc (Decoding EOFError) u
     else (\<exists>u. dt_dataReceived (take p (dt_stream strs)) s = Ok u) \<and>
       (p = length (dt_stream strs) \<longrightarrow> dt_dataReceived (take p (dt_stream strs)) s = dt_messages ms s))"
proof (induction strs ms arbitrary: s p rule: list_all2_induct)
  case Nil
  then show ?case by (simp add: dt_dataReceived_def dt_stream_def dt_idle_def dt_loop_Nil)
next
  case (Cons str strs m ms)
  from Cons.hyps(1) have m: "ms_fromStr str ms_new = Ok m" and small: "length str < 65536" by (simp_all add: dt_carries_def)
  have S: "dt_stream (str # strs) = be_bytes 2 (length str) @ str @ dt_stream strs" by (simp add: dt_stream_def dt_frame_def)
  have s: "dt_length s = None" "dt_buffer s = []" "be_bytes 2 (length str) \<noteq> []"
    using Cons.prems(1) by (simp_all add: dt_idle_def numeral_2_eq_2)
  consider "p = 0" | "p = 1" | "2 \<le> p" "p < length str + 2" | "length str + 2 \<le> p" by linarith
  then show ?case
  proof cases
    case 1
    then show ?thesis using s by (simp add: dt_dataReceived_def dt_loop_Nil S)
  next
    case 2
    then obtain c where c: "take p (dt_stream (str # strs)) = [c]" by (simp add: S numeral_2_eq_2 take_Cons split: list.splits nat.splits)
    let ?t = "s\<lparr>dt_buffer := [c]\<rparr>"
    from short_message [of "[c]"] obtain m0 where "ms_fromStr [c] ms_new = Exc EOFError m0" by (auto simp: headerSize_def)
    moreover have "dt_take_length ?t = ?t" by (simp add: dt_take_length_def)
    ultimately have "dt_loop ?t = Exc (Decoding EOFError) ?t"
      by (simp add: dt_loop_round dt_round_def dt_has_chunk_def dt_chunk_def s)
    with 2 c s show ?thesis by (simp add: dt_dataReceived_def)
  next
    case 3
    define b where "b = take (p - 2) (str @ dt_stream strs)"
    have "take p (dt_stream (str # strs)) = be_bytes 2 (length str) @ b" using 3 by (simp add: S b_def)
    moreover have "dt_take_length (s\<lparr>dt_buffer := be_bytes 2 (length str) @ b\<rparr>) = s\<lparr>dt_buffer := b, dt_length := Some (length str)\<rparr>"
      using small s by (simp add: dt_take_length_def be_nat_be_bytes)
    moreover have "length b < length str" using 3 by (simp add: b_def)
    ultimately have "dt_dataReceived (take p (dt_stream (str # strs))) s = Ok (s\<lparr>dt_buffer := b, dt_length := Some (length str)\<rparr>)"
      using small s by (simp add: dt_dataReceived_def dt_loop_round dt_round_def dt_has_chunk_def)
    with 3 show ?thesis by (simp add: S)
  next
    case 4
    define k where "k = p - (length str + 2)"
    define b where "b = take k (dt_stream strs)"
    let ?t = "s\<lparr>dt_buffer := str @ b, dt_length := Some (length str)\<rparr>"
    from dt_message_idle [OF Cons.prems(1), of m] obtain u where u: "dt_message m s = Ok u" "dt_idle u" by blast
    have b: "take p (dt_stream (str # strs)) = be_bytes 2 (length str) @ str @ b" using 4 by (simp add: S b_def k_def)
    moreover have "dt_take_length (s\<lparr>dt_buffer := be_bytes 2 (length str) @ str @ b\<rparr>) = ?t"
      using small s by (simp add: dt_take_length_def be_nat_be_bytes)
    moreover have "dt_message m ?t = Ok (u\<lparr>dt_buffer := str @ b, dt_length := Some (length str)\<rparr>)"
      using u(1) dt_message_set [of m _ _ s] by simp
    moreover have "dt_next (u\<lparr>dt_buffer := str @ b, dt_length := Some (length str)\<rparr>) = u\<lparr>dt_buffer := dt_buffer u @ b\<rparr>"
      using u(2) by (simp add: dt_next_def dt_idle_def)
    ultimately have "dt_dataReceived (take p (dt_stream (str # strs))) s = dt_dataReceived b u"
      using m s by (simp add: dt_dataReceived_def dt_loop_round dt_round_def dt_has_chunk_def dt_chunk_def)
    moreover have "k \<le> length (dt_stream strs)" using Cons.prems(2) by (simp add: S k_def)
    note rest = Cons.IH [OF u(2) this]
    moreover have "p = length (dt_stream (str # strs)) \<longleftrightarrow> k = length (dt_stream strs)" using 4 by (auto simp: S k_def)
    moreover have "dt_torn (map length (str # strs)) p = dt_torn (map length strs) k" using 4 by (simp add: k_def)
    ultimately show ?thesis using rest u(1) by (simp only: b_def dt_messages.simps and_then.simps)
  qed
qed

fun dt_feed :: "bytes list \<Rightarrow> dns_tcp \<Rightarrow> (dns_raise, dns_tcp) outcome" where
  "dt_feed [] s = Ok s"
| "dt_feed (c # cs) s = and_then (dt_dataReceived c s) (dt_feed cs)"

lemma dt_feed_snoc: "dt_feed (cs @ [c]) s = and_then (dt_feed cs s) (dt_dataReceived c)"
proof (induction cs arbitrary: s)
  case Nil
  show ?case by (cases "dt_dataReceived c s") simp_all
next
  case (Cons d cs)
  then show ?case by (cases "dt_dataReceived d s") simp_all
qed

definition dt_tears :: "bytes list \<Rightarrow> bytes list \<Rightarrow> bool" where
  "dt_tears strs chunks \<longleftrightarrow> list_ex (\<lambda>i. dt_torn (map length strs) (length (concat (take i chunks)))) [0..<Suc (length chunks)]"

lemma dt_tears_snoc:
  "dt_tears strs (cs @ [c]) \<longleftrightarrow> dt_tears strs cs \<or> dt_torn (map length strs) (length (concat cs @ c))"
proof -
  have "(\<exists>i \<in> {..<Suc (length cs)}. dt_torn (map length strs) (length (concat (take i (cs @ [c]))))) \<longleftrightarrow> dt_tears strs cs"
    by (simp add: dt_tears_def list_ex_iff atLeast_upt)
  then show ?thesis by (simp add: dt_tears_def list_ex_iff atLeast_upt lessThan_Suc) blast
qed

lemma dt_feed_stream:
  assumes "list_all2 dt_carries strs ms" "dt_idle s"
  shows "dt_stream strs = concat cs @ later \<Longrightarrow>
    (if dt_tears strs cs then \<exists>u. dt_feed cs s = Exc (Decoding EOFError) u else dt_feed cs s = dt_dataReceived (concat cs) s)"
proof (induction cs arbitrary: later rule: rev_induct)
  case Nil
  have "\<not> dt_torn ns 0" for ns by (cases ns) simp_all
  with assms(2) show ?case by (simp add: dt_tears_def dt_dataReceived_def dt_loop_Nil dt_idle_def)
next
  case (snoc c cs)
  have IH: "if dt_tears strs cs then \<exists>u. dt_feed cs s = Exc (Decoding EOFError) u else dt_feed cs s = dt_dataReceived (concat cs) s"
    by (rule snoc.IH [of "c @ later"]) (use snoc.prems in simp)
  let ?p = "length (concat cs)" and ?q = "length (concat cs @ c)"
  have parts: "take ?p (dt_stream strs) = concat cs" "take ?q (dt_stream strs) = concat cs @ c"
    "?p \<le> length (dt_stream strs)" "?q \<le> length (dt_stream strs)" using snoc.prems by simp_all
  note stream = dt_stream_prefix [OF assms]
  show ?case
  proof (cases "dt_tears strs cs")
    case True
    with IH show ?thesis by (auto simp: dt_feed_snoc dt_tears_snoc)
  next
    case False
    have "\<not> dt_torn (map length strs) ?p"
      using False by (simp add: dt_tears_def list_ex_iff)
    with stream [OF parts(3)] parts(1) obtain u where u: "dt_dataReceived (concat cs) s = Ok u" by auto
    then have "dt_dataReceived (concat cs @ c) s = dt_dataReceived c u"
      using dt_append [of "dt_more (concat cs) s" u c] by (simp add: dt_dataReceived_more dt_more_def)
    with u False IH have fed: "dt_feed (cs @ [c]) s = dt_dataReceived (concat cs @ c) s" by (simp add: dt_feed_snoc)
    from False stream [OF parts(4)] parts(2) fed show ?thesis by (auto simp: dt_tears_snoc split: if_splits)
  qed
qed

text \<open>
  C26: messages that arrive over TCP, cut anywhere but between the two bytes of a length, are all handled, in
  order: each settles the query with its identifier or goes to the controller, and the protocol is left as
  before them.  When a chunk ends between the two bytes of a length, \<open>dataReceived\<close> raises \<open>EOFError\<close>,
  although nothing is wrong with the messages.
\<close>

theorem dns_tcp_stream:
  assumes "list_all2 dt_carries strs ms" "dt_idle s" "concat chunks = dt_stream strs"
  shows "if dt_tears strs chunks then \<exists>u. dt_feed chunks s = Exc (Decoding EOFError) u
    else dt_feed chunks s = dt_messages ms s \<and> (\<exists>u. dt_messages ms s = Ok u \<and> dt_idle u)"
proof (cases "dt_tears strs chunks")
  case True
  with dt_feed_stream [OF assms(1,2), of chunks "[]"] assms(3) show ?thesis by simp
next
  case False
  then have "\<not> dt_torn (map length strs) (length (dt_stream strs))" using assms(3) by (simp add: dt_tears_def list_ex_iff)
  with dt_stream_prefix [OF assms(1,2) order_refl] have "dt_dataReceived (dt_stream strs) s = dt_messages ms s" by simp
  with False dt_feed_stream [OF assms(1,2), of chunks "[]"] assms(3) dt_messages_idle [OF assms(2), of ms] show ?thesis by simp
qed

definition dt_example :: dns_message where
  "dt_example = ms_new\<lparr>ms_id := 7, ms_maxSize := 0\<rparr>"

definition dt_example_bytes :: bytes where
  "dt_example_bytes = ms_header_bytes dt_example"

lemma dt_example_carried: "dt_carries dt_example_bytes dt_example"
proof -
  have "ms_flags_ok dt_example" "ms_counts_ok dt_example" by (simp_all add: dt_example_def ms_new_def ms_flags_ok_def ms_counts_ok_def)
  from ms_header_read [OF this, of _ "[]"] have "ms_fromStr dt_example_bytes ms_new = Ok dt_example"
    by (simp add: dt_example_bytes_def ms_fromStr_def Let_def dt_example_def ms_new_def ms_records_def ms_section_def)
  then show ?thesis by (simp add: dt_carries_def dt_example_bytes_def headerSize_def)
qed

lemma dns_tcp_stream_witness:
  "dt_idle dt_init \<and> dt_feed [take 9 (dt_frame dt_example_bytes), drop 9 (dt_frame dt_example_bytes)] dt_init = Ok (dt_init\<lparr>dt_received := [dt_example]\<rparr>) \<and>
   (\<exists>u. dt_feed [take 1 (dt_frame dt_example_bytes), drop 1 (dt_frame dt_example_bytes)] dt_init = Exc (Decoding EOFError) u)"
proof -
  have idle: "dt_idle dt_init" by (simp add: dt_idle_def dt_init_def mx_inv_def)
  have carried: "list_all2 dt_carries [dt_example_bytes] [dt_example]" using dt_example_carried by simp
  have stream: "concat [take n (dt_frame dt_example_bytes), drop n (dt_frame dt_example_bytes)] = dt_stream [dt_example_bytes]" for n
    by (simp add: dt_stream_def)
  have len: "length dt_example_bytes = 12" "length (dt_frame dt_example_bytes) = 14" by (simp_all add: dt_example_bytes_def dt_frame_def headerSize_def)
  have tears: "\<not> dt_tears [dt_example_bytes] [take 9 (dt_frame dt_example_bytes), drop 9 (dt_frame dt_example_bytes)]"
    "dt_tears [dt_example_bytes] [take 1 (dt_frame dt_example_bytes), drop 1 (dt_frame dt_example_bytes)]"
    by (simp_all add: dt_tears_def len)
  have "dt_messages [dt_example] dt_init = Ok (dt_init\<lparr>dt_received := [dt_example]\<rparr>)"
    by (simp add: dt_message_def dt_init_def)
  with dns_tcp_stream [OF carried idle stream, of 9] dns_tcp_stream [OF carried idle stream, of 1] tears idle show ?thesis by simp
qed

end
