(* ===== verification/Spec2Isabelle.thy ===== *)
theory Spec2Isabelle
  imports Netstring AmpCalls BananaSessions BananaLimits TransferDecoders LineOnly LineReceiver DeferredChains DeferredSync DeferredLists InlineCallbacks ReactorLoop CooperatorTicks Timeouts EventTriggers Wire Shaping DnsStreams
begin

text \<open>
  A verification library for the networking engine in
  \<open>src/python/python3/Twisted-15.2.1/twisted\<close>, the program the repository is built around; paths
  below are relative to that directory.

  \<^bold>\<open>The program.\<close>  One thread runs a reactor.  In each turn it makes the delayed calls that are due,
  waits for descriptors that can be read or written, and lets each of them read or write.  What is
  read goes to a protocol, which cuts the byte stream into messages and hands them to the
  application; what the application writes is buffered by the transport until the socket takes it,
  and a producer that fills the buffer is paused and resumed.  Results that are not there yet are
  Deferreds; locks, queues, lists of Deferreds, cooperative tasks and request protocols are built
  on them.  Codecs turn the objects of the application into bytes: boxes, banana, DNS messages.

  \<^bold>\<open>The theories\<close>, with the code they model.

  \<^item> \<open>Prelude\<close>: byte strings, \<open>outcome\<close> (a method returns or raises, and leaves a state either way),
    decimal, hexadecimal and big-endian numbers, \<open>split\<close> and \<open>join\<close>.
  \<^item> \<open>Framing\<close>: the contracts \<open>stream_receiver\<close> (a receiver does not see where the stream is cut) and
    \<open>framed_receiver\<close> (what was framed arrives, each message once and in order).
  \<^item> Receivers, \<open>protocols/basic.py\<close>: \<open>Netstring\<close>, \<open>IntN\<close> (length prefixes, pausing, \<open>recvd\<close>,
    \<open>StatefulStringProtocol\<close>), \<open>StringStreams\<close> (the contract \<open>string_handler\<close> of the subclasses that
    override \<open>stringReceived\<close>), \<open>LineOnly\<close> and \<open>LineReceiver\<close>.
  \<^item> \<open>web/http.py\<close>: \<open>TransferDecoders\<close>, the identity and the chunked transfer decoder and \<open>toChunk\<close>.
  \<^item> \<open>protocols/amp.py\<close>: \<open>AmpBoxes\<close> (boxes and their parser, on top of the 16-bit string receiver) and
    \<open>AmpCalls\<close> (requests and their answers).
  \<^item> \<open>spread/banana.py\<close>: \<open>Banana\<close> (encoder and parser), \<open>BananaSessions\<close> (negotiation, two peers) and
    \<open>BananaLimits\<close> (sizes, \<open>encode\<close> and \<open>decode\<close> of the module).
  \<^item> \<open>names/dns.py\<close>: \<open>DnsNames\<close> (names with compression), \<open>DnsRecords\<close> (the record types),
    \<open>DnsMessages\<close> (messages and their truncation), \<open>DnsQueries\<close> (\<open>DNSMixin\<close>,
    \<open>DNSDatagramProtocol\<close>) and \<open>DnsStreams\<close> (\<open>DNSProtocol\<close>).
  \<^item> \<open>internet/defer.py\<close>: \<open>Deferred\<close> (the model), \<open>DeferredProtocol\<close> (invariants of every run),
    \<open>DeferredChains\<close> (what a chain computes), \<open>DeferredSync\<close> (lock, semaphore, queue),
    \<open>DeferredLists\<close> (\<open>DeferredList\<close>, \<open>gatherResults\<close>, \<open>maybeDeferred\<close>) and \<open>InlineCallbacks\<close>.
  \<^item> Timers, \<open>internet/base.py\<close> and \<open>internet/task.py\<close>: \<open>HeapQueue\<close>, \<open>Timers\<close> (\<open>DelayedCall\<close>, \<open>Clock\<close>),
    \<open>ReactorTimers\<close> and \<open>ReactorLoop\<close> (\<open>ReactorBase\<close>: \<open>callLater\<close>, \<open>runUntilCurrent\<close>, \<open>timeout\<close>,
    \<open>callFromThread\<close>), \<open>Looping\<close> (\<open>LoopingCall\<close>), \<open>EventTriggers\<close> (\<open>_ThreePhaseEvent\<close>).
  \<^item> \<open>protocols/policies.py\<close>: \<open>Timeouts\<close> (\<open>TimeoutMixin\<close>, \<open>TimeoutProtocol\<close>), on the timers.
  \<^item> \<open>internet/task.py\<close>: \<open>Cooperator\<close> and \<open>CooperatorTicks\<close>.
  \<^item> Transports: \<open>FileDescriptors\<close> (\<open>internet/abstract.py\<close>), \<open>Connections\<close> (\<open>internet/tcp.py\<close> and
    the dispatch of \<open>internet/selectreactor.py\<close> and \<open>internet/posixbase.py\<close>), \<open>Wire\<close> (receivers and
    connections together).
  \<^item> Producers and consumers: \<open>ProducerProxy\<close> (\<open>protocols/pcp.py\<close>), \<open>TokenBucket\<close> and \<open>Shaping\<close>
    (\<open>protocols/htb.py\<close>).

  \<^bold>\<open>How state and operations correspond.\<close>  A class is a record with a prefix of two letters whose fields
  are its attributes, and a method is a definition with that prefix and the method's name.  A
  method that may raise gives an \<open>outcome\<close> or a sum; one that may not return is a
  \<open>partial_function\<close>, and its value is \<open>None\<close> then.  Calls to objects the code was given (the
  application, a transport, a consumer) are recorded in a list of events, or are parameters that
  say what the object does when it is called, re-entrant calls included.  The operating system's
  answers (\<open>recv\<close>, \<open>send\<close>, the clock) are parameters as well.  Fields that only record what
  happened are named in the theory that has them, and nothing reads them.

  \<^bold>\<open>What the groups of lemmas show.\<close>  For the receivers: chunk boundaries do not matter, what was sent
  is delivered, and buffers are bounded; for the decoders also that a truncated body is noticed.  For
  Deferreds: callbacks run in order, once, and not inside each other, whatever they do to the
  Deferreds; a chain is a fold, also across Deferreds that wait for each other; a generator is the sequential
  program it looks like.  For the timers: only
  due calls are made, each once; the reactor and \<open>Clock\<close> agree turn by turn, for functions that do nothing to
  the timers; a timeout strikes after an idle period; functions from other threads run once, in order.  For
  cooperative tasks: no work is lost, turns are fair, and it is stated which half of the tasks \<open>stop\<close>
  completes.  A \<open>LoopingCall\<close> keeps to its grid, unless \<open>start\<close> overlaps a call that has not ended.  An event
  runs its phases in order and waits between them for exactly the Deferreds that have not fired.  For
  transports: bytes leave in the order in which they were written, and closing waits for them.  For
  proxies and buckets: nothing is lost on the way, a bucket lets through no more than its rate, and connections
  share one exactly when their filter and key agree.
  For AMP: each request is answered once, by the answer with its own tag.  For banana: objects arrive as
  they were sent, two peers are two ordered lossless channels once they have met, and nothing that
  arrives makes the parser hold what could not be sent.  For DNS: messages come back from their
  encoding whatever was compressed, a message is truncated exactly when it is too long, and of a truncated
  one exactly the items that fit come back; a query that its user does not cancel has one result,
  by an answer with its identifier or by its timeout.

  The interfaces are locales, interpreted on the models: \<open>stream_receiver\<close> and \<open>framed_receiver\<close> on the
  receivers, \<open>string_handler\<close> on the box parser, \<open>byte_sender\<close> and \<open>message_channel\<close> on connections,
  \<open>timer_heap\<close>, \<open>timer_owner\<close>, \<open>looping_clock\<close> and \<open>idle_clock\<close> on the heap, the reactor and \<open>Clock\<close>,
  \<open>df_protocol\<close> on Deferreds, \<open>primitive\<close> on the lock and the semaphore, \<open>lossless_relay\<close>,
  \<open>proxy_writer\<close> and \<open>total_writer\<close> on the proxies, \<open>metered\<close> on buckets and shaped consumers,
  \<open>banana_blind\<close> on what the parser does not look at, \<open>dns_item\<close> on queries and on records.

  \<^bold>\<open>Bounds and fuel.\<close>  \<open>df_run\<close> has fuel for the nesting of Deferreds' callbacks, since user callables can
  nest without end; more fuel changes no result (\<open>df_run_mono\<close>), and the theorems about chains say
  that enough of it exists.  The loops of \<open>LineReceiver\<close>, \<open>IntNStringReceiver\<close>, \<open>Clock.advance\<close>,
  \<open>fireEvent\<close> and \<open>_inlineCallbacks\<close> run as long as the application keeps them going; they are partial functions, and their
  theorems state that they return when it does not.  Everything else terminates by a measure.
  Python's integers are unbounded; lengths on the wire are bounded by their prefixes.  Time is an
  exact rational number: rounding of floats is not modelled.  A reference to a name has 14 bits, and the
  theorems about DNS messages are for those of at most 16384 bytes before compression; the loop over
  references ends because it does not go to a place twice.

  \<^bold>\<open>Not modelled.\<close>  Threads, signals, processes, datagrams, TLS, name resolution and the set-up of sockets,
  which are calls of the operating system; reactors other than the dispatch of select; clients,
  ports, endpoints; debugging aids, logging and tracebacks; the
  application protocols (the rest of HTTP, mail, chat, FTP, SSH, the caches, resolvers and servers of DNS,
  perspective broker above banana) and the
  frameworks around them (trial, cred, application, persisted).  The rest of the repository, which
  is copies of pip, pyserial, simplejson and C libraries and short exercises, is left aside.

  \<^bold>\<open>Next.\<close>  Reactor life cycle on top of the event triggers, throttling and connection limits of the
  policies, \<open>FileSender\<close>, jelly above banana, resolvers above the DNS clients.
\<close>

section \<open>Receivers over connections\<close>


text \<open>
  C2: strings sent as netstrings over a TCP connection arrive.  A program frames strings, writes
  them to its connection in whatever pieces and between whatever other events, and calls
  \<open>loseConnection\<close>; the socket then takes at least a byte each time it is writable.  If the
  network brings the bytes that were sent to the peer, in whatever segments its connection
  reads them, the peer's receiver delivers exactly those strings, in order and each once.
\<close>

theorem netstrings_over_tcp:
  assumes "\<forall>st \<in> set steps. step_valid st" and s: "s = tc_run steps (tc_server hc)"
    and "fd_written s = concat (map ns_formatNetstring ms)"
    and "fd_connected s" "\<not> tc_aborting s" "fd_disconnecting s" "fd_producer s = None"
    and "\<forall>send \<in> set sends. send_progress send" "length (tc_pending s) < length sends"
    and network: "concat (tc_chunks peer) = tc_sent (tc_run (map write_ready sends) s)"
    and "0 < n" "\<forall>m \<in> set ms. length m \<le> n"
  shows "ns_strings (feed ns_dataReceived (tc_chunks peer) (ns_makeConnection n)) = ms"
proof -
  have "tc_good s" using tc_run_good [OF tc_server_good assms(1)] s by simp
  from tc_closed_sent [OF this assms(4-9)] network assms(3)
  have "concat (tc_chunks peer) = concat (map ns_formatNetstring ms)" by simp
  with assms(11,12) show ?thesis by (rule ns_feed_frames)
qed

theorem netstrings_over_tcp_witness:
  "ns_strings (feed ns_dataReceived (tc_chunks (tc_run
     [Select (Some (Received ''2:h'', ([PauseReading, ResumeReading], None), ([], None))) [] None,
      Select (Some (Received ''i,'', ([], None), ([], None))) [] None] (tc_server True))) (ns_makeConnection 9)) = [''hi'']"
proof (rule netstrings_over_tcp [where steps = "[Calls [Write (Data ''2:h''), WriteSequence [Data ''i'', Data '',''], LoseConnection]]"
      and hc = False and sends = "replicate 6 two_bytes"])
  let ?s = "tc_run [Calls [Write (Data ''2:h''), WriteSequence [Data ''i'', Data '',''], LoseConnection]] (tc_server False)"
  note run = tc_server_def tc_init_def fd_init_def fd.defs tc_calls_def fd_watch_defs fd_maybePauseProducer_def
    fd_loseConnection_def tc_pending_def fd_writeSequence_def Let_def
  show frames: "fd_written ?s = concat (map ns_formatNetstring [''hi''])"
    by (simp add: run ns_formatNetstring_def dec.simps digit_char_def)
  show s: "fd_connected ?s" "\<not> tc_aborting ?s" "fd_disconnecting ?s" "fd_producer ?s = None" by (simp_all add: run)
  show short: "length (tc_pending ?s) < length (replicate 6 two_bytes)" by (simp add: run)
  show progress: "\<forall>send \<in> set (replicate 6 two_bytes). send_progress send" by (simp add: two_bytes_progress)
  have "tc_good ?s" by (rule tc_run_good [OF tc_server_good]) simp
  from tc_closed_sent [OF this s progress short]
  have "tc_sent (tc_run (map write_ready (replicate 6 two_bytes)) ?s) = ''2:hi,''"
    by (simp only: frames) (simp add: ns_formatNetstring_def dec.simps digit_char_def)
  then show "concat (tc_chunks (tc_run
     [Select (Some (Received ''2:h'', ([PauseReading, ResumeReading], None), ([], None))) [] None,
      Select (Some (Received ''i,'', ([], None), ([], None))) [] None] (tc_server True))) =
      tc_sent (tc_run (map write_ready (replicate 6 two_bytes)) ?s)"
    by (simp add: tc_server_def tc_init_def fd_init_def fd.defs tc_calls_def sr_doSelect_def tc_doRead_def
        tc_dataReceived_def tc_react_def fd_watch_defs fd_pauseProducing_def fd_resumeProducing_def Let_def tc_chunks_def
        List.map_filter_def del: map_replicate)
qed simp_all

end
